(* ===== verification/Rope_Prelude.thy ===== *)
theory Rope_Prelude
  imports Main "HOL-Library.Monad_Syntax" "HOL-Library.Word"
begin

text \<open>
  Shared vocabulary of the development.

  \<^item> Machine integers.  A \<open>usize\<close> of the source is a \<^typ>\<open>nat\<close>.  Lengths of live in-memory
    sequences cannot reach \<^verbatim>\<open>usize::MAX\<close>, so sums of such lengths are written with \<open>+\<close>; where the
    operands are arbitrary caller input the bound \<open>usize_max\<close> is written out.
  \<^item> Panics.  A function that can panic (an \<^verbatim>\<open>assert!\<close>, a \<^verbatim>\<open>debug_assert!\<close>, an \<^verbatim>\<open>unwrap\<close>, an index or
    a subtraction out of range) returns an option, and \<open>None\<close> is the panic.  The model is the
    checked (debug) build; where it does not panic the release build computes the same value.
  \<^item> Sequences.  \<open>slice\<close> is the half-open sub-list \<^verbatim>\<open>xs[b..e]\<close>, \<open>sel P cs xs\<close> keeps the elements of
    \<open>xs\<close> whose label in \<open>cs\<close> satisfies \<open>P\<close>, and \<open>cnt P cs\<close> is how many labels do.
\<close>

named_theorems slice_simps \<open>equations that normalise slices\<close>
named_theorems sel_simps \<open>equations that push selections through list operations\<close>


section \<open>Machine integers and panics\<close>

definition usize_max :: nat where
  "usize_max = 2 ^ 64 - 1"

definition usize_sub :: "nat \<Rightarrow> nat \<Rightarrow> nat option" where
  "usize_sub a b = (if b \<le> a then Some (a - b) else None)"

definition saturating_add :: "nat \<Rightarrow> nat \<Rightarrow> nat" where
  "saturating_add a b = min (a + b) usize_max"

definition rassert :: "bool \<Rightarrow> unit option" where
  "rassert b = (if b then Some () else None)"

lemma rassert_simps [simp]:
  "rassert True = Some ()" "rassert False = None"
  by (simp_all add: rassert_def)

lemma rassert_eq_Some [simp]: "rassert b = Some u \<longleftrightarrow> b"
  by (simp add: rassert_def)

lemma usize_sub_Some [simp]: "b \<le> a \<Longrightarrow> usize_sub a b = Some (a - b)"
  by (simp add: usize_sub_def)

text \<open>\<^verbatim>\<open>slice::get\<close>: \<open>None\<close> past the end (as a value, or as the panic of an index).\<close>

definition list_get :: "'a list \<Rightarrow> nat \<Rightarrow> 'a option" where
  "list_get xs i = (if i < length xs then Some (xs ! i) else None)"

text \<open>\<^verbatim>\<open>Vec::insert\<close>, \<^verbatim>\<open>Vec::remove\<close>, and \<^verbatim>\<open>partition_point\<close> on a vector that is partitioned.\<close>

definition vec_insert :: "'a list \<Rightarrow> nat \<Rightarrow> 'a \<Rightarrow> 'a list option" where
  "vec_insert v i x = do { rassert (i \<le> length v); Some (take i v @ x # drop i v) }"

definition vec_remove :: "'a list \<Rightarrow> nat \<Rightarrow> 'a list option" where
  "vec_remove v i = do { rassert (i < length v); Some (take i v @ drop (i + 1) v) }"

definition partition_point :: "('a \<Rightarrow> bool) \<Rightarrow> 'a list \<Rightarrow> nat" where
  "partition_point P v = length (takeWhile P v)"

text \<open>A \<^verbatim>\<open>for\<close> loop whose body may panic.\<close>

fun foldM :: "('a \<Rightarrow> 's \<Rightarrow> 's option) \<Rightarrow> 'a list \<Rightarrow> 's \<Rightarrow> 's option" where
  "foldM f [] s = Some s"
| "foldM f (x # xs) s = do { s' \<leftarrow> f x s; foldM f xs s' }"

lemma foldM_append: "foldM f (xs @ ys) s = foldM f xs s \<bind> foldM f ys"
proof (induction xs arbitrary: s)
  case (Cons x xs)
  then show ?case by (cases "f x s") simp_all
qed simp

lemma foldM_Some_fold:
  assumes "\<And>x s. f x s = Some (g x s)"
  shows "foldM f xs s = Some (fold g xs s)"
  by (induction xs arbitrary: s) (simp_all add: assms)

lemma foldM_invariant:
  assumes "I s" and "\<And>x s. x \<in> set xs \<Longrightarrow> I s \<Longrightarrow> \<exists>s'. f x s = Some s' \<and> I s'"
  shows "\<exists>s'. foldM f xs s = Some s' \<and> I s'"
  using assms
proof (induction xs arbitrary: s)
  case (Cons x xs)
  then obtain s1 where "f x s = Some s1" "I s1" by fastforce
  with Cons show ?case by simp
qed simp


section \<open>Slices\<close>

definition slice :: "'a list \<Rightarrow> nat \<Rightarrow> nat \<Rightarrow> 'a list" where
  "slice xs b e = take (e - b) (drop b xs)"

lemma slice_empty [simp, slice_simps]: "e \<le> b \<Longrightarrow> slice xs b e = []"
  by (simp add: slice_def)

lemma slice_Nil [simp, slice_simps]: "slice [] b e = []"
  by (simp add: slice_def)

lemma slice_full [simp, slice_simps]: "slice xs 0 (length xs) = xs"
  by (simp add: slice_def)

lemma slice_full_ge: "length xs \<le> n \<Longrightarrow> slice xs 0 n = xs"
  by (simp add: slice_def)

lemma slice_0 [slice_simps]: "slice xs 0 e = take e xs"
  by (simp add: slice_def)

lemma length_slice [simp]: "length (slice xs b e) = min (length xs) e - b"
  by (simp add: slice_def)

lemma slice_split: "a \<le> b \<Longrightarrow> b \<le> c \<Longrightarrow> slice xs a b @ slice xs b c = slice xs a c"
proof -
  assume "a \<le> b" "b \<le> c"
  then have "c - a = (b - a) + (c - b)" by simp
  then show ?thesis
    using \<open>a \<le> b\<close> by (simp only: slice_def take_add drop_drop) simp
qed

lemma take_slice: "a \<le> b \<Longrightarrow> take a xs @ slice xs a b = take b xs"
  using slice_split [of 0 a b xs] by (simp add: slice_0)

lemma slice_drop: "a \<le> b \<Longrightarrow> slice xs a b @ drop b xs = drop a xs"
  using append_take_drop_id [of "b - a" "drop a xs"] by (simp add: slice_def)

lemma slice_append [slice_simps]:
  "slice (xs @ ys) b e = slice xs b e @ slice ys (b - length xs) (e - length xs)"
proof (cases "b \<le> length xs")
  case True then show ?thesis by (simp add: slice_def)
next
  case False then show ?thesis by (simp add: slice_def)
qed

lemma slice_append_left [simp]: "e \<le> length xs \<Longrightarrow> slice (xs @ ys) b e = slice xs b e"
  by (simp add: slice_append)

lemma slice_append_right [simp]:
  "length xs \<le> b \<Longrightarrow> slice (xs @ ys) b e = slice ys (b - length xs) (e - length xs)"
  by (simp add: slice_append) (simp add: slice_def)

lemma slice_map: "slice (map f xs) b e = map f (slice xs b e)"
  by (simp add: slice_def take_map drop_map)

lemma slice_zip: "slice (zip xs ys) b e = zip (slice xs b e) (slice ys b e)"
  by (simp add: slice_def take_zip drop_zip)

lemma slice_replicate: "slice (replicate n x) b e = replicate (min n e - b) x"
  by (auto simp: slice_def min_def)

lemma slice_min: "slice xs b (min e (length xs)) = slice xs b e"
  by (simp add: slice_def min_def)

lemma set_slice_subset: "set (slice xs b e) \<subseteq> set xs"
  by (auto simp: slice_def dest: in_set_takeD in_set_dropD)

lemma set_slice_nth: "x \<in> set (slice xs b e) \<longleftrightarrow> (\<exists>i. b \<le> i \<and> i < e \<and> i < length xs \<and> xs ! i = x)"
proof
  assume "x \<in> set (slice xs b e)"
  then obtain k where "k < e - b" "b + k < length xs" "xs ! (b + k) = x"
    by (auto simp: slice_def in_set_conv_nth)
  then show "\<exists>i. b \<le> i \<and> i < e \<and> i < length xs \<and> xs ! i = x"
    by (intro exI [of _ "b + k"]) simp
next
  assume "\<exists>i. b \<le> i \<and> i < e \<and> i < length xs \<and> xs ! i = x"
  then obtain i where "b \<le> i" "i < e" "i < length xs" "xs ! i = x" by blast
  then show "x \<in> set (slice xs b e)"
    unfolding slice_def in_set_conv_nth by (intro exI [of _ "i - b"]) (simp add: diff_less_mono)
qed


section \<open>Selections\<close>

abbreviation cnt :: "('c \<Rightarrow> bool) \<Rightarrow> 'c list \<Rightarrow> nat" where
  "cnt P cs \<equiv> length (filter P cs)"

definition sel :: "('c \<Rightarrow> bool) \<Rightarrow> 'c list \<Rightarrow> 'a list \<Rightarrow> 'a list" where
  "sel P cs xs = map snd (filter (\<lambda>p. P (fst p)) (zip cs xs))"

lemma sel_Nil [simp, sel_simps]: "sel P [] xs = []" "sel P cs [] = []"
  by (simp_all add: sel_def)

lemma sel_Cons [simp, sel_simps]:
  "sel P (c # cs) (x # xs) = (if P c then x # sel P cs xs else sel P cs xs)"
  by (simp add: sel_def)

lemma sel_append [sel_simps]:
  "length cs = length xs \<Longrightarrow> sel P (cs @ cs') (xs @ xs') = sel P cs xs @ sel P cs' xs'"
  by (simp add: sel_def)

lemma length_sel [simp]: "length cs = length xs \<Longrightarrow> length (sel P cs xs) = cnt P cs"
  by (induction cs xs rule: list_induct2) auto

lemma sel_all: "length cs = length xs \<Longrightarrow> \<forall>c \<in> set cs. P c \<Longrightarrow> sel P cs xs = xs"
  by (induction cs xs rule: list_induct2) auto

lemma sel_none: "length cs = length xs \<Longrightarrow> \<forall>c \<in> set cs. \<not> P c \<Longrightarrow> sel P cs xs = []"
  by (induction cs xs rule: list_induct2) auto

lemma sel_replicate [sel_simps]: "sel P (replicate n c) xs = (if P c then take n xs else [])"
  by (induction n arbitrary: xs) (auto simp: sel_def zip_Cons1 take_Cons split: list.splits)

lemma sel_map_labels: "sel P (map f cs) xs = sel (\<lambda>c. P (f c)) cs xs"
proof (induction cs arbitrary: xs)
  case (Cons c cs) then show ?case by (cases xs) auto
qed simp

lemma sel_map_elems: "sel P cs (map f xs) = map f (sel P cs xs)"
proof (induction cs arbitrary: xs)
  case (Cons c cs) then show ?case by (cases xs) auto
qed simp

lemma sel_cong: "length cs = length xs \<Longrightarrow> length ds = length xs \<Longrightarrow>
    (\<And>i. i < length xs \<Longrightarrow> P (cs ! i) \<longleftrightarrow> Q (ds ! i)) \<Longrightarrow> sel P cs xs = sel Q ds xs"
proof (induction cs xs arbitrary: ds rule: list_induct2)
  case (Cons c cs x xs)
  then obtain d ds' where ds: "ds = d # ds'" by (cases ds) auto
  have "P c \<longleftrightarrow> Q d" using Cons.prems(2) [of 0] ds by simp
  moreover have "sel P cs xs = sel Q ds' xs"
  proof (rule Cons.IH)
    show "length ds' = length xs" using Cons.prems(1) ds by simp
    show "P (cs ! i) \<longleftrightarrow> Q (ds' ! i)" if "i < length xs" for i
      using Cons.prems(2) [of "Suc i"] that ds by simp
  qed
  ultimately show ?case using ds by simp
qed simp

lemma cnt_take_le: "cnt P (take n cs) \<le> cnt P cs"
  by (metis append_take_drop_id filter_append le_add1 length_append)

lemma cnt_take_mono: "a \<le> b \<Longrightarrow> cnt P (take a cs) \<le> cnt P (take b cs)"
  by (metis cnt_take_le min.absorb1 take_take)

lemma cnt_slice: "a \<le> b \<Longrightarrow> cnt P (take b cs) = cnt P (take a cs) + cnt P (slice cs a b)"
  by (metis filter_append length_append take_slice)

lemma sel_take_drop:
  assumes "length cs = length xs"
  shows "take (cnt P (take n cs)) (sel P cs xs) = sel P (take n cs) (take n xs)"
    and "drop (cnt P (take n cs)) (sel P cs xs) = sel P (drop n cs) (drop n xs)"
proof -
  have split: "sel P cs xs = sel P (take n cs) (take n xs) @ sel P (drop n cs) (drop n xs)"
    using sel_append [of "take n cs" "take n xs" P "drop n cs" "drop n xs"] assms by simp
  have len: "length (sel P (take n cs) (take n xs)) = cnt P (take n cs)"
    using assms by simp
  show "take (cnt P (take n cs)) (sel P cs xs) = sel P (take n cs) (take n xs)"
    using split len by simp
  show "drop (cnt P (take n cs)) (sel P cs xs) = sel P (drop n cs) (drop n xs)"
    using split len by simp
qed

lemma sel_slice:
  assumes "length cs = length xs" and "a \<le> b"
  shows "slice (sel P cs xs) (cnt P (take a cs)) (cnt P (take b cs))
    = sel P (slice cs a b) (slice xs a b)"
proof -
  have "cnt P (take b cs) - cnt P (take a cs) = cnt P (take (b - a) (drop a cs))"
    using cnt_slice [OF \<open>a \<le> b\<close>, of P cs] by (simp add: slice_def)
  then show ?thesis
    using sel_take_drop(1) [of "drop a cs" "drop a xs" P "b - a"] assms
    by (simp add: slice_def sel_take_drop(2))
qed

lemma sel_slice_all:
  assumes "length cs = length xs" and "a \<le> b" and "b \<le> length cs"
    and "\<forall>c \<in> set (slice cs a b). P c"
  shows "slice (sel P cs xs) (cnt P (take a cs)) (cnt P (take b cs)) = slice xs a b"
  using assms by (simp add: sel_slice sel_all)

end
