(* ===== verification/Rope_Interval.thy ===== *)
theory Rope_Interval
  imports Rope_Prelude
begin

text \<open>
  The closed-open intervals of \<^verbatim>\<open>xi-rope/src/interval.rs\<close>: the struct, its constructor with the
  \<^verbatim>\<open>debug_assert!\<close>, the trisection predicates, the set-like operations and the conversions from
  Rust's range types.  The meaning of an interval is the set \<open>iv_set\<close> of the positions in it, and
  the lemmas state each operation on that set.
\<close>

section \<open>The struct and its operations\<close>

record interval =
  iv_start :: nat
  iv_end :: nat

definition mk_iv :: "nat \<Rightarrow> nat \<Rightarrow> interval" where
  "mk_iv s e = \<lparr>iv_start = s, iv_end = e\<rparr>"

definition interval_new :: "nat \<Rightarrow> nat \<Rightarrow> interval option" where
  "interval_new s e = do { rassert (s \<le> e); Some \<lparr>iv_start = s, iv_end = e\<rparr> }"

definition start_end :: "interval \<Rightarrow> nat \<times> nat" where
  "start_end iv = (iv_start iv, iv_end iv)"

definition is_before :: "interval \<Rightarrow> nat \<Rightarrow> bool" where
  "is_before iv v \<longleftrightarrow> iv_end iv \<le> v"

definition iv_contains :: "interval \<Rightarrow> nat \<Rightarrow> bool" where
  "iv_contains iv v \<longleftrightarrow> iv_start iv \<le> v \<and> v < iv_end iv"

definition is_after :: "interval \<Rightarrow> nat \<Rightarrow> bool" where
  "is_after iv v \<longleftrightarrow> iv_start iv > v"

definition iv_is_empty :: "interval \<Rightarrow> bool" where
  "iv_is_empty iv \<longleftrightarrow> iv_end iv \<le> iv_start iv"

definition iv_intersect :: "interval \<Rightarrow> interval \<Rightarrow> interval" where
  "iv_intersect a b =
     (let s = max (iv_start a) (iv_start b); e = min (iv_end a) (iv_end b)
      in \<lparr>iv_start = s, iv_end = max s e\<rparr>)"

definition iv_union :: "interval \<Rightarrow> interval \<Rightarrow> interval" where
  "iv_union a b =
     (if iv_is_empty a then b
      else if iv_is_empty b then a
      else \<lparr>iv_start = min (iv_start a) (iv_start b), iv_end = max (iv_end a) (iv_end b)\<rparr>)"

definition iv_prefix :: "interval \<Rightarrow> interval \<Rightarrow> interval" where
  "iv_prefix a b =
     \<lparr>iv_start = min (iv_start a) (iv_start b), iv_end = min (iv_end a) (iv_start b)\<rparr>"

definition iv_suffix :: "interval \<Rightarrow> interval \<Rightarrow> interval" where
  "iv_suffix a b =
     \<lparr>iv_start = max (iv_start a) (iv_end b), iv_end = max (iv_end a) (iv_end b)\<rparr>"

definition iv_translate :: "interval \<Rightarrow> nat \<Rightarrow> interval" where
  "iv_translate iv n = \<lparr>iv_start = iv_start iv + n, iv_end = iv_end iv + n\<rparr>"

definition iv_translate_neg :: "interval \<Rightarrow> nat \<Rightarrow> interval option" where
  "iv_translate_neg iv n = do {
     rassert (iv_start iv \<ge> n);
     s \<leftarrow> usize_sub (iv_start iv) n;
     e \<leftarrow> usize_sub (iv_end iv) n;
     Some \<lparr>iv_start = s, iv_end = e\<rparr> }"

definition iv_size :: "interval \<Rightarrow> nat option" where
  "iv_size iv = usize_sub (iv_end iv) (iv_start iv)"

text \<open>
  \<^verbatim>\<open>IntervalBounds\<close>: what a caller may write for a range.  \<^verbatim>\<open>From<Range>\<close> performs no check, the
  other conversions go through \<^verbatim>\<open>Interval::new\<close>.
\<close>

datatype interval_bounds =
    BInterval interval
  | BRange nat nat
  | BRangeTo nat
  | BRangeInclusive nat nat
  | BRangeToInclusive nat
  | BRangeFrom nat
  | BRangeFull

fun into_interval :: "interval_bounds \<Rightarrow> nat \<Rightarrow> interval option" where
  "into_interval (BInterval iv) _ = Some iv"
| "into_interval (BRange s e) _ = Some \<lparr>iv_start = s, iv_end = e\<rparr>"
| "into_interval (BRangeTo e) _ = interval_new 0 e"
| "into_interval (BRangeInclusive s e) _ = interval_new s (saturating_add e 1)"
| "into_interval (BRangeToInclusive e) _ = interval_new 0 (saturating_add e 1)"
| "into_interval (BRangeFrom s) upper = interval_new s upper"
| "into_interval BRangeFull upper = interval_new 0 upper"


section \<open>Laws\<close>

definition iv_set :: "interval \<Rightarrow> nat set" where
  "iv_set iv = {iv_start iv..<iv_end iv}"

definition iv_wf :: "interval \<Rightarrow> bool" where
  "iv_wf iv \<longleftrightarrow> iv_start iv \<le> iv_end iv"

lemmas iv_defs = iv_set_def iv_wf_def iv_is_empty_def is_before_def is_after_def iv_contains_def
  iv_intersect_def iv_union_def iv_prefix_def iv_suffix_def Let_def

lemma mk_iv_simps [simp]:
  "iv_start (mk_iv s e) = s" "iv_end (mk_iv s e) = e"
  "iv_wf (mk_iv s e) \<longleftrightarrow> s \<le> e" "iv_is_empty (mk_iv s e) \<longleftrightarrow> e \<le> s"
  "mk_iv s e = mk_iv s' e' \<longleftrightarrow> s = s' \<and> e = e'"
  by (simp_all add: mk_iv_def iv_wf_def iv_is_empty_def)

lemma mk_iv_collapse [simp]: "mk_iv (iv_start iv) (iv_end iv) = iv"
  by (simp add: mk_iv_def)

lemma interval_new_Some [simp]: "s \<le> e \<Longrightarrow> interval_new s e = Some (mk_iv s e)"
  by (simp add: interval_new_def mk_iv_def)

lemma interval_new_None: "e < s \<Longrightarrow> interval_new s e = None"
  by (simp add: interval_new_def)

lemma interval_new_wf: "interval_new s e = Some iv \<Longrightarrow> iv_wf iv \<and> start_end iv = (s, e)"
  by (auto simp: interval_new_def iv_wf_def start_end_def bind_eq_Some_conv)

text \<open>The three tests \<^verbatim>\<open>is_before\<close>, \<^verbatim>\<open>contains\<close> and \<^verbatim>\<open>is_after\<close> are a trisection.\<close>

lemma iv_trisection:
  assumes "iv_wf iv"
  shows "(is_before iv v \<and> \<not> iv_contains iv v \<and> \<not> is_after iv v)
       \<or> (\<not> is_before iv v \<and> iv_contains iv v \<and> \<not> is_after iv v)
       \<or> (\<not> is_before iv v \<and> \<not> iv_contains iv v \<and> is_after iv v)"
  using assms by (auto simp: iv_defs)

lemma iv_contains_set: "iv_contains iv v \<longleftrightarrow> v \<in> iv_set iv"
  by (simp add: iv_defs)

lemma iv_is_empty_set: "iv_is_empty iv \<longleftrightarrow> iv_set iv = {}"
  by (simp add: iv_defs not_less)

lemma iv_intersect_wf [simp]: "iv_wf (iv_intersect a b)"
  by (simp add: iv_defs)

lemma iv_set_intersect: "iv_set (iv_intersect a b) = iv_set a \<inter> iv_set b"
  by (auto simp: iv_defs)

lemma iv_set_union_least:
  "iv_set a \<union> iv_set b \<subseteq> iv_set (iv_union a b)"
  "iv_set a \<union> iv_set b \<subseteq> iv_set c \<Longrightarrow> iv_set (iv_union a b) \<subseteq> iv_set c"
proof -
  show "iv_set a \<union> iv_set b \<subseteq> iv_set (iv_union a b)"
    by (auto simp: iv_defs)
  assume sub: "iv_set a \<union> iv_set b \<subseteq> iv_set c"
  show "iv_set (iv_union a b) \<subseteq> iv_set c"
  proof (cases "iv_is_empty a \<or> iv_is_empty b")
    case True
    with sub show ?thesis by (auto simp: iv_defs)
  next
    case False
    then have ends: "iv_start a \<in> iv_set a" "iv_end a - 1 \<in> iv_set a"
      "iv_start b \<in> iv_set b" "iv_end b - 1 \<in> iv_set b"
      by (auto simp: iv_defs)
    with sub have "iv_start a \<in> iv_set c" "iv_end a - 1 \<in> iv_set c"
      "iv_start b \<in> iv_set c" "iv_end b - 1 \<in> iv_set c"
      by blast+
    with False show ?thesis by (auto simp: iv_defs)
  qed
qed

lemma iv_set_prefix: "iv_wf b \<Longrightarrow> iv_set (iv_prefix a b) = {v \<in> iv_set a. is_after b v}"
  by (auto simp: iv_defs)

lemma iv_set_suffix: "iv_wf b \<Longrightarrow> iv_set (iv_suffix a b) = {v \<in> iv_set a. is_before b v}"
  by (auto simp: iv_defs)

text \<open>\<^verbatim>\<open>prefix\<close> and \<^verbatim>\<open>suffix\<close> are the two halves of \<^verbatim>\<open>self - other\<close>.\<close>

lemma iv_prefix_suffix_difference:
  assumes "iv_wf b"
  shows "iv_set a - iv_set b = iv_set (iv_prefix a b) \<union> iv_set (iv_suffix a b)"
  using assms by (auto simp: iv_defs)

lemma iv_translate_mk [simp]: "iv_translate (mk_iv s e) n = mk_iv (s + n) (e + n)"
  by (simp add: iv_translate_def mk_iv_def)

lemma iv_intersect_mk:
  "iv_intersect (mk_iv a b) (mk_iv c d) = mk_iv (max a c) (max (max a c) (min b d))"
  by (simp add: iv_intersect_def mk_iv_def Let_def)

lemma iv_translate_roundtrip: "iv_wf iv \<Longrightarrow> iv_translate_neg (iv_translate iv n) n = Some iv"
  by (simp add: iv_translate_def iv_translate_neg_def iv_wf_def)

lemma iv_translate_neg_mk [simp]:
  "n \<le> s \<Longrightarrow> s \<le> e \<Longrightarrow> iv_translate_neg (mk_iv s e) n = Some (mk_iv (s - n) (e - n))"
  by (simp add: iv_translate_neg_def mk_iv_def)

lemma iv_size_card: "iv_wf iv \<Longrightarrow> iv_size iv = Some (card (iv_set iv))"
  by (simp add: iv_size_def iv_wf_def iv_set_def)

end
