(* ===== verification/Rope_Tree.thy ===== *)
theory Rope_Tree
  imports Rope_Interval
begin

text \<open>
  The persistent b-tree of \<^verbatim>\<open>xi-rope/src/tree\<close>: nodes, concatenation, the builder and slicing.
  The traits \<^verbatim>\<open>Leaf\<close> and \<^verbatim>\<open>NodeInfo\<close> are a record of operations that every function takes as its
  first argument; the documented laws of the traits are the locale \<open>leaf_laws\<close>, inside which the
  correctness of the tree is proved once for every kind of leaf.  Sharing through \<^verbatim>\<open>Arc\<close> is not
  observable in the values, so a node is a plain tree; \<^verbatim>\<open>Arc::make_mut\<close> is the update of a copy.
\<close>

section \<open>Traits\<close>

record ('l, 'i) node_info =
  leaf_len :: "'l \<Rightarrow> nat"
  leaf_is_ok_child :: "'l \<Rightarrow> bool"
  leaf_push_maybe_split :: "'l \<Rightarrow> 'l \<Rightarrow> interval \<Rightarrow> ('l \<times> 'l option) option"
  leaf_default :: "'l"
  ni_accumulate :: "'i \<Rightarrow> 'i \<Rightarrow> 'i"
  ni_compute_info :: "'l \<Rightarrow> 'i"

definition ni_identity :: "('l, 'i) node_info \<Rightarrow> 'i" where
  "ni_identity ni = ni_compute_info ni (leaf_default ni)"

text \<open>The default method \<^verbatim>\<open>Leaf::subseq\<close>, with its \<^verbatim>\<open>debug_assert!\<close> that nothing is split off.\<close>

definition leaf_subseq :: "('l, 'i) node_info \<Rightarrow> 'l \<Rightarrow> interval \<Rightarrow> 'l option" where
  "leaf_subseq ni l iv = do {
     (result, split) \<leftarrow> leaf_push_maybe_split ni (leaf_default ni) l iv;
     rassert (split = None);
     Some result }"


section \<open>Nodes\<close>

definition MIN_CHILDREN :: nat where "MIN_CHILDREN = 4"

definition MAX_CHILDREN :: nat where "MAX_CHILDREN = 8"

datatype ('l, 'n) node_val = Leaf 'l | Internal "'n list"

datatype ('l, 'i) node =
  Node (n_height: nat) (n_len: nat) (n_info: 'i) (n_val: "('l, ('l, 'i) node) node_val")

definition from_leaf :: "('l, 'i) node_info \<Rightarrow> 'l \<Rightarrow> ('l, 'i) node" where
  "from_leaf ni l = Node 0 (leaf_len ni l) (ni_compute_info ni l) (Leaf l)"

definition node_is_empty :: "('l, 'i) node \<Rightarrow> bool" where
  "node_is_empty n \<longleftrightarrow> n_len n = 0"

definition is_leaf :: "('l, 'i) node \<Rightarrow> bool" where
  "is_leaf n \<longleftrightarrow> n_height n = 0"

definition node_interval :: "('l, 'i) node \<Rightarrow> interval" where
  "node_interval n = mk_iv 0 (n_len n)"

definition get_children :: "('l, 'i) node \<Rightarrow> ('l, 'i) node list option" where
  "get_children n = (case n_val n of Internal v \<Rightarrow> Some v | Leaf _ \<Rightarrow> None)"

definition get_leaf :: "('l, 'i) node \<Rightarrow> 'l option" where
  "get_leaf n = (case n_val n of Leaf l \<Rightarrow> Some l | Internal _ \<Rightarrow> None)"

definition node_is_ok_child :: "('l, 'i) node_info \<Rightarrow> ('l, 'i) node \<Rightarrow> bool" where
  "node_is_ok_child ni n =
     (case n_val n of
        Leaf l \<Rightarrow> leaf_is_ok_child ni l
      | Internal nodes \<Rightarrow> length nodes \<ge> MIN_CHILDREN)"

definition from_nodes :: "('l, 'i) node_info \<Rightarrow> ('l, 'i) node list \<Rightarrow> ('l, 'i) node option" where
  "from_nodes ni nodes = do {
     rassert (length nodes > 1);
     rassert (length nodes \<le> MAX_CHILDREN);
     let height = n_height (nodes ! 0) + 1;
     rassert (node_is_ok_child ni (nodes ! 0));
     (len, info) \<leftarrow> foldM (\<lambda>child (len, info). do {
         rassert (n_height child + 1 = height);
         rassert (node_is_ok_child ni child);
         Some (len + n_len child, ni_accumulate ni info (n_info child)) })
       (tl nodes) (n_len (nodes ! 0), n_info (nodes ! 0));
     Some (Node height len info (Internal nodes)) }"

text \<open>
  \<^verbatim>\<open>try_with_leaf_mut\<close>: run a callback on the leaf of a leaf node and recompute length and info.
\<close>

definition try_with_leaf_mut ::
  "('l, 'i) node_info \<Rightarrow> ('l, 'i) node \<Rightarrow> ('l \<Rightarrow> ('l \<times> 't) option) \<Rightarrow> (('l, 'i) node \<times> 't) option"
  where
  "try_with_leaf_mut ni n f =
     (case n_val n of
        Leaf l \<Rightarrow> do {
          (l', result) \<leftarrow> f l;
          Some (Node (n_height n) (leaf_len ni l') (ni_compute_info ni l') (Leaf l'), result) }
      | Internal _ \<Rightarrow> None)"

definition merge_nodes ::
  "('l, 'i) node_info \<Rightarrow> ('l, 'i) node list \<Rightarrow> ('l, 'i) node list \<Rightarrow> ('l, 'i) node option" where
  "merge_nodes ni children1 children2 =
     (let n_children = length children1 + length children2
      in if n_children \<le> MAX_CHILDREN then from_nodes ni (children1 @ children2)
         else (let splitpoint = min MAX_CHILDREN (n_children - MIN_CHILDREN);
                   all_children = children1 @ children2
               in do {
                 left \<leftarrow> from_nodes ni (take splitpoint all_children);
                 right \<leftarrow> from_nodes ni (drop splitpoint all_children);
                 from_nodes ni [left, right] }))"

definition merge_leaves ::
  "('l, 'i) node_info \<Rightarrow> ('l, 'i) node \<Rightarrow> ('l, 'i) node \<Rightarrow> ('l, 'i) node option" where
  "merge_leaves ni rope1 rope2 = do {
     rassert (is_leaf rope1 \<and> is_leaf rope2);
     leaf1 \<leftarrow> get_leaf rope1;
     leaf2 \<leftarrow> get_leaf rope2;
     if leaf_is_ok_child ni leaf1 \<and> leaf_is_ok_child ni leaf2 then from_nodes ni [rope1, rope2]
     else do {
       (rope1, res) \<leftarrow> try_with_leaf_mut ni rope1
         (\<lambda>l. leaf_push_maybe_split ni l leaf2 (mk_iv 0 (leaf_len ni leaf2)));
       case res of
         Some new \<Rightarrow> from_nodes ni [rope1, from_leaf ni new]
       | None \<Rightarrow> Some rope1 } }"

lemma get_children_size:
  assumes "get_children n = Some v" and "c \<in> set v"
  shows "size c < size n"
proof -
  obtain h l i where n: "n = Node h l i (Internal v)"
    using assms(1) by (cases n) (auto simp: get_children_def split: node_val.splits)
  have "size c \<le> size_list size v"
    using assms(2) by (rule size_list_estimation') simp
  then show ?thesis by (simp add: n)
qed

function concat_node ::
  "('l, 'i) node_info \<Rightarrow> ('l, 'i) node \<Rightarrow> ('l, 'i) node \<Rightarrow> ('l, 'i) node option" where
  "concat_node ni rope1 rope2 =
     (let h1 = n_height rope1; h2 = n_height rope2
      in if h1 < h2 then do {
           children2 \<leftarrow> get_children rope2;
           if h1 = h2 - 1 \<and> node_is_ok_child ni rope1 then merge_nodes ni [rope1] children2
           else do {
             first \<leftarrow> list_get children2 0;
             newrope \<leftarrow> concat_node ni rope1 first;
             if n_height newrope = h2 - 1 then merge_nodes ni [newrope] (tl children2)
             else do {
               newchildren \<leftarrow> get_children newrope;
               merge_nodes ni newchildren (tl children2) } } }
         else if h1 = h2 then
           (if node_is_ok_child ni rope1 \<and> node_is_ok_child ni rope2
            then from_nodes ni [rope1, rope2]
            else if h1 = 0 then merge_leaves ni rope1 rope2
            else do {
              children1 \<leftarrow> get_children rope1;
              children2 \<leftarrow> get_children rope2;
              merge_nodes ni children1 children2 })
         else do {
           children1 \<leftarrow> get_children rope1;
           if h2 = h1 - 1 \<and> node_is_ok_child ni rope2 then merge_nodes ni children1 [rope2]
           else do {
             lastix \<leftarrow> usize_sub (length children1) 1;
             newrope \<leftarrow> concat_node ni (children1 ! lastix) rope2;
             if n_height newrope = h1 - 1 then merge_nodes ni (take lastix children1) [newrope]
             else do {
               newchildren \<leftarrow> get_children newrope;
               merge_nodes ni (take lastix children1) newchildren } } })"
  by pat_completeness auto
termination
proof (relation "measure (\<lambda>(ni, a, b). size a + size b)", goal_cases)
  case (2 ni rope1 rope2 x xa children2 first)
  then show ?case
    using get_children_size [of rope2 children2 first]
    by (auto simp: list_get_def split: if_splits)
next
  case (3 ni rope1 rope2 x xa children1 lastix)
  then show ?case
    using get_children_size [of rope1 children1 "children1 ! lastix"]
    by (auto simp: usize_sub_def split: if_splits)
qed simp

declare concat_node.simps [simp del]

definition node_default :: "('l, 'i) node_info \<Rightarrow> ('l, 'i) node" where
  "node_default ni = from_leaf ni (leaf_default ni)"


section \<open>The builder\<close>

text \<open>
  The stack of the builder is listed with its top first; each level is listed as in the source.
  \<^verbatim>\<open>pop\<close> turns a level into a node.
\<close>

type_synonym ('l, 'i) tree_builder = "('l, 'i) node list list"

definition tb_pop :: "('l, 'i) node_info \<Rightarrow> ('l, 'i) node list \<Rightarrow> ('l, 'i) node option" where
  "tb_pop ni nodes =
     (case nodes of [] \<Rightarrow> None | [node] \<Rightarrow> Some node | _ \<Rightarrow> from_nodes ni nodes)"

text \<open>The \<^verbatim>\<open>Ordering::Equal\<close> arm of \<^verbatim>\<open>push\<close>: append a node to a level of its own height.\<close>

definition tb_push_equal ::
  "('l, 'i) node_info \<Rightarrow> ('l, 'i) node list \<Rightarrow> ('l, 'i) node \<Rightarrow> ('l, 'i) node list option" where
  "tb_push_equal ni tos n =
     (if node_is_ok_child ni (last tos) \<and> node_is_ok_child ni n then Some (tos @ [n])
      else if n_height n = 0 then do {
        leaf \<leftarrow> get_leaf n;
        (last', new_leaf) \<leftarrow> try_with_leaf_mut ni (last tos)
          (\<lambda>l. leaf_push_maybe_split ni l leaf (mk_iv 0 (n_len n)));
        Some (butlast tos @ [last']
              @ (case new_leaf of None \<Rightarrow> [] | Some new \<Rightarrow> [from_leaf ni new])) }
      else do {
        children1 \<leftarrow> get_children (last tos);
        children2 \<leftarrow> get_children n;
        rassert (children1 \<noteq> [] \<and> children2 \<noteq> []);
        let n_children = length children1 + length children2;
        if n_children \<le> MAX_CHILDREN then do {
          node \<leftarrow> from_nodes ni (children1 @ children2);
          Some (butlast tos @ [node]) }
        else do {
          let splitpoint = min MAX_CHILDREN (n_children - MIN_CHILDREN);
          let all_children = children1 @ children2;
          left \<leftarrow> from_nodes ni (take splitpoint all_children);
          right \<leftarrow> from_nodes ni (drop splitpoint all_children);
          Some (butlast tos @ [left, right]) } })"

fun tb_push ::
  "('l, 'i) node_info \<Rightarrow> ('l, 'i) tree_builder \<Rightarrow> ('l, 'i) node \<Rightarrow> ('l, 'i) tree_builder option"
  where
  "tb_push ni [] n = Some [[n]]"
| "tb_push ni (tos # rest) n = do {
     t0 \<leftarrow> list_get tos 0;
     if n_height t0 < n_height n then do {
       popped \<leftarrow> tb_pop ni tos;
       n' \<leftarrow> concat_node ni popped n;
       tb_push ni rest n' }
     else if n_height t0 = n_height n then do {
       tos' \<leftarrow> tb_push_equal ni tos n;
       if length tos' < MAX_CHILDREN then Some (tos' # rest)
       else do {
         n' \<leftarrow> tb_pop ni tos';
         tb_push ni rest n' } }
     else Some ([n] # tos # rest) }"

definition tb_push_leaf ::
  "('l, 'i) node_info \<Rightarrow> ('l, 'i) tree_builder \<Rightarrow> 'l \<Rightarrow> ('l, 'i) tree_builder option" where
  "tb_push_leaf ni st l = tb_push ni st (from_leaf ni l)"

definition tb_push_leaves ::
  "('l, 'i) node_info \<Rightarrow> ('l, 'i) tree_builder \<Rightarrow> 'l list \<Rightarrow> ('l, 'i) tree_builder option" where
  "tb_push_leaves ni st leaves = foldM (\<lambda>leaf st. tb_push ni st (from_leaf ni leaf)) leaves st"

definition tb_push_leaf_slice ::
  "('l, 'i) node_info \<Rightarrow> ('l, 'i) tree_builder \<Rightarrow> 'l \<Rightarrow> interval \<Rightarrow> ('l, 'i) tree_builder option"
  where
  "tb_push_leaf_slice ni st l iv = do {
     sub \<leftarrow> leaf_subseq ni l iv;
     tb_push ni st (from_leaf ni sub) }"

function (sequential) tb_push_slice ::
  "('l, 'i) node_info \<Rightarrow> ('l, 'i) tree_builder \<Rightarrow> ('l, 'i) node \<Rightarrow> interval
   \<Rightarrow> ('l, 'i) tree_builder option"
  and tb_push_slices ::
  "('l, 'i) node_info \<Rightarrow> ('l, 'i) tree_builder \<Rightarrow> ('l, 'i) node list \<Rightarrow> nat \<Rightarrow> interval
   \<Rightarrow> ('l, 'i) tree_builder option" where
  "tb_push_slice ni st n iv =
     (if iv_is_empty iv then Some st
      else if iv = node_interval n then tb_push ni st n
      else case n_val n of
             Leaf l \<Rightarrow> tb_push_leaf_slice ni st l iv
           | Internal v \<Rightarrow> tb_push_slices ni st v 0 iv)"
| "tb_push_slices ni st [] offset iv = Some st"
| "tb_push_slices ni st (child # v) offset iv =
     (if is_before iv offset then Some st
      else do {
        let child_iv = node_interval child;
        rec_iv \<leftarrow> iv_translate_neg (iv_intersect iv (iv_translate child_iv offset)) offset;
        st \<leftarrow> tb_push_slice ni st child rec_iv;
        tb_push_slices ni st v (offset + n_len child) iv })"
  by pat_completeness auto
termination
proof (relation "measure (case_sum (\<lambda>(ni, st, n, iv). 2 * size n)
    (\<lambda>(ni, st, v, off, iv). 2 * size_list size v + 1))", goal_cases)
  case (2 ni st n iv v)
  then show ?case by (cases n) simp
qed simp_all

declare tb_push_slice.simps [simp del]

fun tb_build_loop ::
  "('l, 'i) node_info \<Rightarrow> ('l, 'i) tree_builder \<Rightarrow> ('l, 'i) node \<Rightarrow> ('l, 'i) node option" where
  "tb_build_loop ni [] n = Some n"
| "tb_build_loop ni (tos # rest) n = do {
     popped \<leftarrow> tb_pop ni tos;
     n' \<leftarrow> concat_node ni popped n;
     tb_build_loop ni rest n' }"

definition tb_build :: "('l, 'i) node_info \<Rightarrow> ('l, 'i) tree_builder \<Rightarrow> ('l, 'i) node option" where
  "tb_build ni st =
     (case st of
        [] \<Rightarrow> Some (from_leaf ni (leaf_default ni))
      | tos # rest \<Rightarrow> do {
          n \<leftarrow> tb_pop ni tos;
          tb_build_loop ni rest n })"

definition node_subseq ::
  "('l, 'i) node_info \<Rightarrow> ('l, 'i) node \<Rightarrow> interval_bounds \<Rightarrow> ('l, 'i) node option" where
  "node_subseq ni n bounds = do {
     iv \<leftarrow> into_interval bounds (n_len n);
     st \<leftarrow> tb_push_slice ni [] n iv;
     tb_build ni st }"

definition node_edit ::
  "('l, 'i) node_info \<Rightarrow> ('l, 'i) node \<Rightarrow> interval_bounds \<Rightarrow> ('l, 'i) node \<Rightarrow> ('l, 'i) node option"
  where
  "node_edit ni n bounds new = do {
     iv \<leftarrow> into_interval bounds (n_len n);
     let self_iv = node_interval n;
     st \<leftarrow> tb_push_slice ni [] n (iv_prefix self_iv iv);
     st \<leftarrow> tb_push ni st new;
     st \<leftarrow> tb_push_slice ni st n (iv_suffix self_iv iv);
     tb_build ni st }"

text \<open>
  The debugging tool \<^verbatim>\<open>assert_integrity\<close>: panics when the stored metadata or the shape of the tree
  is inconsistent.
\<close>

function (sequential) assert_integrity_inner ::
  "('l, 'i) node_info \<Rightarrow> ('l, 'i) node \<Rightarrow> nat \<Rightarrow> unit option"
  and assert_integrity_children ::
  "('l, 'i) node_info \<Rightarrow> ('l, 'i) node list \<Rightarrow> nat \<Rightarrow> nat \<Rightarrow> nat \<Rightarrow> 'i \<Rightarrow> (nat \<times> 'i) option" where
  "assert_integrity_inner ni n depth =
     (case n_val n of
        Leaf l \<Rightarrow> do {
          rassert (\<not> (depth > 0 \<and> leaf_len ni l = 0));
          rassert (n_height n = 0);
          rassert (n_len n = leaf_len ni l);
          rassert (n_info n = ni_compute_info ni l) }
      | Internal children \<Rightarrow> do {
          rassert (n_height n \<noteq> 0);
          rassert (\<not> (length children < 2 \<or> length children > MAX_CHILDREN));
          (len, info) \<leftarrow>
            assert_integrity_children ni children depth (n_height n) 0 (ni_identity ni);
          rassert (n_len n = len);
          rassert (n_info n = info) })"
| "assert_integrity_children ni [] depth height len info = Some (len, info)"
| "assert_integrity_children ni (child # children) depth height len info = do {
     rassert (n_height child + 1 = height);
     assert_integrity_inner ni child (depth + 1);
     assert_integrity_children ni children depth height (len + n_len child)
       (ni_accumulate ni info (n_info child)) }"
  by pat_completeness auto
termination
proof (relation "measure (case_sum (\<lambda>(ni, n, d). 2 * size n)
    (\<lambda>(ni, v, d, h, len, i). 2 * size_list size v + 1))", goal_cases)
  case (2 ni n depth v)
  then show ?case by (cases n) simp
qed simp_all

declare assert_integrity_inner.simps [simp del]

definition assert_integrity :: "('l, 'i) node_info \<Rightarrow> ('l, 'i) node \<Rightarrow> unit option" where
  "assert_integrity ni n = assert_integrity_inner ni n 0"

end
