(* ===== verification/Rope_Tree_Laws.thy ===== *)
theory Rope_Tree_Laws
  imports Rope_Tree
begin

text \<open>
  Correctness of the tree, for every kind of leaf.  The locale \<open>leaf_laws\<close> states what the traits
  \<^verbatim>\<open>Leaf\<close> and \<^verbatim>\<open>NodeInfo\<close> ask of an implementation: a leaf denotes the list \<open>lc l\<close> of its base
  units, \<open>push_maybe_split\<close> appends a slice, the info is a monoid homomorphism.  From these laws
  follow, for well-formed nodes (\<open>node_wf\<close>): no operation panics, results are well-formed, and the
  contents are concatenations and slices.  A position may cut a leaf only where an element satisfies
  \<open>start\<close> (for text: where a byte is not a UTF-8 continuation byte).
\<close>

section \<open>Contents and the invariant\<close>

primrec node_leaves :: "('l, 'i) node \<Rightarrow> 'l list" where
  "node_leaves (Node h len info v) =
     (case map_node_val id node_leaves v of Leaf l \<Rightarrow> [l] | Internal lss \<Rightarrow> concat lss)"

definition node_content :: "('l \<Rightarrow> 'a list) \<Rightarrow> ('l, 'i) node \<Rightarrow> 'a list" where
  "node_content lc n = concat (map lc (node_leaves n))"

lemma node_leaves_simps [simp]:
  "node_leaves (Node h len info (Leaf l)) = [l]"
  "node_leaves (Node h len info (Internal v)) = concat (map node_leaves v)"
  by simp_all

declare node_leaves.simps [simp del]

lemma node_content_simps [simp]:
  "node_content lc (Node h len info (Leaf l)) = lc l"
  "node_content lc (Node h len info (Internal v)) = concat (map (node_content lc) v)"
proof -
  show "node_content lc (Node h len info (Leaf l)) = lc l"
    by (simp add: node_content_def)
  have "concat (map lc (concat (map node_leaves v))) = concat (map (node_content lc) v)"
    by (induction v) (simp_all add: node_content_def)
  then show "node_content lc (Node h len info (Internal v)) = concat (map (node_content lc) v)"
    by (simp add: node_content_def)
qed

text \<open>
  The invariant of a node: stored height, length and info are those of its contents, internal
  nodes have two to \<open>MAX_CHILDREN\<close> children of one height, all of them big enough.
\<close>

function node_wf :: "('l, 'i) node_info \<Rightarrow> ('l \<Rightarrow> bool) \<Rightarrow> ('l, 'i) node \<Rightarrow> bool" where
  "node_wf ni linv (Node h len info (Leaf l)) \<longleftrightarrow>
     h = 0 \<and> len = leaf_len ni l \<and> info = ni_compute_info ni l \<and> linv l"
| "node_wf ni linv (Node h len info (Internal v)) \<longleftrightarrow>
     2 \<le> length v \<and> length v \<le> MAX_CHILDREN
     \<and> (\<forall>c \<in> set v. node_wf ni linv c \<and> node_is_ok_child ni c \<and> n_height c + 1 = h)
     \<and> len = sum_list (map n_len v)
     \<and> info = foldl (ni_accumulate ni) (n_info (v ! 0)) (map n_info (tl v))"
  by (auto intro: node.exhaust node_val.exhaust) (metis node.exhaust node_val.exhaust)
termination
  by (relation "measure (\<lambda>(ni, linv, n). size n)")
    (auto intro!: le_imp_less_Suc le_SucI size_list_estimation')

definition cut_ok :: "('a \<Rightarrow> bool) \<Rightarrow> 'a list \<Rightarrow> nat \<Rightarrow> bool" where
  "cut_ok start xs i \<longleftrightarrow> i \<le> length xs \<and> (i < length xs \<longrightarrow> start (xs ! i))"

definition starts_ok :: "('a \<Rightarrow> bool) \<Rightarrow> 'a list \<Rightarrow> bool" where
  "starts_ok start xs \<longleftrightarrow> xs \<noteq> [] \<longrightarrow> start (hd xs)"

lemma starts_ok_append: "starts_ok s xs \<Longrightarrow> starts_ok s ys \<Longrightarrow> starts_ok s (xs @ ys)"
  by (cases xs) (auto simp: starts_ok_def)

lemma starts_ok_concat: "(\<And>xs. xs \<in> set xss \<Longrightarrow> starts_ok s xs) \<Longrightarrow> starts_ok s (concat xss)"
  by (induction xss) (auto simp: starts_ok_append, simp add: starts_ok_def)

lemma cut_ok_le: "cut_ok s xs i \<Longrightarrow> i \<le> length xs"
  by (simp add: cut_ok_def)

lemma cut_ok_length [simp]: "cut_ok s xs (length xs)"
  by (simp add: cut_ok_def)

lemma cut_ok_0: "starts_ok s xs \<Longrightarrow> cut_ok s xs 0"
  by (cases xs) (auto simp: cut_ok_def starts_ok_def)

lemma cut_ok_append_left:
  "cut_ok s (xs @ ys) i \<Longrightarrow> i \<le> length xs \<Longrightarrow> cut_ok s xs i"
  by (auto simp: cut_ok_def nth_append split: if_splits)

lemma cut_ok_append_right:
  "cut_ok s (xs @ ys) i \<Longrightarrow> length xs \<le> i \<Longrightarrow> cut_ok s ys (i - length xs)"
  by (auto simp: cut_ok_def nth_append)


text \<open>
  The invariant of the builder's stack, as the source states it: levels are non-empty, shorter than
  \<open>MAX_CHILDREN\<close> and in order of strictly descending height, and in a level of more than one node
  every node is big enough to be a child.
\<close>

definition level_wf :: "('l, 'i) node_info \<Rightarrow> ('l \<Rightarrow> bool) \<Rightarrow> nat \<Rightarrow> ('l, 'i) node list \<Rightarrow> bool" where
  "level_wf ni linv h tos \<longleftrightarrow> tos \<noteq> [] \<and> (\<forall>n \<in> set tos. node_wf ni linv n \<and> n_height n = h)
     \<and> (1 < length tos \<longrightarrow> (\<forall>n \<in> set tos. node_is_ok_child ni n))"

fun stack_wf :: "('l, 'i) node_info \<Rightarrow> ('l \<Rightarrow> bool) \<Rightarrow> ('l, 'i) tree_builder \<Rightarrow> bool" where
  "stack_wf ni linv [] = True"
| "stack_wf ni linv (tos # rest) \<longleftrightarrow>
     level_wf ni linv (n_height (hd tos)) tos \<and> length tos < MAX_CHILDREN \<and> stack_wf ni linv rest
     \<and> (rest \<noteq> [] \<longrightarrow> n_height (hd tos) < n_height (hd (hd rest)))"

definition stack_content :: "('l \<Rightarrow> 'a list) \<Rightarrow> ('l, 'i) tree_builder \<Rightarrow> 'a list" where
  "stack_content lc st = concat (map (\<lambda>tos. concat (map (node_content lc) tos)) (rev st))"

lemma stack_content_simps [simp]:
  "stack_content lc [] = []"
  "stack_content lc (tos # rest) = stack_content lc rest @ concat (map (node_content lc) tos)"
  by (simp_all add: stack_content_def)


section \<open>The contract of a leaf\<close>

locale leaf_laws =
  fixes ni :: "('l, 'i) node_info"
    and linv :: "'l \<Rightarrow> bool"
    and lc :: "'l \<Rightarrow> 'a list"
    and start :: "'a \<Rightarrow> bool"
    and cinfo :: "'a list \<Rightarrow> 'i"
  assumes leaf_len: "linv l \<Longrightarrow> leaf_len ni l = length (lc l)"
    and leaf_default: "linv (leaf_default ni)" "lc (leaf_default ni) = []"
    and leaf_starts: "linv l \<Longrightarrow> starts_ok start (lc l)"
    and leaf_ok_nonempty: "linv l \<Longrightarrow> leaf_is_ok_child ni l \<Longrightarrow> lc l \<noteq> []"
    and leaf_push: "linv l \<Longrightarrow> linv other \<Longrightarrow> b \<le> e \<Longrightarrow>
      cut_ok start (lc other) b \<Longrightarrow> cut_ok start (lc other) e \<Longrightarrow>
      \<not> (leaf_is_ok_child ni l \<and> leaf_is_ok_child ni other) \<Longrightarrow>
      \<exists>l' r. leaf_push_maybe_split ni l other (mk_iv b e) = Some (l', r) \<and> linv l'
        \<and> lc l' @ (case r of None \<Rightarrow> [] | Some r' \<Rightarrow> lc r') = lc l @ slice (lc other) b e
        \<and> (\<forall>r'. r = Some r' \<longrightarrow> linv r' \<and> leaf_is_ok_child ni l' \<and> leaf_is_ok_child ni r')
        \<and> (lc l = [] \<longrightarrow> r = None)
        \<and> (leaf_is_ok_child ni l \<or> (leaf_is_ok_child ni other \<and> b = 0 \<and> e = length (lc other))
           \<longrightarrow> leaf_is_ok_child ni l')"
    and compute_info: "linv l \<Longrightarrow> ni_compute_info ni l = cinfo (lc l)"
    and accumulate: "ni_accumulate ni (cinfo xs) (cinfo ys) = cinfo (xs @ ys)"
begin

abbreviation wf :: "('l, 'i) node \<Rightarrow> bool" where
  "wf n \<equiv> node_wf ni linv n"

abbreviation content :: "('l, 'i) node \<Rightarrow> 'a list" where
  "content n \<equiv> node_content lc n"

abbreviation ok :: "('l, 'i) node \<Rightarrow> bool" where
  "ok n \<equiv> node_is_ok_child ni n"

lemma wf_cases:
  assumes "wf n"
  obtains l where "n = Node 0 (length (lc l)) (cinfo (lc l)) (Leaf l)" "linv l"
  | h v where "n = Node (Suc h) (sum_list (map n_len v))
        (foldl (ni_accumulate ni) (n_info (v ! 0)) (map n_info (tl v))) (Internal v)"
      "2 \<le> length v" "length v \<le> MAX_CHILDREN"
      "\<And>c. c \<in> set v \<Longrightarrow> wf c" "\<And>c. c \<in> set v \<Longrightarrow> ok c" "\<And>c. c \<in> set v \<Longrightarrow> n_height c = h"
proof -
  obtain h len info x where n: "n = Node h len info x" by (cases n)
  show thesis
  proof (cases x)
    case (Leaf l)
    with assms n that(1) show thesis by (simp add: leaf_len compute_info)
  next
    case (Internal v)
    then obtain h' where "h = Suc h'"
      using assms n by (cases v) auto
    with assms n Internal show thesis by (intro that(2) [of h' v]) auto
  qed
qed

lemma wf_from_leaf: "linv l \<Longrightarrow> wf (from_leaf ni l)" "content (from_leaf ni l) = lc l"
  "n_height (from_leaf ni l) = 0" "ok (from_leaf ni l) = leaf_is_ok_child ni l"
  by (simp_all add: from_leaf_def node_is_ok_child_def)

text \<open>Cached lengths and infos are those of the content; contents start on a boundary.\<close>

lemma foldl_accumulate:
  "foldl (ni_accumulate ni) (cinfo xs) (map cinfo yss) = cinfo (xs @ concat yss)"
  by (induction yss arbitrary: xs) (simp_all add: accumulate)

lemma wf_cached:
  "wf n \<Longrightarrow> n_len n = length (content n) \<and> n_info n = cinfo (content n)
     \<and> starts_ok start (content n)"
proof (induction n)
  case (Node h len info x)
  from Node.prems show ?case
  proof (cases rule: wf_cases)
    case (1 l)
    then show ?thesis by (simp add: leaf_starts)
  next
    case (2 h v)
    have IH: "n_len c = length (content c) \<and> n_info c = cinfo (content c)
        \<and> starts_ok start (content c)" if "c \<in> set v" for c
      using Node.IH [of c] that 2 by simp
    have "sum_list (map n_len v) = length (concat (map content v))"
      using IH by (induction v) auto
    moreover have "foldl (ni_accumulate ni) (n_info (v ! 0)) (map n_info (tl v))
        = cinfo (concat (map content v))"
    proof (cases v)
      case (Cons c cs)
      then have infos: "map n_info cs = map cinfo (map content cs)"
        using IH by simp
      show ?thesis
        unfolding Cons using IH [of c] Cons foldl_accumulate [of "content c" "map content cs"]
        by (simp add: infos del: map_map)
    qed (use 2 in simp)
    moreover have "starts_ok start (concat (map content v))"
      using IH by (intro starts_ok_concat) auto
    ultimately show ?thesis using 2 by simp
  qed
qed

lemmas wf_len = wf_cached [THEN conjunct1]
  and wf_info = wf_cached [THEN conjunct2, THEN conjunct1]
  and wf_starts = wf_cached [THEN conjunct2, THEN conjunct2]

lemma wf_children:
  assumes "wf n" and "n_height n = Suc h"
  obtains v where "get_children n = Some v" "2 \<le> length v" "length v \<le> MAX_CHILDREN"
    "\<And>c. c \<in> set v \<Longrightarrow> wf c \<and> ok c \<and> n_height c = h"
    "content n = concat (map content v)" "ok n \<longleftrightarrow> MIN_CHILDREN \<le> length v"
  using assms(1)
proof (cases rule: wf_cases)
  case (2 h' v)
  with assms(2) show thesis
    by (intro that [of v]) (simp_all add: get_children_def node_is_ok_child_def)
qed (use assms(2) in simp)

lemma wf_leaf:
  assumes "wf n" and "n_height n = 0"
  obtains l where "n = from_leaf ni l" "linv l" "get_leaf n = Some l"
  using assms(1)
proof (cases rule: wf_cases)
  case (1 l)
  then show thesis
    by (intro that [of l]) (simp_all add: from_leaf_def leaf_len compute_info get_leaf_def)
qed (use assms(2) in simp)

lemma wf_ok_nonempty: "wf n \<Longrightarrow> ok n \<Longrightarrow> content n \<noteq> []"
proof (induction n)
  case (Node h len info x)
  from Node.prems(1) show ?case
  proof (cases rule: wf_cases)
    case (1 l)
    with Node.prems(2) leaf_ok_nonempty show ?thesis by (simp add: node_is_ok_child_def)
  next
    case (2 h v)
    then obtain c cs where v: "v = c # cs" by (cases v) auto
    then have "content c \<noteq> []" using Node.IH [of c] 2 by simp
    with 2(1) v show ?thesis by simp
  qed
qed


section \<open>Joining children\<close>

definition siblings :: "nat \<Rightarrow> ('l, 'i) node list \<Rightarrow> bool" where
  "siblings h v \<longleftrightarrow> (\<forall>c \<in> set v. wf c \<and> ok c \<and> n_height c = h)"

lemma siblings_simps [simp]:
  "siblings h []" "siblings h (c # v) \<longleftrightarrow> wf c \<and> ok c \<and> n_height c = h \<and> siblings h v"
  "siblings h (v @ w) \<longleftrightarrow> siblings h v \<and> siblings h w"
  by (auto simp: siblings_def)

lemma siblings_sub: "siblings h v \<Longrightarrow> set w \<subseteq> set v \<Longrightarrow> siblings h w"
  by (auto simp: siblings_def)

lemma from_nodes_spec:
  assumes "siblings h v" and "2 \<le> length v" and "length v \<le> MAX_CHILDREN"
  obtains n where "from_nodes ni v = Some n" "wf n" "content n = concat (map content v)"
    "n_height n = Suc h" "ok n \<longleftrightarrow> MIN_CHILDREN \<le> length v" "get_children n = Some v"
proof -
  obtain c d cs' where "v = c # d # cs'" using assms(2) by (auto simp: numeral_2_eq_2 Suc_le_length_iff)
  then obtain cs where v: "v = c # cs" "cs \<noteq> []" by simp
  let ?f = "\<lambda>child (len, info). do {
         rassert (n_height child + 1 = Suc h);
         rassert (ok child);
         Some (len + n_len child, ni_accumulate ni info (n_info child)) }"
  have fold: "foldM ?f ds (len, info)
      = Some (len + sum_list (map n_len ds), foldl (ni_accumulate ni) info (map n_info ds))"
    if "siblings h ds" for ds len info
    using that by (induction ds arbitrary: len info) simp_all
  define n where "n = Node (Suc h) (sum_list (map n_len v))
        (foldl (ni_accumulate ni) (n_info (v ! 0)) (map n_info (tl v))) (Internal v)"
  have "from_nodes ni v = Some n"
    using assms v fold [of cs] by (simp add: from_nodes_def n_def)
  moreover have "wf n" using assms by (simp add: n_def siblings_def)
  ultimately show thesis
    by (intro that [of n]) (simp_all add: n_def node_is_ok_child_def get_children_def)
qed

lemma split_children:
  assumes "siblings h v" and "MAX_CHILDREN < length v" and "length v \<le> 2 * MAX_CHILDREN"
    and "k = min MAX_CHILDREN (length v - MIN_CHILDREN)"
  obtains l r where "from_nodes ni (take k v) = Some l" "from_nodes ni (drop k v) = Some r"
    "siblings (Suc h) [l, r]" "content l @ content r = concat (map content v)"
proof -
  have k: "MIN_CHILDREN \<le> k" "k \<le> MAX_CHILDREN" "MIN_CHILDREN \<le> length v - k"
    "length v - k \<le> MAX_CHILDREN" "k \<le> length v"
    using assms by (auto simp: MAX_CHILDREN_def MIN_CHILDREN_def)
  obtain l where l: "from_nodes ni (take k v) = Some l" "wf l" "n_height l = Suc h" "ok l"
    "content l = concat (map content (take k v))"
    using from_nodes_spec [OF siblings_sub [OF assms(1) set_take_subset], of k] k
    by (auto simp: MIN_CHILDREN_def)
  obtain r where r: "from_nodes ni (drop k v) = Some r" "wf r" "n_height r = Suc h" "ok r"
    "content r = concat (map content (drop k v))"
    using from_nodes_spec [OF siblings_sub [OF assms(1) set_drop_subset], of k] k
    by (auto simp: MIN_CHILDREN_def)
  have "content l @ content r = concat (map content v)"
    unfolding l(5) r(5) by (metis append_take_drop_id concat_append map_append)
  with l r show thesis by (intro that [of l r]) simp_all
qed

lemma merge_nodes_spec:
  assumes sib: "siblings h (v @ w)" and "2 \<le> length v + length w"
    and "length v + length w \<le> 2 * MAX_CHILDREN"
  obtains n where "merge_nodes ni v w = Some n" "wf n"
    "content n = concat (map content v) @ concat (map content w)"
    "n_height n = Suc h \<and> (MIN_CHILDREN \<le> length v + length w \<longrightarrow> ok n)
     \<or> n_height n = Suc (Suc h)"
proof (cases "length v + length w \<le> MAX_CHILDREN")
  case True
  with from_nodes_spec [OF sib] assms(2) obtain n where "from_nodes ni (v @ w) = Some n" "wf n"
    "content n = concat (map content (v @ w))" "n_height n = Suc h"
    "ok n \<longleftrightarrow> MIN_CHILDREN \<le> length (v @ w)" by auto
  with True show thesis by (intro that [of n]) (simp_all add: merge_nodes_def)
next
  case False
  then obtain l r where lr:
    "from_nodes ni (take (min MAX_CHILDREN (length (v @ w) - MIN_CHILDREN)) (v @ w)) = Some l"
    "from_nodes ni (drop (min MAX_CHILDREN (length (v @ w) - MIN_CHILDREN)) (v @ w)) = Some r"
    "siblings (Suc h) [l, r]" "content l @ content r = concat (map content (v @ w))"
    using split_children [OF sib _ _ refl] assms(3) by (metis length_append not_le)
  obtain n where "from_nodes ni [l, r] = Some n" "wf n" "content n = content l @ content r"
    "n_height n = Suc (Suc h)"
    using from_nodes_spec [OF lr(3)] by (auto simp: MAX_CHILDREN_def)
  with False lr show thesis by (intro that [of n]) (simp_all add: merge_nodes_def Let_def)
qed


section \<open>Concatenation\<close>

text \<open>
  What concatenation promises: it does not panic, the result is well-formed with the concatenated
  content, its height exceeds the larger height by at most one, and it is big enough to be a child
  when the taller argument was.
\<close>

definition concat_post :: "('l, 'i) node \<Rightarrow> ('l, 'i) node \<Rightarrow> ('l, 'i) node \<Rightarrow> bool" where
  "concat_post a b n \<longleftrightarrow> wf n \<and> content n = content a @ content b
     \<and> (n_height n = Suc (max (n_height a) (n_height b))
        \<or> n_height n = max (n_height a) (n_height b)
          \<and> ((n_height b \<le> n_height a \<and> ok a) \<or> (n_height a \<le> n_height b \<and> ok b) \<longrightarrow> ok n))"

lemma merge_leaves_spec:
  assumes "wf a" "wf b" "n_height a = 0" "n_height b = 0" and small: "\<not> (ok a \<and> ok b)"
  obtains n where "merge_leaves ni a b = Some n" "concat_post a b n"
proof -
  obtain l where a: "a = from_leaf ni l" "linv l" "get_leaf a = Some l"
    using assms(1,3) by (rule wf_leaf)
  obtain m where b: "b = from_leaf ni m" "linv m" "get_leaf b = Some m"
    using assms(2,4) by (rule wf_leaf)
  have small': "\<not> (leaf_is_ok_child ni l \<and> leaf_is_ok_child ni m)"
    using small a b by (simp add: wf_from_leaf)
  obtain l' r where push:
    "leaf_push_maybe_split ni l m (mk_iv 0 (length (lc m))) = Some (l', r)" "linv l'"
    "lc l' @ (case r of None \<Rightarrow> [] | Some r' \<Rightarrow> lc r') = lc l @ lc m"
    "\<And>r'. r = Some r' \<Longrightarrow> linv r' \<and> leaf_is_ok_child ni l' \<and> leaf_is_ok_child ni r'"
    "leaf_is_ok_child ni l \<or> leaf_is_ok_child ni m \<Longrightarrow> leaf_is_ok_child ni l'"
    using leaf_push [OF a(2) b(2) le0 cut_ok_0 [OF leaf_starts [OF b(2)]] cut_ok_length small']
    by auto
  have mut: "try_with_leaf_mut ni a (\<lambda>l. leaf_push_maybe_split ni l m (mk_iv 0 (leaf_len ni m)))
      = Some (from_leaf ni l', r)"
    using push(1) a(1) leaf_len [OF b(2)] by (simp add: try_with_leaf_mut_def from_leaf_def)
  have leaves: "is_leaf a \<and> is_leaf b" using assms by (simp add: is_leaf_def)
  have ml: "merge_leaves ni a b =
      (case r of Some new \<Rightarrow> from_nodes ni [from_leaf ni l', from_leaf ni new]
       | None \<Rightarrow> Some (from_leaf ni l'))"
    using leaves a(3) b(3) small' mut by (auto simp: merge_leaves_def)
  show thesis
  proof (cases r)
    case None
    then have "concat_post a b (from_leaf ni l')"
      using push a b by (auto simp: concat_post_def wf_from_leaf)
    with ml None that show thesis by simp
  next
    case (Some r')
    with push(2,4) have "siblings 0 [from_leaf ni l', from_leaf ni r']"
      by (simp add: wf_from_leaf)
    from from_nodes_spec [OF this] obtain n where
      "from_nodes ni [from_leaf ni l', from_leaf ni r'] = Some n" "wf n"
      "content n = lc l' @ lc r'" "n_height n = 1"
      by (auto simp: MAX_CHILDREN_def wf_from_leaf)
    with ml Some push(3) a b assms that [of n] show thesis
      by (auto simp: concat_post_def wf_from_leaf)
  qed
qed

lemma concat_post_split:
  assumes "concat_post a b n" and "max (n_height a) (n_height b) = h"
    and "(n_height b \<le> n_height a \<and> ok a) \<or> (n_height a \<le> n_height b \<and> ok b)"
  obtains "n_height n = h" "siblings h [n]" "concat (map content [n]) = content a @ content b"
  | v where "n_height n = Suc h" "get_children n = Some v" "siblings h v"
      "1 \<le> length v" "length v \<le> MAX_CHILDREN" "concat (map content v) = content a @ content b"
proof (cases "n_height n = h")
  case True
  with assms show thesis by (intro that(1)) (auto simp: concat_post_def)
next
  case False
  then have h: "n_height n = Suc h" "wf n" and c: "content n = content a @ content b"
    using assms(1,2) by (auto simp: concat_post_def)
  obtain v where v: "get_children n = Some v" "2 \<le> length v" "length v \<le> MAX_CHILDREN"
    "siblings h v" "content n = concat (map content v)"
    using wf_children [OF h(2,1)] unfolding siblings_def by metis
  show thesis by (rule that(2) [OF h(1) v(1,4) _ v(3)]) (use v c in auto)
qed

lemma concat_node_less:
  assumes "wf a" "wf b" "n_height b = Suc h" "n_height a \<le> h"
    and "\<And>v c. get_children b = Some v \<Longrightarrow> c \<in> set v \<Longrightarrow> wf c \<Longrightarrow>
      \<exists>n. concat_node ni a c = Some n \<and> concat_post a c n"
  shows "\<exists>n. concat_node ni a b = Some n \<and> concat_post a b n"
proof -
  obtain v where v: "get_children b = Some v" "2 \<le> length v" "length v \<le> MAX_CHILDREN"
    "\<And>c. c \<in> set v \<Longrightarrow> wf c \<and> ok c \<and> n_height c = h"
    "content b = concat (map content v)" "ok b \<longleftrightarrow> MIN_CHILDREN \<le> length v"
    using wf_children [OF assms(2) assms(3)] by metis
  then obtain c cs where cs: "v = c # cs" by (cases v) auto
  have sib: "siblings h v" using v(4) by (simp add: siblings_def)
  show ?thesis
  proof (cases "n_height a = h \<and> ok a")
    case True
    with sib assms(1) have "siblings h ([a] @ v)" by simp
    from merge_nodes_spec [OF this] v(2,3) obtain n where
      n: "merge_nodes ni [a] v = Some n" "wf n" "content n = content a @ content b"
      "n_height n = Suc h \<and> (MIN_CHILDREN \<le> 1 + length v \<longrightarrow> ok n) \<or> n_height n = Suc (Suc h)"
      by (auto simp: v(5) MAX_CHILDREN_def)
    then have "concat_post a b n"
      using True assms(3) v(6) by (auto simp: concat_post_def)
    moreover have "concat_node ni a b = Some n"
      using True assms(3) v(1) n(1) by (simp add: concat_node.simps [of ni a b])
    ultimately show ?thesis by simp
  next
    case False
    obtain n1 where n1: "concat_node ni a c = Some n1" "concat_post a c n1"
      using assms(5) [OF v(1)] v(4) cs by auto
    have eq: "concat_node ni a b =
        (if n_height n1 = h then merge_nodes ni [n1] cs
         else get_children n1 \<bind> (\<lambda>v'. merge_nodes ni v' cs))"
      using False assms(3,4) v(1) n1(1) cs
      by (auto simp: concat_node.simps [of ni a b] list_get_def)
    obtain w where w: "concat_node ni a b = merge_nodes ni w cs" "siblings h w" "1 \<le> length w"
      "length w \<le> MAX_CHILDREN" "concat (map content w) = content a @ content c"
      by (rule concat_post_split [OF n1(2), of h])
        (use sib cs assms(3,4) eq in \<open>auto simp: MAX_CHILDREN_def\<close>)
    have "siblings h (w @ cs)" using w(2) sib cs by simp
    from merge_nodes_spec [OF this] w v(2,3) cs obtain n where
      n: "merge_nodes ni w cs = Some n" "wf n" "content n = content a @ content b"
      "n_height n = Suc h \<and> (MIN_CHILDREN \<le> length w + length cs \<longrightarrow> ok n)
       \<or> n_height n = Suc (Suc h)"
      by (auto simp: v(5))
    then have "concat_post a b n"
      using assms(3,4) v(6) cs w(3) by (auto simp: concat_post_def)
    with w(1) n(1) show ?thesis by simp
  qed
qed

lemma concat_node_greater:
  assumes "wf a" "wf b" "n_height a = Suc h" "n_height b \<le> h"
    and "\<And>v c. get_children a = Some v \<Longrightarrow> c \<in> set v \<Longrightarrow> wf c \<Longrightarrow>
      \<exists>n. concat_node ni c b = Some n \<and> concat_post c b n"
  shows "\<exists>n. concat_node ni a b = Some n \<and> concat_post a b n"
proof -
  obtain v where v: "get_children a = Some v" "2 \<le> length v" "length v \<le> MAX_CHILDREN"
    "\<And>c. c \<in> set v \<Longrightarrow> wf c \<and> ok c \<and> n_height c = h"
    "content a = concat (map content v)" "ok a \<longleftrightarrow> MIN_CHILDREN \<le> length v"
    using wf_children [OF assms(1) assms(3)] by metis
  then obtain cs c where cs: "v = cs @ [c]" by (cases v rule: rev_cases) auto
  have sib: "siblings h v" using v(4) by (simp add: siblings_def)
  show ?thesis
  proof (cases "n_height b = h \<and> ok b")
    case True
    with sib assms(2) have "siblings h (v @ [b])" by simp
    from merge_nodes_spec [OF this] v(2,3) obtain n where
      n: "merge_nodes ni v [b] = Some n" "wf n" "content n = content a @ content b"
      "n_height n = Suc h \<and> (MIN_CHILDREN \<le> length v + 1 \<longrightarrow> ok n) \<or> n_height n = Suc (Suc h)"
      by (auto simp: v(5) MAX_CHILDREN_def)
    then have "concat_post a b n"
      using True assms(3) v(6) by (auto simp: concat_post_def)
    moreover have "concat_node ni a b = Some n"
      using True assms(3) v(1) n(1) by (simp add: concat_node.simps [of ni a b])
    ultimately show ?thesis by simp
  next
    case False
    obtain n1 where n1: "concat_node ni c b = Some n1" "concat_post c b n1"
      using assms(5) [OF v(1)] v(4) cs by auto
    have eq: "concat_node ni a b =
        (if n_height n1 = h then merge_nodes ni cs [n1]
         else get_children n1 \<bind> (\<lambda>v'. merge_nodes ni cs v'))"
      using False assms(3,4) v(1) n1(1) cs
      by (auto simp: concat_node.simps [of ni a b])
    obtain w where w: "concat_node ni a b = merge_nodes ni cs w" "siblings h w" "1 \<le> length w"
      "length w \<le> MAX_CHILDREN" "concat (map content w) = content c @ content b"
      by (rule concat_post_split [OF n1(2), of h])
        (use sib cs assms(3,4) eq in \<open>auto simp: MAX_CHILDREN_def\<close>)
    have "siblings h (cs @ w)" using w(2) sib cs by simp
    from merge_nodes_spec [OF this] w v(2,3) cs obtain n where
      n: "merge_nodes ni cs w = Some n" "wf n" "content n = content a @ content b"
      "n_height n = Suc h \<and> (MIN_CHILDREN \<le> length cs + length w \<longrightarrow> ok n)
       \<or> n_height n = Suc (Suc h)"
      by (auto simp: v(5))
    then have "concat_post a b n"
      using assms(3,4) v(6) cs w(3) by (auto simp: concat_post_def)
    with w(1) n(1) show ?thesis by simp
  qed
qed

lemma concat_node_equal:
  assumes "wf a" "wf b" "n_height a = n_height b"
  shows "\<exists>n. concat_node ni a b = Some n \<and> concat_post a b n"
proof -
  show ?thesis
  proof (cases "ok a \<and> ok b")
    case True
    with assms have "siblings (n_height a) [a, b]" by simp
    from from_nodes_spec [OF this] obtain n where "from_nodes ni [a, b] = Some n" "wf n"
      "content n = content a @ content b" "n_height n = Suc (n_height a)"
      by (auto simp: MAX_CHILDREN_def)
    with True assms(3) show ?thesis
      by (auto simp: concat_node.simps [of ni a b] concat_post_def)
  next
    case small: False
    show ?thesis
    proof (cases "n_height a")
      case 0
      with merge_leaves_spec [OF assms(1,2) 0 _ small] assms(3) small show ?thesis
        by (auto simp: concat_node.simps [of ni a b])
    next
      case (Suc h)
      obtain v where v: "get_children a = Some v" "2 \<le> length v" "length v \<le> MAX_CHILDREN"
        "siblings h v" "content a = concat (map content v)" "ok a \<longleftrightarrow> MIN_CHILDREN \<le> length v"
        using wf_children [OF assms(1) Suc] by (metis siblings_def)
      obtain w where w: "get_children b = Some w" "2 \<le> length w" "length w \<le> MAX_CHILDREN"
        "siblings h w" "content b = concat (map content w)" "ok b \<longleftrightarrow> MIN_CHILDREN \<le> length w"
        using wf_children [OF assms(2)] Suc assms(3) by (metis siblings_def)
      from merge_nodes_spec [of h v w] v w obtain n where
        "merge_nodes ni v w = Some n" "wf n" "content n = content a @ content b"
        "n_height n = Suc h \<and> (MIN_CHILDREN \<le> length v + length w \<longrightarrow> ok n)
         \<or> n_height n = Suc (Suc h)"
        by (auto simp: MAX_CHILDREN_def)
      with small Suc assms(3) v w show ?thesis
        by (auto simp: concat_node.simps [of ni a b] concat_post_def)
    qed
  qed
qed

lemma concat_node_spec: "wf a \<Longrightarrow> wf b \<Longrightarrow> \<exists>n. concat_node ni a b = Some n \<and> concat_post a b n"
proof (induction "size a + size b" arbitrary: a b rule: less_induct)
  case less
  note IH = less.hyps and wf = less.prems
  consider "n_height a < n_height b" | "n_height a = n_height b" | "n_height b < n_height a"
    by linarith
  then show ?case
  proof cases
    case 1
    then obtain h where h: "n_height b = Suc h" "n_height a \<le> h" by (cases "n_height b") auto
    show ?thesis
      by (rule concat_node_less [OF wf h]) (auto intro!: IH wf(1) dest: get_children_size)
  next
    case 2
    with wf show ?thesis by (intro concat_node_equal)
  next
    case 3
    then obtain h where h: "n_height a = Suc h" "n_height b \<le> h" by (cases "n_height a") auto
    show ?thesis
      by (rule concat_node_greater [OF wf h]) (auto intro!: IH wf(2) dest: get_children_size)
  qed
qed


lemma concat_nodeE:
  assumes "wf a" "wf b"
  obtains n where "concat_node ni a b = Some n" "wf n" "content n = content a @ content b"
  using concat_node_spec [OF assms] by (auto simp: concat_post_def)


section \<open>The builder\<close>

lemma level_siblings: "level_wf ni linv h tos \<Longrightarrow> 1 < length tos \<Longrightarrow> siblings h tos"
  by (simp add: level_wf_def siblings_def)

lemma tb_pop_spec:
  assumes "level_wf ni linv h tos" and "length tos \<le> MAX_CHILDREN"
  obtains n where "tb_pop ni tos = Some n" "wf n" "content n = concat (map content tos)"
proof (cases "1 < length tos")
  case True
  from from_nodes_spec [OF level_siblings [OF assms(1) True]] assms(2) True
  obtain n where "from_nodes ni tos = Some n" "wf n" "content n = concat (map content tos)"
    by (metis Suc_leI numeral_2_eq_2 One_nat_def)
  moreover have "tb_pop ni tos = from_nodes ni tos"
    using True by (auto simp: tb_pop_def split: list.splits)
  ultimately show thesis using that by simp
next
  case False
  then obtain n where "tos = [n]"
    using assms(1) by (cases tos) (auto simp: level_wf_def)
  with assms(1) that show thesis by (auto simp: level_wf_def tb_pop_def)
qed

lemma tb_push_equal_leaf:
  assumes lev: "level_wf ni linv 0 (tos @ [m])" and n: "wf n" "n_height n = 0"
    and small: "\<not> (ok m \<and> ok n)"
  obtains tos' where "tb_push_equal ni (tos @ [m]) n = Some tos'" "level_wf ni linv 0 tos'"
    "length tos' \<le> length tos + 2"
    "concat (map content tos') = concat (map content (tos @ [m])) @ content n"
proof -
  have wfm: "wf m" "n_height m = 0" using lev by (auto simp: level_wf_def)
  obtain l where m: "m = from_leaf ni l" "linv l" using wfm by (rule wf_leaf)
  obtain l2 where n2: "n = from_leaf ni l2" "linv l2" "get_leaf n = Some l2"
    using n by (rule wf_leaf)
  have small': "\<not> (leaf_is_ok_child ni l \<and> leaf_is_ok_child ni l2)"
    using small m n2 by (simp add: wf_from_leaf)
  obtain l' r where push:
    "leaf_push_maybe_split ni l l2 (mk_iv 0 (length (lc l2))) = Some (l', r)" "linv l'"
    "lc l' @ (case r of None \<Rightarrow> [] | Some r' \<Rightarrow> lc r') = lc l @ lc l2"
    "\<And>r'. r = Some r' \<Longrightarrow> linv r' \<and> leaf_is_ok_child ni l' \<and> leaf_is_ok_child ni r'"
    "leaf_is_ok_child ni l \<Longrightarrow> leaf_is_ok_child ni l'"
    using leaf_push [OF m(2) n2(2) le0 cut_ok_0 [OF leaf_starts [OF n2(2)]] cut_ok_length small']
    by auto
  define tos' where "tos' = tos @ [from_leaf ni l']
      @ (case r of None \<Rightarrow> [] | Some new \<Rightarrow> [from_leaf ni new])"
  have "n_len n = length (lc l2)" using n2 by (simp add: from_leaf_def leaf_len)
  then have "tb_push_equal ni (tos @ [m]) n = Some tos'"
    using small n(2) n2(3) m push(1)
    by (auto simp: tb_push_equal_def try_with_leaf_mut_def from_leaf_def tos'_def)
  moreover have "level_wf ni linv 0 tos'"
    using lev push(2,4,5) m
    by (cases r) (auto simp: level_wf_def tos'_def wf_from_leaf)
  moreover have "concat (map content tos') = concat (map content (tos @ [m])) @ content n"
    using push(3) m n2 by (cases r) (simp_all add: tos'_def wf_from_leaf)
  moreover have "length tos' \<le> length tos + 2"
    by (cases r) (simp_all add: tos'_def)
  ultimately show thesis using that by blast
qed

lemma tb_push_equal_internal:
  assumes lev: "level_wf ni linv (Suc h) (tos @ [m])" and n: "wf n" "n_height n = Suc h"
    and small: "\<not> (ok m \<and> ok n)"
  obtains tos' where "tb_push_equal ni (tos @ [m]) n = Some tos'" "level_wf ni linv (Suc h) tos'"
    "length tos' \<le> length tos + 2"
    "concat (map content tos') = concat (map content (tos @ [m])) @ content n"
proof -
  have wfm: "wf m" "n_height m = Suc h" using lev by (auto simp: level_wf_def)
  obtain v where v: "get_children m = Some v" "2 \<le> length v" "length v \<le> MAX_CHILDREN"
    "siblings h v" "content m = concat (map content v)" "ok m \<longleftrightarrow> MIN_CHILDREN \<le> length v"
    using wf_children [OF wfm] by (metis siblings_def)
  obtain w where w: "get_children n = Some w" "2 \<le> length w" "length w \<le> MAX_CHILDREN"
    "siblings h w" "content n = concat (map content w)"
    using wf_children [OF n] by (metis siblings_def)
  have sib: "siblings h (v @ w)" using v(4) w(4) by simp
  have ne: "v \<noteq> []" "w \<noteq> []" using v(2) w(2) by auto
  show thesis
  proof (cases "length v + length w \<le> MAX_CHILDREN")
    case True
    with from_nodes_spec [OF sib] v(2) obtain x where x: "from_nodes ni (v @ w) = Some x" "wf x"
      "content x = content m @ content n" "n_height x = Suc h"
      "ok x \<longleftrightarrow> MIN_CHILDREN \<le> length v + length w"
      by (auto simp: v(5) w(5))
    have "tb_push_equal ni (tos @ [m]) n = Some (tos @ [x])"
      using small n(2) v(1) w(1) True x(1) ne by (auto simp: tb_push_equal_def)
    moreover have "level_wf ni linv (Suc h) (tos @ [x])"
      using lev x v(6) by (auto simp: level_wf_def)
    ultimately show thesis using x(3) that [of "tos @ [x]"] by simp
  next
    case False
    then obtain a b where ab:
      "from_nodes ni (take (min MAX_CHILDREN (length (v @ w) - MIN_CHILDREN)) (v @ w)) = Some a"
      "from_nodes ni (drop (min MAX_CHILDREN (length (v @ w) - MIN_CHILDREN)) (v @ w)) = Some b"
      "siblings (Suc h) [a, b]" "content a @ content b = concat (map content (v @ w))"
      using split_children [OF sib _ _ refl] v(3) w(3)
      by (metis add_mono length_append mult_2 not_le)
    have "tb_push_equal ni (tos @ [m]) n = Some (tos @ [a, b])"
      using small n(2) v(1) w(1) False ab(1,2) ne by (auto simp: tb_push_equal_def Let_def)
    moreover have "level_wf ni linv (Suc h) (tos @ [a, b])"
      using lev ab(3) by (auto simp: level_wf_def)
    ultimately show thesis
      using ab(4) v(5) w(5) that [of "tos @ [a, b]"] by simp
  qed
qed

text \<open>Appending a node to a level of its own height, at any height.\<close>

lemma tb_push_equal_spec:
  assumes "level_wf ni linv h tos" "wf n" "n_height n = h"
  obtains tos' where "tb_push_equal ni tos n = Some tos'" "level_wf ni linv h tos'"
    "length tos' \<le> length tos + 1"
    "concat (map content tos') = concat (map content tos) @ content n"
proof -
  obtain init m where tos: "tos = init @ [m]"
    using assms(1) by (cases tos rule: rev_cases) (auto simp: level_wf_def)
  show thesis
  proof (cases "ok m \<and> ok n")
    case True
    with assms that [of "tos @ [n]"] tos show thesis
      by (cases "init = []") (auto simp: tb_push_equal_def level_wf_def)
  next
    case small: False
    show thesis
    proof (cases h)
      case 0
      with assms tos obtain tos' where "tb_push_equal ni (init @ [m]) n = Some tos'"
        "level_wf ni linv 0 tos'" "length tos' \<le> length init + 2"
        "concat (map content tos') = concat (map content (init @ [m])) @ content n"
        using tb_push_equal_leaf [OF _ _ _ small, where tos = init] by auto
      with 0 tos that show thesis by simp
    next
      case (Suc k)
      with assms tos obtain tos' where "tb_push_equal ni (init @ [m]) n = Some tos'"
        "level_wf ni linv (Suc k) tos'" "length tos' \<le> length init + 2"
        "concat (map content tos') = concat (map content (init @ [m])) @ content n"
        using tb_push_equal_internal [OF _ _ _ small, where tos = init] by auto
      with Suc tos that show thesis by simp
    qed
  qed
qed

lemma tb_push_spec:
  "stack_wf ni linv st \<Longrightarrow> wf n \<Longrightarrow>
    \<exists>st'. tb_push ni st n = Some st' \<and> stack_wf ni linv st'
      \<and> stack_content lc st' = stack_content lc st @ content n"
proof (induction st arbitrary: n)
  case Nil
  then show ?case by (simp add: level_wf_def MAX_CHILDREN_def)
next
  case (Cons tos rest)
  let ?h = "n_height (hd tos)"
  have lev: "level_wf ni linv ?h tos" and len: "length tos < MAX_CHILDREN"
    and rest: "stack_wf ni linv rest"
    and desc: "rest \<noteq> [] \<longrightarrow> ?h < n_height (hd (hd rest))"
    using Cons.prems by simp_all
  have t0: "list_get tos 0 = Some (hd tos)"
    using lev by (cases tos) (simp_all add: level_wf_def list_get_def)
  consider "?h < n_height n" | "?h = n_height n" | "n_height n < ?h" by linarith
  then show ?case
  proof cases
    case 1
    obtain p where p: "tb_pop ni tos = Some p" "wf p" "content p = concat (map content tos)"
      using tb_pop_spec [OF lev] len by auto
    obtain n' where n': "concat_node ni p n = Some n'" "wf n'" "content n' = content p @ content n"
      using concat_nodeE [OF p(2) Cons.prems(2)] by auto
    from Cons.IH [OF rest n'(2)] 1 t0 p n' show ?thesis by auto
  next
    case 2
    obtain tos' where tos': "tb_push_equal ni tos n = Some tos'" "level_wf ni linv ?h tos'"
      "length tos' \<le> length tos + 1"
      "concat (map content tos') = concat (map content tos) @ content n"
      using tb_push_equal_spec [OF lev Cons.prems(2)] 2 by auto
    have h': "n_height (hd tos') = ?h"
      using tos'(2) by (auto simp: level_wf_def)
    show ?thesis
    proof (cases "length tos' < MAX_CHILDREN")
      case True
      with 2 t0 tos' h' rest desc show ?thesis by simp
    next
      case False
      obtain p where p: "tb_pop ni tos' = Some p" "wf p" "content p = concat (map content tos')"
        using tb_pop_spec [OF tos'(2)] tos'(3) len by auto
      from Cons.IH [OF rest p(2)] 2 t0 tos' p False show ?thesis by auto
    qed
  next
    case 3
    have "level_wf ni linv (n_height n) [n]"
      using Cons.prems(2) by (simp add: level_wf_def)
    with 3 t0 Cons.prems(1) show ?thesis by (simp add: MAX_CHILDREN_def)
  qed
qed

lemma tb_pushE:
  assumes "stack_wf ni linv st" "wf n"
  obtains st' where "tb_push ni st n = Some st'" "stack_wf ni linv st'"
    "stack_content lc st' = stack_content lc st @ content n"
  using tb_push_spec [OF assms] by blast

lemma tb_push_leaves_spec:
  assumes "stack_wf ni linv st" "\<forall>l \<in> set ls. linv l"
  shows "\<exists>st'. tb_push_leaves ni st ls = Some st' \<and> stack_wf ni linv st'
    \<and> stack_content lc st' = stack_content lc st @ concat (map lc ls)"
  using assms
proof (induction ls arbitrary: st)
  case (Cons l ls)
  obtain st1 where st1: "tb_push ni st (from_leaf ni l) = Some st1" "stack_wf ni linv st1"
    "stack_content lc st1 = stack_content lc st @ lc l"
    using tb_pushE [OF Cons.prems(1) wf_from_leaf(1)] Cons.prems(2) wf_from_leaf(2) by auto
  from Cons.IH [OF st1(2)] Cons.prems(2) st1 show ?case by (auto simp: tb_push_leaves_def)
qed (simp add: tb_push_leaves_def)

lemma leaf_subseq_spec:
  assumes "linv l" "b \<le> e" "cut_ok start (lc l) b" "cut_ok start (lc l) e"
  obtains l' where "leaf_subseq ni l (mk_iv b e) = Some l'" "linv l'" "lc l' = slice (lc l) b e"
proof -
  have small: "\<not> (leaf_is_ok_child ni (leaf_default ni) \<and> leaf_is_ok_child ni l)"
    using leaf_ok_nonempty [OF leaf_default(1)] leaf_default(2) by auto
  show thesis
    using leaf_push [OF leaf_default(1) assms small] that
    by (auto simp: leaf_subseq_def leaf_default(2))
qed

text \<open>Pushing a slice: cut positions must be boundaries of the content.\<close>

abbreviation cut :: "'a list \<Rightarrow> nat \<Rightarrow> bool" where
  "cut xs i \<equiv> cut_ok start xs i"

definition pushes_slice :: "('l, 'i) node \<Rightarrow> bool" where
  "pushes_slice n \<longleftrightarrow> (\<forall>st b e. stack_wf ni linv st \<longrightarrow> b \<le> e \<longrightarrow>
     cut (content n) b \<longrightarrow> cut (content n) e \<longrightarrow>
     (\<exists>st'. tb_push_slice ni st n (mk_iv b e) = Some st' \<and> stack_wf ni linv st'
        \<and> stack_content lc st' = stack_content lc st @ slice (content n) b e))"

lemma tb_push_slices_Cons:
  assumes c: "wf c" "pushes_slice c" and st: "stack_wf ni linv st"
    and be: "b \<le> e" "offset < e" "e \<le> offset + length (content c @ xs)"
    and cut_b: "offset \<le> b \<Longrightarrow> cut (content c @ xs) (b - offset)"
    and cut_e: "cut (content c @ xs) (e - offset)"
  obtains st1 where "tb_push_slices ni st (c # v) offset (mk_iv b e)
      = tb_push_slices ni st1 v (offset + length (content c)) (mk_iv b e)" "stack_wf ni linv st1"
    "stack_content lc st1 = stack_content lc st @ slice (content c) (b - offset) (e - offset)"
proof -
  let ?n = "length (content c)"
  define e' where "e' = max (b - offset) (min (e - offset) ?n)"
  have len: "n_len c = ?n" and start: "starts_ok start (content c)"
    using c(1) by (simp_all add: wf_len wf_starts)
  have iv: "iv_translate_neg (iv_intersect (mk_iv b e) (iv_translate (node_interval c) offset)) offset
      = Some (mk_iv (b - offset) e')"
    using be by (auto simp: node_interval_def iv_intersect_mk len max_def min_def e'_def)
  obtain st1 where st1: "tb_push_slice ni st c (mk_iv (b - offset) e') = Some st1"
    "stack_wf ni linv st1"
    "stack_content lc st1 = stack_content lc st @ slice (content c) (b - offset) (e - offset)"
  proof (cases "?n \<le> b - offset")
    case True
    then have "e' \<le> b - offset" by (simp add: e'_def)
    then have "tb_push_slice ni st c (mk_iv (b - offset) e') = Some st"
      by (simp add: tb_push_slice.simps)
    moreover have "slice (content c) (b - offset) (e - offset) = []"
      using True by (simp add: slice_def)
    ultimately show thesis using that st by simp
  next
    case False
    then have e': "e' = min (e - offset) ?n" "b - offset \<le> e'"
      using be by (auto simp: e'_def)
    have "cut (content c) (b - offset)"
      using cut_b start False cut_ok_append_left [of start "content c" xs "b - offset"]
      by (cases "offset \<le> b") (auto intro: cut_ok_0)
    moreover have "cut (content c) e'"
      using cut_e cut_ok_append_left [of start "content c" xs "e - offset"]
      by (cases "e - offset \<le> ?n") (auto simp: e'(1))
    moreover have "slice (content c) (b - offset) e' = slice (content c) (b - offset) (e - offset)"
      by (simp add: e'(1) slice_min)
    ultimately show thesis
      using c(2) st e'(2) that unfolding pushes_slice_def by metis
  qed
  have "\<not> is_before (mk_iv b e) offset" using be by (simp add: is_before_def)
  with iv st1 len that show thesis by simp
qed

lemma tb_push_slices_spec:
  assumes "\<And>c. c \<in> set v \<Longrightarrow> wf c \<and> pushes_slice c" and "stack_wf ni linv st"
    and "b \<le> e" "offset \<le> e \<Longrightarrow> e \<le> offset + length (concat (map content v))"
    and "offset \<le> b \<Longrightarrow> b \<le> e \<Longrightarrow> cut (concat (map content v)) (b - offset)"
    and "offset \<le> e \<Longrightarrow> cut (concat (map content v)) (e - offset)"
  shows "\<exists>st'. tb_push_slices ni st v offset (mk_iv b e) = Some st' \<and> stack_wf ni linv st'
    \<and> stack_content lc st' =
        stack_content lc st @ slice (concat (map content v)) (b - offset) (e - offset)"
  using assms
proof (induction v arbitrary: st offset)
  case (Cons c v)
  note prems = Cons.prems
  let ?n = "length (content c)" and ?xs = "concat (map content v)"
  show ?case
  proof (cases "e \<le> offset")
    case True
    with prems show ?thesis by (simp add: is_before_def)
  next
    case False
    obtain st1 where st1: "tb_push_slices ni st (c # v) offset (mk_iv b e)
        = tb_push_slices ni st1 v (offset + ?n) (mk_iv b e)" "stack_wf ni linv st1"
      "stack_content lc st1 = stack_content lc st @ slice (content c) (b - offset) (e - offset)"
    proof (rule tb_push_slices_Cons [of c st b e offset ?xs v])
      show "cut (content c @ ?xs) (b - offset)" if "offset \<le> b"
        using prems(3,5) that by simp
      show "cut (content c @ ?xs) (e - offset)"
        using prems(6) False by simp
      show "e \<le> offset + length (content c @ ?xs)"
        using prems(4) False by simp
    qed (use prems False in auto)
    have "\<exists>st'. tb_push_slices ni st1 v (offset + ?n) (mk_iv b e) = Some st' \<and> stack_wf ni linv st'
        \<and> stack_content lc st' = stack_content lc st1
            @ slice ?xs (b - (offset + ?n)) (e - (offset + ?n))"
    proof (rule Cons.IH)
      show "cut ?xs (b - (offset + ?n))" if "offset + ?n \<le> b"
        using prems(3,5) that cut_ok_append_right [of start "content c" ?xs "b - offset"] by simp
      show "cut ?xs (e - (offset + ?n))" if "offset + ?n \<le> e"
        using prems(6) that cut_ok_append_right [of start "content c" ?xs "e - offset"] by simp
    qed (use prems st1 in auto)
    with st1 show ?thesis by (auto simp: slice_append)
  qed
qed simp

lemma tb_push_slice_spec: "wf n \<Longrightarrow> pushes_slice n"
proof (induction n)
  case (Node h len info x)
  let ?n = "Node h len info x"
  have len: "n_len ?n = length (content ?n)" using Node.prems by (rule wf_len)
  show ?case
    unfolding pushes_slice_def
  proof (intro allI impI)
    fix st b e
    assume st: "stack_wf ni linv st" and be: "b \<le> e" "cut (content ?n) b" "cut (content ?n) e"
    let ?P = "\<lambda>r. \<exists>st'. r = Some st' \<and> stack_wf ni linv st'
      \<and> stack_content lc st' = stack_content lc st @ slice (content ?n) b e"
    consider "e \<le> b" | "b < e" "b = 0" "e = length (content ?n)"
      | "b < e" "\<not> (b = 0 \<and> e = length (content ?n))" by linarith
    then show "?P (tb_push_slice ni st ?n (mk_iv b e))"
    proof cases
      case 1
      with st show ?thesis by (simp add: tb_push_slice.simps)
    next
      case 2
      then have "slice (content ?n) b e = content ?n" by simp
      moreover have "tb_push_slice ni st ?n (mk_iv b e) = tb_push ni st ?n"
        using 2 unfolding len [symmetric]
        by (simp add: tb_push_slice.simps node_interval_def del: node.sel)
      ultimately show ?thesis using tb_push_spec [OF st Node.prems] by simp
    next
      case 3
      then have eq: "tb_push_slice ni st ?n (mk_iv b e) = (case x of
          Leaf l \<Rightarrow> tb_push_leaf_slice ni st l (mk_iv b e)
        | Internal v \<Rightarrow> tb_push_slices ni st v 0 (mk_iv b e))"
        using len by (auto simp: tb_push_slice.simps node_interval_def)
      from Node.prems show ?thesis
      proof (cases rule: wf_cases)
        case (1 l)
        obtain l' where l': "leaf_subseq ni l (mk_iv b e) = Some l'" "linv l'"
          "lc l' = slice (lc l) b e"
          using leaf_subseq_spec [OF 1(2) be(1)] be(2,3) 1(1) by auto
        from tb_push_spec [OF st wf_from_leaf(1) [OF l'(2)]] show ?thesis
          using eq 1(1) l' by (auto simp: tb_push_leaf_slice_def wf_from_leaf)
      next
        case (2 h v)
        then have "\<And>c. c \<in> set v \<Longrightarrow> wf c \<and> pushes_slice c" using Node.IH by simp
        from tb_push_slices_spec [OF this st be(1), of v 0] show ?thesis
          using eq 2(1) be cut_ok_le by fastforce
      qed
    qed
  qed
qed

lemma tb_push_sliceE:
  assumes "wf n" "stack_wf ni linv st" "b \<le> e" "cut (content n) b" "cut (content n) e"
  obtains st' where "tb_push_slice ni st n (mk_iv b e) = Some st'" "stack_wf ni linv st'"
    "stack_content lc st' = stack_content lc st @ slice (content n) b e"
  using tb_push_slice_spec [OF assms(1)] assms(2-) unfolding pushes_slice_def by blast

lemma tb_build_loop_spec:
  "stack_wf ni linv st \<Longrightarrow> wf n \<Longrightarrow>
    \<exists>n'. tb_build_loop ni st n = Some n' \<and> wf n' \<and> content n' = stack_content lc st @ content n"
proof (induction st arbitrary: n)
  case (Cons tos rest)
  obtain p where p: "tb_pop ni tos = Some p" "wf p" "content p = concat (map content tos)"
    using tb_pop_spec [of "n_height (hd tos)" tos] Cons.prems(1) by auto
  obtain n' where n': "concat_node ni p n = Some n'" "wf n'" "content n' = content p @ content n"
    using concat_nodeE [OF p(2) Cons.prems(2)] by auto
  from Cons.IH [OF _ n'(2)] Cons.prems(1) p n' show ?case by auto
qed simp

lemma tb_buildE:
  assumes "stack_wf ni linv st"
  obtains n where "tb_build ni st = Some n" "wf n" "content n = stack_content lc st"
proof (cases st)
  case Nil
  then show thesis
    using that [of "from_leaf ni (leaf_default ni)"] leaf_default
    by (simp add: tb_build_def wf_from_leaf)
next
  case (Cons tos rest)
  obtain p where p: "tb_pop ni tos = Some p" "wf p" "content p = concat (map content tos)"
    using tb_pop_spec [of "n_height (hd tos)" tos] assms Cons by auto
  from tb_build_loop_spec [OF _ p(2), of rest] p assms Cons that show thesis
    by (auto simp: tb_build_def)
qed

lemma node_subseq_spec:
  assumes "wf n" "into_interval bounds (n_len n) = Some (mk_iv b e)"
    and "b \<le> e" "cut (content n) b" "cut (content n) e"
  obtains n' where "node_subseq ni n bounds = Some n'" "wf n'" "content n' = slice (content n) b e"
proof -
  obtain st where st: "tb_push_slice ni [] n (mk_iv b e) = Some st" "stack_wf ni linv st"
    "stack_content lc st = slice (content n) b e"
    using tb_push_sliceE [OF assms(1) _ assms(3-5), of "[]"] by auto
  obtain n' where "tb_build ni st = Some n'" "wf n'" "content n' = stack_content lc st"
    using st(2) by (rule tb_buildE)
  with st assms(2) that show thesis by (simp add: node_subseq_def)
qed

lemma node_edit_spec:
  assumes "wf n" "wf new" "into_interval bounds (n_len n) = Some (mk_iv b e)"
    and "b \<le> e" "cut (content n) b" "cut (content n) e"
  obtains n' where "node_edit ni n bounds new = Some n'" "wf n'"
    "content n' = take b (content n) @ content new @ drop e (content n)"
proof -
  let ?len = "length (content n)"
  have le: "e \<le> ?len" using assms(6) by (rule cut_ok_le)
  have ivs: "iv_prefix (node_interval n) (mk_iv b e) = mk_iv 0 b"
    "iv_suffix (node_interval n) (mk_iv b e) = mk_iv e ?len"
    using assms(1,4) le
    by (simp_all add: iv_prefix_def iv_suffix_def node_interval_def wf_len mk_iv_def max_def min_def)
  obtain st1 where st1: "tb_push_slice ni [] n (mk_iv 0 b) = Some st1" "stack_wf ni linv st1"
    "stack_content lc st1 = slice (content n) 0 b"
    using tb_push_sliceE [OF assms(1) _ le0 cut_ok_0 [OF wf_starts [OF assms(1)]] assms(5), of "[]"]
    by auto
  obtain st2 where st2: "tb_push ni st1 new = Some st2" "stack_wf ni linv st2"
    "stack_content lc st2 = stack_content lc st1 @ content new"
    using st1(2) assms(2) by (rule tb_pushE)
  obtain st3 where st3: "tb_push_slice ni st2 n (mk_iv e ?len) = Some st3" "stack_wf ni linv st3"
    "stack_content lc st3 = stack_content lc st2 @ slice (content n) e ?len"
    using assms(1) st2(2) le assms(6) cut_ok_length by (rule tb_push_sliceE)
  obtain n' where "tb_build ni st3 = Some n'" "wf n'" "content n' = stack_content lc st3"
    using st3(2) by (rule tb_buildE)
  with st1 st2 st3 ivs assms(3) that show thesis
    by (simp add: node_edit_def slice_def)
qed


section \<open>The integrity check\<close>

lemma identity_accumulate: "wf n \<Longrightarrow> ni_accumulate ni (ni_identity ni) (n_info n) = n_info n"
  using leaf_default by (simp add: ni_identity_def compute_info wf_info accumulate)

lemma integrity_children:
  assumes "\<And>c. c \<in> set v \<Longrightarrow> assert_integrity_inner ni c (depth + 1) = Some () \<and> n_height c + 1 = h"
  shows "assert_integrity_children ni v depth h len info
    = Some (len + sum_list (map n_len v), foldl (ni_accumulate ni) info (map n_info v))"
  using assms by (induction v arbitrary: len info) simp_all

lemma assert_integrity_inner_spec:
  "wf n \<Longrightarrow> depth = 0 \<or> ok n \<Longrightarrow> assert_integrity_inner ni n depth = Some ()"
proof (induction n arbitrary: depth)
  case (Node h len info x)
  from Node.prems(1) show ?case
  proof (cases rule: wf_cases)
    case (1 l)
    with Node.prems(2) leaf_ok_nonempty [OF 1(2)] show ?thesis
      by (auto simp: assert_integrity_inner.simps node_is_ok_child_def leaf_len compute_info)
  next
    case (2 h' v)
    then obtain c cs where v: "v = c # cs" by (cases v) auto
    have "assert_integrity_inner ni c (depth + 1) = Some ()" if "c \<in> set v" for c
      using Node.IH [of c "depth + 1"] 2 that by simp
    with 2(6) have "assert_integrity_children ni v depth (Suc h') 0 (ni_identity ni)
        = Some (sum_list (map n_len v), foldl (ni_accumulate ni) (ni_identity ni) (map n_info v))"
      by (subst integrity_children) auto
    moreover have "foldl (ni_accumulate ni) (ni_identity ni) (map n_info v)
        = foldl (ni_accumulate ni) (n_info (v ! 0)) (map n_info (tl v))"
      using 2(4) by (simp add: v identity_accumulate)
    ultimately show ?thesis
      using 2(1,2,3) by (simp add: assert_integrity_inner.simps)
  qed
qed

end

end
