(* ===== verification/Rope_Multiset.thy ===== *)
theory Rope_Multiset
  imports Rope_Prelude
begin

text \<open>
  Multi-subsets of a sequence, \<^verbatim>\<open>xi-rope/src/multiset.rs\<close>: the run-length encoded \<^verbatim>\<open>Subset\<close>, its
  builder, the three stateful iterators (\<^verbatim>\<open>RangeIter\<close>, \<^verbatim>\<open>ZipIter\<close>, \<^verbatim>\<open>Mapper\<close>) and every operation
  of \<^verbatim>\<open>impl Subset\<close> that does not touch a rope.  The abstract value of a subset is \<open>counts\<close>, the list
  of the counts of the elements of the sequence; each operation is shown to compute an
  element-wise function of it (\<open>counts\<close> is a refinement map), to keep the representation
  invariant \<open>subset_wf\<close>, and to panic exactly on the inputs its comment forbids.
\<close>

named_theorems subset_simps \<open>what each operation does to the abstract counts\<close>


section \<open>Segments, subsets and the builder\<close>

record segment =
  seg_len :: nat
  seg_count :: nat

record subset =
  segments :: "segment list"

record subset_builder =
  sb_segments :: "segment list"
  sb_total_len :: nat

definition subset_builder_new :: subset_builder where
  "subset_builder_new = \<lparr>sb_segments = [], sb_total_len = 0\<rparr>"

definition push_segment :: "subset_builder \<Rightarrow> nat \<Rightarrow> nat \<Rightarrow> subset_builder option" where
  "push_segment sb len count = do {
     rassert (len > 0);
     let sb = sb\<lparr>sb_total_len := sb_total_len sb + len\<rparr>;
     let segs = sb_segments sb;
     Some (if segs \<noteq> [] \<and> seg_count (last segs) = count
           then sb\<lparr>sb_segments :=
                  butlast segs @ [(last segs)\<lparr>seg_len := seg_len (last segs) + len\<rparr>]\<rparr>
           else sb\<lparr>sb_segments := segs @ [\<lparr>seg_len = len, seg_count = count\<rparr>]\<rparr>) }"

definition pad_to_len :: "subset_builder \<Rightarrow> nat \<Rightarrow> subset_builder option" where
  "pad_to_len sb total_len =
     (if total_len > sb_total_len sb then push_segment sb (total_len - sb_total_len sb) 0
      else Some sb)"

definition add_range :: "subset_builder \<Rightarrow> nat \<Rightarrow> nat \<Rightarrow> nat \<Rightarrow> subset_builder option" where
  "add_range sb b e count = do {
     rassert (b \<ge> sb_total_len sb);
     if b \<ge> e then Some sb
     else do {
       let len = e - b;
       let cur_total_len = sb_total_len sb;
       sb \<leftarrow> (if b > sb_total_len sb then push_segment sb (b - cur_total_len) 0 else Some sb);
       push_segment sb len count } }"

definition subset_build :: "subset_builder \<Rightarrow> subset" where
  "subset_build sb = \<lparr>segments = sb_segments sb\<rparr>"

datatype count_matcher = Zero | NonZero | All

fun matches :: "count_matcher \<Rightarrow> segment \<Rightarrow> bool" where
  "matches Zero seg = (seg_count seg = 0)"
| "matches NonZero seg = (seg_count seg \<noteq> 0)"
| "matches All seg = True"

definition subset_new :: "nat \<Rightarrow> subset option" where
  "subset_new len = do {
     sb \<leftarrow> pad_to_len subset_builder_new len;
     Some (subset_build sb) }"

definition subset_count :: "subset \<Rightarrow> count_matcher \<Rightarrow> nat" where
  "subset_count s m = sum_list (map seg_len (filter (matches m) (segments s)))"

definition len_after_delete :: "subset \<Rightarrow> nat" where
  "len_after_delete s = subset_count s Zero"

definition subset_len :: "subset \<Rightarrow> nat" where
  "subset_len s = subset_count s All"

definition subset_is_empty :: "subset \<Rightarrow> bool" where
  "subset_is_empty s \<longleftrightarrow>
     segments s = [] \<or> (length (segments s) = 1 \<and> seg_count (segments s ! 0) = 0)"


section \<open>Iterators\<close>

record range_iter =
  ri_segs :: "segment list"
  ri_consumed :: nat
  ri_matcher :: count_matcher

fun range_next_loop ::
  "count_matcher \<Rightarrow> segment list \<Rightarrow> nat \<Rightarrow> (nat \<times> nat) option \<times> segment list \<times> nat" where
  "range_next_loop m [] consumed = (None, [], consumed)"
| "range_next_loop m (seg # segs) consumed =
     (let consumed' = consumed + seg_len seg
      in if matches m seg then (Some (consumed' - seg_len seg, consumed'), segs, consumed')
         else range_next_loop m segs consumed')"

definition range_next :: "range_iter \<Rightarrow> (nat \<times> nat) option \<times> range_iter" where
  "range_next it =
     (case range_next_loop (ri_matcher it) (ri_segs it) (ri_consumed it) of
        (r, segs, consumed) \<Rightarrow> (r, it\<lparr>ri_segs := segs, ri_consumed := consumed\<rparr>))"

definition subset_range_iter :: "subset \<Rightarrow> count_matcher \<Rightarrow> range_iter" where
  "subset_range_iter s m = \<lparr>ri_segs = segments s, ri_consumed = 0, ri_matcher = m\<rparr>"

definition complement_iter :: "subset \<Rightarrow> range_iter" where
  "complement_iter s = subset_range_iter s Zero"

lemma range_next_loop_shrinks:
  "range_next_loop m segs c = (Some r, segs', c') \<Longrightarrow> length segs' < length segs"
  by (induction m segs c rule: range_next_loop.induct) (auto simp: Let_def split: if_splits)

lemma range_next_shrinks:
  "range_next it = (Some r, it') \<Longrightarrow> length (ri_segs it') < length (ri_segs it)"
  by (auto simp: range_next_def split: prod.splits dest: range_next_loop_shrinks)

text \<open>Running the iterator to its end, as a \<^verbatim>\<open>for\<close> loop over it does.\<close>

function range_collect :: "range_iter \<Rightarrow> (nat \<times> nat) list" where
  "range_collect it =
     (case range_next it of (None, _) \<Rightarrow> [] | (Some r, it') \<Rightarrow> r # range_collect it')"
  by pat_completeness auto
termination
  by (relation "measure (\<lambda>it. length (ri_segs it))") (auto dest: range_next_shrinks [OF sym])

declare range_collect.simps [simp del]

record zip_segment =
  zs_len :: nat
  zs_a_count :: nat
  zs_b_count :: nat

record zip_iter =
  zi_a_segs :: "segment list"
  zi_b_segs :: "segment list"
  zi_a_i :: nat
  zi_b_i :: nat
  zi_a_consumed :: nat
  zi_b_consumed :: nat
  zi_consumed :: nat

definition zip_next :: "zip_iter \<Rightarrow> (zip_segment option \<times> zip_iter) option" where
  "zip_next it =
     (case (list_get (zi_a_segs it) (zi_a_i it), list_get (zi_b_segs it) (zi_b_i it)) of
        (None, None) \<Rightarrow> Some (None, it)
      | (None, Some _) \<Rightarrow> None
      | (Some _, None) \<Rightarrow> None
      | (Some a, Some b) \<Rightarrow> do {
          let a_end = seg_len a + zi_a_consumed it;
          let b_end = seg_len b + zi_b_consumed it;
          (len, it) \<leftarrow>
            (if a_end = b_end then do {
               let it = it\<lparr>zi_a_consumed := a_end, zi_a_i := zi_a_i it + 1,
                           zi_b_consumed := b_end, zi_b_i := zi_b_i it + 1\<rparr>;
               len \<leftarrow> usize_sub (zi_a_consumed it) (zi_consumed it);
               Some (len, it) }
             else if a_end < b_end then do {
               let it = it\<lparr>zi_a_consumed := a_end, zi_a_i := zi_a_i it + 1\<rparr>;
               len \<leftarrow> usize_sub (zi_a_consumed it) (zi_consumed it);
               Some (len, it) }
             else do {
               let it = it\<lparr>zi_b_consumed := b_end, zi_b_i := zi_b_i it + 1\<rparr>;
               len \<leftarrow> usize_sub (zi_b_consumed it) (zi_consumed it);
               Some (len, it) });
          let it = it\<lparr>zi_consumed := zi_consumed it + len\<rparr>;
          Some (Some \<lparr>zs_len = len, zs_a_count = seg_count a, zs_b_count = seg_count b\<rparr>, it) })"

definition subset_zip :: "subset \<Rightarrow> subset \<Rightarrow> zip_iter" where
  "subset_zip a b = \<lparr>zi_a_segs = segments a, zi_b_segs = segments b, zi_a_i = 0, zi_b_i = 0,
     zi_a_consumed = 0, zi_b_consumed = 0, zi_consumed = 0\<rparr>"

definition zip_left :: "zip_iter \<Rightarrow> nat" where
  "zip_left it = (length (zi_a_segs it) - zi_a_i it) + (length (zi_b_segs it) - zi_b_i it)"

lemma zip_next_shrinks:
  "zip_next it = Some (Some z, it') \<Longrightarrow> zip_left it' < zip_left it"
  by (auto simp: zip_next_def zip_left_def list_get_def Let_def bind_eq_Some_conv
      split: if_splits option.splits)

function zip_collect :: "zip_iter \<Rightarrow> zip_segment list option" where
  "zip_collect it =
     (case zip_next it of
        None \<Rightarrow> None
      | Some (None, _) \<Rightarrow> Some []
      | Some (Some z, it') \<Rightarrow> map_option (Cons z) (zip_collect it'))"
  by pat_completeness auto
termination
  by (relation "measure zip_left") (auto dest: zip_next_shrinks)

declare zip_collect.simps [simp del]

record mapper =
  mp_range_iter :: range_iter
  mp_last_i :: nat
  mp_cur_range :: "nat \<times> nat"
  mp_amount :: nat

definition subset_mapper :: "subset \<Rightarrow> count_matcher \<Rightarrow> mapper" where
  "subset_mapper s m = \<lparr>mp_range_iter = subset_range_iter s m, mp_last_i = 0,
     mp_cur_range = (0, 0), mp_amount = 0\<rparr>"

text \<open>
  The \<^verbatim>\<open>while i >= self.cur_range.1\<close> loop of \<^verbatim>\<open>doc_index_to_subset\<close>; the flag says whether it left
  through the early \<^verbatim>\<open>return\<close> of the \<^verbatim>\<open>None\<close> arm.
\<close>

function mapper_advance :: "mapper \<Rightarrow> nat \<Rightarrow> bool \<times> mapper" where
  "mapper_advance m i =
     (if i \<ge> snd (mp_cur_range m) then
        (let m = m\<lparr>mp_amount := mp_amount m + (snd (mp_cur_range m) - fst (mp_cur_range m))\<rparr>
         in case range_next (mp_range_iter m) of
              (Some rng, it) \<Rightarrow>
                mapper_advance (m\<lparr>mp_range_iter := it, mp_cur_range := rng\<rparr>) i
            | (None, it) \<Rightarrow>
                (True, m\<lparr>mp_range_iter := it, mp_cur_range := (usize_max, usize_max)\<rparr>))
      else (False, m))"
  by pat_completeness auto
termination
  by (relation "measure (\<lambda>(m, i). length (ri_segs (mp_range_iter m)))")
    (auto dest: range_next_shrinks [OF sym])

declare mapper_advance.simps [simp del]

definition doc_index_to_subset :: "mapper \<Rightarrow> nat \<Rightarrow> (nat \<times> mapper) option" where
  "doc_index_to_subset m i = do {
     rassert (i \<ge> mp_last_i m);
     let m = m\<lparr>mp_last_i := i\<rparr>;
     let (returned, m) = mapper_advance m i;
     if returned then Some (mp_amount m, m)
     else if i \<ge> fst (mp_cur_range m)
     then Some (i - fst (mp_cur_range m) + mp_amount m, m)
     else Some (mp_amount m, m) }"


section \<open>Operations\<close>

definition push_zipped ::
  "(zip_segment \<Rightarrow> nat option) \<Rightarrow> zip_segment \<Rightarrow> subset_builder \<Rightarrow> subset_builder option" where
  "push_zipped f z sb = do { c \<leftarrow> f z; push_segment sb (zs_len z) c }"

definition subset_union :: "subset \<Rightarrow> subset \<Rightarrow> subset option" where
  "subset_union a b = do {
     zs \<leftarrow> zip_collect (subset_zip a b);
     sb \<leftarrow> foldM (push_zipped (\<lambda>z. Some (zs_a_count z + zs_b_count z))) zs subset_builder_new;
     Some (subset_build sb) }"

definition subset_subtract :: "subset \<Rightarrow> subset \<Rightarrow> subset option" where
  "subset_subtract a b = do {
     zs \<leftarrow> zip_collect (subset_zip a b);
     sb \<leftarrow> foldM (push_zipped (\<lambda>z. usize_sub (zs_a_count z) (zs_b_count z))) zs
            subset_builder_new;
     Some (subset_build sb) }"

definition subset_bitxor :: "subset \<Rightarrow> subset \<Rightarrow> subset option" where
  "subset_bitxor a b = do {
     zs \<leftarrow> zip_collect (subset_zip a b);
     sb \<leftarrow> foldM (push_zipped (\<lambda>z. Some (Bit_Operations.xor (zs_a_count z) (zs_b_count z)))) zs
            subset_builder_new;
     Some (subset_build sb) }"

text \<open>The inner \<^verbatim>\<open>while to_be_consumed > 0\<close> loop of \<^verbatim>\<open>Subset::transform\<close>.\<close>

function transform_fill ::
  "subset_builder \<Rightarrow> segment list \<Rightarrow> segment \<Rightarrow> nat
   \<Rightarrow> (subset_builder \<times> segment list \<times> segment) option" where
  "transform_fill sb seg_iter cur_seg to_be_consumed =
     (if to_be_consumed > 0 then do {
        (cur_seg, seg_iter) \<leftarrow>
          (if seg_len cur_seg = 0
           then (case seg_iter of [] \<Rightarrow> None | s # ss \<Rightarrow> Some (s, ss))
           else Some (cur_seg, seg_iter));
        let to_consume = min (seg_len cur_seg) to_be_consumed;
        sb \<leftarrow> push_segment sb to_consume (seg_count cur_seg);
        transform_fill sb seg_iter (cur_seg\<lparr>seg_len := seg_len cur_seg - to_consume\<rparr>)
          (to_be_consumed - to_consume) }
      else Some (sb, seg_iter, cur_seg))"
  by pat_completeness auto
termination
  by (relation "measure (\<lambda>(sb, seg_iter, cur, n). n)")
    (auto simp: push_segment_def bind_eq_Some_conv)

declare transform_fill.simps [simp del]

definition transform_step ::
  "bool \<Rightarrow> segment \<Rightarrow> subset_builder \<times> segment list \<times> segment
   \<Rightarrow> (subset_builder \<times> segment list \<times> segment) option" where
  "transform_step with_other oseg = (\<lambda>(sb, seg_iter, cur_seg).
     if seg_count oseg > 0 then do {
       sb \<leftarrow> push_segment sb (seg_len oseg) (if with_other then seg_count oseg else 0);
       Some (sb, seg_iter, cur_seg) }
     else transform_fill sb seg_iter cur_seg (seg_len oseg))"

lemma transform_step_apply:
  "transform_step with_other oseg (sb, seg_iter, cur_seg) =
     (if seg_count oseg > 0
      then push_segment sb (seg_len oseg) (if with_other then seg_count oseg else 0)
           \<bind> (\<lambda>sb. Some (sb, seg_iter, cur_seg))
      else transform_fill sb seg_iter cur_seg (seg_len oseg))"
  by (simp add: transform_step_def)

definition subset_transform :: "subset \<Rightarrow> subset \<Rightarrow> bool \<Rightarrow> subset option" where
  "subset_transform s other with_other = do {
     (sb, seg_iter, cur_seg) \<leftarrow>
       foldM (transform_step with_other) (segments other)
         (subset_builder_new, segments s, \<lparr>seg_len = 0, seg_count = 0\<rparr>);
     rassert (seg_len cur_seg = 0);
     rassert (seg_iter = []);
     Some (subset_build sb) }"

definition transform_expand :: "subset \<Rightarrow> subset \<Rightarrow> subset option" where
  "transform_expand s other = subset_transform s other False"

definition transform_union :: "subset \<Rightarrow> subset \<Rightarrow> subset option" where
  "transform_union s other = subset_transform s other True"

definition transform_shrink :: "subset \<Rightarrow> subset \<Rightarrow> subset option" where
  "transform_shrink s other = do {
     zs \<leftarrow> zip_collect (subset_zip s other);
     sb \<leftarrow> foldM (\<lambda>z sb. if zs_b_count z = 0 then push_segment sb (zs_len z) (zs_a_count z)
                         else Some sb) zs subset_builder_new;
     Some (subset_build sb) }"

definition subset_complement :: "subset \<Rightarrow> subset option" where
  "subset_complement s = do {
     sb \<leftarrow> foldM (\<lambda>seg sb. push_segment sb (seg_len seg) (if seg_count seg = 0 then 1 else 0))
            (segments s) subset_builder_new;
     Some (subset_build sb) }"


section \<open>The abstract counts and the representation invariant\<close>

definition seg_counts :: "segment list \<Rightarrow> nat list" where
  "seg_counts segs = concat (map (\<lambda>s. replicate (seg_len s) (seg_count s)) segs)"

definition counts :: "subset \<Rightarrow> nat list" where
  "counts s = seg_counts (segments s)"

text \<open>
  The invariant of the source's comment: every segment has non-zero length, and no segment has
  the same count as the one before it.
\<close>

definition segs_wf :: "segment list \<Rightarrow> bool" where
  "segs_wf segs \<longleftrightarrow> (\<forall>s \<in> set segs. 0 < seg_len s) \<and> distinct_adj (map seg_count segs)"

definition subset_wf :: "subset \<Rightarrow> bool" where
  "subset_wf s \<longleftrightarrow> segs_wf (segments s)"

definition builder_wf :: "subset_builder \<Rightarrow> bool" where
  "builder_wf sb \<longleftrightarrow> segs_wf (sb_segments sb)
     \<and> sb_total_len sb = length (seg_counts (sb_segments sb))"

fun cmatch :: "count_matcher \<Rightarrow> nat \<Rightarrow> bool" where
  "cmatch Zero c = (c = 0)"
| "cmatch NonZero c = (c \<noteq> 0)"
| "cmatch All c = True"

lemma cmatch_fun:
  "cmatch Zero = (\<lambda>c. c = 0)" "cmatch NonZero = (\<lambda>c. c \<noteq> 0)" "cmatch All = (\<lambda>c. True)"
  by (simp_all add: fun_eq_iff)

lemma matches_cmatch: "matches m s = cmatch m (seg_count s)"
  by (cases m) simp_all

lemma seg_counts_simps [simp]:
  "seg_counts [] = []"
  "seg_counts (s # segs) = replicate (seg_len s) (seg_count s) @ seg_counts segs"
  "seg_counts (xs @ ys) = seg_counts xs @ seg_counts ys"
  by (simp_all add: seg_counts_def)

lemma segs_wf_Nil [simp]: "segs_wf []"
  by (simp add: segs_wf_def)

lemma segs_wf_Cons:
  "segs_wf (s # segs) \<longleftrightarrow> 0 < seg_len s \<and> segs_wf segs
     \<and> (segs \<noteq> [] \<longrightarrow> seg_count s \<noteq> seg_count (hd segs))"
  by (cases segs) (auto simp: segs_wf_def)

lemma segs_wf_snoc:
  "segs_wf (segs @ [s]) \<longleftrightarrow> segs_wf segs \<and> 0 < seg_len s
     \<and> (segs \<noteq> [] \<longrightarrow> seg_count (last segs) \<noteq> seg_count s)"
  by (auto simp: segs_wf_def distinct_adj_append_iff last_map)

lemma hd_seg_counts: "segs_wf segs \<Longrightarrow> segs \<noteq> [] \<Longrightarrow>
    seg_counts segs \<noteq> [] \<and> hd (seg_counts segs) = seg_count (hd segs)"
  by (cases segs) (auto simp: segs_wf_Cons hd_append)

lemma replicate_append_hd_eq:
  assumes eq: "replicate m c @ xs = replicate n c @ ys"
    and xs: "xs \<noteq> [] \<longrightarrow> hd xs \<noteq> c" and ys: "ys \<noteq> [] \<longrightarrow> hd ys \<noteq> c"
  shows "m = n \<and> xs = ys"
proof -
  have tw: "takeWhile (\<lambda>x. x = c) (replicate k c @ zs) = replicate k c"
    if "zs \<noteq> [] \<longrightarrow> hd zs \<noteq> c" for k zs
    using that by (induction k) (cases zs; simp)+
  have "replicate m c = replicate n c"
    using tw [OF xs, of m] tw [OF ys, of n] eq by simp
  then have "m = n" by (metis length_replicate)
  with eq show ?thesis by simp
qed

lemma segs_wf_counts_inj:
  "segs_wf a \<Longrightarrow> segs_wf b \<Longrightarrow> seg_counts a = seg_counts b \<Longrightarrow> a = b"
proof (induction a arbitrary: b)
  case Nil
  then show ?case using hd_seg_counts [of b] by (cases b) auto
next
  case (Cons s a)
  then obtain t b' where b: "b = t # b'"
    using hd_seg_counts [of "s # a"] by (cases b) auto
  have hd: "seg_count s = seg_count t"
    using Cons.prems hd_seg_counts [of "s # a"] hd_seg_counts [of b] b by simp
  have "seg_len s = seg_len t \<and> seg_counts a = seg_counts b'"
  proof (rule replicate_append_hd_eq [of _ "seg_count s"])
    show "replicate (seg_len s) (seg_count s) @ seg_counts a
        = replicate (seg_len t) (seg_count s) @ seg_counts b'"
      using Cons.prems(3) b hd by simp
    show "seg_counts a \<noteq> [] \<longrightarrow> hd (seg_counts a) \<noteq> seg_count s"
      using Cons.prems(1) hd_seg_counts [of a] by (cases "a = []") (auto simp: segs_wf_Cons)
    show "seg_counts b' \<noteq> [] \<longrightarrow> hd (seg_counts b') \<noteq> seg_count s"
      using Cons.prems(2) hd_seg_counts [of b'] b hd
      by (cases "b' = []") (auto simp: segs_wf_Cons)
  qed
  moreover from this have "a = b'"
    using Cons b by (auto simp: segs_wf_Cons intro: Cons.IH)
  ultimately show ?case using b hd by (cases s; cases t) simp
qed

text \<open>
  The representation is canonical: equality of subsets (the derived \<^verbatim>\<open>PartialEq\<close>) is equality of
  the multi-subsets they denote.
\<close>

lemma subset_wf_canonical: "subset_wf a \<Longrightarrow> subset_wf b \<Longrightarrow> a = b \<longleftrightarrow> counts a = counts b"
  by (cases a; cases b) (auto simp: subset_wf_def counts_def dest: segs_wf_counts_inj)


text \<open>
  Hence every list of counts has exactly one representation, \<open>enc cs\<close>, computed by run-length
  encoding, and the operations can be characterised by equations between encodings.
\<close>

fun rle :: "nat list \<Rightarrow> segment list" where
  "rle [] = []"
| "rle (c # cs) =
     (case rle cs of
        [] \<Rightarrow> [\<lparr>seg_len = 1, seg_count = c\<rparr>]
      | s # ss \<Rightarrow> if seg_count s = c then s\<lparr>seg_len := Suc (seg_len s)\<rparr> # ss
                  else \<lparr>seg_len = 1, seg_count = c\<rparr> # s # ss)"

definition enc :: "nat list \<Rightarrow> subset" where
  "enc cs = \<lparr>segments = rle cs\<rparr>"

definition benc :: "nat list \<Rightarrow> subset_builder" where
  "benc cs = \<lparr>sb_segments = rle cs, sb_total_len = length cs\<rparr>"

lemma seg_counts_rle [simp]: "seg_counts (rle cs) = cs"
  by (induction cs) (auto split: list.splits)

lemma segs_wf_rle [simp]: "segs_wf (rle cs)"
  by (induction cs) (auto simp: segs_wf_Cons split: list.splits)

lemma rle_eq_Nil [simp]: "rle cs = [] \<longleftrightarrow> cs = []"
  by (cases cs) (auto split: list.splits)

lemma rle_seg_counts: "segs_wf segs \<Longrightarrow> rle (seg_counts segs) = segs"
  by (rule segs_wf_counts_inj) simp_all

lemma rle_pos: "s \<in> set (rle cs) \<Longrightarrow> 0 < seg_len s"
  using segs_wf_rle [of cs] unfolding segs_wf_def by blast

lemma counts_enc [simp]: "counts (enc cs) = cs"
  by (simp add: enc_def counts_def)

lemma subset_wf_enc [simp]: "subset_wf (enc cs)"
  by (simp add: enc_def subset_wf_def)

lemma segments_enc [simp]: "segments (enc cs) = rle cs"
  by (simp add: enc_def)

lemma enc_inj [simp]: "enc cs = enc ds \<longleftrightarrow> cs = ds"
  by (metis counts_enc)

lemma enc_counts: "subset_wf s \<Longrightarrow> enc (counts s) = s"
  by (simp add: subset_wf_canonical)

lemma subset_wf_enc_iff: "subset_wf s \<longleftrightarrow> (\<exists>cs. s = enc cs)"
  by (metis enc_counts subset_wf_enc)

lemma subset_wfE: assumes "subset_wf s" obtains cs where "s = enc cs" "counts s = cs"
  using assms by (metis enc_counts)


section \<open>Builder\<close>

lemma benc_simps [simp]:
  "sb_segments (benc cs) = rle cs" "sb_total_len (benc cs) = length cs"
  "subset_build (benc cs) = enc cs"
  by (simp_all add: benc_def enc_def subset_build_def)

lemma subset_builder_new_benc: "subset_builder_new = benc []"
  by (simp add: subset_builder_new_def benc_def)

lemma builder_wf_benc: "builder_wf sb \<longleftrightarrow> sb = benc (seg_counts (sb_segments sb))"
proof
  assume "builder_wf sb"
  then show "sb = benc (seg_counts (sb_segments sb))"
    by (cases sb) (simp add: builder_wf_def benc_def rle_seg_counts)
next
  assume "sb = benc (seg_counts (sb_segments sb))"
  then show "builder_wf sb"
    by (metis benc_simps(1,2) builder_wf_def seg_counts_rle segs_wf_rle)
qed

lemma push_segment_panics [simp]: "push_segment sb 0 c = None"
  by (simp add: push_segment_def)

lemma rle_snoc:
  assumes "segs = rle cs" "0 < l"
  shows "rle (cs @ replicate l c) =
    (if segs \<noteq> [] \<and> seg_count (last segs) = c
     then butlast segs @ [(last segs)\<lparr>seg_len := seg_len (last segs) + l\<rparr>]
     else segs @ [\<lparr>seg_len = l, seg_count = c\<rparr>])" (is "_ = ?segs")
proof (rule segs_wf_counts_inj)
  have wf: "segs_wf segs" and cs: "seg_counts segs = cs" by (simp_all add: assms)
  show "segs_wf ?segs"
    using wf \<open>0 < l\<close>
    by (cases segs rule: rev_cases) (auto simp: segs_wf_def distinct_adj_append_iff)
  show "seg_counts (rle (cs @ replicate l c)) = seg_counts ?segs"
    using cs by (cases segs rule: rev_cases) (auto simp: replicate_add)
qed simp

lemma push_segment_benc [simp]:
  "0 < l \<Longrightarrow> push_segment (benc cs) l c = Some (benc (cs @ replicate l c))"
  using rle_snoc [OF refl, of l cs c]
  by (simp add: push_segment_def Let_def benc_def)

lemma pad_to_len_benc [simp]:
  "pad_to_len (benc cs) n = Some (benc (cs @ replicate (n - length cs) 0))"
  by (simp add: pad_to_len_def)

lemma add_range_benc [simp]:
  "length cs \<le> b \<Longrightarrow> add_range (benc cs) b e c =
     Some (benc (cs @ (if b < e then replicate (b - length cs) 0 @ replicate (e - b) c else [])))"
  by (simp add: add_range_def)

lemma add_range_panics: "b < length cs \<Longrightarrow> add_range (benc cs) b e c = None"
  by (simp add: add_range_def)

lemma subset_new_enc [simp, subset_simps]: "subset_new n = Some (enc (replicate n 0))"
  by (simp add: subset_new_def subset_builder_new_benc)

lemma foldM_push_benc:
  assumes "\<And>z. z \<in> set zs \<Longrightarrow> P z \<Longrightarrow> 0 < l z"
  shows "foldM (\<lambda>z sb. if P z then push_segment sb (l z) (c z) else Some sb) zs (benc cs)
    = Some (benc (cs @ concat (map (\<lambda>z. replicate (l z) (c z)) (filter P zs))))"
  using assms by (induction zs arbitrary: cs) auto


section \<open>Length, emptiness, complement\<close>

lemma sum_list_seg_len:
  "sum_list (map seg_len (filter (matches m) segs)) = cnt (cmatch m) (seg_counts segs)"
  by (induction segs) (auto simp: matches_cmatch)

lemma subset_count_spec [subset_simps]: "subset_count s m = cnt (cmatch m) (counts s)"
  by (simp add: subset_count_def sum_list_seg_len counts_def)

lemma subset_len_counts [simp, subset_simps]: "subset_len s = length (counts s)"
  by (simp add: subset_len_def subset_count_spec cmatch_fun)

lemma len_after_delete_counts [simp, subset_simps]:
  "len_after_delete s = cnt (\<lambda>c. c = 0) (counts s)"
  by (simp add: len_after_delete_def subset_count_spec cmatch_fun)

lemma subset_is_empty_enc [simp, subset_simps]:
  "subset_is_empty (enc cs) \<longleftrightarrow> (\<forall>c \<in> set cs. c = 0)"
proof
  assume "subset_is_empty (enc cs)"
  then consider "rle cs = []" | s where "rle cs = [s]" "seg_count s = 0"
    by (cases "rle cs") (auto simp: subset_is_empty_def)
  then have "\<forall>c \<in> set (seg_counts (rle cs)). c = 0"
    by cases (auto simp del: seg_counts_rle)
  then show "\<forall>c \<in> set cs. c = 0" by simp
next
  assume "\<forall>c \<in> set cs. c = 0"
  then have eq: "cs = replicate (length cs) 0" by (simp add: replicate_length_same)
  have "rle (replicate (Suc n) 0) = [\<lparr>seg_len = Suc n, seg_count = 0\<rparr>]" for n
    by (induction n) simp_all
  then show "subset_is_empty (enc cs)"
    by (subst eq) (cases "length cs"; simp add: subset_is_empty_def)
qed

lemma subset_complement_enc [simp, subset_simps]:
  "subset_complement (enc cs) = Some (enc (map (\<lambda>c. if c = 0 then 1 else 0) cs))"
proof -
  let ?f = "\<lambda>c::nat. if c = 0 then 1 else (0::nat)"
  have "foldM (\<lambda>seg sb. push_segment sb (seg_len seg) (?f (seg_count seg))) (rle cs) (benc [])
      = Some (benc (concat (map (\<lambda>s. replicate (seg_len s) (?f (seg_count s))) (rle cs))))"
    using foldM_push_benc [of "rle cs" "\<lambda>_. True" seg_len "\<lambda>s. ?f (seg_count s)" "[]"] rle_pos
    by simp
  moreover have "concat (map (\<lambda>s. replicate (seg_len s) (?f (seg_count s))) segs)
      = map ?f (seg_counts segs)" for segs
    by (induction segs) simp_all
  ultimately show ?thesis
    by (simp add: subset_complement_def subset_builder_new_benc)
qed


section \<open>Zipping two subsets\<close>

definition zi_rest_a :: "zip_iter \<Rightarrow> nat list" where
  "zi_rest_a it =
     drop (zi_consumed it - zi_a_consumed it) (seg_counts (drop (zi_a_i it) (zi_a_segs it)))"

definition zi_rest_b :: "zip_iter \<Rightarrow> nat list" where
  "zi_rest_b it =
     drop (zi_consumed it - zi_b_consumed it) (seg_counts (drop (zi_b_i it) (zi_b_segs it)))"

text \<open>The side of one subset in the iterator: \<open>i\<close> segments are used up, \<open>done\<close> elements of them.\<close>

definition zi_side :: "segment list \<Rightarrow> nat \<Rightarrow> nat \<Rightarrow> nat \<Rightarrow> bool" where
  "zi_side segs i don consumed \<longleftrightarrow> (\<forall>s \<in> set segs. 0 < seg_len s) \<and> don \<le> consumed
     \<and> (if i < length segs then consumed < don + seg_len (segs ! i) else consumed = don)"

definition zi_inv :: "zip_iter \<Rightarrow> bool" where
  "zi_inv it \<longleftrightarrow> zi_side (zi_a_segs it) (zi_a_i it) (zi_a_consumed it) (zi_consumed it)
     \<and> zi_side (zi_b_segs it) (zi_b_i it) (zi_b_consumed it) (zi_consumed it)"

lemma zi_side_rest:
  assumes "zi_side segs i don consumed" and "i < length segs"
  shows "drop (consumed - don) (seg_counts (drop i segs))
    = replicate (don + seg_len (segs ! i) - consumed) (seg_count (segs ! i))
      @ seg_counts (drop (Suc i) segs)"
  using assms by (simp add: zi_side_def Cons_nth_drop_Suc [symmetric])

lemma zi_side_finish:
  assumes "zi_side segs i don consumed" and "i < length segs"
    and "consumed' = don + seg_len (segs ! i)"
  shows "zi_side segs (Suc i) consumed' consumed'"
  using assms by (auto simp: zi_side_def)

lemma zi_side_advance:
  assumes "zi_side segs i don consumed" and "i < length segs"
    and "consumed \<le> consumed'" and "consumed' < don + seg_len (segs ! i)"
  shows "zi_side segs i don consumed'"
  using assms by (auto simp: zi_side_def)

lemma zip_next_step:
  assumes inv: "zi_inv it"
    and a: "zi_a_i it < length (zi_a_segs it)" and b: "zi_b_i it < length (zi_b_segs it)"
  shows "\<exists>z it'. zip_next it = Some (Some z, it') \<and> zi_inv it' \<and> 0 < zs_len z
    \<and> zi_rest_a it = replicate (zs_len z) (zs_a_count z) @ zi_rest_a it'
    \<and> zi_rest_b it = replicate (zs_len z) (zs_b_count z) @ zi_rest_b it'"
proof -
  let ?ea = "zi_a_consumed it + seg_len (zi_a_segs it ! zi_a_i it)"
  let ?eb = "zi_b_consumed it + seg_len (zi_b_segs it ! zi_b_i it)"
  have sa: "zi_side (zi_a_segs it) (zi_a_i it) (zi_a_consumed it) (zi_consumed it)"
    and sb: "zi_side (zi_b_segs it) (zi_b_i it) (zi_b_consumed it) (zi_consumed it)"
    using inv by (simp_all add: zi_inv_def)
  have la: "zi_consumed it < ?ea" and lb: "zi_consumed it < ?eb"
    using sa sb a b by (simp_all add: zi_side_def)
  note rest = zi_side_rest [OF sa a] zi_side_rest [OF sb b]
  have split: "replicate (n + m) x @ xs = replicate n x @ replicate m x @ xs" for n m x and xs :: "nat list"
    by (simp add: replicate_add)
  consider (eq) "?ea = ?eb" | (lt) "?ea < ?eb" | (gt) "?eb < ?ea" by linarith
  then show ?thesis
  proof cases
    case eq
    with la lb rest zi_side_finish [OF sa a refl] zi_side_finish [OF sb b refl] a b show ?thesis
      by (simp add: zip_next_def list_get_def Let_def zi_inv_def zi_rest_a_def zi_rest_b_def
          add.commute)
  next
    case lt
    have "?eb - zi_consumed it = (?ea - zi_consumed it) + (?eb - ?ea)" using lt la by simp
    then have "zi_rest_b it = replicate (?ea - zi_consumed it) (seg_count (zi_b_segs it ! zi_b_i it))
        @ replicate (?eb - ?ea) (seg_count (zi_b_segs it ! zi_b_i it))
        @ seg_counts (drop (Suc (zi_b_i it)) (zi_b_segs it))"
      using rest(2) by (simp only: zi_rest_b_def split)
    moreover have "zi_side (zi_b_segs it) (zi_b_i it) (zi_b_consumed it) ?ea"
      using zi_side_advance [OF sb b] la lt by simp
    ultimately show ?thesis
      using lt la rest zi_side_finish [OF sa a refl] zi_side_rest [OF _ b, of _ ?ea] a b
      by (simp add: zip_next_def list_get_def Let_def zi_inv_def zi_rest_a_def zi_rest_b_def
          add.commute)
  next
    case gt
    have "?ea - zi_consumed it = (?eb - zi_consumed it) + (?ea - ?eb)" using gt lb by simp
    then have "zi_rest_a it = replicate (?eb - zi_consumed it) (seg_count (zi_a_segs it ! zi_a_i it))
        @ replicate (?ea - ?eb) (seg_count (zi_a_segs it ! zi_a_i it))
        @ seg_counts (drop (Suc (zi_a_i it)) (zi_a_segs it))"
      using rest(1) by (simp only: zi_rest_a_def split)
    moreover have "zi_side (zi_a_segs it) (zi_a_i it) (zi_a_consumed it) ?eb"
      using zi_side_advance [OF sa a] lb gt by simp
    ultimately show ?thesis
      using gt lb rest zi_side_finish [OF sb b refl] zi_side_rest [OF _ a, of _ ?eb] a b
      by (simp add: zip_next_def list_get_def Let_def zi_inv_def zi_rest_a_def zi_rest_b_def
          add.commute)
  qed
qed

lemma zi_rest_end:
  assumes "zi_inv it"
  shows "zi_rest_a it = [] \<longleftrightarrow> \<not> zi_a_i it < length (zi_a_segs it)"
    and "zi_rest_b it = [] \<longleftrightarrow> \<not> zi_b_i it < length (zi_b_segs it)"
proof -
  have "drop (consumed - don) (seg_counts (drop i segs)) = [] \<longleftrightarrow> \<not> i < length segs"
    if "zi_side segs i don consumed" for segs i don consumed
  proof (cases "i < length segs")
    case True
    with that zi_side_rest [OF that True] show ?thesis
      by (simp add: zi_side_def del: drop_eq_Nil drop_eq_Nil2)
  qed simp
  with assms show "zi_rest_a it = [] \<longleftrightarrow> \<not> zi_a_i it < length (zi_a_segs it)"
    "zi_rest_b it = [] \<longleftrightarrow> \<not> zi_b_i it < length (zi_b_segs it)"
    by (simp_all add: zi_inv_def zi_rest_a_def zi_rest_b_def)
qed

definition zs_pairs :: "zip_segment list \<Rightarrow> (nat \<times> nat) list" where
  "zs_pairs zs = concat (map (\<lambda>z. replicate (zs_len z) (zs_a_count z, zs_b_count z)) zs)"

lemma zip_replicate_append:
  "zip (replicate n x @ xs) (replicate n y @ ys) = replicate n (x, y) @ zip xs ys"
  by (simp add: zip_replicate)

lemma zip_collect_spec:
  "zi_inv it \<Longrightarrow>
   (if length (zi_rest_a it) = length (zi_rest_b it)
    then \<exists>zs. zip_collect it = Some zs \<and> (\<forall>z \<in> set zs. 0 < zs_len z)
         \<and> zs_pairs zs = zip (zi_rest_a it) (zi_rest_b it)
    else zip_collect it = None)"
proof (induction it rule: zip_collect.induct)
  case (1 it)
  note ends = zi_rest_end [OF "1.prems"]
  show ?case
  proof (cases "zi_a_i it < length (zi_a_segs it) \<and> zi_b_i it < length (zi_b_segs it)")
    case False
    with ends show ?thesis
      by (auto simp: zip_collect.simps [of it] zip_next_def list_get_def zs_pairs_def)
  next
    case True
    with zip_next_step [OF "1.prems"] obtain z it' where
      nxt: "zip_next it = Some (Some z, it')" and inv: "zi_inv it'" and z: "0 < zs_len z"
      and ra: "zi_rest_a it = replicate (zs_len z) (zs_a_count z) @ zi_rest_a it'"
      and rb: "zi_rest_b it = replicate (zs_len z) (zs_b_count z) @ zi_rest_b it'"
      by blast
    with "1.IH" [OF nxt refl refl inv] show ?thesis
      by (auto simp: zip_collect.simps [of it] zs_pairs_def zip_replicate_append)
  qed
qed

lemma zi_inv_subset_zip: "subset_wf a \<Longrightarrow> subset_wf b \<Longrightarrow> zi_inv (subset_zip a b)"
  by (auto simp: subset_wf_def segs_wf_def zi_inv_def zi_side_def subset_zip_def)

text \<open>
  \<^verbatim>\<open>zip\<close> pairs the counts of the two subsets, and panics when their lengths differ.
\<close>

lemma zip_collect_enc:
  assumes "length x = length y"
  obtains zs where "zip_collect (subset_zip (enc x) (enc y)) = Some zs"
    "\<And>z. z \<in> set zs \<Longrightarrow> 0 < zs_len z" "zs_pairs zs = zip x y"
  using zip_collect_spec [OF zi_inv_subset_zip [OF subset_wf_enc subset_wf_enc], of x y] assms
  by (auto simp: zi_rest_a_def zi_rest_b_def subset_zip_def)

lemma zip_collect_panics:
  "length x \<noteq> length y \<Longrightarrow> zip_collect (subset_zip (enc x) (enc y)) = None"
  using zip_collect_spec [OF zi_inv_subset_zip [OF subset_wf_enc subset_wf_enc], of x y]
  by (auto simp: zi_rest_a_def zi_rest_b_def subset_zip_def)


section \<open>Element-wise operations\<close>

lemma concat_zs_pairs:
  "concat (map (\<lambda>z. replicate (zs_len z) (f (zs_a_count z) (zs_b_count z))) zs)
    = map (\<lambda>(a, b). f a b) (zs_pairs zs)"
  by (induction zs) (simp_all add: zs_pairs_def)

lemma foldM_push_zipped:
  assumes "\<And>z. z \<in> set zs \<Longrightarrow> 0 < zs_len z"
    and "\<And>z. z \<in> set zs \<Longrightarrow> g z = Some (f (zs_a_count z) (zs_b_count z))"
  shows "foldM (push_zipped g) zs (benc cs)
    = Some (benc (cs @ map (\<lambda>(a, b). f a b) (zs_pairs zs)))"
  using assms
  by (induction zs arbitrary: cs) (simp_all add: push_zipped_def zs_pairs_def)

lemma subset_union_enc [simp, subset_simps]:
  "length x = length y \<Longrightarrow> subset_union (enc x) (enc y) = Some (enc (map2 (+) x y))"
  by (erule zip_collect_enc [of x y])
    (simp add: subset_union_def subset_builder_new_benc foldM_push_zipped [where f = "(+)"])

lemma subset_bitxor_enc [simp, subset_simps]:
  "length x = length y \<Longrightarrow>
    subset_bitxor (enc x) (enc y) = Some (enc (map2 Bit_Operations.xor x y))"
  by (erule zip_collect_enc [of x y])
    (simp add: subset_bitxor_def subset_builder_new_benc
      foldM_push_zipped [where f = Bit_Operations.xor])

lemma set_zs_pairs: "z \<in> set zs \<Longrightarrow> 0 < zs_len z \<Longrightarrow> (zs_a_count z, zs_b_count z) \<in> set (zs_pairs zs)"
  by (auto simp: zs_pairs_def intro!: bexI [of _ z])

lemma subset_subtract_enc [simp, subset_simps]:
  assumes len: "length x = length y" and ge: "list_all2 (\<lambda>a b. b \<le> a) x y"
  shows "subset_subtract (enc x) (enc y) = Some (enc (map2 (-) x y))"
proof -
  obtain zs where zs: "zip_collect (subset_zip (enc x) (enc y)) = Some zs"
    "\<And>z. z \<in> set zs \<Longrightarrow> 0 < zs_len z" "zs_pairs zs = zip x y"
    using zip_collect_enc [OF len] by blast
  have "usize_sub (zs_a_count z) (zs_b_count z) = Some (zs_a_count z - zs_b_count z)"
    if "z \<in> set zs" for z
    using set_zs_pairs [OF that] zs(2) [OF that] zs(3) ge by (auto simp: list_all2_iff)
  then show ?thesis
    using zs by (simp add: subset_subtract_def subset_builder_new_benc
        foldM_push_zipped [where f = "(-)"])
qed

lemma foldM_push_zipped_panics:
  "z \<in> set zs \<Longrightarrow> g z = None \<Longrightarrow> foldM (push_zipped g) zs sb = None"
  by (induction zs arbitrary: sb) (auto simp: push_zipped_def split: bind_splits)

lemma subset_subtract_panics:
  assumes len: "length x = length y" and lt: "\<not> list_all2 (\<lambda>a b. b \<le> a) x y"
  shows "subset_subtract (enc x) (enc y) = None"
proof -
  obtain zs where zs: "zip_collect (subset_zip (enc x) (enc y)) = Some zs" "zs_pairs zs = zip x y"
    using zip_collect_enc [OF len] by metis
  obtain a b where "(a, b) \<in> set (zip x y)" "a < b"
    using len lt by (auto simp: list_all2_iff not_le)
  then obtain z where "z \<in> set zs" "zs_a_count z < zs_b_count z"
    unfolding zs(2) [symmetric] by (auto simp: zs_pairs_def)
  then have "foldM (push_zipped (\<lambda>z. usize_sub (zs_a_count z) (zs_b_count z))) zs
      subset_builder_new = None"
    by (intro foldM_push_zipped_panics) (auto simp: usize_sub_def)
  then show ?thesis
    using zs(1) by (simp add: subset_subtract_def)
qed

text \<open>Subsets of different lengths cannot be combined: every zipping operation panics.\<close>

lemma zipped_panics:
  assumes "length x \<noteq> length y"
  shows "subset_union (enc x) (enc y) = None" "subset_subtract (enc x) (enc y) = None"
    "subset_bitxor (enc x) (enc y) = None" "transform_shrink (enc x) (enc y) = None"
  using zip_collect_panics [OF assms]
  by (simp_all add: subset_union_def subset_subtract_def subset_bitxor_def transform_shrink_def)

lemma zs_pairs_filter:
  "concat (map (\<lambda>z. replicate (zs_len z) (zs_a_count z)) (filter (\<lambda>z. zs_b_count z = 0) zs))
    = map fst (filter (\<lambda>p. snd p = 0) (zs_pairs zs))"
  by (induction zs) (simp_all add: zs_pairs_def)

lemma sel_zip_swap:
  "length x = length y \<Longrightarrow> map fst (filter (\<lambda>p. snd p = 0) (zip x y)) = sel (\<lambda>b. b = 0) y x"
  by (induction x y rule: list_induct2) simp_all

lemma transform_shrink_enc [simp, subset_simps]:
  assumes "length x = length y"
  shows "transform_shrink (enc x) (enc y) = Some (enc (sel (\<lambda>b. b = 0) y x))"
proof -
  obtain zs where zs: "zip_collect (subset_zip (enc x) (enc y)) = Some zs"
    "\<And>z. z \<in> set zs \<Longrightarrow> 0 < zs_len z" "zs_pairs zs = zip x y"
    using zip_collect_enc [OF assms] by blast
  show ?thesis
    using zs foldM_push_benc [of zs "\<lambda>z. zs_b_count z = 0" zs_len zs_a_count "[]"] assms
    by (simp add: transform_shrink_def subset_builder_new_benc zs_pairs_filter sel_zip_swap)
qed


section \<open>Transforming a subset through the zero regions of another\<close>

text \<open>
  \<open>cexpand un a o\<close> spreads the counts \<open>a\<close> over the positions where \<open>o\<close> is zero; the other
  positions get the count of \<open>o\<close> (for \<^verbatim>\<open>transform_union\<close>) or zero (for \<^verbatim>\<open>transform_expand\<close>).
\<close>

fun cexpand :: "bool \<Rightarrow> nat list \<Rightarrow> nat list \<Rightarrow> nat list" where
  "cexpand un xs [] = []"
| "cexpand un xs (c # cs) =
     (if c > 0 then (if un then c else 0) # cexpand un xs cs
      else case xs of [] \<Rightarrow> 0 # cexpand un [] cs | x # xs' \<Rightarrow> x # cexpand un xs' cs)"

lemma length_cexpand [simp]: "length (cexpand un xs cs) = length cs"
  by (induction un xs cs rule: cexpand.induct) (auto split: list.splits)

lemma cexpand_replicate_pos:
  "0 < c \<Longrightarrow> cexpand un xs (replicate n c @ cs)
    = replicate n (if un then c else 0) @ cexpand un xs cs"
  by (induction n) auto

lemma cexpand_replicate_zero:
  "n \<le> length xs \<Longrightarrow> cexpand un xs (replicate n 0 @ cs) = take n xs @ cexpand un (drop n xs) cs"
proof (induction n arbitrary: xs)
  case (Suc n)
  then show ?case by (cases xs) auto
qed simp

definition unread :: "segment list \<Rightarrow> segment \<Rightarrow> nat list" where
  "unread segs cur = replicate (seg_len cur) (seg_count cur) @ seg_counts segs"

lemma transform_fill_spec:
  assumes "\<forall>s \<in> set segs. 0 < seg_len s"
  shows "if n \<le> length (unread segs cur)
    then \<exists>segs' cur'. transform_fill (benc cs) segs cur n
           = Some (benc (cs @ take n (unread segs cur)), segs', cur')
         \<and> unread segs' cur' = drop n (unread segs cur) \<and> (\<forall>s \<in> set segs'. 0 < seg_len s)
    else transform_fill (benc cs) segs cur n = None"
  using assms
proof (induction n arbitrary: segs cur cs rule: less_induct)
  case (less n)
  define step where "step = (\<lambda>(cur, segs). do {
        let to_consume = min (seg_len cur) n;
        sb \<leftarrow> push_segment (benc cs) to_consume (seg_count cur);
        transform_fill sb segs (cur\<lparr>seg_len := seg_len cur - to_consume\<rparr>) (n - to_consume) })"
  have step: "if n \<le> length (unread segs cur)
      then \<exists>segs' cur'. step (cur, segs) = Some (benc (cs @ take n (unread segs cur)), segs', cur')
           \<and> unread segs' cur' = drop n (unread segs cur) \<and> (\<forall>s \<in> set segs'. 0 < seg_len s)
      else step (cur, segs) = None"
    if "0 < n" and pos: "0 < seg_len cur" and segs: "\<forall>s \<in> set segs. 0 < seg_len s" for cur segs
  proof -
    define k where "k = min (seg_len cur) n"
    let ?cur = "cur\<lparr>seg_len := seg_len cur - k\<rparr>"
    have k: "k \<le> n" "0 < k" "k \<le> seg_len cur" using that by (simp_all add: k_def)
    have u: "unread segs cur = replicate k (seg_count cur) @ unread segs ?cur"
      using k by (simp add: unread_def flip: append_assoc replicate_add)
    have eq: "step (cur, segs)
        = transform_fill (benc (cs @ replicate k (seg_count cur))) segs ?cur (n - k)"
      using k(2) by (simp add: step_def k_def Let_def)
    have "n - k < n" using k by linarith
    from less.IH [OF this segs, of ?cur "cs @ replicate k (seg_count cur)"] k show ?thesis
      unfolding eq u by (cases "n - k \<le> length (unread segs ?cur)") auto
  qed
  show ?case
  proof (cases "n = 0")
    case True
    with less.prems show ?thesis by (simp add: transform_fill.simps [of _ _ _ 0])
  next
    case False
    show ?thesis
    proof (cases "seg_len cur = 0")
      case True
      show ?thesis
      proof (cases segs)
        case Nil
        with True False show ?thesis
          by (simp add: transform_fill.simps [of _ _ _ n] unread_def)
      next
        case (Cons t ts)
        then have "transform_fill (benc cs) segs cur n = step (t, ts)"
          using True False by (simp add: transform_fill.simps [of _ _ _ n] step_def)
        moreover have "unread segs cur = unread ts t"
          using Cons True by (simp add: unread_def)
        ultimately show ?thesis
          using step [of t ts] False less.prems Cons by simp
      qed
    next
      case pos: False
      then have "transform_fill (benc cs) segs cur n = step (cur, segs)"
        using False by (simp add: transform_fill.simps [of _ _ _ n] step_def)
      then show ?thesis
        using step [of cur segs] False pos less.prems by simp
    qed
  qed
qed

lemma transform_loop_spec:
  assumes "\<forall>s \<in> set segs. 0 < seg_len s" and "\<forall>s \<in> set osegs. 0 < seg_len s"
  shows "if cnt (\<lambda>c. c = 0) (seg_counts osegs) \<le> length (unread segs cur)
    then \<exists>segs' cur'. foldM (transform_step un) osegs (benc cs, segs, cur)
           = Some (benc (cs @ cexpand un (unread segs cur) (seg_counts osegs)), segs', cur')
         \<and> unread segs' cur' = drop (cnt (\<lambda>c. c = 0) (seg_counts osegs)) (unread segs cur)
         \<and> (\<forall>s \<in> set segs'. 0 < seg_len s)
    else foldM (transform_step un) osegs (benc cs, segs, cur) = None"
  using assms
proof (induction osegs arbitrary: cs segs cur)
  case (Cons oseg osegs)
  have pos: "0 < seg_len oseg" "\<forall>s \<in> set osegs. 0 < seg_len s" using Cons.prems by simp_all
  show ?case
  proof (cases "seg_count oseg > 0")
    case True
    with Cons.IH [OF Cons.prems(1) pos(2), of cur
        "cs @ replicate (seg_len oseg) (if un then seg_count oseg else 0)"] pos
    show ?thesis by (auto simp: transform_step_apply cexpand_replicate_pos)
  next
    case False
    then have zero: "seg_count oseg = 0" by simp
    let ?n = "seg_len oseg"
    show ?thesis
    proof (cases "?n \<le> length (unread segs cur)")
      case False
      with transform_fill_spec [OF Cons.prems(1), of ?n cur cs] zero show ?thesis
        by (simp add: transform_step_apply)
    next
      case True
      with transform_fill_spec [OF Cons.prems(1), of ?n cur cs] obtain segs' cur' where
        fill: "transform_fill (benc cs) segs cur ?n
            = Some (benc (cs @ take ?n (unread segs cur)), segs', cur')"
        and u: "unread segs' cur' = drop ?n (unread segs cur)"
        and segs': "\<forall>s \<in> set segs'. 0 < seg_len s" by auto
      let ?z = "cnt (\<lambda>c. c = 0) (seg_counts osegs)"
      have fit: "?n + ?z \<le> length (unread segs cur) \<longleftrightarrow> ?z \<le> length (unread segs' cur')"
        using True u by auto
      from Cons.IH [OF segs' pos(2), of cur' "cs @ take ?n (unread segs cur)"] fill zero True
      show ?thesis
        by (cases "?z \<le> length (unread segs' cur')")
          (simp_all add: transform_step_apply cexpand_replicate_zero fit u add.commute)
    qed
  qed
qed simp

text \<open>
  \<^verbatim>\<open>Subset::transform\<close> maps the contents of \<^verbatim>\<open>self\<close> into the zero regions of \<^verbatim>\<open>other\<close>; it panics
  exactly when they do not fit.
\<close>

lemma subset_transform_enc [subset_simps]:
  "subset_transform (enc x) (enc y) un =
     (if length x = cnt (\<lambda>c. c = 0) y then Some (enc (cexpand un x y)) else None)"
proof -
  let ?cur = "\<lparr>seg_len = 0, seg_count = 0\<rparr>" and ?z = "cnt (\<lambda>c. c = 0) y"
  have u: "unread (rle x) ?cur = x" by (simp add: unread_def)
  have unread_Nil: "unread segs' cur' = [] \<longleftrightarrow> segs' = [] \<and> seg_len cur' = 0"
    if "\<forall>s \<in> set segs'. 0 < seg_len s" for segs' and cur' :: segment
    using that by (cases segs') (auto simp: unread_def)
  have wf: "\<forall>s \<in> set (rle x). 0 < seg_len s" "\<forall>s \<in> set (rle y). 0 < seg_len s"
    using rle_pos by auto
  note loop = transform_loop_spec [OF wf, of ?cur un "[]"]
  show ?thesis
  proof (cases "?z \<le> length x")
    case False
    with loop u show ?thesis
      by (simp add: subset_transform_def subset_builder_new_benc)
  next
    case True
    with loop u obtain segs' cur' where
      "foldM (transform_step un) (rle y) (benc [], rle x, ?cur)
        = Some (benc (cexpand un x y), segs', cur')"
      "unread segs' cur' = drop ?z x" "\<forall>s \<in> set segs'. 0 < seg_len s"
      by auto
    with True unread_Nil [of segs' cur'] show ?thesis
      by (auto simp: subset_transform_def subset_builder_new_benc)
  qed
qed

lemma transform_expand_enc [simp, subset_simps]:
  "length x = cnt (\<lambda>c. c = 0) y \<Longrightarrow> transform_expand (enc x) (enc y) = Some (enc (cexpand False x y))"
  by (simp add: transform_expand_def subset_transform_enc)

lemma transform_union_enc [simp, subset_simps]:
  "length x = cnt (\<lambda>c. c = 0) y \<Longrightarrow> transform_union (enc x) (enc y) = Some (enc (cexpand True x y))"
  by (simp add: transform_union_def subset_transform_enc)


subsection \<open>Algebra of expansion and shrinking\<close>

lemma cexpand_sel [simp]:
  "length x = cnt (\<lambda>c. c = 0) y \<Longrightarrow> sel (\<lambda>b. b = 0) y (cexpand un x y) = x"
proof (induction un x y rule: cexpand.induct)
  case (2 un xs c cs)
  then show ?case by (cases xs) (auto split: if_splits)
qed simp

text \<open>Shrinking by what a subset was expanded through gives the subset back.\<close>

lemma transform_shrink_expand:
  assumes "transform_expand (enc x) (enc y) = Some s"
  shows "transform_shrink s (enc y) = Some (enc x)"
  using assms
  by (auto simp: transform_expand_def subset_transform_enc split: if_splits)

lemma cexpand_un_plus: "length x = cnt (\<lambda>c. c = 0) y \<Longrightarrow>
    map2 (+) (cexpand False x y) y = cexpand True x y"
proof (induction True x y rule: cexpand.induct)
  case (2 xs c cs)
  then show ?case by (cases xs) (auto split: if_splits)
qed simp

text \<open>\<^verbatim>\<open>transform_union\<close> is \<^verbatim>\<open>transform_expand\<close> followed by the union with the other subset.\<close>

lemma transform_union_is_expand_union:
  "transform_union (enc x) (enc y) = transform_expand (enc x) (enc y) \<bind> (\<lambda>s. subset_union s (enc y))"
  by (simp add: transform_union_def transform_expand_def subset_transform_enc cexpand_un_plus)

lemma sel_cexpand_True:
  "length x = cnt (\<lambda>c. c = 0) y \<Longrightarrow> length s = length y \<Longrightarrow>
    sel (\<lambda>c. c = 0) (cexpand True x y) s = sel (\<lambda>c. c = 0) x (sel (\<lambda>c. c = 0) y s)"
proof (induction True x y arbitrary: s rule: cexpand.induct)
  case (2 xs c cs)
  then obtain t ts where "s = t # ts" by (cases s) auto
  with 2 show ?case by (cases xs) (auto split: if_splits)
qed simp

lemma sel_cexpand_False_shrink:
  "length x = cnt (\<lambda>c. c = 0) y \<Longrightarrow> length s = length y \<Longrightarrow>
    sel (\<lambda>c. c = 0) (sel (\<lambda>c. c = 0) (cexpand False x y) y) (sel (\<lambda>c. c = 0) (cexpand False x y) s)
      = sel (\<lambda>c. c = 0) x (sel (\<lambda>c. c = 0) y s)"
proof (induction False x y arbitrary: s rule: cexpand.induct)
  case (2 xs c cs)
  then obtain t ts where "s = t # ts" by (cases s) auto
  with 2 show ?case by (cases xs) (auto split: if_splits)
qed simp

lemma map2_plus_minus: "length x = length y \<Longrightarrow> map2 (-) (map2 (+) x y) y = (x :: nat list)"
  by (induction x y rule: list_induct2) simp_all

lemma list_all2_plus: "length x = length y \<Longrightarrow> list_all2 (\<lambda>a b. b \<le> a) (map2 (+) x y) (y :: nat list)"
  by (induction x y rule: list_induct2) simp_all

text \<open>Subtraction undoes union, and \<^verbatim>\<open>bitxor\<close> is its own inverse.\<close>

lemma subset_subtract_union:
  "subset_union (enc x) (enc y) = Some s \<Longrightarrow> subset_subtract s (enc y) = Some (enc x)"
  by (cases "length x = length y")
    (auto simp: zipped_panics list_all2_plus map2_plus_minus)

lemma xor_xor_cancel: "Bit_Operations.xor (Bit_Operations.xor a b) b = (a :: nat)"
  by (simp add: xor.assoc)

lemma map2_xor_xor: "length x = length y \<Longrightarrow>
    map2 Bit_Operations.xor (map2 Bit_Operations.xor x y) y = (x :: nat list)"
  by (induction x y rule: list_induct2) (simp_all add: xor_xor_cancel)

lemma map2_xor_xor2: "length x = length y \<Longrightarrow>
    map2 Bit_Operations.xor x (map2 Bit_Operations.xor x y) = (y :: nat list)"
  by (induction x y rule: list_induct2) (simp_all add: xor.assoc [symmetric])

lemma subset_bitxor_involutive:
  "subset_bitxor (enc x) (enc y) = Some s \<Longrightarrow> subset_bitxor s (enc y) = Some (enc x)"
  by (cases "length x = length y") (auto simp: zipped_panics map2_xor_xor)


section \<open>Ranges and coordinate mapping\<close>

text \<open>
  What the range iterator returns: the next maximal run of matching elements, described on the
  counts \<open>cs\<close> of the whole subset.
\<close>

lemma range_next_loop_spec:
  assumes "drop c cs = seg_counts segs" and "c \<le> length cs" and "\<forall>s \<in> set segs. 0 < seg_len s"
    and "range_next_loop m segs c = (r, segs', c')"
  shows "drop c' cs = seg_counts segs' \<and> c \<le> c' \<and> c' \<le> length cs
    \<and> (\<forall>s \<in> set segs'. 0 < seg_len s)
    \<and> (case r of
         None \<Rightarrow> segs' = [] \<and> c' = length cs \<and> (\<forall>x \<in> set (drop c cs). \<not> cmatch m x)
       | Some (b, e) \<Rightarrow> c \<le> b \<and> b < e \<and> e = c' \<and> (\<forall>x \<in> set (slice cs b e). cmatch m x)
           \<and> (\<forall>x \<in> set (slice cs c b). \<not> cmatch m x))"
  using assms
proof (induction m segs c rule: range_next_loop.induct)
  case (1 m c)
  then show ?case by auto
next
  case (2 m seg segs c)
  let ?c = "c + seg_len seg"
  have len: "length (drop c cs) = seg_len seg + length (seg_counts segs)"
    using "2.prems"(1) by simp
  then have cle: "?c \<le> length cs" using "2.prems"(2) by simp
  have run: "slice cs c ?c = replicate (seg_len seg) (seg_count seg)"
    using "2.prems"(1) by (simp add: slice_def)
  have rest: "drop ?c cs = seg_counts segs"
    using arg_cong [OF "2.prems"(1), of "drop (seg_len seg)"] by (simp add: add.commute)
  show ?case
  proof (cases "matches m seg")
    case True
    with "2.prems" rest run cle show ?thesis
      by (auto simp: Let_def matches_cmatch)
  next
    case False
    have IH: "range_next_loop m segs ?c = (r, segs', c')" "?c \<le> length cs"
      "\<forall>s \<in> set segs. 0 < seg_len s"
      using "2.prems" False cle by (auto simp: Let_def)
    have "slice cs c b = slice cs c ?c @ slice cs ?c b" if "?c \<le> b" for b
      using that by (simp add: slice_split)
    moreover have "drop c cs = slice cs c ?c @ drop ?c cs"
      by (simp add: slice_drop)
    ultimately show ?thesis
      using "2.IH" [OF refl False rest IH(2,3,1)] run False
      by (auto simp: matches_cmatch split: option.splits)
  qed
qed

definition range_inv :: "nat list \<Rightarrow> range_iter \<Rightarrow> bool" where
  "range_inv cs it \<longleftrightarrow> drop (ri_consumed it) cs = seg_counts (ri_segs it)
     \<and> ri_consumed it \<le> length cs \<and> (\<forall>s \<in> set (ri_segs it). 0 < seg_len s)"

lemma range_inv_init [simp]: "range_inv cs (subset_range_iter (enc cs) m)"
  by (auto simp: range_inv_def subset_range_iter_def dest: rle_pos)

lemma range_next_None:
  assumes "range_inv cs it" and "range_next it = (None, it')"
  shows "range_inv cs it'" "ri_matcher it' = ri_matcher it" "ri_segs it' = []"
    "ri_consumed it' = length cs"
    "\<And>x. x \<in> set (drop (ri_consumed it) cs) \<Longrightarrow> \<not> cmatch (ri_matcher it) x"
  using assms
    range_next_loop_spec [of "ri_consumed it" cs "ri_segs it" "ri_matcher it" None
      "ri_segs it'" "ri_consumed it'"]
  by (auto simp: range_inv_def range_next_def split: prod.splits)

lemma range_next_Some:
  assumes "range_inv cs it" and "range_next it = (Some (b, e), it')"
  shows "range_inv cs it'" "ri_matcher it' = ri_matcher it"
    "ri_consumed it' = e" "ri_consumed it \<le> b" "b < e" "e \<le> length cs"
    "\<And>x. x \<in> set (slice cs b e) \<Longrightarrow> cmatch (ri_matcher it) x"
    "\<And>x. x \<in> set (slice cs (ri_consumed it) b) \<Longrightarrow> \<not> cmatch (ri_matcher it) x"
  using assms
    range_next_loop_spec [of "ri_consumed it" cs "ri_segs it" "ri_matcher it" "Some (b, e)"
      "ri_segs it'" "ri_consumed it'"]
  by (auto simp: range_inv_def range_next_def split: prod.splits)

text \<open>
  The ranges of a whole iteration pick out the matching elements of any sequence the subset
  describes: concatenating the slices is the selection.
\<close>

lemma range_collect_sel:
  assumes "range_inv cs it" and "length xs = length cs"
  shows "concat (map (\<lambda>(b, e). slice xs b e) (range_collect it))
    = sel (cmatch (ri_matcher it)) (drop (ri_consumed it) cs) (drop (ri_consumed it) xs)"
  using assms
proof (induction it rule: range_collect.induct)
  case (1 it)
  let ?P = "cmatch (ri_matcher it)" and ?c = "ri_consumed it"
  obtain r it' where nxt: "range_next it = (r, it')" by (cases "range_next it")
  show ?case
  proof (cases r)
    case None
    with nxt range_next_None(5) [OF "1.prems"(1)] "1.prems"(2) show ?thesis
      by (simp add: range_collect.simps [of it] sel_none)
  next
    case (Some be)
    then obtain b e where r: "r = Some (b, e)" by (cases be) auto
    note s = range_next_Some [OF "1.prems"(1) nxt [unfolded r]]
    have split: "drop ?c zs = slice zs ?c b @ slice zs b e @ drop e zs" for zs :: "'x list"
      using s(4,5) by (simp add: slice_drop)
    have "sel ?P (drop ?c cs) (drop ?c xs)
        = sel ?P (slice cs ?c b) (slice xs ?c b) @ sel ?P (slice cs b e) (slice xs b e)
          @ sel ?P (drop e cs) (drop e xs)"
      using "1.prems"(2) by (subst (1 2) split) (simp add: sel_append)
    then show ?thesis
      using "1.IH" [OF nxt [symmetric, unfolded r] refl s(1) "1.prems"(2)] nxt r s(2,3,7,8) "1.prems"(2)
      by (simp add: range_collect.simps [of it] sel_none sel_all)
  qed
qed


text \<open>
  The state of a mapper over the counts \<open>cs\<close>: either a current range (the last one the range
  iterator returned), or the end state the source marks with \<^verbatim>\<open>(usize::MAX, usize::MAX)\<close>.
\<close>

definition mapper_at :: "nat list \<Rightarrow> mapper \<Rightarrow> bool" where
  "mapper_at cs m \<longleftrightarrow>
     (let P = cmatch (ri_matcher (mp_range_iter m)); (b, e) = mp_cur_range m
      in b \<le> e \<and> e = ri_consumed (mp_range_iter m) \<and> mp_amount m = cnt P (take b cs)
         \<and> (\<forall>x \<in> set (slice cs b e). P x) \<and> (\<forall>x \<in> set (slice cs (mp_last_i m) b). \<not> P x))"

definition mapper_done :: "nat list \<Rightarrow> mapper \<Rightarrow> bool" where
  "mapper_done cs m \<longleftrightarrow>
     (let P = cmatch (ri_matcher (mp_range_iter m))
      in mp_cur_range m = (usize_max, usize_max) \<and> ri_segs (mp_range_iter m) = []
         \<and> mp_amount m = cnt P cs \<and> (\<forall>x \<in> set (drop (mp_last_i m) cs). \<not> P x))"

definition mapper_inv :: "nat list \<Rightarrow> mapper \<Rightarrow> bool" where
  "mapper_inv cs m \<longleftrightarrow> range_inv cs (mp_range_iter m) \<and> (mapper_at cs m \<or> mapper_done cs m)"

lemma cnt_slice_all: "\<forall>x \<in> set (slice cs b e). P x \<Longrightarrow> b \<le> e \<Longrightarrow> e \<le> length cs \<Longrightarrow>
    cnt P (take e cs) = cnt P (take b cs) + (e - b)"
  by (simp add: cnt_slice [of b e])

lemma cnt_slice_none: "\<forall>x \<in> set (slice cs b e). \<not> P x \<Longrightarrow> b \<le> e \<Longrightarrow>
    cnt P (take e cs) = cnt P (take b cs)"
  by (simp add: cnt_slice [of b e])

lemma cnt_drop_none: "\<forall>x \<in> set (drop i cs). \<not> P x \<Longrightarrow> cnt P (take i cs) = cnt P cs"
  by (metis append_Nil2 append_take_drop_id filter_False filter_append)

lemma set_drop_mono: "a \<le> b \<Longrightarrow> set (drop b xs) \<subseteq> set (drop a xs)"
  by (rule set_drop_subset_set_drop)

lemma set_slice_mono: "a \<le> a' \<Longrightarrow> b' \<le> b \<Longrightarrow> set (slice xs a' b') \<subseteq> set (slice xs a b)"
proof
  fix x
  assume le: "a \<le> a'" "b' \<le> b" and "x \<in> set (slice xs a' b')"
  then obtain i where "a' \<le> i" "i < b'" "i < length xs" "xs ! i = x"
    unfolding set_slice_nth by blast
  with le show "x \<in> set (slice xs a b)"
    unfolding set_slice_nth by (intro exI [of _ i]) simp
qed

lemma mapper_advance_spec:
  assumes "mapper_inv cs m" and "mp_last_i m = i" and "mapper_advance m i = (ret, m')"
  shows "mapper_inv cs m' \<and> mp_last_i m' = i
    \<and> ri_matcher (mp_range_iter m') = ri_matcher (mp_range_iter m)
    \<and> (if ret then mp_amount m' = cnt (cmatch (ri_matcher (mp_range_iter m))) (take i cs)
       else i < snd (mp_cur_range m'))"
  using assms
proof (induction m i rule: mapper_advance.induct)
  case (1 m i)
  let ?P = "cmatch (ri_matcher (mp_range_iter m))"
  obtain b e where cur: "mp_cur_range m = (b, e)" by force
  let ?m = "m\<lparr>mp_amount := mp_amount m + (e - b)\<rparr>"
  have rinv: "range_inv cs (mp_range_iter m)" using "1.prems" by (simp add: mapper_inv_def)
  show ?case
  proof (cases "e \<le> i")
    case False
    with "1.prems" cur show ?thesis by (auto simp: mapper_advance.simps [of m i])
  next
    case True
    obtain r it' where nxt: "range_next (mp_range_iter m) = (r, it')" by force
    show ?thesis
    proof (cases "mapper_at cs m")
      case at: True
      then have s: "b \<le> e" "e = ri_consumed (mp_range_iter m)" "mp_amount m = cnt ?P (take b cs)"
        "\<forall>x \<in> set (slice cs b e). ?P x"
        using cur by (auto simp: mapper_at_def Let_def)
      have "e \<le> length cs" using s(2) rinv by (simp add: range_inv_def)
      then have amount: "mp_amount ?m = cnt ?P (take e cs)"
        using s by (simp add: cnt_slice_all)
      show ?thesis
      proof (cases r)
        case None
        note n = range_next_None [OF rinv nxt [unfolded None]]
        have none: "\<forall>x \<in> set (drop e cs). \<not> ?P x" "\<forall>x \<in> set (drop i cs). \<not> ?P x"
          using n(5) s(2) set_drop_mono [OF True, of cs] by auto
        have "(ret, m') = (True, ?m\<lparr>mp_range_iter := it', mp_cur_range := (usize_max, usize_max)\<rparr>)"
          using "1.prems"(3) cur True nxt None by (simp add: mapper_advance.simps [of m i])
        then show ?thesis
          using n(1-3) none amount "1.prems"(2)
          by (auto simp: mapper_inv_def mapper_done_def Let_def cnt_drop_none)
      next
        case (Some be)
        then obtain b' e' where r: "r = Some (b', e')" by (cases be) auto
        note n = range_next_Some [OF rinv nxt [unfolded r]]
        let ?m' = "?m\<lparr>mp_range_iter := it', mp_cur_range := (b', e')\<rparr>"
        have "cnt ?P (take b' cs) = cnt ?P (take e cs)"
          using n(4,8) s(2) by (intro cnt_slice_none) auto
        moreover have "\<forall>x \<in> set (slice cs i b'). \<not> ?P x"
          using n(8) s(2) set_slice_mono [OF True order_refl, of cs b'] by blast
        ultimately have "mapper_at cs ?m'"
          using n amount "1.prems"(2) by (simp add: mapper_at_def)
        then have "mapper_inv cs ?m'" using n(1) by (simp add: mapper_inv_def)
        moreover have "mapper_advance ?m' i = (ret, m')"
          using "1.prems"(3) cur True nxt r by (simp add: mapper_advance.simps [of m i])
        ultimately show ?thesis
          using "1.IH" [OF _ refl, of "Some (b', e')" it' "(b', e')"] True cur nxt r "1.prems"(2) n(2)
          by simp
      qed
    next
      case False
      with "1.prems"(1) have d: "mapper_done cs m" by (simp add: mapper_inv_def)
      then have "b = e" and segs: "ri_segs (mp_range_iter m) = []"
        using cur by (auto simp: mapper_done_def Let_def)
      then have "r = None" "it' = mp_range_iter m"
        using nxt by (auto simp: range_next_def)
      moreover have "m\<lparr>mp_cur_range := (usize_max, usize_max)\<rparr> = m"
        using d by (cases m) (simp add: mapper_done_def Let_def)
      ultimately have "(ret, m') = (True, m)"
        using "1.prems"(3) cur True nxt \<open>b = e\<close>
        by (simp add: mapper_advance.simps [of m i])
      then show ?thesis
        using d rinv "1.prems"(2) by (auto simp: mapper_inv_def mapper_done_def Let_def cnt_drop_none)
    qed
  qed
qed

lemma mapper_inv_last_i:
  "mapper_inv cs m \<Longrightarrow> mp_last_i m \<le> i \<Longrightarrow> mapper_inv cs (m\<lparr>mp_last_i := i\<rparr>)"
  using set_slice_mono [of "mp_last_i m" i "fst (mp_cur_range m)" "fst (mp_cur_range m)" cs]
    set_drop_mono [of "mp_last_i m" i cs]
  by (auto simp: mapper_inv_def mapper_at_def mapper_done_def Let_def)

text \<open>
  The mapper sends a document index to the number of matching elements before it, and keeps its
  invariant for the next, not smaller, query.
\<close>

lemma doc_index_to_subset_spec:
  assumes "mapper_inv cs m" and "mp_last_i m \<le> i"
  obtains m' where
    "doc_index_to_subset m i = Some (cnt (cmatch (ri_matcher (mp_range_iter m))) (take i cs), m')"
    "mapper_inv cs m'" "mp_last_i m' = i"
    "ri_matcher (mp_range_iter m') = ri_matcher (mp_range_iter m)"
proof -
  let ?P = "cmatch (ri_matcher (mp_range_iter m))"
  obtain ret m' where adv: "mapper_advance (m\<lparr>mp_last_i := i\<rparr>) i = (ret, m')" by force
  obtain b e where cur: "mp_cur_range m' = (b, e)" by force
  note s = mapper_advance_spec [OF mapper_inv_last_i [OF assms] _ adv]
  then have inv: "mapper_inv cs m'" and last: "mp_last_i m' = i"
    and mt: "ri_matcher (mp_range_iter m') = ri_matcher (mp_range_iter m)"
    and ret: "ret \<Longrightarrow> mp_amount m' = cnt ?P (take i cs)" and lt: "\<not> ret \<Longrightarrow> i < e"
    using cur by auto
  have "(if b \<le> i then i - b + mp_amount m' else mp_amount m') = cnt ?P (take i cs)" if "\<not> ret"
  proof (cases "mapper_at cs m'")
    case True
    then have at: "mp_amount m' = cnt ?P (take b cs)" "\<forall>x \<in> set (slice cs b e). ?P x"
      "\<forall>x \<in> set (slice cs i b). \<not> ?P x" "e = ri_consumed (mp_range_iter m')"
      using cur last mt by (auto simp: mapper_at_def Let_def)
    have "i \<le> length cs" using lt [OF that] at(4) inv by (auto simp: mapper_inv_def range_inv_def)
    moreover have "\<forall>x \<in> set (slice cs b i). ?P x"
      using at(2) set_slice_mono [OF order_refl less_imp_le [OF lt [OF that]], of cs b] by blast
    ultimately show ?thesis
      using at cnt_slice_all [of cs b i ?P] cnt_slice_none [of cs i b ?P]
      by (cases "b \<le> i") simp_all
  next
    case False
    with inv have "mapper_done cs m'" by (simp add: mapper_inv_def)
    with cur last mt lt [OF that] show ?thesis
      by (auto simp: mapper_done_def Let_def cnt_drop_none)
  qed
  then have "doc_index_to_subset m i = Some (cnt ?P (take i cs), m')"
    using adv cur assms(2) ret
    by (cases ret; cases "b \<le> i") (simp_all add: doc_index_to_subset_def)
  with that inv last mt show ?thesis by blast
qed

lemma doc_index_to_subset_panics: "i < mp_last_i m \<Longrightarrow> doc_index_to_subset m i = None"
  by (simp add: doc_index_to_subset_def)

lemma subset_mapper_inv [simp]:
  "mapper_inv cs (subset_mapper (enc cs) mt)" "mp_last_i (subset_mapper (enc cs) mt) = 0"
  "ri_matcher (mp_range_iter (subset_mapper (enc cs) mt)) = mt"
  by (simp_all add: subset_mapper_def mapper_inv_def mapper_at_def)
    (simp_all add: subset_range_iter_def)

lemma cexpand_inserted_zero:
  "length x = cnt (\<lambda>c. c = 0) y \<Longrightarrow>
    sel (\<lambda>c. c \<noteq> 0) y (cexpand False x y) = replicate (length y - cnt (\<lambda>c. c = 0) y) 0"
proof (induction False x y rule: cexpand.induct)
  case (2 xs c cs)
  show ?case
  proof (cases "c = 0")
    case True
    with "2.prems" obtain x xs' where "xs = x # xs'" by (cases xs) auto
    with 2 True show ?thesis by simp
  next
    case False
    have "cnt (\<lambda>c. c = 0) cs \<le> length cs" by simp
    with 2 False show ?thesis by (simp add: Suc_diff_le)
  qed
qed simp

text \<open>A sequence of queries to one mapper.\<close>

fun mapper_queries :: "mapper \<Rightarrow> nat list \<Rightarrow> nat list option" where
  "mapper_queries m [] = Some []"
| "mapper_queries m (i # is) = do {
     (r, m) \<leftarrow> doc_index_to_subset m i;
     rs \<leftarrow> mapper_queries m is;
     Some (r # rs) }"

lemma mapper_queries_sorted:
  "mapper_inv cs m \<Longrightarrow> mapper_queries m qs =
    (if sorted (mp_last_i m # qs)
     then Some (map (\<lambda>i. cnt (cmatch (ri_matcher (mp_range_iter m))) (take i cs)) qs) else None)"
proof (induction qs arbitrary: m)
  case (Cons i qs)
  show ?case
  proof (cases "mp_last_i m \<le> i")
    case True
    obtain m' where m': "doc_index_to_subset m i = Some (cnt (cmatch (ri_matcher (mp_range_iter m))) (take i cs), m')"
      "mapper_inv cs m'" "mp_last_i m' = i"
      "ri_matcher (mp_range_iter m') = ri_matcher (mp_range_iter m)"
      using Cons.prems True by (rule doc_index_to_subset_spec)
    with Cons.IH [OF m'(2)] True show ?thesis by auto
  next
    case False
    then show ?thesis using doc_index_to_subset_panics [of i m] by simp
  qed
qed simp

end
