(* ===== verification/Rope_Delta.thy ===== *)
theory Rope_Delta
  imports Rope_Tree_Laws Rope_Multiset
begin

text \<open>
  Deltas between texts, from \<^verbatim>\<open>xi-rope/src/delta\<close>: the delta itself and its builder, \<^verbatim>\<open>apply\<close>,
  \<^verbatim>\<open>factor\<close>, \<^verbatim>\<open>synthesize\<close>, \<^verbatim>\<open>summary\<close>, the transformations of insert-only deltas, the coordinate
  transformer, the region iterators, and the deletion of a subset from a node or a string
  (\<^verbatim>\<open>multiset.rs\<close>).  The generic parameter \<^verbatim>\<open>N: NodeInfo\<close> is the record \<open>ni\<close> as for trees.
\<close>

section \<open>Deltas\<close>

datatype ('l, 'i) delta_element = Copy nat nat | Insert "('l, 'i) node"

record ('l, 'i) delta =
  els :: "('l, 'i) delta_element list"
  base_len :: nat

text \<open>\<^verbatim>\<open>InsertDelta\<close> is a newtype around a delta, with \<^verbatim>\<open>Deref\<close> to it.\<close>

type_synonym ('l, 'i) insert_delta = "('l, 'i) delta"

record ('l, 'i) delta_builder =
  db_delta :: "('l, 'i) delta"
  db_last_offset :: nat

definition db_new :: "nat \<Rightarrow> ('l, 'i) delta_builder" where
  "db_new len = \<lparr>db_delta = \<lparr>els = [], base_len = len\<rparr>, db_last_offset = 0\<rparr>"

definition db_delete ::
  "('l, 'i) delta_builder \<Rightarrow> interval_bounds \<Rightarrow> ('l, 'i) delta_builder option" where
  "db_delete b bounds = do {
     iv \<leftarrow> into_interval bounds (base_len (db_delta b));
     let (start, end) = start_end iv;
     rassert (start \<ge> db_last_offset b);
     let d = db_delta b;
     let d = (if start > db_last_offset b then d\<lparr>els := els d @ [Copy (db_last_offset b) start]\<rparr>
              else d);
     Some \<lparr>db_delta = d, db_last_offset = end\<rparr> }"

definition db_replace ::
  "('l, 'i) delta_builder \<Rightarrow> interval_bounds \<Rightarrow> ('l, 'i) node \<Rightarrow> ('l, 'i) delta_builder option" where
  "db_replace b bounds rope = do {
     b \<leftarrow> db_delete b bounds;
     let d = db_delta b;
     Some (if \<not> node_is_empty rope then b\<lparr>db_delta := d\<lparr>els := els d @ [Insert rope]\<rparr>\<rparr> else b) }"

definition db_is_empty :: "('l, 'i) delta_builder \<Rightarrow> bool" where
  "db_is_empty b \<longleftrightarrow> db_last_offset b = 0 \<and> els (db_delta b) = []"

definition db_build :: "('l, 'i) delta_builder \<Rightarrow> ('l, 'i) delta" where
  "db_build b =
     (let d = db_delta b
      in if db_last_offset b < base_len d
         then d\<lparr>els := els d @ [Copy (db_last_offset b) (base_len d)]\<rparr>
         else d)"

definition simple_edit ::
  "interval_bounds \<Rightarrow> ('l, 'i) node \<Rightarrow> nat \<Rightarrow> ('l, 'i) delta option" where
  "simple_edit bounds rope len = do {
     let b = db_new len;
     b \<leftarrow> (if node_is_empty rope then db_delete b bounds else db_replace b bounds rope);
     Some (db_build b) }"

definition as_simple_insert :: "('l, 'i) delta \<Rightarrow> ('l, 'i) node option" where
  "as_simple_insert d =
     (let check = (\<lambda>i rest. case rest of
          [Insert n] \<Rightarrow> if i = base_len d then Some n else None
        | [Insert n, Copy beg end] \<Rightarrow> if i = beg \<and> end = base_len d then Some n else None
        | _ \<Rightarrow> None)
      in case els d of
           Copy beg end # rest \<Rightarrow> if beg \<noteq> 0 then None else check end rest
         | rest \<Rightarrow> check 0 rest)"

definition is_simple_delete :: "('l, 'i) delta \<Rightarrow> bool" where
  "is_simple_delete d =
     (case els d of
        [] \<Rightarrow> base_len d > 0
      | Copy beg end # rest \<Rightarrow>
          if beg = 0 then
            (case rest of
               [] \<Rightarrow> end < base_len d
             | Copy b1 e1 # rest' \<Rightarrow> rest' = [] \<and> end < b1 \<and> e1 = base_len d
             | Insert _ # _ \<Rightarrow> False)
          else end = base_len d \<and> rest = []
      | Insert _ # _ \<Rightarrow> False)"

definition is_identity :: "('l, 'i) delta \<Rightarrow> bool" where
  "is_identity d =
     (case els d of
        [Copy beg end] \<Rightarrow> beg = 0 \<and> end = base_len d
      | es \<Rightarrow> es = [] \<and> base_len d = 0)"

definition apply_element ::
  "('l, 'i) node_info \<Rightarrow> ('l, 'i) node \<Rightarrow> ('l, 'i) delta_element \<Rightarrow> ('l, 'i) tree_builder
   \<Rightarrow> ('l, 'i) tree_builder option" where
  "apply_element ni base elem b =
     (case elem of
        Copy beg end \<Rightarrow> do { iv \<leftarrow> interval_new beg end; tb_push_slice ni b base iv }
      | Insert n \<Rightarrow> tb_push ni b n)"

definition delta_apply ::
  "('l, 'i) node_info \<Rightarrow> ('l, 'i) delta \<Rightarrow> ('l, 'i) node \<Rightarrow> ('l, 'i) node option" where
  "delta_apply ni d base = do {
     rassert (n_len base = base_len d);
     b \<leftarrow> foldM (apply_element ni base) (els d) [];
     tb_build ni b }"

definition factor_element ::
  "('l, 'i) delta_element
   \<Rightarrow> ('l, 'i) delta_element list \<times> subset_builder \<times> nat \<times> nat
   \<Rightarrow> (('l, 'i) delta_element list \<times> subset_builder \<times> nat \<times> nat) option" where
  "factor_element elem = (\<lambda>(ins, sb, b1, e1).
     case elem of
       Copy b e \<Rightarrow> do {
         sb \<leftarrow> add_range sb e1 b 1;
         Some (ins, sb, b1, e) }
     | Insert n \<Rightarrow>
         Some ((if e1 > b1 then ins @ [Copy b1 e1] else ins) @ [Insert n], sb, e1, e1))"

definition delta_factor :: "('l, 'i) delta \<Rightarrow> (('l, 'i) insert_delta \<times> subset) option" where
  "delta_factor d = do {
     (ins, sb, b1, e1) \<leftarrow> foldM factor_element (els d) ([], subset_builder_new, 0, 0);
     let ins = (if b1 < base_len d then ins @ [Copy b1 (base_len d)] else ins);
     sb \<leftarrow> add_range sb e1 (base_len d) 1;
     sb \<leftarrow> pad_to_len sb (base_len d);
     Some (\<lparr>els = ins, base_len = base_len d\<rparr>, subset_build sb) }"


section \<open>Synthesis\<close>

text \<open>The \<^verbatim>\<open>while let Some((ib, ie)) = last_old\<close> loop that skips the old ranges before \<^verbatim>\<open>beg\<close>.\<close>

lemma range_next_loop_le: "range_next_loop m segs c = (r, segs', c') \<Longrightarrow> length segs' \<le> length segs"
  by (induction m segs c rule: range_next_loop.induct) (auto simp: Let_def split: if_splits)

lemma range_next_le: "range_next it = (r, it') \<Longrightarrow> length (ri_segs it') \<le> length (ri_segs it)"
  by (auto simp: range_next_def split: prod.splits dest: range_next_loop_le)

function synth_skip ::
  "nat \<Rightarrow> nat \<Rightarrow> (nat \<times> nat) option \<Rightarrow> range_iter \<Rightarrow> nat \<times> (nat \<times> nat) option \<times> range_iter" where
  "synth_skip beg x last_old old_ranges =
     (case last_old of
        None \<Rightarrow> (x, None, old_ranges)
      | Some (ib, ie) \<Rightarrow>
          if ie > beg then (x, Some (ib, ie), old_ranges)
          else (case range_next old_ranges of
                  (next, old_ranges') \<Rightarrow> synth_skip beg (x + (ie - ib)) next old_ranges'))"
  by pat_completeness auto
termination
proof (relation "measure (\<lambda>(beg, x, last, it).
    2 * length (ri_segs it) + (if last = None then 0 else 1))", goal_cases)
  case (2 beg x last_old old_ranges r ib ie nx old_ranges')
  then have "range_next old_ranges = (nx, old_ranges')" by simp
  with 2(1,2) show ?case
    using range_next_le [of old_ranges nx old_ranges'] range_next_shrinks [of old_ranges]
    by (cases nx) simp_all
qed simp

declare synth_skip.simps [simp del]

lemma synth_skip_overlap:
  "synth_skip beg x lo it = (x', Some (ib, ie), it') \<Longrightarrow> beg < ie"
  by (induction beg x lo it rule: synth_skip.induct)
    (subst (asm) (2) synth_skip.simps, auto split: option.splits if_splits prod.splits)

text \<open>Append a copy, merging it with a contiguous copy before it.\<close>

definition push_copy ::
  "('l, 'i) delta_element list \<Rightarrow> nat \<Rightarrow> nat \<Rightarrow> ('l, 'i) delta_element list" where
  "push_copy es xbeg xend =
     (if es = [] then [Copy xbeg xend]
      else case last es of
             Copy lb le \<Rightarrow> if le = xbeg then butlast es @ [Copy lb xend] else es @ [Copy xbeg xend]
           | Insert _ \<Rightarrow> es @ [Copy xbeg xend])"

text \<open>The variables of \<^verbatim>\<open>synthesize\<close> that its loops update.\<close>

record ('l, 'i) synth =
  sy_els :: "('l, 'i) delta_element list"
  sy_x :: nat
  sy_last_old :: "(nat \<times> nat) option"
  sy_old_ranges :: range_iter
  sy_m :: mapper

text \<open>The \<^verbatim>\<open>while beg < e\<close> loop, filling one segment of the new text.\<close>

function synth_fill ::
  "('l, 'i) node_info \<Rightarrow> ('l, 'i) node \<Rightarrow> nat \<Rightarrow> nat \<Rightarrow> ('l, 'i) synth \<Rightarrow> ('l, 'i) synth option" where
  "synth_fill ni tombstones e beg s =
     (if beg < e then
        (case synth_skip beg (sy_x s) (sy_last_old s) (sy_old_ranges s) of
           (x, last_old, old_ranges) \<Rightarrow>
             let s = s\<lparr>sy_x := x, sy_last_old := last_old, sy_old_ranges := old_ranges\<rparr>;
                 insert_until = (\<lambda>end. do {
                   (ti, m) \<leftarrow> doc_index_to_subset (sy_m s) beg;
                   (te, m) \<leftarrow> doc_index_to_subset m end;
                   iv \<leftarrow> interval_new ti te;
                   n \<leftarrow> node_subseq ni tombstones (BInterval iv);
                   Some (s\<lparr>sy_els := sy_els s @ [Insert n], sy_m := m\<rparr>) })
             in case last_old of
                  Some (ib, ie) \<Rightarrow>
                    if ib \<le> beg then do {
                      let end = min e ie;
                      xbeg \<leftarrow> usize_sub (beg + x) ib;
                      xend \<leftarrow> usize_sub (end + x) ib;
                      synth_fill ni tombstones e end (s\<lparr>sy_els := push_copy (sy_els s) xbeg xend\<rparr>) }
                    else do {
                      let end = min e ib;
                      s \<leftarrow> insert_until end;
                      synth_fill ni tombstones e end s }
                | None \<Rightarrow> do {
                      s \<leftarrow> insert_until e;
                      synth_fill ni tombstones e e s })
      else Some s)"
  by pat_completeness auto
termination
  by (relation "measure (\<lambda>(ni, t, e, beg, s). e - beg)")
    (auto dest: synth_skip_overlap [OF sym])

declare synth_fill.simps [simp del]

definition synthesize ::
  "('l, 'i) node_info \<Rightarrow> ('l, 'i) node \<Rightarrow> subset \<Rightarrow> subset \<Rightarrow> ('l, 'i) delta option" where
  "synthesize ni tombstones from_dels to_dels = do {
     let (last_old, old_ranges) = range_next (complement_iter from_dels);
     s \<leftarrow> foldM (\<lambda>(b, e) s. synth_fill ni tombstones e b s) (range_collect (complement_iter to_dels))
       \<lparr>sy_els = [], sy_x = 0, sy_last_old = last_old, sy_old_ranges = old_ranges,
        sy_m = subset_mapper from_dels NonZero\<rparr>;
     Some \<lparr>els = sy_els s, base_len = len_after_delete from_dels\<rparr> }"


section \<open>Summaries and regions\<close>

definition element_len :: "('l, 'i) delta_element \<Rightarrow> nat option" where
  "element_len el = (case el of Copy beg end \<Rightarrow> usize_sub end beg | Insert n \<Rightarrow> Some (n_len n))"

definition total_element_len :: "('l, 'i) delta_element list \<Rightarrow> nat option" where
  "total_element_len es = foldM (\<lambda>el sum. do { k \<leftarrow> element_len el; Some (sum + k) }) es 0"

definition delta_summary :: "('l, 'i) delta \<Rightarrow> (interval \<times> nat) option" where
  "delta_summary d = do {
     let (iv_start, es) = (case els d of
         Copy beg end # rest \<Rightarrow> if beg = 0 then (end, rest) else (0, els d)
       | _ \<Rightarrow> (0, els d));
     let (iv_end, es) =
       (if es = [] then (base_len d, es)
        else case last es of
               Copy beg end \<Rightarrow> if end = base_len d then (beg, butlast es) else (base_len d, es)
             | Insert _ \<Rightarrow> (base_len d, es));
     iv \<leftarrow> interval_new iv_start iv_end;
     len \<leftarrow> total_element_len es;
     Some (iv, len) }"

definition new_document_len :: "('l, 'i) delta \<Rightarrow> nat option" where
  "new_document_len d = total_element_len (els d)"

definition inserts_len :: "('l, 'i) delta \<Rightarrow> nat" where
  "inserts_len d =
     fold (\<lambda>el sum. sum + (case el of Copy _ _ \<Rightarrow> 0 | Insert s \<Rightarrow> n_len s)) (els d) 0"

record delta_region =
  old_offset :: nat
  new_offset :: nat
  region_len :: nat

record ('l, 'i) inserts_iter =
  ii_pos :: nat
  ii_last_end :: nat
  ii_els :: "('l, 'i) delta_element list"

fun inserts_next_loop ::
  "nat \<Rightarrow> nat \<Rightarrow> ('l, 'i) delta_element list
   \<Rightarrow> (delta_region option \<times> ('l, 'i) inserts_iter) option" where
  "inserts_next_loop pos last_end [] = Some (None, \<lparr>ii_pos = pos, ii_last_end = last_end, ii_els = []\<rparr>)"
| "inserts_next_loop pos last_end (Copy b e # es) = do {
     k \<leftarrow> usize_sub e b;
     inserts_next_loop (pos + k) e es }"
| "inserts_next_loop pos last_end (Insert n # es) =
     Some (Some \<lparr>old_offset = last_end, new_offset = pos, region_len = n_len n\<rparr>,
           \<lparr>ii_pos = pos + n_len n, ii_last_end = last_end + n_len n, ii_els = es\<rparr>)"

definition inserts_next ::
  "('l, 'i) inserts_iter \<Rightarrow> (delta_region option \<times> ('l, 'i) inserts_iter) option" where
  "inserts_next it = inserts_next_loop (ii_pos it) (ii_last_end it) (ii_els it)"

definition iter_inserts :: "('l, 'i) delta \<Rightarrow> ('l, 'i) inserts_iter" where
  "iter_inserts d = \<lparr>ii_pos = 0, ii_last_end = 0, ii_els = els d\<rparr>"

lemma inserts_next_loop_shrinks:
  "inserts_next_loop p l es = Some (Some r, it) \<Longrightarrow> length (ii_els it) < length es"
  by (induction p l es rule: inserts_next_loop.induct) (auto simp: bind_eq_Some_conv)

function inserts_collect :: "('l, 'i) inserts_iter \<Rightarrow> delta_region list option" where
  "inserts_collect it =
     (case inserts_next it of
        None \<Rightarrow> None
      | Some (None, _) \<Rightarrow> Some []
      | Some (Some r, it') \<Rightarrow> map_option (Cons r) (inserts_collect it'))"
  by pat_completeness auto
termination
  by (relation "measure (\<lambda>it. length (ii_els it))")
    (auto simp: inserts_next_def dest: inserts_next_loop_shrinks)

declare inserts_collect.simps [simp del]

record ('l, 'i) deletions_iter =
  di_pos :: nat
  di_last_end :: nat
  di_base_len :: nat
  di_els :: "('l, 'i) delta_element list"

fun deletions_next_loop ::
  "nat \<Rightarrow> nat \<Rightarrow> nat \<Rightarrow> ('l, 'i) delta_element list
   \<Rightarrow> (delta_region option \<times> ('l, 'i) deletions_iter) option" where
  "deletions_next_loop pos last_end len [] =
     Some (if last_end < len
           then (Some \<lparr>old_offset = last_end, new_offset = pos, region_len = len - last_end\<rparr>,
                 \<lparr>di_pos = pos, di_last_end = len, di_base_len = len, di_els = []\<rparr>)
           else (None, \<lparr>di_pos = pos, di_last_end = last_end, di_base_len = len, di_els = []\<rparr>))"
| "deletions_next_loop pos last_end len (Copy b e # es) = do {
     k \<leftarrow> usize_sub e b;
     if b > last_end
     then Some (Some \<lparr>old_offset = last_end, new_offset = pos, region_len = b - last_end\<rparr>,
                \<lparr>di_pos = pos + k, di_last_end = e, di_base_len = len, di_els = es\<rparr>)
     else deletions_next_loop (pos + k) e len es }"
| "deletions_next_loop pos last_end len (Insert n # es) =
     deletions_next_loop (pos + n_len n) (last_end + n_len n) len es"

definition deletions_next ::
  "('l, 'i) deletions_iter \<Rightarrow> (delta_region option \<times> ('l, 'i) deletions_iter) option" where
  "deletions_next it =
     deletions_next_loop (di_pos it) (di_last_end it) (di_base_len it) (di_els it)"

definition iter_deletions :: "('l, 'i) delta \<Rightarrow> ('l, 'i) deletions_iter" where
  "iter_deletions d = \<lparr>di_pos = 0, di_last_end = 0, di_base_len = base_len d, di_els = els d\<rparr>"

definition di_left :: "('l, 'i) deletions_iter \<Rightarrow> nat" where
  "di_left it = length (di_els it) + (if di_els it = [] \<and> di_base_len it \<le> di_last_end it then 0 else 1)"

lemma deletions_next_loop_shrinks:
  "deletions_next_loop p l n es = Some (Some r, it) \<Longrightarrow>
    di_left it < di_left \<lparr>di_pos = p, di_last_end = l, di_base_len = n, di_els = es\<rparr>"
proof (induction p l n es rule: deletions_next_loop.induct)
  case (1 pos last_end len)
  then show ?case by (auto simp: di_left_def split: if_splits)
next
  case (2 pos last_end len b e es)
  then show ?case
    by (cases "b > last_end") (fastforce simp: di_left_def bind_eq_Some_conv split: if_splits)+
next
  case (3 pos last_end len n es)
  then show ?case by (fastforce simp: di_left_def split: if_splits)
qed

function deletions_collect :: "('l, 'i) deletions_iter \<Rightarrow> delta_region list option" where
  "deletions_collect it =
     (case deletions_next it of
        None \<Rightarrow> None
      | Some (None, _) \<Rightarrow> Some []
      | Some (Some r, it') \<Rightarrow> map_option (Cons r) (deletions_collect it'))"
  by pat_completeness auto
termination
proof (relation "measure di_left", goal_cases)
  case (2 it z r it' r')
  then show ?case
    using deletions_next_loop_shrinks [of "di_pos it" "di_last_end it" "di_base_len it" "di_els it"]
    by (auto simp: deletions_next_def di_left_def)
qed simp

declare deletions_collect.simps [simp del]


section \<open>Insert-only deltas\<close>

record ('l, 'i) expansion =
  tx_elements :: "('l, 'i) delta_element list"
  tx_source :: nat
  tx_expanded :: nat
  tx_rest :: "('l, 'i) delta_element list"
  tx_copy_start :: nat
  tx_ranges :: range_iter
  tx_cur :: "(nat \<times> nat) option"

text \<open>
  The inner loop of \<^verbatim>\<open>InsertDelta::transform_expand\<close>: emit the inserts at the current coordinate,
  then advance through at most one copy.
\<close>

fun tx_inner ::
  "nat \<Rightarrow> ('l, 'i) delta_element list \<Rightarrow> ('l, 'i) expansion \<Rightarrow> ('l, 'i) expansion option" where
  "tx_inner next_range_start [] s = Some (s\<lparr>tx_rest := []\<rparr>)"
| "tx_inner next_range_start (Insert n # es) s =
     tx_inner next_range_start es
       (s\<lparr>tx_elements :=
            (if tx_expanded s > tx_copy_start s
             then tx_elements s @ [Copy (tx_copy_start s) (tx_expanded s)] else tx_elements s)
            @ [Insert n],
          tx_copy_start := tx_expanded s\<rparr>)"
| "tx_inner next_range_start (Copy b copy_end # es) s =
     (if tx_expanded s \<ge> next_range_start then do {
        next_expanded \<leftarrow> usize_sub (copy_end + tx_expanded s) (tx_source s);
        let next_expanded = (case tx_cur s of
            Some (_, range_end) \<Rightarrow> min next_expanded range_end | None \<Rightarrow> next_expanded);
        k \<leftarrow> usize_sub next_expanded (tx_expanded s);
        let source = tx_source s + k;
        let (cur, ranges) = (case tx_cur s of
            Some (_, range_end) \<Rightarrow>
              if next_expanded = range_end then range_next (tx_ranges s) else (tx_cur s, tx_ranges s)
          | None \<Rightarrow> (None, tx_ranges s));
        Some (s\<lparr>tx_source := source, tx_expanded := next_expanded,
                tx_rest := (if source = copy_end then es else Copy b copy_end # es),
                tx_cur := cur, tx_ranges := ranges\<rparr>) }
      else Some (s\<lparr>tx_rest := Copy b copy_end # es\<rparr>))"

text \<open>The outer loop; a run that does not end has no value.\<close>

partial_function (option) tx_loop ::
  "bool \<Rightarrow> nat \<Rightarrow> ('l, 'i) expansion \<Rightarrow> ('l, 'i) expansion option" where
  "tx_loop after expanded_len s =
     (if tx_expanded s < expanded_len \<or> tx_rest s \<noteq> [] then do {
        let next_range_start = (case tx_cur s of
            Some (range_start, _) \<Rightarrow> range_start | None \<Rightarrow> expanded_len);
        let s = (if after \<and> tx_expanded s < next_range_start
                 then s\<lparr>tx_expanded := next_range_start\<rparr> else s);
        s \<leftarrow> tx_inner next_range_start (tx_rest s) s;
        let s = (if \<not> after \<and> tx_expanded s < next_range_start
                 then s\<lparr>tx_expanded := next_range_start\<rparr> else s);
        tx_loop after expanded_len s }
      else Some s)"

declare tx_loop.simps [code]

definition ins_transform_expand ::
  "('l, 'i) insert_delta \<Rightarrow> subset \<Rightarrow> bool \<Rightarrow> ('l, 'i) insert_delta option" where
  "ins_transform_expand d xform after = do {
     let (cur, ranges) = range_next (complement_iter xform);
     let expanded_len = subset_count xform All;
     s \<leftarrow> tx_loop after expanded_len
       \<lparr>tx_elements = [], tx_source = 0, tx_expanded = 0, tx_rest = els d, tx_copy_start = 0,
        tx_ranges = ranges, tx_cur = cur\<rparr>;
     Some \<lparr>els = (if tx_expanded s > tx_copy_start s
                  then tx_elements s @ [Copy (tx_copy_start s) (tx_expanded s)] else tx_elements s),
           base_len = expanded_len\<rparr> }"

fun shrink_elements ::
  "mapper \<Rightarrow> ('l, 'i) delta_element list \<Rightarrow> ('l, 'i) delta_element list option" where
  "shrink_elements m [] = Some []"
| "shrink_elements m (Copy b e # es) = do {
     (b', m) \<leftarrow> doc_index_to_subset m b;
     (e', m) \<leftarrow> doc_index_to_subset m e;
     es' \<leftarrow> shrink_elements m es;
     Some (Copy b' e' # es') }"
| "shrink_elements m (Insert n # es) = do {
     es' \<leftarrow> shrink_elements m es;
     Some (Insert n # es') }"

definition ins_transform_shrink ::
  "('l, 'i) insert_delta \<Rightarrow> subset \<Rightarrow> ('l, 'i) insert_delta option" where
  "ins_transform_shrink d xform = do {
     es \<leftarrow> shrink_elements (subset_mapper xform Zero) (els d);
     Some \<lparr>els = es, base_len = len_after_delete xform\<rparr> }"

definition inserted_subset :: "('l, 'i) insert_delta \<Rightarrow> subset option" where
  "inserted_subset d = do {
     sb \<leftarrow> foldM (\<lambda>elem sb. case elem of
         Copy b e \<Rightarrow> do { k \<leftarrow> usize_sub e b; push_segment sb k 0 }
       | Insert n \<Rightarrow> push_segment sb (n_len n) 1) (els d) subset_builder_new;
     Some (subset_build sb) }"


section \<open>The coordinate transformer\<close>

record ('l, 'i) transformer =
  tr_delta :: "('l, 'i) delta"
  tr_element_index :: nat
  tr_transformed_offset :: nat
  tr_last_query :: "(nat \<times> bool) option"

definition transformer_new :: "('l, 'i) delta \<Rightarrow> ('l, 'i) transformer" where
  "transformer_new d = \<lparr>tr_delta = d, tr_element_index = 0, tr_transformed_offset = 0,
     tr_last_query = None\<rparr>"

function transform_loop ::
  "('l, 'i) delta_element list \<Rightarrow> nat \<Rightarrow> bool \<Rightarrow> nat \<Rightarrow> nat \<Rightarrow> (nat \<times> nat \<times> nat) option" where
  "transform_loop es ix after i offset =
     (case list_get es i of
        None \<Rightarrow> Some (offset, i, offset)
      | Some (Copy beg end) \<Rightarrow>
          if ix \<le> beg then Some (offset, i, offset)
          else if ix < end \<or> (ix = end \<and> \<not> after) then Some (offset + ix - beg, i, offset)
          else do {
            k \<leftarrow> usize_sub end beg;
            transform_loop es ix after (i + 1) (offset + k) }
      | Some (Insert n) \<Rightarrow> transform_loop es ix after (i + 1) (offset + n_len n))"
  by pat_completeness auto
termination
  by (relation "measure (\<lambda>(es, ix, after, i, offset). length es - i)")
    (auto simp: list_get_def split: if_splits)

declare transform_loop.simps [simp del]

definition transform ::
  "('l, 'i) transformer \<Rightarrow> nat \<Rightarrow> bool \<Rightarrow> (nat \<times> ('l, 'i) transformer) option" where
  "transform tr ix after = do {
     let must_reset = (case tr_last_query tr of
         None \<Rightarrow> False
       | Some (last_ix, last_after) \<Rightarrow> ix < last_ix \<or> (ix = last_ix \<and> last_after \<and> \<not> after));
     let tr = (if must_reset then tr\<lparr>tr_element_index := 0, tr_transformed_offset := 0\<rparr> else tr);
     let tr = tr\<lparr>tr_last_query := Some (ix, after)\<rparr>;
     if ix = 0 \<and> \<not> after then Some (0, tr)
     else do {
       (result, i, offset) \<leftarrow> transform_loop (els (tr_delta tr)) ix after (tr_element_index tr)
         (tr_transformed_offset tr);
       Some (result, tr\<lparr>tr_element_index := i, tr_transformed_offset := offset\<rparr>) } }"

fun untouched_loop :: "interval \<Rightarrow> bool \<Rightarrow> ('l, 'i) delta_element list \<Rightarrow> bool" where
  "untouched_loop iv last_was_ins [] = False"
| "untouched_loop iv last_was_ins (Copy beg end # es) =
     (if is_before iv end then
        (if last_was_ins then (if is_after iv beg then True else untouched_loop iv False es)
         else if \<not> is_before iv beg then True else untouched_loop iv False es)
      else False)"
| "untouched_loop iv last_was_ins (Insert _ # es) = untouched_loop iv True es"

definition interval_untouched ::
  "('l, 'i) transformer \<Rightarrow> interval_bounds \<Rightarrow> bool option" where
  "interval_untouched tr bounds = do {
     iv \<leftarrow> into_interval bounds (base_len (tr_delta tr));
     Some (untouched_loop iv True (els (tr_delta tr))) }"


section \<open>Deleting a subset\<close>

definition delete_from ::
  "('l, 'i) node_info \<Rightarrow> subset \<Rightarrow> ('l, 'i) node \<Rightarrow> ('l, 'i) node option" where
  "delete_from ni s n = do {
     b \<leftarrow> foldM (\<lambda>(beg, end) b. do {
         iv \<leftarrow> interval_new beg end;
         tb_push_slice ni b n iv }) (range_collect (subset_range_iter s Zero)) [];
     tb_build ni b }"

end
