(* ===== verification/Rope_Delta_Laws.thy ===== *)
theory Rope_Delta_Laws
  imports Rope_Delta
begin

text \<open>
  Correctness of applying deltas, deleting subsets and synthesising deltas, for every kind of leaf.
  A delta element denotes a list of base units (\<open>el_text\<close>); labels (the counts of a subset) are
  aligned with a text when they change only where the text may be cut, and under alignment no
  operation panics.
\<close>

section \<open>Alignment\<close>

text \<open>
  Labels \<open>cs\<close> are aligned with a text \<open>us\<close> when the text starts on a boundary and the label changes
  only on boundaries.  \<open>agn\<close> is the recursive form, with the label before the text.
\<close>

fun agn :: "('a \<Rightarrow> bool) \<Rightarrow> 'c \<Rightarrow> 'c list \<Rightarrow> 'a list \<Rightarrow> bool" where
  "agn start p [] [] = True"
| "agn start p (c # cs) (u # us) \<longleftrightarrow> (c \<noteq> p \<longrightarrow> start u) \<and> agn start c cs us"
| "agn start p _ _ = False"

definition aligned :: "('a \<Rightarrow> bool) \<Rightarrow> nat list \<Rightarrow> 'a list \<Rightarrow> bool" where
  "aligned start cs us \<longleftrightarrow> starts_ok start us \<and> agn start 0 cs us"

lemma agn_length: "agn start p cs us \<Longrightarrow> length cs = length us"
  by (induction start p cs us rule: agn.induct) auto

lemma agn_change: "agn start p cs us \<Longrightarrow> starts_ok start us \<Longrightarrow> agn start q cs us"
  by (cases "(start, p, cs, us)" rule: agn.cases) (auto simp: starts_ok_def)

lemma aligned_agn: "aligned start cs us \<Longrightarrow> agn start q cs us"
  by (auto simp: aligned_def intro: agn_change)

lemma agn_aligned: "agn start q cs us \<Longrightarrow> starts_ok start us \<Longrightarrow> aligned start cs us"
  by (auto simp: aligned_def intro: agn_change)

lemma aligned_length [simp]: "aligned start cs us \<Longrightarrow> length cs = length us"
  by (auto simp: aligned_def dest: agn_length)

lemma aligned_starts: "aligned start cs us \<Longrightarrow> starts_ok start us"
  by (simp add: aligned_def)

lemma agn_replicate:
  "starts_ok start us \<Longrightarrow> length us = k \<Longrightarrow> agn start p (replicate k c) us"
proof (induction us arbitrary: k p)
  case (Cons u us)
  have same: "length us = n \<Longrightarrow> agn start c (replicate n c) us" for n us
    by (induction us arbitrary: n) auto
  from Cons.prems show ?case by (auto simp: starts_ok_def same)
qed simp

lemma agn_append:
  "agn start p cs us \<Longrightarrow> agn start (last (p # cs)) ds vs \<Longrightarrow> agn start p (cs @ ds) (us @ vs)"
proof (induction start p cs us rule: agn.induct)
  case (2 start p c cs u us)
  then show ?case by (cases cs) auto
qed auto

lemma aligned_append:
  assumes "aligned start cs us" "aligned start ds vs"
  shows "aligned start (cs @ ds) (us @ vs)"
  using assms
  by (intro agn_aligned [of _ 0] agn_append starts_ok_append)
    (auto intro: aligned_agn aligned_starts)

lemma aligned_Nil [simp]: "aligned start [] []"
  by (simp add: aligned_def starts_ok_def)

lemma aligned_replicate: "starts_ok start us \<Longrightarrow> length us = k \<Longrightarrow> aligned start (replicate k c) us"
  by (simp add: aligned_def agn_replicate)

lemma agn_map2:
  "agn start p cs us \<Longrightarrow> agn start q ds us \<Longrightarrow> agn start (f p q) (map2 f cs ds) us"
proof (induction start p cs us arbitrary: q ds rule: agn.induct)
  case (2 start p c cs u us)
  then obtain d ds' where "ds = d # ds'" by (cases ds) auto
  with 2 show ?case by auto
qed auto

lemma aligned_map2:
  "aligned start cs us \<Longrightarrow> aligned start ds us \<Longrightarrow> aligned start (map2 f cs ds) us"
  by (meson agn_aligned agn_map2 aligned_agn aligned_starts)

lemma aligned_map: "aligned start cs us \<Longrightarrow> aligned start (map f cs) us"
proof -
  have "agn start p cs us \<Longrightarrow> agn start (f p) (map f cs) us" for p
    by (induction start p cs us rule: agn.induct) auto
  then show "aligned start cs us \<Longrightarrow> aligned start (map f cs) us"
    by (meson agn_aligned aligned_agn aligned_starts)
qed

lemma agn_sel:
  "agn start d ds us \<Longrightarrow> agn start c cs us \<Longrightarrow> (P d \<Longrightarrow> c0 = c) \<Longrightarrow>
    agn start c0 (sel P ds cs) (sel P ds us)"
proof (induction start d ds us arbitrary: c cs c0 rule: agn.induct)
  case (2 start d d' ds u us)
  then obtain c' cs' where cs: "cs = c' # cs'" by (cases cs) auto
  show ?case
    using 2 "2.IH" [of c' cs' c'] "2.IH" [of c' cs' c0] by (auto simp: cs)
qed auto

lemma agn_sel_starts:
  "agn start d ds us \<Longrightarrow> (P d \<Longrightarrow> starts_ok start us) \<Longrightarrow> starts_ok start (sel P ds us)"
proof (induction start d ds us rule: agn.induct)
  case (2 start d d' ds u us)
  then show ?case by (cases "P d"; cases "P d'") (auto simp: starts_ok_def)
qed (auto simp: starts_ok_def)

lemma aligned_sel_starts: "aligned start ds us \<Longrightarrow> starts_ok start (sel P ds us)"
  using agn_sel_starts [of start 0 ds us P] by (auto simp: aligned_def)

lemma aligned_sel:
  assumes "aligned start ds us" "aligned start cs us"
  shows "aligned start (sel P ds cs) (sel P ds us)"
  using assms agn_sel [of start 0 ds us 0 cs P 0] aligned_sel_starts [of start ds us P]
  by (simp add: aligned_def)

lemma agn_cexpand:
  "agn start i is us \<Longrightarrow> agn start c cs (sel (\<lambda>x. x = 0) is us) \<Longrightarrow>
    r = (if i = 0 then c else 0) \<Longrightarrow> agn start r (cexpand False cs is) us"
proof (induction start i "is" us arbitrary: c cs r rule: agn.induct)
  case (2 start i i' "is" u us)
  show ?case
  proof (cases "i' = 0")
    case True
    then obtain c' cs' where "cs = c' # cs'" using "2.prems"(2) by (cases cs) auto
    with 2 True show ?thesis by auto
  next
    case False
    with 2 show ?thesis by auto
  qed
qed auto

lemma aligned_cexpand:
  assumes "aligned start is us" "aligned start cs (sel (\<lambda>x. x = 0) is us)"
  shows "aligned start (cexpand False cs is) us"
  using assms agn_cexpand [of start 0 "is" us 0 cs 0] by (simp add: aligned_def)

lemma agn_drop: "agn start p cs us \<Longrightarrow> i \<le> length us \<Longrightarrow> \<exists>q. agn start q (drop i cs) (drop i us)"
proof (induction start p cs us arbitrary: i rule: agn.induct)
  case (2 start p c cs u us)
  then show ?case by (cases i) auto
qed auto

text \<open>Cut positions of a text are cut positions of every aligned selection.\<close>

lemma cut_ok_starts: "cut_ok start us i \<longleftrightarrow> i \<le> length us \<and> starts_ok start (drop i us)"
  by (auto simp: cut_ok_def starts_ok_def hd_drop_conv_nth)

lemma cut_ok_sel:
  assumes "aligned start cs us" "cut_ok start us i"
  shows "cut_ok start (sel P cs us) (cnt P (take i cs))"
proof -
  obtain q where "agn start q (drop i cs) (drop i us)"
    using agn_drop [of start 0 cs us i] assms by (auto simp: aligned_def cut_ok_def)
  then have "starts_ok start (sel P (drop i cs) (drop i us))"
    using assms(2) by (intro agn_sel_starts) (auto simp: cut_ok_starts)
  then show ?thesis
    using assms(1) by (simp add: cut_ok_starts sel_take_drop(2) cnt_take_le)
qed

definition label_change :: "'c list \<Rightarrow> nat \<Rightarrow> bool" where
  "label_change cs i \<longleftrightarrow> i = 0 \<or> i = length cs \<or> (i < length cs \<and> cs ! (i - 1) \<noteq> cs ! i)"

lemma agn_nth: "agn start p cs us \<Longrightarrow> 0 < i \<Longrightarrow> i < length cs \<Longrightarrow> cs ! (i - 1) \<noteq> cs ! i \<Longrightarrow> start (us ! i)"
proof (induction start p cs us arbitrary: i rule: agn.induct)
  case (2 start p c cs u us)
  show ?case
  proof (cases "i = 1")
    case True
    with 2 show ?thesis by (cases "(start, c, cs, us)" rule: agn.cases) auto
  next
    case False
    with 2 obtain j where "i = Suc (Suc j)" by (metis One_nat_def gr0_implies_Suc not0_implies_Suc)
    with 2 show ?thesis by simp
  qed
qed auto

lemma aligned_cut: "aligned start cs us \<Longrightarrow> label_change cs i \<Longrightarrow> cut_ok start us i"
  using agn_nth [of start 0 cs us i] agn_length [of start 0 cs us]
  by (cases "i = 0") (auto simp: aligned_def label_change_def cut_ok_def starts_ok_def hd_conv_nth)


section \<open>Ranges end where labels change\<close>

definition range_at :: "nat list \<Rightarrow> range_iter \<Rightarrow> bool" where
  "range_at cs it \<longleftrightarrow> (\<exists>pre. rle cs = pre @ ri_segs it \<and> ri_consumed it = length (seg_counts pre))"

lemma range_at_init [simp]: "range_at cs (subset_range_iter (enc cs) m)"
  by (simp add: range_at_def subset_range_iter_def)

lemma rle_split_change:
  assumes "rle cs = pre @ post"
  shows "label_change cs (length (seg_counts pre))"
proof -
  have cs: "cs = seg_counts pre @ seg_counts post"
    using arg_cong [OF assms, of seg_counts] by simp
  show ?thesis
  proof (cases "pre = [] \<or> post = []")
    case True
    then show ?thesis using cs by (auto simp: label_change_def)
  next
    case False
    then obtain p s q t where pq: "pre = p @ [s]" "post = t # q"
      by (metis neq_Nil_conv rev_exhaust)
    have "segs_wf (p @ [s] @ t # q)" using segs_wf_rle [of cs] assms pq by simp
    then have "seg_count s \<noteq> seg_count t" "0 < seg_len s" "0 < seg_len t"
      by (induction p) (auto simp: segs_wf_Cons split: list.splits)
    then show ?thesis
      using cs pq by (auto simp: label_change_def nth_append)
  qed
qed

lemma range_next_loop_at:
  assumes "range_next_loop m segs c = (Some (b, e), segs', c')" "rle cs = pre @ segs"
    "c = length (seg_counts pre)"
  shows "label_change cs b \<and> label_change cs e
    \<and> (\<exists>pre'. rle cs = pre' @ segs' \<and> c' = length (seg_counts pre'))"
  using assms
proof (induction m segs c arbitrary: pre rule: range_next_loop.induct)
  case (2 m seg segs c)
  have next_pre: "rle cs = (pre @ [seg]) @ segs" "c + seg_len seg = length (seg_counts (pre @ [seg]))"
    using "2.prems" by simp_all
  show ?case
  proof (cases "matches m seg")
    case True
    with "2.prems" next_pre rle_split_change [OF "2.prems"(2)] rle_split_change [OF next_pre(1)]
    show ?thesis by (auto simp: Let_def intro: exI [of _ "pre @ [seg]"])
  next
    case False
    with "2.IH" [OF refl False _ next_pre] "2.prems"(1) show ?thesis by (simp add: Let_def)
  qed
qed simp

lemma range_next_at:
  assumes "range_next it = (Some (b, e), it')" "range_at cs it"
  shows "label_change cs b" "label_change cs e" "range_at cs it'"
  using assms range_next_loop_at [of "ri_matcher it" "ri_segs it" "ri_consumed it" b e]
  by (auto simp: range_next_def range_at_def split: prod.splits)

lemma range_at_inv: "range_at cs it \<Longrightarrow> range_inv cs it"
proof -
  assume "range_at cs it"
  then obtain pre where pre: "rle cs = pre @ ri_segs it" "ri_consumed it = length (seg_counts pre)"
    by (auto simp: range_at_def)
  have "cs = seg_counts pre @ seg_counts (ri_segs it)"
    using arg_cong [OF pre(1), of seg_counts] by simp
  moreover have "\<forall>s \<in> set (ri_segs it). 0 < seg_len s"
    using pre(1) rle_pos [of _ cs] by auto
  ultimately show ?thesis using pre(2) by (auto simp: range_inv_def)
qed

lemma range_collect_at:
  "range_at cs it \<Longrightarrow> (b, e) \<in> set (range_collect it) \<Longrightarrow>
    label_change cs b \<and> label_change cs e \<and> b \<le> e \<and> e \<le> length cs"
proof (induction it rule: range_collect.induct)
  case (1 it)
  obtain r it' where nxt: "range_next it = (r, it')" by force
  show ?case
  proof (cases r)
    case None
    with 1 nxt show ?thesis by (simp add: range_collect.simps [of it])
  next
    case (Some be)
    then obtain b' e' where r: "range_next it = (Some (b', e'), it')" using nxt by (cases be) auto
    with "1.IH" [OF r [symmetric] refl range_next_at(3) [OF r "1.prems"(1)]] "1.prems"(2)
      range_next_at [OF r "1.prems"(1)] range_next_Some [OF range_at_inv [OF "1.prems"(1)] r]
    show ?thesis by (auto simp: range_collect.simps [of it])
  qed
qed


section \<open>The text of a delta\<close>

definition el_text :: "('l \<Rightarrow> 'a list) \<Rightarrow> 'a list \<Rightarrow> ('l, 'i) delta_element \<Rightarrow> 'a list" where
  "el_text lc base el = (case el of Copy b e \<Rightarrow> slice base b e | Insert n \<Rightarrow> node_content lc n)"

definition els_text :: "('l \<Rightarrow> 'a list) \<Rightarrow> 'a list \<Rightarrow> ('l, 'i) delta_element list \<Rightarrow> 'a list" where
  "els_text lc base es = concat (map (el_text lc base) es)"

lemma els_text_simps [simp]:
  "els_text lc base [] = []"
  "els_text lc base (Copy b e # es) = slice base b e @ els_text lc base es"
  "els_text lc base (Insert n # es) = node_content lc n @ els_text lc base es"
  "els_text lc base (es @ es') = els_text lc base es @ els_text lc base es'"
  by (simp_all add: els_text_def el_text_def)

text \<open>An element can be applied to a base: copies are ranges of it and do not split a character.\<close>

definition el_ok ::
  "('l, 'i) node_info \<Rightarrow> ('l \<Rightarrow> bool) \<Rightarrow> ('a \<Rightarrow> bool) \<Rightarrow> 'a list \<Rightarrow> ('l, 'i) delta_element \<Rightarrow> bool" where
  "el_ok ni linv start base el =
     (case el of
        Copy b e \<Rightarrow> b \<le> e \<and> cut_ok start base b \<and> cut_ok start base e
      | Insert n \<Rightarrow> node_wf ni linv n)"

lemma el_ok_simps [simp]:
  "el_ok ni linv start base (Copy b e) \<longleftrightarrow> b \<le> e \<and> cut_ok start base b \<and> cut_ok start base e"
  "el_ok ni linv start base (Insert n) \<longleftrightarrow> node_wf ni linv n"
  by (simp_all add: el_ok_def)

definition els_ok ::
  "('l, 'i) node_info \<Rightarrow> ('l \<Rightarrow> bool) \<Rightarrow> ('a \<Rightarrow> bool) \<Rightarrow> 'a list \<Rightarrow> ('l, 'i) delta_element list \<Rightarrow> bool" where
  "els_ok ni linv start base es \<longleftrightarrow> (\<forall>el \<in> set es. el_ok ni linv start base el)"

lemma els_ok_simps [simp]:
  "els_ok ni linv start base []"
  "els_ok ni linv start base (el # es) \<longleftrightarrow> el_ok ni linv start base el \<and> els_ok ni linv start base es"
  "els_ok ni linv start base (es @ es') \<longleftrightarrow> els_ok ni linv start base es \<and> els_ok ni linv start base es'"
  by (auto simp: els_ok_def)

context leaf_laws
begin

abbreviation etext :: "'a list \<Rightarrow> ('l, 'i) delta_element list \<Rightarrow> 'a list" where
  "etext base es \<equiv> els_text lc base es"

abbreviation eok :: "'a list \<Rightarrow> ('l, 'i) delta_element list \<Rightarrow> bool" where
  "eok base es \<equiv> els_ok ni linv start base es"

lemma apply_elements_spec:
  assumes "wf base"
  shows "eok (content base) es \<Longrightarrow> stack_wf ni linv st \<Longrightarrow>
    \<exists>st'. foldM (apply_element ni base) es st = Some st' \<and> stack_wf ni linv st'
      \<and> stack_content lc st' = stack_content lc st @ etext (content base) es"
proof (induction es arbitrary: st)
  case (Cons el es)
  obtain st1 where st1: "apply_element ni base el st = Some st1" "stack_wf ni linv st1"
    "stack_content lc st1 = stack_content lc st @ etext (content base) [el]"
  proof (cases el)
    case (Copy b e)
    with Cons.prems show thesis
      using tb_push_sliceE [OF assms Cons.prems(2), of b e] that
      by (simp add: apply_element_def) metis
  next
    case (Insert n)
    with Cons.prems show thesis
      using tb_push_spec [OF Cons.prems(2), of n] that by (auto simp: apply_element_def)
  qed
  from Cons.IH [OF _ st1(2)] Cons.prems(1) st1 show ?case
    by (cases el) auto
qed simp

text \<open>Applying a delta never panics, and the result has the text the delta describes.\<close>

lemma delta_apply_spec:
  assumes "wf base" "length (content base) = base_len d" "eok (content base) (els d)"
  obtains n where "delta_apply ni d base = Some n" "wf n"
    "content n = etext (content base) (els d)"
proof -
  obtain st where st: "foldM (apply_element ni base) (els d) [] = Some st" "stack_wf ni linv st"
    "stack_content lc st = etext (content base) (els d)"
    using apply_elements_spec [OF assms(1,3), of "[]"] by auto
  obtain n where "tb_build ni st = Some n" "wf n" "content n = stack_content lc st"
    using st(2) by (rule tb_buildE)
  with st assms that show thesis by (simp add: delta_apply_def wf_len)
qed

lemma push_ranges_spec:
  assumes "wf n"
  shows "\<forall>(b, e) \<in> set rs. b \<le> e \<and> cut (content n) b \<and> cut (content n) e \<Longrightarrow>
    stack_wf ni linv st \<Longrightarrow>
    \<exists>st'. foldM (\<lambda>(beg, end) b. do {
         iv \<leftarrow> interval_new beg end;
         tb_push_slice ni b n iv }) rs st = Some st' \<and> stack_wf ni linv st'
      \<and> stack_content lc st' = stack_content lc st @ concat (map (\<lambda>(b, e). slice (content n) b e) rs)"
proof (induction rs arbitrary: st)
  case (Cons r rs)
  obtain b e where r: "r = (b, e)" by force
  obtain st1 where st1: "tb_push_slice ni st n (mk_iv b e) = Some st1" "stack_wf ni linv st1"
    "stack_content lc st1 = stack_content lc st @ slice (content n) b e"
    using tb_push_sliceE [OF assms Cons.prems(2), of b e] Cons.prems(1) r by auto
  from Cons.IH [OF _ st1(2)] Cons.prems(1) r st1 show ?case by auto
qed simp

text \<open>Deleting an aligned subset from a node keeps exactly the elements of count zero.\<close>

lemma delete_from_spec:
  assumes "wf n" "aligned start cs (content n)"
  obtains n' where "delete_from ni (enc cs) n = Some n'" "wf n'"
    "content n' = sel (\<lambda>c. c = 0) cs (content n)"
proof -
  let ?it = "subset_range_iter (enc cs) Zero"
  have at: "range_at cs ?it" by simp
  have "\<forall>(b, e) \<in> set (range_collect ?it). b \<le> e \<and> cut (content n) b \<and> cut (content n) e"
    using range_collect_at [OF at] aligned_cut [OF assms(2)] by auto
  from push_ranges_spec [OF assms(1) this, of "[]"] obtain st where
    st: "foldM (\<lambda>(beg, end) b. do {
         iv \<leftarrow> interval_new beg end;
         tb_push_slice ni b n iv }) (range_collect ?it) [] = Some st" "stack_wf ni linv st"
      "stack_content lc st = concat (map (\<lambda>(b, e). slice (content n) b e) (range_collect ?it))"
    by auto
  have "stack_content lc st = sel (\<lambda>c. c = 0) cs (content n)"
    using range_collect_sel [OF range_at_inv [OF at], of "content n"] assms(2) st(3)
    by (simp add: subset_range_iter_def cmatch_fun)
  moreover obtain n' where "tb_build ni st = Some n'" "wf n'" "content n' = stack_content lc st"
    using st(2) by (rule tb_buildE)
  ultimately show thesis using st(1) that by (simp add: delete_from_def)
qed

end


section \<open>Synthesis\<close>

abbreviation kept :: "nat list \<Rightarrow> 'a list \<Rightarrow> 'a list" where
  "kept cs us \<equiv> sel (\<lambda>c. c = 0) cs us"

abbreviation removed :: "nat list \<Rightarrow> 'a list \<Rightarrow> 'a list" where
  "removed cs us \<equiv> sel (\<lambda>c. c \<noteq> 0) cs us"

text \<open>
  The old ranges not yet passed, seen from a position of the union string: \<open>x\<close> old characters lie
  before the current range, and no old character lies between the position and that range.
\<close>

definition old_at :: "nat list \<Rightarrow> nat \<Rightarrow> nat \<Rightarrow> (nat \<times> nat) option \<Rightarrow> range_iter \<Rightarrow> bool" where
  "old_at cs pos x last_old it \<longleftrightarrow> range_at cs it \<and> ri_matcher it = Zero
     \<and> (case last_old of
          None \<Rightarrow> \<forall>c \<in> set (drop pos cs). c \<noteq> 0
        | Some (ib, ie) \<Rightarrow> ib < ie \<and> ie \<le> length cs \<and> ri_consumed it = ie
            \<and> label_change cs ib \<and> label_change cs ie
            \<and> x = cnt (\<lambda>c. c = 0) (take ib cs) \<and> (\<forall>c \<in> set (slice cs ib ie). c = 0)
            \<and> (\<forall>c \<in> set (slice cs pos ib). c \<noteq> 0))"

lemma old_at_mono: "old_at cs pos x lo it \<Longrightarrow> pos \<le> pos' \<Longrightarrow> old_at cs pos' x lo it"
proof (cases lo)
  case (Some r)
  assume "old_at cs pos x lo it" "pos \<le> pos'"
  then show ?thesis
    using set_slice_mono [of pos pos' "snd r" "snd r" cs] set_slice_mono [of pos pos' "fst r" "fst r" cs] Some
    by (cases r) (auto simp: old_at_def)
next
  case None
  assume "old_at cs pos x lo it" "pos \<le> pos'"
  then show ?thesis using set_drop_mono [of pos pos' cs] None by (auto simp: old_at_def)
qed

lemma old_at_next:
  assumes "range_at cs it" "ri_matcher it = Zero" "range_next it = (lo, it')" "ri_consumed it \<le> pos"
  shows "old_at cs pos (cnt (\<lambda>c. c = 0) (take (ri_consumed it) cs)) lo it'"
proof (cases lo)
  case None
  note n = range_next_None [OF range_at_inv [OF assms(1)] assms(3) [unfolded None]]
  have "range_at cs it'" using n(3,4)
    by (auto simp: range_at_def intro!: exI [of _ "rle cs"])
  moreover have "\<forall>c \<in> set (drop pos cs). c \<noteq> 0"
    using n(5) assms(2) set_drop_mono [OF assms(4), of cs] by auto
  ultimately show ?thesis using None n(2) assms(2) by (simp add: old_at_def)
next
  case (Some be)
  then obtain b e where lo: "lo = Some (b, e)" by (cases be) auto
  note n = range_next_Some [OF range_at_inv [OF assms(1)] assms(3) [unfolded lo]]
  note a = range_next_at [OF assms(3) [unfolded lo] assms(1)]
  have "cnt (\<lambda>c. c = 0) (take b cs) = cnt (\<lambda>c. c = 0) (take (ri_consumed it) cs)"
    using n(4,8) assms(2) by (intro cnt_slice_none) auto
  moreover have "\<forall>c \<in> set (slice cs pos b). c \<noteq> 0"
    using n(8) assms(2) set_slice_mono [OF assms(4) order_refl, of cs b] by auto
  ultimately show ?thesis using lo n a assms(2) by (auto simp: old_at_def)
qed

lemma synth_skip_spec:
  "old_at cs beg x lo it \<Longrightarrow> synth_skip beg x lo it = (x', lo', it') \<Longrightarrow>
    old_at cs beg x' lo' it' \<and> (\<forall>ib ie. lo' = Some (ib, ie) \<longrightarrow> beg < ie)"
proof (induction beg x lo it rule: synth_skip.induct)
  case (1 beg x lo it)
  show ?case
  proof (cases lo)
    case None
    with "1.prems" show ?thesis by (auto simp: synth_skip.simps [of beg x None it])
  next
    case (Some r)
    then obtain ib ie where lo: "lo = Some (ib, ie)" by (cases r) auto
    show ?thesis
    proof (cases "ie > beg")
      case True
      with "1.prems" lo show ?thesis by (auto simp: synth_skip.simps [of beg x "Some (ib, ie)" it])
    next
      case False
      obtain nx it1 where nx: "range_next it = (nx, it1)" by force
      have at: "range_at cs it" "ri_matcher it = Zero" "ri_consumed it = ie" "ib < ie" "ie \<le> length cs"
        "x = cnt (\<lambda>c. c = 0) (take ib cs)" "\<forall>c \<in> set (slice cs ib ie). c = 0"
        using "1.prems"(1) lo by (auto simp: old_at_def)
      have "cnt (\<lambda>c. c = 0) (take ie cs) = x + (ie - ib)"
        using cnt_slice_all [of cs ib ie "\<lambda>c. c = 0"] at by simp
      then have "old_at cs beg (x + (ie - ib)) nx it1"
        using old_at_next [OF at(1,2) nx] at(3) False by simp
      with "1.IH" [OF lo refl False nx [symmetric]] "1.prems"(2) False nx lo show ?thesis
        by (simp add: synth_skip.simps [of beg x "Some (ib, ie)" it])
    qed
  qed
qed

lemma els_text_push_copy:
  assumes "els_ok ni linv start base es" "xb \<le> xe"
  shows "els_text lc base (push_copy es xb xe) = els_text lc base es @ slice base xb xe"
proof (cases es rule: rev_cases)
  case (snoc es' el)
  with assms show ?thesis by (cases el) (auto simp: push_copy_def slice_split)
qed (simp add: push_copy_def)

lemma els_ok_push_copy:
  assumes "els_ok ni linv start base es" "xb \<le> xe" "cut_ok start base xb" "cut_ok start base xe"
  shows "els_ok ni linv start base (push_copy es xb xe)"
proof (cases es rule: rev_cases)
  case (snoc es' el)
  with assms show ?thesis by (cases el) (auto simp: push_copy_def)
qed (use assms in \<open>simp add: push_copy_def\<close>)

context leaf_laws
begin

text \<open>What \<^verbatim>\<open>synthesize\<close> has produced when it has covered the union string up to a position.\<close>

definition synth_inv :: "nat list \<Rightarrow> nat list \<Rightarrow> 'a list \<Rightarrow> nat \<Rightarrow> ('l, 'i) synth \<Rightarrow> bool" where
  "synth_inv cs ts us pos s \<longleftrightarrow>
     etext (kept cs us) (sy_els s) = kept (take pos ts) (take pos us)
     \<and> eok (kept cs us) (sy_els s)
     \<and> old_at cs pos (sy_x s) (sy_last_old s) (sy_old_ranges s)
     \<and> mapper_inv cs (sy_m s) \<and> mp_last_i (sy_m s) \<le> pos
     \<and> ri_matcher (mp_range_iter (sy_m s)) = NonZero"

lemma kept_extend:
  assumes "length ts = length us" "pos \<le> end" "\<forall>c \<in> set (slice ts pos end). c = 0"
  shows "kept (take end ts) (take end us) = kept (take pos ts) (take pos us) @ slice us pos end"
  using assms take_slice [OF assms(2), of ts] take_slice [OF assms(2), of us]
    sel_append [of "take pos ts" "take pos us" "\<lambda>c. c = 0" "slice ts pos end" "slice us pos end"]
  by (simp add: sel_all)

lemma kept_skip:
  assumes "length ts = length us" "pos \<le> end" "\<forall>c \<in> set (slice ts pos end). c \<noteq> 0"
  shows "kept (take end ts) (take end us) = kept (take pos ts) (take pos us)"
  using assms take_slice [OF assms(2), of ts] take_slice [OF assms(2), of us]
    sel_append [of "take pos ts" "take pos us" "\<lambda>c. c = 0" "slice ts pos end" "slice us pos end"]
  by (simp add: sel_none)

lemma synth_copy:
  assumes inv: "synth_inv cs ts us beg s" and al: "aligned start cs us" and len: "length ts = length us"
    and lo: "sy_last_old s = Some (ib, ie)" "ib \<le> beg" "beg < end" "end \<le> ie"
    and cuts: "cut us beg" "cut us end" and zero: "\<forall>c \<in> set (slice ts beg end). c = 0"
  obtains xb xe where "usize_sub (beg + sy_x s) ib = Some xb" "usize_sub (end + sy_x s) ib = Some xe"
    "synth_inv cs ts us end (s\<lparr>sy_els := push_copy (sy_els s) xb xe\<rparr>)"
proof -
  let ?P = "\<lambda>c :: nat. c = 0"
  have o: "sy_x s = cnt ?P (take ib cs)" "ie \<le> length cs" "\<forall>c \<in> set (slice cs ib ie). ?P c"
    using inv lo(1) by (auto simp: synth_inv_def old_at_def)
  have sub: "\<forall>c \<in> set (slice cs ib k). ?P c" "\<forall>c \<in> set (slice cs beg k). ?P c" if "k \<le> ie" for k
    using o(3) set_slice_mono [OF order_refl that, of cs ib] set_slice_mono [OF lo(2) that, of cs]
    by blast+
  define xb where "xb = cnt ?P (take beg cs)"
  define xe where "xe = cnt ?P (take end cs)"
  have xb: "xb = sy_x s + (beg - ib)" and xe: "xe = sy_x s + (end - ib)"
    using cnt_slice_all [of cs ib beg ?P] cnt_slice_all [of cs ib "end" ?P] sub(1) [of beg]
      sub(1) [of "end"] lo o by (simp_all add: xb_def xe_def)
  have tx: "slice (kept cs us) xb xe = slice us beg end"
    unfolding xb_def xe_def using al lo o sub(2) [OF lo(4)] by (intro sel_slice_all) auto
  have cut': "cut (kept cs us) xb" "cut (kept cs us) xe"
    unfolding xb_def xe_def using cut_ok_sel [OF al] cuts by simp_all
  have le: "xb \<le> xe" using xb xe lo by simp
  have "synth_inv cs ts us end (s\<lparr>sy_els := push_copy (sy_els s) xb xe\<rparr>)"
    using inv le cut' els_text_push_copy [OF _ le] els_ok_push_copy [OF _ le cut'] tx
      kept_extend [OF len _ zero] lo(3) old_at_mono
    by (fastforce simp: synth_inv_def)
  then show thesis using that [of xb xe] xb xe lo by (auto simp: usize_sub_def)
qed

lemma synth_insert:
  assumes inv: "synth_inv cs ts us beg s" and al: "aligned start cs us" and len: "length ts = length us"
    and t: "wf tombs" "content tombs = removed cs us"
    and pos: "beg < end" "end \<le> length cs" "\<forall>c \<in> set (slice cs beg end). c \<noteq> 0"
    and cuts: "cut us beg" "cut us end" and zero: "\<forall>c \<in> set (slice ts beg end). c = 0"
  obtains ti m1 te m2 n where "doc_index_to_subset (sy_m s) beg = Some (ti, m1)"
    "doc_index_to_subset m1 end = Some (te, m2)" "interval_new ti te = Some (mk_iv ti te)"
    "node_subseq ni tombs (BInterval (mk_iv ti te)) = Some n"
    "synth_inv cs ts us end (s\<lparr>sy_els := sy_els s @ [Insert n], sy_m := m2\<rparr>)"
proof -
  let ?P = "\<lambda>c :: nat. c \<noteq> 0"
  have m: "mapper_inv cs (sy_m s)" "mp_last_i (sy_m s) \<le> beg"
    "ri_matcher (mp_range_iter (sy_m s)) = NonZero"
    using inv by (simp_all add: synth_inv_def)
  define ti where "ti = cnt ?P (take beg cs)"
  define te where "te = cnt ?P (take end cs)"
  obtain m1 where m1: "doc_index_to_subset (sy_m s) beg = Some (ti, m1)" "mapper_inv cs m1"
    "mp_last_i m1 = beg" "ri_matcher (mp_range_iter m1) = NonZero"
    using doc_index_to_subset_spec [OF m(1,2)] m(3) by (auto simp: ti_def cmatch_fun)
  obtain m2 where m2: "doc_index_to_subset m1 end = Some (te, m2)" "mapper_inv cs m2"
    "mp_last_i m2 = end" "ri_matcher (mp_range_iter m2) = NonZero"
    using doc_index_to_subset_spec [OF m1(2), of "end"] m1(3,4) pos(1)
    by (auto simp: te_def cmatch_fun)
  have le: "ti \<le> te" unfolding ti_def te_def using pos(1) by (intro cnt_take_mono) simp
  have tx: "slice (removed cs us) ti te = slice us beg end"
    unfolding ti_def te_def using al pos by (intro sel_slice_all) auto
  have "cut (content tombs) ti" "cut (content tombs) te"
    unfolding ti_def te_def t(2) using cut_ok_sel [OF al] cuts by simp_all
  then obtain n where n: "node_subseq ni tombs (BInterval (mk_iv ti te)) = Some n" "wf n"
    "content n = slice us beg end"
    using node_subseq_spec [OF t(1) _ le, of "BInterval (mk_iv ti te)"] tx t(2) by auto
  have "synth_inv cs ts us end (s\<lparr>sy_els := sy_els s @ [Insert n], sy_m := m2\<rparr>)"
    using inv n m2 kept_extend [OF len _ zero] pos(1) old_at_mono
    by (fastforce simp: synth_inv_def)
  with that m1(1) m2(1) n(1) le show thesis by simp
qed

text \<open>One segment of the new text, and then all of them.\<close>

lemma synth_fill_spec:
  assumes al: "aligned start cs us" "aligned start ts us"
    and t: "wf tombs" "content tombs = removed cs us"
    and e: "e \<le> length us" "cut us e"
  shows "synth_inv cs ts us beg s \<Longrightarrow> beg \<le> e \<Longrightarrow> cut us beg \<Longrightarrow>
    \<forall>c \<in> set (slice ts beg e). c = 0 \<Longrightarrow>
    \<exists>s'. synth_fill ni tombs e beg s = Some s' \<and> synth_inv cs ts us e s'"
proof (induction "e - beg" arbitrary: beg s rule: less_induct)
  case less
  have lens: "length cs = length us" "length ts = length us" using al by simp_all
  show ?case
  proof (cases "beg < e")
    case False
    with less.prems have "beg = e" by simp
    with less.prems show ?thesis by (simp add: synth_fill.simps)
  next
    case True
    obtain x lo it where sk: "synth_skip beg (sy_x s) (sy_last_old s) (sy_old_ranges s) = (x, lo, it)"
      using prod_cases3 by blast
    define s1 where "s1 = s\<lparr>sy_x := x, sy_last_old := lo, sy_old_ranges := it\<rparr>"
    have old: "old_at cs beg x lo it" and over: "\<And>ib ie. lo = Some (ib, ie) \<Longrightarrow> beg < ie"
      using synth_skip_spec [OF _ sk] less.prems(1) by (auto simp: synth_inv_def)
    have inv: "synth_inv cs ts us beg s1" using less.prems(1) old by (simp add: synth_inv_def s1_def)
    have zero: "\<forall>c \<in> set (slice ts beg k). c = 0" "\<forall>c \<in> set (slice ts k e). c = 0"
      if "beg \<le> k" "k \<le> e" for k
      using less.prems(4) set_slice_mono [OF order_refl that(2), of ts beg]
        set_slice_mono [OF that(1) order_refl, of ts e] by blast+
    have step: "\<exists>s'. synth_fill ni tombs e k s2 = Some s' \<and> synth_inv cs ts us e s'"
      if "synth_inv cs ts us k s2" "beg < k" "k \<le> e" "cut us k" for k s2
      using less.hyps [of k s2] that zero(2) [of k] by simp
    have insert_case: "\<exists>s'. (do { s2 \<leftarrow> do {
            (ti, m) \<leftarrow> doc_index_to_subset (sy_m s1) beg;
            (te, m) \<leftarrow> doc_index_to_subset m k;
            iv \<leftarrow> interval_new ti te;
            n \<leftarrow> node_subseq ni tombs (BInterval iv);
            Some (s1\<lparr>sy_els := sy_els s1 @ [Insert n], sy_m := m\<rparr>) };
          synth_fill ni tombs e k s2 }) = Some s' \<and> synth_inv cs ts us e s'"
      if k: "beg < k" "k \<le> e" "cut us k" "\<forall>c \<in> set (slice cs beg k). c \<noteq> 0" for k
    proof -
      have "k \<le> length cs" using k(2) e(1) lens by simp
      from synth_insert [OF inv al(1) lens(2) t k(1) this k(4) less.prems(3) k(3) zero(1)] k step
      show ?thesis by fastforce
    qed
    show ?thesis
    proof (cases lo)
      case None
      have "\<forall>c \<in> set (slice cs beg e). c \<noteq> 0"
        using old None by (auto simp: old_at_def slice_def dest: in_set_takeD)
      from insert_case [OF True order_refl e(2) this] None True sk show ?thesis
        by (simp add: synth_fill.simps [of ni tombs e beg s] s1_def)
    next
      case (Some r)
      then obtain ib ie where lo: "lo = Some (ib, ie)" by (cases r) auto
      have o: "label_change cs ib" "label_change cs ie" "ie \<le> length cs"
        "\<forall>c \<in> set (slice cs beg ib). c \<noteq> 0"
        using old lo by (auto simp: old_at_def)
      show ?thesis
      proof (cases "ib \<le> beg")
        case cp: True
        have k: "beg < min e ie" "min e ie \<le> ie" "min e ie \<le> e" "cut us (min e ie)"
          using True over [OF lo] aligned_cut [OF al(1) o(2)] e(2) by (auto simp: min_def)
        obtain xb xe where xbe: "usize_sub (beg + sy_x s1) ib = Some xb"
          "usize_sub (min e ie + sy_x s1) ib = Some xe"
          "synth_inv cs ts us (min e ie) (s1\<lparr>sy_els := push_copy (sy_els s1) xb xe\<rparr>)"
          by (rule synth_copy [OF inv al(1) lens(2) _ cp k(1,2) less.prems(3) k(4) zero(1)])
            (use lo k in \<open>auto simp: s1_def\<close>)
        from step [OF xbe(3) k(1,3,4)] xbe(1,2) True sk lo cp show ?thesis
          by (simp add: synth_fill.simps [of ni tombs e beg s] s1_def)
      next
        case ins: False
        have k: "beg < min e ib" "min e ib \<le> e" "cut us (min e ib)"
          using True ins aligned_cut [OF al(1) o(1)] e(2) by (auto simp: min_def)
        have "\<forall>c \<in> set (slice cs beg (min e ib)). c \<noteq> 0"
          using o(4) set_slice_mono [of beg beg "min e ib" ib cs] by auto
        from insert_case [OF k this] True sk lo ins show ?thesis
          by (simp add: synth_fill.simps [of ni tombs e beg s] s1_def Let_def)
      qed
    qed
  qed
qed

lemma synth_ranges_spec:
  assumes al: "aligned start cs us" "aligned start ts us"
    and t: "wf tombs" "content tombs = removed cs us"
  shows "range_at ts it \<Longrightarrow> ri_matcher it = Zero \<Longrightarrow> synth_inv cs ts us (ri_consumed it) s \<Longrightarrow>
    \<exists>s'. foldM (\<lambda>(b, e) s. synth_fill ni tombs e b s) (range_collect it) s = Some s'
      \<and> synth_inv cs ts us (length us) s'"
proof (induction it arbitrary: s rule: range_collect.induct)
  case (1 it)
  have lens: "length ts = length us" using al by simp
  have skip: "synth_inv cs ts us b s" if "ri_consumed it \<le> b" "\<forall>c \<in> set (slice ts (ri_consumed it) b). c \<noteq> 0" for b
    using "1.prems"(3) kept_skip [OF lens that] old_at_mono [OF _ that(1)] that(1)
    by (auto simp: synth_inv_def)
  have inv: "range_inv ts it" using "1.prems"(1) by (rule range_at_inv)
  obtain r it' where nxt: "range_next it = (r, it')" by force
  show ?case
  proof (cases r)
    case None
    note n = range_next_None [OF inv nxt [unfolded None]]
    have "ri_consumed it \<le> length us" using inv lens by (simp add: range_inv_def)
    moreover have "\<forall>c \<in> set (slice ts (ri_consumed it) (length us)). c \<noteq> 0"
      using n(5) "1.prems"(2) by (auto simp: slice_def dest: in_set_takeD)
    ultimately have "synth_inv cs ts us (length us) s" by (rule skip)
    with None nxt show ?thesis by (simp add: range_collect.simps [of it])
  next
    case (Some be)
    then obtain b e where r: "range_next it = (Some (b, e), it')" using nxt by (cases be) auto
    note n = range_next_Some [OF inv r] and a = range_next_at [OF r "1.prems"(1)]
    have "synth_inv cs ts us b s" using n(4,8) "1.prems"(2) by (intro skip) auto
    then obtain s1 where s1: "synth_fill ni tombs e b s = Some s1" "synth_inv cs ts us e s1"
      using synth_fill_spec [OF al t, of e b s] n(5,6,7) lens "1.prems"(2)
        aligned_cut [OF al(2) a(1)] aligned_cut [OF al(2) a(2)] by auto
    from "1.IH" [OF r [symmetric] refl a(3)] n(2,3) "1.prems"(2) s1 r show ?thesis
      by (simp add: range_collect.simps [of it])
  qed
qed

text \<open>
  \<^verbatim>\<open>synthesize\<close>: from the tombstones of one set of deletions and a second set, a delta from the text
  that the first leaves to the text that the second leaves, for any union string they describe.
\<close>

lemma synthesize_spec:
  assumes al: "aligned start cs us" "aligned start ts us"
    and t: "wf tombs" "content tombs = removed cs us"
  obtains d where "synthesize ni tombs (enc cs) (enc ts) = Some d"
    "base_len d = length (kept cs us)" "etext (kept cs us) (els d) = kept ts us"
    "eok (kept cs us) (els d)"
proof -
  obtain lo it where nx: "range_next (complement_iter (enc cs)) = (lo, it)" by force
  define s0 where "s0 = \<lparr>sy_els = [] :: ('l, 'i) delta_element list, sy_x = 0, sy_last_old = lo,
    sy_old_ranges = it, sy_m = subset_mapper (enc cs) NonZero\<rparr>"
  have "old_at cs 0 0 lo it"
    using old_at_next [OF _ _ nx] range_at_init [of cs Zero] by (simp add: complement_iter_def subset_range_iter_def)
  then have "synth_inv cs ts us 0 s0"
    by (simp add: synth_inv_def s0_def)
  then obtain s' where s': "foldM (\<lambda>(b, e) s. synth_fill ni tombs e b s)
      (range_collect (complement_iter (enc ts))) s0 = Some s'" "synth_inv cs ts us (length us) s'"
    using synth_ranges_spec [OF al t, of "complement_iter (enc ts)" s0] range_at_init [of ts Zero]
    by (auto simp: complement_iter_def subset_range_iter_def)
  have "synthesize ni tombs (enc cs) (enc ts) = Some \<lparr>els = sy_els s', base_len = cnt (\<lambda>c. c = 0) cs\<rparr>"
    using s'(1) nx by (simp add: synthesize_def s0_def)
  moreover have "length (kept cs us) = cnt (\<lambda>c. c = 0) cs" using al by simp
  ultimately show thesis
    using s'(2) al by (intro that) (auto simp: synth_inv_def)
qed

end

end
