(* ===== verification/Rope_Insert_Laws.thy ===== *)
theory Rope_Insert_Laws
  imports Rope_Delta_Laws
begin

text \<open>
  Correctness of insert-only deltas (\<^verbatim>\<open>inserted_subset\<close>, \<^verbatim>\<open>transform_shrink\<close>, \<^verbatim>\<open>transform_expand\<close>) and of
  \<^verbatim>\<open>factor\<close>, for every kind of leaf.  The loop of \<^verbatim>\<open>transform_expand\<close> is shown to terminate.
\<close>

section \<open>Insert-only deltas\<close>

text \<open>
  The elements from position \<open>p\<close> of a base of length \<open>n\<close>: copies are contiguous and reach the end.
  \<open>ins_labels\<close> labels the resulting text, one for inserted and zero for copied units.
\<close>

fun ins_ok :: "('l, 'i) delta_element list \<Rightarrow> nat \<Rightarrow> nat \<Rightarrow> bool" where
  "ins_ok [] p n \<longleftrightarrow> p = n"
| "ins_ok (Copy b e # es) p n \<longleftrightarrow> b = p \<and> b \<le> e \<and> ins_ok es e n"
| "ins_ok (Insert _ # es) p n \<longleftrightarrow> ins_ok es p n"

definition ins_labels :: "('l, 'i) delta_element list \<Rightarrow> nat list" where
  "ins_labels es = concat (map (\<lambda>el. case el of
     Copy b e \<Rightarrow> replicate (e - b) 0 | Insert n \<Rightarrow> replicate (n_len n) 1) es)"

definition els_nonempty :: "('l, 'i) delta_element list \<Rightarrow> bool" where
  "els_nonempty es \<longleftrightarrow> (\<forall>el \<in> set es. case el of Copy b e \<Rightarrow> b < e | Insert n \<Rightarrow> 0 < n_len n)"

lemma ins_labels_simps [simp]:
  "ins_labels [] = []"
  "ins_labels (Copy b e # es) = replicate (e - b) 0 @ ins_labels es"
  "ins_labels (Insert n # es) = replicate (n_len n) 1 @ ins_labels es"
  "ins_labels (es @ es') = ins_labels es @ ins_labels es'"
  by (simp_all add: ins_labels_def)

lemma els_nonempty_simps [simp]:
  "els_nonempty []"
  "els_nonempty (Copy b e # es) \<longleftrightarrow> b < e \<and> els_nonempty es"
  "els_nonempty (Insert n # es) \<longleftrightarrow> 0 < n_len n \<and> els_nonempty es"
  "els_nonempty (es @ es') \<longleftrightarrow> els_nonempty es \<and> els_nonempty es'"
  by (auto simp: els_nonempty_def)

lemma ins_ok_le: "ins_ok es p n \<Longrightarrow> p \<le> n"
  by (induction es p n rule: ins_ok.induct) auto

lemma ins_ok_append: "ins_ok es p q \<Longrightarrow> ins_ok es' q n \<Longrightarrow> ins_ok (es @ es') p n"
  by (induction es p q rule: ins_ok.induct) auto

lemma cnt_ins_labels: "ins_ok es p n \<Longrightarrow> cnt (\<lambda>c. c = 0) (ins_labels es) = n - p"
  by (induction es p n rule: ins_ok.induct) (auto dest: ins_ok_le)

lemma inserted_subset_enc:
  assumes "els_nonempty (els d)"
  shows "inserted_subset d = Some (enc (ins_labels (els d)))"
proof -
  have "els_nonempty es \<Longrightarrow> foldM (\<lambda>elem sb. case elem of
         Copy b e \<Rightarrow> do { k \<leftarrow> usize_sub e b; push_segment sb k 0 }
       | Insert n \<Rightarrow> push_segment sb (n_len n) 1) es (benc cs) = Some (benc (cs @ ins_labels es))"
    for es :: "('a, 'b) delta_element list" and cs
  proof (induction es arbitrary: cs)
    case (Cons el es)
    then show ?case by (cases el) simp_all
  qed simp
  from this [OF assms, of "[]"] show ?thesis
    by (simp add: inserted_subset_def subset_builder_new_benc subset_build_def enc_def benc_def)
qed

text \<open>Copies of a shrunk delta: both ends counted among the kept labels.\<close>

definition shrink_els ::
  "nat list \<Rightarrow> ('l, 'i) delta_element list \<Rightarrow> ('l, 'i) delta_element list" where
  "shrink_els cs es = map (\<lambda>el. case el of
     Copy b e \<Rightarrow> Copy (cnt (\<lambda>c. c = 0) (take b cs)) (cnt (\<lambda>c. c = 0) (take e cs))
   | Insert n \<Rightarrow> Insert n) es"

lemma shrink_els_simps [simp]:
  "shrink_els cs [] = []"
  "shrink_els cs (Copy b e # es) =
     Copy (cnt (\<lambda>c. c = 0) (take b cs)) (cnt (\<lambda>c. c = 0) (take e cs)) # shrink_els cs es"
  "shrink_els cs (Insert n # es) = Insert n # shrink_els cs es"
  by (simp_all add: shrink_els_def)

lemma shrink_elements_spec:
  "ins_ok es p n \<Longrightarrow> mapper_inv cs m \<Longrightarrow> mp_last_i m \<le> p \<Longrightarrow>
    ri_matcher (mp_range_iter m) = Zero \<Longrightarrow> shrink_elements m es = Some (shrink_els cs es)"
proof (induction es p n arbitrary: m rule: ins_ok.induct)
  case (2 b e es p n)
  obtain m1 where m1: "doc_index_to_subset m b = Some (cnt (\<lambda>c. c = 0) (take b cs), m1)"
    "mapper_inv cs m1" "mp_last_i m1 = b" "ri_matcher (mp_range_iter m1) = Zero"
    using doc_index_to_subset_spec [OF "2.prems"(2), of b] "2.prems" by (auto simp: cmatch_fun)
  obtain m2 where "doc_index_to_subset m1 e = Some (cnt (\<lambda>c. c = 0) (take e cs), m2)"
    "mapper_inv cs m2" "mp_last_i m2 = e" "ri_matcher (mp_range_iter m2) = Zero"
    using doc_index_to_subset_spec [OF m1(2), of e] m1(3,4) "2.prems"(1) by (auto simp: cmatch_fun)
  with "2.IH" [of m2] "2.prems"(1) m1(1) show ?case by simp
qed simp_all

lemma ins_transform_shrink_eq:
  assumes "ins_ok (els d) 0 n"
  shows "ins_transform_shrink d (enc cs)
    = Some \<lparr>els = shrink_els cs (els d), base_len = cnt (\<lambda>c. c = 0) cs\<rparr>"
  using shrink_elements_spec [OF assms, of cs "subset_mapper (enc cs) Zero"]
  by (simp add: ins_transform_shrink_def)

lemma ins_ok_shrink:
  "ins_ok es p n \<Longrightarrow> ins_ok (shrink_els cs es) (cnt (\<lambda>c. c = 0) (take p cs)) (cnt (\<lambda>c. c = 0) (take n cs))"
  by (induction es p n rule: ins_ok.induct) (auto intro: cnt_take_mono)

context leaf_laws
begin

lemma etext_labels:
  assumes "ins_ok es p (length us)" "eok us es"
  shows "length (ins_labels es) = length (etext us es)"
    "kept (ins_labels es) (etext us es) = drop p us"
proof -
  have "length (ins_labels es) = length (etext us es) \<and> kept (ins_labels es) (etext us es) = drop p us"
    using assms
  proof (induction es p "length us" rule: ins_ok.induct)
    case (2 b e es p)
    then have "length (slice us b e) = e - b" by (auto dest: ins_ok_le)
    with 2 show ?case by (auto simp: sel_append sel_replicate slice_drop)
  next
    case (3 n es p)
    then have "n_len n = length (content n)" by (simp add: wf_len)
    with 3 show ?case by (auto simp: sel_append sel_replicate)
  qed simp
  then show "length (ins_labels es) = length (etext us es)"
    "kept (ins_labels es) (etext us es) = drop p us" by simp_all
qed

lemma aligned_ins_labels: "eok us es \<Longrightarrow> aligned start (ins_labels es) (etext us es)"
proof (induction es)
  case (Cons el es)
  then have IH: "aligned start (ins_labels es) (etext us es)" by simp
  show ?case
  proof (cases el)
    case (Copy b e)
    with Cons.prems have "b \<le> e" "cut us b" "e \<le> length us" by (auto dest: cut_ok_le)
    then have "starts_ok start (slice us b e)" "length (slice us b e) = e - b"
      by (auto simp: cut_ok_starts starts_ok_def slice_def hd_take)
    then have "aligned start (replicate (e - b) 0) (slice us b e)" by (rule aligned_replicate)
    with Copy IH show ?thesis by (simp add: aligned_append)
  next
    case (Insert n)
    with Cons.prems IH show ?thesis
      by (auto intro!: aligned_append aligned_replicate simp: wf_starts wf_len)
  qed
qed simp

text \<open>
  Shrinking an insert-only delta: applied to the visible text it gives what is visible after
  applying the delta to the whole union string.
\<close>

lemma shrink_text:
  assumes "ins_ok es p (length us)" "eok us es" "length cs = length us"
  shows "etext (kept cs us) (shrink_els cs es)
    = kept (cexpand False (drop p cs) (ins_labels es)) (etext us es)"
  using assms
proof (induction es p "length us" rule: ins_ok.induct)
  case (2 b e es p)
  then have le: "b \<le> e" "e \<le> length us" "p = b" by (auto dest: ins_ok_le)
  then have "cexpand False (drop p cs) (ins_labels (Copy b e # es))
      = slice cs b e @ cexpand False (drop e cs) (ins_labels es)"
    using "2.prems"(3) by (simp add: cexpand_replicate_zero slice_def)
  moreover have "slice (kept cs us) (cnt (\<lambda>c. c = 0) (take b cs)) (cnt (\<lambda>c. c = 0) (take e cs))
      = kept (slice cs b e) (slice us b e)"
    using sel_slice [OF "2.prems"(3) le(1)] .
  ultimately show ?case
    using 2 le by (simp add: sel_append)
next
  case (3 n es p)
  have "n_len n = length (content n)" using "3.prems"(2) by (simp add: wf_len)
  with 3 show ?case by (simp add: cexpand_replicate_pos sel_append sel_replicate)
qed simp

lemma eok_shrink:
  "eok us es \<Longrightarrow> aligned start cs us \<Longrightarrow> eok (kept cs us) (shrink_els cs es)"
proof (induction es)
  case (Cons el es)
  then show ?case by (cases el) (auto intro: cut_ok_sel cnt_take_mono)
qed simp

end


section \<open>Factoring\<close>

text \<open>A delta whose copies are in order.\<close>

fun copies_ok :: "('l, 'i) delta_element list \<Rightarrow> nat \<Rightarrow> nat \<Rightarrow> bool" where
  "copies_ok [] p n \<longleftrightarrow> p \<le> n"
| "copies_ok (Copy b e # es) p n \<longleftrightarrow> p \<le> b \<and> b \<le> e \<and> copies_ok es e n"
| "copies_ok (Insert _ # es) p n \<longleftrightarrow> copies_ok es p n"

definition delta_wf :: "('l, 'i) delta \<Rightarrow> bool" where
  "delta_wf d \<longleftrightarrow> copies_ok (els d) 0 (base_len d)"

fun fac_ins ::
  "('l, 'i) delta_element list \<Rightarrow> nat \<Rightarrow> nat \<Rightarrow> nat \<Rightarrow> ('l, 'i) delta_element list" where
  "fac_ins [] b1 e1 n = (if b1 < n then [Copy b1 n] else [])"
| "fac_ins (Copy b e # es) b1 e1 n = fac_ins es b1 e n"
| "fac_ins (Insert x # es) b1 e1 n =
     (if e1 > b1 then [Copy b1 e1] else []) @ Insert x # fac_ins es e1 e1 n"

fun fac_del :: "('l, 'i) delta_element list \<Rightarrow> nat \<Rightarrow> nat \<Rightarrow> nat list" where
  "fac_del [] e1 n = replicate (n - e1) 1"
| "fac_del (Copy b e # es) e1 n = replicate (b - e1) 1 @ replicate (e - b) 0 @ fac_del es e n"
| "fac_del (Insert x # es) e1 n = fac_del es e1 n"

lemma copies_ok_le: "copies_ok es p n \<Longrightarrow> p \<le> n"
  by (induction es p n rule: copies_ok.induct) auto

lemma length_fac_del: "copies_ok es e1 n \<Longrightarrow> length (fac_del es e1 n) = n - e1"
  by (induction es e1 n rule: copies_ok.induct) (auto dest: copies_ok_le)

lemma delta_factor_eq:
  assumes "delta_wf d"
  shows "delta_factor d = Some (\<lparr>els = fac_ins (els d) 0 0 (base_len d), base_len = base_len d\<rparr>,
    enc (fac_del (els d) 0 (base_len d)))"
proof -
  define n where "n = base_len d"
  have "copies_ok es e1 n \<Longrightarrow> length ds \<le> e1 \<Longrightarrow>
      (do {
         (ins, sb, b1, e1) \<leftarrow> foldM factor_element es (ins, benc ds, b1, e1);
         let ins = (if b1 < n then ins @ [Copy b1 n] else ins);
         sb \<leftarrow> add_range sb e1 n 1;
         sb \<leftarrow> pad_to_len sb n;
         Some (ins, sb) })
      = Some (ins @ fac_ins es b1 e1 n, benc (ds @ replicate (e1 - length ds) 0 @ fac_del es e1 n))"
    for es :: "('a, 'b) delta_element list" and ins ds b1 e1
  proof (induction es e1 n arbitrary: ins ds b1 rule: copies_ok.induct)
    case (1 e1 n)
    then show ?case by (auto simp: Let_def)
  next
    case (2 b e es e1 n)
    define ds' where
      "ds' = ds @ (if e1 < b then replicate (e1 - length ds) 0 @ replicate (b - e1) 1 else [])"
    have len: "length ds' \<le> e" and "ds' @ replicate (e - length ds') 0
        = ds @ replicate (e1 - length ds) 0 @ replicate (b - e1) 1 @ replicate (e - b) 0"
      using "2.prems" by (auto simp: ds'_def replicate_add [symmetric])
    then have eq: "ds' @ replicate (e - length ds') 0 @ fac_del es e n
        = ds @ replicate (e1 - length ds) 0 @ fac_del (Copy b e # es) e1 n"
      by (metis append.assoc fac_del.simps(2))
    have "factor_element (Copy b e) (ins, benc ds, b1, e1) = Some (ins, benc ds', b1, e)"
      using "2.prems" by (simp add: factor_element_def ds'_def)
    then show ?case using "2.IH" [of ds' ins b1] "2.prems" len by (simp add: eq)
  next
    case (3 x es e1 n)
    then show ?case by (simp add: factor_element_def)
  qed
  from this [of "els d" 0 "[]" "[]" 0] assms
  have "(do {
         (ins, sb, b1, e1) \<leftarrow> foldM factor_element (els d) ([], benc [], 0, 0);
         let ins = (if b1 < n then ins @ [Copy b1 n] else ins);
         sb \<leftarrow> add_range sb e1 n 1;
         sb \<leftarrow> pad_to_len sb n;
         Some (ins, sb) }) = Some (fac_ins (els d) 0 0 n, benc (fac_del (els d) 0 n))"
    by (simp add: delta_wf_def n_def)
  moreover have "delta_factor d = (do {
         (ins, sb, b1, e1) \<leftarrow> foldM factor_element (els d) ([], benc [], 0, 0);
         let ins = (if b1 < n then ins @ [Copy b1 n] else ins);
         sb \<leftarrow> add_range sb e1 n 1;
         sb \<leftarrow> pad_to_len sb n;
         Some (ins, sb) }) \<bind> (\<lambda>(ins, sb). Some (\<lparr>els = ins, base_len = n\<rparr>, subset_build sb))"
    unfolding n_def delta_factor_def subset_builder_new_benc Let_def
    by (cases "foldM factor_element (els d) ([], benc [], 0, 0)") (auto simp: bind_assoc)
  ultimately show ?thesis by (simp add: n_def subset_build_def enc_def)
qed

lemma fac_ins_ok: "copies_ok es e1 n \<Longrightarrow> b1 \<le> e1 \<Longrightarrow> ins_ok (fac_ins es b1 e1 n) b1 n"
  by (induction es e1 n arbitrary: b1 rule: copies_ok.induct) (auto dest: copies_ok_le)

lemma fac_ins_nonempty:
  "(\<forall>x. Insert x \<in> set es \<longrightarrow> 0 < n_len x) \<Longrightarrow> els_nonempty (fac_ins es b1 e1 n)"
  by (induction es b1 e1 n rule: fac_ins.induct) auto

context leaf_laws
begin

lemma eok_fac_ins:
  "copies_ok es e1 (length us) \<Longrightarrow> eok us es \<Longrightarrow> b1 \<le> e1 \<Longrightarrow> cut us b1 \<Longrightarrow> cut us e1 \<Longrightarrow>
    eok us (fac_ins es b1 e1 (length us))"
  by (induction es e1 "length us" arbitrary: b1 rule: copies_ok.induct) auto

lemma agn_fac_del:
  "copies_ok es e1 (length us) \<Longrightarrow> eok us es \<Longrightarrow> cut us e1 \<Longrightarrow>
    aligned start (fac_del es e1 (length us)) (drop e1 us)"
proof (induction es e1 "length us" rule: copies_ok.induct)
  case (1 p)
  then show ?case by (auto simp: cut_ok_starts intro!: aligned_replicate)
next
  case (2 b e es p)
  have IH: "aligned start (fac_del es e (length us)) (drop e us)" using 2 by simp
  have le: "p \<le> b" "b \<le> e" "e \<le> length us" using "2.prems" by (auto dest: cut_ok_le)
  have "aligned start (replicate (b - p) 1) (slice us p b)"
    "aligned start (replicate (e - b) 0) (slice us b e)"
    using "2.prems" le
    by (auto intro!: aligned_replicate simp: cut_ok_starts starts_ok_def slice_def hd_take)
  moreover have "drop p us = slice us p b @ slice us b e @ drop e us"
    using le by (simp add: slice_drop)
  ultimately show ?case using IH by (simp add: aligned_append)
next
  case (3 x es p)
  then show ?case by simp
qed

text \<open>Inserting and then deleting is the delta.\<close>

lemma factor_text:
  assumes "copies_ok es e1 (length us)" "eok us es" "b1 \<le> e1" "e1 \<le> length us" "length pend = e1 - b1"
  shows "kept (cexpand False (pend @ fac_del es e1 (length us)) (ins_labels (fac_ins es b1 e1 (length us))))
      (etext us (fac_ins es b1 e1 (length us)))
    = kept pend (slice us b1 e1) @ etext us es"
  using assms
proof (induction es e1 "length us" arbitrary: b1 pend rule: copies_ok.induct)
  case (1 e1)
  let ?D = "pend @ replicate (length us - e1) 1"
  have "kept ?D (slice us b1 e1 @ drop e1 us) = kept pend (slice us b1 e1)"
    using "1.prems" by (simp add: sel_append sel_replicate)
  then have "kept ?D (drop b1 us) = kept pend (slice us b1 e1)"
    using "1.prems" by (simp add: slice_drop)
  moreover have "cexpand False ?D (replicate (length us - b1) 0) = ?D"
    using "1.prems" cexpand_replicate_zero [of "length us - b1" ?D False "[]"] by simp
  moreover have "slice us b1 (length us) = drop b1 us" by (simp add: slice_def)
  ultimately show ?case using "1.prems" by auto
next
  case (2 b e es e1)
  let ?pend = "pend @ replicate (b - e1) 1 @ replicate (e - b) 0"
  have le: "e1 \<le> b" "b \<le> e" "e \<le> length us" using "2.prems" by (auto dest: cut_ok_le)
  have "slice us b1 e = slice us b1 e1 @ slice us e1 b @ slice us b e"
    using le "2.prems"(3) by (simp add: slice_split)
  then have "kept ?pend (slice us b1 e) = kept pend (slice us b1 e1) @ slice us b e"
    using le "2.prems" by (simp add: sel_append sel_replicate)
  with "2.hyps" [of b1 ?pend] "2.prems" le show ?case by simp
next
  case (3 x es e1)
  have x: "n_len x = length (content x)" using "3.prems"(2) by (simp add: wf_len)
  have IH: "kept (cexpand False (fac_del es e1 (length us)) (ins_labels (fac_ins es e1 e1 (length us))))
      (etext us (fac_ins es e1 e1 (length us))) = etext us es"
    using "3.hyps" [of e1 "[]"] "3.prems" by simp
  show ?case
  proof (cases "b1 < e1")
    case True
    with IH x "3.prems" show ?thesis
      by (simp add: cexpand_replicate_zero cexpand_replicate_pos sel_append sel_replicate)
  next
    case False
    with IH x "3.prems" show ?thesis
      by (simp add: cexpand_replicate_pos sel_append sel_replicate)
  qed
qed

end


section \<open>Expanding an insert-only delta\<close>

text \<open>
  The text of a delta annotated with its labels, and what is still to be emitted of a delta from
  position \<open>p\<close> of its base.
\<close>

definition ann_text ::
  "('l \<Rightarrow> 'a list) \<Rightarrow> 'a list \<Rightarrow> ('l, 'i) delta_element list \<Rightarrow> (nat \<times> 'a) list" where
  "ann_text lc base es = concat (map (\<lambda>el. case el of
     Copy b e \<Rightarrow> map (Pair 0) (slice base b e) | Insert n \<Rightarrow> map (Pair 1) (node_content lc n)) es)"

lemma ann_text_simps [simp]:
  "ann_text lc base [] = []"
  "ann_text lc base (Copy b e # es) = map (Pair 0) (slice base b e) @ ann_text lc base es"
  "ann_text lc base (Insert n # es) = map (Pair 1) (node_content lc n) @ ann_text lc base es"
  "ann_text lc base (es @ es') = ann_text lc base es @ ann_text lc base es'"
  by (simp_all add: ann_text_def)

lemma map_snd_ann_text [simp]: "map snd (ann_text lc base es) = els_text lc base es"
proof (induction es)
  case (Cons el es)
  then show ?case by (cases el) (simp_all add: comp_def)
qed simp

fun ins_from :: "('l, 'i) delta_element list \<Rightarrow> nat \<Rightarrow> nat \<Rightarrow> bool" where
  "ins_from [] p n \<longleftrightarrow> p = n"
| "ins_from (Copy b e # es) p n \<longleftrightarrow> p \<le> e \<and> ins_from es e n"
| "ins_from (Insert _ # es) p n \<longleftrightarrow> ins_from es p n"

fun rem_text ::
  "('l \<Rightarrow> 'a list) \<Rightarrow> 'a list \<Rightarrow> ('l, 'i) delta_element list \<Rightarrow> nat \<Rightarrow> (nat \<times> 'a) list" where
  "rem_text lc base [] p = []"
| "rem_text lc base (Copy b e # es) p = map (Pair 0) (slice base p e) @ rem_text lc base es e"
| "rem_text lc base (Insert n # es) p = map (Pair 1) (node_content lc n) @ rem_text lc base es p"

lemma ins_from_le: "ins_from es p n \<Longrightarrow> p \<le> n"
  by (induction es p n rule: ins_from.induct) auto

lemma ins_ok_from: "ins_ok es p n \<Longrightarrow> ins_from es p n"
  by (induction es p n rule: ins_ok.induct) auto

lemma rem_text_ins_ok: "ins_ok es p n \<Longrightarrow> rem_text lc base es p = ann_text lc base es"
  by (induction es p n rule: ins_ok.induct) auto

lemma cexpand_append:
  "length xs = cnt (\<lambda>c. c = 0) cs \<Longrightarrow>
    cexpand un (xs @ ys) (cs @ ds) = cexpand un xs cs @ cexpand un ys ds"
proof (induction un xs cs rule: cexpand.induct)
  case (2 un xs c cs)
  then show ?case by (cases xs) (auto split: if_splits)
qed simp

text \<open>
  The visible text described by what has been emitted: closed elements \<open>es\<close> up to \<open>c\<close>, then a copy
  from \<open>c\<close> to \<open>q\<close>.
\<close>

definition vis_text ::
  "('l \<Rightarrow> 'a list) \<Rightarrow> nat list \<Rightarrow> 'a list \<Rightarrow> ('l, 'i) delta_element list \<Rightarrow> nat \<Rightarrow> nat
   \<Rightarrow> (nat \<times> 'a) list" where
  "vis_text lc cs us es c q =
     kept (cexpand False (take q cs) (ins_labels (es @ [Copy c q]))) (ann_text lc us (es @ [Copy c q]))"

definition flush_copy ::
  "('l, 'i) delta_element list \<Rightarrow> nat \<Rightarrow> nat \<Rightarrow> ('l, 'i) delta_element list" where
  "flush_copy es c q = (if q > c then es @ [Copy c q] else es)"

context leaf_laws
begin

abbreviation atext :: "'a list \<Rightarrow> ('l, 'i) delta_element list \<Rightarrow> (nat \<times> 'a) list" where
  "atext base es \<equiv> ann_text lc base es"

lemma map_fst_ann_text: "eok us es \<Longrightarrow> map fst (atext us es) = ins_labels es"
proof (induction es)
  case (Cons el es)
  then show ?case by (cases el) (auto simp: comp_def map_replicate_const wf_len dest: cut_ok_le)
qed simp

definition emitted :: "'a list \<Rightarrow> ('l, 'i) delta_element list \<Rightarrow> nat \<Rightarrow> nat \<Rightarrow> bool" where
  "emitted us es c q \<longleftrightarrow> ins_ok es 0 c \<and> c \<le> q \<and> q \<le> length us \<and> eok us es \<and> els_nonempty es
     \<and> cut us c \<and> cut us q"

lemma emitted_prefix:
  assumes "emitted us es c q"
  shows "ins_ok (es @ [Copy c q]) 0 q" "eok us (es @ [Copy c q])"
    "length (ins_labels (es @ [Copy c q])) = length (atext us (es @ [Copy c q]))"
    "cnt (\<lambda>c. c = 0) (ins_labels (es @ [Copy c q])) = q"
proof -
  show ok: "ins_ok (es @ [Copy c q]) 0 q"
    using assms ins_ok_append [of es 0 c "[Copy c q]" q] by (simp add: emitted_def)
  show e: "eok us (es @ [Copy c q])" using assms by (simp add: emitted_def)
  show "cnt (\<lambda>c. c = 0) (ins_labels (es @ [Copy c q])) = q"
    using cnt_ins_labels [OF ok] by simp
  show "length (ins_labels (es @ [Copy c q])) = length (atext us (es @ [Copy c q]))"
    using map_fst_ann_text [OF e] by (metis length_map)
qed

lemma vis_text_extend:
  assumes "emitted us es c q" "length cs = length us" "q \<le> q'" "q' \<le> length us"
  shows "vis_text lc cs us es c q' = vis_text lc cs us es c q @ kept (slice cs q q') (map (Pair 0) (slice us q q'))"
proof -
  note pre = emitted_prefix [OF assms(1)]
  have c: "c \<le> q" using assms(1) by (simp add: emitted_def)
  then have labels: "ins_labels (es @ [Copy c q']) = ins_labels (es @ [Copy c q]) @ replicate (q' - q) 0"
    using assms(3) by (simp add: replicate_add [symmetric])
  have etx: "atext us (es @ [Copy c q']) = atext us (es @ [Copy c q]) @ map (Pair 0) (slice us q q')"
    using c assms(3) by (simp add: slice_split flip: map_append)
  have "cexpand False (slice cs q q') (replicate (q' - q) 0) = slice cs q q'"
    using assms cexpand_replicate_zero [of "q' - q" "slice cs q q'" False "[]"] by simp
  then have "cexpand False (take q' cs) (ins_labels (es @ [Copy c q']))
      = cexpand False (take q cs) (ins_labels (es @ [Copy c q])) @ slice cs q q'"
    unfolding labels take_slice [OF assms(3), symmetric]
    using pre(4) assms by (subst cexpand_append) (auto simp: cut_ok_def emitted_def)
  then show ?thesis
    unfolding vis_text_def etx
    using sel_append [of "cexpand False (take q cs) (ins_labels (es @ [Copy c q]))"
        "atext us (es @ [Copy c q])"] pre(3)
    by (simp only: length_cexpand)
qed

lemma vis_text_insert:
  assumes "emitted us es c q" "length cs = length us" "wf n"
  shows "vis_text lc cs us (flush_copy es c q @ [Insert n]) q q = vis_text lc cs us es c q @ map (Pair 1) (content n)"
proof -
  note pre = emitted_prefix [OF assms(1)]
  have q: "q \<le> length us" "c \<le> q" using assms(1) by (auto simp: emitted_def)
  have out: "ins_labels (flush_copy es c q @ [Insert n] @ [Copy q q])
      = ins_labels (es @ [Copy c q]) @ replicate (n_len n) 1"
    "atext us (flush_copy es c q @ [Insert n] @ [Copy q q]) = atext us (es @ [Copy c q]) @ map (Pair 1) (content n)"
    using q by (auto simp: flush_copy_def)
  have cexp: "cexpand False (take q cs) (ins_labels (es @ [Copy c q]) @ replicate (n_len n) 1)
      = cexpand False (take q cs) (ins_labels (es @ [Copy c q])) @ replicate (n_len n) 0"
    using cexpand_append [of "take q cs" "ins_labels (es @ [Copy c q])" False "[]" "replicate (n_len n) 1"]
      cexpand_replicate_pos [of 1 False "[]" "n_len n" "[]"] pre(4) q assms(2) by simp
  have "kept (replicate (n_len n) 0) (map (Pair (1 :: nat)) (content n)) = map (Pair 1) (content n)"
    using assms(3) by (simp add: sel_replicate wf_len)
  then show ?thesis
    unfolding vis_text_def append.assoc out cexp
    using sel_append [of "cexpand False (take q cs) (ins_labels (es @ [Copy c q]))"
        "atext us (es @ [Copy c q])"] pre(3)
    by (simp only: length_cexpand)
qed

lemma emitted_insert:
  "emitted us es c q \<Longrightarrow> wf n \<Longrightarrow> 0 < n_len n \<Longrightarrow> emitted us (flush_copy es c q @ [Insert n]) q q"
  using ins_ok_append [of es 0 c "[Copy c q, Insert n]" q] ins_ok_append [of es 0 q "[Insert n]" q]
  by (auto simp: emitted_def flush_copy_def)

lemma emitted_extend: "emitted us es c q \<Longrightarrow> q \<le> q' \<Longrightarrow> cut us q' \<Longrightarrow> emitted us es c q'"
  by (auto simp: emitted_def cut_ok_def)

text \<open>The invariant of the loop; \<open>full\<close> is the text that the delta describes on the visible base.\<close>

definition tx_inv :: "nat list \<Rightarrow> 'a list \<Rightarrow> (nat \<times> 'a) list \<Rightarrow> ('l, 'i) expansion \<Rightarrow> bool" where
  "tx_inv cs us full s \<longleftrightarrow>
     emitted us (tx_elements s) (tx_copy_start s) (tx_expanded s)
     \<and> tx_source s = cnt (\<lambda>c. c = 0) (take (tx_expanded s) cs)
     \<and> ins_from (tx_rest s) (tx_source s) (length (kept cs us))
     \<and> eok (kept cs us) (tx_rest s) \<and> (\<forall>n. Insert n \<in> set (tx_rest s) \<longrightarrow> 0 < n_len n)
     \<and> (\<exists>x. old_at cs (tx_expanded s) x (tx_cur s) (tx_ranges s))
     \<and> (\<forall>rs re. tx_cur s = Some (rs, re) \<longrightarrow> tx_expanded s < re)
     \<and> vis_text lc cs us (tx_elements s) (tx_copy_start s) (tx_expanded s)
         @ rem_text lc (kept cs us) (tx_rest s) (tx_source s) = full"

definition next_start :: "'a list \<Rightarrow> ('l, 'i) expansion \<Rightarrow> nat" where
  "next_start us s = (case tx_cur s of Some (rs, _) \<Rightarrow> rs | None \<Rightarrow> length us)"

lemma tx_bump:
  assumes inv: "tx_inv cs us full s" and al: "aligned start cs us"
    and lt: "tx_expanded s < next_start us s"
  shows "tx_inv cs us full (s\<lparr>tx_expanded := next_start us s\<rparr>)" "next_start us s \<le> length us"
proof -
  let ?q = "tx_expanded s" and ?q' = "next_start us s"
  have len: "length cs = length us" using al by simp
  obtain x where old: "old_at cs ?q x (tx_cur s) (tx_ranges s)" using inv by (auto simp: tx_inv_def)
  have nz: "\<forall>c \<in> set (slice cs ?q ?q'). c \<noteq> 0" and cut': "cut us ?q'" and le: "?q' \<le> length us"
    and cur: "\<forall>rs re. tx_cur s = Some (rs, re) \<longrightarrow> ?q' < re"
    using old len aligned_cut [OF al]
    by (auto simp: old_at_def next_start_def slice_def split: option.splits dest: in_set_takeD)
  show "?q' \<le> length us" by (rule le)
  have em: "emitted us (tx_elements s) (tx_copy_start s) ?q" using inv by (simp add: tx_inv_def)
  have "cnt (\<lambda>c. c = 0) (take ?q' cs) = cnt (\<lambda>c. c = 0) (take ?q cs)"
    using cnt_slice_none [of cs ?q ?q' "\<lambda>c. c = 0"] nz lt by simp
  moreover have "kept (slice cs ?q ?q') (map (Pair 0) (slice us ?q ?q')) = []"
    using nz len by (intro sel_none) auto
  ultimately show "tx_inv cs us full (s\<lparr>tx_expanded := ?q'\<rparr>)"
    using inv vis_text_extend [OF em len less_imp_le [OF lt] le] emitted_extend [OF em less_imp_le [OF lt] cut']
      old_at_mono [OF old less_imp_le [OF lt]] cur
    by (auto simp: tx_inv_def)
qed

lemma cut_of_kept:
  assumes "length cs = length us" "q < length us" "cs ! q = 0"
    and "cut (kept cs us) (cnt (\<lambda>c. c = 0) (take q cs))"
  shows "cut us q"
proof -
  have "drop q cs = cs ! q # drop (Suc q) cs" "drop q us = us ! q # drop (Suc q) us"
    using assms(1,2) by (simp_all add: Cons_nth_drop_Suc)
  then have "drop (cnt (\<lambda>c. c = 0) (take q cs)) (kept cs us) = us ! q # kept (drop (Suc q) cs) (drop (Suc q) us)"
    using assms sel_take_drop(2) [OF assms(1), of "\<lambda>c. c = 0" q] by simp
  then show ?thesis
    using assms by (auto simp: cut_ok_starts starts_ok_def hd_drop_conv_nth)
qed

text \<open>One copy of the delta, advanced through the current visible range.\<close>

lemma tx_copy_step:
  assumes inv: "tx_inv cs us full (s\<lparr>tx_rest := Copy b e # es\<rparr>)" and al: "aligned start cs us"
    and ge: "next_start us s \<le> tx_expanded s"
  obtains s' where "tx_inner (next_start us s) (Copy b e # es) s = Some s'" "tx_inv cs us full s'"
    "length us - tx_expanded s' + length (tx_rest s')
      < length us - tx_expanded s + length (Copy b e # es)"
    "tx_expanded s \<le> tx_expanded s'"
proof -
  let ?B = "kept cs us" and ?P = "\<lambda>c :: nat. c = 0"
  let ?q = "tx_expanded s" and ?p = "tx_source s"
  have len: "length cs = length us" using al by simp
  obtain x where old: "old_at cs ?q x (tx_cur s) (tx_ranges s)" using inv by (auto simp: tx_inv_def)
  have em: "emitted us (tx_elements s) (tx_copy_start s) ?q" and p: "?p = cnt ?P (take ?q cs)"
    and fr: "?p \<le> e" "ins_from es e (length ?B)" and rest: "eok ?B es" "?p \<le> e" "cut ?B e"
    and ins: "\<forall>n. Insert n \<in> set es \<longrightarrow> 0 < n_len n"
    and over: "\<And>rs re. tx_cur s = Some (rs, re) \<Longrightarrow> ?q < re"
    and full: "vis_text lc cs us (tx_elements s) (tx_copy_start s) ?q
        @ map (Pair 0) (slice ?B ?p e) @ rem_text lc ?B es e = full"
    using inv by (auto simp: tx_inv_def)
  have q: "?q \<le> length us" using em by (simp add: emitted_def)
  show thesis
  proof (cases "tx_cur s")
    case None
    with ge q have qe: "?q = length us" by (simp add: next_start_def)
    then have "?p = length ?B" using p len by simp
    with fr(1) ins_from_le [OF fr(2)] have pe: "e = ?p" by simp
    have eq: "tx_inner (next_start us s) (Copy b e # es) s
        = Some (s\<lparr>tx_source := ?p, tx_expanded := ?q, tx_rest := es, tx_cur := None, tx_ranges := tx_ranges s\<rparr>)"
      using ge pe None by (simp add: Let_def)
    show thesis
      by (rule that [OF eq]) (use inv pe None qe full in \<open>auto simp: tx_inv_def\<close>)
  next
    case (Some r)
    then obtain rs re where cur: "tx_cur s = Some (rs, re)" by (cases r) auto
    define q' where "q' = min (e + ?q - ?p) re"
    have o: "rs \<le> ?q" "?q < re" "re \<le> length cs" "\<forall>c \<in> set (slice cs rs re). c = 0"
      "label_change cs re" "range_at cs (tx_ranges s)" "ri_matcher (tx_ranges s) = Zero"
      "ri_consumed (tx_ranges s) = re"
      using old cur ge over [OF cur] by (auto simp: old_at_def next_start_def)
    have q': "?q \<le> q'" "q' \<le> re" "q' \<le> length us" using fr(1) o len by (auto simp: q'_def)
    have zero: "\<forall>c \<in> set (slice cs ?q q'). c = 0"
      using o(4) set_slice_mono [OF o(1) q'(2), of cs] by blast
    define p' where "p' = cnt ?P (take q' cs)"
    have p': "p' = ?p + (q' - ?q)"
      using cnt_slice_all [of cs ?q q' ?P] zero q' p len by (simp add: p'_def)
    have p'e: "p' \<le> e" using p' fr(1) q'(1) by (auto simp: q'_def)
    have slice_eq: "slice ?B ?p p' = slice us ?q q'"
      unfolding p p'_def using len q' zero by (intro sel_slice_all) auto
    have cut': "cut us q'"
    proof (cases "q' = re")
      case True
      then show ?thesis using aligned_cut [OF al o(5)] by simp
    next
      case False
      then have "p' = e" "q' < re" using p' fr(1) q'(2) by (auto simp: q'_def)
      moreover have "cs ! q' \<in> set (slice cs rs re)"
        unfolding set_slice_nth using o(1,3) q'(1) \<open>q' < re\<close> by (intro exI [of _ q']) auto
      then have "cs ! q' = 0" using o(4) by blast
      ultimately show ?thesis
        using cut_of_kept [OF len, of q'] rest(3) o(3) len by (simp add: p'_def)
    qed
    define nx where "nx = (if q' = re then range_next (tx_ranges s) else (tx_cur s, tx_ranges s))"
    define s' where "s' = s\<lparr>tx_source := p', tx_expanded := q',
      tx_rest := (if p' = e then es else Copy b e # es), tx_cur := fst nx, tx_ranges := snd nx\<rparr>"
    have eq: "tx_inner (next_start us s) (Copy b e # es) s = Some s'"
      using ge fr(1) cur q'(1) p'
      by (simp add: Let_def q'_def [symmetric] s'_def nx_def split: prod.splits)
    have old': "\<exists>x. old_at cs q' x (fst nx) (snd nx)"
      "\<And>rs re. fst nx = Some (rs, re) \<Longrightarrow> q' < re"
    proof -
      show "\<exists>x. old_at cs q' x (fst nx) (snd nx)"
        using old_at_next [OF o(6,7), of "fst nx" "snd nx" q'] o(8) old_at_mono [OF old q'(1)]
        by (auto simp: nx_def split: if_splits)
      show "q' < re'" if "fst nx = Some (rs', re')" for rs' re'
        using that range_next_Some [OF range_at_inv [OF o(6)], of rs' re' "snd nx"] o(8) cur q'(2)
        by (auto simp: nx_def prod_eq_iff split: if_splits)
    qed
    have "slice ?B ?p e = slice us ?q q' @ slice ?B p' e"
      using slice_split [of ?p p' e ?B] p' p'e slice_eq by simp
    moreover have "kept (slice cs ?q q') (map (Pair 0) (slice us ?q q')) = map (Pair 0) (slice us ?q q')"
      using zero len by (intro sel_all) auto
    ultimately have "tx_inv cs us full s'"
      using inv full p'e fr(2) rest ins old' vis_text_extend [OF em len q'(1,3)]
        emitted_extend [OF em q'(1) cut']
      by (auto simp: tx_inv_def s'_def p'_def)
    moreover have "length us - tx_expanded s' + length (tx_rest s')
        < length us - ?q + length (Copy b e # es)"
    proof (cases "q' = ?q")
      case True
      then have "e + ?q - ?p \<le> ?q" using o(2) by (simp add: q'_def min_def split: if_splits)
      then have "p' = e" using fr(1) p' True by simp
      with q' show ?thesis by (simp add: s'_def)
    next
      case False
      with q' show ?thesis by (auto simp: s'_def)
    qed
    ultimately show thesis using that [OF eq] q'(1) by (simp add: s'_def)
  qed
qed

lemma tx_inner_spec:
  assumes al: "aligned start cs us"
  shows "tx_inv cs us full (s\<lparr>tx_rest := es\<rparr>) \<Longrightarrow>
    \<exists>s'. tx_inner (next_start us s) es s = Some s' \<and> tx_inv cs us full s'
      \<and> length us - tx_expanded s' + length (tx_rest s') \<le> length us - tx_expanded s + length es
      \<and> (next_start us s \<le> tx_expanded s \<and> es \<noteq> [] \<longrightarrow>
           length us - tx_expanded s' + length (tx_rest s') < length us - tx_expanded s + length es)
      \<and> (tx_expanded s < next_start us s \<longrightarrow> tx_expanded s' = tx_expanded s \<and> tx_cur s' = tx_cur s)
      \<and> tx_expanded s \<le> tx_expanded s'"
proof (induction es arbitrary: s)
  case (Cons el es)
  show ?case
  proof (cases el)
    case (Insert n)
    define s1 where "s1 = s\<lparr>tx_elements := flush_copy (tx_elements s) (tx_copy_start s) (tx_expanded s) @ [Insert n],
      tx_copy_start := tx_expanded s\<rparr>"
    have em: "emitted us (tx_elements s) (tx_copy_start s) (tx_expanded s)" and n: "wf n" "0 < n_len n"
      using Cons.prems Insert by (auto simp: tx_inv_def)
    have len: "length cs = length us" using al by simp
    have "tx_inv cs us full (s1\<lparr>tx_rest := es\<rparr>)"
      using Cons.prems Insert vis_text_insert [OF em len n(1)] emitted_insert [OF em n]
      by (auto simp: tx_inv_def s1_def)
    moreover have "tx_inner k (el # es) s = tx_inner k es s1" for k
      using Insert by (simp add: s1_def flush_copy_def)
    moreover have "next_start us s1 = next_start us s" "tx_expanded s1 = tx_expanded s" "tx_cur s1 = tx_cur s"
      by (simp_all add: s1_def next_start_def)
    ultimately show ?thesis using Cons.IH [of s1] by auto
  next
    case (Copy b e)
    show ?thesis
    proof (cases "next_start us s \<le> tx_expanded s")
      case True
      from tx_copy_step [OF Cons.prems [unfolded Copy] al True] obtain s' where
        "tx_inner (next_start us s) (Copy b e # es) s = Some s'" "tx_inv cs us full s'"
        "length us - tx_expanded s' + length (tx_rest s')
          < length us - tx_expanded s + length (Copy b e # es)" "tx_expanded s \<le> tx_expanded s'"
        by blast
      with True Copy show ?thesis by auto
    next
      case False
      with Cons.prems Copy show ?thesis by simp
    qed
  qed
qed (simp add: next_start_def)

lemma tx_loop_spec:
  assumes al: "aligned start cs us"
  shows "tx_inv cs us full s \<Longrightarrow>
    \<exists>s'. tx_loop after (length us) s = Some s' \<and> tx_inv cs us full s'
      \<and> tx_expanded s' = length us \<and> tx_rest s' = []"
proof (induction "length us - tx_expanded s + length (tx_rest s)" arbitrary: s rule: less_induct)
  case less
  note inv = less.prems
  have len: "length cs = length us" using al by simp
  have q: "tx_expanded s \<le> length us" using inv by (simp add: tx_inv_def emitted_def)
  show ?case
  proof (cases "tx_expanded s < length us \<or> tx_rest s \<noteq> []")
    case False
    with q inv show ?thesis by (subst tx_loop.simps) simp
  next
    case True
    let ?nrs = "next_start us s"
    define s1 where "s1 = (if after \<and> tx_expanded s < ?nrs then s\<lparr>tx_expanded := ?nrs\<rparr> else s)"
    have s1: "tx_inv cs us full s1" "next_start us s1 = ?nrs" "tx_rest s1 = tx_rest s"
      "tx_expanded s \<le> tx_expanded s1" "tx_expanded s1 \<le> length us"
      using tx_bump [OF inv al] inv q by (auto simp: s1_def next_start_def)
    have "tx_inv cs us full (s1\<lparr>tx_rest := tx_rest s1\<rparr>)" using s1(1) by simp
    from tx_inner_spec [OF al this] obtain s2 where s2: "tx_inner ?nrs (tx_rest s1) s1 = Some s2"
      "tx_inv cs us full s2"
      "length us - tx_expanded s2 + length (tx_rest s2) \<le> length us - tx_expanded s1 + length (tx_rest s)"
      "?nrs \<le> tx_expanded s1 \<Longrightarrow> tx_rest s \<noteq> [] \<Longrightarrow>
        length us - tx_expanded s2 + length (tx_rest s2) < length us - tx_expanded s1 + length (tx_rest s)"
      "tx_expanded s1 < ?nrs \<Longrightarrow> tx_expanded s2 = tx_expanded s1 \<and> tx_cur s2 = tx_cur s1"
      "tx_expanded s1 \<le> tx_expanded s2"
      unfolding s1(2,3) by blast
    define s3 where "s3 = (if \<not> after \<and> tx_expanded s2 < ?nrs then s2\<lparr>tx_expanded := ?nrs\<rparr> else s2)"
    have lt2: "tx_expanded s1 < ?nrs" if "tx_expanded s2 < ?nrs" using that s2(6) by simp
    have nrs2: "next_start us s2 = ?nrs" if "tx_expanded s2 < ?nrs"
      using s2(5) [OF lt2 [OF that]] s1(2) by (simp add: next_start_def)
    have s3: "tx_inv cs us full s3" using s2(2) tx_bump(1) [OF s2(2) al] nrs2 by (auto simp: s3_def)
    have dec: "length us - tx_expanded s3 + length (tx_rest s3) < length us - tx_expanded s + length (tx_rest s)"
    proof (cases "tx_expanded s < ?nrs")
      case lt: True
      have nrs: "?nrs \<le> length us" using tx_bump(2) [OF inv al lt] .
      then have "?nrs \<le> tx_expanded s3"
        using lt s2(6) by (auto simp: s3_def s1_def split: if_splits)
      moreover have "length (tx_rest s3) = length (tx_rest s2)" by (simp add: s3_def)
      moreover have "tx_expanded s2 = tx_expanded s \<or> ?nrs \<le> tx_expanded s1"
        using s2(5) lt by (auto simp: s1_def)
      ultimately show ?thesis
        using s2(3) lt nrs s1(4,5) s2(6) by (auto simp: s3_def s1_def split: if_splits)
    next
      case ge: False
      have "tx_rest s \<noteq> []"
      proof
        assume nil: "tx_rest s = []"
        then have lt: "tx_expanded s < length us" using True by simp
        with ge obtain rs re where cur: "tx_cur s = Some (rs, re)"
          by (auto simp: next_start_def split: option.splits)
        have o: "rs \<le> tx_expanded s" "tx_expanded s < re" "\<forall>c \<in> set (slice cs rs re). c = 0"
          using inv cur ge by (auto simp: tx_inv_def old_at_def next_start_def)
        have "cs ! tx_expanded s \<in> set (slice cs rs re)"
          unfolding set_slice_nth using o lt len by (intro exI [of _ "tx_expanded s"]) auto
        then have "cs ! tx_expanded s = 0" using o(3) by blast
        then have "drop (tx_expanded s) cs = 0 # drop (Suc (tx_expanded s)) cs"
          using lt len by (metis Cons_nth_drop_Suc)
        moreover have "cnt (\<lambda>c. c = 0) cs = cnt (\<lambda>c. c = 0) (take (tx_expanded s) cs @ drop (tx_expanded s) cs)"
          by simp
        ultimately have "cnt (\<lambda>c. c = 0) cs > cnt (\<lambda>c. c = 0) (take (tx_expanded s) cs)"
          unfolding filter_append length_append by simp
        moreover have "cnt (\<lambda>c. c = 0) (take (tx_expanded s) cs) = cnt (\<lambda>c. c = 0) cs"
          using inv nil len by (simp add: tx_inv_def)
        ultimately show False by simp
      qed
      moreover have "s1 = s" "s3 = s2" using ge s2(6) by (auto simp: s1_def s3_def)
      ultimately show ?thesis using s2(4) ge by simp
    qed
    have "tx_loop after (length us) s = (tx_inner ?nrs (tx_rest s1) s1 \<bind> (\<lambda>s. tx_loop after (length us)
        (if \<not> after \<and> tx_expanded s < ?nrs then s\<lparr>tx_expanded := ?nrs\<rparr> else s)))"
      by (subst tx_loop.simps) (simp only: True if_True Let_def s1_def next_start_def)
    then have "tx_loop after (length us) s = tx_loop after (length us) s3"
      by (simp only: s2(1) bind.bind_lunit s3_def)
    with less.hyps [OF dec s3] show ?thesis by simp
  qed
qed

text \<open>
  \<^verbatim>\<open>InsertDelta::transform_expand\<close> terminates without panicking, and the expanded delta, seen through
  the deletions, is the given one.
\<close>

lemma ins_transform_expand_spec:
  assumes al: "aligned start cs us" and d: "ins_ok (els d) 0 (length (kept cs us))"
    "eok (kept cs us) (els d)" "\<forall>n. Insert n \<in> set (els d) \<longrightarrow> 0 < n_len n"
  obtains d' where "ins_transform_expand d (enc cs) after = Some d'" "base_len d' = length us"
    "ins_ok (els d') 0 (length us)" "eok us (els d')" "els_nonempty (els d')"
    "kept (cexpand False cs (ins_labels (els d'))) (etext us (els d')) = etext (kept cs us) (els d)"
    "kept (cexpand False cs (ins_labels (els d'))) (ins_labels (els d')) = ins_labels (els d)"
proof -
  have len: "length cs = length us" using al by simp
  obtain cur it where nx: "range_next (complement_iter (enc cs)) = (cur, it)" by force
  define s0 where "s0 = \<lparr>tx_elements = [] :: ('l, 'i) delta_element list, tx_source = 0, tx_expanded = 0,
    tx_rest = els d, tx_copy_start = 0, tx_ranges = it, tx_cur = cur\<rparr>"
  have at: "range_at cs (complement_iter (enc cs))" by (simp add: complement_iter_def)
  have "old_at cs 0 0 cur it"
    using old_at_next [OF at _ nx] by (simp add: complement_iter_def subset_range_iter_def)
  moreover have "0 < re" if "cur = Some (rs, re)" for rs re
    using range_next_Some(5) [OF range_at_inv [OF at]] nx that by auto
  moreover have "cut us 0" using al by (intro cut_ok_0 aligned_starts)
  ultimately have "tx_inv cs us (atext (kept cs us) (els d)) s0"
    using d by (auto simp: tx_inv_def s0_def emitted_def ins_ok_from rem_text_ins_ok [OF d(1)] vis_text_def)
  from tx_loop_spec [OF al this, of after] obtain s where
    s: "tx_loop after (length us) s0 = Some s" "tx_inv cs us (atext (kept cs us) (els d)) s"
      "tx_expanded s = length us" "tx_rest s = []" by blast
  let ?es = "flush_copy (tx_elements s) (tx_copy_start s) (length us)"
  have em: "emitted us (tx_elements s) (tx_copy_start s) (length us)"
    using s(2,3) by (simp add: tx_inv_def)
  have "ins_transform_expand d (enc cs) after = Some \<lparr>els = ?es, base_len = length us\<rparr>"
    using nx s(1,3) len
    by (simp add: ins_transform_expand_def s0_def flush_copy_def subset_count_spec cmatch_fun
        Let_def)
  moreover have ann: "kept (cexpand False cs (ins_labels ?es)) (atext us ?es) = atext (kept cs us) (els d)"
    using s em len by (auto simp: tx_inv_def vis_text_def flush_copy_def emitted_def)
  moreover have "ins_ok ?es 0 (length us)" "eok us ?es" "els_nonempty ?es"
    using em emitted_prefix [OF em] by (auto simp: flush_copy_def emitted_def)
  moreover have "kept (cexpand False cs (ins_labels ?es)) (etext us ?es) = etext (kept cs us) (els d)"
    using arg_cong [OF ann, of "map snd"] by (simp flip: sel_map_elems)
  moreover have "kept (cexpand False cs (ins_labels ?es)) (ins_labels ?es) = ins_labels (els d)"
    using arg_cong [OF ann, of "map fst"] calculation(4) d(2)
    by (simp add: map_fst_ann_text flip: sel_map_elems)
  ultimately show thesis using that [of "\<lparr>els = ?es, base_len = length us\<rparr>"] by simp
qed

end

end
