(* ===== verification/Rope_Text.thy ===== *)
theory Rope_Text
  imports Rope_Tree_Laws
begin

unbundle bit_operations_syntax

text \<open>
  Text leaves, from \<^verbatim>\<open>xi-rope/src/rope/metrics.rs\<close> and \<^verbatim>\<open>rope/builder.rs\<close>: strings as UTF-8 byte
  lists, the search for a split point, the \<^verbatim>\<open>Leaf\<close> and \<^verbatim>\<open>NodeInfo\<close> instances for \<^verbatim>\<open>String\<close> and
  \<^verbatim>\<open>RopeInfo\<close>, the UTF-16 conversions and the rope builders.

  The crates \<^verbatim>\<open>memchr\<close> and \<^verbatim>\<open>bytecount\<close> are the record \<open>byte_search\<close>; what the code relies on is the
  locale \<open>byte_search_laws\<close>, from which the sublocale relation below derives the contract
  \<open>leaf_laws\<close> of the tree.
\<close>

section \<open>Strings\<close>

type_synonym byte = "8 word"
type_synonym str = "byte list"

definition is_cont :: "byte \<Rightarrow> bool" where
  "is_cont b \<longleftrightarrow> b AND 0xC0 = 0x80"

definition is_char_boundary :: "str \<Rightarrow> nat \<Rightarrow> bool" where
  "is_char_boundary s i \<longleftrightarrow> i = 0 \<or> i = length s \<or> (i < length s \<and> \<not> is_cont (s ! i))"

text \<open>Indexing a string or a byte slice by a range, with the panics of the language.\<close>

definition str_slice :: "str \<Rightarrow> nat \<Rightarrow> nat \<Rightarrow> str option" where
  "str_slice s b e =
     (if b \<le> e \<and> is_char_boundary s b \<and> is_char_boundary s e then Some (slice s b e) else None)"

definition bytes_slice :: "byte list \<Rightarrow> nat \<Rightarrow> nat \<Rightarrow> byte list option" where
  "bytes_slice s b e = (if b \<le> e \<and> e \<le> length s then Some (slice s b e) else None)"

definition len_utf8_from_first_byte :: "byte \<Rightarrow> nat" where
  "len_utf8_from_first_byte b = (if b < 0x80 then 1 else if b < 0xe0 then 2 else if b < 0xf0 then 3 else 4)"

text \<open>
  \<^verbatim>\<open>str::chars\<close>, each scalar value given by its encoding, and the validity that the type
  \<^verbatim>\<open>String\<close> guarantees (RFC 3629).
\<close>

function str_chars :: "str \<Rightarrow> str list" where
  "str_chars [] = []"
| "str_chars (b # s) =
     take (len_utf8_from_first_byte b) (b # s)
     # str_chars (drop (len_utf8_from_first_byte b) (b # s))"
  by pat_completeness auto
termination
  by (relation "measure length") (simp_all add: len_utf8_from_first_byte_def)

fun utf8_char :: "str \<Rightarrow> bool" where
  "utf8_char [a] \<longleftrightarrow> a < 0x80"
| "utf8_char [a, b] \<longleftrightarrow> 0xC2 \<le> a \<and> a < 0xE0 \<and> is_cont b"
| "utf8_char [a, b, c] \<longleftrightarrow> 0xE0 \<le> a \<and> a < 0xF0 \<and> is_cont b \<and> is_cont c
     \<and> (a = 0xE0 \<longrightarrow> 0xA0 \<le> b) \<and> (a = 0xED \<longrightarrow> b < 0xA0)"
| "utf8_char [a, b, c, d] \<longleftrightarrow> 0xF0 \<le> a \<and> a \<le> 0xF4 \<and> is_cont b \<and> is_cont c \<and> is_cont d
     \<and> (a = 0xF0 \<longrightarrow> 0x90 \<le> b) \<and> (a = 0xF4 \<longrightarrow> b < 0x90)"
| "utf8_char _ = False"

definition utf8_valid :: "str \<Rightarrow> bool" where
  "utf8_valid s \<longleftrightarrow> list_all utf8_char (str_chars s)"

text \<open>\<^verbatim>\<open>char::len_utf16\<close>: two units for the scalar values above U+FFFF, the four-byte ones.\<close>

definition char_len_utf16 :: "str \<Rightarrow> nat" where
  "char_len_utf16 c = (if length c = 4 then 2 else 1)"


section \<open>The byte-search crates\<close>

record byte_search =
  bs_memchr :: "byte \<Rightarrow> byte list \<Rightarrow> nat option"
  bs_memrchr :: "byte \<Rightarrow> byte list \<Rightarrow> nat option"
  bs_count :: "byte list \<Rightarrow> byte \<Rightarrow> nat"

abbreviation NL :: byte where "NL \<equiv> 0x0A"
abbreviation CR :: byte where "CR \<equiv> 0x0D"

locale byte_search_laws =
  fixes lib :: byte_search
  assumes memchr_None: "bs_memchr lib b xs = None \<longleftrightarrow> b \<notin> set xs"
    and memchr_Some: "bs_memchr lib b xs = Some i \<Longrightarrow>
      i < length xs \<and> xs ! i = b \<and> (\<forall>j<i. xs ! j \<noteq> b)"
    and memrchr_None: "bs_memrchr lib b xs = None \<longleftrightarrow> b \<notin> set xs"
    and memrchr_Some: "bs_memrchr lib b xs = Some i \<Longrightarrow>
      i < length xs \<and> xs ! i = b \<and> (\<forall>j<length xs. i < j \<longrightarrow> xs ! j \<noteq> b)"
    and count: "bs_count lib xs b = cnt (\<lambda>x. x = b) xs"
begin

end


section \<open>Low-level functions\<close>

definition MIN_LEAF :: nat where "MIN_LEAF = 511"

definition MAX_LEAF :: nat where "MAX_LEAF = 1024"

definition count_newlines :: "byte_search \<Rightarrow> str \<Rightarrow> nat" where
  "count_newlines lib s = bs_count lib s NL"

definition count_chars :: "str \<Rightarrow> nat" where
  "count_chars s = length (filter (\<lambda>b. b AND 0xC0 \<noteq> 0x80) s)"

definition count_utf16_code_units :: "str \<Rightarrow> nat" where
  "count_utf16_code_units s =
     fold (\<lambda>b utf16_count.
       let utf16_count = (if sint b \<ge> - 0x40 then utf16_count + 1 else utf16_count)
       in if b \<ge> 0xf0 then utf16_count + 1 else utf16_count) s 0"

primrec clamp_loop :: "str \<Rightarrow> nat \<Rightarrow> nat" where
  "clamp_loop s 0 = 0"
| "clamp_loop s (Suc n) = (if is_char_boundary s (Suc n) then Suc n else clamp_loop s n)"

definition clamp_to_char_boundary :: "str \<Rightarrow> nat \<Rightarrow> nat" where
  "clamp_to_char_boundary s splitpoint = clamp_loop s (min splitpoint (length s))"

definition byte_to_utf16_cu_idx :: "str \<Rightarrow> nat \<Rightarrow> nat option" where
  "byte_to_utf16_cu_idx s byte_idx = do {
     let end = clamp_loop s (min byte_idx (length s));
     pre \<leftarrow> str_slice s 0 end;
     Some (count_utf16_code_units pre) }"

fun utf16_cu_loop :: "str list \<Rightarrow> nat \<Rightarrow> nat \<Rightarrow> nat \<Rightarrow> nat option" where
  "utf16_cu_loop [] target seen16 seen8 = (if seen16 \<ge> target then Some seen8 else None)"
| "utf16_cu_loop (c # cs) target seen16 seen8 =
     (if seen16 \<ge> target then Some seen8
      else utf16_cu_loop cs target (seen16 + char_len_utf16 c) (seen8 + length c))"

definition utf16_cu_to_byte_idx :: "str \<Rightarrow> nat \<Rightarrow> nat option" where
  "utf16_cu_to_byte_idx s target_utf16 = utf16_cu_loop (str_chars s) target_utf16 0 0"

definition is_crlf_split_point :: "str \<Rightarrow> nat \<Rightarrow> bool" where
  "is_crlf_split_point s splitpoint \<longleftrightarrow>
     splitpoint > 0 \<and> splitpoint < length s \<and> s ! (splitpoint - 1) = CR \<and> s ! splitpoint = NL"

definition adjust_splitpoint_for_crlf :: "str \<Rightarrow> nat \<Rightarrow> nat \<Rightarrow> nat \<Rightarrow> nat" where
  "adjust_splitpoint_for_crlf s minsplit maxsplit splitpoint =
     (if \<not> is_crlf_split_point s splitpoint then splitpoint
      else if splitpoint < maxsplit then splitpoint + 1
      else if splitpoint > minsplit then splitpoint - 1
      else splitpoint)"

definition find_leaf_split :: "byte_search \<Rightarrow> str \<Rightarrow> nat \<Rightarrow> nat option" where
  "find_leaf_split lib s minsplit = do {
     d \<leftarrow> usize_sub (length s) MIN_LEAF;
     let maxsplit = min MAX_LEAF d;
     m \<leftarrow> usize_sub minsplit 1;
     bytes \<leftarrow> bytes_slice s m maxsplit;
     let splitpoint = (case bs_memrchr lib NL bytes of
         Some pos \<Rightarrow> minsplit + pos
       | None \<Rightarrow> clamp_to_char_boundary s maxsplit);
     Some (adjust_splitpoint_for_crlf s minsplit maxsplit splitpoint) }"

definition find_leaf_split_for_bulk :: "byte_search \<Rightarrow> str \<Rightarrow> nat option" where
  "find_leaf_split_for_bulk lib s = find_leaf_split lib s MIN_LEAF"

definition find_leaf_split_for_merge :: "byte_search \<Rightarrow> str \<Rightarrow> nat option" where
  "find_leaf_split_for_merge lib s = do {
     d \<leftarrow> usize_sub (length s) MAX_LEAF;
     find_leaf_split lib s (max MIN_LEAF d) }"


section \<open>The leaf and its info\<close>

definition string_is_ok_child :: "str \<Rightarrow> bool" where
  "string_is_ok_child s \<longleftrightarrow> length s \<ge> MIN_LEAF"

definition string_push_maybe_split ::
  "byte_search \<Rightarrow> str \<Rightarrow> str \<Rightarrow> interval \<Rightarrow> (str \<times> str option) option" where
  "string_push_maybe_split lib self other iv = do {
     let (start, end) = start_end iv;
     sub \<leftarrow> str_slice other start end;
     let self = self @ sub;
     if length self \<le> MAX_LEAF then Some (self, None)
     else do {
       splitpoint \<leftarrow> find_leaf_split_for_merge lib self;
       right_str \<leftarrow> str_slice self splitpoint (length self);
       self \<leftarrow> str_slice self 0 splitpoint;
       Some (self, Some right_str) } }"

record rope_info =
  ri_lines :: nat
  ri_utf16_size :: nat
  ri_chars :: nat

definition rope_info_accumulate :: "rope_info \<Rightarrow> rope_info \<Rightarrow> rope_info" where
  "rope_info_accumulate a b =
     \<lparr>ri_lines = ri_lines a + ri_lines b, ri_utf16_size = ri_utf16_size a + ri_utf16_size b,
      ri_chars = ri_chars a + ri_chars b\<rparr>"

definition is_ascii :: "str \<Rightarrow> bool" where
  "is_ascii s \<longleftrightarrow> list_all (\<lambda>b. b < 0x80) s"

definition rope_info_compute :: "byte_search \<Rightarrow> str \<Rightarrow> rope_info" where
  "rope_info_compute lib s =
     (if is_ascii s
      then \<lparr>ri_lines = count_newlines lib s, ri_utf16_size = length s, ri_chars = length s\<rparr>
      else \<lparr>ri_lines = count_newlines lib s, ri_utf16_size = count_utf16_code_units s,
            ri_chars = count_chars s\<rparr>)"

definition rope_info_identity :: rope_info where
  "rope_info_identity = \<lparr>ri_lines = 0, ri_utf16_size = 0, ri_chars = 0\<rparr>"

text \<open>The trait instances as the record that the tree takes.\<close>

definition rope_ni :: "byte_search \<Rightarrow> (str, rope_info) node_info" where
  "rope_ni lib = \<lparr>leaf_len = length, leaf_is_ok_child = string_is_ok_child,
     leaf_push_maybe_split = string_push_maybe_split lib, leaf_default = [],
     ni_accumulate = rope_info_accumulate, ni_compute_info = rope_info_compute lib\<rparr>"

type_synonym rope = "(str, rope_info) node"


section \<open>Rope builders\<close>

record rope_builder =
  rb_tree :: "(str, rope_info) tree_builder"
  rb_pending :: str

definition rope_builder_new :: rope_builder where
  "rope_builder_new = \<lparr>rb_tree = [], rb_pending = []\<rparr>"

definition flush_full_leaf :: "byte_search \<Rightarrow> rope_builder \<Rightarrow> rope_builder option" where
  "flush_full_leaf lib rb = do {
     splitpoint \<leftarrow> find_leaf_split_for_merge lib (rb_pending rb);
     remainder \<leftarrow> str_slice (rb_pending rb) splitpoint (length (rb_pending rb));
     leaf \<leftarrow> str_slice (rb_pending rb) 0 splitpoint;
     tree \<leftarrow> tb_push_leaf (rope_ni lib) (rb_tree rb) leaf;
     Some \<lparr>rb_tree = tree, rb_pending = remainder\<rparr> }"

function rb_push_str :: "byte_search \<Rightarrow> rope_builder \<Rightarrow> str \<Rightarrow> rope_builder option" where
  "rb_push_str lib rb text =
     (if text = [] then Some rb
      else do {
        room \<leftarrow> usize_sub (MAX_LEAF + MIN_LEAF) (length (rb_pending rb));
        let n = clamp_to_char_boundary text (min (length text) room);
        rassert (n > 0);
        pre \<leftarrow> str_slice text 0 n;
        rest \<leftarrow> str_slice text n (length text);
        let rb = rb\<lparr>rb_pending := rb_pending rb @ pre\<rparr>;
        rb \<leftarrow> (if length (rb_pending rb) > MAX_LEAF then flush_full_leaf lib rb else Some rb);
        rb_push_str lib rb rest })"
  by pat_completeness auto
termination
  by (relation "measure (\<lambda>(lib, rb, text). length text)")
    (auto simp: str_slice_def split: if_splits)

declare rb_push_str.simps [simp del]

function push_owned_loop ::
  "byte_search \<Rightarrow> (str, rope_info) tree_builder \<Rightarrow> str \<Rightarrow> ((str, rope_info) tree_builder \<times> str) option"
  where
  "push_owned_loop lib tree rest =
     (if length rest > MAX_LEAF then do {
        splitpoint \<leftarrow> find_leaf_split_for_bulk lib rest;
        rassert (splitpoint > 0);
        leaf \<leftarrow> str_slice rest 0 splitpoint;
        tree \<leftarrow> tb_push_leaf (rope_ni lib) tree leaf;
        rest' \<leftarrow> str_slice rest splitpoint (length rest);
        push_owned_loop lib tree rest' }
      else Some (tree, rest))"
  by pat_completeness auto
termination
  by (relation "measure (\<lambda>(lib, tree, rest). length rest)")
    (auto simp: str_slice_def split: if_splits)

declare push_owned_loop.simps [simp del]

definition rb_push_owned :: "byte_search \<Rightarrow> rope_builder \<Rightarrow> str \<Rightarrow> rope_builder option" where
  "rb_push_owned lib rb text =
     (if length text \<le> MAX_LEAF then
        (if text \<noteq> [] then do {
           tree \<leftarrow> tb_push_leaf (rope_ni lib) (rb_tree rb) text;
           Some (rb\<lparr>rb_tree := tree\<rparr>) }
         else Some rb)
      else do {
        (tree, rest) \<leftarrow> push_owned_loop lib (rb_tree rb) text;
        if rest \<noteq> [] then do {
          tree \<leftarrow> tb_push_leaf (rope_ni lib) tree rest;
          Some (rb\<lparr>rb_tree := tree\<rparr>) }
        else Some (rb\<lparr>rb_tree := tree\<rparr>) })"

definition rb_finish :: "byte_search \<Rightarrow> rope_builder \<Rightarrow> rope option" where
  "rb_finish lib rb = do {
     tree \<leftarrow> (if rb_pending rb \<noteq> [] then tb_push_leaf (rope_ni lib) (rb_tree rb) (rb_pending rb)
              else Some (rb_tree rb));
     tb_build (rope_ni lib) tree }"

text \<open>
  \<^verbatim>\<open>TreeBuilder::push_str\<close>.  A split point 0 would make the loop run forever; that is \<open>None\<close> too,
  and \<open>find_leaf_split_spec\<close> below excludes it.
\<close>

function tb_push_str_loop ::
  "byte_search \<Rightarrow> (str, rope_info) tree_builder \<Rightarrow> str \<Rightarrow> (str, rope_info) tree_builder option" where
  "tb_push_str_loop lib st s =
     (if s = [] then Some st
      else do {
        splitpoint \<leftarrow> (if length s > MAX_LEAF then find_leaf_split_for_bulk lib s
                        else Some (length s));
        leaf \<leftarrow> str_slice s 0 splitpoint;
        st \<leftarrow> tb_push_leaf (rope_ni lib) st leaf;
        rest \<leftarrow> str_slice s splitpoint (length s);
        if splitpoint = 0 then None else tb_push_str_loop lib st rest })"
  by pat_completeness auto
termination
  by (relation "measure (\<lambda>(lib, st, s). length s)")
    (auto simp: str_slice_def split: if_splits)

declare tb_push_str_loop.simps [simp del]

definition tb_push_str ::
  "byte_search \<Rightarrow> (str, rope_info) tree_builder \<Rightarrow> str \<Rightarrow> (str, rope_info) tree_builder option" where
  "tb_push_str lib st s =
     (if length s \<le> MAX_LEAF then
        (if s \<noteq> [] then tb_push_leaf (rope_ni lib) st s else Some st)
      else tb_push_str_loop lib st s)"

end
