(* ===== verification/Rope_Text_Laws.thy ===== *)
theory Rope_Text_Laws
  imports Rope_Text
begin

text \<open>
  Correctness of the text leaves and of the rope builders.  Leaves are valid UTF-8 of at most
  \<open>MAX_LEAF\<close> bytes; a split point is a character boundary between its bounds that separates no
  CR-LF pair.  The sublocale \<open>byte_search_laws \<subseteq> leaf_laws\<close> makes every lemma on trees available
  for ropes, and \<open>naive_search\<close> is an instance of the byte-search contract.
\<close>

section \<open>Laws of bytes and strings\<close>

lemma and_C0: "(b :: byte) AND 0xC0 = b div 64 * 64"
proof -
  have "b AND 0xC0 = push_bit 6 (drop_bit 6 b)"
  proof (rule bit_word_eqI)
    fix n
    assume "n < LENGTH(8)"
    then consider "n = 0" | "n = 1" | "n = 2" | "n = 3" | "n = 4" | "n = 5" | "n = 6" | "n = 7"
      by fastforce
    then show "bit (b AND 0xC0) n = bit (push_bit 6 (drop_bit 6 b)) n"
      by cases (simp_all add: bit_simps)
  qed
  then show ?thesis by (simp add: push_bit_eq_mult drop_bit_eq_div)
qed

lemma is_cont_range: "is_cont b \<longleftrightarrow> 0x80 \<le> b \<and> b < 0xC0"
proof -
  have bd: "unat b < 256" using unsigned_less [of b, where ?'a = nat] by simp
  have "unat (b div 64) * unat (64 :: byte) < 2 ^ LENGTH(8)"
    using bd by (simp add: unat_div_distrib)
  then have u: "unat (b div 64 * 64) = unat b div 64 * 64"
    by (simp add: unat_mult_lem [THEN iffD1] unat_div_distrib)
  have arith: "k * 64 + r = n \<Longrightarrow> r < 64 \<Longrightarrow> (k * 64 = 128) = (128 \<le> n \<and> n < 192)"
    for k r n :: nat
    by arith
  have "is_cont b \<longleftrightarrow> unat (b div 64 * 64) = 128"
    by (simp add: is_cont_def and_C0 word_unat_eq_iff)
  also have "\<dots> \<longleftrightarrow> 128 \<le> unat b \<and> unat b < 192"
    using arith [of "unat b div 64" "unat b mod 64" "unat b"] by (simp add: u)
  finally show ?thesis by (simp add: word_le_nat_alt word_less_nat_alt)
qed

lemma lead_sint: "sint (b :: byte) \<ge> - 0x40 \<longleftrightarrow> \<not> is_cont b"
proof -
  have bd: "0 \<le> uint b" "uint b < 256" using uint_lt2p [of b] by simp_all
  then have "(uint b + 128) mod 256 = (if uint b < 128 then uint b + 128 else uint b - 128)"
    using minus_mod_self2 [of "uint b + 128" 256] mod_pos_pos_trivial [of "uint b - 128" 256]
    by simp
  then have "sint b = (if uint b < 128 then uint b else uint b - 256)"
    by (simp add: sint_uint signed_take_bit_eq_take_bit_shift take_bit_eq_mod)
  moreover have "- 64 \<le> uint b" using bd(1) by linarith
  ultimately have "sint b \<ge> - 0x40 \<longleftrightarrow> \<not> (128 \<le> uint b \<and> uint b < 192)"
    by auto
  then show ?thesis by (simp add: is_cont_range word_le_def word_less_def)
qed

lemmas byte_order = word_le_nat_alt word_less_nat_alt

lemma utf8_char_lead:
  assumes "utf8_char c"
  obtains a r where "c = a # r" "len_utf8_from_first_byte a = length c" "\<not> is_cont a"
    "\<forall>b \<in> set r. is_cont b" "length c \<le> 4"
  using assms
  by (cases c rule: utf8_char.cases)
    (auto simp: len_utf8_from_first_byte_def is_cont_range byte_order)

lemma str_chars_append: "utf8_char c \<Longrightarrow> str_chars (c @ s) = c # str_chars s"
  by (erule utf8_char_lead) simp

lemma utf8_valid_Nil [simp]: "utf8_valid []"
  by (simp add: utf8_valid_def)

lemma utf8_valid_append_char: "utf8_char c \<Longrightarrow> utf8_valid (c @ s) \<longleftrightarrow> utf8_valid s"
  by (simp add: utf8_valid_def str_chars_append)

lemma concat_str_chars: "concat (str_chars s) = s"
  by (induction s rule: str_chars.induct) (simp_all only: str_chars.simps concat.simps append_take_drop_id)

lemma utf8_induct [consumes 1, case_names Nil Char]:
  assumes "utf8_valid s" and "P []"
    and step: "\<And>c s. utf8_char c \<Longrightarrow> utf8_valid s \<Longrightarrow> P s \<Longrightarrow> P (c @ s)"
  shows "P s"
proof -
  have "list_all utf8_char cs \<Longrightarrow> utf8_valid (concat cs) \<and> P (concat cs)" for cs
    by (induction cs) (auto simp: assms(2) step utf8_valid_append_char)
  with assms(1) show ?thesis
    by (metis utf8_valid_def concat_str_chars)
qed

lemma utf8_valid_append: "utf8_valid s \<Longrightarrow> utf8_valid (s @ t) \<longleftrightarrow> utf8_valid t"
  by (induction s rule: utf8_induct) (simp_all add: utf8_valid_append_char)

lemma utf8_valid_concat: "(\<And>s. s \<in> set ss \<Longrightarrow> utf8_valid s) \<Longrightarrow> utf8_valid (concat ss)"
  by (induction ss) (simp_all add: utf8_valid_append)

lemma utf8_valid_lead: "utf8_valid s \<Longrightarrow> starts_ok (\<lambda>b. \<not> is_cont b) s"
  by (induction s rule: utf8_induct) (auto simp: starts_ok_def elim: utf8_char_lead)

lemma is_char_boundary_append_char:
  assumes "utf8_char c" "utf8_valid s" "is_char_boundary (c @ s) i"
  shows "i = 0 \<or> (length c \<le> i \<and> is_char_boundary s (i - length c))"
proof -
  obtain a r where c: "c = a # r" "\<forall>b \<in> set r. is_cont b" using assms(1) by (rule utf8_char_lead)
  show ?thesis
  proof (cases "i < length c")
    case True
    then show ?thesis
      using assms(3) c by (cases i) (auto simp: is_char_boundary_def nth_append)
  next
    case False
    then show ?thesis using assms(3) by (auto simp: is_char_boundary_def nth_append)
  qed
qed

lemma utf8_valid_cut:
  "utf8_valid s \<Longrightarrow> is_char_boundary s i \<Longrightarrow> utf8_valid (take i s) \<and> utf8_valid (drop i s)"
proof (induction s arbitrary: i rule: utf8_induct)
  case (Char c s)
  from is_char_boundary_append_char [OF Char(1,2,4)] show ?case
    using Char by (auto simp: utf8_valid_append_char)
qed simp

lemma is_char_boundary_le: "is_char_boundary s i \<Longrightarrow> i \<le> length s"
  by (auto simp: is_char_boundary_def)

lemma is_char_boundary_0 [simp]: "is_char_boundary s 0" "is_char_boundary s (length s)"
  by (simp_all add: is_char_boundary_def)

lemma is_char_boundary_cut_ok:
  "utf8_valid s \<Longrightarrow> is_char_boundary s i \<longleftrightarrow> cut_ok (\<lambda>b. \<not> is_cont b) s i"
  using utf8_valid_lead [of s] by (cases s) (auto simp: is_char_boundary_def cut_ok_def starts_ok_def)

lemma utf8_valid_slice:
  assumes "utf8_valid s" "b \<le> e" "is_char_boundary s b" "is_char_boundary s e"
  shows "utf8_valid (slice s b e)"
proof -
  have "utf8_valid (take e s)" "utf8_valid (take b s)"
    using utf8_valid_cut assms by blast+
  then show ?thesis
    using take_slice [OF assms(2), of s] utf8_valid_append by metis
qed

lemma str_slice_spec:
  assumes "utf8_valid s" "b \<le> e" "is_char_boundary s b" "is_char_boundary s e"
  shows "str_slice s b e = Some (slice s b e)" "utf8_valid (slice s b e)"
  using assms by (simp_all add: str_slice_def utf8_valid_slice)

lemma str_slice_halves:
  assumes "utf8_valid s" "is_char_boundary s k"
  shows "str_slice s 0 k = Some (take k s)" "str_slice s k (length s) = Some (drop k s)"
    "utf8_valid (take k s)" "utf8_valid (drop k s)"
  using assms utf8_valid_cut is_char_boundary_le by (auto simp: str_slice_def slice_def)

lemma boundary_near:
  "utf8_valid s \<Longrightarrow> i \<le> length s \<Longrightarrow> \<exists>j \<le> i. is_char_boundary s j \<and> i \<le> j + 3"
proof (induction s arbitrary: i rule: utf8_induct)
  case (Char c s)
  obtain "length c \<le> 4" using Char(1) by (rule utf8_char_lead)
  show ?case
  proof (cases "i < length c")
    case True
    with \<open>length c \<le> 4\<close> show ?thesis by (intro exI [of _ 0]) simp
  next
    case False
    then obtain j where j: "j \<le> i - length c" "is_char_boundary s j" "i - length c \<le> j + 3"
      using Char.IH [of "i - length c"] Char.prems by (auto simp: le_diff_conv)
    have "starts_ok (\<lambda>b. \<not> is_cont b) s" using Char(2) by (rule utf8_valid_lead)
    with j False show ?thesis
      by (intro exI [of _ "j + length c"])
        (auto simp: is_char_boundary_def nth_append starts_ok_def hd_conv_nth)
  qed
qed (auto simp: is_char_boundary_def)

lemma clamp_loop_spec:
  "is_char_boundary s (clamp_loop s n) \<and> clamp_loop s n \<le> n
    \<and> (\<forall>j. is_char_boundary s j \<longrightarrow> j \<le> n \<longrightarrow> j \<le> clamp_loop s n)"
  by (induction n) (auto simp: le_Suc_eq)

lemma clamp_to_char_boundary_spec:
  "is_char_boundary s (clamp_to_char_boundary s n)" "clamp_to_char_boundary s n \<le> n"
  "is_char_boundary s j \<Longrightarrow> j \<le> n \<Longrightarrow> j \<le> clamp_to_char_boundary s n"
  using clamp_loop_spec [of s "min n (length s)"] is_char_boundary_le [of s j]
  by (auto simp: clamp_to_char_boundary_def)

lemma clamp_near:
  assumes "utf8_valid s" "n \<le> length s"
  shows "n \<le> clamp_to_char_boundary s n + 3"
  using boundary_near [OF assms] clamp_to_char_boundary_spec(3) [of s _ n] by fastforce


lemma boundary_ascii:
  assumes "utf8_valid s" "i < length s" "s ! i < 0x80"
  shows "is_char_boundary s i" "is_char_boundary s (Suc i)"
proof -
  have "\<not> is_cont (s ! i)" using assms(3) by (auto simp: is_cont_range byte_order)
  then show i: "is_char_boundary s i" using assms(2) by (simp add: is_char_boundary_def)
  have "drop i s = [s ! i] @ drop (Suc i) s" using assms(2) by (simp add: Cons_nth_drop_Suc)
  moreover have "utf8_valid (drop i s)" using utf8_valid_cut [OF assms(1) i] by simp
  moreover have "utf8_char [s ! i]" using assms(3) by simp
  ultimately have "utf8_valid (drop (Suc i) s)" using utf8_valid_append_char by metis
  then show "is_char_boundary s (Suc i)"
    using utf8_valid_lead [of "drop (Suc i) s"] assms(2)
    by (auto simp: is_char_boundary_def starts_ok_def hd_drop_conv_nth)
qed


section \<open>The split point\<close>

text \<open>
  A split point lies between its bounds, on a character boundary and never between a carriage
  return and its newline, provided the window is at least three bytes wide.
\<close>

definition split_window :: "str \<Rightarrow> nat \<Rightarrow> nat \<Rightarrow> bool" where
  "split_window s minsplit maxsplit \<longleftrightarrow>
     0 < minsplit \<and> minsplit + 3 \<le> maxsplit \<and> maxsplit < length s"

lemma split_at_newline:
  assumes "utf8_valid s" "0 < sp" "sp \<le> length s" "s ! (sp - 1) = NL"
  shows "is_char_boundary s sp" "adjust_splitpoint_for_crlf s a b sp = sp"
    "\<not> is_crlf_split_point s sp"
proof -
  show "is_char_boundary s sp" using boundary_ascii(2) [of s "sp - 1"] assms by simp
  show crlf: "\<not> is_crlf_split_point s sp" using assms(4) by (simp add: is_crlf_split_point_def)
  then show "adjust_splitpoint_for_crlf s a b sp = sp"
    by (simp add: adjust_splitpoint_for_crlf_def)
qed

lemma split_at_clamp:
  assumes "utf8_valid s" "split_window s a m" "\<forall>i. a - 1 \<le> i \<longrightarrow> i < m \<longrightarrow> s ! i \<noteq> NL"
  defines "k \<equiv> adjust_splitpoint_for_crlf s a m (clamp_to_char_boundary s m)"
  shows "a \<le> k" "k \<le> m" "is_char_boundary s k" "\<not> is_crlf_split_point s k"
proof -
  define sp where "sp = clamp_to_char_boundary s m"
  have sp: "a \<le> sp" "sp \<le> m" "is_char_boundary s sp"
    using clamp_near [OF assms(1), of m] clamp_to_char_boundary_spec [of s m] assms(2)
    by (auto simp: sp_def split_window_def)
  have "a \<le> k \<and> k \<le> m \<and> is_char_boundary s k \<and> \<not> is_crlf_split_point s k"
  proof (cases "is_crlf_split_point s sp")
    case False
    then have "k = sp" by (simp add: k_def sp_def [symmetric] adjust_splitpoint_for_crlf_def)
    with sp False show ?thesis by simp
  next
    case True
    then have crlf: "s ! (sp - 1) = CR" "s ! sp = NL" "0 < sp" "sp < length s"
      by (simp_all add: is_crlf_split_point_def)
    have "sp = m" using crlf(2) sp assms(3) by (metis diff_le_self le_trans nless_le)
    then have k: "k = sp - 1" "a \<le> k"
      using True assms(2)
      by (auto simp: k_def sp_def [symmetric] adjust_splitpoint_for_crlf_def split_window_def)
    have "is_char_boundary s k" using boundary_ascii(1) [of s k] assms(1) crlf k by simp
    moreover have "\<not> is_crlf_split_point s k" using crlf k by (simp add: is_crlf_split_point_def)
    ultimately show ?thesis using k sp by simp
  qed
  then show "a \<le> k" "k \<le> m" "is_char_boundary s k" "\<not> is_crlf_split_point s k" by simp_all
qed

context byte_search_laws
begin

lemma find_leaf_split_spec:
  assumes valid: "utf8_valid s" and len: "MIN_LEAF \<le> length s"
    and m: "m = min MAX_LEAF (length s - MIN_LEAF)" and window: "split_window s a m"
  obtains k where "find_leaf_split lib s a = Some k" "a \<le> k" "k \<le> m" "is_char_boundary s k"
    "\<not> is_crlf_split_point s k"
proof -
  let ?bytes = "slice s (a - 1) m"
  have w: "0 < a" "a - 1 \<le> m" "m < length s" using window by (auto simp: split_window_def)
  have nth: "?bytes ! j = s ! (a - 1 + j)" if "j < m - (a - 1)" for j
    using that w by (simp add: slice_def)
  have eq: "find_leaf_split lib s a = Some (adjust_splitpoint_for_crlf s a m
      (case bs_memrchr lib NL ?bytes of Some pos \<Rightarrow> a + pos | None \<Rightarrow> clamp_to_char_boundary s m))"
    using len w by (simp add: find_leaf_split_def bytes_slice_def m [symmetric] del: min.bounded_iff)
  show thesis
  proof (cases "bs_memrchr lib NL ?bytes")
    case (Some pos)
    then have pos: "pos < m - (a - 1)" "s ! (a + pos - 1) = NL"
      using memrchr_Some [OF Some] nth [of pos] w by auto
    then show thesis
      using that [of "a + pos"] split_at_newline(1,3) [OF valid, of "a + pos"]
        split_at_newline(2) [OF valid, of "a + pos" a m] eq Some w by auto
  next
    case None
    then have "\<forall>i. a - 1 \<le> i \<longrightarrow> i < m \<longrightarrow> s ! i \<noteq> NL"
      using memrchr_None [of NL ?bytes] w by (auto simp: set_slice_nth)
    from split_at_clamp [OF valid window this] that eq None show thesis by simp
  qed
qed

text \<open>The two callers: a merge leaves both halves big enough and no bigger than a leaf.\<close>

lemma find_leaf_split_for_merge_spec:
  assumes "utf8_valid s" "MAX_LEAF < length s" "length s \<le> MAX_LEAF + MIN_LEAF"
  obtains k where "find_leaf_split_for_merge lib s = Some k" "MIN_LEAF \<le> k" "k \<le> MAX_LEAF"
    "MIN_LEAF \<le> length s - k" "length s - k \<le> MAX_LEAF" "k \<le> length s" "is_char_boundary s k"
    "\<not> is_crlf_split_point s k"
proof -
  have a: "max MIN_LEAF (length s - MAX_LEAF) = MIN_LEAF"
    using assms by (simp add: MIN_LEAF_def MAX_LEAF_def)
  show thesis
    by (rule find_leaf_split_spec [OF assms(1) _ refl, of MIN_LEAF])
      (use assms a that in \<open>auto simp: split_window_def MIN_LEAF_def MAX_LEAF_def
        find_leaf_split_for_merge_def\<close>)
qed

lemma find_leaf_split_for_bulk_spec:
  assumes "utf8_valid s" "MAX_LEAF < length s"
  obtains k where "find_leaf_split_for_bulk lib s = Some k" "MIN_LEAF \<le> k" "k \<le> MAX_LEAF"
    "k \<le> length s - MIN_LEAF" "is_char_boundary s k" "\<not> is_crlf_split_point s k"
  by (rule find_leaf_split_spec [OF assms(1) _ refl, of MIN_LEAF])
    (use assms that in \<open>auto simp: split_window_def MIN_LEAF_def MAX_LEAF_def
      find_leaf_split_for_bulk_def\<close>)

end


section \<open>The contract of the tree, for text\<close>

definition str_leaf_wf :: "str \<Rightarrow> bool" where
  "str_leaf_wf s \<longleftrightarrow> utf8_valid s \<and> length s \<le> MAX_LEAF"

definition is_lead :: "byte \<Rightarrow> bool" where
  "is_lead b \<longleftrightarrow> \<not> is_cont b"

text \<open>The info of a text: newlines, UTF-16 code units and characters.\<close>

definition text_info :: "str \<Rightarrow> rope_info" where
  "text_info s = \<lparr>ri_lines = cnt (\<lambda>b. b = NL) s, ri_utf16_size = count_utf16_code_units s,
     ri_chars = cnt is_lead s\<rparr>"

lemma count_utf16_fold:
  "fold (\<lambda>b utf16_count.
       let utf16_count = (if sint b \<ge> - 0x40 then utf16_count + 1 else utf16_count)
       in if b \<ge> 0xf0 then utf16_count + 1 else utf16_count) s n
    = n + cnt is_lead s + cnt (\<lambda>b :: byte. b \<ge> 0xf0) s"
  unfolding lead_sint by (induction s arbitrary: n) (auto simp: is_lead_def Let_def)

lemma count_utf16_eq:
  "count_utf16_code_units s = cnt is_lead s + cnt (\<lambda>b. b \<ge> 0xf0) s"
  using count_utf16_fold [of s 0] by (simp add: count_utf16_code_units_def)

lemma is_ascii_counts:
  assumes "is_ascii s"
  shows "cnt is_lead s = length s" "cnt (\<lambda>b. b \<ge> 0xf0) s = 0"
  using assms by (induction s) (auto simp: is_ascii_def is_lead_def is_cont_range byte_order)

lemma is_lead_mask: "(\<lambda>b. b AND 0xC0 \<noteq> 0x80) = is_lead"
  by (simp add: fun_eq_iff is_lead_def is_cont_def)

lemma starts_lead: "utf8_valid s \<Longrightarrow> starts_ok is_lead s"
  using utf8_valid_lead [of s] by (simp add: starts_ok_def is_lead_def)

lemma cut_lead: "utf8_valid s \<Longrightarrow> cut_ok is_lead s i \<longleftrightarrow> is_char_boundary s i"
  unfolding is_lead_def by (rule is_char_boundary_cut_ok [symmetric])

context byte_search_laws
begin

lemma rope_info_compute_text: "rope_info_compute lib s = text_info s"
  using is_ascii_counts [of s] is_lead_mask
  by (simp add: rope_info_compute_def text_info_def count_newlines_def count count_utf16_eq
      count_chars_def)

lemma string_push_spec:
  assumes l: "str_leaf_wf l" and other: "str_leaf_wf other" and be: "b \<le> e"
    and cuts: "is_char_boundary other b" "is_char_boundary other e"
    and small: "\<not> (string_is_ok_child l \<and> string_is_ok_child other)"
  obtains "string_push_maybe_split lib l other (mk_iv b e) = Some (l @ slice other b e, None)"
      "str_leaf_wf (l @ slice other b e)"
  | l' r where "string_push_maybe_split lib l other (mk_iv b e) = Some (l', Some r)"
      "l' @ r = l @ slice other b e" "str_leaf_wf l'" "str_leaf_wf r" "string_is_ok_child l'"
      "string_is_ok_child r" "MAX_LEAF < length (l @ slice other b e)"
proof -
  define s where "s = l @ slice other b e"
  have sl: "str_slice other b e = Some (slice other b e)" "utf8_valid (slice other b e)"
    using str_slice_spec [of other b e] other be cuts by (simp_all add: str_leaf_wf_def)
  have valid: "utf8_valid s" using l sl(2) by (simp add: s_def str_leaf_wf_def utf8_valid_append)
  have len: "length s \<le> MAX_LEAF + MIN_LEAF"
    using l other small by (auto simp: s_def str_leaf_wf_def string_is_ok_child_def)
  have eq: "string_push_maybe_split lib l other (mk_iv b e) =
      (if length s \<le> MAX_LEAF then Some (s, None)
       else do {
         splitpoint \<leftarrow> find_leaf_split_for_merge lib s;
         right_str \<leftarrow> str_slice s splitpoint (length s);
         s \<leftarrow> str_slice s 0 splitpoint;
         Some (s, Some right_str) })"
    unfolding string_push_maybe_split_def start_end_def s_def by (simp add: sl(1) Let_def)
  show thesis
  proof (cases "length s \<le> MAX_LEAF")
    case True
    then show thesis
      using that(1) valid eq by (simp add: str_leaf_wf_def s_def)
  next
    case False
    then obtain k where k: "find_leaf_split_for_merge lib s = Some k" "MIN_LEAF \<le> k" "k \<le> MAX_LEAF"
      "MIN_LEAF \<le> length s - k" "length s - k \<le> MAX_LEAF" "k \<le> length s" "is_char_boundary s k"
      using find_leaf_split_for_merge_spec [OF valid _ len] by auto
    note halves = str_slice_halves [OF valid k(7)]
    show thesis
    proof (rule that(2) [of "take k s" "drop k s"])
      show "string_push_maybe_split lib l other (mk_iv b e) = Some (take k s, Some (drop k s))"
        using eq False k(1) halves(1,2) by simp
      show "take k s @ drop k s = l @ slice other b e"
        unfolding s_def [symmetric] by (rule append_take_drop_id)
      show "MAX_LEAF < length (l @ slice other b e)" using False by (simp add: s_def)
    qed (use False k halves in \<open>auto simp: str_leaf_wf_def string_is_ok_child_def\<close>)
  qed
qed

end

sublocale byte_search_laws \<subseteq> str: leaf_laws "rope_ni lib" str_leaf_wf id is_lead text_info
proof unfold_locales
  fix l other :: str and b e
  assume leaf: "str_leaf_wf l" "str_leaf_wf other" "b \<le> e"
    and cuts: "cut_ok is_lead (id other) b" "cut_ok is_lead (id other) e"
    and small: "\<not> (leaf_is_ok_child (rope_ni lib) l \<and> leaf_is_ok_child (rope_ni lib) other)"
  show "\<exists>l' r. leaf_push_maybe_split (rope_ni lib) l other (mk_iv b e) = Some (l', r) \<and>
      str_leaf_wf l' \<and>
      id l' @ (case r of None \<Rightarrow> [] | Some r' \<Rightarrow> id r') = id l @ slice (id other) b e \<and>
      (\<forall>r'. r = Some r' \<longrightarrow> str_leaf_wf r' \<and> leaf_is_ok_child (rope_ni lib) l'
        \<and> leaf_is_ok_child (rope_ni lib) r') \<and>
      (id l = [] \<longrightarrow> r = None) \<and>
      (leaf_is_ok_child (rope_ni lib) l \<or>
       leaf_is_ok_child (rope_ni lib) other \<and> b = 0 \<and> e = length (id other) \<longrightarrow>
       leaf_is_ok_child (rope_ni lib) l')"
    by (rule string_push_spec [of l other b e])
      (use leaf cuts small in \<open>auto simp: rope_ni_def cut_lead str_leaf_wf_def string_is_ok_child_def\<close>)
qed (auto simp: rope_ni_def str_leaf_wf_def string_is_ok_child_def MIN_LEAF_def starts_lead
    rope_info_compute_text text_info_def rope_info_accumulate_def count_utf16_eq)



section \<open>The rope builders\<close>

definition rb_wf :: "byte_search \<Rightarrow> rope_builder \<Rightarrow> bool" where
  "rb_wf lib rb \<longleftrightarrow> stack_wf (rope_ni lib) str_leaf_wf (rb_tree rb) \<and> str_leaf_wf (rb_pending rb)"

definition rb_text :: "rope_builder \<Rightarrow> str" where
  "rb_text rb = stack_content id (rb_tree rb) @ rb_pending rb"

lemma rope_builder_new_wf: "rb_wf lib rope_builder_new" "rb_text rope_builder_new = []"
  by (simp_all add: rb_wf_def rb_text_def rope_builder_new_def str_leaf_wf_def)

context byte_search_laws
begin

abbreviation st_wf :: "(str, rope_info) tree_builder \<Rightarrow> bool" where
  "st_wf st \<equiv> stack_wf (rope_ni lib) str_leaf_wf st"

lemma tb_push_leafE:
  assumes "st_wf st" "str_leaf_wf s"
  obtains st' where "tb_push_leaf (rope_ni lib) st s = Some st'" "st_wf st'"
    "stack_content id st' = stack_content id st @ s"
  using str.tb_pushE [OF assms(1) str.wf_from_leaf(1) [OF assms(2)]]
  by (auto simp: tb_push_leaf_def str.wf_from_leaf(2))

lemma tb_push_leaf_ex:
  assumes "st_wf st" "str_leaf_wf s"
  shows "\<exists>st'. tb_push_leaf (rope_ni lib) st s = Some st' \<and> st_wf st'
    \<and> stack_content id st' = stack_content id st @ s"
  using assms by (metis tb_push_leafE)

lemma flush_full_leaf_spec:
  assumes "st_wf st" "utf8_valid p" "MAX_LEAF < length p" "length p \<le> MAX_LEAF + MIN_LEAF"
  obtains rb' where "flush_full_leaf lib \<lparr>rb_tree = st, rb_pending = p\<rparr> = Some rb'" "rb_wf lib rb'"
    "rb_text rb' = stack_content id st @ p"
proof -
  obtain k where k: "find_leaf_split_for_merge lib p = Some k" "MIN_LEAF \<le> k" "k \<le> MAX_LEAF"
    "MIN_LEAF \<le> length p - k" "length p - k \<le> MAX_LEAF" "k \<le> length p" "is_char_boundary p k"
    using find_leaf_split_for_merge_spec [OF assms(2-4)] .
  note halves = str_slice_halves [OF assms(2) k(7)]
  have leaf: "str_leaf_wf (take k p)" "str_leaf_wf (drop k p)"
    using halves k by (simp_all add: str_leaf_wf_def)
  obtain st' where "tb_push_leaf (rope_ni lib) st (take k p) = Some st'" "st_wf st'"
    "stack_content id st' = stack_content id st @ take k p"
    using assms(1) leaf(1) by (rule tb_push_leafE)
  with k(1) halves leaf that show thesis
    by (simp add: flush_full_leaf_def rb_wf_def rb_text_def)
qed

text \<open>
  \<^verbatim>\<open>RopeBuilder::push_str\<close> never panics, terminates and appends the text, whatever the chunks of
  text it is fed with.
\<close>

lemma rb_push_str_spec:
  "utf8_valid s \<Longrightarrow> rb_wf lib rb \<Longrightarrow>
    \<exists>rb'. rb_push_str lib rb s = Some rb' \<and> rb_wf lib rb' \<and> rb_text rb' = rb_text rb @ s"
proof (induction "length s" arbitrary: s rb rule: less_induct)
  case less
  show ?case
  proof (cases "s = []")
    case True
    with less.prems show ?thesis by (simp add: rb_push_str.simps)
  next
    case False
    let ?p = "rb_pending rb"
    define room where "room = MAX_LEAF + MIN_LEAF - length ?p"
    define n where "n = clamp_to_char_boundary s (min (length s) room)"
    have p: "utf8_valid ?p" "length ?p \<le> MAX_LEAF" and st: "st_wf (rb_tree rb)"
      using less.prems(2) by (simp_all add: rb_wf_def str_leaf_wf_def)
    have n: "is_char_boundary s n" "n \<le> length s" "n \<le> room"
      using clamp_to_char_boundary_spec [of s "min (length s) room"] by (auto simp: n_def)
    have pos: "0 < n"
    proof (cases "length s \<le> room")
      case True
      then have "length s \<le> n" using clamp_to_char_boundary_spec(3) [of s "length s"] by (simp add: n_def)
      with False show ?thesis by (cases s) auto
    next
      case False
      then show ?thesis
        using clamp_near [OF less.prems(1), of room] p(2)
        by (simp add: n_def room_def MAX_LEAF_def MIN_LEAF_def)
    qed
    note halves = str_slice_halves [OF less.prems(1) n(1)]
    define rb1 where "rb1 = \<lparr>rb_tree = rb_tree rb, rb_pending = ?p @ take n s\<rparr>"
    have upd: "rb\<lparr>rb_pending := ?p @ take n s\<rparr> = rb1" by (cases rb) (simp add: rb1_def)
    have len1: "length (rb_pending rb1) = length ?p + min (length s) n" by (simp add: rb1_def)
    have valid: "utf8_valid (?p @ take n s)" using p(1) halves(3) by (simp add: utf8_valid_append)
    obtain rb2 where rb2: "(if length (rb_pending rb1) > MAX_LEAF then flush_full_leaf lib rb1
        else Some rb1) = Some rb2" "rb_wf lib rb2" "rb_text rb2 = rb_text rb @ take n s"
    proof (cases "length (rb_pending rb1) > MAX_LEAF")
      case True
      have "length (?p @ take n s) \<le> MAX_LEAF + MIN_LEAF"
        using n(3) p(2) by (simp add: room_def)
      from flush_full_leaf_spec [OF st valid _ this] True obtain rb2 where
        "flush_full_leaf lib rb1 = Some rb2" "rb_wf lib rb2"
        "rb_text rb2 = stack_content id (rb_tree rb) @ ?p @ take n s"
        by (auto simp: rb1_def)
      with True that show thesis by (simp add: rb_text_def)
    next
      case False
      with that [of rb1] st valid show thesis by (simp add: rb1_def rb_wf_def rb_text_def str_leaf_wf_def)
    qed
    have "rb_push_str lib rb s = rb_push_str lib rb2 (drop n s)"
      using False pos p(2) rb2(1) halves
      by (subst rb_push_str.simps) (simp add: room_def [symmetric] n_def [symmetric] upd Let_def
        len1 [symmetric] split: if_splits)
    moreover have "length (drop n s) < length s" using pos False by simp
    ultimately show ?thesis
      using less.hyps [of "drop n s" rb2] halves(4) rb2 by auto
  qed
qed

lemma push_owned_loop_spec:
  "utf8_valid s \<Longrightarrow> st_wf st \<Longrightarrow>
    \<exists>st' r. push_owned_loop lib st s = Some (st', r) \<and> st_wf st' \<and> str_leaf_wf r
      \<and> stack_content id st' @ r = stack_content id st @ s"
proof (induction "length s" arbitrary: s st rule: less_induct)
  case less
  show ?case
  proof (cases "MAX_LEAF < length s")
    case False
    with less.prems show ?thesis by (simp add: push_owned_loop.simps str_leaf_wf_def)
  next
    case True
    then obtain k where k: "find_leaf_split_for_bulk lib s = Some k" "MIN_LEAF \<le> k" "k \<le> MAX_LEAF"
      "is_char_boundary s k"
      using find_leaf_split_for_bulk_spec [OF less.prems(1)] by blast
    have pos: "0 < k" using k(2) by (simp add: MIN_LEAF_def)
    note halves = str_slice_halves [OF less.prems(1) k(4)]
    have "str_leaf_wf (take k s)" using halves k by (simp add: str_leaf_wf_def)
    then obtain st1 where st1: "tb_push_leaf (rope_ni lib) st (take k s) = Some st1" "st_wf st1"
      "stack_content id st1 = stack_content id st @ take k s"
      using less.prems(2) tb_push_leafE by blast
    have "push_owned_loop lib st s = push_owned_loop lib st1 (drop k s)"
      using True k(1) pos halves st1 by (subst push_owned_loop.simps) simp
    moreover have "length (drop k s) < length s" using pos True by simp
    ultimately show ?thesis
      using less.hyps [of "drop k s" st1] halves(4) st1 by auto
  qed
qed

lemma tb_push_str_loop_owned:
  "utf8_valid s \<Longrightarrow> tb_push_str_loop lib st s = push_owned_loop lib st s \<bind>
    (\<lambda>(st', r). if r = [] then Some st' else tb_push_leaf (rope_ni lib) st' r)"
proof (induction "length s" arbitrary: s st rule: less_induct)
  case less
  show ?case
  proof (cases "MAX_LEAF < length s")
    case False
    then show ?thesis
      by (subst tb_push_str_loop.simps, subst push_owned_loop.simps)
        (auto simp: str_slice_def tb_push_str_loop.simps [of lib _ "[]"] bind_eq_Some_conv
          split: Option.bind_split)
  next
    case True
    then obtain k where k: "find_leaf_split_for_bulk lib s = Some k" "MIN_LEAF \<le> k"
      "is_char_boundary s k"
      using find_leaf_split_for_bulk_spec [OF less.prems(1)] by blast
    have pos: "0 < k" using k(2) by (simp add: MIN_LEAF_def)
    note halves = str_slice_halves [OF less.prems(1) k(3)]
    have "length (drop k s) < length s" using pos True by simp
    then have IH: "tb_push_str_loop lib st1 (drop k s) = push_owned_loop lib st1 (drop k s) \<bind>
        (\<lambda>(st', r). if r = [] then Some st' else tb_push_leaf (rope_ni lib) st' r)" for st1
      using less.hyps halves(4) by blast
    have "s \<noteq> []" using True by auto
    then show ?thesis
      using True k(1) pos halves
      by (subst tb_push_str_loop.simps, subst push_owned_loop.simps)
        (cases "tb_push_leaf (rope_ni lib) st (take k s)"; simp add: IH)
  qed
qed

lemma rb_push_owned_spec:
  assumes "utf8_valid s" "rb_wf lib rb"
  shows "\<exists>rb'. rb_push_owned lib rb s = Some rb' \<and> rb_wf lib rb' \<and> rb_pending rb' = rb_pending rb
    \<and> stack_content id (rb_tree rb') = stack_content id (rb_tree rb) @ s"
proof -
  have st: "st_wf (rb_tree rb)" using assms(2) by (simp add: rb_wf_def)
  have small: "\<exists>rb'. (do { tree \<leftarrow> tb_push_leaf (rope_ni lib) st r; Some (rb\<lparr>rb_tree := tree\<rparr>) }) = Some rb'
      \<and> rb_wf lib rb' \<and> rb_pending rb' = rb_pending rb
      \<and> stack_content id (rb_tree rb') = stack_content id st @ r" if "st_wf st" "str_leaf_wf r" for st r
    using tb_push_leaf_ex [OF that] assms(2) by (auto simp: rb_wf_def)
  show ?thesis
  proof (cases "length s \<le> MAX_LEAF")
    case True
    with small [OF st, of s] assms show ?thesis by (auto simp: rb_push_owned_def str_leaf_wf_def)
  next
    case False
    obtain st' r where r: "push_owned_loop lib (rb_tree rb) s = Some (st', r)" "st_wf st'"
      "str_leaf_wf r" "stack_content id st' @ r = stack_content id (rb_tree rb) @ s"
      using push_owned_loop_spec [OF assms(1) st] by blast
    with small [OF r(2,3)] False assms(2) show ?thesis
      by (auto simp: rb_push_owned_def rb_wf_def)
  qed
qed

lemma rb_finish_spec:
  assumes "rb_wf lib rb"
  obtains n where "rb_finish lib rb = Some n" "node_wf (rope_ni lib) str_leaf_wf n"
    "node_content id n = rb_text rb"
proof -
  obtain st where st: "(if rb_pending rb \<noteq> [] then tb_push_leaf (rope_ni lib) (rb_tree rb) (rb_pending rb)
      else Some (rb_tree rb)) = Some st" "st_wf st" "stack_content id st = rb_text rb"
    using tb_push_leaf_ex [of "rb_tree rb" "rb_pending rb"] assms
    by (cases "rb_pending rb = []") (auto simp: rb_wf_def rb_text_def)
  obtain n where "tb_build (rope_ni lib) st = Some n" "node_wf (rope_ni lib) str_leaf_wf n"
    "node_content id n = stack_content id st"
    using st(2) by (rule str.tb_buildE)
  with st that show thesis by (simp add: rb_finish_def)
qed

lemma tb_push_str_spec:
  assumes "utf8_valid s" "st_wf st"
  shows "\<exists>st'. tb_push_str lib st s = Some st' \<and> st_wf st'
    \<and> stack_content id st' = stack_content id st @ s"
proof (cases "length s \<le> MAX_LEAF")
  case True
  with tb_push_leaf_ex [OF assms(2), of s] assms show ?thesis
    by (cases "s = []") (auto simp: tb_push_str_def str_leaf_wf_def)
next
  case False
  obtain st' r where r: "push_owned_loop lib st s = Some (st', r)" "st_wf st'"
    "str_leaf_wf r" "stack_content id st' @ r = stack_content id st @ s"
    using push_owned_loop_spec [OF assms] by blast
  with tb_push_leaf_ex [OF r(2,3)] False assms(1) show ?thesis
    by (cases "r = []") (auto simp: tb_push_str_def tb_push_str_loop_owned)
qed

end


section \<open>UTF-16 positions\<close>

lemma utf8_char_units:
  assumes "utf8_char c"
  shows "cnt is_lead c = 1" "cnt (\<lambda>b. b \<ge> 0xf0) c = (if length c = 4 then 1 else 0)"
  using assms
  by (cases c rule: utf8_char.cases; auto simp: is_lead_def is_cont_range byte_order)+

lemma count_utf16_chars:
  "utf8_valid s \<Longrightarrow> count_utf16_code_units s = sum_list (map char_len_utf16 (str_chars s))"
  by (induction s rule: utf8_induct)
    (simp_all add: count_utf16_eq str_chars_append utf8_char_units char_len_utf16_def)

lemma utf16_cu_loop_exact:
  assumes "list_all utf8_char cs" "list_all utf8_char ds"
  shows "utf16_cu_loop (cs @ ds) (n16 + sum_list (map char_len_utf16 cs)) n16 n8
    = Some (n8 + length (concat cs))"
  using assms
proof (induction cs arbitrary: n16 n8)
  case Nil
  then show ?case by (cases ds) simp_all
next
  case (Cons c cs)
  have "0 < char_len_utf16 c" by (simp add: char_len_utf16_def)
  with Cons show ?case
    using Cons.IH [of "n16 + char_len_utf16 c" "n8 + length c"] by (simp add: add.assoc)
qed

lemma str_chars_valid_append: "utf8_valid s \<Longrightarrow> str_chars (s @ t) = str_chars s @ str_chars t"
  by (induction s rule: utf8_induct) (simp_all add: str_chars_append)

text \<open>Byte offset to UTF-16 offset and back is the identity on character boundaries.\<close>

lemma utf16_roundtrip:
  assumes "utf8_valid s" "is_char_boundary s i"
  shows "byte_to_utf16_cu_idx s i \<bind> utf16_cu_to_byte_idx s = Some i"
proof -
  note halves = str_slice_halves [OF assms]
  have i: "i \<le> length s" using assms(2) by (rule is_char_boundary_le)
  have "clamp_loop s (min i (length s)) = i"
    using clamp_loop_spec [of s i] assms(2) i by (simp add: min_absorb1 order_antisym)
  then have "byte_to_utf16_cu_idx s i = Some (count_utf16_code_units (take i s))"
    using halves(1) by (simp add: byte_to_utf16_cu_idx_def)
  moreover have "utf16_cu_to_byte_idx s (count_utf16_code_units (take i s)) = Some i"
    using utf16_cu_loop_exact [of "str_chars (take i s)" "str_chars (drop i s)" 0 0]
      halves(3,4) i str_chars_valid_append [OF halves(3), of "drop i s"]
    by (simp add: utf16_cu_to_byte_idx_def count_utf16_chars concat_str_chars utf8_valid_def)
  ultimately show ?thesis by simp
qed


section \<open>An instance of the byte-search contract\<close>

fun naive_memchr :: "byte \<Rightarrow> byte list \<Rightarrow> nat option" where
  "naive_memchr b [] = None"
| "naive_memchr b (x # xs) = (if x = b then Some 0 else map_option Suc (naive_memchr b xs))"

fun naive_memrchr :: "byte \<Rightarrow> byte list \<Rightarrow> nat option" where
  "naive_memrchr b [] = None"
| "naive_memrchr b (x # xs) =
     (case naive_memrchr b xs of Some i \<Rightarrow> Some (Suc i) | None \<Rightarrow> if x = b then Some 0 else None)"

definition naive_search :: byte_search where
  "naive_search = \<lparr>bs_memchr = naive_memchr, bs_memrchr = naive_memrchr,
     bs_count = (\<lambda>xs b. cnt (\<lambda>x. x = b) xs)\<rparr>"

lemma naive_memchr_None: "naive_memchr b xs = None \<longleftrightarrow> b \<notin> set xs"
  by (induction xs) auto

lemma naive_memchr_Some:
  "naive_memchr b xs = Some i \<Longrightarrow> i < length xs \<and> xs ! i = b \<and> (\<forall>j<i. xs ! j \<noteq> b)"
  by (induction xs arbitrary: i) (fastforce simp: nth_Cons split: if_splits nat.splits)+

lemma naive_memrchr_None: "naive_memrchr b xs = None \<longleftrightarrow> b \<notin> set xs"
  by (induction xs) (auto split: option.splits)

lemma naive_memrchr_Some:
  "naive_memrchr b xs = Some i \<Longrightarrow>
    i < length xs \<and> xs ! i = b \<and> (\<forall>j<length xs. i < j \<longrightarrow> xs ! j \<noteq> b)"
proof (induction xs arbitrary: i)
  case (Cons x xs)
  show ?case
  proof (cases "naive_memrchr b xs")
    case None
    with Cons.prems have "i = 0" "x = b" by (auto split: if_splits)
    with None naive_memrchr_None [of b xs] show ?thesis
      by (auto simp: nth_Cons split: nat.splits)
  next
    case (Some k)
    with Cons show ?thesis by (auto simp: nth_Cons split: nat.splits)
  qed
qed simp

interpretation naive: byte_search_laws naive_search
proof unfold_locales
  show "bs_memchr naive_search b xs = None \<longleftrightarrow> b \<notin> set xs" for b xs
    by (simp add: naive_search_def naive_memchr_None)
  show "i < length xs \<and> xs ! i = b \<and> (\<forall>j<i. xs ! j \<noteq> b)"
    if "bs_memchr naive_search b xs = Some i" for b xs i
    using that by (simp add: naive_search_def naive_memchr_Some)
  show "bs_memrchr naive_search b xs = None \<longleftrightarrow> b \<notin> set xs" for b xs
    by (simp add: naive_search_def naive_memrchr_None)
  show "i < length xs \<and> xs ! i = b \<and> (\<forall>j<length xs. i < j \<longrightarrow> xs ! j \<noteq> b)"
    if "bs_memrchr naive_search b xs = Some i" for b xs i
    using that by (simp add: naive_search_def naive_memrchr_Some)
  show "bs_count naive_search xs b = cnt (\<lambda>x. x = b) xs" for xs b
    by (simp add: naive_search_def)
qed

end
