(* ===== verification/Rope_Engine.thy ===== *)
theory Rope_Engine
  imports Rope_Insert_Laws Rope_Text_Laws "HOL-Library.Product_Lexorder"
begin

text \<open>
  The CRDT engine of \<^verbatim>\<open>xi-rope/src/engine\<close>: the current text with its tombstones, the revision
  history, edits against any revision, undo, garbage collection and the merge with another engine.

  Outside the sources are the persistent sets of the crate \<^verbatim>\<open>im\<close> (the record \<open>ord_set\<close>, with the
  locale \<open>ord_set_laws\<close> below), the byte search of the text leaves, and the hash behind
  \<^verbatim>\<open>RevId::token\<close>, which the standard library leaves unspecified (a function); \<open>engine_env\<close> bundles
  the three.  The counter \<^verbatim>\<open>rev_id_counter\<close> is a \<^verbatim>\<open>u32\<close> and its increment panics on overflow.
\<close>

section \<open>Persistent sets of undo groups\<close>

record 's ord_set =
  os_new :: 's
  os_contains :: "'s \<Rightarrow> nat \<Rightarrow> bool"
  os_symmetric_difference :: "'s \<Rightarrow> 's \<Rightarrow> 's"
  os_relative_complement :: "'s \<Rightarrow> 's \<Rightarrow> 's"
  os_first :: "'s \<Rightarrow> nat option"
  os_is_empty :: "'s \<Rightarrow> bool"
  os_collect :: "nat list \<Rightarrow> 's"

locale ord_set_laws =
  fixes os :: "'s ord_set"
    and os_set :: "'s \<Rightarrow> nat set"
  assumes new: "os_set (os_new os) = {}"
    and contains: "os_contains os s x \<longleftrightarrow> x \<in> os_set s"
    and symmetric_difference:
      "os_set (os_symmetric_difference os s t) = (os_set s - os_set t) \<union> (os_set t - os_set s)"
    and relative_complement: "os_set (os_relative_complement os s t) = os_set s - os_set t"
    and first_None: "os_first os s = None \<longleftrightarrow> os_set s = {}"
    and first_Some: "os_first os s = Some x \<Longrightarrow> x \<in> os_set s \<and> (\<forall>y \<in> os_set s. x \<le> y)"
    and is_empty: "os_is_empty os s \<longleftrightarrow> os_set s = {}"
    and collect: "os_set (os_collect os xs) = set xs"
begin

end

text \<open>An instance of the contract: strictly sorted lists.\<close>

definition sorted_lists :: "nat list ord_set" where
  "sorted_lists = \<lparr>os_new = [], os_contains = (\<lambda>s x. x \<in> set s),
     os_symmetric_difference =
       (\<lambda>s t. sort (filter (\<lambda>x. x \<notin> set t) s @ filter (\<lambda>x. x \<notin> set s) t)),
     os_relative_complement = (\<lambda>s t. filter (\<lambda>x. x \<notin> set t) s),
     os_first = (\<lambda>s. case s of [] \<Rightarrow> None | x # xs \<Rightarrow> Some (fold min xs x)),
     os_is_empty = (\<lambda>s. s = []), os_collect = (\<lambda>xs. remdups (sort xs))\<rparr>"

lemma fold_min_least: "fold min xs (x :: nat) \<in> set (x # xs) \<and> (\<forall>y \<in> set (x # xs). fold min xs x \<le> y)"
proof (induction xs arbitrary: x)
  case (Cons y ys)
  from Cons [of "min y x"] show ?case by (auto simp: min_def split: if_splits)
qed simp

interpretation sorted_lists: ord_set_laws sorted_lists set
proof unfold_locales
  show "x \<in> set s \<and> (\<forall>y \<in> set s. x \<le> y)" if "os_first sorted_lists s = Some x" for s x
    using that fold_min_least by (auto simp: sorted_lists_def split: list.splits)
qed (auto simp: sorted_lists_def split: list.splits)


section \<open>Data\<close>

type_synonym session = "nat \<times> nat"

record rev_id =
  session1 :: nat
  session2 :: nat
  num :: nat

definition rid_session_id :: "rev_id \<Rightarrow> session" where
  "rid_session_id r = (session1 r, session2 r)"

text \<open>\<^verbatim>\<open>FullPriority\<close> with its derived order: priorities first, then sessions.\<close>

datatype full_priority = FullPriority (fp_priority: nat) (fp_session_id: session)

instantiation full_priority :: linorder
begin

definition less_eq_full_priority :: "full_priority \<Rightarrow> full_priority \<Rightarrow> bool" where
  "a \<le> b \<longleftrightarrow> (fp_priority a, fp_session_id a) \<le> (fp_priority b, fp_session_id b)"

definition less_full_priority :: "full_priority \<Rightarrow> full_priority \<Rightarrow> bool" where
  "a < b \<longleftrightarrow> (fp_priority a, fp_session_id a) < (fp_priority b, fp_session_id b)"

instance
  by standard
    (auto simp: less_eq_full_priority_def less_full_priority_def intro: full_priority.expand)

end

datatype 's contents =
    Edit (c_priority: nat) (c_undo_group: nat) (c_inserts: subset) (c_deletes: subset)
  | Undo (c_toggled_groups: 's) (c_deletes_bitxor: subset)

record 's revision =
  rev_rev_id :: rev_id
  rev_max_undo :: nat
  rev_edit :: "'s contents"

record 's engine =
  en_session :: session
  en_rev_id_counter :: nat
  en_text :: rope
  en_tombstones :: rope
  en_deletes :: subset
  en_undone :: 's
  en_revs :: "'s revision list"

datatype engine_error = MissingRevision nat | MalformedDelta nat nat

record 's engine_env =
  ee_lib :: byte_search
  ee_os :: "'s ord_set"
  ee_token :: "rev_id \<Rightarrow> nat"

abbreviation ee_ni :: "'s engine_env \<Rightarrow> (str, rope_info) node_info" where
  "ee_ni env \<equiv> rope_ni (ee_lib env)"

definition default_session :: session where
  "default_session = (1, 0)"

definition u32_succ :: "nat \<Rightarrow> nat option" where
  "u32_succ n = (if n + 1 < 2 ^ 32 then Some (n + 1) else None)"


section \<open>Shuffling between text and tombstones\<close>

definition shuffle_tombstones ::
  "(str, rope_info) node_info \<Rightarrow> rope \<Rightarrow> rope \<Rightarrow> subset \<Rightarrow> subset \<Rightarrow> rope option" where
  "shuffle_tombstones ni text tombstones old_deletes new_deletes = do {
     inverse_tombstones_map \<leftarrow> subset_complement old_deletes;
     new_complement \<leftarrow> subset_complement new_deletes;
     move_delta \<leftarrow> synthesize ni text inverse_tombstones_map new_complement;
     delta_apply ni move_delta tombstones }"

definition shuffle ::
  "(str, rope_info) node_info \<Rightarrow> rope \<Rightarrow> rope \<Rightarrow> subset \<Rightarrow> subset \<Rightarrow> (rope \<times> rope) option" where
  "shuffle ni text tombstones old_deletes new_deletes = do {
     del_delta \<leftarrow> synthesize ni tombstones old_deletes new_deletes;
     new_text \<leftarrow> delta_apply ni del_delta text;
     new_tombstones \<leftarrow> shuffle_tombstones ni text tombstones old_deletes new_deletes;
     Some (new_text, new_tombstones) }"


section \<open>Revisions\<close>

definition engine_empty :: "'s engine_env \<Rightarrow> 's engine option" where
  "engine_empty env = do {
     deletes \<leftarrow> subset_new 0;
     Some \<lparr>en_session = default_session, en_rev_id_counter = 1,
       en_text = node_default (ee_ni env), en_tombstones = node_default (ee_ni env),
       en_deletes = deletes, en_undone = os_new (ee_os env),
       en_revs = [\<lparr>rev_rev_id = \<lparr>session1 = 0, session2 = 0, num = 0\<rparr>, rev_max_undo = 0,
                   rev_edit = Undo (os_new (ee_os env)) deletes\<rparr>]\<rparr> }"

definition next_rev_id :: "'s engine \<Rightarrow> rev_id" where
  "next_rev_id e = \<lparr>session1 = fst (en_session e), session2 = snd (en_session e),
     num = en_rev_id_counter e\<rparr>"

definition find_rev :: "'s engine \<Rightarrow> rev_id \<Rightarrow> nat option" where
  "find_rev e r = find (\<lambda>i. rev_rev_id (en_revs e ! i) = r) (rev [0..<length (en_revs e)])"

definition find_rev_token :: "'s engine_env \<Rightarrow> 's engine \<Rightarrow> nat \<Rightarrow> nat option" where
  "find_rev_token env e token =
     find (\<lambda>i. ee_token env (rev_rev_id (en_revs e ! i)) = token) (rev [0..<length (en_revs e)])"

text \<open>One step of \<^verbatim>\<open>deletes_from_union_before_index\<close>: take a revision back.\<close>

definition invert_rev ::
  "'s ord_set \<Rightarrow> bool \<Rightarrow> 's revision \<Rightarrow> subset \<times> 's \<Rightarrow> (subset \<times> 's) option" where
  "invert_rev os invert_undos r = (\<lambda>(deletes_from_union, undone_groups).
     case rev_edit r of
       Edit priority undo_group inserts deletes \<Rightarrow>
         if os_contains os undone_groups undo_group then do {
           d \<leftarrow> transform_shrink deletes_from_union inserts;
           Some (d, undone_groups) }
         else do {
           un_deleted \<leftarrow> subset_subtract deletes_from_union deletes;
           d \<leftarrow> transform_shrink un_deleted inserts;
           Some (d, undone_groups) }
     | Undo toggled_groups deletes_bitxor \<Rightarrow>
         if invert_undos then do {
           let new_undone = os_symmetric_difference os undone_groups toggled_groups;
           d \<leftarrow> subset_bitxor deletes_from_union deletes_bitxor;
           Some (d, new_undone) }
         else Some (deletes_from_union, undone_groups))"

definition deletes_from_union_before_index ::
  "'s engine_env \<Rightarrow> 's engine \<Rightarrow> nat \<Rightarrow> bool \<Rightarrow> subset option" where
  "deletes_from_union_before_index env e rev_index invert_undos = do {
     rassert (rev_index \<le> length (en_revs e));
     (d, g) \<leftarrow> foldM (invert_rev (ee_os env) invert_undos) (rev (drop rev_index (en_revs e)))
       (en_deletes e, en_undone e);
     Some d }"

definition deletes_from_union_for_index ::
  "'s engine_env \<Rightarrow> 's engine \<Rightarrow> nat \<Rightarrow> subset option" where
  "deletes_from_union_for_index env e rev_index =
     deletes_from_union_before_index env e (rev_index + 1) True"

definition union_later_inserts :: "'s revision \<Rightarrow> subset \<Rightarrow> subset option" where
  "union_later_inserts r d =
     (case rev_edit r of
        Edit _ _ inserts _ \<Rightarrow> if \<not> subset_is_empty inserts then transform_union d inserts else Some d
      | Undo _ _ \<Rightarrow> Some d)"

definition deletes_from_cur_union_for_index ::
  "'s engine_env \<Rightarrow> 's engine \<Rightarrow> nat \<Rightarrow> subset option" where
  "deletes_from_cur_union_for_index env e rev_index = do {
     d \<leftarrow> deletes_from_union_for_index env e rev_index;
     rassert (rev_index + 1 \<le> length (en_revs e));
     foldM union_later_inserts (drop (rev_index + 1) (en_revs e)) d }"

definition rev_content_for_index :: "'s engine_env \<Rightarrow> 's engine \<Rightarrow> nat \<Rightarrow> rope option" where
  "rev_content_for_index env e rev_index = do {
     old_deletes \<leftarrow> deletes_from_cur_union_for_index env e rev_index;
     delta \<leftarrow> synthesize (ee_ni env) (en_tombstones e) (en_deletes e) old_deletes;
     delta_apply (ee_ni env) delta (en_text e) }"

definition max_undo_group_id :: "'s engine \<Rightarrow> nat option" where
  "max_undo_group_id e = do { rassert (en_revs e \<noteq> []); Some (rev_max_undo (last (en_revs e))) }"

definition get_head_rev_id :: "'s engine \<Rightarrow> rev_id option" where
  "get_head_rev_id e = do { rassert (en_revs e \<noteq> []); Some (rev_rev_id (last (en_revs e))) }"

definition get_head :: "'s engine \<Rightarrow> rope" where
  "get_head e = en_text e"

text \<open>The outer option of \<open>get_rev\<close> is the panic, the inner one the source's result.\<close>

definition get_rev :: "'s engine_env \<Rightarrow> 's engine \<Rightarrow> nat \<Rightarrow> rope option option" where
  "get_rev env e token =
     (case find_rev_token env e token of
        None \<Rightarrow> Some None
      | Some ix \<Rightarrow> map_option Some (rev_content_for_index env e ix))"

definition try_delta_rev_head ::
  "'s engine_env \<Rightarrow> 's engine \<Rightarrow> nat \<Rightarrow> (engine_error + (str, rope_info) delta) option" where
  "try_delta_rev_head env e base_rev =
     (case find_rev_token env e base_rev of
        None \<Rightarrow> Some (Inl (MissingRevision base_rev))
      | Some ix \<Rightarrow> do {
          prev_from_union \<leftarrow> deletes_from_cur_union_for_index env e ix;
          old_tombstones \<leftarrow> shuffle_tombstones (ee_ni env) (en_text e) (en_tombstones e)
            (en_deletes e) prev_from_union;
          d \<leftarrow> synthesize (ee_ni env) old_tombstones prev_from_union (en_deletes e);
          Some (Inr d) })"

definition set_session_id :: "'s engine \<Rightarrow> session \<Rightarrow> 's engine option" where
  "set_session_id e session = do {
     rassert (length (en_revs e) = 1);
     Some (e\<lparr>en_session := session\<rparr>) }"


section \<open>Edits\<close>

text \<open>The loop of \<^verbatim>\<open>mk_new_rev\<close> that rebases a delta over one later revision.\<close>

definition rebase_over ::
  "full_priority \<Rightarrow> 's revision \<Rightarrow> (str, rope_info) insert_delta \<times> subset
   \<Rightarrow> ((str, rope_info) insert_delta \<times> subset) option" where
  "rebase_over new_full_priority r = (\<lambda>(union_ins_delta, new_deletes).
     case rev_edit r of
       Edit priority _ inserts _ \<Rightarrow>
         if \<not> subset_is_empty inserts then do {
           let full_priority = FullPriority priority (rid_session_id (rev_rev_id r));
           let after = (new_full_priority \<ge> full_priority);
           union_ins_delta \<leftarrow> ins_transform_expand union_ins_delta inserts after;
           new_deletes \<leftarrow> transform_expand new_deletes inserts;
           Some (union_ins_delta, new_deletes) }
         else Some (union_ins_delta, new_deletes)
     | Undo _ _ \<Rightarrow> Some (union_ins_delta, new_deletes))"

definition mk_new_rev ::
  "'s engine_env \<Rightarrow> 's engine \<Rightarrow> nat \<Rightarrow> nat \<Rightarrow> nat \<Rightarrow> (str, rope_info) delta
   \<Rightarrow> (engine_error + ('s revision \<times> rope \<times> rope \<times> subset)) option" where
  "mk_new_rev env e new_priority undo_group base_rev delta =
     (case find_rev_token env e base_rev of
        None \<Rightarrow> Some (Inl (MissingRevision base_rev))
      | Some ix \<Rightarrow> do {
          (ins_delta, deletes) \<leftarrow> delta_factor delta;
          deletes_at_rev \<leftarrow> deletes_from_union_for_index env e ix;
          if base_len ins_delta \<noteq> len_after_delete deletes_at_rev
          then Some (Inl (MalformedDelta (len_after_delete deletes_at_rev) (base_len ins_delta)))
          else do {
            union_ins_delta \<leftarrow> ins_transform_expand ins_delta deletes_at_rev True;
            new_deletes \<leftarrow> transform_expand deletes deletes_at_rev;
            let new_full_priority = FullPriority new_priority (en_session e);
            (union_ins_delta, new_deletes) \<leftarrow>
              foldM (rebase_over new_full_priority) (drop (ix + 1) (en_revs e))
                (union_ins_delta, new_deletes);
            new_inserts \<leftarrow> inserted_subset union_ins_delta;
            new_deletes \<leftarrow> (if \<not> subset_is_empty new_inserts
                             then transform_expand new_deletes new_inserts else Some new_deletes);
            text_ins_delta \<leftarrow> ins_transform_shrink union_ins_delta (en_deletes e);
            text_with_inserts \<leftarrow> delta_apply (ee_ni env) text_ins_delta (en_text e);
            rebased_deletes \<leftarrow> transform_expand (en_deletes e) new_inserts;
            let undone = os_contains (ee_os env) (en_undone e) undo_group;
            new_deletes_from_union \<leftarrow>
              subset_union rebased_deletes (if undone then new_inserts else new_deletes);
            (new_text, new_tombstones) \<leftarrow> shuffle (ee_ni env) text_with_inserts (en_tombstones e)
              rebased_deletes new_deletes_from_union;
            head_max_undo \<leftarrow> max_undo_group_id e;
            Some (Inr (\<lparr>rev_rev_id = next_rev_id e, rev_max_undo = max undo_group head_max_undo,
                        rev_edit = Edit new_priority undo_group new_inserts new_deletes\<rparr>,
                       new_text, new_tombstones, new_deletes_from_union)) } })"

definition try_edit_rev ::
  "'s engine_env \<Rightarrow> 's engine \<Rightarrow> nat \<Rightarrow> nat \<Rightarrow> nat \<Rightarrow> (str, rope_info) delta
   \<Rightarrow> ((engine_error + unit) \<times> 's engine) option" where
  "try_edit_rev env e priority undo_group base_rev delta = do {
     res \<leftarrow> mk_new_rev env e priority undo_group base_rev delta;
     case res of
       Inl err \<Rightarrow> Some (Inl err, e)
     | Inr (new_rev, new_text, new_tombstones, new_deletes_from_union) \<Rightarrow>
         if (case rev_edit new_rev of
               Edit _ _ inserts deletes \<Rightarrow> subset_is_empty inserts \<and> subset_is_empty deletes
             | Undo _ _ \<Rightarrow> False)
         then Some (Inr (), e)
         else do {
           counter \<leftarrow> u32_succ (en_rev_id_counter e);
           Some (Inr (), e\<lparr>en_rev_id_counter := counter, en_revs := en_revs e @ [new_rev],
             en_text := new_text, en_tombstones := new_tombstones,
             en_deletes := new_deletes_from_union\<rparr>) } }"

definition edit_rev ::
  "'s engine_env \<Rightarrow> 's engine \<Rightarrow> nat \<Rightarrow> nat \<Rightarrow> nat \<Rightarrow> (str, rope_info) delta \<Rightarrow> 's engine option" where
  "edit_rev env e priority undo_group base_rev delta = do {
     (res, e) \<leftarrow> try_edit_rev env e priority undo_group base_rev delta;
     case res of Inl _ \<Rightarrow> None | Inr _ \<Rightarrow> Some e }"

definition engine_new :: "'s engine_env \<Rightarrow> rope \<Rightarrow> 's engine option" where
  "engine_new env initial_contents = do {
     engine \<leftarrow> engine_empty env;
     if \<not> node_is_empty initial_contents then do {
       head \<leftarrow> get_head_rev_id engine;
       iv \<leftarrow> interval_new 0 0;
       delta \<leftarrow> simple_edit (BInterval iv) initial_contents 0;
       edit_rev env engine 0 0 (ee_token env head) delta }
     else Some engine }"


section \<open>Undo\<close>

definition empty_subset_before_first_rev :: "'s engine \<Rightarrow> subset option" where
  "empty_subset_before_first_rev e =
     (case en_revs e of
        [] \<Rightarrow> None
      | first_rev # _ \<Rightarrow>
          subset_new (case rev_edit first_rev of
              Edit _ _ inserts _ \<Rightarrow> subset_count inserts Zero
            | Undo _ deletes_bitxor \<Rightarrow> subset_count deletes_bitxor All))"

definition find_first_undo_candidate_index ::
  "'s ord_set \<Rightarrow> 's engine \<Rightarrow> 's \<Rightarrow> nat" where
  "find_first_undo_candidate_index os e toggled_groups =
     (case os_first os toggled_groups of
        None \<Rightarrow> length (en_revs e)
      | Some lowest_group \<Rightarrow>
          (case find (\<lambda>i. rev_max_undo (en_revs e ! i) < lowest_group)
                  (rev [0..<length (en_revs e)]) of
             Some i \<Rightarrow> i + 1
           | None \<Rightarrow> 0))"

text \<open>
  One revision of the replay that \<^verbatim>\<open>deletes_from_union_for_undone_groups\<close> and \<^verbatim>\<open>compute_undo\<close> run with
  a given set of undone groups.
\<close>

definition replay_rev :: "'s ord_set \<Rightarrow> 's \<Rightarrow> 's revision \<Rightarrow> subset \<Rightarrow> subset option" where
  "replay_rev os groups r deletes_from_union =
     (case rev_edit r of
        Edit _ undo_group inserts deletes \<Rightarrow>
          if os_contains os groups undo_group then
            (if \<not> subset_is_empty inserts then transform_union deletes_from_union inserts
             else Some deletes_from_union)
          else do {
            d \<leftarrow> (if \<not> subset_is_empty inserts then transform_expand deletes_from_union inserts
                  else Some deletes_from_union);
            if \<not> subset_is_empty deletes then subset_union d deletes else Some d }
      | Undo _ _ \<Rightarrow> Some deletes_from_union)"

definition deletes_from_union_for_undone_groups ::
  "'s engine_env \<Rightarrow> 's engine \<Rightarrow> 's \<Rightarrow> subset option" where
  "deletes_from_union_for_undone_groups env e groups = do {
     d \<leftarrow> empty_subset_before_first_rev e;
     foldM (replay_rev (ee_os env) groups) (en_revs e) d }"

definition compute_undo ::
  "'s engine_env \<Rightarrow> 's engine \<Rightarrow> 's \<Rightarrow> ('s revision \<times> subset) option" where
  "compute_undo env e groups = do {
     let toggled_groups = os_symmetric_difference (ee_os env) (en_undone e) groups;
     let first_candidate = find_first_undo_candidate_index (ee_os env) e toggled_groups;
     d \<leftarrow> deletes_from_union_before_index env e first_candidate False;
     d \<leftarrow> foldM (replay_rev (ee_os env) groups) (drop first_candidate (en_revs e)) d;
     deletes_bitxor \<leftarrow> subset_bitxor (en_deletes e) d;
     max_undo_so_far \<leftarrow> max_undo_group_id e;
     Some (\<lparr>rev_rev_id = next_rev_id e, rev_max_undo = max_undo_so_far,
            rev_edit = Undo toggled_groups deletes_bitxor\<rparr>, d) }"

definition undo :: "'s engine_env \<Rightarrow> 's engine \<Rightarrow> nat list \<Rightarrow> 's engine option" where
  "undo env e group_list = do {
     let groups = os_collect (ee_os env) group_list;
     (new_rev, new_deletes_from_union) \<leftarrow> compute_undo env e groups;
     if (case rev_edit new_rev of
           Undo _ deletes_bitxor \<Rightarrow> subset_is_empty deletes_bitxor | Edit _ _ _ _ \<Rightarrow> False)
     then Some (e\<lparr>en_undone := groups\<rparr>)
     else do {
       (new_text, new_tombstones) \<leftarrow> shuffle (ee_ni env) (en_text e) (en_tombstones e)
         (en_deletes e) new_deletes_from_union;
       counter \<leftarrow> u32_succ (en_rev_id_counter e);
       Some (e\<lparr>en_text := new_text, en_tombstones := new_tombstones,
         en_deletes := new_deletes_from_union, en_undone := groups,
         en_revs := en_revs e @ [new_rev], en_rev_id_counter := counter\<rparr>) } }"

definition is_equivalent_revision ::
  "'s engine_env \<Rightarrow> 's engine \<Rightarrow> rev_id \<Rightarrow> rev_id \<Rightarrow> bool option" where
  "is_equivalent_revision env e base_rev other_rev = do {
     let subset_of = (\<lambda>r. case find_rev e r of
         None \<Rightarrow> Some None
       | Some ix \<Rightarrow> map_option Some (deletes_from_cur_union_for_index env e ix));
     base_subset \<leftarrow> subset_of base_rev;
     other_subset \<leftarrow> subset_of other_rev;
     Some (base_subset \<noteq> None \<and> base_subset = other_subset) }"


section \<open>Garbage collection\<close>

text \<open>The first pass: what may be dropped from the union string.\<close>

definition gc_collect_rev ::
  "'s ord_set \<Rightarrow> 's \<Rightarrow> 's \<Rightarrow> rev_id list \<Rightarrow> 's revision \<Rightarrow> subset \<Rightarrow> subset option" where
  "gc_collect_rev os undone gc_groups retain_revs r gc_dels =
     (case rev_edit r of
        Edit _ undo_group inserts deletes \<Rightarrow>
          if rev_rev_id r \<notin> set retain_revs \<and> os_contains os gc_groups undo_group then
            (if os_contains os undone undo_group then
               (if \<not> subset_is_empty inserts then transform_union gc_dels inserts else Some gc_dels)
             else do {
               gc_dels \<leftarrow> (if \<not> subset_is_empty inserts then transform_expand gc_dels inserts
                           else Some gc_dels);
               if \<not> subset_is_empty deletes then subset_union gc_dels deletes else Some gc_dels })
          else if \<not> subset_is_empty inserts then transform_expand gc_dels inserts
          else Some gc_dels
      | Undo _ _ \<Rightarrow> Some gc_dels)"

text \<open>The second pass, from the newest revision: rewrite or drop a revision.\<close>

definition gc_rewrite_rev ::
  "'s ord_set \<Rightarrow> 's \<Rightarrow> rev_id list \<Rightarrow> 's revision \<Rightarrow> subset \<times> 's revision list
   \<Rightarrow> (subset \<times> 's revision list) option" where
  "gc_rewrite_rev os gc_groups retain_revs r = (\<lambda>(gc_dels, out).
     case rev_edit r of
       Edit priority undo_group inserts deletes \<Rightarrow> do {
         new_gc_dels \<leftarrow> (if subset_is_empty inserts then Some None
                         else map_option Some (transform_shrink gc_dels inserts));
         (inserts, deletes) \<leftarrow>
           (if subset_is_empty gc_dels then Some (inserts, deletes)
            else do {
              i \<leftarrow> transform_shrink inserts gc_dels;
              d \<leftarrow> transform_shrink deletes gc_dels;
              Some (i, d) });
         let retain_visible_insert =
           (os_contains os gc_groups undo_group \<and> \<not> subset_is_empty inserts);
         let drop_gc_only_delete =
           (os_contains os gc_groups undo_group \<and> subset_is_empty inserts);
         let out =
           (if (rev_rev_id r \<in> set retain_revs \<or> \<not> os_contains os gc_groups undo_group
                \<or> retain_visible_insert)
               \<and> \<not> drop_gc_only_delete \<and> (\<not> subset_is_empty inserts \<or> \<not> subset_is_empty deletes)
            then out @ [\<lparr>rev_rev_id = rev_rev_id r, rev_max_undo = rev_max_undo r,
                         rev_edit = Edit priority undo_group inserts deletes\<rparr>]
            else out);
         Some (case new_gc_dels of None \<Rightarrow> gc_dels | Some g \<Rightarrow> g, out) }
     | Undo toggled_groups deletes_bitxor \<Rightarrow>
         if rev_rev_id r \<in> set retain_revs then do {
           new_deletes_bitxor \<leftarrow> (if subset_is_empty gc_dels then Some deletes_bitxor
                                  else transform_shrink deletes_bitxor gc_dels);
           Some (gc_dels, out @ [\<lparr>rev_rev_id = rev_rev_id r, rev_max_undo = rev_max_undo r,
             rev_edit = Undo (os_relative_complement os toggled_groups gc_groups)
               new_deletes_bitxor\<rparr>]) }
         else Some (gc_dels, out))"

definition is_edit :: "'s revision \<Rightarrow> bool" where
  "is_edit r = (case rev_edit r of Edit _ _ _ _ \<Rightarrow> True | Undo _ _ \<Rightarrow> False)"

definition gc :: "'s engine_env \<Rightarrow> 's engine \<Rightarrow> nat list \<Rightarrow> 's engine option" where
  "gc env e group_list = do {
     let os = ee_os env;
     let gc_groups = os_collect os group_list;
     gc_dels \<leftarrow> empty_subset_before_first_rev e;
     let retain_revs =
       (if en_revs e = [] then [] else [rev_rev_id (hd (en_revs e)), rev_rev_id (last (en_revs e))]);
     gc_dels \<leftarrow> foldM (gc_collect_rev os (en_undone e) gc_groups retain_revs) (en_revs e) gc_dels;
     e \<leftarrow> (if \<not> subset_is_empty gc_dels then do {
            not_in_tombstones \<leftarrow> subset_complement (en_deletes e);
            dels_from_tombstones \<leftarrow> transform_shrink gc_dels not_in_tombstones;
            tombstones \<leftarrow> delete_from (ee_ni env) dels_from_tombstones (en_tombstones e);
            deletes \<leftarrow> transform_shrink (en_deletes e) gc_dels;
            Some (e\<lparr>en_tombstones := tombstones, en_deletes := deletes\<rparr>) }
          else Some e);
     (gc_dels, out) \<leftarrow> foldM (gc_rewrite_rev os gc_groups retain_revs) (rev (en_revs e)) (gc_dels, []);
     let e = e\<lparr>en_revs := rev out\<rparr>;
     if \<not> list_ex is_edit (en_revs e) then do {
       empty \<leftarrow> subset_new 0;
       Some (e\<lparr>en_text := node_default (ee_ni env), en_tombstones := node_default (ee_ni env),
         en_deletes := empty, en_undone := os_new os\<rparr>) }
     else Some e }"


section \<open>Merge\<close>

definition find_base_index :: "'s revision list \<Rightarrow> 's revision list \<Rightarrow> nat" where
  "find_base_index a b =
     (if a = [] \<or> b = [] then 0
      else length (takeWhile (\<lambda>(left, right). rev_rev_id left = rev_rev_id right) (zip a b)))"

text \<open>The set of common ids, as a list without repetitions.\<close>

definition find_common :: "'s revision list \<Rightarrow> 's revision list \<Rightarrow> rev_id list" where
  "find_common a b =
     (let (smaller, larger) = (if length a \<le> length b then (a, b) else (b, a));
          smaller_ids = map rev_rev_id smaller
      in remdups (filter (\<lambda>i. i \<in> set smaller_ids) (map rev_rev_id larger)))"

definition rearrange_rev ::
  "rev_id list \<Rightarrow> 's revision \<Rightarrow> subset \<times> 's revision list \<Rightarrow> (subset \<times> 's revision list) option" where
  "rearrange_rev base_revs r = (\<lambda>(s, out).
     let is_base = (rev_rev_id r \<in> set base_revs)
     in case rev_edit r of
          Edit priority undo_group inserts deletes \<Rightarrow>
            if is_base then do {
              s \<leftarrow> transform_union inserts s;
              Some (s, out) }
            else do {
              transformed_inserts \<leftarrow> transform_expand inserts s;
              transformed_deletes \<leftarrow> transform_expand deletes s;
              s \<leftarrow> transform_shrink s transformed_inserts;
              Some (s, out @ [\<lparr>rev_rev_id = rev_rev_id r, rev_max_undo = rev_max_undo r,
                rev_edit = Edit priority undo_group transformed_inserts transformed_deletes\<rparr>]) }
        | Undo _ _ \<Rightarrow> Some (s, out))"

definition rearrange ::
  "'s revision list \<Rightarrow> rev_id list \<Rightarrow> nat \<Rightarrow> 's revision list option" where
  "rearrange revs base_revs head_len = do {
     s \<leftarrow> subset_new head_len;
     capacity \<leftarrow> usize_sub (length revs) (length base_revs);
     (s, out) \<leftarrow> foldM (rearrange_rev base_revs) (rev revs) (s, []);
     Some (rev out) }"

record delta_op =
  op_rev_id :: rev_id
  op_priority :: nat
  op_undo_group :: nat
  op_inserts :: "(str, rope_info) insert_delta"
  op_deletes :: subset

definition compute_deltas_rev ::
  "(str, rope_info) node_info \<Rightarrow> rope \<Rightarrow> rope \<Rightarrow> subset \<Rightarrow> 's revision
   \<Rightarrow> subset \<times> delta_op list \<Rightarrow> (subset \<times> delta_op list) option" where
  "compute_deltas_rev ni text tombstones deletes_from_union r = (\<lambda>(cur_all_inserts, out).
     case rev_edit r of
       Edit priority undo_group inserts deletes \<Rightarrow> do {
         older_all_inserts \<leftarrow> transform_union inserts cur_all_inserts;
         tombstones_here \<leftarrow> shuffle_tombstones ni text tombstones deletes_from_union older_all_inserts;
         delta \<leftarrow> synthesize ni tombstones_here older_all_inserts cur_all_inserts;
         (ins, _) \<leftarrow> delta_factor delta;
         Some (older_all_inserts, out @ [\<lparr>op_rev_id = rev_rev_id r, op_priority = priority,
           op_undo_group = undo_group, op_inserts = ins, op_deletes = deletes\<rparr>]) }
     | Undo _ _ \<Rightarrow> None)"

definition compute_deltas ::
  "(str, rope_info) node_info \<Rightarrow> 's revision list \<Rightarrow> rope \<Rightarrow> rope \<Rightarrow> subset \<Rightarrow> delta_op list option"
  where
  "compute_deltas ni revs text tombstones deletes_from_union = do {
     cur_all_inserts \<leftarrow> subset_new (subset_len deletes_from_union);
     (_, out) \<leftarrow> foldM (compute_deltas_rev ni text tombstones deletes_from_union) (rev revs)
       (cur_all_inserts, []);
     Some (rev out) }"

definition compute_transforms_rev ::
  "'s revision \<Rightarrow> (full_priority \<times> subset) list \<times> nat option
   \<Rightarrow> ((full_priority \<times> subset) list \<times> nat option) option" where
  "compute_transforms_rev r = (\<lambda>(out, last_priority).
     case rev_edit r of
       Edit priority _ inserts _ \<Rightarrow>
         if subset_is_empty inserts then Some (out, last_priority)
         else if Some priority = last_priority then do {
           rassert (out \<noteq> []);
           u \<leftarrow> transform_union (snd (last out)) inserts;
           Some (butlast out @ [(fst (last out), u)], last_priority) }
         else Some (out @ [(FullPriority priority (rid_session_id (rev_rev_id r)), inserts)],
                    Some priority)
     | Undo _ _ \<Rightarrow> Some (out, last_priority))"

definition compute_transforms :: "'s revision list \<Rightarrow> (full_priority \<times> subset) list option" where
  "compute_transforms revs = do {
     (out, _) \<leftarrow> foldM compute_transforms_rev revs ([], None);
     Some out }"

definition rebase_step ::
  "full_priority \<Rightarrow> full_priority \<times> subset
   \<Rightarrow> (str, rope_info) insert_delta \<times> subset \<times> (full_priority \<times> subset) list
   \<Rightarrow> ((str, rope_info) insert_delta \<times> subset \<times> (full_priority \<times> subset) list) option" where
  "rebase_step full_priority = (\<lambda>(trans_priority, trans_inserts) (inserts, deletes, next_expand_by). do {
     let after = (full_priority \<ge> trans_priority);
     inserts \<leftarrow> ins_transform_expand inserts trans_inserts after;
     inserted \<leftarrow> inserted_subset inserts;
     new_trans_inserts \<leftarrow> transform_expand trans_inserts inserted;
     deletes \<leftarrow> transform_expand deletes new_trans_inserts;
     Some (inserts, deletes, next_expand_by @ [(trans_priority, new_trans_inserts)]) })"

record 's rebase_state =
  rs_out :: "'s revision list"
  rs_text :: rope
  rs_tombstones :: rope
  rs_deletes :: subset
  rs_max_undo :: nat
  rs_expand_by :: "(full_priority \<times> subset) list"

definition rebase_op ::
  "(str, rope_info) node_info \<Rightarrow> delta_op \<Rightarrow> 's rebase_state \<Rightarrow> 's rebase_state option" where
  "rebase_op ni op st = do {
     let full_priority = FullPriority (op_priority op) (rid_session_id (op_rev_id op));
     (inserts, deletes, next_expand_by) \<leftarrow>
       foldM (rebase_step full_priority) (rs_expand_by st) (op_inserts op, op_deletes op, []);
     text_inserts \<leftarrow> ins_transform_shrink inserts (rs_deletes st);
     text_with_inserts \<leftarrow> delta_apply ni text_inserts (rs_text st);
     inserted \<leftarrow> inserted_subset inserts;
     expanded_deletes \<leftarrow> transform_expand (rs_deletes st) inserted;
     new_deletes \<leftarrow> subset_union expanded_deletes deletes;
     (new_text, new_tombstones) \<leftarrow>
       shuffle ni text_with_inserts (rs_tombstones st) expanded_deletes new_deletes;
     let max_undo = max (rs_max_undo st) (op_undo_group op);
     Some \<lparr>rs_out = rs_out st @ [\<lparr>rev_rev_id = op_rev_id op, rev_max_undo = max_undo,
              rev_edit = Edit (op_priority op) (op_undo_group op) inserted deletes\<rparr>],
       rs_text = new_text, rs_tombstones = new_tombstones, rs_deletes = new_deletes,
       rs_max_undo = max_undo, rs_expand_by = next_expand_by\<rparr> }"

definition rebase ::
  "(str, rope_info) node_info \<Rightarrow> (full_priority \<times> subset) list \<Rightarrow> delta_op list \<Rightarrow> rope \<Rightarrow> rope
   \<Rightarrow> subset \<Rightarrow> nat \<Rightarrow> ('s revision list \<times> rope \<times> rope \<times> subset) option" where
  "rebase ni expand_by b_new text tombstones deletes_from_union max_undo_so_far = do {
     st \<leftarrow> foldM (rebase_op ni) b_new
       \<lparr>rs_out = [], rs_text = text, rs_tombstones = tombstones, rs_deletes = deletes_from_union,
        rs_max_undo = max_undo_so_far, rs_expand_by = expand_by\<rparr>;
     Some (rs_out st, rs_text st, rs_tombstones st, rs_deletes st) }"

definition merge_undo_revision ::
  "'s engine \<Rightarrow> rev_id \<Rightarrow> nat \<Rightarrow> 's \<Rightarrow> 's engine option" where
  "merge_undo_revision e r max_undo_so_far toggled_groups = do {
     own_max \<leftarrow> max_undo_group_id e;
     empty \<leftarrow> subset_new (subset_len (en_deletes e));
     Some (e\<lparr>en_revs := en_revs e @ [\<lparr>rev_rev_id = r, rev_max_undo = max max_undo_so_far own_max,
       rev_edit = Undo toggled_groups empty\<rparr>]\<rparr>) }"

definition all_toggled :: "'s ord_set \<Rightarrow> 's revision list \<Rightarrow> 's" where
  "all_toggled os revs =
     fold (\<lambda>r groups. case rev_edit r of
         Undo toggled_groups _ \<Rightarrow>
           if \<not> os_is_empty os toggled_groups then os_symmetric_difference os groups toggled_groups
           else groups
       | Edit _ _ _ _ \<Rightarrow> groups) revs (os_new os)"

definition reconcile_undo_state :: "'s engine_env \<Rightarrow> 's engine \<Rightarrow> 's engine option" where
  "reconcile_undo_state env e = do {
     let groups = all_toggled (ee_os env) (en_revs e);
     new_deletes \<leftarrow> deletes_from_union_for_undone_groups env e groups;
     e \<leftarrow> (if new_deletes \<noteq> en_deletes e then do {
            (new_text, new_tombstones) \<leftarrow> shuffle (ee_ni env) (en_text e) (en_tombstones e)
              (en_deletes e) new_deletes;
            Some (e\<lparr>en_text := new_text, en_tombstones := new_tombstones, en_deletes := new_deletes\<rparr>) }
          else Some e);
     Some (e\<lparr>en_undone := groups\<rparr>) }"

definition merge :: "'s engine_env \<Rightarrow> 's engine \<Rightarrow> 's engine \<Rightarrow> 's engine option" where
  "merge env e other = do {
     let base_index = find_base_index (en_revs e) (en_revs other);
     let a_to_merge = drop base_index (en_revs e);
     let b_to_merge = drop base_index (en_revs other);
     let common = find_common a_to_merge b_to_merge;
     let remote_undos =
       List.map_filter (\<lambda>r. case rev_edit r of
           Undo toggled_groups _ \<Rightarrow> Some (rev_rev_id r, rev_max_undo r, toggled_groups)
         | Edit _ _ _ _ \<Rightarrow> None)
         (filter (\<lambda>r. rev_rev_id r \<notin> set common) b_to_merge);
     a_new \<leftarrow> rearrange a_to_merge common (subset_len (en_deletes e));
     b_new \<leftarrow> rearrange b_to_merge common (subset_len (en_deletes other));
     b_deltas \<leftarrow> compute_deltas (ee_ni env) b_new (en_text other) (en_tombstones other)
       (en_deletes other);
     expand_by \<leftarrow> compute_transforms a_new;
     max_undo \<leftarrow> max_undo_group_id e;
     (new_revs, text, tombstones, deletes) \<leftarrow> rebase (ee_ni env) expand_by b_deltas (en_text e)
       (en_tombstones e) (en_deletes e) max_undo;
     let e = e\<lparr>en_text := text, en_tombstones := tombstones, en_deletes := deletes,
               en_revs := en_revs e @ new_revs\<rparr>;
     e \<leftarrow> foldM (\<lambda>(r, max_undo_so_far, toggled_groups) e.
         merge_undo_revision e r max_undo_so_far toggled_groups) remote_undos e;
     reconcile_undo_state env e }"

end
