(* ===== verification/Rope_Engine_Laws.thy ===== *)
theory Rope_Engine_Laws
  imports Rope_Engine
begin

text \<open>
  Correctness of the engine's bookkeeping: an algebra of labels over a union string, the invariant
  that ties text, tombstones and deletions of an engine to its revisions, and \<^verbatim>\<open>undo\<close>, whose
  incremental recomputation agrees with a replay of all revisions.
\<close>

section \<open>Algebra of labels\<close>

lemma kept_zero: "\<forall>c \<in> set cs. c = 0 \<Longrightarrow> length cs = length us \<Longrightarrow> kept cs us = us"
  by (simp add: sel_all)

lemma cexpand_zero: "\<forall>c \<in> set cs. c = 0 \<Longrightarrow> length xs = length cs \<Longrightarrow> cexpand un xs cs = xs"
proof (induction un xs cs rule: cexpand.induct)
  case (2 un xs c cs)
  then show ?case by (cases xs) auto
qed simp

lemma map2_plus_zero: "\<forall>c \<in> set ds. c = 0 \<Longrightarrow> length xs = length ds \<Longrightarrow> map2 (+) xs ds = (xs :: nat list)"
  by (induction xs ds rule: list_induct2') auto

lemma kept_complement: "kept (map (\<lambda>c. if c = 0 then 1 else 0) cs) us = removed cs us"
  "removed (map (\<lambda>c. if c = 0 then 1 else 0) cs) us = kept cs us"
proof -
  have "(\<lambda>c. (if c = 0 then 1 else 0 :: nat) = 0) = (\<lambda>c :: nat. c \<noteq> 0)"
    "(\<lambda>c. (if c = 0 then 1 else 0 :: nat) \<noteq> 0) = (\<lambda>c :: nat. c = 0)" by auto
  then show "kept (map (\<lambda>c. if c = 0 then 1 else 0) cs) us = removed cs us"
    "removed (map (\<lambda>c. if c = 0 then 1 else 0) cs) us = kept cs us"
    unfolding sel_map_labels by simp_all
qed

lemma kept_plus:
  "length a = length us \<Longrightarrow> length b = length us \<Longrightarrow>
    kept (map2 (+) a b) us = kept (kept a b) (kept a us)"
proof (induction a us arbitrary: b rule: list_induct2)
  case (Cons x a y us)
  then show ?case by (cases b) auto
qed simp

text \<open>How labels spread over a text with inserts are seen through deletions spread over it.\<close>

lemma kept_cexpand_both:
  "length X = cnt (\<lambda>c. c = 0) L \<Longrightarrow> length N = length X \<Longrightarrow>
    kept (cexpand False X L) (cexpand False N L) = cexpand False (kept X N) (kept (cexpand False X L) L)"
proof (induction False X L arbitrary: N rule: cexpand.induct)
  case (2 X c L)
  show ?case
  proof (cases "c = 0")
    case True
    with "2.prems" obtain x X' n N' where "X = x # X'" "N = n # N'"
      by (cases X; cases N) auto
    with 2 True show ?thesis by auto
  next
    case False
    with 2 show ?thesis by auto
  qed
qed simp

lemma kept_cexpand_same: "length N = cnt (\<lambda>c. c = 0) X \<Longrightarrow> kept X (cexpand un N X) = N"
  by simp

lemma kept_cexpand_union:
  "length X = cnt (\<lambda>c. c = 0) is \<Longrightarrow> length N = length X \<Longrightarrow>
    kept (cexpand True X is) (cexpand False N is) = kept X N"
proof (induction True X "is" arbitrary: N rule: cexpand.induct)
  case (2 X c "is")
  show ?case
  proof (cases "c = 0")
    case True
    with "2.prems" obtain x X' n N' where "X = x # X'" "N = n # N'"
      by (cases X; cases N) auto
    with 2 True show ?thesis by auto
  next
    case False
    with 2 show ?thesis by auto
  qed
qed simp

lemma kept_cexpand_compose:
  "length X = cnt (\<lambda>c. c = 0) is \<Longrightarrow> length is = cnt (\<lambda>c. c = 0) L \<Longrightarrow> length v = length L \<Longrightarrow>
    kept (cexpand False (cexpand True X is) L) v
      = kept (cexpand False X (kept (cexpand False is L) L)) (kept (cexpand False is L) v)"
proof (induction L arbitrary: X "is" v)
  case (Cons l L)
  then obtain y v' where v: "v = y # v'" by (cases v) auto
  show ?case
  proof (cases "l = 0")
    case l: True
    with Cons.prems obtain i is' where i: "is = i # is'" by (cases "is") auto
    show ?thesis
    proof (cases "i = 0")
      case True
      with Cons.prems i obtain x X' where "X = x # X'" by (cases X) auto
      with Cons l v i True show ?thesis by auto
    next
      case False
      with Cons l v i show ?thesis by auto
    qed
  next
    case False
    with Cons v show ?thesis by auto
  qed
qed simp

lemma aligned_cexpand_True:
  assumes "aligned start is us" "aligned start cs (kept is us)"
  shows "aligned start (cexpand True cs is) us"
proof -
  have "length cs = cnt (\<lambda>c. c = 0) is" using aligned_length [OF assms(2)] aligned_length [OF assms(1)] by simp
  then show ?thesis
    using aligned_map2 [OF aligned_cexpand [OF assms] assms(1), of "(+)"] by (simp add: cexpand_un_plus)
qed


section \<open>The document behind the history\<close>

text \<open>
  Revisions, newest first, over a union string: the inserts of an edit are labels of the string
  after it, and the string before it is what they keep.
\<close>

fun revs_shape :: "'s revision list \<Rightarrow> str \<Rightarrow> bool" where
  "revs_shape [] us = True"
| "revs_shape (r # rs) us =
     (case rev_edit r of
        Edit _ _ ins del \<Rightarrow> subset_wf ins \<and> subset_wf del \<and> aligned is_lead (counts ins) us
          \<and> aligned is_lead (counts del) us \<and> revs_shape rs (kept (counts ins) us)
      | Undo _ bx \<Rightarrow> subset_wf bx \<and> aligned is_lead (counts bx) us \<and> revs_shape rs us)"

fun base_union :: "'s revision list \<Rightarrow> 'a list \<Rightarrow> 'a list" where
  "base_union [] us = us"
| "base_union (r # rs) us =
     (case rev_edit r of
        Edit _ _ ins _ \<Rightarrow> base_union rs (kept (counts ins) us)
      | Undo _ _ \<Rightarrow> base_union rs us)"

lemma base_union_append: "base_union (rs @ rs') us = base_union rs' (base_union rs us)"
  by (induction rs arbitrary: us) (auto split: contents.splits)

lemma revs_shape_append:
  "revs_shape (rs @ rs') us \<longleftrightarrow> revs_shape rs us \<and> revs_shape rs' (base_union rs us)"
  by (induction rs arbitrary: us) (auto split: contents.splits)

text \<open>The deletions after a revision, when the groups that satisfy \<open>P\<close> are undone, and before it.\<close>

definition rdel :: "(nat \<Rightarrow> bool) \<Rightarrow> 's revision \<Rightarrow> nat list \<Rightarrow> nat list" where
  "rdel P r ds =
     (case rev_edit r of
        Edit _ g ins del \<Rightarrow>
          if P g then cexpand True ds (counts ins)
          else map2 (+) (cexpand False ds (counts ins)) (counts del)
      | Undo _ _ \<Rightarrow> ds)"

abbreviation replay :: "(nat \<Rightarrow> bool) \<Rightarrow> 's revision list \<Rightarrow> nat list \<Rightarrow> nat list" where
  "replay P revs ds \<equiv> fold (rdel P) revs ds"

definition rev_fits :: "'s revision \<Rightarrow> str \<Rightarrow> nat list \<Rightarrow> bool" where
  "rev_fits r us ds \<longleftrightarrow> revs_shape [r] us \<and> aligned is_lead ds (base_union [r] us)"

lemma rev_fits_rdel: "rev_fits r us ds \<Longrightarrow> aligned is_lead (rdel P r ds) us"
  by (auto simp: rev_fits_def rdel_def split: contents.splits
      intro: aligned_cexpand_True aligned_map2 aligned_cexpand)

lemma rev_fits_lengths:
  assumes "rev_fits r us ds" "rev_edit r = Edit p g ins del"
  shows "length ds = cnt (\<lambda>c. c = 0) (counts ins)" "length (counts del) = length (counts ins)"
    "length (counts ins) = length us" "enc (counts ins) = ins" "enc (counts del) = del"
proof -
  have al: "aligned is_lead (counts ins) us" "aligned is_lead (counts del) us"
    "aligned is_lead ds (kept (counts ins) us)" and wf: "subset_wf ins" "subset_wf del"
    using assms by (auto simp: rev_fits_def)
  show "length (counts ins) = length us" using al(1) by simp
  then show "length ds = cnt (\<lambda>c. c = 0) (counts ins)" "length (counts del) = length (counts ins)"
    using aligned_length [OF al(2)] aligned_length [OF al(3)] by simp_all
  show "enc (counts ins) = ins" "enc (counts del) = del" using wf by (simp_all add: enc_counts)
qed

lemma replay_rev_eq:
  assumes "rev_fits r us ds"
  shows "replay_rev os g r (enc ds) = Some (enc (rdel (os_contains os g) r ds))"
proof (cases "rev_edit r")
  case (Edit p grp ins del)
  note l = rev_fits_lengths [OF assms Edit]
  obtain "is" dl where e: "ins = enc is" "del = enc dl" using l(4,5) by metis
  have z: "length ds = cnt (\<lambda>c. c = 0) is" "length dl = length is"
    using l by (simp_all add: e)
  have zero: "cexpand un ds is = ds" "length ds = length is" if "\<forall>c \<in> set is. c = 0" for un
    using that z(1) cexpand_zero [OF that] by auto
  show ?thesis
    using z zero by (auto simp: replay_rev_def rdel_def Edit e map2_plus_zero)
qed (simp add: replay_rev_def rdel_def)

lemma revs_shape_snoc:
  assumes "revs_shape (rev (revs @ [r])) us"
  shows "revs_shape [r] us" "revs_shape (rev revs) (base_union [r] us)"
    "base_union (rev (revs @ [r])) us = base_union (rev revs) (base_union [r] us)"
  using assms by (auto split: contents.splits)

lemma replay_aligned:
  "revs_shape (rev revs) us \<Longrightarrow> aligned is_lead ds (base_union (rev revs) us) \<Longrightarrow>
    aligned is_lead (replay P revs ds) us"
proof (induction revs arbitrary: us rule: rev_induct)
  case (snoc r revs)
  note sn = revs_shape_snoc [OF snoc.prems(1)]
  have "rev_fits r us (replay P revs ds)"
    using snoc.IH [OF sn(2)] snoc.prems(2) sn by (simp add: rev_fits_def)
  then show ?case by (simp add: rev_fits_rdel)
qed simp

lemma replay_fits:
  assumes "revs_shape (rev (revs @ [r])) us" "aligned is_lead ds (base_union (rev (revs @ [r])) us)"
  shows "rev_fits r us (replay P revs ds)"
  using replay_aligned [OF revs_shape_snoc(2) [OF assms(1)]] assms revs_shape_snoc [OF assms(1)]
  by (simp add: rev_fits_def)

lemma replay_foldM:
  "revs_shape (rev revs) us \<Longrightarrow> aligned is_lead ds (base_union (rev revs) us) \<Longrightarrow>
    foldM (replay_rev os g) revs (enc ds) = Some (enc (replay (os_contains os g) revs ds))"
proof (induction revs arbitrary: us rule: rev_induct)
  case (snoc r revs)
  note sn = revs_shape_snoc [OF snoc.prems(1)]
  from snoc.IH [OF sn(2)] snoc.prems(2) sn(3) replay_rev_eq [OF replay_fits [OF snoc.prems]]
  show ?case by (simp add: foldM_append)
qed simp

text \<open>Taking a revision back undoes its replay.\<close>

lemma invert_rdel:
  assumes "rev_fits r us ds"
  shows "invert_rev os False r (enc (rdel (os_contains os g) r ds), g) = Some (enc ds, g)"
proof (cases "rev_edit r")
  case (Edit p grp ins del)
  note l = rev_fits_lengths [OF assms Edit]
  obtain "is" dl where e: "ins = enc is" "del = enc dl" using l(4,5) by metis
  have z: "length ds = cnt (\<lambda>c. c = 0) is" "length dl = length is"
    using l by (simp_all add: e)
  show ?thesis
    using z by (simp add: invert_rev_def rdel_def Edit e list_all2_plus map2_plus_minus)
qed (simp add: invert_rev_def rdel_def)

lemma invert_replay:
  assumes "revs_shape (rev (pre @ post)) us" "aligned is_lead ds (base_union (rev (pre @ post)) us)"
  shows "foldM (invert_rev os False) (rev post) (enc (replay (os_contains os g) (pre @ post) ds), g)
    = Some (enc (replay (os_contains os g) pre ds), g)"
  using assms
proof (induction post arbitrary: us rule: rev_induct)
  case (snoc r post)
  have sn: "revs_shape (rev ((pre @ post) @ [r])) us"
    "aligned is_lead ds (base_union (rev ((pre @ post) @ [r])) us)"
    using snoc.prems by simp_all
  note sh = revs_shape_snoc [OF sn(1)]
  from snoc.IH [OF sh(2)] sn(2) sh(3) invert_rdel [OF replay_fits [OF sn]]
  show ?case by simp
qed simp

lemma rdel_cong:
  "(\<And>p g ins del. rev_edit r = Edit p g ins del \<Longrightarrow> P g = Q g) \<Longrightarrow> rdel P r = rdel Q r"
  by (auto simp: rdel_def fun_eq_iff split: contents.splits)

lemma replay_cong:
  assumes "\<And>r p g ins del. r \<in> set revs \<Longrightarrow> rev_edit r = Edit p g ins del \<Longrightarrow> P g = Q g"
  shows "replay P revs ds = replay Q revs ds"
  using assms
proof (induction revs arbitrary: ds)
  case (Cons r revs)
  have "rdel P r = rdel Q r" by (rule rdel_cong) (rule Cons.prems [OF list.set_intros(1)])
  moreover have "replay P revs ds' = replay Q revs ds'" for ds'
    by (rule Cons.IH) (rule Cons.prems [OF list.set_intros(2)])
  ultimately show ?case by simp
qed simp


section \<open>The invariant\<close>

text \<open>
  Text and tombstones are the two halves of a union string, the deletions are what a replay of all
  revisions gives for the undone groups, and the maximal undo group of a revision bounds the groups
  of the edits up to it.
\<close>

definition undo_bounds :: "'s revision list \<Rightarrow> bool" where
  "undo_bounds revs \<longleftrightarrow> (\<forall>i < length revs. \<forall>j \<le> i.
     case rev_edit (revs ! j) of Edit _ g _ _ \<Rightarrow> g \<le> rev_max_undo (revs ! i) | Undo _ _ \<Rightarrow> True)"

definition rope_wf :: "byte_search \<Rightarrow> rope \<Rightarrow> bool" where
  "rope_wf lib n \<longleftrightarrow> node_wf (rope_ni lib) str_leaf_wf n"

abbreviation rope_text :: "rope \<Rightarrow> str" where
  "rope_text n \<equiv> node_content id n"

definition halves :: "byte_search \<Rightarrow> str \<Rightarrow> nat list \<Rightarrow> rope \<Rightarrow> rope \<Rightarrow> bool" where
  "halves lib us ds text tombstones \<longleftrightarrow> rope_wf lib text \<and> rope_text text = kept ds us
     \<and> rope_wf lib tombstones \<and> rope_text tombstones = removed ds us \<and> aligned is_lead ds us"

definition engine_inv :: "'s engine_env \<Rightarrow> 's engine \<Rightarrow> str \<Rightarrow> bool" where
  "engine_inv env e us \<longleftrightarrow> en_revs e \<noteq> [] \<and> subset_wf (en_deletes e)
     \<and> halves (ee_lib env) us (counts (en_deletes e)) (en_text e) (en_tombstones e)
     \<and> revs_shape (rev (en_revs e)) us
     \<and> starts_ok is_lead (base_union (rev (en_revs e)) us)
     \<and> counts (en_deletes e) = replay (os_contains (ee_os env) (en_undone e)) (en_revs e)
         (replicate (length (base_union (rev (en_revs e)) us)) 0)
     \<and> undo_bounds (en_revs e)"

lemma undo_bounds_snoc:
  assumes "undo_bounds revs" "revs \<noteq> []" "rev_max_undo (last revs) \<le> rev_max_undo r"
    and "\<And>p g ins del. rev_edit r = Edit p g ins del \<Longrightarrow> g \<le> rev_max_undo r"
  shows "undo_bounds (revs @ [r])"
  unfolding undo_bounds_def
proof (intro allI impI)
  fix i j assume i: "i < length (revs @ [r])" and j: "j \<le> i"
  let ?P = "\<lambda>j i. case rev_edit ((revs @ [r]) ! j) of Edit _ g _ _ \<Rightarrow> g \<le> rev_max_undo ((revs @ [r]) ! i)
    | Undo _ _ \<Rightarrow> True"
  consider "i < length revs" | "i = length revs" "j < length revs" | "i = length revs" "j = length revs"
    using i j by force
  then show "?P j i"
  proof cases
    case 1
    with j have eqs: "(revs @ [r]) ! i = revs ! i" "(revs @ [r]) ! j = revs ! j"
      by (simp_all add: nth_append)
    show ?thesis unfolding eqs using assms(1) j 1 by (simp add: undo_bounds_def)
  next
    case 2
    have "case rev_edit (revs ! j) of Edit _ g _ _ \<Rightarrow> g \<le> rev_max_undo (revs ! (length revs - 1)) | Undo _ _ \<Rightarrow> True"
      using assms(1,2) 2(2) by (simp add: undo_bounds_def)
    with 2 assms(2,3) show ?thesis
      by (auto simp: nth_append last_conv_nth split: contents.splits)
  next
    case 3
    with assms(4) show ?thesis by (auto split: contents.splits)
  qed
qed

context byte_search_laws
begin

text \<open>Moving characters between text and tombstones.\<close>

lemma shuffle_tombstones_spec:
  assumes h: "halves lib us ds t tb" and al: "aligned is_lead ds' us"
  obtains tb' where "shuffle_tombstones (rope_ni lib) t tb (enc ds) (enc ds') = Some tb'"
    "rope_wf lib tb'" "rope_text tb' = removed ds' us"
proof -
  let ?c = "\<lambda>ds :: nat list. map (\<lambda>c. if c = 0 then 1 else 0) ds"
  have ac: "aligned is_lead (?c ds) us" "aligned is_lead (?c ds') us"
    and wf: "node_wf (rope_ni lib) str_leaf_wf t" "node_wf (rope_ni lib) str_leaf_wf tb"
    and tx: "rope_text t = removed (?c ds) us" "rope_text tb = removed ds us"
    using h al unfolding halves_def rope_wf_def kept_complement by (blast intro: aligned_map)+
  obtain d where d: "synthesize (rope_ni lib) t (enc (?c ds)) (enc (?c ds')) = Some d"
    "base_len d = length (removed ds us)"
    "els_text id (removed ds us) (els d) = removed ds' us"
    "els_ok (rope_ni lib) str_leaf_wf is_lead (removed ds us) (els d)"
    by (rule str.synthesize_spec [OF ac wf(1) tx(1)]) (simp add: kept_complement)
  obtain n where "delta_apply (rope_ni lib) d tb = Some n" "node_wf (rope_ni lib) str_leaf_wf n"
    "rope_text n = els_text id (rope_text tb) (els d)"
    by (rule str.delta_apply_spec [OF wf(2), of d]) (simp_all add: tx(2) d del: neq0_conv)
  with d tx(2) that show thesis by (simp add: shuffle_tombstones_def rope_wf_def del: neq0_conv)
qed

lemma shuffle_spec:
  assumes h: "halves lib us ds t tb" and al: "aligned is_lead ds' us"
  obtains t' tb' where "shuffle (rope_ni lib) t tb (enc ds) (enc ds') = Some (t', tb')"
    "halves lib us ds' t' tb'"
proof -
  have wf: "node_wf (rope_ni lib) str_leaf_wf t" "node_wf (rope_ni lib) str_leaf_wf tb"
    and tx: "rope_text t = kept ds us" "rope_text tb = removed ds us" and ad: "aligned is_lead ds us"
    using h by (auto simp: halves_def rope_wf_def)
  obtain d where d: "synthesize (rope_ni lib) tb (enc ds) (enc ds') = Some d"
    "base_len d = length (kept ds us)" "els_text id (kept ds us) (els d) = kept ds' us"
    "els_ok (rope_ni lib) str_leaf_wf is_lead (kept ds us) (els d)"
    by (rule str.synthesize_spec [OF ad al wf(2) tx(2)])
  obtain n where n: "delta_apply (rope_ni lib) d t = Some n" "node_wf (rope_ni lib) str_leaf_wf n"
    "rope_text n = els_text id (rope_text t) (els d)"
    by (rule str.delta_apply_spec [OF wf(1), of d]) (simp_all add: tx(1) d)
  obtain tb' where "shuffle_tombstones (rope_ni lib) t tb (enc ds) (enc ds') = Some tb'"
    "rope_wf lib tb'" "rope_text tb' = removed ds' us"
    using h al by (rule shuffle_tombstones_spec)
  with d n al tx(1) that [of n tb'] show thesis
    by (simp add: shuffle_def halves_def rope_wf_def del: neq0_conv)
qed

end


section \<open>Undo\<close>

lemma find_rev_range_Some:
  "find P (rev [0..<n]) = Some i \<Longrightarrow> i < n \<and> P i \<and> (\<forall>j. i < j \<longrightarrow> j < n \<longrightarrow> \<not> P j)"
  by (induction n) (auto split: if_splits simp: less_Suc_eq)

lemma find_rev_range_None: "find P (rev [0..<n]) = None \<longleftrightarrow> (\<forall>j < n. \<not> P j)"
  by (auto simp: find_None_iff)

definition zeros :: "'s engine \<Rightarrow> str \<Rightarrow> nat list" where
  "zeros e us = replicate (length (base_union (rev (en_revs e)) us)) 0"

lemma map2_xor_zero:
  "length a = length b \<Longrightarrow> \<forall>c \<in> set (map2 Bit_Operations.xor a b). c = 0 \<Longrightarrow> a = (b :: nat list)"
proof (induction a b rule: list_induct2)
  case (Cons x a y b)
  then have "Bit_Operations.xor x y = 0" by simp
  then have "Bit_Operations.xor (Bit_Operations.xor x y) y = y" by simp
  then have "x = y" by (simp add: xor_xor_cancel)
  with Cons show ?case by simp
qed simp

lemma map2_xor_back:
  "length a = length b \<Longrightarrow> map2 Bit_Operations.xor b (map2 Bit_Operations.xor a b) = (a :: nat list)"
proof (induction a b rule: list_induct2)
  case (Cons x a y b)
  have "Bit_Operations.xor y (Bit_Operations.xor x y) = x"
    by (metis xor_xor_cancel xor.commute)
  with Cons show ?case by simp
qed simp

locale engine_laws =
  byte_search_laws "ee_lib env" + ord_set_laws "ee_os env" os_set
  for env :: "'s engine_env" and os_set :: "'s \<Rightarrow> nat set"
begin

abbreviation undone :: "'s \<Rightarrow> nat \<Rightarrow> bool" where
  "undone g \<equiv> os_contains (ee_os env) g"

lemma inv_facts:
  assumes "engine_inv env e us"
  shows "en_revs e \<noteq> []" "en_deletes e = enc (counts (en_deletes e))"
    "halves (ee_lib env) us (counts (en_deletes e)) (en_text e) (en_tombstones e)"
    "revs_shape (rev (en_revs e)) us"
    "aligned is_lead (zeros e us) (base_union (rev (en_revs e)) us)"
    "counts (en_deletes e) = replay (undone (en_undone e)) (en_revs e) (zeros e us)"
    "undo_bounds (en_revs e)" "aligned is_lead (counts (en_deletes e)) us"
proof -
  have "subset_wf (en_deletes e)" using assms unfolding engine_inv_def by blast
  then show "en_deletes e = enc (counts (en_deletes e))" by (simp only: enc_counts)
  have "starts_ok is_lead (base_union (rev (en_revs e)) us)" using assms unfolding engine_inv_def by blast
  then show "aligned is_lead (zeros e us) (base_union (rev (en_revs e)) us)"
    unfolding zeros_def by (rule aligned_replicate) simp
qed (use assms in \<open>unfold engine_inv_def zeros_def halves_def, blast+\<close>)

lemma empty_subset_spec:
  assumes "engine_inv env e us"
  shows "empty_subset_before_first_rev e = Some (enc (zeros e us))"
proof -
  note i = inv_facts [OF assms]
  obtain r rs where rs: "en_revs e = r # rs" using i(1) by (cases "en_revs e") auto
  let ?us = "base_union (rev rs) us"
  have sh: "revs_shape [r] ?us" "zeros e us = replicate (length (base_union [r] ?us)) 0"
    using i(4) by (simp_all add: rs revs_shape_append zeros_def base_union_append split: contents.splits)
  show ?thesis
  proof (cases "rev_edit r")
    case (Edit p g ins del)
    with sh have "length (counts ins) = length ?us" by (auto dest: aligned_length)
    with Edit sh show ?thesis
      by (simp add: empty_subset_before_first_rev_def rs subset_count_spec cmatch_fun)
  next
    case (Undo t bx)
    with sh have "length (counts bx) = length ?us" by (auto dest: aligned_length)
    with Undo sh show ?thesis
      by (simp add: empty_subset_before_first_rev_def rs subset_count_spec cmatch_fun)
  qed
qed

text \<open>A replay from the beginning, with any set of undone groups.\<close>

lemma full_replay_spec:
  assumes "engine_inv env e us"
  shows "deletes_from_union_for_undone_groups env e g
      = Some (enc (replay (undone g) (en_revs e) (zeros e us)))"
    "aligned is_lead (replay P (en_revs e) (zeros e us)) us"
  using empty_subset_spec [OF assms] replay_foldM [OF inv_facts(4,5) [OF assms]]
    replay_aligned [OF inv_facts(4,5) [OF assms]]
  by (simp_all add: deletes_from_union_for_undone_groups_def)

text \<open>
  The search for the first affected revision is sound: before it, both sets of groups undo the same
  edits, so the replay can start there.
\<close>

lemma candidate_prefix:
  assumes "engine_inv env e us"
    and "i = find_first_undo_candidate_index (ee_os env) e (os_symmetric_difference (ee_os env) (en_undone e) g)"
  shows "i \<le> length (en_revs e)"
    "replay (undone (en_undone e)) (take i (en_revs e)) ds = replay (undone g) (take i (en_revs e)) ds"
proof -
  let ?t = "os_symmetric_difference (ee_os env) (en_undone e) g" and ?n = "length (en_revs e)"
  have agree: "undone (en_undone e) x = undone g x" if "x \<notin> os_set ?t" for x
    using that by (auto simp: contains symmetric_difference)
  have "i \<le> ?n \<and> (\<forall>r p x ins del. r \<in> set (take i (en_revs e)) \<longrightarrow> rev_edit r = Edit p x ins del \<longrightarrow> x \<notin> os_set ?t)"
  proof (cases "os_first (ee_os env) ?t")
    case None
    then show ?thesis using assms(2) first_None [of ?t] by (simp add: find_first_undo_candidate_index_def)
  next
    case (Some lowest)
    show ?thesis
    proof (cases "find (\<lambda>i. rev_max_undo (en_revs e ! i) < lowest) (rev [0..<?n])")
      case None
      then show ?thesis using assms(2) Some by (simp add: find_first_undo_candidate_index_def)
    next
      case found: (Some k)
      then have k: "k < ?n" "rev_max_undo (en_revs e ! k) < lowest" and i: "i = k + 1"
        using find_rev_range_Some [OF found] assms(2) Some
        by (auto simp: find_first_undo_candidate_index_def)
      have "x \<notin> os_set ?t" if r: "r \<in> set (take i (en_revs e))" "rev_edit r = Edit p x ins del" for r p x ins del
      proof -
        obtain j where j: "j \<le> k" "en_revs e ! j = r"
          using r(1) i k by (auto simp: in_set_conv_nth less_Suc_eq_le)
        then have "x \<le> rev_max_undo (en_revs e ! k)"
          using inv_facts(7) [OF assms(1)] k(1) r(2) by (fastforce simp: undo_bounds_def)
        then have "x < lowest" using k(2) by simp
        with first_Some [OF Some] show ?thesis by auto
      qed
      with k i show ?thesis by auto
    qed
  qed
  then show "i \<le> ?n" "replay (undone (en_undone e)) (take i (en_revs e)) ds = replay (undone g) (take i (en_revs e)) ds"
    using agree by (auto intro!: replay_cong)
qed

lemma before_index_spec:
  assumes "engine_inv env e us" "i \<le> length (en_revs e)"
  shows "deletes_from_union_before_index env e i False
    = Some (enc (replay (undone (en_undone e)) (take i (en_revs e)) (zeros e us)))"
proof -
  note f = inv_facts [OF assms(1)]
  have "foldM (invert_rev (ee_os env) False) (rev (drop i (en_revs e)))
      (enc (replay (undone (en_undone e)) (take i (en_revs e) @ drop i (en_revs e)) (zeros e us)), en_undone e)
    = Some (enc (replay (undone (en_undone e)) (take i (en_revs e)) (zeros e us)), en_undone e)"
    by (rule invert_replay [of _ _ us]) (use f(4,5) in simp_all)
  moreover have "en_deletes e = enc (replay (undone (en_undone e)) (en_revs e) (zeros e us))"
    using f(2,6) by simp
  ultimately show ?thesis
    using assms(2) by (simp add: deletes_from_union_before_index_def)
qed

text \<open>The incremental computation of \<^verbatim>\<open>compute_undo\<close> agrees with the replay from the beginning.\<close>

lemma compute_undo_spec:
  fixes e :: "'s engine" and g :: 's
  assumes "engine_inv env e us"
  defines "ds \<equiv> replay (undone g) (en_revs e) (zeros e us)"
  obtains r where "compute_undo env e g = Some (r, enc ds)"
    "rev_edit r = Undo (os_symmetric_difference (ee_os env) (en_undone e) g)
       (enc (map2 Bit_Operations.xor (counts (en_deletes e)) ds))"
    "rev_max_undo r = rev_max_undo (last (en_revs e))" "rev_rev_id r = next_rev_id e"
proof -
  note f = inv_facts [OF assms(1)]
  define i where "i = find_first_undo_candidate_index (ee_os env) e
    (os_symmetric_difference (ee_os env) (en_undone e) g)"
  note c = candidate_prefix [OF assms(1) i_def]
  let ?pre = "replay (undone (en_undone e)) (take i (en_revs e)) (zeros e us)"
  have split: "en_revs e = take i (en_revs e) @ drop i (en_revs e)" by simp
  have "base_union (rev (en_revs e)) us = base_union (rev (take i (en_revs e))) (base_union (rev (drop i (en_revs e))) us)"
    by (subst split) (simp only: rev_append base_union_append)
  moreover have sh: "revs_shape (rev (drop i (en_revs e))) us"
    "revs_shape (rev (take i (en_revs e))) (base_union (rev (drop i (en_revs e))) us)"
    using f(4) by (subst (asm) split, simp only: rev_append revs_shape_append)+
  ultimately have "aligned is_lead ?pre (base_union (rev (drop i (en_revs e))) us)"
    using replay_aligned [OF sh(2)] f(5) by simp
  from replay_foldM [OF sh(1) this, of "ee_os env" g]
  have "foldM (replay_rev (ee_os env) g) (drop i (en_revs e)) (enc ?pre) = Some (enc ds)"
    unfolding c(2) ds_def by (subst (2) split) (simp only: fold_append comp_def)
  moreover have "length (counts (en_deletes e)) = length ds"
    using full_replay_spec(2) [OF assms(1), of "undone g"] f(8) by (simp add: ds_def)
  then have "subset_bitxor (en_deletes e) (enc ds)
      = Some (enc (map2 Bit_Operations.xor (counts (en_deletes e)) ds))"
    by (subst f(2)) simp
  ultimately have "compute_undo env e g = Some (\<lparr>rev_rev_id = next_rev_id e,
      rev_max_undo = rev_max_undo (last (en_revs e)),
      rev_edit = Undo (os_symmetric_difference (ee_os env) (en_undone e) g)
        (enc (map2 Bit_Operations.xor (counts (en_deletes e)) ds))\<rparr>, enc ds)"
    using before_index_spec [OF assms(1) c(1)] f(1)
    by (simp add: compute_undo_def i_def [symmetric] max_undo_group_id_def)
  then show thesis by (rule that) simp_all
qed


text \<open>What \<^verbatim>\<open>undo\<close> shows, and the invariant after it.\<close>

lemma undo_spec:
  fixes e :: "'s engine" and gs :: "nat list"
  assumes inv: "engine_inv env e us" and cnt: "en_rev_id_counter e + 1 < 2 ^ 32"
  defines "ds \<equiv> replay (\<lambda>x. x \<in> set gs) (en_revs e) (zeros e us)"
  obtains e' where "undo env e gs = Some e'" "engine_inv env e' us"
    "counts (en_deletes e') = ds" "en_undone e' = os_collect (ee_os env) gs"
    "counts (en_deletes e) \<noteq> ds \<Longrightarrow> \<exists>r t. en_revs e' = en_revs e @ [r]
       \<and> rev_edit r = Undo t (enc (map2 Bit_Operations.xor (counts (en_deletes e)) ds))
       \<and> os_set t = (os_set (en_undone e) - set gs) \<union> (set gs - os_set (en_undone e))
       \<and> rev_rev_id r = next_rev_id e \<and> en_rev_id_counter e' = en_rev_id_counter e + 1"
    "counts (en_deletes e) = ds \<Longrightarrow> e' = e\<lparr>en_undone := os_collect (ee_os env) gs\<rparr>"
proof -
  note f = inv_facts [OF inv]
  let ?g = "os_collect (ee_os env) gs"
  have und: "undone ?g = (\<lambda>x. x \<in> set gs)" by (simp add: fun_eq_iff contains collect)
  obtain r where r: "compute_undo env e ?g = Some (r, enc ds)"
    "rev_edit r = Undo (os_symmetric_difference (ee_os env) (en_undone e) ?g)
       (enc (map2 Bit_Operations.xor (counts (en_deletes e)) ds))"
    "rev_max_undo r = rev_max_undo (last (en_revs e))" "rev_rev_id r = next_rev_id e"
    using compute_undo_spec [OF inv, of ?g] unfolding und ds_def by metis
  have al: "aligned is_lead ds us" using full_replay_spec(2) [OF inv] by (simp add: ds_def)
  have len: "length (counts (en_deletes e)) = length ds" using al f(8) by (auto dest!: aligned_length)
  show thesis
  proof (cases "counts (en_deletes e) = ds")
    case True
    then have z: "\<forall>c \<in> set (map2 Bit_Operations.xor (counts (en_deletes e)) ds). c = 0"
      by (auto simp: set_zip)
    have "counts (en_deletes e) = replay (undone ?g) (en_revs e) (zeros e us)"
      unfolding und using True unfolding ds_def .
    moreover have fields: "en_revs (e\<lparr>en_undone := ?g\<rparr>) = en_revs e" "en_text (e\<lparr>en_undone := ?g\<rparr>) = en_text e"
      "en_tombstones (e\<lparr>en_undone := ?g\<rparr>) = en_tombstones e" "en_undone (e\<lparr>en_undone := ?g\<rparr>) = ?g"
      "en_deletes (e\<lparr>en_undone := ?g\<rparr>) = en_deletes e" by simp_all
    ultimately have "engine_inv env (e\<lparr>en_undone := ?g\<rparr>) us"
      using inv unfolding engine_inv_def zeros_def fields by (elim conjE) (intro conjI; assumption)
    with True r z that [of "e\<lparr>en_undone := ?g\<rparr>"] show thesis by (simp add: undo_def)
  next
    case False
    have nz: "\<not> subset_is_empty (enc (map2 Bit_Operations.xor (counts (en_deletes e)) ds))"
      unfolding subset_is_empty_enc using map2_xor_zero [OF len] False by blast
    obtain t tb where sh: "shuffle (ee_ni env) (en_text e) (en_tombstones e)
        (enc (counts (en_deletes e))) (enc ds) = Some (t, tb)" "halves (ee_lib env) us ds t tb"
      using f(3) al by (rule shuffle_spec)
    define e' where "e' = e\<lparr>en_text := t, en_tombstones := tb, en_deletes := enc ds,
      en_undone := ?g, en_revs := en_revs e @ [r], en_rev_id_counter := en_rev_id_counter e + 1\<rparr>"
    have u: "undo env e gs = Some e'"
      using r nz sh(1) cnt f(2) by (simp add: undo_def u32_succ_def e'_def Let_def del: subset_is_empty_enc)
    have "rev_fits r us ds" "rdel P r x = x" "base_union [r] x' = x'" for P x and x' :: str
      using r(2) al f(8) by (simp_all add: rev_fits_def rdel_def aligned_map2)
    moreover from this have "revs_shape [r] us" unfolding rev_fits_def by blast
    moreover have "undo_bounds (en_revs e @ [r])"
      using undo_bounds_snoc [OF f(7,1), of r] r(2,3) by simp
    ultimately have "engine_inv env e' us"
      using inv sh(2) r(2) unfolding engine_inv_def ds_def zeros_def e'_def by (simp add: und)
    moreover have "os_set (os_symmetric_difference (ee_os env) (en_undone e) ?g)
        = (os_set (en_undone e) - set gs) \<union> (set gs - os_set (en_undone e))"
      by (simp add: symmetric_difference collect)
    ultimately show thesis
      using that [OF u] False r(2,4) by (simp add: e'_def)
  qed
qed

lemma undo_replay:
  assumes inv: "engine_inv env e us" and cnt: "en_rev_id_counter e + 1 < 2 ^ 32" and u: "undo env e gs = Some e'"
  shows "engine_inv env e' us" "rope_text (en_text e') = kept (replay (\<lambda>x. x \<in> set gs) (en_revs e) (zeros e us)) us"
    "replay P (en_revs e') (zeros e' us) = replay P (en_revs e) (zeros e us)"
    "en_rev_id_counter e' \<le> en_rev_id_counter e + 1"
proof -
  let ?ds = "replay (\<lambda>x. x \<in> set gs) (en_revs e) (zeros e us)"
  obtain e1 where e1: "undo env e gs = Some e1" "engine_inv env e1 us" "counts (en_deletes e1) = ?ds"
    "counts (en_deletes e) \<noteq> ?ds \<Longrightarrow> \<exists>r t. en_revs e1 = en_revs e @ [r]
       \<and> rev_edit r = Undo t (enc (map2 Bit_Operations.xor (counts (en_deletes e)) ?ds))
       \<and> os_set t = (os_set (en_undone e) - set gs) \<union> (set gs - os_set (en_undone e))
       \<and> rev_rev_id r = next_rev_id e \<and> en_rev_id_counter e1 = en_rev_id_counter e + 1"
    "counts (en_deletes e) = ?ds \<Longrightarrow> e1 = e\<lparr>en_undone := os_collect (ee_os env) gs\<rparr>"
    using undo_spec [OF inv cnt, of gs] by metis
  have e': "e' = e1" using u e1(1) by simp
  show "engine_inv env e' us" using e1(2) e' by simp
  show "rope_text (en_text e') = kept ?ds us"
    using inv_facts(3) [OF e1(2)] unfolding halves_def e' e1(3) by blast
  show "replay P (en_revs e') (zeros e' us) = replay P (en_revs e) (zeros e us)"
    "en_rev_id_counter e' \<le> en_rev_id_counter e + 1"
    using e1(4,5) unfolding e' by (cases "counts (en_deletes e) = ?ds"; auto simp: zeros_def rdel_def)+
qed

lemma undo_replays_all:
  assumes inv: "engine_inv env e us" and cnt: "en_rev_id_counter e + 1 < 2 ^ 32"
  shows "\<exists>e'. undo env e gs = Some e' \<and> engine_inv env e' us
    \<and> deletes_from_union_for_undone_groups env e (os_collect (ee_os env) gs) = Some (en_deletes e')
    \<and> os_set (en_undone e') = set gs"
proof -
  let ?ds = "replay (\<lambda>x. x \<in> set gs) (en_revs e) (zeros e us)"
  obtain e' where e': "undo env e gs = Some e'" "engine_inv env e' us" "counts (en_deletes e') = ?ds"
    "en_undone e' = os_collect (ee_os env) gs"
    using undo_spec [OF inv cnt, of gs] by metis
  have "undone (os_collect (ee_os env) gs) = (\<lambda>x. x \<in> set gs)" by (simp add: fun_eq_iff contains collect)
  then have "deletes_from_union_for_undone_groups env e (os_collect (ee_os env) gs) = Some (en_deletes e')"
    using full_replay_spec(1) [OF inv] inv_facts(2) [OF e'(2)] e'(3) by simp
  with e' collect show ?thesis by auto
qed

lemma undo_undo:
  assumes inv: "engine_inv env e us" and cnt: "en_rev_id_counter e + 2 < 2 ^ 32"
    and u: "undo env e gs = Some e1" "undo env e1 hs = Some e2"
  shows "\<exists>e3. undo env e hs = Some e3 \<and> rope_text (en_text e2) = rope_text (en_text e3)
    \<and> (set hs = os_set (en_undone e) \<longrightarrow> rope_text (en_text e2) = rope_text (en_text e))"
proof -
  have c: "en_rev_id_counter e + 1 < 2 ^ 32" using cnt by simp
  note 1 = undo_replay [OF inv c u(1)]
  have c1: "en_rev_id_counter e1 + 1 < 2 ^ 32" using 1(4) cnt by simp
  let ?ds = "replay (\<lambda>x. x \<in> set hs) (en_revs e) (zeros e us)"
  have 2: "rope_text (en_text e2) = kept ?ds us"
    using undo_replay(2) [OF 1(1) c1 u(2)] 1(3) by simp
  obtain e3 where e3: "undo env e hs = Some e3" using undo_replays_all [OF inv c] by blast
  have "rope_text (en_text e) = kept ?ds us" if "set hs = os_set (en_undone e)"
  proof -
    have "undone (en_undone e) = (\<lambda>x. x \<in> set hs)" using that by (simp add: fun_eq_iff contains)
    then show ?thesis using inv_facts(3,6) [OF inv] unfolding halves_def by metis
  qed
  with 2 e3 undo_replay(2) [OF inv c e3] show ?thesis by auto
qed

end

end
