(* ===== verification/Rope_History_Laws.thy ===== *)
theory Rope_History_Laws
  imports Rope_Engine_Laws
begin

text \<open>
  The history of an engine: every revision back is possible and gives the document as it was, edits
  may be based on any revision, and both \<^verbatim>\<open>undo\<close> and edits only add documents to the history.
\<close>

section \<open>History\<close>

text \<open>
  One revision back: the union string, the deletions and the undone groups before it.  \<open>hist_ok\<close> is
  what makes every step back possible, and \<open>hist_texts\<close> are the documents of all revisions.
\<close>

type_synonym doc_state = "str \<times> nat list \<times> (nat \<Rightarrow> bool)"

definition step_back :: "'s ord_set \<Rightarrow> 's revision \<Rightarrow> doc_state \<Rightarrow> doc_state" where
  "step_back os r = (\<lambda>(us, ds, P).
     case rev_edit r of
       Edit _ g ins del \<Rightarrow>
         (kept (counts ins) us, kept (counts ins) (if P g then ds else map2 (-) ds (counts del)), P)
     | Undo t bx \<Rightarrow> (us, map2 Bit_Operations.xor ds (counts bx), \<lambda>x. P x \<noteq> os_contains os t x))"

definition back_ok :: "'s revision \<Rightarrow> doc_state \<Rightarrow> bool" where
  "back_ok r = (\<lambda>(us, ds, P). aligned is_lead ds us
     \<and> (case rev_edit r of
          Edit _ g ins del \<Rightarrow> P g \<or> list_all2 (\<lambda>a b. b \<le> a) ds (counts del)
        | Undo _ _ \<Rightarrow> True))"

definition state_text :: "doc_state \<Rightarrow> str" where
  "state_text = (\<lambda>(us, ds, P). kept ds us)"

fun hist_ok :: "'s ord_set \<Rightarrow> 's revision list \<Rightarrow> doc_state \<Rightarrow> bool" where
  "hist_ok os [] s = aligned is_lead (fst (snd s)) (fst s)"
| "hist_ok os (r # rs) s \<longleftrightarrow> back_ok r s \<and> hist_ok os rs (step_back os r s)"

fun hist_texts :: "'s ord_set \<Rightarrow> 's revision list \<Rightarrow> doc_state \<Rightarrow> str list" where
  "hist_texts os [] s = []"
| "hist_texts os (r # rs) s = state_text s # hist_texts os rs (step_back os r s)"

lemma length_hist_texts [simp]: "length (hist_texts os rs s) = length rs"
  by (induction rs arbitrary: s) auto

lemma hist_texts_nth:
  "j < length rs \<Longrightarrow> hist_texts os rs s ! j = state_text (fold (step_back os) (take j rs) s)"
proof (induction rs arbitrary: s j)
  case (Cons r rs)
  then show ?case by (cases j) auto
qed simp

lemma hist_ok_aligned: "hist_ok os rs s \<Longrightarrow> aligned is_lead (fst (snd s)) (fst s)"
  by (cases rs) (auto simp: back_ok_def)

lemma hist_ok_append:
  "hist_ok os (rs @ rs') s \<Longrightarrow> hist_ok os rs s \<and> hist_ok os rs' (fold (step_back os) rs s)"
proof (induction rs arbitrary: s)
  case Nil
  then show ?case by (simp add: hist_ok_aligned)
qed simp

lemma back_union: "fst (step_back os r s) = base_union [r] (fst s)"
  by (auto simp: step_back_def split: contents.splits prod.splits)

lemma fold_back_union: "fst (fold (step_back os) rs s) = base_union rs (fst s)"
proof (induction rs arbitrary: s)
  case (Cons r rs)
  then show ?case using base_union_append [of "[r]" rs "fst s"] by (simp add: back_union)
qed simp

text \<open>The deletions of an old revision, seen in the current union string.\<close>

fun lift_dels :: "'s revision list \<Rightarrow> nat list \<Rightarrow> nat list" where
  "lift_dels [] ds = ds"
| "lift_dels (r # rs) ds =
     (case rev_edit r of
        Edit _ _ ins _ \<Rightarrow> cexpand True (lift_dels rs ds) (counts ins)
      | Undo _ _ \<Rightarrow> lift_dels rs ds)"

lemma lift_dels_spec:
  "revs_shape rs us \<Longrightarrow> aligned is_lead ds (base_union rs us) \<Longrightarrow>
    aligned is_lead (lift_dels rs ds) us \<and> kept (lift_dels rs ds) us = kept ds (base_union rs us)"
proof (induction rs arbitrary: us)
  case (Cons r rs)
  show ?case
  proof (cases "rev_edit r")
    case (Edit p g ins del)
    with Cons have al: "aligned is_lead (counts ins) us"
      and IH: "aligned is_lead (lift_dels rs ds) (kept (counts ins) us)"
        "kept (lift_dels rs ds) (kept (counts ins) us) = kept ds (base_union rs (kept (counts ins) us))"
      by auto
    have "length (lift_dels rs ds) = cnt (\<lambda>c. c = 0) (counts ins)"
      using aligned_length [OF IH(1)] aligned_length [OF al] by simp
    with Edit al IH show ?thesis
      by (simp add: aligned_cexpand_True sel_cexpand_True)
  qed (use Cons in auto)
qed simp

lemma union_later_inserts_eq:
  assumes "revs_shape [r] us" "aligned is_lead ds (base_union [r] us)"
  shows "union_later_inserts r (enc ds) = Some (enc (lift_dels [r] ds))"
proof (cases "rev_edit r")
  case (Edit p g ins del)
  note l = rev_fits_lengths [OF _ Edit, of us ds]
  have fits: "rev_fits r us ds" using assms by (simp add: rev_fits_def)
  obtain "is" where e: "ins = enc is" using l(4) [OF fits] by metis
  have len: "length ds = cnt (\<lambda>c. c = 0) is" using l(1) [OF fits] by (simp add: e)
  have zero: "cexpand True ds is = ds" if "\<forall>c \<in> set is. c = 0"
    using that len cexpand_zero [OF that] by auto
  show ?thesis using len zero by (auto simp: union_later_inserts_def Edit e)
qed (simp add: union_later_inserts_def)

lemma union_later_foldM:
  "revs_shape rs us \<Longrightarrow> aligned is_lead ds (base_union rs us) \<Longrightarrow>
    foldM union_later_inserts (rev rs) (enc ds) = Some (enc (lift_dels rs ds))"
proof (induction rs arbitrary: us)
  case (Cons r rs)
  have sh: "revs_shape [r] us" "revs_shape rs (base_union [r] us)"
    "aligned is_lead ds (base_union rs (base_union [r] us))"
    using Cons.prems revs_shape_append [of "[r]" rs us] base_union_append [of "[r]" rs us] by simp_all
  have "aligned is_lead (lift_dels rs ds) (base_union [r] us)"
    using lift_dels_spec [OF sh(2,3)] by blast
  from union_later_inserts_eq [OF sh(1) this] Cons.IH [OF sh(2,3)]
  show ?case by (simp add: foldM_append split: contents.splits)
qed simp

context ord_set_laws
begin

lemma invert_rev_back:
  assumes "revs_shape [r] us" "back_ok r (us, ds, os_contains os g)"
    and "step_back os r (us, ds, os_contains os g) = (us', ds', P')"
  shows "\<exists>g'. invert_rev os True r (enc ds, g) = Some (enc ds', g') \<and> os_contains os g' = P'
    \<and> revs_shape [r] us"
proof (cases "rev_edit r")
  case (Edit p grp ins del)
  have al: "aligned is_lead (counts ins) us" "aligned is_lead (counts del) us" "aligned is_lead ds us"
    and wf: "subset_wf ins" "subset_wf del"
    using assms(1,2) by (auto simp: Edit back_ok_def)
  obtain "is" dl where e: "ins = enc is" "del = enc dl" using wf by (auto simp: subset_wf_enc_iff)
  have len: "length is = length us" "length dl = length us" "length ds = length us"
    using al by (auto simp: e dest!: aligned_length)
  have le: "list_all2 (\<lambda>a b. b \<le> a) ds dl" if "\<not> os_contains os g grp"
    using assms(2) that by (simp add: back_ok_def Edit e)
  show ?thesis
  proof (cases "os_contains os g grp")
    case True
    with assms len show ?thesis by (simp add: invert_rev_def Edit e step_back_def)
  next
    case False
    with assms len le show ?thesis by (simp add: invert_rev_def Edit e step_back_def)
  qed
next
  case (Undo t bx)
  have al: "aligned is_lead (counts bx) us" "aligned is_lead ds us" and wf: "subset_wf bx"
    using assms(1,2) by (auto simp: Undo back_ok_def)
  obtain x where e: "bx = enc x" using wf by (auto simp: subset_wf_enc_iff)
  have "length ds = length x" using al by (auto simp: e dest!: aligned_length)
  moreover have "os_contains os (os_symmetric_difference os g t) = P'"
    using assms(3) by (auto simp: fun_eq_iff step_back_def Undo contains symmetric_difference)
  ultimately show ?thesis using assms(1,3) by (simp add: invert_rev_def Undo e step_back_def)
qed

lemma invert_foldM_back:
  "revs_shape rs us \<Longrightarrow> hist_ok os rs (us, ds, os_contains os g) \<Longrightarrow>
    fold (step_back os) rs (us, ds, os_contains os g) = (us', ds', P') \<Longrightarrow>
    \<exists>g'. foldM (invert_rev os True) rs (enc ds, g) = Some (enc ds', g') \<and> os_contains os g' = P'"
proof (induction rs arbitrary: us ds g)
  case (Cons r rs)
  obtain us1 ds1 P1 where b: "step_back os r (us, ds, os_contains os g) = (us1, ds1, P1)"
    by (metis prod_cases3)
  have sh: "revs_shape [r] us" "revs_shape rs us1"
    using Cons.prems(1) revs_shape_append [of "[r]" rs us] back_union [of os r "(us, ds, os_contains os g)"]
    by (simp_all add: b)
  obtain g1 where g1: "invert_rev os True r (enc ds, g) = Some (enc ds1, g1)" "os_contains os g1 = P1"
    using invert_rev_back [OF sh(1) _ b] Cons.prems(2) by auto
  have "hist_ok os rs (us1, ds1, os_contains os g1)"
    "fold (step_back os) rs (us1, ds1, os_contains os g1) = (us', ds', P')"
    using Cons.prems(2,3) by (simp_all add: b g1(2))
  from Cons.IH [OF sh(2) this] g1(1) show ?case by auto
qed auto

end


definition engine_state :: "'s engine_env \<Rightarrow> 's engine \<Rightarrow> str \<Rightarrow> doc_state" where
  "engine_state env e us = (us, counts (en_deletes e), os_contains (ee_os env) (en_undone e))"

definition engine_hist :: "'s engine_env \<Rightarrow> 's engine \<Rightarrow> str \<Rightarrow> bool" where
  "engine_hist env e us \<longleftrightarrow> hist_ok (ee_os env) (rev (en_revs e)) (engine_state env e us)"

text \<open>The documents of all revisions, in the order of the history.\<close>

definition engine_texts :: "'s engine_env \<Rightarrow> 's engine \<Rightarrow> str \<Rightarrow> str list" where
  "engine_texts env e us = rev (hist_texts (ee_os env) (rev (en_revs e)) (engine_state env e us))"

lemma length_engine_texts [simp]: "length (engine_texts env e us) = length (en_revs e)"
  by (simp add: engine_texts_def)

definition later :: "'s engine \<Rightarrow> nat \<Rightarrow> 's revision list" where
  "later e k = rev (drop (k + 1) (en_revs e))"

lemma engine_texts_nth:
  assumes "k < length (en_revs e)"
  shows "engine_texts env e us ! k
    = state_text (fold (step_back (ee_os env)) (later e k) (engine_state env e us))"
proof -
  have "take (length (en_revs e) - 1 - k) (rev (en_revs e)) = later e k"
    using assms by (simp add: later_def rev_drop)
  with assms show ?thesis by (simp add: engine_texts_def rev_nth hist_texts_nth)
qed

context engine_laws
begin

lemma state_at:
  assumes inv: "engine_inv env e us" "engine_hist env e us" and k: "k < length (en_revs e)"
  obtains ds where "deletes_from_union_for_index env e k = Some (enc ds)"
    "aligned is_lead ds (base_union (later e k) us)" "revs_shape (later e k) us"
    "kept ds (base_union (later e k) us) = engine_texts env e us ! k"
proof -
  note f = inv_facts [OF inv(1)]
  obtain us' ds P where st: "fold (step_back (ee_os env)) (later e k) (engine_state env e us) = (us', ds, P)"
    by (metis prod_cases3)
  have split: "rev (en_revs e) = later e k @ rev (take (k + 1) (en_revs e))"
    unfolding later_def by (metis append_take_drop_id rev_append)
  have sh: "revs_shape (later e k) us" using f(4) by (simp add: split revs_shape_append)
  have h: "hist_ok (ee_os env) (later e k) (engine_state env e us)"
    "hist_ok (ee_os env) (rev (take (k + 1) (en_revs e))) (us', ds, P)"
    using inv(2) hist_ok_append unfolding engine_hist_def split st [symmetric] by blast+
  have us': "us' = base_union (later e k) us"
    using fold_back_union [of "ee_os env" "later e k" "engine_state env e us"]
    unfolding st by (simp add: engine_state_def)
  obtain g' where "foldM (invert_rev (ee_os env) True) (later e k) (enc (counts (en_deletes e)), en_undone e)
      = Some (enc ds, g')"
    using invert_foldM_back [OF sh h(1) [unfolded engine_state_def] st [unfolded engine_state_def]] by blast
  then have "deletes_from_union_for_index env e k = Some (enc ds)"
    using k f(2) by (simp add: deletes_from_union_for_index_def deletes_from_union_before_index_def later_def)
  moreover have "aligned is_lead ds us'" using hist_ok_aligned [OF h(2)] by simp
  moreover have "kept ds us' = engine_texts env e us ! k"
    using engine_texts_nth [OF k, of env us] by (simp add: st state_text_def)
  ultimately show thesis using that sh unfolding us' by blast
qed

lemma cur_union_at:
  assumes inv: "engine_inv env e us" "engine_hist env e us" and k: "k < length (en_revs e)"
  obtains ds where "deletes_from_cur_union_for_index env e k = Some (enc ds)"
    "aligned is_lead ds us" "kept ds us = engine_texts env e us ! k"
proof -
  obtain ds where d: "deletes_from_union_for_index env e k = Some (enc ds)"
    "aligned is_lead ds (base_union (later e k) us)" "revs_shape (later e k) us"
    "kept ds (base_union (later e k) us) = engine_texts env e us ! k"
    using assms by (rule state_at)
  have "deletes_from_cur_union_for_index env e k = Some (enc (lift_dels (later e k) ds))"
    using d(1) k union_later_foldM [OF d(3,2)]
    by (simp add: deletes_from_cur_union_for_index_def later_def)
  with lift_dels_spec [OF d(3,2)] d(4) that show thesis by auto
qed

text \<open>An old revision reads as its document.\<close>

lemma rev_content_spec:
  assumes inv: "engine_inv env e us" "engine_hist env e us" and k: "k < length (en_revs e)"
  obtains n where "rev_content_for_index env e k = Some n" "rope_wf (ee_lib env) n"
    "rope_text n = engine_texts env e us ! k"
proof -
  note f = inv_facts [OF inv(1)]
  obtain ds where ds: "deletes_from_cur_union_for_index env e k = Some (enc ds)"
    "aligned is_lead ds us" "kept ds us = engine_texts env e us ! k"
    using assms by (rule cur_union_at)
  have wf: "node_wf (ee_ni env) str_leaf_wf (en_text e)" "node_wf (ee_ni env) str_leaf_wf (en_tombstones e)"
    and tx: "rope_text (en_text e) = kept (counts (en_deletes e)) us"
      "rope_text (en_tombstones e) = removed (counts (en_deletes e)) us"
    using f(3) unfolding halves_def rope_wf_def by blast+
  obtain d where d: "synthesize (ee_ni env) (en_tombstones e) (enc (counts (en_deletes e))) (enc ds) = Some d"
    "base_len d = length (kept (counts (en_deletes e)) us)"
    "els_text id (kept (counts (en_deletes e)) us) (els d) = kept ds us"
    "els_ok (ee_ni env) str_leaf_wf is_lead (kept (counts (en_deletes e)) us) (els d)"
    by (rule str.synthesize_spec [OF f(8) ds(2) wf(2) tx(2)])
  obtain n where n: "delta_apply (ee_ni env) d (en_text e) = Some n" "node_wf (ee_ni env) str_leaf_wf n"
    "rope_text n = els_text id (rope_text (en_text e)) (els d)"
    by (rule str.delta_apply_spec [OF wf(1), of d]) (simp_all add: tx(1) d)
  have "rev_content_for_index env e k = Some n"
    using ds(1) d(1) n(1) f(2) by (simp add: rev_content_for_index_def)
  with n d(3) ds(3) tx(1) that show thesis by (simp add: rope_wf_def)
qed

text \<open>The delta from an old revision to the head.\<close>

lemma delta_rev_head_spec:
  assumes inv: "engine_inv env e us" "engine_hist env e us" and k: "find_rev_token env e t = Some k"
  obtains d where "try_delta_rev_head env e t = Some (Inr d)"
    "base_len d = length (engine_texts env e us ! k)"
    "els_ok (ee_ni env) str_leaf_wf is_lead (engine_texts env e us ! k) (els d)"
    "els_text id (engine_texts env e us ! k) (els d) = rope_text (en_text e)"
proof -
  note f = inv_facts [OF inv(1)]
  have "k < length (en_revs e)"
    using k find_rev_range_Some unfolding find_rev_token_def by blast
  with inv obtain ds where ds: "deletes_from_cur_union_for_index env e k = Some (enc ds)"
    "aligned is_lead ds us" "kept ds us = engine_texts env e us ! k"
    by (rule cur_union_at)
  obtain tb where tb: "shuffle_tombstones (ee_ni env) (en_text e) (en_tombstones e)
      (enc (counts (en_deletes e))) (enc ds) = Some tb"
    "rope_wf (ee_lib env) tb" "rope_text tb = removed ds us"
    using f(3) ds(2) by (rule shuffle_tombstones_spec)
  obtain d where d: "synthesize (ee_ni env) tb (enc ds) (enc (counts (en_deletes e))) = Some d"
    "base_len d = length (kept ds us)"
    "els_text id (kept ds us) (els d) = kept (counts (en_deletes e)) us"
    "els_ok (ee_ni env) str_leaf_wf is_lead (kept ds us) (els d)"
    using ds(2) f(8) tb(2) [unfolded rope_wf_def] tb(3) by (rule str.synthesize_spec)
  have "try_delta_rev_head env e t = Some (Inr d)"
    using k ds(1) tb(1) d(1) f(2) by (simp add: try_delta_rev_head_def)
  moreover have "rope_text (en_text e) = kept (counts (en_deletes e)) us"
    using f(3) unfolding halves_def by blast
  ultimately show thesis using that d ds(3) by simp
qed

text \<open>The head is the last document of the history.\<close>

lemma head_text:
  assumes "engine_inv env e us"
  shows "rope_text (en_text e) = last (engine_texts env e us)"
proof -
  note f = inv_facts [OF assms]
  have "hd (hist_texts (ee_os env) (rev (en_revs e)) (engine_state env e us)) = kept (counts (en_deletes e)) us"
    using f(1) by (cases "rev (en_revs e)") (auto simp: engine_state_def state_text_def)
  moreover have "rope_text (en_text e) = kept (counts (en_deletes e)) us"
    using f(3) unfolding halves_def by blast
  moreover have "hist_texts (ee_os env) (rev (en_revs e)) (engine_state env e us) \<noteq> []"
    using f(1) by (metis length_hist_texts length_rev length_0_conv)
  ultimately show ?thesis by (simp add: engine_texts_def last_rev)
qed

lemma head_index:
  assumes "engine_inv env e us"
  shows "engine_texts env e us ! (length (en_revs e) - 1) = rope_text (en_text e)"
proof -
  have "engine_texts env e us \<noteq> []" using inv_facts(1) [OF assms] by (metis length_engine_texts length_0_conv)
  then show ?thesis using head_text [OF assms] by (simp add: last_conv_nth)
qed

text \<open>\<^verbatim>\<open>undo\<close> with a new revision keeps every document of the history.\<close>

lemma undo_history:
  assumes inv: "engine_inv env e us" "engine_hist env e us" and cnt: "en_rev_id_counter e + 1 < 2 ^ 32"
    and u: "undo env e gs = Some e'" and new: "en_revs e' \<noteq> en_revs e"
  shows "engine_hist env e' us" "engine_texts env e' us = engine_texts env e us @ [rope_text (en_text e')]"
proof -
  note f = inv_facts [OF inv(1)]
  let ?ds = "replay (\<lambda>x. x \<in> set gs) (en_revs e) (zeros e us)"
  obtain e1 where e1: "undo env e gs = Some e1" "engine_inv env e1 us" "counts (en_deletes e1) = ?ds"
    "en_undone e1 = os_collect (ee_os env) gs"
    "counts (en_deletes e) \<noteq> ?ds \<Longrightarrow> \<exists>r t. en_revs e1 = en_revs e @ [r]
       \<and> rev_edit r = Undo t (enc (map2 Bit_Operations.xor (counts (en_deletes e)) ?ds))
       \<and> os_set t = (os_set (en_undone e) - set gs) \<union> (set gs - os_set (en_undone e))
       \<and> rev_rev_id r = next_rev_id e \<and> en_rev_id_counter e1 = en_rev_id_counter e + 1"
    "counts (en_deletes e) = ?ds \<Longrightarrow> e1 = e\<lparr>en_undone := os_collect (ee_os env) gs\<rparr>"
    using undo_spec [OF inv(1) cnt, of gs] by metis
  have e': "e' = e1" using u e1(1) by simp
  have "counts (en_deletes e) \<noteq> ?ds" using e1(6) new by (auto simp: e')
  from e1(5) [OF this] obtain r t where r: "en_revs e1 = en_revs e @ [r]"
    "rev_edit r = Undo t (enc (map2 Bit_Operations.xor (counts (en_deletes e)) ?ds))"
    "os_set t = (os_set (en_undone e) - set gs) \<union> (set gs - os_set (en_undone e))" by blast
  have "length (counts (en_deletes e)) = length ?ds"
    using aligned_length [OF f(8)] aligned_length [OF inv_facts(8) [OF e1(2)]] by (simp add: e1(3))
  then have "map2 Bit_Operations.xor ?ds (map2 Bit_Operations.xor (counts (en_deletes e)) ?ds) = counts (en_deletes e)"
    by (rule map2_xor_back)
  moreover have "(\<lambda>x. undone (en_undone e1) x \<noteq> undone t x) = undone (en_undone e)"
    using r(3) by (auto simp: fun_eq_iff contains e1(4) collect)
  ultimately have "step_back (ee_os env) r (engine_state env e1 us) = engine_state env e us"
    by (simp add: step_back_def engine_state_def r(2) e1(3))
  moreover have "back_ok r (engine_state env e1 us)"
    using inv_facts(8) [OF e1(2)] by (simp add: back_ok_def engine_state_def r(2))
  moreover have "state_text (engine_state env e1 us) = rope_text (en_text e1)"
    using inv_facts(3) [OF e1(2)] by (simp add: state_text_def engine_state_def halves_def)
  ultimately show "engine_hist env e' us"
    "engine_texts env e' us = engine_texts env e us @ [rope_text (en_text e')]"
    using inv(2) by (simp_all add: engine_hist_def engine_texts_def e' r(1))
qed

end



section \<open>Edits\<close>

text \<open>What the engine expects of a delta for a document.\<close>

definition delta_for :: "byte_search \<Rightarrow> str \<Rightarrow> (str, rope_info) delta \<Rightarrow> bool" where
  "delta_for lib t d \<longleftrightarrow> base_len d = length t \<and> delta_wf d
     \<and> els_ok (rope_ni lib) str_leaf_wf is_lead t (els d)
     \<and> (\<forall>n. Insert n \<in> set (els d) \<longrightarrow> 0 < n_len n)"

lemma removed_cexpand_False:
  "length ds = cnt (\<lambda>c. c = 0) L \<Longrightarrow> length us = length L \<Longrightarrow>
    removed (cexpand False ds L) us = removed ds (kept L us)"
proof (induction False ds L arbitrary: us rule: cexpand.induct)
  case (2 ds c L)
  obtain u us' where us: "us = u # us'" using "2.prems"(2) by (cases us) auto
  show ?case
  proof (cases "c = 0")
    case True
    with "2.prems" obtain x ds' where "ds = x # ds'" by (cases ds) auto
    with 2 True us show ?thesis by simp
  next
    case False
    with 2 us show ?thesis by simp
  qed
qed simp

lemma kept_cexpand_False_text:
  "length ds = cnt (\<lambda>c. c = 0) L \<Longrightarrow> length us = length L \<Longrightarrow>
    kept ds (kept L us) = kept (map2 (+) (cexpand False ds L) L) us"
  by (simp add: cexpand_un_plus sel_cexpand_True)

text \<open>
  A rebased edit over the union string \<open>us\<close>: hiding what the labels \<open>cs\<close> hide gives back the inserts
  \<open>L0\<close> into the text \<open>tx\<close> and the deletions \<open>del0\<close> of the original edit.
\<close>

definition rebased ::
  "byte_search \<Rightarrow> str \<Rightarrow> nat list \<Rightarrow> str \<Rightarrow> nat list \<Rightarrow> nat list
   \<Rightarrow> (str, rope_info) insert_delta \<times> subset \<Rightarrow> bool" where
  "rebased lib us cs tx L0 del0 = (\<lambda>(d, nd).
     aligned is_lead cs us \<and> base_len d = length us \<and> ins_ok (els d) 0 (length us)
     \<and> els_ok (rope_ni lib) str_leaf_wf is_lead us (els d) \<and> els_nonempty (els d)
     \<and> subset_wf nd \<and> aligned is_lead (counts nd) us \<and> kept cs (counts nd) = del0
     \<and> kept (cexpand False cs (ins_labels (els d))) (els_text id us (els d)) = tx
     \<and> kept (cexpand False cs (ins_labels (els d))) (ins_labels (els d)) = L0)"

context byte_search_laws
begin

lemma rebased_facts:
  assumes "rebased lib us cs tx L0 del0 (d, nd)"
  shows "length (ins_labels (els d)) = length (els_text id us (els d))"
    "kept (ins_labels (els d)) (els_text id us (els d)) = us"
    "aligned is_lead (ins_labels (els d)) (els_text id us (els d))"
    "length cs = cnt (\<lambda>c. c = 0) (ins_labels (els d))" "length (counts nd) = length cs"
proof -
  have a: "ins_ok (els d) 0 (length us)" "els_ok (rope_ni lib) str_leaf_wf is_lead us (els d)"
    "length cs = length us" "length (counts nd) = length us"
    using assms by (auto simp: rebased_def dest: aligned_length)
  show "length (ins_labels (els d)) = length (els_text id us (els d))"
    "kept (ins_labels (els d)) (els_text id us (els d)) = us"
    using str.etext_labels [OF a(1,2)] by simp_all
  show "aligned is_lead (ins_labels (els d)) (els_text id us (els d))"
    using a(2) by (rule str.aligned_ins_labels)
  show "length cs = cnt (\<lambda>c. c = 0) (ins_labels (els d))" using cnt_ins_labels [OF a(1)] a(3) by simp
  show "length (counts nd) = length cs" using a by simp
qed

lemma rebased_step:
  assumes r: "rebased lib (kept is us) cs tx L0 del0 (d, nd)" and al: "aligned is_lead is us"
  obtains d' where "ins_transform_expand d (enc is) after = Some d'"
    "transform_expand nd (enc is) = Some (enc (cexpand False (counts nd) is))"
    "rebased lib us (cexpand True cs is) tx L0 del0 (d', enc (cexpand False (counts nd) is))"
proof -
  note rf = rebased_facts [OF r]
  let ?L = "ins_labels (els d)"
  have r': "aligned is_lead cs (kept is us)" "ins_ok (els d) 0 (length (kept is us))"
    "els_ok (rope_ni lib) str_leaf_wf is_lead (kept is us) (els d)" "els_nonempty (els d)"
    "subset_wf nd" "aligned is_lead (counts nd) (kept is us)" "kept cs (counts nd) = del0"
    "kept (cexpand False cs ?L) (els_text id (kept is us) (els d)) = tx" "kept (cexpand False cs ?L) ?L = L0"
    using r by (auto simp: rebased_def)
  have pos: "\<forall>n. Insert n \<in> set (els d) \<longrightarrow> 0 < n_len n" using r'(4) by (auto simp: els_nonempty_def)
  obtain d' where d': "ins_transform_expand d (enc is) after = Some d'" "base_len d' = length us"
    "ins_ok (els d') 0 (length us)" "els_ok (rope_ni lib) str_leaf_wf is_lead us (els d')"
    "els_nonempty (els d')"
    "kept (cexpand False is (ins_labels (els d'))) (els_text id us (els d')) = els_text id (kept is us) (els d)"
    "kept (cexpand False is (ins_labels (els d'))) (ins_labels (els d')) = ?L"
    using al r'(2,3) pos by (rule str.ins_transform_expand_spec)
  let ?L' = "ins_labels (els d')"
  have len: "length cs = cnt (\<lambda>c. c = 0) is" "length (counts nd) = cnt (\<lambda>c. c = 0) is"
    "length is = cnt (\<lambda>c. c = 0) ?L'"
    using aligned_length [OF r'(1)] aligned_length [OF r'(6)] aligned_length [OF al]
      cnt_ins_labels [OF d'(3)] by simp_all
  have tl: "length (els_text id us (els d')) = length ?L'" using str.etext_labels(1) [OF d'(3,4)] by simp
  have "kept (cexpand False (cexpand True cs is) ?L') (els_text id us (els d')) = tx"
    "kept (cexpand False (cexpand True cs is) ?L') ?L' = L0"
    using kept_cexpand_compose [OF len(1,3) tl] kept_cexpand_compose [OF len(1,3), of ?L'] d'(6,7) r'(8,9)
    by simp_all
  moreover have "kept (cexpand True cs is) (cexpand False (counts nd) is) = del0"
    using kept_cexpand_union [OF len(1), of "counts nd"] len r'(7) by simp
  ultimately have "rebased lib us (cexpand True cs is) tx L0 del0 (d', enc (cexpand False (counts nd) is))"
    using d' r'(1,6) al by (simp add: rebased_def aligned_cexpand aligned_cexpand_True)
  moreover have "transform_expand nd (enc is) = Some (enc (cexpand False (counts nd) is))"
    using transform_expand_enc [OF len(2)] r'(5) by (simp add: enc_counts)
  ultimately show thesis using that d'(1) by blast
qed

lemma rebase_over_spec:
  assumes sh: "revs_shape [r] us" and rb: "rebased lib (base_union [r] us) cs tx L0 del0 (d, nd)"
  shows "\<exists>d' nd'. rebase_over fp r (d, nd) = Some (d', nd')
    \<and> rebased lib us (lift_dels [r] cs) tx L0 del0 (d', nd')"
proof (cases "rev_edit r")
  case (Edit p g ins del)
  obtain "is" where e: "ins = enc is" using sh by (auto simp: Edit subset_wf_enc_iff)
  have al: "aligned is_lead is us" and rb': "rebased lib (kept is us) cs tx L0 del0 (d, nd)"
    using sh rb by (simp_all add: Edit e)
  show ?thesis
  proof (cases "\<forall>c \<in> set is. c = 0")
    case True
    have "kept is us = us" using kept_zero [OF True, of us] aligned_length [OF al] by simp
    moreover have "length cs = length is"
      using rb' aligned_length [OF al] \<open>kept is us = us\<close> by (auto simp: rebased_def dest!: aligned_length)
    ultimately show ?thesis using rb' True cexpand_zero [OF True]
      by (simp add: rebase_over_def Edit e)
  next
    case False
    let ?after = "fp \<ge> FullPriority p (rid_session_id (rev_rev_id r))"
    obtain d' where "ins_transform_expand d (enc is) ?after = Some d'"
      "transform_expand nd (enc is) = Some (enc (cexpand False (counts nd) is))"
      "rebased lib us (cexpand True cs is) tx L0 del0 (d', enc (cexpand False (counts nd) is))"
      using rb' al by (rule rebased_step)
    with False show ?thesis by (auto simp: rebase_over_def Edit e Let_def)
  qed
qed (use rb in \<open>simp add: rebase_over_def\<close>)

lemma rebase_foldM:
  "revs_shape rs us \<Longrightarrow> rebased lib (base_union rs us) cs tx L0 del0 (d, nd) \<Longrightarrow>
    \<exists>d' nd'. foldM (rebase_over fp) (rev rs) (d, nd) = Some (d', nd')
      \<and> rebased lib us (lift_dels rs cs) tx L0 del0 (d', nd')"
proof (induction rs arbitrary: us)
  case (Cons r rs)
  have sh: "revs_shape [r] us" "revs_shape rs (base_union [r] us)"
    "rebased lib (base_union rs (base_union [r] us)) cs tx L0 del0 (d, nd)"
    using Cons.prems revs_shape_append [of "[r]" rs us] base_union_append [of "[r]" rs us] by simp_all
  obtain d1 nd1 where 1: "foldM (rebase_over fp) (rev rs) (d, nd) = Some (d1, nd1)"
    "rebased lib (base_union [r] us) (lift_dels rs cs) tx L0 del0 (d1, nd1)"
    using Cons.IH [OF sh(2,3)] by blast
  obtain d2 nd2 where "rebase_over fp r (d1, nd1) = Some (d2, nd2)"
    "rebased lib us (lift_dels [r] (lift_dels rs cs)) tx L0 del0 (d2, nd2)"
    using rebase_over_spec [OF sh(1) 1(2)] by blast
  with 1(1) show ?case by (simp add: foldM_append split: contents.splits)
qed auto

text \<open>The edit that a delta describes, as inserts and deletions over the union string of its base.\<close>

lemma rebased_factor:
  assumes d: "delta_for lib (kept ds us) d" and al: "aligned is_lead ds us"
  obtains ins dels d1 nd1 L0 tx where "delta_factor d = Some (ins, dels)" "base_len ins = length (kept ds us)"
    "ins_transform_expand ins (enc ds) True = Some d1" "transform_expand dels (enc ds) = Some nd1"
    "rebased lib us ds tx L0 (counts dels) (d1, nd1)"
    "kept (cexpand False (counts dels) L0) tx = els_text id (kept ds us) (els d)"
proof -
  let ?t = "kept ds us" and ?n = "length (kept ds us)"
  let ?I = "fac_ins (els d) 0 0 ?n" and ?D = "fac_del (els d) 0 ?n"
  have dd: "base_len d = ?n" "delta_wf d" "els_ok (rope_ni lib) str_leaf_wf is_lead ?t (els d)"
    "\<forall>n. Insert n \<in> set (els d) \<longrightarrow> 0 < n_len n"
    using d unfolding delta_for_def by blast+
  have c: "copies_ok (els d) 0 ?n" using dd(1,2) by (simp add: delta_wf_def)
  have cut0: "cut_ok is_lead ?t 0" using aligned_sel_starts [OF al] by (rule cut_ok_0)
  have fac: "delta_factor d = Some (\<lparr>els = ?I, base_len = ?n\<rparr>, enc ?D)"
    using delta_factor_eq [OF dd(2)] dd(1) by simp
  have I: "ins_ok ?I 0 ?n" "els_ok (rope_ni lib) str_leaf_wf is_lead ?t ?I" "els_nonempty ?I"
    using fac_ins_ok [OF c, of 0] str.eok_fac_ins [OF c dd(3) _ cut0 cut0] fac_ins_nonempty [OF dd(4)] by simp_all
  have pos: "\<forall>n. Insert n \<in> set ?I \<longrightarrow> 0 < n_len n" using I(3) by (auto simp: els_nonempty_def)
  obtain d1 where d1: "ins_transform_expand \<lparr>els = ?I, base_len = ?n\<rparr> (enc ds) True = Some d1"
    "base_len d1 = length us" "ins_ok (els d1) 0 (length us)"
    "els_ok (rope_ni lib) str_leaf_wf is_lead us (els d1)" "els_nonempty (els d1)"
    "kept (cexpand False ds (ins_labels (els d1))) (els_text id us (els d1)) = els_text id ?t ?I"
    "kept (cexpand False ds (ins_labels (els d1))) (ins_labels (els d1)) = ins_labels ?I"
    by (rule str.ins_transform_expand_spec [OF al, of "\<lparr>els = ?I, base_len = ?n\<rparr>" True]) (use I pos in simp_all)
  have aD: "aligned is_lead ?D ?t" using str.agn_fac_del [OF c dd(3) cut0] by simp
  have lenD: "length ?D = cnt (\<lambda>c. c = 0) ds" using aligned_length [OF aD] aligned_length [OF al] by simp
  have "rebased lib us ds (els_text id ?t ?I) (ins_labels ?I) ?D (d1, enc (cexpand False ?D ds))"
    using d1 al aligned_cexpand [OF al aD] lenD by (simp add: rebased_def)
  moreover have "kept (cexpand False ?D (ins_labels ?I)) (els_text id ?t ?I) = els_text id ?t (els d)"
    using str.factor_text [OF c dd(3), of 0 "[]"] by simp
  ultimately show thesis
    using that [OF fac _ d1(1) transform_expand_enc [OF lenD]] by simp
qed

text \<open>The intention of an edit, read off the rebased one.\<close>

lemma rebased_intention:
  assumes r: "rebased lib us cs tx L0 del0 (d, nd)"
  shows "kept (map2 (+) (cexpand False cs (ins_labels (els d))) (cexpand False (counts nd) (ins_labels (els d))))
      (els_text id us (els d)) = kept (cexpand False del0 L0) tx"
proof -
  note f = rebased_facts [OF r]
  let ?L = "ins_labels (els d)" and ?C = "cexpand False cs (ins_labels (els d))"
  have "kept (map2 (+) ?C (cexpand False (counts nd) ?L)) (els_text id us (els d))
      = kept (kept ?C (cexpand False (counts nd) ?L)) (kept ?C (els_text id us (els d)))"
    by (rule kept_plus) (simp_all add: f(1))
  moreover have "kept ?C (cexpand False (counts nd) ?L) = cexpand False (kept cs (counts nd)) (kept ?C ?L)"
    by (rule kept_cexpand_both [OF f(4,5)])
  moreover have "kept cs (counts nd) = del0" "kept ?C (els_text id us (els d)) = tx" "kept ?C ?L = L0"
    using r unfolding rebased_def by auto
  ultimately show ?thesis by (simp only:)
qed

end


lemma rdel_Edit:
  assumes "rev_edit r = Edit p g (enc L) (enc nd)" "length ds = cnt (\<lambda>c. c = 0) L"
  shows "rdel P r ds = map2 (+) (cexpand False ds L) (if P g then L else nd)"
  using assms by (simp add: rdel_def cexpand_un_plus)

context byte_search_laws
begin

text \<open>Moving a rebased edit into the text.\<close>

lemma rebased_text:
  assumes r: "rebased lib us cs tx L0 del0 (d, nd)" and h: "halves lib us ds t tb"
  obtains t1 where "ins_transform_shrink d (enc ds) \<bind> (\<lambda>x. delta_apply (rope_ni lib) x t) = Some t1"
    "halves lib (els_text id us (els d)) (cexpand False ds (ins_labels (els d))) t1 tb"
proof -
  note f = rebased_facts [OF r]
  let ?L = "ins_labels (els d)" and ?U = "els_text id us (els d)"
  have rr: "ins_ok (els d) 0 (length us)" "els_ok (rope_ni lib) str_leaf_wf is_lead us (els d)"
    using r by (auto simp: rebased_def)
  have hh: "aligned is_lead ds us" "node_wf (rope_ni lib) str_leaf_wf t" "rope_text t = kept ds us"
    "rope_wf lib tb" "rope_text tb = removed ds us"
    using h unfolding halves_def rope_wf_def by blast+
  have len: "length ds = cnt (\<lambda>c. c = 0) ?L"
    using aligned_length [OF hh(1)] cnt_ins_labels [OF rr(1)] by simp
  have tx: "els_text id (kept ds us) (shrink_els ds (els d)) = kept (cexpand False ds ?L) ?U"
    using str.shrink_text [OF rr aligned_length [OF hh(1)]] by simp
  let ?x = "\<lparr>els = shrink_els ds (els d), base_len = cnt (\<lambda>c. c = 0) ds\<rparr>"
  obtain t1 where t1: "delta_apply (rope_ni lib) ?x t = Some t1" "node_wf (rope_ni lib) str_leaf_wf t1"
    "rope_text t1 = els_text id (rope_text t) (els ?x)"
    by (rule str.delta_apply_spec [OF hh(2), of ?x])
      (use hh(1) aligned_length [OF hh(1)] str.eok_shrink [OF rr(2) hh(1)] in \<open>simp_all add: hh(3)\<close>)
  have "removed (cexpand False ds ?L) ?U = removed ds us"
    using removed_cexpand_False [OF len, of ?U] f(1,2) by simp
  moreover have "aligned is_lead (cexpand False ds ?L) ?U"
    using aligned_cexpand [OF f(3)] hh(1) f(2) by simp
  moreover have "rope_text t1 = kept (cexpand False ds ?L) ?U" using t1(3) tx hh(3) by simp
  ultimately have "halves lib ?U (cexpand False ds ?L) t1 tb"
    using t1(2) hh(4,5) unfolding halves_def rope_wf_def by simp
  with that t1(1) ins_transform_shrink_eq [OF rr(1), of ds] show thesis by simp
qed

end

context engine_laws
begin

lemma mk_new_rev_spec:
  fixes e :: "'s engine"
  assumes inv: "engine_inv env e us" "engine_hist env e us" and k: "find_rev_token env e base = Some k"
    and d: "delta_for (ee_lib env) (engine_texts env e us ! k) d"
  defines "P \<equiv> undone (en_undone e)" and "D \<equiv> counts (en_deletes e)"
  obtains r :: "'s revision" and us' t tb L nd X where
    "mk_new_rev env e prio grp base d = Some (Inr (r, t, tb, enc (rdel P r D)))"
    "rev_edit r = Edit prio grp (enc L) (enc nd)" "rev_rev_id r = next_rev_id e"
    "rev_max_undo r = max grp (rev_max_undo (last (en_revs e)))"
    "rev_fits r us' D" "kept L us' = us" "halves (ee_lib env) us' (rdel P r D) t tb"
    "deletes_from_cur_union_for_index env e k = Some (enc X)" "length X = cnt (\<lambda>c. c = 0) L"
    "kept (map2 (+) (cexpand False X L) nd) us' = els_text id (engine_texts env e us ! k) (els d)"
proof -
  note f = inv_facts [OF inv(1)]
  have kl: "k < length (en_revs e)"
    using k find_rev_range_Some unfolding find_rev_token_def by blast
  with inv obtain ds where ds: "deletes_from_union_for_index env e k = Some (enc ds)"
    "aligned is_lead ds (base_union (later e k) us)" "revs_shape (later e k) us"
    "kept ds (base_union (later e k) us) = engine_texts env e us ! k"
    by (rule state_at)
  obtain ins dels d1 nd1 L0 tx where fac: "delta_factor d = Some (ins, dels)"
    "base_len ins = length (engine_texts env e us ! k)"
    "ins_transform_expand ins (enc ds) True = Some d1" "transform_expand dels (enc ds) = Some nd1"
    "rebased (ee_lib env) (base_union (later e k) us) ds tx L0 (counts dels) (d1, nd1)"
    "kept (cexpand False (counts dels) L0) tx = els_text id (engine_texts env e us ! k) (els d)"
    using rebased_factor [OF d [folded ds(4)] ds(2)] unfolding ds(4) by metis
  let ?X = "lift_dels (later e k) ds"
  obtain d2 nd2 where reb: "foldM (rebase_over (FullPriority prio (en_session e))) (rev (later e k)) (d1, nd1)
      = Some (d2, nd2)" "rebased (ee_lib env) us ?X tx L0 (counts dels) (d2, nd2)"
    using rebase_foldM [OF ds(3) fac(5)] by blast
  note rf = rebased_facts [OF reb(2)]
  let ?L = "ins_labels (els d2)" and ?U = "els_text id us (els d2)"
  define nd where "nd = cexpand False (counts nd2) ?L"
  have r2: "els_nonempty (els d2)" "subset_wf nd2" "aligned is_lead (counts nd2) us"
    using reb(2) by (auto simp: rebased_def)
  have lenN: "length (counts nd2) = cnt (\<lambda>c. c = 0) ?L" using rf(4,5) by simp
  have lenD: "length D = cnt (\<lambda>c. c = 0) ?L"
    using aligned_length [OF f(8)] aligned_length [OF r2(3)] lenN by (simp add: D_def)
  obtain t1 where t1: "ins_transform_shrink d2 (enc D) \<bind> (\<lambda>x. delta_apply (ee_ni env) x (en_text e)) = Some t1"
    "halves (ee_lib env) ?U (cexpand False D ?L) t1 (en_tombstones e)"
    using reb(2) f(3) [folded D_def] by (rule rebased_text)
  have alN: "aligned is_lead nd ?U"
    unfolding nd_def using aligned_cexpand [OF rf(3)] r2(3) rf(2) by simp
  define r :: "'s revision" where "r = \<lparr>rev_rev_id = next_rev_id e, rev_max_undo = max grp (rev_max_undo (last (en_revs e))),
    rev_edit = Edit prio grp (enc ?L) (enc nd)\<rparr>"
  have fits: "rev_fits r ?U D"
    using rf(2,3) alN f(8) by (simp add: rev_fits_def r_def D_def)
  have rd: "rdel P r D = map2 (+) (cexpand False D ?L) (if P grp then ?L else nd)"
    by (rule rdel_Edit) (simp_all add: r_def lenD)
  obtain t tb where sh: "shuffle (ee_ni env) t1 (en_tombstones e) (enc (cexpand False D ?L)) (enc (rdel P r D))
      = Some (t, tb)" "halves (ee_lib env) ?U (rdel P r D) t tb"
    using t1(2) rev_fits_rdel [OF fits, of P] by (rule shuffle_spec)
  have nd': "(if \<not> subset_is_empty (enc ?L) then transform_expand nd2 (enc ?L) else Some nd2) = Some (enc nd)"
  proof (cases "subset_is_empty (enc ?L)")
    case True
    then have "cexpand False (counts nd2) ?L = counts nd2" using cexpand_zero [of ?L "counts nd2"] lenN by simp
    with True r2(2) show ?thesis by (simp add: nd_def enc_counts)
  next
    case False
    with transform_expand_enc [OF lenN] r2(2) show ?thesis by (simp add: nd_def enc_counts)
  qed
  have "subset_union (enc (cexpand False D ?L)) (if P grp then enc ?L else enc nd) = Some (enc (rdel P r D))"
    unfolding rd by (simp add: nd_def)
  moreover have "transform_expand (en_deletes e) (enc ?L) = Some (enc (cexpand False D ?L))"
    using transform_expand_enc [OF lenD] f(2) by (simp add: D_def)
  moreover have "len_after_delete (enc ds) = base_len ins"
    using fac(2) ds(4) aligned_length [OF ds(2)] by (metis counts_enc len_after_delete_counts length_sel)
  moreover obtain x where "ins_transform_shrink d2 (en_deletes e) = Some x" "delta_apply (ee_ni env) x (en_text e) = Some t1"
    using t1(1) f(2) by (auto simp: D_def bind_eq_Some_conv)
  ultimately have mk: "mk_new_rev env e prio grp base d = Some (Inr (r, t, tb, enc (rdel P r D)))"
    using k fac(1,3,4) ds(1) reb(1) inserted_subset_enc [OF r2(1)] nd' sh(1) f(1,2)
    by (simp add: mk_new_rev_def later_def max_undo_group_id_def r_def P_def Let_def D_def
        del: subset_is_empty_enc split del: if_split)
  have X: "deletes_from_cur_union_for_index env e k = Some (enc ?X)"
    using ds(1) kl union_later_foldM [OF ds(3,2)]
    by (simp add: deletes_from_cur_union_for_index_def later_def)
  have "kept (map2 (+) (cexpand False ?X ?L) nd) ?U = els_text id (engine_texts env e us ! k) (els d)"
    using rebased_intention [OF reb(2)] fac(6) by (simp only: nd_def)
  then show thesis
    by (rule that [OF mk _ _ _ fits _ sh(2) X rf(4), rotated -1]) (simp_all add: r_def rf(2))
qed

end


lemma step_back_rdel:
  assumes fits: "rev_fits r us ds" and r: "rev_edit r = Edit p g ins del"
  shows "step_back os r (us, rdel P r ds, P) = (base_union [r] us, ds, P)" "back_ok r (us, rdel P r ds, P)"
proof -
  note l = rev_fits_lengths [OF fits r]
  show "back_ok r (us, rdel P r ds, P)"
    using rev_fits_rdel [OF fits, of P] l(2)
    by (simp add: back_ok_def r rdel_def list_all2_plus)
  show "step_back os r (us, rdel P r ds, P) = (base_union [r] us, ds, P)"
    using l(1,2) by (simp add: step_back_def rdel_def r map2_plus_minus)
qed

text \<open>Pushing an edit revision keeps the invariant and extends the history by one document.\<close>

lemma push_rev_spec:
  assumes inv: "engine_inv env e us" "engine_hist env e us"
    and r: "rev_edit r = Edit p g ins del" "rev_fits r us' (counts (en_deletes e))" "base_union [r] us' = us"
      "g \<le> rev_max_undo r" "rev_max_undo (last (en_revs e)) \<le> rev_max_undo r"
    and h: "halves (ee_lib env) us' (rdel (os_contains (ee_os env) (en_undone e)) r (counts (en_deletes e))) t tb"
    and e': "e' = e\<lparr>en_rev_id_counter := c, en_revs := en_revs e @ [r], en_text := t, en_tombstones := tb,
      en_deletes := enc (rdel (os_contains (ee_os env) (en_undone e)) r (counts (en_deletes e)))\<rparr>"
  shows "engine_inv env e' us'" "engine_hist env e' us'"
    "engine_texts env e' us' = engine_texts env e us @ [rope_text t]"
proof -
  let ?P = "os_contains (ee_os env) (en_undone e)" and ?D = "counts (en_deletes e)"
  have i: "en_revs e \<noteq> []" "revs_shape (rev (en_revs e)) us" "undo_bounds (en_revs e)"
    "starts_ok is_lead (base_union (rev (en_revs e)) us)"
    "?D = replay ?P (en_revs e) (replicate (length (base_union (rev (en_revs e)) us)) 0)"
    using inv(1) unfolding engine_inv_def by blast+
  have bu: "base_union (rev (en_revs e @ [r])) us' = base_union (rev (en_revs e)) us"
    using base_union_append [of "[r]" "rev (en_revs e)" us'] r(3) by simp
  have "revs_shape (rev (en_revs e @ [r])) us'"
    using revs_shape_append [of "[r]" "rev (en_revs e)" us'] r(2,3) i(2) by (simp add: rev_fits_def)
  moreover have "undo_bounds (en_revs e @ [r])"
    using i(3,1) r(5) by (rule undo_bounds_snoc) (use r(1,4) in simp)
  moreover have "rdel ?P r ?D = replay ?P (en_revs e @ [r])
      (replicate (length (base_union (rev (en_revs e @ [r])) us')) 0)"
    unfolding bu using i(5) by simp
  moreover have "starts_ok is_lead (base_union (rev (en_revs e @ [r])) us')" unfolding bu by (rule i(4))
  ultimately show "engine_inv env e' us'"
    using h unfolding engine_inv_def e' by simp
  note sb = step_back_rdel(1) [OF r(2,1), of "ee_os env" ?P, unfolded r(3)] step_back_rdel(2) [OF r(2,1), of ?P]
  have st: "engine_state env e' us' = (us', rdel ?P r ?D, ?P)" by (simp add: engine_state_def e')
  have "state_text (engine_state env e' us') = rope_text t"
    using h by (simp add: st state_text_def halves_def)
  then show "engine_hist env e' us'" "engine_texts env e' us' = engine_texts env e us @ [rope_text t]"
    using sb inv(2) unfolding engine_hist_def engine_texts_def by (simp_all add: e' st [unfolded e'] engine_state_def)
qed

definition edit_visible :: "'s engine_env \<Rightarrow> 's engine \<Rightarrow> nat \<Rightarrow> 's revision \<Rightarrow> str \<Rightarrow> str \<Rightarrow> bool" where
  "edit_visible env e k r us' t \<longleftrightarrow>
     (\<exists>p g ins del x x' y. rev_edit r = Edit p g ins del
        \<and> deletes_from_cur_union_for_index env e k = Some x
        \<and> transform_expand x ins = Some x' \<and> subset_union x' del = Some y \<and> kept (counts y) us' = t)"

context engine_laws
begin

lemma try_edit_rev_spec:
  fixes e :: "'s engine"
  assumes inv: "engine_inv env e us" "engine_hist env e us" and k: "find_rev_token env e base = Some k"
    and d: "delta_for (ee_lib env) (engine_texts env e us ! k) d"
    and cnt: "en_rev_id_counter e + 1 < 2 ^ 32"
  obtains (Same) t where "try_edit_rev env e prio grp base d = Some (Inr (), e)"
      "els_text id (engine_texts env e us ! k) (els d) = engine_texts env e us ! k"
  | (Pushed) e' us' r where "try_edit_rev env e prio grp base d = Some (Inr (), e')"
      "engine_inv env e' us'" "engine_hist env e' us'" "en_revs e' = en_revs e @ [r]"
      "engine_texts env e' us' = engine_texts env e us @ [rope_text (en_text e')]"
      "edit_visible env e k r us' (els_text id (engine_texts env e us ! k) (els d))"
      "undone (en_undone e) grp \<Longrightarrow> rope_text (en_text e') = rope_text (en_text e)"
      "\<not> undone (en_undone e) grp \<Longrightarrow> k = length (en_revs e) - 1 \<Longrightarrow>
        rope_text (en_text e') = els_text id (rope_text (en_text e)) (els d)"
      "rev_rev_id r = next_rev_id e" "en_undone e' = en_undone e"
proof -
  note f = inv_facts [OF inv(1)]
  let ?P = "undone (en_undone e)" and ?D = "counts (en_deletes e)"
  obtain r :: "'s revision" and us' t tb L nd X where
    mk: "mk_new_rev env e prio grp base d = Some (Inr (r, t, tb, enc (rdel ?P r ?D)))"
    and r: "rev_edit r = Edit prio grp (enc L) (enc nd)" "rev_rev_id r = next_rev_id e"
    "rev_max_undo r = max grp (rev_max_undo (last (en_revs e)))"
    "rev_fits r us' ?D" and L: "kept L us' = us" and h: "halves (ee_lib env) us' (rdel ?P r ?D) t tb"
    and X: "deletes_from_cur_union_for_index env e k = Some (enc X)" "length X = cnt (\<lambda>c. c = 0) L"
    "kept (map2 (+) (cexpand False X L) nd) us' = els_text id (engine_texts env e us ! k) (els d)"
    using inv k d by (rule mk_new_rev_spec)
  have len: "length us' = length L" "length nd = length L" "length ?D = cnt (\<lambda>c. c = 0) L"
    using rev_fits_lengths [OF r(4,1)] by simp_all
  have kl: "k < length (en_revs e)"
    using k find_rev_range_Some unfolding find_rev_token_def by blast
  have tX: "kept X us = engine_texts env e us ! k"
    using cur_union_at [OF inv kl] X(1) by (metis enc_inj option.inject)
  show thesis
  proof (cases "subset_is_empty (enc L) \<and> subset_is_empty (enc nd)")
    case True
    then have z: "\<forall>c \<in> set L. c = 0" "\<forall>c \<in> set nd. c = 0" by simp_all
    have "us' = us" using kept_zero [OF z(1), of us'] L len(1) by simp
    moreover have "cexpand False X L = X" using cexpand_zero [OF z(1), of X] X(2) z(1) by simp
    moreover have "map2 (+) X nd = X" using map2_plus_zero [OF z(2), of X] X(2) z(1) len by simp
    ultimately have "els_text id (engine_texts env e us ! k) (els d) = engine_texts env e us ! k"
      using X(3) tX by simp
    moreover have "try_edit_rev env e prio grp base d = Some (Inr (), e)"
      using mk True r(1) by (simp add: try_edit_rev_def)
    ultimately show thesis using Same by blast
  next
    case False
    define e' where "e' = e\<lparr>en_rev_id_counter := en_rev_id_counter e + 1, en_revs := en_revs e @ [r],
      en_text := t, en_tombstones := tb, en_deletes := enc (rdel ?P r ?D)\<rparr>"
    have t: "try_edit_rev env e prio grp base d = Some (Inr (), e')"
      using mk False r(1) cnt by (auto simp: try_edit_rev_def u32_succ_def e'_def simp del: subset_is_empty_enc)
    have bu: "base_union [r] us' = us" using r(1) L by simp
    have rm: "grp \<le> rev_max_undo r" "rev_max_undo (last (en_revs e)) \<le> rev_max_undo r" using r(3) by simp_all
    note p = push_rev_spec [OF inv r(1,4) bu rm h e'_def]
    have vis: "edit_visible env e k r us' (els_text id (engine_texts env e us ! k) (els d))"
      unfolding edit_visible_def using r(1) X len by auto
    have tx: "rope_text t = kept (rdel ?P r ?D) us'" "rope_text (en_text e) = kept ?D us"
      using h f(3) unfolding halves_def by blast+
    have rd: "rdel ?P r ?D = map2 (+) (cexpand False ?D L) (if ?P grp then L else nd)"
      using rdel_Edit [OF r(1) len(3)] .
    have "rope_text t = rope_text (en_text e)" if "?P grp"
      using that tx L len kept_cexpand_False_text [OF len(3,1)] by (simp add: rd)
    moreover have "rope_text t = els_text id (rope_text (en_text e)) (els d)"
      if "\<not> ?P grp" "k = length (en_revs e) - 1"
    proof -
      have lt: "later e k = []" using that(2) by (simp add: later_def)
      have "deletes_from_cur_union_for_index env e k = Some (en_deletes e)"
        using that(2) f(1) by (simp add: deletes_from_cur_union_for_index_def deletes_from_union_for_index_def
            deletes_from_union_before_index_def)
      then have "X = ?D" using X(1) f(2) by (metis counts_enc option.inject)
      with X(3) tX tx rd that(1) show ?thesis by simp
    qed
    ultimately show thesis
      using Pushed [OF t p(1,2)] p(3) vis r(2) by (simp add: e'_def)
  qed
qed

end

end
