(* ===== verification/Rope_Transform_Laws.thy ===== *)
theory Rope_Transform_Laws
  imports Rope_Insert_Laws
begin

text \<open>
  The coordinate transformer keeps a cursor into the delta between queries; its answers do not depend
  on it, and a character that the delta copies is mapped to its place in the new document.
\<close>

section \<open>One query\<close>

text \<open>The answer of a query that walks the elements from the beginning.\<close>

fun tr_spec :: "('l, 'i) delta_element list \<Rightarrow> nat \<Rightarrow> bool \<Rightarrow> nat \<Rightarrow> nat" where
  "tr_spec [] ix after off = off"
| "tr_spec (Copy b e # es) ix after off =
     (if ix \<le> b then off
      else if ix < e \<or> (ix = e \<and> \<not> after) then off + ix - b
      else tr_spec es ix after (off + (e - b)))"
| "tr_spec (Insert n # es) ix after off = tr_spec es ix after (off + n_len n)"

definition passes :: "nat \<Rightarrow> bool \<Rightarrow> ('l, 'i) delta_element \<Rightarrow> bool" where
  "passes ix after el = (case el of
     Copy b e \<Rightarrow> b < ix \<and> \<not> (ix < e \<or> (ix = e \<and> \<not> after)) | Insert _ \<Rightarrow> True)"

lemma passes_Insert [simp]: "passes ix after (Insert n)"
  by (simp add: passes_def)

definition copies_fwd :: "('l, 'i) delta_element list \<Rightarrow> bool" where
  "copies_fwd es \<longleftrightarrow> (\<forall>b e. Copy b e \<in> set es \<longrightarrow> b \<le> e)"

definition els_len :: "('l, 'i) delta_element list \<Rightarrow> nat" where
  "els_len es = sum_list (map (\<lambda>el. case el of Copy b e \<Rightarrow> e - b | Insert n \<Rightarrow> n_len n) es)"

lemma tr_spec_passed:
  "list_all (passes ix after) es \<Longrightarrow> tr_spec (es @ es') ix after off = tr_spec es' ix after (off + els_len es)"
proof (induction es arbitrary: off)
  case (Cons el es)
  then show ?case by (cases el) (auto simp: passes_def els_len_def add.assoc)
qed (simp add: els_len_def)

lemma tr_loop_spec:
  "copies_fwd es \<Longrightarrow> i \<le> length es \<Longrightarrow>
    \<exists>j. transform_loop es ix after i off
          = Some (tr_spec (drop i es) ix after off, j, off + els_len (slice es i j))
      \<and> i \<le> j \<and> j \<le> length es \<and> list_all (passes ix after) (slice es i j)"
proof (induction es ix after i off rule: transform_loop.induct)
  case (1 es ix after i off)
  show ?case
  proof (cases "i < length es")
    case False
    with "1.prems" show ?thesis
      by (auto simp: transform_loop.simps [of es] list_get_def els_len_def intro!: exI [of _ i])
  next
    case True
    then have get: "list_get es i = Some (es ! i)" and dr: "drop i es = es ! i # drop (i + 1) es"
      by (simp_all add: list_get_def Cons_nth_drop_Suc)
    have sl: "slice es i j = es ! i # slice es (i + 1) j" if "i + 1 \<le> j" for j
      using that True by (simp add: slice_def dr Suc_diff_le [symmetric] take_Cons')
    show ?thesis
    proof (cases "es ! i")
      case (Copy b e)
      show ?thesis
      proof (cases "passes ix after (es ! i)")
        case pass: True
        have be: "b \<le> e" using "1.prems"(1) nth_mem [OF True] unfolding copies_fwd_def Copy by blast
        with pass Copy have g: "\<not> ix \<le> b" "\<not> (ix < e \<or> (ix = e \<and> \<not> after))" "usize_sub e b = Some (e - b)"
          by (auto simp: passes_def)
        obtain j where "transform_loop es ix after (i + 1) (off + (e - b))
            = Some (tr_spec (drop (i + 1) es) ix after (off + (e - b)), j, off + (e - b) + els_len (slice es (i + 1) j))"
          "i + 1 \<le> j" "j \<le> length es" "list_all (passes ix after) (slice es (i + 1) j)" 
          using "1.IH"(1) [OF _ Copy g] get Copy True "1.prems"(1) by auto
        then show ?thesis
          using g pass Copy sl [of j]
          by (auto simp: transform_loop.simps [of es ix after i] get dr els_len_def intro!: exI [of _ j])
      next
        case False
        then show ?thesis using Copy True
          by (auto simp: transform_loop.simps [of es ix after i] get dr passes_def els_len_def intro!: exI [of _ i])
      qed
    next
      case (Insert n)
      obtain j where "transform_loop es ix after (i + 1) (off + n_len n)
          = Some (tr_spec (drop (i + 1) es) ix after (off + n_len n), j, off + n_len n + els_len (slice es (i + 1) j))"
        "i + 1 \<le> j" "j \<le> length es" "list_all (passes ix after) (slice es (i + 1) j)"
        using "1.IH"(2) get Insert True "1.prems"(1) by auto
      then show ?thesis
        using Insert sl [of j]
        by (auto simp: transform_loop.simps [of es ix after i] get dr els_len_def passes_Insert intro!: exI [of _ j])
    qed
  qed
qed



section \<open>Sequences of queries\<close>

text \<open>The cursor stands behind elements that every query from the last one on passes.\<close>

definition tr_inv :: "('l, 'i) transformer \<Rightarrow> bool" where
  "tr_inv tr \<longleftrightarrow> copies_fwd (els (tr_delta tr)) \<and> tr_element_index tr \<le> length (els (tr_delta tr))
     \<and> tr_transformed_offset tr = els_len (take (tr_element_index tr) (els (tr_delta tr)))
     \<and> (case tr_last_query tr of
          None \<Rightarrow> tr_element_index tr = 0
        | Some (ix, after) \<Rightarrow> list_all (passes ix after) (take (tr_element_index tr) (els (tr_delta tr)))
            \<and> (ix = 0 \<and> \<not> after \<longrightarrow> tr_element_index tr = 0))"

lemma tr_inv_new: "copies_fwd (els d) \<Longrightarrow> tr_inv (transformer_new d)"
  by (simp add: tr_inv_def transformer_new_def els_len_def)

lemma passes_mono:
  assumes "passes ix after el" "\<not> (ix' < ix \<or> (ix' = ix \<and> after \<and> \<not> after'))"
  shows "passes ix' after' el"
proof (cases el)
  case (Copy b e)
  with assms show ?thesis by (cases "ix' = ix") (auto simp: passes_def)
qed (simp add: passes_def)

lemma list_all_passes_mono:
  "list_all (passes ix after) es \<Longrightarrow> \<not> (ix' < ix \<or> (ix' = ix \<and> after \<and> \<not> after')) \<Longrightarrow>
    list_all (passes ix' after') es"
  by (auto simp: list_all_iff intro: passes_mono)

lemma els_len_append [simp]: "els_len (es @ es') = els_len es + els_len es'"
  by (simp add: els_len_def)

definition tr_answer :: "('l, 'i) delta_element list \<Rightarrow> nat \<Rightarrow> bool \<Rightarrow> nat" where
  "tr_answer es ix after = (if ix = 0 \<and> \<not> after then 0 else tr_spec es ix after 0)"

lemma transform_spec:
  assumes inv: "tr_inv tr"
  obtains tr' where "transform tr ix after = Some (tr_answer (els (tr_delta tr)) ix after, tr')"
    "tr_inv tr'" "tr_delta tr' = tr_delta tr"
proof -
  let ?es = "els (tr_delta tr)"
  define reset where "reset = (case tr_last_query tr of
         None \<Rightarrow> False
       | Some (last_ix, last_after) \<Rightarrow> ix < last_ix \<or> (ix = last_ix \<and> last_after \<and> \<not> after))"
  define i where "i = (if reset then 0 else tr_element_index tr)"
  define off where "off = (if reset then 0 else tr_transformed_offset tr)"
  define tr1 where "tr1 = tr\<lparr>tr_element_index := i, tr_transformed_offset := off, tr_last_query := Some (ix, after)\<rparr>"
  have fwd: "copies_fwd ?es" and il: "i \<le> length ?es" and off: "off = els_len (take i ?es)"
    using inv by (auto simp: tr_inv_def i_def off_def els_len_def)
  have pass: "list_all (passes ix after) (take i ?es)"
  proof (cases "reset \<or> tr_last_query tr = None")
    case True
    with inv show ?thesis by (auto simp: i_def tr_inv_def)
  next
    case False
    then obtain lix laft where q: "tr_last_query tr = Some (lix, laft)" by force
    then have "list_all (passes lix laft) (take (tr_element_index tr) ?es)" using inv by (simp add: tr_inv_def)
    moreover have "\<not> (ix < lix \<or> (ix = lix \<and> laft \<and> \<not> after))" using False q by (simp add: reset_def)
    ultimately have "list_all (passes ix after) (take (tr_element_index tr) ?es)" by (rule list_all_passes_mono)
    with False show ?thesis by (simp add: i_def)
  qed
  have zero: "i = 0" if "ix = 0 \<and> \<not> after"
    using inv that by (auto simp: i_def tr_inv_def reset_def split: option.splits prod.splits if_splits)
  have run: "transform tr ix after =
      (if ix = 0 \<and> \<not> after then Some (0, tr1)
       else do { (result, i, offset) \<leftarrow> transform_loop ?es ix after i off;
                 Some (result, tr1\<lparr>tr_element_index := i, tr_transformed_offset := offset\<rparr>) })"
    by (simp add: transform_def reset_def [symmetric] tr1_def i_def off_def Let_def)
  show thesis
  proof (cases "ix = 0 \<and> \<not> after")
    case True
    have "tr_inv tr1" using fwd zero [OF True] off by (simp add: tr_inv_def tr1_def)
    with True run that show thesis by (simp add: tr_answer_def tr1_def)
  next
    case False
    obtain j where j: "transform_loop ?es ix after i off
          = Some (tr_spec (drop i ?es) ix after off, j, off + els_len (slice ?es i j))"
      "i \<le> j" "j \<le> length ?es" "list_all (passes ix after) (slice ?es i j)"
      using tr_loop_spec [OF fwd il] by blast
    have tj: "take j ?es = take i ?es @ slice ?es i j" using take_slice [OF j(2), of ?es] by simp
    have "tr_spec (drop i ?es) ix after off = tr_spec ?es ix after 0"
      using tr_spec_passed [OF pass, of "drop i ?es" 0] off by simp
    moreover have "tr_inv (tr1\<lparr>tr_element_index := j, tr_transformed_offset := off + els_len (slice ?es i j)\<rparr>)"
      using fwd j pass off False by (auto simp: tr_inv_def tr1_def tj)
    ultimately show thesis
      using that False run j(1) by (simp add: tr_answer_def tr1_def)
  qed
qed

fun tr_queries :: "('l, 'i) transformer \<Rightarrow> (nat \<times> bool) list \<Rightarrow> nat list option" where
  "tr_queries tr [] = Some []"
| "tr_queries tr ((ix, after) # qs) = do {
     (r, tr) \<leftarrow> transform tr ix after;
     rs \<leftarrow> tr_queries tr qs;
     Some (r # rs) }"

lemma tr_queries_spec:
  "tr_inv tr \<Longrightarrow> tr_queries tr qs = Some (map (\<lambda>(ix, after). tr_answer (els (tr_delta tr)) ix after) qs)"
proof (induction qs arbitrary: tr)
  case (Cons q qs)
  obtain ix after where q: "q = (ix, after)" by force
  obtain tr' where "transform tr ix after = Some (tr_answer (els (tr_delta tr)) ix after, tr')"
    "tr_inv tr'" "tr_delta tr' = tr_delta tr"
    using Cons.prems by (rule transform_spec)
  with Cons.IH [of tr'] show ?case by (simp add: q)
qed simp


section \<open>Copied characters\<close>

lemma copies_ok_fwd: "copies_ok es p n \<Longrightarrow> copies_fwd es"
  by (induction es p n rule: copies_ok.induct) (auto simp: copies_fwd_def)

lemma copies_ok_mem: "copies_ok es p n \<Longrightarrow> Copy b e \<in> set es \<Longrightarrow> p \<le> b \<and> e \<le> n"
  by (induction es p n rule: copies_ok.induct) (auto dest: copies_ok_le)

context leaf_laws
begin

lemma tr_spec_copied:
  "copies_ok es p (length us) \<Longrightarrow> eok us es \<Longrightarrow> (\<forall>b e. Copy b e \<in> set es \<longrightarrow> b < e) \<Longrightarrow>
    Copy b e \<in> set es \<Longrightarrow> b \<le> i \<Longrightarrow> i < e \<Longrightarrow>
    \<exists>k. tr_spec es i True off = off + k \<and> k < length (etext us es) \<and> etext us es ! k = us ! i"
proof (induction es p "length us" arbitrary: off rule: copies_ok.induct)
  case (2 b' e' es p)
  have le: "e' \<le> length us" and lt: "b' < e'" using "2.prems"(2,3) by (auto dest: cut_ok_le)
  show ?case
  proof (cases "Copy b e \<in> set es")
    case True
    then have "e' \<le> b" using "2.prems"(1) copies_ok_mem [of es e' "length us" b e] by simp
    with "2.prems" lt have gt: "\<not> i \<le> b'" "\<not> i < e'" by auto
    obtain k where k: "tr_spec es i True (off + (e' - b')) = off + (e' - b') + k" "k < length (etext us es)"
      "etext us es ! k = us ! i"
      using "2.hyps" [of "off + (e' - b')"] "2.prems" True by auto
    then show ?thesis using gt le by (intro exI [of _ "e' - b' + k"]) (auto simp: nth_append)
  next
    case False
    with "2.prems"(4) have "b' = b" "e' = e" by auto
    with "2.prems"(5,6) le show ?thesis
      by (intro exI [of _ "i - b"]) (auto simp: nth_append slice_def)
  qed
next
  case (3 n es p)
  have len: "n_len n = length (content n)" using "3.prems"(2) by (simp add: wf_len)
  obtain k where "tr_spec es i True (off + n_len n) = off + n_len n + k" "k < length (etext us es)"
    "etext us es ! k = us ! i"
    using "3.hyps" [of "off + n_len n"] "3.prems" by auto
  then show ?case using len by (intro exI [of _ "n_len n + k"]) (auto simp: nth_append)
qed simp

end

end
