(* ===== verification/Rope_Engine_Run.thy ===== *)
theory Rope_Engine_Run
  imports Rope_History_Laws Rope_Transform_Laws
begin

text \<open>
  Deltas made by the builder, the engine at the start, and its runs: sequences of edits and undos,
  with the documents that the head showed.  The contracts of the environment are interpreted on a
  concrete one at the end.
\<close>

section \<open>Deltas from the builder\<close>

text \<open>The elements so far, up to the offset that the builder has reached in the document \<open>t\<close>.\<close>

definition db_wf :: "byte_search \<Rightarrow> str \<Rightarrow> (str, rope_info) delta_builder \<Rightarrow> bool" where
  "db_wf lib t b \<longleftrightarrow> base_len (db_delta b) = length t \<and> cut_ok is_lead t (db_last_offset b)
     \<and> copies_ok (els (db_delta b)) 0 (db_last_offset b)
     \<and> els_ok (rope_ni lib) str_leaf_wf is_lead t (els (db_delta b))
     \<and> (\<forall>n. Insert n \<in> set (els (db_delta b)) \<longrightarrow> 0 < n_len n)"

text \<open>The document after a list of replacements, from an offset on.\<close>

fun replaced :: "str \<Rightarrow> nat \<Rightarrow> (nat \<times> nat \<times> rope) list \<Rightarrow> str" where
  "replaced t p [] = drop p t"
| "replaced t p ((b, e, n) # es) = slice t p b @ rope_text n @ replaced t e es"

fun replacements_ok :: "byte_search \<Rightarrow> str \<Rightarrow> nat \<Rightarrow> (nat \<times> nat \<times> rope) list \<Rightarrow> bool" where
  "replacements_ok lib t p [] \<longleftrightarrow> True"
| "replacements_ok lib t p ((b, e, n) # es) \<longleftrightarrow> p \<le> b \<and> b \<le> e \<and> cut_ok is_lead t b \<and> cut_ok is_lead t e
     \<and> rope_wf lib n \<and> replacements_ok lib t e es"

definition db_replace_all ::
  "(nat \<times> nat \<times> rope) list \<Rightarrow> (str, rope_info) delta_builder \<Rightarrow> (str, rope_info) delta_builder option" where
  "db_replace_all = foldM (\<lambda>(b, e, n) db. db_replace db (BInterval (mk_iv b e)) n)"

lemma copies_ok_append: "copies_ok es p q \<Longrightarrow> copies_ok es' q n \<Longrightarrow> copies_ok (es @ es') p n"
proof (induction es p q rule: copies_ok.induct)
  case (1 p n')
  then show ?case by (induction es' n' n rule: copies_ok.induct) auto
qed auto

context byte_search_laws
begin

lemma db_new_wf: "starts_ok is_lead t \<Longrightarrow> db_wf lib t (db_new (length t))"
  by (simp add: db_wf_def db_new_def cut_ok_0)

lemma db_replace_spec:
  assumes w: "db_wf lib t b" and be: "db_last_offset b \<le> s" "s \<le> e" "cut_ok is_lead t s" "cut_ok is_lead t e"
    and n: "rope_wf lib n"
  shows "\<exists>b'. db_replace b (BInterval (mk_iv s e)) n = Some b' \<and> db_wf lib t b' \<and> db_last_offset b' = e
    \<and> els_text id t (els (db_delta b')) = els_text id t (els (db_delta b)) @ slice t (db_last_offset b) s @ rope_text n"
proof -
  have len: "n_len n = length (rope_text n)"
    using n unfolding rope_wf_def by (rule str.wf_len)
  define es where "es = (if s > db_last_offset b then [Copy (db_last_offset b) s] else [])
    @ (if node_is_empty n then [] else [Insert n])"
  define b' where "b' = \<lparr>db_delta = (db_delta b)\<lparr>els := els (db_delta b) @ es\<rparr>, db_last_offset = e\<rparr>"
  have r: "db_replace b (BInterval (mk_iv s e)) n = Some b'"
    using be(1) by (simp add: db_replace_def db_delete_def start_end_def b'_def es_def Let_def)
  have "copies_ok es (db_last_offset b) e" using be by (auto simp: es_def)
  then have "copies_ok (els (db_delta b) @ es) 0 e"
    using w unfolding db_wf_def by (blast intro: copies_ok_append)
  moreover have "els_ok (rope_ni lib) str_leaf_wf is_lead t es" "\<forall>m. Insert m \<in> set es \<longrightarrow> 0 < n_len m"
    using w be n by (auto simp: es_def db_wf_def rope_wf_def node_is_empty_def)
  ultimately have "db_wf lib t b'" using w be(4) unfolding db_wf_def b'_def by auto
  moreover have "els_text id t es = slice t (db_last_offset b) s @ rope_text n"
    using be(1) len by (auto simp: es_def node_is_empty_def)
  ultimately show ?thesis using r by (simp add: b'_def)
qed

lemma db_replace_all_spec:
  "db_wf lib t b \<Longrightarrow> replacements_ok lib t (db_last_offset b) es \<Longrightarrow>
    \<exists>b'. db_replace_all es b = Some b' \<and> db_wf lib t b'
      \<and> els_text id t (els (db_delta b')) @ drop (db_last_offset b') t
        = els_text id t (els (db_delta b)) @ replaced t (db_last_offset b) es"
proof (induction es arbitrary: b)
  case (Cons x es)
  obtain s e n where x: "x = (s, e, n)" by (metis prod_cases3)
  have p: "db_last_offset b \<le> s" "s \<le> e" "cut_ok is_lead t s" "cut_ok is_lead t e" "rope_wf lib n"
    "replacements_ok lib t e es"
    using Cons.prems(2) by (simp_all add: x)
  obtain b1 where b1: "db_replace b (BInterval (mk_iv s e)) n = Some b1" "db_wf lib t b1" "db_last_offset b1 = e"
    "els_text id t (els (db_delta b1)) = els_text id t (els (db_delta b)) @ slice t (db_last_offset b) s @ rope_text n"
    using db_replace_spec [OF Cons.prems(1) p(1-5)] by blast
  obtain b2 where b2: "db_replace_all es b1 = Some b2" "db_wf lib t b2"
    "els_text id t (els (db_delta b2)) @ drop (db_last_offset b2) t
      = els_text id t (els (db_delta b1)) @ replaced t e es"
    using Cons.IH [OF b1(2)] p(6) b1(3) by blast
  have "db_replace_all (x # es) b = Some b2" using b1(1) b2(1) by (simp add: db_replace_all_def x)
  moreover have "els_text id t (els (db_delta b2)) @ drop (db_last_offset b2) t
      = els_text id t (els (db_delta b)) @ replaced t (db_last_offset b) (x # es)"
    using b2(3) b1(4) by (simp add: x)
  ultimately show ?case using b2(2) by blast
qed (simp add: db_replace_all_def)

lemma db_build_spec:
  assumes "db_wf lib t b"
  shows "delta_for lib t (db_build b)"
    "els_text id t (els (db_build b)) = els_text id t (els (db_delta b)) @ drop (db_last_offset b) t"
proof -
  have b: "base_len (db_delta b) = length t" "cut_ok is_lead t (db_last_offset b)"
    "copies_ok (els (db_delta b)) 0 (db_last_offset b)"
    using assms by (auto simp: db_wf_def)
  have "copies_ok (els (db_delta b) @ [Copy (db_last_offset b) (length t)]) 0 (length t)"
    "copies_ok (els (db_delta b) @ []) 0 (length t)"
    using cut_ok_le [OF b(2)] by (simp_all add: copies_ok_append [OF b(3)] del: append_Nil2)
  then show "delta_for lib t (db_build b)"
    using assms unfolding delta_for_def db_build_def Let_def delta_wf_def db_wf_def by auto
  have "slice t (db_last_offset b) (length t) = drop (db_last_offset b) t" by (simp add: slice_def)
  then show "els_text id t (els (db_build b)) = els_text id t (els (db_delta b)) @ drop (db_last_offset b) t"
    using b(1) by (simp add: db_build_def Let_def)
qed

lemma simple_edit_spec:
  assumes "starts_ok is_lead t" "s \<le> e" "cut_ok is_lead t s" "cut_ok is_lead t e" "rope_wf lib n"
  obtains d where "simple_edit (BInterval (mk_iv s e)) n (length t) = Some d" "delta_for lib t d"
    "els_text id t (els d) = take s t @ rope_text n @ drop e t"
proof -
  have "db_last_offset (db_new (length t) :: (str, rope_info) delta_builder) = 0" by (simp add: db_new_def)
  then obtain b where b: "db_replace (db_new (length t)) (BInterval (mk_iv s e)) n = Some b" "db_wf lib t b"
    "db_last_offset b = e" "els_text id t (els (db_delta b)) = slice t 0 s @ rope_text n"
    using db_replace_spec [OF db_new_wf [OF assms(1)], of s e n] assms by (auto simp: db_new_def)
  have "(if node_is_empty n then db_delete (db_new (length t)) (BInterval (mk_iv s e))
      else db_replace (db_new (length t)) (BInterval (mk_iv s e)) n) = Some b"
    using b(1) by (auto simp: db_replace_def)
  with that [of "db_build b"] db_build_spec [OF b(2)] b(3,4) show thesis
    by (simp add: simple_edit_def slice_def)
qed

end

context byte_search_laws
begin

text \<open>Deltas on ropes.\<close>

lemma rope_apply:
  assumes "rope_wf lib n" "base_len d = length (rope_text n)"
    "els_ok (rope_ni lib) str_leaf_wf is_lead (rope_text n) (els d)"
  obtains n' where "delta_apply (rope_ni lib) d n = Some n'" "rope_wf lib n'"
    "rope_text n' = els_text id (rope_text n) (els d)"
  by (rule str.delta_apply_spec [of n d]) (use assms that in \<open>simp_all add: rope_wf_def\<close>)

lemmas rope_tracks = str.tr_spec_copied

lemma rope_starts: "rope_wf lib n \<Longrightarrow> starts_ok is_lead (rope_text n)"
  unfolding rope_wf_def by (rule str.wf_starts)

lemma builder_apply:
  assumes n: "rope_wf lib n" and es: "replacements_ok lib (rope_text n) 0 es"
  shows "\<exists>b n'. db_replace_all es (db_new (n_len n)) = Some b
    \<and> delta_apply (rope_ni lib) (db_build b) n = Some n' \<and> rope_wf lib n'
    \<and> rope_text n' = replaced (rope_text n) 0 es"
proof -
  let ?b0 = "db_new (length (rope_text n)) :: (str, rope_info) delta_builder"
  have len: "n_len n = length (rope_text n)" using n unfolding rope_wf_def by (rule str.wf_len)
  have b0: "db_last_offset ?b0 = 0" "els (db_delta ?b0) = []" by (simp_all add: db_new_def)
  obtain b where b: "db_replace_all es ?b0 = Some b" "db_wf lib (rope_text n) b"
    "els_text id (rope_text n) (els (db_delta b)) @ drop (db_last_offset b) (rope_text n)
      = els_text id (rope_text n) (els (db_delta ?b0)) @ replaced (rope_text n) (db_last_offset ?b0) es"
    using db_replace_all_spec [OF db_new_wf [OF rope_starts [OF n]], of es] es b0(1) by metis
  have d: "base_len (db_build b) = length (rope_text n)"
    "els_ok (rope_ni lib) str_leaf_wf is_lead (rope_text n) (els (db_build b))"
    using db_build_spec(1) [OF b(2)] unfolding delta_for_def by blast+
  obtain n' where "delta_apply (rope_ni lib) (db_build b) n = Some n'" "rope_wf lib n'"
    "rope_text n' = els_text id (rope_text n) (els (db_build b))"
    using n d by (rule rope_apply)
  with b db_build_spec(2) [OF b(2)] b0 len show ?thesis by simp
qed

lemma factor_apply:
  assumes n: "rope_wf lib n" and d: "delta_for lib (rope_text n) d"
  shows "\<exists>ins dels n1 inserted dels' n2 n3. delta_factor d = Some (ins, dels)
    \<and> delta_apply (rope_ni lib) ins n = Some n1 \<and> inserted_subset ins = Some inserted
    \<and> transform_expand dels inserted = Some dels' \<and> delete_from (rope_ni lib) dels' n1 = Some n2
    \<and> delta_apply (rope_ni lib) d n = Some n3 \<and> rope_text n2 = rope_text n3"
proof -
  let ?t = "rope_text n" and ?m = "length (rope_text n)"
  let ?I = "fac_ins (els d) 0 0 ?m" and ?D = "fac_del (els d) 0 ?m"
  have dd: "base_len d = ?m" "delta_wf d" "els_ok (rope_ni lib) str_leaf_wf is_lead ?t (els d)"
    "\<forall>n. Insert n \<in> set (els d) \<longrightarrow> 0 < n_len n"
    using d unfolding delta_for_def by blast+
  have c: "copies_ok (els d) 0 ?m" using dd(1,2) by (simp add: delta_wf_def)
  have cut0: "cut_ok is_lead ?t 0" using rope_starts [OF n] by (rule cut_ok_0)
  have I: "ins_ok ?I 0 ?m" "els_ok (rope_ni lib) str_leaf_wf is_lead ?t ?I" "els_nonempty ?I"
    using fac_ins_ok [OF c, of 0] str.eok_fac_ins [OF c dd(3) _ cut0 cut0] fac_ins_nonempty [OF dd(4)] by simp_all
  let ?i = "\<lparr>els = ?I, base_len = ?m\<rparr>" and ?L = "ins_labels ?I"
  have fac: "delta_factor d = Some (?i, enc ?D)" using delta_factor_eq [OF dd(2)] dd(1) by simp
  obtain n1 where n1: "delta_apply (rope_ni lib) ?i n = Some n1" "rope_wf lib n1" "rope_text n1 = els_text id ?t ?I"
    by (rule rope_apply [OF n, of ?i]) (use I(2) in simp_all)
  have aD: "aligned is_lead ?D ?t" using str.agn_fac_del [OF c dd(3) cut0] by simp
  have L: "aligned is_lead ?L (rope_text n1)" "kept ?L (rope_text n1) = ?t"
    using str.aligned_ins_labels [OF I(2)] str.etext_labels(2) [OF I(1,2)] n1(3) by simp_all
  have lenD: "length ?D = cnt (\<lambda>c. c = 0) ?L"
    using aligned_length [OF aD] cnt_ins_labels [OF I(1)] by simp
  have al: "aligned is_lead (cexpand False ?D ?L) (rope_text n1)"
    by (rule aligned_cexpand [OF L(1)]) (use aD L(2) in simp)
  obtain n2 where n2: "delete_from (rope_ni lib) (enc (cexpand False ?D ?L)) n1 = Some n2"
    "rope_text n2 = kept (cexpand False ?D ?L) (rope_text n1)"
    using n1(2) al unfolding rope_wf_def by (rule str.delete_from_spec)
  obtain n3 where "delta_apply (rope_ni lib) d n = Some n3" "rope_text n3 = els_text id ?t (els d)"
    by (rule rope_apply [OF n dd(1,3)])
  moreover have "rope_text n2 = els_text id ?t (els d)"
    using n2(2) n1(3) str.factor_text [OF c dd(3), of 0 "[]"] by simp
  moreover have "inserted_subset ?i = Some (enc ?L)" using inserted_subset_enc [of ?i] I(3) by simp
  moreover have "transform_expand (enc ?D) (enc ?L) = Some (enc (cexpand False ?D ?L))"
    using lenD by (rule transform_expand_enc)
  ultimately show ?thesis using fac n1(1) n2(1) by simp
qed

lemma synthesize_apply:
  assumes h: "halves lib us ds t tb" and al: "aligned is_lead ds' us"
  shows "\<exists>d t'. synthesize (rope_ni lib) tb (enc ds) (enc ds') = Some d \<and> delta_apply (rope_ni lib) d t = Some t'
    \<and> rope_wf lib t' \<and> rope_text t' = kept ds' us"
proof -
  have wf: "rope_wf lib t" "node_wf (rope_ni lib) str_leaf_wf tb"
    and tx: "rope_text t = kept ds us" "rope_text tb = removed ds us" and ad: "aligned is_lead ds us"
    using h by (auto simp: halves_def rope_wf_def)
  obtain d where d: "synthesize (rope_ni lib) tb (enc ds) (enc ds') = Some d"
    "base_len d = length (kept ds us)" "els_text id (kept ds us) (els d) = kept ds' us"
    "els_ok (rope_ni lib) str_leaf_wf is_lead (kept ds us) (els d)"
    by (rule str.synthesize_spec [OF ad al wf(2) tx(2)])
  obtain n where "delta_apply (rope_ni lib) d t = Some n" "rope_wf lib n"
    "rope_text n = els_text id (rope_text t) (els d)"
    by (rule rope_apply [OF wf(1), of d]) (simp_all add: tx(1) d)
  with d tx(1) show ?thesis by simp
qed

lemma rope_edit_spec:
  assumes n: "rope_wf lib n" "rope_wf lib new"
    and iv: "into_interval bounds (n_len n) = Some (mk_iv b e)" "b \<le> e"
    and cuts: "cut_ok is_lead (rope_text n) b" "cut_ok is_lead (rope_text n) e"
  shows "\<exists>n'. node_edit (rope_ni lib) n bounds new = Some n' \<and> rope_wf lib n'
    \<and> rope_text n' = take b (rope_text n) @ rope_text new @ drop e (rope_text n)
    \<and> n_len n' = length (rope_text n') \<and> n_info n' = text_info (rope_text n')"
proof -
  obtain n' where n': "node_edit (rope_ni lib) n bounds new = Some n'" "node_wf (rope_ni lib) str_leaf_wf n'"
    "rope_text n' = take b (rope_text n) @ rope_text new @ drop e (rope_text n)"
    by (rule str.node_edit_spec [OF n [unfolded rope_wf_def] iv cuts])
  with str.wf_len [OF n'(2)] str.wf_info [OF n'(2)] show ?thesis by (simp add: rope_wf_def)
qed

lemma rope_concat_slice_spec:
  assumes n: "rope_wf lib a" "rope_wf lib b"
    and iv: "s \<le> e" "cut_ok is_lead (rope_text a @ rope_text b) s" "cut_ok is_lead (rope_text a @ rope_text b) e"
  shows "\<exists>n n'. concat_node (rope_ni lib) a b = Some n \<and> rope_wf lib n \<and> rope_text n = rope_text a @ rope_text b
    \<and> node_subseq (rope_ni lib) n (BInterval (mk_iv s e)) = Some n' \<and> rope_wf lib n'
    \<and> rope_text n' = slice (rope_text a @ rope_text b) s e"
proof -
  obtain n1 where n1: "concat_node (rope_ni lib) a b = Some n1" "node_wf (rope_ni lib) str_leaf_wf n1"
    "rope_text n1 = rope_text a @ rope_text b"
    using n unfolding rope_wf_def by (rule str.concat_nodeE)
  obtain n2 where "node_subseq (rope_ni lib) n1 (BInterval (mk_iv s e)) = Some n2"
    "node_wf (rope_ni lib) str_leaf_wf n2" "rope_text n2 = slice (rope_text n1) s e"
    by (rule str.node_subseq_spec [OF n1(2), of "BInterval (mk_iv s e)" s e]) (use iv in \<open>simp_all add: n1(3)\<close>)
  with n1 show ?thesis by (simp add: rope_wf_def)
qed

lemma rope_integrity: "rope_wf lib n \<Longrightarrow> assert_integrity (rope_ni lib) n = Some ()"
  by (simp add: rope_wf_def assert_integrity_def str.assert_integrity_inner_spec)

lemma push_strs_spec:
  "list_all utf8_valid ss \<Longrightarrow> rb_wf lib rb \<Longrightarrow>
    \<exists>rb'. foldM (\<lambda>s rb. rb_push_str lib rb s) ss rb = Some rb' \<and> rb_wf lib rb' \<and> rb_text rb' = rb_text rb @ concat ss"
proof (induction ss arbitrary: rb)
  case (Cons s ss)
  then obtain rb1 where "rb_push_str lib rb s = Some rb1" "rb_wf lib rb1" "rb_text rb1 = rb_text rb @ s"
    using rb_push_str_spec [of s rb] by auto
  with Cons.IH [of rb1] Cons.prems show ?case by auto
qed simp

lemma rope_builder_spec:
  assumes "list_all utf8_valid ss"
  shows "\<exists>rb n. foldM (\<lambda>s rb. rb_push_str lib rb s) ss rope_builder_new = Some rb \<and> rb_finish lib rb = Some n
    \<and> rope_wf lib n \<and> rope_text n = concat ss"
proof -
  obtain rb where rb: "foldM (\<lambda>s rb. rb_push_str lib rb s) ss rope_builder_new = Some rb" "rb_wf lib rb"
    "rb_text rb = concat ss"
    using push_strs_spec [OF assms rope_builder_new_wf(1)] rope_builder_new_wf(2) by auto
  obtain n where "rb_finish lib rb = Some n" "node_wf (rope_ni lib) str_leaf_wf n" "rope_text n = rb_text rb"
    using rb(2) by (rule rb_finish_spec)
  with rb show ?thesis by (auto simp: rope_wf_def)
qed

end


section \<open>The first engine\<close>

context engine_laws
begin

lemma node_default_wf: "rope_wf (ee_lib env) (node_default (ee_ni env))" "rope_text (node_default (ee_ni env)) = []"
  using str.wf_from_leaf [of "leaf_default (ee_ni env)"] str.leaf_default
  by (simp_all add: rope_wf_def node_default_def)

lemma engine_empty_spec:
  obtains e where "engine_empty env = Some e" "engine_inv env e []" "engine_hist env e []"
    "engine_texts env e [] = [[]]" "en_rev_id_counter e = 1" "length (en_revs e) = 1" "en_undone e = os_new (ee_os env)"
    "rope_text (en_text e) = []"
proof -
  define e where "e = \<lparr>en_session = default_session, en_rev_id_counter = 1,
       en_text = node_default (ee_ni env), en_tombstones = node_default (ee_ni env),
       en_deletes = enc [], en_undone = os_new (ee_os env),
       en_revs = [\<lparr>rev_rev_id = \<lparr>session1 = 0, session2 = 0, num = 0\<rparr>, rev_max_undo = 0,
                   rev_edit = Undo (os_new (ee_os env)) (enc [])\<rparr>]\<rparr>"
  have "engine_empty env = Some e" by (simp add: engine_empty_def e_def)
  moreover have "engine_inv env e []" "engine_hist env e []" "engine_texts env e [] = [[]]"
    using node_default_wf
    by (simp_all add: engine_inv_def e_def halves_def rdel_def starts_ok_def undo_bounds_def
        engine_hist_def engine_state_def back_ok_def step_back_def engine_texts_def state_text_def)
  ultimately show thesis using that [of e] node_default_wf by (simp add: e_def)
qed

end



section \<open>Runs of the engine\<close>

text \<open>
  An engine together with the documents that its head showed, one for each revision.  Edits may be
  based on any revision that is still there; \<^verbatim>\<open>undo\<close> runs here when it adds a revision.
\<close>

inductive engine_run :: "'s engine_env \<Rightarrow> 's engine \<Rightarrow> str list \<Rightarrow> bool" for env where
  start: "engine_empty env = Some e \<Longrightarrow> engine_run env e [rope_text (get_head e)]"
| session: "engine_run env e ts \<Longrightarrow> set_session_id e s = Some e' \<Longrightarrow> engine_run env e' ts"
| edit: "engine_run env e ts \<Longrightarrow> find_rev_token env e base = Some k \<Longrightarrow>
    delta_for (ee_lib env) (ts ! k) d \<Longrightarrow> en_rev_id_counter e + 1 < 2 ^ 32 \<Longrightarrow>
    try_edit_rev env e prio grp base d = Some (Inr (), e') \<Longrightarrow>
    ts' = (if length (en_revs e') = length (en_revs e) then ts else ts @ [rope_text (get_head e')]) \<Longrightarrow>
    engine_run env e' ts'"
| undo: "engine_run env e ts \<Longrightarrow> en_rev_id_counter e + 1 < 2 ^ 32 \<Longrightarrow>
    undo env e gs = Some e' \<Longrightarrow> en_revs e' \<noteq> en_revs e \<Longrightarrow>
    engine_run env e' (ts @ [rope_text (get_head e')])"

lemma engine_state_session [simp]:
  "engine_inv env (e\<lparr>en_session := s\<rparr>) us = engine_inv env e us"
  "engine_hist env (e\<lparr>en_session := s\<rparr>) us = engine_hist env e us"
  "engine_texts env (e\<lparr>en_session := s\<rparr>) us = engine_texts env e us"
  by (simp_all add: engine_inv_def engine_hist_def engine_texts_def engine_state_def)

context engine_laws
begin

lemma engine_run_inv:
  "engine_run env e ts \<Longrightarrow> \<exists>us. engine_inv env e us \<and> engine_hist env e us \<and> engine_texts env e us = ts"
proof (induction rule: engine_run.induct)
  case (start e)
  obtain e1 where "engine_empty env = Some e1" "engine_inv env e1 []" "engine_hist env e1 []"
    "engine_texts env e1 [] = [[]]" "en_rev_id_counter e1 = 1" "length (en_revs e1) = 1"
    "en_undone e1 = os_new (ee_os env)" "rope_text (en_text e1) = []"
    by (rule engine_empty_spec)
  with start show ?case by (auto simp: get_head_def)
next
  case (session e ts s e')
  then show ?case by (auto simp: set_session_id_def rassert_def split: if_splits)
next
  case (edit e ts base k d prio grp e' ts')
  then obtain us where us: "engine_inv env e us" "engine_hist env e us" "engine_texts env e us = ts" by blast
  show ?case
  proof (rule try_edit_rev_spec [OF us(1,2) edit.hyps(2) _ edit.hyps(4), of d prio grp])
    assume "try_edit_rev env e prio grp base d = Some (Inr (), e)"
    with edit.hyps(5) have "e' = e" by simp
    with us edit.hyps(6) show ?thesis by auto
  next
    fix e1 us' r
    assume 1: "try_edit_rev env e prio grp base d = Some (Inr (), e1)" "engine_inv env e1 us'" "engine_hist env e1 us'"
      "en_revs e1 = en_revs e @ [r]" "engine_texts env e1 us' = engine_texts env e us @ [rope_text (en_text e1)]"
    have "e' = e1" using 1(1) edit.hyps(5) by simp
    with 1 us(3) edit.hyps(6) show ?thesis by (auto simp: get_head_def)
  qed (use edit.hyps(3) us(3) in simp)
next
  case (undo e ts gs e')
  then obtain us where us: "engine_inv env e us" "engine_hist env e us" "engine_texts env e us = ts" by blast
  obtain e1 where "undo env e gs = Some e1" "engine_inv env e1 us"
    using undo_spec [OF us(1) undo.hyps(2)] by blast
  with undo.hyps(3) have "engine_inv env e' us" by simp
  with undo_history [OF us(1,2) undo.hyps(2,3,4)] us(3) show ?case by (auto simp: get_head_def)
qed

lemma engine_run_length: "engine_run env e ts \<Longrightarrow> length ts = length (en_revs e)"
  using engine_run_inv length_engine_texts by metis

end

section \<open>An environment\<close>

text \<open>The contracts hold together: naive byte search, sorted lists, and the revision number as token.\<close>

definition list_env :: "nat list engine_env" where
  "list_env = \<lparr>ee_lib = naive_search, ee_os = sorted_lists, ee_token = num\<rparr>"

lemma list_env_sel [simp]:
  "ee_lib list_env = naive_search" "ee_os list_env = sorted_lists" "ee_token list_env = num"
  by (simp_all add: list_env_def)

interpretation list_env: engine_laws list_env set
  unfolding engine_laws_def list_env_sel
  by (intro conjI naive.byte_search_laws_axioms sorted_lists.ord_set_laws_axioms)


text \<open>A small rope and an edit for examples.\<close>

definition rope_of :: "str \<Rightarrow> rope" where
  "rope_of s = from_leaf (rope_ni naive_search) s"

lemma rope_of_len [simp]: "n_len (rope_of s) = length s"
  by (simp add: rope_of_def from_leaf_def rope_ni_def)

lemma rope_of_wf: "str_leaf_wf s \<Longrightarrow> rope_wf naive_search (rope_of s)" "rope_text (rope_of s) = s"
  using naive.str.wf_from_leaf [of s] by (simp_all add: rope_of_def rope_wf_def)

lemma ascii_leaf: "str_leaf_wf [0x61]" "str_leaf_wf [0x61, 0x62]"
  by (simp_all add: str_leaf_wf_def utf8_valid_def MAX_LEAF_def len_utf8_from_first_byte_def)

lemma first_engine:
  obtains e where "engine_empty list_env = Some e" "rope_text (get_head e) = []" "en_undone e = []"
    "en_rev_id_counter e = 1" "find_rev_token list_env e 0 = Some 0" "length (en_revs e) = 1"
    "engine_run list_env e [[]]" "engine_inv list_env e []" "engine_hist list_env e []"
    "engine_texts list_env e [] = [[]]"
proof (rule list_env.engine_empty_spec)
  fix e
  assume e: "engine_empty list_env = Some e" "engine_inv list_env e []" "engine_hist list_env e []"
    "engine_texts list_env e [] = [[]]" "en_rev_id_counter e = 1" "length (en_revs e) = 1"
    "en_undone e = os_new (ee_os list_env)" "rope_text (en_text e) = []"
  have "find_rev_token list_env e 0 = Some 0"
    using e(1) by (auto simp: engine_empty_def find_rev_token_def)
  moreover have "en_undone e = []" using e(7) by (simp add: sorted_lists_def)
  moreover have "engine_run list_env e [[]]" using engine_run.start [OF e(1)] e(8) by (simp add: get_head_def)
  ultimately show thesis using that [of e] e by (simp add: get_head_def)
qed

lemma first_insert:
  assumes "str_leaf_wf s"
  obtains d where "simple_edit (BInterval (mk_iv 0 0)) (rope_of s) 0 = Some d"
    "delta_for naive_search [] d" "els_text id [] (els d) = s"
proof -
  obtain d where "simple_edit (BInterval (mk_iv 0 0)) (rope_of s) (length ([] :: str)) = Some d"
    "delta_for naive_search [] d" "els_text id [] (els d) = take 0 [] @ rope_text (rope_of s) @ drop 0 []"
    by (rule naive.simple_edit_spec [of "[]" 0 0 "rope_of s"])
      (simp_all add: starts_ok_def rope_of_wf(1) [OF assms] cut_ok_def)
  with that rope_of_wf(2) show thesis by simp
qed

lemma run_state:
  assumes "engine_laws env os_set" "engine_run env e ts"
  obtains us where "engine_inv env e us" "engine_hist env e us" "engine_texts env e us = ts"
  using engine_laws.engine_run_inv [OF assms] by blast

text \<open>Insert and delete a character in one undo group, then undo the group: the revision in between before
  and after the undo.\<close>

definition silent_undo_run :: "(str option \<times> str option) option" where
  "silent_undo_run = do {
     e \<leftarrow> engine_empty list_env;
     d \<leftarrow> simple_edit (BInterval (mk_iv 0 0)) (rope_of [0x61]) 0;
     (_, e) \<leftarrow> try_edit_rev list_env e 0 1 0 d;
     d \<leftarrow> simple_edit (BInterval (mk_iv 0 1)) (rope_of []) 1;
     (_, e) \<leftarrow> try_edit_rev list_env e 0 1 1 d;
     old_text \<leftarrow> get_rev list_env e 1;
     e \<leftarrow> undo list_env e [1];
     new_text \<leftarrow> get_rev list_env e 1;
     Some (map_option (node_content id) old_text, map_option (node_content id) new_text) }"

end
