(* ===== verification/Core_IndexSet.thy ===== *)
theory Core_IndexSet
  imports Rope_Engine_Run
begin

text \<open>
  Sets of indices as sorted lists of ranges, \<^verbatim>\<open>xi-core-lib/src/index_set.rs\<close>.  The ranges
  are pairs of start and end; the set is refined to a set of numbers.  \<^verbatim>\<open>binary_search_by\<close> of the
  standard library is its documented result on strictly increasing keys, the first index whose key is
  not smaller.
\<close>

section \<open>Order of the transformed positions\<close>

lemma tr_spec_ge: "off \<le> tr_spec es ix after off"
  by (induction es ix after off rule: tr_spec.induct) (auto intro: order_trans [rotated])

lemma tr_spec_mono:
  "copies_fwd es \<Longrightarrow> ix < ix' \<or> (ix = ix' \<and> (after \<longrightarrow> after')) \<Longrightarrow>
    tr_spec es ix after off \<le> tr_spec es ix' after' off"
proof (induction es ix after off rule: tr_spec.induct)
  case (2 b e es ix after off)
  have be: "b \<le> e" "copies_fwd es" using "2.prems"(1) by (auto simp: copies_fwd_def)
  have "off + (e - b) \<le> tr_spec es ix' after' (off + (e - b))" by (rule tr_spec_ge)
  with 2 be show ?case by auto
next
  case (3 n es ix after off)
  then show ?case by (auto simp: copies_fwd_def)
qed simp

lemma tr_answer_mono:
  "copies_fwd es \<Longrightarrow> ix < ix' \<or> (ix = ix' \<and> (after \<longrightarrow> after')) \<Longrightarrow>
    tr_answer es ix after \<le> tr_answer es ix' after'"
  by (auto simp: tr_answer_def intro: tr_spec_mono)


section \<open>Vectors\<close>

definition remove_n_at :: "'a list \<Rightarrow> nat \<Rightarrow> nat \<Rightarrow> 'a list option" where
  "remove_n_at v index n =
     (if n = 1 then vec_remove v index
      else if n > 1 then do {
        new_len \<leftarrow> usize_sub (length v) n;
        Some (take new_len (fold (\<lambda>i v. v[i := v ! (i + n)]) [index..<new_len] v)) }
      else Some v)"

lemma shift_down:
  "i + n + k = length v \<Longrightarrow> i + k = m \<Longrightarrow>
    take m (fold (\<lambda>i v. v[i := v ! (i + n)]) [i..<m] v) = take i v @ drop (i + n) v"
proof (induction k arbitrary: i v)
  case (Suc k)
  let ?v = "v[i := v ! (i + n)]"
  have lt: "i < m" "i + n < length v" "i < length v" using Suc.prems by auto
  have "take m (fold (\<lambda>i v. v[i := v ! (i + n)]) [i..<m] v)
      = take m (fold (\<lambda>i v. v[i := v ! (i + n)]) [Suc i..<m] ?v)"
    using lt(1) by (simp add: upt_conv_Cons)
  also have "\<dots> = take (Suc i) ?v @ drop (Suc i + n) ?v"
    by (rule Suc.IH) (use Suc.prems in auto)
  also have "take (Suc i) ?v = take i v @ [v ! (i + n)]"
    using lt(3) by (simp add: take_Suc_conv_app_nth)
  also have "drop (Suc i + n) ?v = drop (Suc i + n) v" by simp
  finally show ?case using lt(2) by (simp add: Cons_nth_drop_Suc)
qed simp

lemma remove_n_at_spec:
  assumes "index + n \<le> length v"
  shows "remove_n_at v index n = Some (take index v @ drop (index + n) v)"
proof -
  have "take (length v - n) (fold (\<lambda>i v. v[i := v ! (i + n)]) [index..<length v - n] v)
      = take index v @ drop (index + n) v"
    by (rule shift_down [of index n "length v - n - index"]) (use assms in auto)
  with assms show ?thesis by (cases "n = 0") (auto simp: remove_n_at_def vec_remove_def)
qed


section \<open>Operations\<close>

type_synonym ranges = "(nat \<times> nat) list"

definition MAX_RANGES :: nat where "MAX_RANGES = 10000"

definition is_new :: ranges where "is_new = []"

definition is_clear :: "ranges \<Rightarrow> ranges" where "is_clear rs = []"

function merge_end :: "ranges \<Rightarrow> nat \<Rightarrow> nat \<Rightarrow> nat" where
  "merge_end rs end j =
     (if j + 1 < length rs \<and> end \<ge> fst (rs ! (j + 1)) then merge_end rs end (j + 1) else j)"
  by pat_completeness auto
termination
  by (relation "measure (\<lambda>(rs, end, j). length rs - j)") auto

declare merge_end.simps [simp del]

function union_loop :: "ranges \<Rightarrow> nat \<Rightarrow> nat \<Rightarrow> nat \<Rightarrow> ranges option" where
  "union_loop rs start end i =
     (if i < length rs then
        let (istart, iend) = rs ! i
        in if start > iend then union_loop rs start end (i + 1)
           else if end < istart then
             (if length rs \<ge> MAX_RANGES then Some rs else vec_insert rs i (start, end))
           else
             let rs = rs[i := (min start istart, iend)];
                 j = merge_end rs end i;
                 rs = rs[i := (min start istart, max end (snd (rs ! j)))]
             in remove_n_at rs (i + 1) (j - i)
      else if length rs \<ge> MAX_RANGES then Some rs
      else Some (rs @ [(start, end)]))"
  by pat_completeness auto
termination
  by (relation "measure (\<lambda>(rs, start, end, i). length rs - i)") auto

declare union_loop.simps [simp del]

definition union_one_range :: "ranges \<Rightarrow> nat \<Rightarrow> nat \<Rightarrow> ranges option" where
  "union_one_range rs start end = union_loop rs start end 0"

text \<open>
  The loop of \<^verbatim>\<open>delete_range\<close>: a range around the deleted one is split in two, one that begins
  before it is cut, one that ends behind it is moved, and the ones inside are counted for removal.
\<close>

function delete_loop ::
  "ranges \<Rightarrow> nat \<Rightarrow> nat \<Rightarrow> nat \<Rightarrow> nat option \<Rightarrow> nat \<Rightarrow> ranges \<times> nat option \<times> nat" where
  "delete_loop rs start end ix del_from del_len =
     (if ix < length rs \<and> fst (rs ! ix) < end then
        (if fst (rs ! ix) < start then
           (let (a, b) = rs ! ix;
                rs = (if b > end then take (ix + 1) rs @ (end, b) # drop (ix + 1) rs else rs)
            in delete_loop (rs[ix := (a, start)]) start end (ix + 1) del_from del_len)
         else if snd (rs ! ix) > end then
           delete_loop (rs[ix := (end, snd (rs ! ix))]) start end (ix + 1) del_from del_len
         else delete_loop rs start end (ix + 1)
           (case del_from of None \<Rightarrow> Some ix | Some d \<Rightarrow> Some d) (del_len + 1))
      else (rs, del_from, del_len))"
  by pat_completeness auto
termination
proof (relation "measure (\<lambda>(rs, start, end, ix, del_from, del_len).
    length (filter (\<lambda>r. fst r < end) (drop ix rs)))")
qed (auto simp: Cons_nth_drop_Suc [symmetric] drop_append split: if_splits)

declare delete_loop.simps [simp del]

definition is_delete_range :: "ranges \<Rightarrow> nat \<Rightarrow> nat \<Rightarrow> ranges option" where
  "is_delete_range rs start end =
     (let ix = partition_point (\<lambda>r. snd r < start) rs;
          (rs, del_from, del_len) = delete_loop rs start end ix None 0
      in case del_from of None \<Rightarrow> Some rs | Some d \<Rightarrow> remove_n_at rs d del_len)"

record minus_iter =
  mi_ranges :: ranges
  mi_start :: nat
  mi_end :: nat

definition minus_one_range :: "ranges \<Rightarrow> nat \<Rightarrow> nat \<Rightarrow> minus_iter" where
  "minus_one_range rs start end =
     \<lparr>mi_ranges = dropWhile (\<lambda>r. start \<ge> snd r) rs, mi_start = start, mi_end = end\<rparr>"

fun minus_next_loop :: "ranges \<Rightarrow> nat \<Rightarrow> nat \<Rightarrow> (nat \<times> nat) option \<times> minus_iter" where
  "minus_next_loop [] start end =
     (if start < end then (Some (start, end), \<lparr>mi_ranges = [], mi_start = end, mi_end = end\<rparr>)
      else (None, \<lparr>mi_ranges = [], mi_start = start, mi_end = end\<rparr>))"
| "minus_next_loop (r # rs) start end =
     (if start < end then
        (if end \<le> fst r then (Some (start, end), \<lparr>mi_ranges = r # rs, mi_start = end, mi_end = end\<rparr>)
         else if fst r > start
         then (Some (start, fst r), \<lparr>mi_ranges = rs, mi_start = snd r, mi_end = end\<rparr>)
         else minus_next_loop rs (snd r) end)
      else (None, \<lparr>mi_ranges = r # rs, mi_start = start, mi_end = end\<rparr>))"

definition minus_next :: "minus_iter \<Rightarrow> (nat \<times> nat) option \<times> minus_iter" where
  "minus_next it = minus_next_loop (mi_ranges it) (mi_start it) (mi_end it)"

text \<open>From the back; the list is reversed so that its last range is the head.\<close>

fun minus_back_loop :: "ranges \<Rightarrow> nat \<Rightarrow> nat \<Rightarrow> (nat \<times> nat) option \<times> minus_iter" where
  "minus_back_loop [] start end =
     (if start < end then (Some (start, end), \<lparr>mi_ranges = [], mi_start = end, mi_end = end\<rparr>)
      else (None, \<lparr>mi_ranges = [], mi_start = start, mi_end = end\<rparr>))"
| "minus_back_loop (r # rs) start end =
     (if start < end then
        (if snd r \<le> start then (Some (start, end), \<lparr>mi_ranges = rev (r # rs), mi_start = end, mi_end = end\<rparr>)
         else if end > snd r
         then (Some (snd r, end), \<lparr>mi_ranges = rev rs, mi_start = start, mi_end = fst r\<rparr>)
         else minus_back_loop rs start (fst r))
      else (None, \<lparr>mi_ranges = rev (r # rs), mi_start = start, mi_end = end\<rparr>))"

definition minus_next_back :: "minus_iter \<Rightarrow> (nat \<times> nat) option \<times> minus_iter" where
  "minus_next_back it = minus_back_loop (rev (mi_ranges it)) (mi_start it) (mi_end it)"

lemma minus_next_loop_le: "minus_next_loop rs a b = (Some r, it) \<Longrightarrow>
    a < b \<and> length (mi_ranges it) + (if mi_start it < mi_end it then 1 else 0) < length rs + 1"
  by (induction rs a b rule: minus_next_loop.induct) (auto split: if_splits)

lemma minus_next_shrinks: "minus_next it = (Some r, it') \<Longrightarrow>
    length (mi_ranges it') + (if mi_start it' < mi_end it' then 1 else 0)
      < length (mi_ranges it) + (if mi_start it < mi_end it then 1 else 0)"
  using minus_next_loop_le [of "mi_ranges it" "mi_start it" "mi_end it" r it'] by (auto simp: minus_next_def)

function minus_collect :: "minus_iter \<Rightarrow> ranges" where
  "minus_collect it =
     (case minus_next it of (None, _) \<Rightarrow> [] | (Some r, it') \<Rightarrow> r # minus_collect it')"
  by pat_completeness auto
termination
  by (relation "measure (\<lambda>it. length (mi_ranges it) + (if mi_start it < mi_end it then 1 else 0))")
    (auto dest!: minus_next_shrinks [OF sym])

declare minus_collect.simps [simp del]

definition apply_delta_range ::
  "nat \<times> nat \<Rightarrow> ranges \<times> (str, rope_info) transformer \<Rightarrow> (ranges \<times> (str, rope_info) transformer) option" where
  "apply_delta_range = (\<lambda>(start, end) (ranges, transformer). do {
     (a, transformer) \<leftarrow> transform transformer start False;
     (b, transformer) \<leftarrow> transform transformer end False;
     if a = b then Some (ranges, transformer)
     else if ranges \<noteq> [] \<and> snd (last ranges) = a
     then Some (ranges[length ranges - 1 := (fst (last ranges), b)], transformer)
     else Some (ranges @ [(a, b)], transformer) })"

definition is_apply_delta :: "ranges \<Rightarrow> (str, rope_info) delta \<Rightarrow> ranges option" where
  "is_apply_delta rs delta = do {
     (ranges, _) \<leftarrow> foldM apply_delta_range rs ([], transformer_new delta);
     Some ranges }"



section \<open>The set of a list of ranges\<close>

definition ranges_wf :: "ranges \<Rightarrow> bool" where
  "ranges_wf rs \<longleftrightarrow> (\<forall>r \<in> set rs. fst r < snd r) \<and> sorted_wrt (\<lambda>a b. snd a < fst b) rs"

definition ranges_set :: "ranges \<Rightarrow> nat set" where
  "ranges_set rs = (\<Union>r \<in> set rs. {fst r..<snd r})"

lemma ranges_wf_simps [simp]:
  "ranges_wf []"
  "ranges_wf (r # rs) \<longleftrightarrow> fst r < snd r \<and> (\<forall>s \<in> set rs. snd r < fst s) \<and> ranges_wf rs"
  "ranges_wf (rs @ rs') \<longleftrightarrow> ranges_wf rs \<and> ranges_wf rs' \<and> (\<forall>a \<in> set rs. \<forall>b \<in> set rs'. snd a < fst b)"
  by (auto simp: ranges_wf_def sorted_wrt_append)

lemma ranges_wf_lt: "ranges_wf rs \<Longrightarrow> r \<in> set rs \<Longrightarrow> fst r < snd r"
  by (simp add: ranges_wf_def)

lemma ranges_set_simps [simp]:
  "ranges_set [] = {}" "ranges_set (r # rs) = {fst r..<snd r} \<union> ranges_set rs"
  "ranges_set (rs @ rs') = ranges_set rs \<union> ranges_set rs'"
  by (auto simp: ranges_set_def)


section \<open>Union\<close>

text \<open>The ranges before, the ranges that meet the new one, and the ranges behind it.\<close>

definition lower :: "nat \<Rightarrow> ranges \<Rightarrow> ranges" where
  "lower start rs = takeWhile (\<lambda>r. snd r < start) rs"

definition meeting :: "nat \<Rightarrow> nat \<Rightarrow> ranges \<Rightarrow> ranges" where
  "meeting start end rs = takeWhile (\<lambda>r. fst r \<le> end) (dropWhile (\<lambda>r. snd r < start) rs)"

definition upper :: "nat \<Rightarrow> nat \<Rightarrow> ranges \<Rightarrow> ranges" where
  "upper start end rs = dropWhile (\<lambda>r. fst r \<le> end) (dropWhile (\<lambda>r. snd r < start) rs)"

lemma ranges_split: "rs = lower start rs @ meeting start end rs @ upper start end rs"
  by (simp add: lower_def meeting_def upper_def)

definition union_spec :: "nat \<Rightarrow> nat \<Rightarrow> ranges \<Rightarrow> ranges" where
  "union_spec start end rs =
     (let mid = meeting start end rs
      in if mid = [] then
           (if length rs \<ge> MAX_RANGES then rs else lower start rs @ (start, end) # upper start end rs)
         else lower start rs @ (min start (fst (hd mid)), max end (snd (last mid))) # upper start end rs)"

lemma merge_end_spec:
  "j < length rs \<Longrightarrow> merge_end rs end j = j + length (takeWhile (\<lambda>r. fst r \<le> end) (drop (j + 1) rs))"
proof (induction rs "end" j rule: merge_end.induct)
  case (1 rs "end" j)
  show ?case
  proof (cases "j + 1 < length rs")
    case True
    then have "drop (j + 1) rs = rs ! (j + 1) # drop (j + 2) rs" by (simp add: Cons_nth_drop_Suc)
    with 1 True show ?thesis by (auto simp: merge_end.simps [of rs "end" j])
  qed (use 1 in \<open>simp add: merge_end.simps [of rs "end" j]\<close>)
qed

lemma union_loop_spec:
  "i \<le> length (lower start rs) \<Longrightarrow> union_loop rs start end i = Some (union_spec start end rs)"
proof (induction rs start "end" i rule: union_loop.induct)
  case (1 rs start "end" i)
  let ?lo = "lower start rs" and ?mid = "meeting start end rs" and ?hi = "upper start end rs"
  note sp = ranges_split [of rs start "end"]
  show ?case
  proof (cases "i < length ?lo")
    case True
    then have "i < length rs" using sp by (metis length_append trans_less_add1)
    moreover have "snd (rs ! i) < start"
      using True unfolding lower_def by (metis nth_mem set_takeWhileD takeWhile_nth)
    ultimately show ?thesis
      using 1 True by (auto simp: union_loop.simps [of rs start "end" i] Let_def split: prod.splits)
  next
    case False
    with "1.prems" have i: "i = length ?lo" by simp
    have dr: "drop i rs = ?mid @ ?hi" using i sp by (metis append_eq_conv_conj)
    show ?thesis
    proof (cases "drop i rs")
      case Nil
      then have "i = length rs" "?mid = []" "?hi = []" using i dr sp by (auto simp: )
      moreover from this have "?lo = rs" using sp by simp
      ultimately show ?thesis by (simp add: union_loop.simps [of rs start "end" "length rs"] union_spec_def)
    next
      case (Cons r rest)
      have il: "i < length rs" and ri: "rs ! i = r"
        using Cons by (metis drop_eq_Nil leI list.simps(3), metis Cons_nth_drop_Suc drop_eq_Nil leI list.inject list.simps(3))
      have dw: "dropWhile (\<lambda>r. snd r < start) rs = r # rest"
        using Cons dr by (simp add: meeting_def upper_def)
      then have ge: "\<not> snd r < start" by (metis hd_dropWhile list.sel(1) list.simps(3))
      have lo: "take i rs = ?lo" using i sp by (metis append_eq_conv_conj)
      have rest: "drop (i + 1) rs = rest" using Cons by (metis Suc_eq_plus1 drop_Suc list.sel(3) tl_drop)
      show ?thesis
      proof (cases "end < fst r")
        case True
        then have "?mid = []" "?hi = r # rest" by (simp_all add: meeting_def upper_def dw)
        moreover obtain a b where "r = (a, b)" by force
        ultimately show ?thesis
          using True il ri ge lo Cons
          by (simp add: union_loop.simps [of rs start "end" i] union_spec_def vec_insert_def)
      next
        case False
        define tw where "tw = takeWhile (\<lambda>r. fst r \<le> end) rest"
        have mid: "?mid = r # tw" using False by (simp add: meeting_def dw tw_def)
        have hi: "?hi = drop (length tw) rest"
          using False unfolding upper_def dw tw_def by (simp add: dropWhile_eq_drop)
        let ?rs1 = "rs[i := (min start (fst r), snd r)]"
        have j: "merge_end ?rs1 end i = i + length tw"
          using merge_end_spec [of i ?rs1 "end"] il by (simp add: tw_def rest [simplified])
        have lt: "i + length tw < length rs"
          using rest il length_takeWhile_le [of "\<lambda>r. fst r \<le> end" rest] by (auto simp: tw_def)
        have last: "snd (?rs1 ! (i + length tw)) = snd (last ?mid)"
        proof (cases "tw = []")
          case False
          then have "last tw = rest ! (length tw - 1)"
            by (metis diff_less last_conv_nth length_greater_0_conv takeWhile_nth tw_def zero_less_one)
          also have "\<dots> = rs ! (i + length tw)"
            using False il by (cases "length tw") (simp_all add: rest [symmetric])
          finally show ?thesis using False by (simp add: mid)
        qed (use il in \<open>simp add: mid\<close>)
        let ?x = "(min start (fst r), max end (snd (last ?mid)))"
        have "remove_n_at (rs[i := ?x]) (i + 1) (length tw)
            = Some (take (i + 1) (rs[i := ?x]) @ drop (i + 1 + length tw) (rs[i := ?x]))"
          by (rule remove_n_at_spec) (use lt in simp)
        also have "take (i + 1) (rs[i := ?x]) = ?lo @ [?x]"
          using il lo by (simp add: take_Suc_conv_app_nth)
        also have "drop (i + 1 + length tw) (rs[i := ?x]) = ?hi"
          using rest hi by (metis add.commute drop_drop drop_update_cancel le_add1 less_Suc_eq_le plus_1_eq_Suc trans_le_add1 Suc_eq_plus1)
        finally have "remove_n_at (rs[i := ?x]) (i + 1) (length tw) = Some (?lo @ ?x # ?hi)" by simp
        moreover obtain a b where "r = (a, b)" by force
        ultimately show ?thesis
          using False il ri ge j last
          by (simp add: union_loop.simps [of rs start "end" i] union_spec_def mid Let_def)
      qed
    qed
  qed
qed


lemma meeting_facts:
  assumes "ranges_wf rs"
  shows "\<forall>r \<in> set (lower start rs). snd r < start" "\<forall>r \<in> set (meeting start end rs). start \<le> snd r \<and> fst r \<le> end"
    "\<forall>r \<in> set (upper start end rs). end < fst r \<and> start \<le> snd r"
proof -
  let ?rest = "dropWhile (\<lambda>r. snd r < start) rs"
  have wf: "ranges_wf ?rest"
    using assms by (metis ranges_wf_simps(3) takeWhile_dropWhile_id)
  have ge: "\<forall>r \<in> set ?rest. start \<le> snd r"
  proof (cases ?rest)
    case (Cons r rest)
    then have "start \<le> snd r" by (metis hd_dropWhile list.sel(1) list.simps(3) not_le)
    moreover have "start \<le> snd s" if "s \<in> set rest" for s
    proof -
      have "snd r < fst s" "fst s < snd s" using wf that ranges_wf_lt by (auto simp: Cons)
      with \<open>start \<le> snd r\<close> show ?thesis by linarith
    qed
    ultimately show ?thesis by (simp add: Cons)
  next
    case Nil
    show ?thesis unfolding Nil by simp
  qed
  have "\<forall>r \<in> set (dropWhile (\<lambda>r. fst r \<le> end) ?rest). end < fst r"
  proof (cases "dropWhile (\<lambda>r. fst r \<le> end) ?rest")
    case (Cons r rest)
    then have "end < fst r" by (metis hd_dropWhile list.sel(1) list.simps(3) not_le)
    moreover have "ranges_wf (r # rest)"
      using wf Cons by (metis ranges_wf_simps(3) takeWhile_dropWhile_id)
    ultimately show ?thesis by (auto simp: Cons)
  next
    case Nil
    show ?thesis unfolding Nil by simp
  qed
  then show "\<forall>r \<in> set (upper start end rs). end < fst r \<and> start \<le> snd r"
    using ge set_dropWhileD unfolding upper_def by fast
  show "\<forall>r \<in> set (lower start rs). snd r < start"
    unfolding lower_def using set_takeWhileD by fast
  show "\<forall>r \<in> set (meeting start end rs). start \<le> snd r \<and> fst r \<le> end"
    using ge set_takeWhileD unfolding meeting_def by fast
qed

lemma ranges_cover:
  assumes wf: "ranges_wf rs" and ne: "rs \<noteq> []" and meet: "\<forall>r \<in> set rs. start \<le> snd r \<and> fst r \<le> end" "start \<le> end"
  shows "{min start (fst (hd rs))..<max end (snd (last rs))} = {start..<end} \<union> ranges_set rs"
proof
  have hd: "hd rs \<in> set rs" and la: "last rs \<in> set rs" using ne by simp_all
  have bounds: "fst (hd rs) \<le> fst r" "snd r \<le> snd (last rs)" if "r \<in> set rs" for r
  proof -
    obtain h t where "rs = h # t" using ne by (cases rs) auto
    with wf that show "fst (hd rs) \<le> fst r" by fastforce
    obtain i l where "rs = i @ [l]" using ne by (cases rs rule: rev_cases) auto
    with wf that show "snd r \<le> snd (last rs)" by fastforce
  qed
  show "{start..<end} \<union> ranges_set rs \<subseteq> {min start (fst (hd rs))..<max end (snd (last rs))}"
    using bounds by (fastforce simp: ranges_set_def)
  show "{min start (fst (hd rs))..<max end (snd (last rs))} \<subseteq> {start..<end} \<union> ranges_set rs"
  proof
    fix x assume x: "x \<in> {min start (fst (hd rs))..<max end (snd (last rs))}"
    consider "start \<le> x \<and> x < end" | "x < start" | "end \<le> x" by linarith
    then show "x \<in> {start..<end} \<union> ranges_set rs"
    proof cases
      case 2
      with x meet hd have "x \<in> {fst (hd rs)..<snd (hd rs)}" by fastforce
      with hd show ?thesis by (auto simp: ranges_set_def)
    next
      case 3
      with x meet la have "x \<in> {fst (last rs)..<snd (last rs)}" by fastforce
      with la show ?thesis by (auto simp: ranges_set_def)
    qed simp
  qed
qed

lemma union_one_range_spec:
  assumes wf: "ranges_wf rs" and lt: "start < end"
  obtains rs' where "union_one_range rs start end = Some rs'" "ranges_wf rs'" "length rs' \<le> max MAX_RANGES (length rs)"
    "ranges_set rs' = ranges_set rs \<union> {start..<end}
      \<or> rs' = rs \<and> MAX_RANGES \<le> length rs \<and> ranges_set rs \<inter> {start..<end} = {}"
proof -
  let ?lo = "lower start rs" and ?mid = "meeting start end rs" and ?hi = "upper start end rs"
  note sp = ranges_split [of rs start "end"] and m = meeting_facts [OF wf, of start] meeting_facts(3) [OF wf, of start "end"]
  have "ranges_wf (?lo @ ?mid @ ?hi)" using wf by (simp only: sp [symmetric])
  then have wfs: "ranges_wf ?lo" "ranges_wf ?mid" "ranges_wf ?hi"
    "\<forall>a \<in> set ?lo. \<forall>b \<in> set ?mid \<union> set ?hi. snd a < fst b" "\<forall>a \<in> set ?mid. \<forall>b \<in> set ?hi. snd a < fst b"
    by auto
  have un: "union_one_range rs start end = Some (union_spec start end rs)"
    by (simp add: union_one_range_def union_loop_spec)
  have set: "ranges_set rs = ranges_set ?lo \<union> ranges_set ?mid \<union> ranges_set ?hi"
    using arg_cong [OF sp, of ranges_set] by auto
  have len: "length rs = length ?lo + length ?mid + length ?hi" using arg_cong [OF sp, of length] by simp
  show thesis
  proof (cases "?mid = []")
    case True
    have disj: "ranges_set rs \<inter> {start..<end} = {}"
      using m unfolding set True by (fastforce simp: ranges_set_def)
    have "ranges_wf (?lo @ (start, end) # ?hi)" using wfs m lt by fastforce
    moreover have "ranges_set (?lo @ (start, end) # ?hi) = ranges_set rs \<union> {start..<end}"
      using set True by auto
    ultimately show thesis
      using that [OF un] True disj wf len
      by (cases "MAX_RANGES \<le> length rs") (simp_all add: union_spec_def)
  next
    case False
    let ?x = "(min start (fst (hd ?mid)), max end (snd (last ?mid)))"
    have eq: "union_spec start end rs = ?lo @ ?x # ?hi" using False by (simp add: union_spec_def Let_def)
    have mem: "hd ?mid \<in> set ?mid" "last ?mid \<in> set ?mid" using False by simp_all
    have lo: "snd a < fst ?x \<and> (\<forall>b \<in> set ?hi. snd a < fst b)" if "a \<in> set ?lo" for a
      using that mem(1) wfs(4) m(1) by simp
    have hi: "snd ?x < fst b" if "b \<in> set ?hi" for b
      using that mem(2) wfs(5) m(3,4) by simp
    have "fst ?x < snd ?x" using lt by simp
    with lo hi wfs(1,3) have "ranges_wf (?lo @ ?x # ?hi)" by simp
    moreover have "ranges_set (?lo @ ?x # ?hi) = ranges_set rs \<union> {start..<end}"
      using ranges_cover [OF wfs(2) False _ less_imp_le [OF lt]] m(2) set by auto
    moreover have "length (?lo @ ?x # ?hi) \<le> length rs" using False len by (cases ?mid) auto
    ultimately show thesis using that [OF un] unfolding eq by simp
  qed
qed


section \<open>Difference\<close>

lemma minus_collect_done: "\<not> mi_start it < mi_end it \<Longrightarrow> minus_collect it = []"
  by (cases "mi_ranges it") (simp_all add: minus_collect.simps [of it] minus_next_def)

lemma minus_collect_unfold:
  "minus_collect \<lparr>mi_ranges = [], mi_start = start, mi_end = end\<rparr> = (if start < end then [(start, end)] else [])"
  "minus_collect \<lparr>mi_ranges = r # rs, mi_start = start, mi_end = end\<rparr> =
     (if start < end then
        if end \<le> fst r then [(start, end)]
        else (if fst r > start then [(start, fst r)] else [])
          @ minus_collect \<lparr>mi_ranges = rs, mi_start = snd r, mi_end = end\<rparr>
      else [])"
  by (auto simp: minus_collect.simps [of "\<lparr>mi_ranges = [], mi_start = start, mi_end = end\<rparr>"]
      minus_collect.simps [of "\<lparr>mi_ranges = r # rs, mi_start = start, mi_end = end\<rparr>"]
      minus_collect.simps [of "\<lparr>mi_ranges = rs, mi_start = snd r, mi_end = end\<rparr>"]
      minus_next_def minus_collect_done)

lemma minus_collect_loop:
  "ranges_wf rs \<Longrightarrow> (rs \<noteq> [] \<Longrightarrow> start < snd (hd rs)) \<Longrightarrow>
    ranges_set (minus_collect \<lparr>mi_ranges = rs, mi_start = start, mi_end = end\<rparr>) = {start..<end} - ranges_set rs
      \<and> ranges_wf (minus_collect \<lparr>mi_ranges = rs, mi_start = start, mi_end = end\<rparr>)
      \<and> (\<forall>r \<in> set (minus_collect \<lparr>mi_ranges = rs, mi_start = start, mi_end = end\<rparr>). start \<le> fst r)"
proof (induction rs arbitrary: start)
  case (Cons r rs)
  let ?c = "minus_collect \<lparr>mi_ranges = rs, mi_start = snd r, mi_end = end\<rparr>"
  have "rs \<noteq> [] \<Longrightarrow> snd r < snd (hd rs)" using Cons.prems(1) by (cases rs) auto
  with Cons.IH [of "snd r"] Cons.prems
  have IH: "ranges_set ?c = {snd r..<end} - ranges_set rs" "ranges_wf ?c" "\<forall>s \<in> set ?c. snd r \<le> fst s" by auto
  have r: "fst r < snd r" "start < snd r" "\<forall>s \<in> set rs. snd r < fst s" using Cons.prems by auto
  then have hi: "snd r \<le> x" if "x \<in> ranges_set rs" for x using that by (fastforce simp: ranges_set_def)
  show ?case
  proof (cases "start < end \<and> fst r < end")
    case True
    let ?a = "if fst r > start then [(start, fst r)] else []"
    have eq: "minus_collect \<lparr>mi_ranges = r # rs, mi_start = start, mi_end = end\<rparr> = ?a @ ?c"
      using True by (simp add: minus_collect_unfold)
    have "ranges_set ?a = {start..<end} \<inter> {..<fst r}" using True by auto
    moreover have "{start..<end} - ranges_set (r # rs)
        = {start..<end} \<inter> {..<fst r} \<union> ({snd r..<end} - ranges_set rs)"
      using r hi by (auto simp: not_le dest: hi)
    ultimately have "ranges_set (?a @ ?c) = {start..<end} - ranges_set (r # rs)"
      using IH(1) by simp
    moreover have "ranges_wf (?a @ ?c)" using IH r by fastforce
    moreover have "\<forall>s \<in> set (?a @ ?c). start \<le> fst s" using IH(3) r by fastforce
    ultimately show ?thesis unfolding eq by blast
  next
    case False
    then have eq: "minus_collect \<lparr>mi_ranges = r # rs, mi_start = start, mi_end = end\<rparr>
        = (if start < end then [(start, end)] else [])"
      by (auto simp: minus_collect_unfold)
    have "ranges_set (r # rs) \<inter> {start..<end} = {}"
      using False r(1) by (fastforce dest: hi)
    then show ?thesis unfolding eq by auto
  qed
qed (auto simp: minus_collect_unfold)

lemma minus_one_range_spec:
  assumes "ranges_wf rs"
  shows "ranges_set (minus_collect (minus_one_range rs start end)) = {start..<end} - ranges_set rs"
    "ranges_wf (minus_collect (minus_one_range rs start end))"
proof -
  let ?rest = "dropWhile (\<lambda>r. start \<ge> snd r) rs" and ?pre = "takeWhile (\<lambda>r. start \<ge> snd r) rs"
  have sp: "rs = ?pre @ ?rest" by simp
  have wf: "ranges_wf ?rest" using assms by (metis ranges_wf_simps(3) takeWhile_dropWhile_id)
  have hd: "start < snd (hd ?rest)" if "?rest \<noteq> []" using that by (metis (mono_tags, lifting) hd_dropWhile not_le)
  have pre: "ranges_set ?pre \<inter> {start..<end} = {}"
    using set_takeWhileD by (fastforce simp: ranges_set_def)
  have "ranges_set rs = ranges_set ?pre \<union> ranges_set ?rest"
    by (metis ranges_set_simps(3) takeWhile_dropWhile_id)
  with pre minus_collect_loop [OF wf hd, of "end"]
  show "ranges_set (minus_collect (minus_one_range rs start end)) = {start..<end} - ranges_set rs"
    "ranges_wf (minus_collect (minus_one_range rs start end))"
    by (auto simp: minus_one_range_def)
qed


text \<open>
  Taken from the back, the iterator assumes that no range lies behind the requested end: one that does
  is skipped, but its start replaces the end of the iterator, and positions outside of the request are
  delivered.
\<close>

lemma minus_next_back_beyond:
  "minus_next_back (minus_one_range [(7, 9)] 0 3)
     = (Some (0, 7), \<lparr>mi_ranges = [], mi_start = 7, mi_end = 7\<rparr>)"
  by (simp add: minus_next_back_def minus_one_range_def)


section \<open>Deletion\<close>

text \<open>The first range behind the deleted ones may begin inside the deleted range.\<close>

fun cut_first :: "nat \<Rightarrow> ranges \<Rightarrow> ranges" where
  "cut_first end [] = []"
| "cut_first end (r # rs) = (if fst r < end then (end, snd r) # rs else r # rs)"

lemma delete_loop_stop:
  "(\<forall>r \<in> set q. end \<le> fst r) \<Longrightarrow> delete_loop (pre @ q) start end (length pre) df dl = (pre @ q, df, dl)"
  by (cases q) (auto simp: delete_loop.simps [of _ start "end" "length pre"])

lemma delete_loop_inside:
  "ranges_wf q \<Longrightarrow> \<forall>r \<in> set q. start \<le> fst r \<Longrightarrow>
    delete_loop (pre @ q) start end (length pre) df dl =
      (let ins = takeWhile (\<lambda>r. snd r \<le> end) q
       in (pre @ ins @ cut_first end (dropWhile (\<lambda>r. snd r \<le> end) q),
           if ins = [] then df else (case df of None \<Rightarrow> Some (length pre) | Some d \<Rightarrow> Some d),
           dl + length ins))"
proof (induction q arbitrary: pre df dl)
  case Nil
  then show ?case by (simp add: delete_loop.simps)
next
  case (Cons r q)
  show ?case
  proof (cases "snd r \<le> end")
    case True
    have "delete_loop (pre @ r # q) start end (length pre) df dl =
        delete_loop ((pre @ [r]) @ q) start end (length (pre @ [r])) 
          (case df of None \<Rightarrow> Some (length pre) | Some d \<Rightarrow> Some d) (dl + 1)"
      using True Cons.prems by (auto simp: delete_loop.simps [of "pre @ r # q"])
    also have "\<dots> = (let ins = takeWhile (\<lambda>r. snd r \<le> end) (r # q)
       in (pre @ ins @ cut_first end (dropWhile (\<lambda>r. snd r \<le> end) q),
           case df of None \<Rightarrow> Some (length pre) | Some d \<Rightarrow> Some d, dl + length ins))"
      using Cons True by (subst Cons.IH) (auto simp: Let_def split: option.splits)
    finally show ?thesis using True by simp
  next
    case False
    show ?thesis
    proof (cases "fst r < end")
      case True
      have "delete_loop (pre @ r # q) start end (length pre) df dl =
          delete_loop ((pre @ [(end, snd r)]) @ q) start end (length (pre @ [(end, snd r)])) df dl"
        using True False Cons.prems by (auto simp: delete_loop.simps [of "pre @ r # q"])
      also have "\<dots> = ((pre @ [(end, snd r)]) @ q, df, dl)"
        by (rule delete_loop_stop) (use Cons.prems False in fastforce)
      finally show ?thesis using True False by simp
    next
      case outside: False
      have "delete_loop (pre @ r # q) start end (length pre) df dl = (pre @ r # q, df, dl)"
        using outside by (simp add: delete_loop.simps [of "pre @ r # q"])
      with outside False show ?thesis by simp
    qed
  qed
qed

text \<open>The ranges left when the deleted range lies before, around or across the first one.\<close>

definition delete_inside :: "ranges \<Rightarrow> nat \<Rightarrow> ranges" where
  "delete_inside q end = cut_first end (dropWhile (\<lambda>r. snd r \<le> end) q)"

lemma finish_delete:
  assumes "ranges_wf q" "\<forall>r \<in> set q. start \<le> fst r"
  shows "(case delete_loop (pre @ q) start end (length pre) None 0 of
      (rs, del_from, del_len) \<Rightarrow> (case del_from of None \<Rightarrow> Some rs | Some d \<Rightarrow> remove_n_at rs d del_len))
    = Some (pre @ delete_inside q end)"
  by (simp add: delete_loop_inside [OF assms] Let_def remove_n_at_spec delete_inside_def)

lemma delete_inside_spec:
  assumes "ranges_wf q" "\<forall>r \<in> set q. start \<le> fst r"
  shows "ranges_wf (delete_inside q end)" "ranges_set (delete_inside q end) = ranges_set q - {start..<end}"
    "\<forall>r \<in> set (delete_inside q end). start \<le> fst r \<and> (q \<noteq> [] \<longrightarrow> fst (hd q) \<le> fst r)"
proof -
  have "ranges_wf (delete_inside q end) \<and> ranges_set (delete_inside q end) = ranges_set q - {start..<end}
      \<and> (\<forall>r \<in> set (delete_inside q end). start \<le> fst r \<and> (q \<noteq> [] \<longrightarrow> fst (hd q) \<le> fst r))"
    using assms
  proof (induction q)
    case (Cons r q)
    then have hi: "snd r < x" if "x \<in> ranges_set q" for x
      using that by (fastforce simp: ranges_set_def)
    show ?case
    proof (cases "snd r \<le> end")
      case True
      then have "delete_inside (r # q) end = delete_inside q end" by (simp add: delete_inside_def)
      moreover have "{fst r..<snd r} \<subseteq> {start..<end}" using True Cons.prems by auto
      moreover have "fst r \<le> fst s" if "s \<in> set (delete_inside q end)" for s
      proof (cases q)
        case Nil
        with that show ?thesis by (simp add: delete_inside_def)
      next
        case (Cons r' q')
        with Cons.IH Cons.prems that have "fst r' \<le> fst s" by auto
        with Cons.prems Cons show ?thesis by auto
      qed
      ultimately show ?thesis using Cons by auto
    next
      case False
      then have eq: "delete_inside (r # q) end = cut_first end (r # q)" by (simp add: delete_inside_def)
      have q: "\<forall>s \<in> set q. snd r < fst s" "start \<le> fst r" "fst r < snd r" "ranges_wf q" using Cons.prems by auto
      have "ranges_set q \<inter> {start..<end} = {}" using False hi by fastforce
      then have "ranges_set (cut_first end (r # q)) = ranges_set (r # q) - {start..<end}"
        using q False by (auto split: if_splits)
      then show ?thesis unfolding eq using q False by (auto split: if_splits)
    qed
  qed (simp add: delete_inside_def)
  then show "ranges_wf (delete_inside q end)" "ranges_set (delete_inside q end) = ranges_set q - {start..<end}"
    "\<forall>r \<in> set (delete_inside q end). start \<le> fst r \<and> (q \<noteq> [] \<longrightarrow> fst (hd q) \<le> fst r)" by auto
qed


lemma is_delete_range_spec:
  assumes wf: "ranges_wf rs" and lt: "start < end"
  shows "\<exists>rs'. is_delete_range rs start end = Some rs' \<and> ranges_wf rs' \<and> ranges_set rs' = ranges_set rs - {start..<end}"
proof -
  define pre where "pre = takeWhile (\<lambda>r. snd r < start) rs"
  define rest where "rest = dropWhile (\<lambda>r. snd r < start) rs"
  have sp: "rs = pre @ rest" by (simp add: pre_def rest_def)
  have wfs: "ranges_wf pre" "ranges_wf rest" "\<forall>a \<in> set pre. \<forall>b \<in> set rest. snd a < fst b"
    using wf by (simp_all add: sp)
  have lo: "\<forall>a \<in> set pre. snd a < start" unfolding pre_def by (blast dest: set_takeWhileD)
  have pre: "ranges_set pre \<inter> {start..<end} = {}" using lo by (fastforce simp: ranges_set_def)
  have del: "is_delete_range rs start end =
      (case delete_loop (pre @ rest) start end (length pre) None 0 of
        (rs, del_from, del_len) \<Rightarrow> (case del_from of None \<Rightarrow> Some rs | Some d \<Rightarrow> remove_n_at rs d del_len))"
    by (simp add: is_delete_range_def partition_point_def pre_def [symmetric] sp [symmetric])
  have plain: ?thesis if all: "\<forall>r \<in> set rest. start \<le> fst r"
  proof -
    note d = delete_inside_spec [OF wfs(2) all, of "end"]
    have "snd a < fst b" if "a \<in> set pre" "b \<in> set (delete_inside rest end)" for a b
      using that lo d(3) by fastforce
    then have "ranges_wf (pre @ delete_inside rest end)" using wfs(1) d(1) by simp
    moreover have "ranges_set (pre @ delete_inside rest end) = ranges_set rs - {start..<end}"
      using d(2) pre by (auto simp: sp)
    ultimately show ?thesis by (simp add: del finish_delete [OF wfs(2) all])
  qed
  show ?thesis
  proof (cases rest)
    case Nil
    then show ?thesis by (intro plain) simp
  next
    case (Cons r q)
    have r: "start \<le> snd r" using Cons unfolding rest_def by (metis hd_dropWhile list.sel(1) list.simps(3) not_le)
    have q: "ranges_wf q" "\<forall>s \<in> set q. snd r < fst s" "fst r < snd r" "\<forall>a \<in> set pre. snd a < fst r"
      using wfs(2,3) by (auto simp: Cons)
    show ?thesis
    proof (cases "fst r < start")
      case False
      with q show ?thesis by (intro plain) (auto simp: Cons)
    next
      case first: True
      have qs: "\<forall>s \<in> set q. start \<le> fst s" "\<forall>s \<in> set q. start < fst s" using q(2) r by fastforce+
      have pf: "ranges_wf (pre @ [(fst r, start)])" using wfs(1) q(4) first by simp
      show ?thesis
      proof (cases "snd r > end")
        case True
        have "delete_loop (pre @ rest) start end (length pre) None 0
            = delete_loop ((pre @ [(fst r, start)]) @ ((end, snd r) # q)) start end (length (pre @ [(fst r, start)])) None 0"
          using True first lt
          by (auto simp: Cons delete_loop.simps [of "pre @ r # q"] split: prod.splits)
        also have "\<dots> = ((pre @ [(fst r, start)]) @ ((end, snd r) # q), None, 0)"
          by (rule delete_loop_stop) (use q True in fastforce)
        finally have "is_delete_range rs start end = Some (pre @ (fst r, start) # (end, snd r) # q)" by (simp add: del)
        moreover have "ranges_wf (pre @ (fst r, start) # (end, snd r) # q)"
          using pf q True lt lo qs by fastforce
        moreover have "ranges_set q \<inter> {start..<end} = {}" using q(2) True by (fastforce simp: ranges_set_def)
        then have "ranges_set (pre @ (fst r, start) # (end, snd r) # q) = ranges_set rs - {start..<end}"
          using pre first True lt by (auto simp: sp Cons)
        ultimately show ?thesis by blast
      next
        case False
        note d = delete_inside_spec [OF q(1) qs(1), of "end"]
        have gt: "start < fst b" if "b \<in> set (delete_inside q end)" for b
          using that d(3) qs(2) by (cases q) (force simp: delete_inside_def)+
        have "delete_loop (pre @ rest) start end (length pre) None 0
            = delete_loop ((pre @ [(fst r, start)]) @ q) start end (length (pre @ [(fst r, start)])) None 0"
          using False first lt by (auto simp: Cons delete_loop.simps [of "pre @ r # q"] split: prod.splits)
        then have "is_delete_range rs start end = Some ((pre @ [(fst r, start)]) @ delete_inside q end)"
          unfolding del using finish_delete [OF q(1) qs(1), of "pre @ [(fst r, start)]" "end"] by simp
        moreover have "ranges_wf ((pre @ [(fst r, start)]) @ delete_inside q end)"
          using pf d(1) gt lo by fastforce
        moreover have "ranges_set ((pre @ [(fst r, start)]) @ delete_inside q end) = ranges_set rs - {start..<end}"
          using pre first False r d(2) lt by (auto simp: sp Cons)
        ultimately show ?thesis by blast
      qed
    qed
  qed
qed


section \<open>Edits\<close>

lemma apply_delta_range_spec:
  assumes inv: "tr_inv tr"
  defines "f \<equiv> \<lambda>x. tr_answer (els (tr_delta tr)) x False"
  assumes r: "fst r < snd r" and rs: "ranges_wf rs" "rs \<noteq> [] \<Longrightarrow> snd (last rs) \<le> f (fst r)"
  obtains rs' tr' where "apply_delta_range r (rs, tr) = Some (rs', tr')" "tr_inv tr'" "tr_delta tr' = tr_delta tr"
    "ranges_wf rs'" "rs' \<noteq> [] \<Longrightarrow> snd (last rs') \<le> f (snd r)" "ranges_set rs' = ranges_set rs \<union> {f (fst r)..<f (snd r)}"
proof -
  obtain tr1 where t1: "transform tr (fst r) False = Some (f (fst r), tr1)" "tr_inv tr1" "tr_delta tr1 = tr_delta tr"
    unfolding f_def using inv by (rule transform_spec)
  obtain tr2 where "transform tr1 (snd r) False = Some (tr_answer (els (tr_delta tr1)) (snd r) False, tr2)"
    "tr_inv tr2" "tr_delta tr2 = tr_delta tr1" using t1(2) by (rule transform_spec)
  then have t2: "transform tr1 (snd r) False = Some (f (snd r), tr2)" "tr_inv tr2" "tr_delta tr2 = tr_delta tr"
    by (simp_all add: f_def t1(3))
  have le: "f (fst r) \<le> f (snd r)"
    unfolding f_def using inv r by (intro tr_answer_mono) (auto simp: tr_inv_def)
  consider "f (fst r) = f (snd r)" | "f (fst r) < f (snd r)" "rs \<noteq> []" "snd (last rs) = f (fst r)"
    | "f (fst r) < f (snd r)" "rs = [] \<or> snd (last rs) < f (fst r)" using le rs(2) by force
  then show thesis
  proof cases
    case 1
    with t1 t2 rs show thesis by (intro that [of rs tr2]) (auto simp: apply_delta_range_def split: prod.splits)
  next
    case 2
    then obtain i l where il: "rs = i @ [l]" by (cases rs rule: rev_cases) auto
    with 2 t1 t2 rs show thesis
      by (intro that [of "i @ [(fst l, f (snd r))]" tr2]) (auto simp: apply_delta_range_def split: prod.splits)
  next
    case 3
    have "snd a < f (fst r)" if a: "a \<in> set rs" for a
    proof -
      have "rs \<noteq> []" using a by auto
      then obtain i l where il: "rs = i @ [l]" by (cases rs rule: rev_cases) auto
      with a rs(1) ranges_wf_lt [OF rs(1)] 3 show ?thesis by fastforce
    qed
    then have "ranges_wf (rs @ [(f (fst r), f (snd r))])" using 3(1) rs(1) by simp
    moreover have "apply_delta_range r (rs, tr) = Some (rs @ [(f (fst r), f (snd r))], tr2)"
      using 3 t1 t2 by (auto simp: apply_delta_range_def split: prod.splits)
    ultimately show thesis using t2 by (intro that [of "rs @ [(f (fst r), f (snd r))]" tr2]) auto
  qed
qed

lemma apply_delta_fold:
  assumes "tr_inv tr" "ranges_wf rs" "ranges_wf acc"
    "acc \<noteq> [] \<Longrightarrow> rs \<noteq> [] \<Longrightarrow> snd (last acc) \<le> tr_answer (els (tr_delta tr)) (fst (hd rs)) False"
  shows "\<exists>acc' tr'. foldM apply_delta_range rs (acc, tr) = Some (acc', tr') \<and> ranges_wf acc'
    \<and> ranges_set acc' = ranges_set acc
        \<union> (\<Union>r \<in> set rs. {tr_answer (els (tr_delta tr)) (fst r) False..<tr_answer (els (tr_delta tr)) (snd r) False})"
  using assms
proof (induction rs arbitrary: acc tr)
  case (Cons r rs)
  have "fst r < snd r" using Cons.prems(2) by simp
  with Cons.prems obtain acc1 tr1 where s1: "apply_delta_range r (acc, tr) = Some (acc1, tr1)" "tr_inv tr1"
    "tr_delta tr1 = tr_delta tr" "ranges_wf acc1"
    "acc1 \<noteq> [] \<Longrightarrow> snd (last acc1) \<le> tr_answer (els (tr_delta tr)) (snd r) False"
    "ranges_set acc1 = ranges_set acc
      \<union> {tr_answer (els (tr_delta tr)) (fst r) False..<tr_answer (els (tr_delta tr)) (snd r) False}"
    by - (rule apply_delta_range_spec [of tr r acc], auto)
  have "snd (last acc1) \<le> tr_answer (els (tr_delta tr1)) (fst (hd rs)) False" if "acc1 \<noteq> []" "rs \<noteq> []"
  proof -
    have "snd r \<le> fst (hd rs)" using Cons.prems(2) that(2) by (cases rs) auto
    then have "tr_answer (els (tr_delta tr)) (snd r) False \<le> tr_answer (els (tr_delta tr)) (fst (hd rs)) False"
      using Cons.prems(1) by (intro tr_answer_mono) (auto simp: tr_inv_def)
    with s1(3,5) that show ?thesis by simp
  qed
  with Cons.IH [of tr1 acc1] Cons.prems(2) s1 show ?case by (auto simp: Un_assoc)
qed simp

lemma is_apply_delta_spec:
  assumes "copies_fwd (els d)" "ranges_wf rs"
  shows "\<exists>rs'. is_apply_delta rs d = Some rs' \<and> ranges_wf rs'
    \<and> ranges_set rs' = (\<Union>r \<in> set rs. {tr_answer (els d) (fst r) False..<tr_answer (els d) (snd r) False})"
  using apply_delta_fold [OF tr_inv_new [OF assms(1)] assms(2), of "[]"]
  by (auto simp: is_apply_delta_def transformer_new_def)

end
