(* ===== verification/Core_Selection.thy ===== *)
theory Core_Selection
  imports Core_IndexSet
begin

text \<open>
  Multiple selections and carets, \<^verbatim>\<open>xi-core-lib/src/selection.rs\<close>.  The struct \<^verbatim>\<open>Selection\<close> with its one
  field is the list of its regions.  Regions are kept sorted and apart; the sections behind the
  operations show that every operation keeps them so, and refine the operations that search by index to
  operations on the whole list.
\<close>

section \<open>Regions\<close>

datatype insert_drift = Inside | Outside | DriftDefault

datatype affinity = Downstream | Upstream

record sel_region =
  sr_start :: nat
  sr_end :: nat
  sr_horiz :: "nat option"
  sr_affinity :: affinity

definition sr_new :: "nat \<Rightarrow> nat \<Rightarrow> sel_region" where
  "sr_new s e = \<lparr>sr_start = s, sr_end = e, sr_horiz = None, sr_affinity = Downstream\<rparr>"

definition sr_caret :: "nat \<Rightarrow> sel_region" where
  "sr_caret pos = \<lparr>sr_start = pos, sr_end = pos, sr_horiz = None, sr_affinity = Downstream\<rparr>"

definition with_horiz :: "sel_region \<Rightarrow> nat option \<Rightarrow> sel_region" where
  "with_horiz r h = r\<lparr>sr_horiz := h\<rparr>"

definition with_affinity :: "sel_region \<Rightarrow> affinity \<Rightarrow> sel_region" where
  "with_affinity r a = r\<lparr>sr_affinity := a\<rparr>"

definition sr_min :: "sel_region \<Rightarrow> nat" where
  "sr_min r = min (sr_start r) (sr_end r)"

definition sr_max :: "sel_region \<Rightarrow> nat" where
  "sr_max r = max (sr_start r) (sr_end r)"

definition is_caret :: "sel_region \<Rightarrow> bool" where
  "is_caret r \<longleftrightarrow> sr_start r = sr_end r"

definition is_upstream :: "sel_region \<Rightarrow> bool" where
  "is_upstream r \<longleftrightarrow> sr_affinity r = Upstream"

definition should_merge :: "sel_region \<Rightarrow> sel_region \<Rightarrow> bool" where
  "should_merge r other \<longleftrightarrow>
     sr_min other < sr_max r \<or> ((is_caret r \<or> is_caret other) \<and> sr_min other = sr_max r)"

definition merge_with :: "sel_region \<Rightarrow> sel_region \<Rightarrow> sel_region" where
  "merge_with r other =
     (let is_forward = sr_end r \<ge> sr_start r;
          new_min = min (sr_min r) (sr_min other);
          new_max = max (sr_max r) (sr_max other)
      in if is_forward then sr_new new_min new_max else sr_new new_max new_min)"

definition region_interval :: "sel_region \<Rightarrow> interval option" where
  "region_interval src = interval_new (sr_min src) (sr_max src)"

definition interval_region :: "interval \<Rightarrow> sel_region" where
  "interval_region src = sr_new (iv_start src) (iv_end src)"


section \<open>Selections\<close>

type_synonym selection = "sel_region list"

definition sel_new :: selection where "sel_new = []"

definition sel_new_simple :: "sel_region \<Rightarrow> selection" where "sel_new_simple region = [region]"

definition sel_clear :: "selection \<Rightarrow> selection" where "sel_clear regions = []"

definition collapse :: "selection \<Rightarrow> selection option" where
  "collapse regions = (case take 1 regions of
     [] \<Rightarrow> None
   | r # rs \<Rightarrow> Some (r\<lparr>sr_start := sr_end r\<rparr> # rs))"

definition sel_search :: "selection \<Rightarrow> nat \<Rightarrow> nat" where
  "sel_search regions offset =
     (if regions = [] \<or> offset > sr_max (last regions) then length regions
      else partition_point (\<lambda>r. sr_max r < offset) regions)"

definition sel_clamp :: "selection \<Rightarrow> nat \<Rightarrow> selection" where
  "sel_clamp regions mx =
     map (\<lambda>r. r\<lparr>sr_start := min (sr_start r) mx, sr_end := min (sr_end r) mx\<rparr>) regions"

function add_loop :: "selection \<Rightarrow> sel_region \<Rightarrow> nat \<Rightarrow> sel_region \<times> nat" where
  "add_loop regions region end_ix =
     (if end_ix < length regions \<and> should_merge region (regions ! end_ix)
      then add_loop regions (merge_with region (regions ! end_ix)) (end_ix + 1)
      else (region, end_ix))"
  by pat_completeness auto
termination
  by (relation "measure (\<lambda>(regions, region, end_ix). length regions - end_ix)") auto

declare add_loop.simps [simp del]

definition add_region :: "selection \<Rightarrow> sel_region \<Rightarrow> selection option" where
  "add_region regions region =
     (let ix = sel_search regions (sr_min region)
      in if ix = length regions then Some (regions @ [region])
         else
           let (ix, end_ix, region) =
                 (if sr_min (regions ! ix) \<le> sr_min region then
                    (if should_merge (regions ! ix) region
                     then (ix, ix + 1, merge_with region (regions ! ix))
                     else (ix + 1, ix + 1, region))
                  else (ix, ix, region));
               (region, end_ix) = add_loop regions region end_ix
           in if ix = end_ix then vec_insert regions ix region
              else do {
                n \<leftarrow> usize_sub (end_ix - ix) 1;
                remove_n_at (regions[ix := region]) (ix + 1) n })"

definition regions_in_range :: "selection \<Rightarrow> nat \<Rightarrow> nat \<Rightarrow> selection option" where
  "regions_in_range regions start end =
     (let first = sel_search regions start;
          last = sel_search regions end;
          last = (if last < length regions \<and> sr_min (regions ! last) \<le> end then last + 1 else last)
      in do { rassert (first \<le> last \<and> last \<le> length regions); Some (slice regions first last) })"

definition sel_delete_range :: "selection \<Rightarrow> nat \<Rightarrow> nat \<Rightarrow> bool \<Rightarrow> selection option" where
  "sel_delete_range regions start end delete_adjacent =
     (let first = sel_search regions start;
          last = sel_search regions end
      in if first \<ge> length regions then Some regions
         else
           let first = (if \<not> delete_adjacent \<and> sr_max (regions ! first) = start then first + 1 else first);
               last = (if last < length regions
                          \<and> ((delete_adjacent \<and> sr_min (regions ! last) \<le> end)
                             \<or> (\<not> delete_adjacent \<and> sr_min (regions ! last) < end))
                       then last + 1 else last)
           in do { n \<leftarrow> usize_sub last first; remove_n_at regions first n })"

definition add_range_distinct :: "selection \<Rightarrow> sel_region \<Rightarrow> (selection \<times> nat \<times> nat) option" where
  "add_range_distinct regions region =
     (let ix = sel_search regions (sr_min region);
          ix = (if ix < length regions \<and> sr_max (regions ! ix) = sr_min region then ix + 1 else ix);
          occ = regions ! ix;
          is_eq = (sr_min occ = sr_min region \<and> sr_max occ = sr_max region);
          is_intersect_before = (sr_min region \<ge> sr_min occ \<and> sr_max occ > sr_min region)
      in if ix < length regions \<and> (is_eq \<or> is_intersect_before)
         then Some (regions, sr_min occ, sr_max occ)
         else
           let last = sel_search regions (sr_max region);
               last = (if last < length regions \<and> sr_min (regions ! last) < sr_max region then last + 1 else last)
           in do {
             n \<leftarrow> usize_sub last ix;
             regions \<leftarrow> remove_n_at regions ix n;
             regions \<leftarrow> (if ix = length regions then Some (regions @ [region]) else vec_insert regions ix region);
             r \<leftarrow> list_get regions ix;
             Some (regions, sr_min r, sr_max r) })"

definition sel_apply_region ::
  "bool \<Rightarrow> insert_drift \<Rightarrow> sel_region \<Rightarrow> selection \<times> (str, rope_info) transformer
    \<Rightarrow> (selection \<times> (str, rope_info) transformer) option" where
  "sel_apply_region after drift region = (\<lambda>(result, transformer).
     (let is_car = (sr_start region = sr_end region);
          is_region_forward = (sr_start region < sr_end region);
          (start_after, end_after) =
            (case (drift, is_car) of
               (Inside, False) \<Rightarrow> (\<not> is_region_forward, is_region_forward)
             | (Outside, False) \<Rightarrow> (is_region_forward, \<not> is_region_forward)
             | _ \<Rightarrow> (after, after))
      in do {
        (s, transformer) \<leftarrow> transform transformer (sr_start region) start_after;
        (e, transformer) \<leftarrow> transform transformer (sr_end region) end_after;
        result \<leftarrow> add_region result (with_affinity (sr_new s e) (sr_affinity region));
        Some (result, transformer) }))"

definition sel_apply_delta ::
  "selection \<Rightarrow> (str, rope_info) delta \<Rightarrow> bool \<Rightarrow> insert_drift \<Rightarrow> selection option" where
  "sel_apply_delta regions delta after drift = do {
     (result, _) \<leftarrow> foldM (sel_apply_region after drift) regions (sel_new, transformer_new delta);
     Some result }"


section \<open>Sorted and apart\<close>

text \<open>The invariant stated at the field: neighbours do not overlap, and a caret touches nothing.\<close>

definition apart :: "sel_region \<Rightarrow> sel_region \<Rightarrow> bool" where
  "apart a b \<longleftrightarrow> sr_max a \<le> sr_min b \<and> (is_caret a \<or> is_caret b \<longrightarrow> sr_max a < sr_min b)"

definition sel_wf :: "selection \<Rightarrow> bool" where
  "sel_wf regions \<longleftrightarrow> successively apart regions"

definition span :: "sel_region \<Rightarrow> nat set" where
  "span r = {sr_min r..sr_max r}"

definition sel_set :: "selection \<Rightarrow> nat set" where
  "sel_set regions = (\<Union>r \<in> set regions. span r)"

lemma min_le_max: "sr_min r \<le> sr_max r"
  by (simp add: sr_min_def sr_max_def)

lemma is_caret_alt: "is_caret r \<longleftrightarrow> sr_min r = sr_max r"
  by (auto simp: is_caret_def sr_min_def sr_max_def)

lemma sr_new_bounds [simp]: "sr_min (sr_new s e) = min s e" "sr_max (sr_new s e) = max s e"
  by (simp_all add: sr_new_def sr_min_def sr_max_def)

lemma with_affinity_bounds [simp]:
  "sr_min (with_affinity r a) = sr_min r" "sr_max (with_affinity r a) = sr_max r"
  by (simp_all add: with_affinity_def sr_min_def sr_max_def)

lemma merge_with_bounds [simp]:
  "sr_min (merge_with r s) = min (sr_min r) (sr_min s)" "sr_max (merge_with r s) = max (sr_max r) (sr_max s)"
  using min_le_max [of r] min_le_max [of s] by (auto simp: merge_with_def Let_def)

lemma apart_trans: "apart a b \<Longrightarrow> apart b c \<Longrightarrow> apart a c"
  using min_le_max [of b] by (auto simp: apart_def)

lemma sel_wf_sorted: "sel_wf regions \<longleftrightarrow> sorted_wrt apart regions"
  unfolding sel_wf_def
  by (rule successively_iff_sorted_wrt_strong) (blast intro: apart_trans)

lemma sel_wf_simps [simp]:
  "sel_wf []" "sel_wf (r # rs) \<longleftrightarrow> (\<forall>s \<in> set rs. apart r s) \<and> sel_wf rs"
  "sel_wf (rs @ rs') \<longleftrightarrow> sel_wf rs \<and> sel_wf rs' \<and> (\<forall>a \<in> set rs. \<forall>b \<in> set rs'. apart a b)"
  by (auto simp: sel_wf_sorted sorted_wrt_append)

lemma sel_set_simps [simp]:
  "sel_set [] = {}" "sel_set (r # rs) = span r \<union> sel_set rs" "sel_set (rs @ rs') = sel_set rs \<union> sel_set rs'"
  by (auto simp: sel_set_def)

lemma apart_max: "apart a b \<Longrightarrow> sr_max a < sr_max b"
  using min_le_max [of b] by (auto simp: apart_def is_caret_alt)

lemma sel_search_spec:
  assumes "sel_wf regions"
  shows "sel_search regions offset = length (takeWhile (\<lambda>r. sr_max r < offset) regions)"
proof (cases "regions = [] \<or> offset \<le> sr_max (last regions)")
  case False
  then obtain i l where il: "regions = i @ [l]" "sr_max l < offset" by (cases regions rule: rev_cases) auto
  with assms have "\<forall>r \<in> set regions. sr_max r < offset" using apart_max by fastforce
  then have tw: "takeWhile (\<lambda>r. sr_max r < offset) regions = regions" by (simp add: takeWhile_eq_all_conv)
  show ?thesis unfolding tw using False by (simp add: sel_search_def not_le)
qed (auto simp: sel_search_def partition_point_def)



section \<open>Adding a region\<close>

text \<open>A region swallows the longest run of regions behind it that it should merge with.\<close>

fun absorb :: "sel_region \<Rightarrow> selection \<Rightarrow> sel_region \<times> selection" where
  "absorb g [] = (g, [])"
| "absorb g (r # rs) = (if should_merge g r then absorb (merge_with g r) rs else (g, r # rs))"

lemma add_loop_spec:
  "add_loop (pre @ q) g (length pre) = (let (g', q') = absorb g q in (g', length (pre @ q) - length q'))
    \<and> (\<exists>m. q = m @ snd (absorb g q))"
proof (induction q arbitrary: pre g)
  case Nil
  then show ?case by (simp add: add_loop.simps)
next
  case (Cons r q)
  show ?case
  proof (cases "should_merge g r")
    case True
    then have "add_loop (pre @ r # q) g (length pre) = add_loop ((pre @ [r]) @ q) (merge_with g r) (length (pre @ [r]))"
      by (simp add: add_loop.simps [of "pre @ r # q"])
    with Cons.IH [of "pre @ [r]" "merge_with g r"] True show ?thesis
      by (auto split: prod.splits)
  next
    case False
    then show ?thesis by (simp add: add_loop.simps [of "pre @ r # q"])
  qed
qed

lemma absorb_spec:
  assumes "sel_wf q" "\<forall>r \<in> set q. sr_min g \<le> sr_min r"
  shows "sr_min (fst (absorb g q)) = sr_min g" "is_caret (fst (absorb g q)) \<Longrightarrow> is_caret g"
    "sel_wf (fst (absorb g q) # snd (absorb g q))"
    "sel_set (fst (absorb g q) # snd (absorb g q)) = span g \<union> sel_set q"
proof -
  have "sr_min (fst (absorb g q)) = sr_min g \<and> (is_caret (fst (absorb g q)) \<longrightarrow> is_caret g)
      \<and> sel_wf (fst (absorb g q) # snd (absorb g q))
      \<and> sel_set (fst (absorb g q) # snd (absorb g q)) = span g \<union> sel_set q"
    using assms
  proof (induction q arbitrary: g)
    case (Cons r q)
    have q: "sel_wf q" "\<forall>s \<in> set q. apart r s" "sr_min g \<le> sr_min r" using Cons.prems by auto
    show ?case
    proof (cases "should_merge g r")
      case True
      let ?g = "merge_with g r"
      have m: "sr_min ?g = sr_min g" "is_caret ?g \<Longrightarrow> is_caret g" using q(3) True min_le_max [of g] min_le_max [of r]
        by (auto simp: is_caret_alt should_merge_def)
      have "\<forall>s \<in> set q. sr_min ?g \<le> sr_min s" using Cons.prems(2) m(1) by simp
      note IH = Cons.IH [OF q(1) this]
      have "span ?g = span g \<union> span r"
        using q(3) True min_le_max [of r] min_le_max [of g] by (auto simp: span_def should_merge_def)
      with IH m True show ?thesis by (auto simp: Un_assoc)
    next
      case False
      then have gr: "apart g r" using q(3) by (auto simp: should_merge_def apart_def is_caret_alt)
      with q(2) have "\<forall>s \<in> set q. apart g s" by (blast intro: apart_trans)
      with False gr Cons.prems q show ?thesis by simp
    qed
  qed simp
  then show "sr_min (fst (absorb g q)) = sr_min g" "is_caret (fst (absorb g q)) \<Longrightarrow> is_caret g"
    "sel_wf (fst (absorb g q) # snd (absorb g q))"
    "sel_set (fst (absorb g q) # snd (absorb g q)) = span g \<union> sel_set q" by auto
qed

text \<open>
  The list that replaces the regions from index \<open>length pre\<close> on, when the loop begins with the region
  \<open>g\<close> behind at most one region that \<open>g\<close> has swallowed already.
\<close>

lemma add_region_tail:
  assumes "length dropped \<le> 1"
  shows "(let (region, end_ix) = add_loop (pre @ dropped @ q) g (length pre + length dropped)
      in if length pre = end_ix then vec_insert (pre @ dropped @ q) (length pre) region
         else do {
           n \<leftarrow> usize_sub (end_ix - length pre) 1;
           remove_n_at ((pre @ dropped @ q)[length pre := region]) (length pre + 1) n })
    = Some (pre @ fst (absorb g q) # snd (absorb g q))"
proof -
  obtain g' q' where ab: "absorb g q = (g', q')" by force
  obtain m where m: "q = m @ q'"
    and loop: "add_loop ((pre @ dropped) @ q) g (length (pre @ dropped)) = (g', length ((pre @ dropped) @ q) - length q')"
    using add_loop_spec [of "pre @ dropped" q g] by (auto simp: ab)
  then have loop': "add_loop (pre @ dropped @ m @ q') g (length pre + length dropped)
      = (g', length pre + length (dropped @ m))" by simp
  show ?thesis
  proof (cases "dropped @ m")
    case Nil
    with loop' m ab show ?thesis by (simp add: vec_insert_def)
  next
    case (Cons x xs)
    have eq: "pre @ dropped @ m @ q' = pre @ x # xs @ q'" using Cons by (metis append.assoc append_Cons)
    have "remove_n_at ((pre @ x # xs @ q')[length pre := g']) (length pre + 1) (length xs)
        = Some (pre @ g' # q')"
      by (subst remove_n_at_spec) auto
    with loop' Cons ab [unfolded m] show ?thesis by (simp add: m eq)
  qed
qed

lemma add_region_spec:
  assumes wf: "sel_wf regions"
  shows "\<exists>regions'. add_region regions region = Some regions' \<and> sel_wf regions'
    \<and> sel_set regions' = sel_set regions \<union> span region"
proof -
  define pre where "pre = takeWhile (\<lambda>r. sr_max r < sr_min region) regions"
  define rest where "rest = dropWhile (\<lambda>r. sr_max r < sr_min region) regions"
  have sp: "regions = pre @ rest" by (simp add: pre_def rest_def)
  have ix: "sel_search regions (sr_min region) = length pre" by (simp add: sel_search_spec [OF wf] pre_def)
  have wfs: "sel_wf pre" "sel_wf rest" "\<forall>a \<in> set pre. \<forall>b \<in> set rest. apart a b" using wf by (simp_all add: sp)
  have lo: "apart a region" if "a \<in> set pre" for a
    using that unfolding pre_def by (auto dest!: set_takeWhileD simp: apart_def)
  have put: ?thesis if g: "add_region regions region = Some (pre' @ fst (absorb g q) # snd (absorb g q))"
    "sel_wf pre'" "sel_wf q" "\<forall>a \<in> set pre'. apart a g \<and> (\<forall>b \<in> set q. apart a b)" "\<forall>r \<in> set q. sr_min g \<le> sr_min r"
    "sel_set pre' \<union> span g \<union> sel_set q = sel_set regions \<union> span region" for pre' g q
  proof -
    note ab = absorb_spec [OF g(3,5)]
    have "apart a (fst (absorb g q))" if "a \<in> set pre'" for a
      using g(4) that ab(1,2) by (auto simp: apart_def)
    moreover have "\<forall>b \<in> set (snd (absorb g q)). b \<in> set q"
      using add_loop_spec [of "[]" q g] by (metis UnCI set_append)
    ultimately have "sel_wf (pre' @ fst (absorb g q) # snd (absorb g q))" using g(2,4) ab(3) by auto
    with ab(4) g(1,6) show ?thesis by (auto simp: Un_assoc)
  qed
  show ?thesis
  proof (cases rest)
    case Nil
    then show ?thesis using ix sp wfs lo by (intro put [of pre region "[]"]) (auto simp: add_region_def)
  next
    case (Cons r q)
    have r: "sr_min region \<le> sr_max r" using Cons unfolding rest_def by (metis hd_dropWhile list.sel(1) list.simps(3) not_le)
    have q: "sel_wf q" "\<forall>s \<in> set q. apart r s" using wfs(2) by (auto simp: Cons)
    have rs: "sr_max r \<le> sr_min s" "sr_min r \<le> sr_min s" if "s \<in> set q" for s
      using q(2) that min_le_max [of r] by (auto simp: apart_def)
    have nth: "regions ! length pre = r" "length pre \<noteq> length regions" by (simp_all add: sp Cons)
    show ?thesis
    proof (cases "sr_min r \<le> sr_min region")
      case False
      have "add_region regions region = Some (pre @ fst (absorb region rest) # snd (absorb region rest))"
        using add_region_tail [of "[]" pre rest region, unfolded append.simps] False ix nth by (simp add: add_region_def sp Let_def)
      then show ?thesis
        by (rule put) (use False wfs lo rs in \<open>auto simp: Cons sp dest: rs(2)\<close>)
    next
      case first: True
      show ?thesis
      proof (cases "should_merge r region")
        case True
        let ?g = "merge_with region r"
        have "add_region regions region = Some (pre @ fst (absorb ?g q) # snd (absorb ?g q))"
          using add_region_tail [of "[r]" pre q ?g, unfolded append.simps] True first ix nth by (simp add: add_region_def sp Cons Let_def)
        moreover have "apart a ?g" if "a \<in> set pre" for a
        proof -
          have "apart a r" using wfs(3) that by (simp add: Cons)
          then show ?thesis
            using lo [OF that] first min_le_max [of r] min_le_max [of region]
            by (auto simp: apart_def is_caret_alt)
        qed
        moreover have "span ?g = span r \<union> span region"
          using first r min_le_max [of r] min_le_max [of region] by (auto simp: span_def)
        ultimately show ?thesis
          by (intro put [of pre ?g q]) (use wfs q first in \<open>auto simp: Cons sp dest: rs(2)\<close>)
      next
        case False
        then have ar: "apart r region" by (auto simp: should_merge_def apart_def)
        have "add_region regions region = Some ((pre @ [r]) @ fst (absorb region q) # snd (absorb region q))"
          using add_region_tail [of "[]" "pre @ [r]" q region, unfolded append.simps append.assoc length_append list.size add_0 add_0_right add_Suc_right] False first ix nth by (simp add: add_region_def sp Cons Let_def)
        then show ?thesis
        proof (rule put)
          show "\<forall>s \<in> set q. sr_min region \<le> sr_min s" using r rs(1) by fastforce
        qed (use wfs q lo ar in \<open>auto simp: Cons sp\<close>)
      qed
    qed
  qed
qed



section \<open>Ranges of regions\<close>

text \<open>
  A property of regions that holds for every region before one that has it selects a prefix of a
  selection, so that a pair of indices selects by position.
\<close>

definition left_closed :: "(sel_region \<Rightarrow> bool) \<Rightarrow> bool" where
  "left_closed P \<longleftrightarrow> (\<forall>a b. apart a b \<longrightarrow> P b \<longrightarrow> P a)"

lemma prefix_filter:
  assumes "sel_wf regions" "left_closed P"
  shows "take (cnt P regions) regions = filter P regions"
    "drop (cnt P regions) regions = filter (\<lambda>r. \<not> P r) regions"
proof -
  have "take (cnt P regions) regions = filter P regions \<and> drop (cnt P regions) regions = filter (\<lambda>r. \<not> P r) regions"
    using assms(1)
  proof (induction regions)
    case (Cons r rs)
    show ?case
    proof (cases "P r")
      case False
      have "filter P rs = []" using Cons.prems False assms(2) by (auto simp: filter_empty_conv left_closed_def)
      moreover from this have "filter (\<lambda>r. \<not> P r) rs = rs" by (auto simp: filter_id_conv filter_empty_conv)
      ultimately show ?thesis using False by simp
    qed (use Cons in simp)
  qed simp
  then show "take (cnt P regions) regions = filter P regions"
    "drop (cnt P regions) regions = filter (\<lambda>r. \<not> P r) regions" by auto
qed

lemma between_filter:
  assumes wf: "sel_wf regions" and cl: "left_closed A" "left_closed B" and AB: "\<forall>r \<in> set regions. A r \<longrightarrow> B r"
  shows "cnt A regions \<le> cnt B regions"
    "slice regions (cnt A regions) (cnt B regions) = filter (\<lambda>r. B r \<and> \<not> A r) regions"
    "take (cnt A regions) regions @ drop (cnt B regions) regions = filter (\<lambda>r. A r \<or> \<not> B r) regions"
proof -
  have A: "filter A (filter B regions) = filter A regions" using AB by (auto intro: filter_cong)
  then show le: "cnt A regions \<le> cnt B regions" by (metis length_filter_le)
  have wfB: "sel_wf (filter B regions)" using wf by (auto simp: sel_wf_sorted sorted_wrt_filter)
  have "slice regions (cnt A regions) (cnt B regions) = drop (cnt A (filter B regions)) (take (cnt B regions) regions)"
    unfolding A by (simp add: slice_def drop_take)
  also have "\<dots> = filter (\<lambda>r. \<not> A r) (filter B regions)"
    unfolding prefix_filter(1) [OF wf cl(2)] by (rule prefix_filter(2) [OF wfB cl(1)])
  finally show "slice regions (cnt A regions) (cnt B regions) = filter (\<lambda>r. B r \<and> \<not> A r) regions" by (simp add: conj_commute)
  have "filter (\<lambda>r. A r \<or> \<not> B r) xs = filter A xs @ filter (\<lambda>r. \<not> B r) xs"
    if "sel_wf xs" "\<forall>r \<in> set xs. A r \<longrightarrow> B r" for xs
    using that
  proof (induction xs)
    case (Cons r rs)
    have "filter A rs = []" if "\<not> B r"
      using that Cons.prems cl(2) by (auto simp: filter_empty_conv left_closed_def)
    with Cons show ?case by auto
  qed simp
  with wf AB prefix_filter [OF wf cl(1)] prefix_filter [OF wf cl(2)]
  show "take (cnt A regions) regions @ drop (cnt B regions) regions = filter (\<lambda>r. A r \<or> \<not> B r) regions" by simp
qed

lemma left_closed_max [simp]: "left_closed (\<lambda>r. sr_max r < p)" "left_closed (\<lambda>r. sr_max r \<le> p)"
  unfolding left_closed_def using apart_max by fastforce+

lemma left_closed_min [simp]: "left_closed (\<lambda>r. sr_min r < p)"
  unfolding left_closed_def apart_def using min_le_max by (metis le_trans order_le_less_trans)

lemma sel_search_cnt:
  assumes "sel_wf regions"
  shows "sel_search regions p = cnt (\<lambda>r. sr_max r < p) regions"
proof -
  have "length (takeWhile P xs) = cnt P xs" if "sel_wf xs" "left_closed P" for P and xs
    using that by (induction xs) (auto simp: left_closed_def filter_empty_conv)
  with assms show ?thesis by (simp add: sel_search_spec)
qed

text \<open>The region found at the index of a search, and the step over it.\<close>

lemma search_split:
  assumes wf: "sel_wf regions" and n: "sel_search regions p < length regions"
  obtains pre r q where "regions = pre @ r # q" "sel_search regions p = length pre" "\<forall>a \<in> set pre. sr_max a < p"
    "p \<le> sr_max r" "\<forall>s \<in> set q. apart r s \<and> p < sr_max s"
proof -
  define pre where "pre = filter (\<lambda>r. sr_max r < p) regions"
  define rest where "rest = filter (\<lambda>r. \<not> sr_max r < p) regions"
  have sp: "regions = pre @ rest"
    using prefix_filter [OF wf left_closed_max(1), of p] by (metis append_take_drop_id pre_def rest_def)
  have len: "sel_search regions p = length pre" using wf by (simp add: sel_search_cnt pre_def)
  with n sp obtain r q where rest: "rest = r # q" by (cases rest) auto
  have "p \<le> sr_max r" using Cons_eq_filterD [OF rest [unfolded rest_def, symmetric]] by auto
  moreover have "\<forall>s \<in> set q. apart r s" using wf by (simp add: sp rest)
  moreover from calculation have "\<forall>s \<in> set q. p < sr_max s" using apart_max by (metis le_less_trans)
  moreover have "\<forall>a \<in> set pre. sr_max a < p" by (simp add: pre_def)
  ultimately show thesis using sp len unfolding rest by (intro that) auto
qed

lemma search_step:
  assumes wf: "sel_wf regions" and lo: "\<forall>r \<in> set regions. sr_max r < p \<longrightarrow> P r"
    and hi: "\<forall>r \<in> set regions. \<forall>s \<in> set regions. p \<le> sr_max r \<longrightarrow> apart r s \<longrightarrow> \<not> P s"
    and at: "\<And>pre r q. regions = pre @ r # q \<Longrightarrow> \<forall>a \<in> set pre. sr_max a < p \<Longrightarrow> p \<le> sr_max r \<Longrightarrow>
       \<forall>s \<in> set q. p < sr_max s \<Longrightarrow> Q r = P r"
  shows "(if sel_search regions p < length regions \<and> Q (regions ! sel_search regions p)
     then sel_search regions p + 1 else sel_search regions p) = cnt P regions"
proof (cases "sel_search regions p < length regions")
  case True
  then obtain pre r q where s: "regions = pre @ r # q" "sel_search regions p = length pre" "\<forall>a \<in> set pre. sr_max a < p"
    "p \<le> sr_max r" "\<forall>s \<in> set q. apart r s \<and> p < sr_max s"
    using wf by (metis search_split)
  have "filter P q = []" using hi s(1,4,5) by (auto simp: filter_empty_conv)
  moreover have "filter P pre = pre" using lo s(1,3) by (auto simp: filter_id_conv)
  moreover have "Q r = P r" using at s by blast
  ultimately show ?thesis using s(1,2) by simp
next
  case False
  with sel_search_cnt [OF wf, of p] have "\<forall>r \<in> set regions. sr_max r < p"
    by (metis length_filter_less)
  then have "filter P regions = regions" using lo by (simp add: filter_id_conv)
  with False sel_search_cnt [OF wf, of p] show ?thesis by (metis length_filter_le not_less le_antisym)
qed

lemma regions_in_range_spec:
  assumes wf: "sel_wf regions" and le: "start \<le> end"
  defines "hit \<equiv> \<lambda>r. sr_min r < end \<or> (sr_min r = end \<and> (\<forall>s \<in> set regions. sr_max s = end \<longrightarrow> s = r))"
  shows "regions_in_range regions start end = Some (filter (\<lambda>r. hit r \<and> start \<le> sr_max r) regions)"
    "sel_delete_range regions start end True = Some (filter (\<lambda>r. \<not> (hit r \<and> start \<le> sr_max r)) regions)"
proof -
  let ?A = "\<lambda>r. sr_max r < start" and ?n = "sel_search regions end"
  have A: "sel_search regions start = cnt ?A regions" using wf by (rule sel_search_cnt)
  have hit: "left_closed hit"
    using min_le_max unfolding left_closed_def hit_def apart_def is_caret_alt by (metis le_antisym le_less_trans nless_le order_trans)
  have AB: "\<forall>r \<in> set regions. sr_max r < start \<longrightarrow> hit r"
    using le min_le_max unfolding hit_def by (metis le_less_trans less_le_trans)
  have last: "(if ?n < length regions \<and> sr_min (regions ! ?n) \<le> end then ?n + 1 else ?n) = cnt hit regions"
  proof (rule search_step [OF wf])
    show "\<forall>r \<in> set regions. sr_max r < end \<longrightarrow> hit r"
      using min_le_max le_less_trans unfolding hit_def by blast
    show "\<forall>r \<in> set regions. \<forall>s \<in> set regions. end \<le> sr_max r \<longrightarrow> apart r s \<longrightarrow> \<not> hit s"
      using apart_max by (fastforce simp: hit_def apart_def)
    show "(sr_min r \<le> end) = hit r" if "regions = pre @ r # q" "\<forall>a \<in> set pre. sr_max a < end" "end \<le> sr_max r"
      "\<forall>s \<in> set q. end < sr_max s" for pre r q
      using that by (auto simp: hit_def)
  qed
  note b = between_filter [OF wf left_closed_max(1) hit AB]
  have le: "cnt hit regions \<le> length regions" by simp
  show "regions_in_range regions start end = Some (filter (\<lambda>r. hit r \<and> start \<le> sr_max r) regions)"
    using b(1,2) le by (simp add: regions_in_range_def last A Let_def not_less)
  have keep: "filter (\<lambda>r. sr_max r < start \<or> \<not> hit r) regions = filter (\<lambda>r. \<not> (hit r \<and> start \<le> sr_max r)) regions"
    by (auto intro!: filter_cong)
  have "sel_delete_range regions start end True = Some (take (cnt ?A regions) regions @ drop (cnt hit regions) regions)"
    using last b(1) le by (simp add: sel_delete_range_def A Let_def remove_n_at_spec)
  then show "sel_delete_range regions start end True = Some (filter (\<lambda>r. \<not> (hit r \<and> start \<le> sr_max r)) regions)"
    by (simp add: b(3) keep)
qed

lemma sel_delete_range_inner:
  assumes wf: "sel_wf regions" and lt: "start < end"
  shows "sel_delete_range regions start end False
    = Some (filter (\<lambda>r. \<not> (sr_min r < end \<and> start < sr_max r)) regions)"
proof -
  let ?A = "\<lambda>r. sr_max r \<le> start" and ?B = "\<lambda>r. sr_min r < end"
  let ?m = "sel_search regions start" and ?n = "sel_search regions end"
  have AB: "\<forall>r \<in> set regions. ?A r \<longrightarrow> ?B r" using lt min_le_max by (meson le_less_trans le_trans)
  have first: "(if ?m < length regions \<and> sr_max (regions ! ?m) = start then ?m + 1 else ?m) = cnt ?A regions"
    by (rule search_step [OF wf]) (auto dest: apart_max)
  have last: "(if ?n < length regions \<and> sr_min (regions ! ?n) < end then ?n + 1 else ?n) = cnt ?B regions"
    by (rule search_step [OF wf]) (auto simp: apart_def intro: le_less_trans [OF min_le_max])
  note b = between_filter [OF wf left_closed_max(2) left_closed_min AB]
  have keep: "filter (\<lambda>r. ?A r \<or> \<not> ?B r) regions = filter (\<lambda>r. \<not> (?B r \<and> start < sr_max r)) regions"
    by (auto intro!: filter_cong)
  have le: "cnt ?B regions \<le> length regions" by simp
  have "sel_delete_range regions start end False = Some (take (cnt ?A regions) regions @ drop (cnt ?B regions) regions)"
  proof (cases "?m < length regions")
    case True
    with first last b(1) le show ?thesis by (simp add: sel_delete_range_def Let_def remove_n_at_spec)
  next
    case False
    have "cnt ?A regions = length regions" using first False by (metis le_antisym length_filter_le not_less)
    moreover from this b(1) le have "cnt ?B regions = length regions" by simp
    ultimately show ?thesis using False by (simp add: sel_delete_range_def)
  qed
  then show ?thesis by (simp add: b(3) keep)
qed



section \<open>Distinct ranges\<close>

lemma add_range_distinct_spec:
  assumes wf: "sel_wf regions" and nc: "\<forall>r \<in> set regions. \<not> is_caret r" "\<not> is_caret region"
  shows "(\<exists>occ \<in> set regions. sr_min occ \<le> sr_min region \<and> sr_min region < sr_max occ
        \<and> add_range_distinct regions region = Some (regions, sr_min occ, sr_max occ))
    \<or> (\<forall>occ \<in> set regions. \<not> (sr_min occ \<le> sr_min region \<and> sr_min region < sr_max occ))
        \<and> add_range_distinct regions region
            = Some (filter (\<lambda>r. sr_max r \<le> sr_min region) regions @ region
                # filter (\<lambda>r. sr_max region \<le> sr_min r) regions, sr_min region, sr_max region)"
proof -
  let ?A = "\<lambda>r. sr_max r \<le> sr_min region" and ?B = "\<lambda>r. sr_min r < sr_max region"
  let ?m = "sel_search regions (sr_min region)" and ?n = "sel_search regions (sr_max region)"
  let ?ix = "cnt ?A regions"
  have lt: "sr_min region < sr_max region" using nc(2) min_le_max [of region] by (auto simp: is_caret_alt)
  have AB: "\<forall>r \<in> set regions. ?A r \<longrightarrow> ?B r" using lt min_le_max by (meson le_less_trans le_trans)
  have first: "(if ?m < length regions \<and> sr_max (regions ! ?m) = sr_min region then ?m + 1 else ?m) = ?ix"
    by (rule search_step [OF wf]) (auto dest: apart_max)
  have last: "(if ?n < length regions \<and> ?B (regions ! ?n) then ?n + 1 else ?n) = cnt ?B regions"
    by (rule search_step [OF wf]) (auto simp: apart_def intro: le_less_trans [OF min_le_max])
  note b = between_filter [OF wf left_closed_max(2) left_closed_min AB]
  note pA = prefix_filter [OF wf left_closed_max(2), of "sr_min region"]
  have split: "regions = filter ?A regions @ filter (\<lambda>r. \<not> ?A r) regions"
    by (metis append_take_drop_id pA)
  have rm: "remove_n_at regions ?ix (cnt ?B regions - ?ix)
      = Some (filter ?A regions @ filter (\<lambda>r. sr_max region \<le> sr_min r) regions)"
    using b(1) by (simp add: remove_n_at_spec pA prefix_filter [OF wf left_closed_min] not_less)
  show ?thesis
  proof (cases "?ix < length regions")
    case True
    then obtain occ q where rest: "filter (\<lambda>r. \<not> ?A r) regions = occ # q"
      using split by (metis append_Nil2 less_irrefl neq_Nil_conv)
    have nth: "regions ! ?ix = occ" using split rest by (metis nth_append_length)
    have "occ \<in> set (filter (\<lambda>r. \<not> ?A r) regions)" unfolding rest by simp
    then have mem: "occ \<in> set regions" "sr_min region < sr_max occ" by auto
    show ?thesis
    proof (cases "sr_min occ \<le> sr_min region")
      case found: True
      with True nth mem first have "add_range_distinct regions region = Some (regions, sr_min occ, sr_max occ)"
        by (simp add: add_range_distinct_def Let_def)
      with found mem show ?thesis by blast
    next
      case False
      have "\<not> sr_min r \<le> sr_min region" if r: "r \<in> set regions" "sr_min region < sr_max r" for r
      proof -
        have "r \<in> set (occ # q)" using r by (simp flip: rest)
        moreover have "sel_wf (occ # q)" using wf by (simp flip: rest add: sel_wf_sorted sorted_wrt_filter)
        ultimately show ?thesis using False min_le_max [of occ] by (auto simp: apart_def)
      qed
      moreover have "add_range_distinct regions region
            = Some (filter ?A regions @ region # filter (\<lambda>r. sr_max region \<le> sr_min r) regions,
                sr_min region, sr_max region)"
        using True False nth first last rm b(1)
        by (simp add: add_range_distinct_def Let_def vec_insert_def list_get_def nth_append)
      ultimately show ?thesis by blast
    qed
  next
    case False
    then have all: "\<forall>r \<in> set regions. ?A r" by (metis length_filter_less)
    have "add_range_distinct regions region
            = Some (filter ?A regions @ region # filter (\<lambda>r. sr_max region \<le> sr_min r) regions,
                sr_min region, sr_max region)"
      using False first last rm b(1)
      by (simp add: add_range_distinct_def Let_def vec_insert_def list_get_def nth_append)
    with all show ?thesis by auto
  qed
qed

text \<open>
  The result is again a selection without carets.  Carets are another matter: one that is already there
  makes the count of the regions to remove negative, and one at the edge of a region stays there.
\<close>

lemma add_range_distinct_wf:
  assumes wf: "sel_wf regions" and nc: "\<forall>r \<in> set regions. \<not> is_caret r" "\<not> is_caret region"
  shows "\<exists>regions' s e. add_range_distinct regions region = Some (regions', s, e)
    \<and> sel_wf regions' \<and> (\<forall>r \<in> set regions'. \<not> is_caret r)"
proof -
  let ?new = "filter (\<lambda>r. sr_max r \<le> sr_min region) regions @ region # filter (\<lambda>r. sr_max region \<le> sr_min r) regions"
  have wfs: "sel_wf (filter P regions)" for P using wf by (simp add: sel_wf_sorted sorted_wrt_filter)
  have "apart a b" if "a \<in> set regions" "sr_max a \<le> sr_min region" "b \<in> set regions" "sr_max region \<le> sr_min b" for a b
    using that nc min_le_max [of region] by (auto simp: apart_def)
  then have "sel_wf ?new" using wfs nc by (auto simp: apart_def)
  moreover have "\<forall>r \<in> set ?new. \<not> is_caret r" using nc by auto
  moreover have "add_range_distinct regions region = Some (?new, sr_min region, sr_max region)
      \<or> (\<exists>s e. add_range_distinct regions region = Some (regions, s, e))"
    using add_range_distinct_spec [OF assms] by blast
  ultimately show ?thesis using wf nc(1) by blast
qed

lemma add_range_distinct_caret:
  "add_range_distinct [sr_caret p] (sr_caret p) = None"
  by (simp add: add_range_distinct_def sel_search_def partition_point_def sr_caret_def sr_min_def sr_max_def
      Let_def usize_sub_def)

lemma add_range_distinct_touching:
  "add_range_distinct [sr_new 0 2] (sr_caret 2) = Some ([sr_new 0 2, sr_caret 2], 2, 2)"
  "\<not> sel_wf [sr_new 0 2, sr_caret 2]"
  by (simp_all add: add_range_distinct_def sel_search_def partition_point_def sr_caret_def sr_new_def sr_min_def
      sr_max_def Let_def usize_sub_def remove_n_at_def list_get_def apart_def is_caret_def)

lemma sel_delete_range_caret:
  "sel_delete_range [sr_caret p] p p False = None"
  by (simp add: sel_delete_range_def sel_search_def partition_point_def sr_caret_def sr_min_def sr_max_def
      Let_def usize_sub_def)

lemma sel_clamp_touching:
  "sel_wf [sr_new 3 5, sr_new 7 9]" "\<not> sel_wf (sel_clamp [sr_new 3 5, sr_new 7 9] 4)"
  by (simp_all add: sel_clamp_def sr_new_def apart_def sr_min_def sr_max_def is_caret_def)

lemma regions_in_range_end_touching:
  "regions_in_range [sr_new 0 5, sr_new 5 8] 2 5 = Some [sr_new 0 5]"
  by (simp add: regions_in_range_def sel_search_def partition_point_def sr_new_def sr_min_def sr_max_def
      Let_def slice_def)


section \<open>Edits\<close>

text \<open>The flags with which the ends of a region follow insertions at them.\<close>

definition drift_flags :: "bool \<Rightarrow> insert_drift \<Rightarrow> sel_region \<Rightarrow> bool \<times> bool" where
  "drift_flags after drift r =
     (if is_caret r \<or> drift = DriftDefault then (after, after)
      else if (drift = Inside) = (sr_start r < sr_end r) then (False, True) else (True, False))"

definition moved_region :: "(str, rope_info) delta_element list \<Rightarrow> bool \<Rightarrow> insert_drift \<Rightarrow> sel_region \<Rightarrow> sel_region" where
  "moved_region es after drift r =
     (let (sa, ea) = drift_flags after drift r
      in with_affinity (sr_new (tr_answer es (sr_start r) sa) (tr_answer es (sr_end r) ea)) (sr_affinity r))"

lemma sel_apply_region_spec:
  assumes inv: "tr_inv tr" and wf: "sel_wf result"
  shows "\<exists>result' tr'. sel_apply_region after drift r (result, tr) = Some (result', tr') \<and> tr_inv tr'
    \<and> tr_delta tr' = tr_delta tr \<and> sel_wf result'
    \<and> sel_set result' = sel_set result \<union> span (moved_region (els (tr_delta tr)) after drift r)"
proof -
  obtain sa ea where fl: "drift_flags after drift r = (sa, ea)" by force
  obtain tr1 where t1: "transform tr (sr_start r) sa = Some (tr_answer (els (tr_delta tr)) (sr_start r) sa, tr1)"
    "tr_inv tr1" "tr_delta tr1 = tr_delta tr" using inv by (rule transform_spec)
  obtain tr2 where t2: "transform tr1 (sr_end r) ea = Some (tr_answer (els (tr_delta tr1)) (sr_end r) ea, tr2)"
    "tr_inv tr2" "tr_delta tr2 = tr_delta tr1" using t1(2) by (rule transform_spec)
  let ?m = "moved_region (els (tr_delta tr)) after drift r"
  obtain result' where a: "add_region result ?m = Some result'" "sel_wf result'" "sel_set result' = sel_set result \<union> span ?m"
    using add_region_spec [OF wf, of ?m] by blast
  have flags: "(case (drift, sr_start r = sr_end r) of
               (Inside, False) \<Rightarrow> (\<not> sr_start r < sr_end r, sr_start r < sr_end r)
             | (Outside, False) \<Rightarrow> (sr_start r < sr_end r, \<not> sr_start r < sr_end r)
             | _ \<Rightarrow> (after, after)) = (sa, ea)"
    using fl by (auto simp: drift_flags_def is_caret_def split: insert_drift.splits if_splits bool.splits)
  have "sel_apply_region after drift r (result, tr) = Some (result', tr2)"
    using t1 t2 a(1) flags by (simp add: sel_apply_region_def Let_def moved_region_def fl)
  with t1(3) t2(2,3) a(2,3) show ?thesis by simp
qed

lemma sel_apply_delta_spec:
  assumes "copies_fwd (els d)"
  shows "\<exists>regions'. sel_apply_delta regions d after drift = Some regions' \<and> sel_wf regions'
    \<and> sel_set regions' = (\<Union>r \<in> set regions. span (moved_region (els d) after drift r))"
proof -
  have "\<exists>result' tr'. foldM (sel_apply_region after drift) regions (result, tr) = Some (result', tr') \<and> sel_wf result'
      \<and> sel_set result' = sel_set result \<union> (\<Union>r \<in> set regions. span (moved_region (els (tr_delta tr)) after drift r))"
    if "tr_inv tr" "sel_wf result" for result tr
    using that
  proof (induction regions arbitrary: result tr)
    case (Cons r regions)
    obtain result1 tr1 where "sel_apply_region after drift r (result, tr) = Some (result1, tr1)" "tr_inv tr1"
      "tr_delta tr1 = tr_delta tr" "sel_wf result1"
      "sel_set result1 = sel_set result \<union> span (moved_region (els (tr_delta tr)) after drift r)"
      using sel_apply_region_spec [OF Cons.prems] by blast
    with Cons.IH [of tr1 result1] show ?case by (auto simp: Un_assoc)
  qed simp
  from this [OF tr_inv_new [OF assms], of "[]"] show ?thesis
    by (auto simp: sel_apply_delta_def sel_new_def transformer_new_def)
qed

end
