(* ===== verification/Core_LineCache.thy ===== *)
theory Core_LineCache
  imports Rope_Prelude
begin

text \<open>
  The shadow of the front end's line cache and the render plans, \<^verbatim>\<open>xi-core-lib/src/line_cache_shadow.rs\<close>.
  The run-length encoded spans are refined to a list with one entry per visual line: what the front end
  holds for it, or nothing.
\<close>

unbundle bit_operations_syntax

section \<open>Spans and the builder\<close>

definition SCROLL_SLOP :: nat where "SCROLL_SLOP = 2"

definition PRESERVE_EXTENT :: nat where "PRESERVE_EXTENT = 1000"

type_synonym validity = "8 word"

definition INVALID :: validity where "INVALID = 0"
definition TEXT_VALID :: validity where "TEXT_VALID = 1"
definition SYNTAX_VALID :: validity where "SYNTAX_VALID = 2"
definition CURSOR_VALID :: validity where "CURSOR_VALID = 4"
definition ALL_VALID :: validity where "ALL_VALID = 7"

record lc_span =
  sp_n :: nat
  sp_start :: nat
  sp_validity :: validity

record line_cache_shadow =
  lc_spans :: "lc_span list"
  lc_dirty :: bool

record lc_builder =
  lb_spans :: "lc_span list"
  lb_dirty :: bool

datatype render_tactic = Discard | Preserve | Render

type_synonym render_plan = "(nat \<times> render_tactic) list"

record plan_segment =
  our_line_num :: nat
  their_line_num :: nat
  seg_n :: nat
  seg_validity :: validity
  seg_tactic :: render_tactic

record plan_iterator =
  pi_shadow :: line_cache_shadow
  pi_plan :: render_plan
  shadow_ix :: nat
  shadow_line_num :: nat
  plan_ix :: nat
  plan_line_num :: nat

definition lb_new :: lc_builder where "lb_new = \<lparr>lb_spans = [], lb_dirty = False\<rparr>"

definition lb_build :: "lc_builder \<Rightarrow> line_cache_shadow" where
  "lb_build b = \<lparr>lc_spans = lb_spans b, lc_dirty = lb_dirty b\<rparr>"

definition lb_add_span :: "nat \<Rightarrow> nat \<Rightarrow> validity \<Rightarrow> lc_builder \<Rightarrow> lc_builder" where
  "lb_add_span n start_line_num validity b =
     (if n > 0 then
        let lst = last (lb_spans b)
        in if lb_spans b \<noteq> [] \<and> sp_validity lst = validity
              \<and> (validity = INVALID \<or> sp_start lst + sp_n lst = start_line_num)
           then b\<lparr>lb_spans := butlast (lb_spans b) @ [lst\<lparr>sp_n := sp_n lst + n\<rparr>]\<rparr>
           else b\<lparr>lb_spans := lb_spans b @ [\<lparr>sp_n = n, sp_start = start_line_num, sp_validity = validity\<rparr>]\<rparr>
      else b)"

definition lb_set_dirty :: "bool \<Rightarrow> lc_builder \<Rightarrow> lc_builder" where
  "lb_set_dirty d b = b\<lparr>lb_dirty := d\<rparr>"

definition lc_default :: line_cache_shadow where "lc_default = lb_build lb_new"


section \<open>Edits\<close>

text \<open>The loop of \<^verbatim>\<open>edit\<close> up to the edited lines: builder, line number, remaining spans.\<close>

fun edit_before ::
  "lc_span list \<Rightarrow> nat \<Rightarrow> nat \<Rightarrow> lc_builder \<Rightarrow> (lc_builder \<times> nat \<times> lc_span list) option" where
  "edit_before [] start line_num b = Some (b, line_num, [])"
| "edit_before (span # spans) start line_num b =
     (if line_num + sp_n span \<le> start
      then edit_before spans start (line_num + sp_n span)
        (lb_add_span (sp_n span) (sp_start span) (sp_validity span) b)
      else do {
        n \<leftarrow> usize_sub start line_num;
        Some (lb_add_span n (sp_start span) (sp_validity span) b, line_num, span # spans) })"

text \<open>The part of a span behind the line \<open>end\<close>, which both edits add last.\<close>

definition add_behind :: "nat \<Rightarrow> lc_span \<Rightarrow> nat \<Rightarrow> lc_builder \<Rightarrow> lc_builder option" where
  "add_behind end span line_num b =
     (if line_num + sp_n span > end then
        let offset = end - line_num
        in do {
          n \<leftarrow> usize_sub (sp_n span) offset;
          Some (lb_add_span n (sp_start span + offset) (sp_validity span) b) }
      else Some b)"

definition edit_after :: "nat \<Rightarrow> lc_span \<Rightarrow> nat \<times> lc_builder \<Rightarrow> (nat \<times> lc_builder) option" where
  "edit_after end span = (\<lambda>(line_num, b). do {
     b \<leftarrow> add_behind end span line_num b;
     Some (line_num + sp_n span, b) })"

definition lc_edit :: "line_cache_shadow \<Rightarrow> nat \<Rightarrow> nat \<Rightarrow> nat \<Rightarrow> line_cache_shadow option" where
  "lc_edit lc start end replace = do {
     (b, line_num, spans) \<leftarrow> edit_before (lc_spans lc) start 0 lb_new;
     (_, b) \<leftarrow> foldM (edit_after end) spans (line_num, lb_add_span replace 0 INVALID b);
     Some (lb_build (lb_set_dirty True b)) }"

fun lc_clean :: "lc_span list \<Rightarrow> nat \<Rightarrow> nat \<Rightarrow> nat \<Rightarrow> validity \<Rightarrow> bool" where
  "lc_clean [] line_num start end invalid = True"
| "lc_clean (span # spans) line_num start end invalid =
     (if start < line_num + sp_n span \<and> end > line_num \<and> sp_validity span AND invalid \<noteq> 0 then False
      else lc_clean spans (line_num + sp_n span) start end invalid)"

definition invalidate_span ::
  "nat \<Rightarrow> nat \<Rightarrow> validity \<Rightarrow> lc_span \<Rightarrow> nat \<times> lc_builder \<Rightarrow> (nat \<times> lc_builder) option" where
  "invalidate_span start end invalid span = (\<lambda>(line_num, b).
     (let b = (if start > line_num
               then lb_add_span (min (sp_n span) (start - line_num)) (sp_start span) (sp_validity span) b
               else b);
          invalid_start = max start line_num;
          invalid_end = min end (line_num + sp_n span);
          b = (if invalid_end > invalid_start
               then lb_add_span (invalid_end - invalid_start) (sp_start span + (invalid_start - line_num))
                      (sp_validity span AND NOT invalid) b
               else b)
      in do {
        b \<leftarrow> add_behind end span line_num b;
        Some (line_num + sp_n span, b) }))"

definition partial_invalidate ::
  "line_cache_shadow \<Rightarrow> nat \<Rightarrow> nat \<Rightarrow> validity \<Rightarrow> line_cache_shadow option" where
  "partial_invalidate lc start end invalid =
     (if lc_clean (lc_spans lc) 0 start end invalid then Some lc
      else do {
        (_, b) \<leftarrow> foldM (invalidate_span start end invalid) (lc_spans lc) (0, lb_new);
        Some (lb_build (lb_set_dirty True b)) })"


section \<open>Plans\<close>

definition iter_with_plan :: "line_cache_shadow \<Rightarrow> render_plan \<Rightarrow> plan_iterator" where
  "iter_with_plan lc plan = \<lparr>pi_shadow = lc, pi_plan = plan, shadow_ix = 0, shadow_line_num = 0,
     plan_ix = 0, plan_line_num = 0\<rparr>"

definition plan_next :: "plan_iterator \<Rightarrow> (plan_segment option \<times> plan_iterator) option" where
  "plan_next it =
     (if shadow_ix it = length (lc_spans (pi_shadow it)) \<or> plan_ix it = length (pi_plan it) then Some (None, it)
      else do {
        shadow_span \<leftarrow> list_get (lc_spans (pi_shadow it)) (shadow_ix it);
        plan_span \<leftarrow> list_get (pi_plan it) (plan_ix it);
        let start = max (shadow_line_num it) (plan_line_num it);
        let end = min (shadow_line_num it + sp_n shadow_span) (plan_line_num it + fst plan_span);
        skip \<leftarrow> usize_sub start (shadow_line_num it);
        n \<leftarrow> usize_sub end start;
        let result = \<lparr>our_line_num = start, their_line_num = sp_start shadow_span + skip, seg_n = n,
              seg_validity = sp_validity shadow_span, seg_tactic = snd plan_span\<rparr>;
        let it' = (if end = shadow_line_num it + sp_n shadow_span
              then it\<lparr>shadow_line_num := end, shadow_ix := shadow_ix it + 1\<rparr> else it);
        Some (Some result,
          if end = plan_line_num it + fst plan_span
          then it'\<lparr>plan_line_num := end, plan_ix := plan_ix it + 1\<rparr> else it') })"

definition iter_left :: "plan_iterator \<Rightarrow> nat" where
  "iter_left it = (length (lc_spans (pi_shadow it)) - shadow_ix it) + (length (pi_plan it) - plan_ix it)"

lemma plan_next_left:
  assumes "plan_next it = Some (Some seg, it')"
  shows "iter_left it' < iter_left it"
proof -
  have "shadow_ix it < length (lc_spans (pi_shadow it))" "plan_ix it < length (pi_plan it)"
    using assms by (auto simp: plan_next_def list_get_def split: if_splits)
  moreover have "min a b = a \<or> min a b = b" for a b :: nat by linarith
  ultimately show ?thesis
    using assms by (auto simp: plan_next_def list_get_def Let_def iter_left_def bind_eq_Some_conv split: if_splits)
qed

function plan_collect :: "plan_iterator \<Rightarrow> plan_segment list option" where
  "plan_collect it = (case plan_next it of
     None \<Rightarrow> None
   | Some (None, _) \<Rightarrow> Some []
   | Some (Some seg, it') \<Rightarrow> do { segs \<leftarrow> plan_collect it'; Some (seg # segs) })"
  by pat_completeness auto
termination
  by (relation "measure iter_left") (auto intro: plan_next_left)

declare plan_collect.simps [simp del]

definition needs_render :: "line_cache_shadow \<Rightarrow> render_plan \<Rightarrow> bool option" where
  "needs_render lc plan =
     (if lc_dirty lc then Some True
      else do {
        segs \<leftarrow> plan_collect (iter_with_plan lc plan);
        Some (\<exists>seg \<in> set segs. seg_tactic seg = Render \<and> seg_validity seg \<noteq> ALL_VALID) })"

definition usize_add :: "nat \<Rightarrow> nat \<Rightarrow> nat option" where
  "usize_add a b = (if a + b \<le> usize_max then Some (a + b) else None)"

definition plan_create :: "nat \<Rightarrow> nat \<Rightarrow> nat \<Rightarrow> render_plan option" where
  "plan_create total_height first_line height = do {
     let first_line = min first_line total_height;
     (spans, last) \<leftarrow> (if first_line > PRESERVE_EXTENT then do {
         last \<leftarrow> usize_sub first_line PRESERVE_EXTENT;
         Some ([(last, Discard)], last) }
       else Some ([], 0));
     (spans, last) \<leftarrow> (if first_line > SCROLL_SLOP then do {
         k \<leftarrow> usize_sub first_line SCROLL_SLOP;
         n \<leftarrow> usize_sub k last;
         Some (spans @ [(n, Preserve)], last + n) }
       else Some (spans, last));
     h \<leftarrow> usize_add first_line height;
     h1 \<leftarrow> usize_add h SCROLL_SLOP;
     let render_end = min h1 total_height;
     n \<leftarrow> usize_sub render_end last;
     let spans = spans @ [(n, Render)];
     let last = render_end;
     h2 \<leftarrow> usize_add h PRESERVE_EXTENT;
     let preserve_end = min h2 total_height;
     let (spans, last) = (if preserve_end > last then (spans @ [(preserve_end - last, Preserve)], preserve_end)
       else (spans, last));
     Some (if total_height > last then spans @ [(total_height - last, Discard)] else spans) }"

fun request_before :: "render_plan \<Rightarrow> nat \<Rightarrow> nat \<Rightarrow> render_plan \<Rightarrow> render_plan \<times> nat \<times> render_plan" where
  "request_before [] start line_num acc = (acc, line_num, [])"
| "request_before (span # spans) start line_num acc =
     (if line_num + fst span \<le> start then request_before spans start (line_num + fst span) (acc @ [span])
      else (if line_num < start then acc @ [(start - line_num, snd span)] else acc, line_num, span # spans))"

definition request_after :: "nat \<Rightarrow> nat \<times> render_tactic \<Rightarrow> nat \<times> render_plan \<Rightarrow> (nat \<times> render_plan) option" where
  "request_after end span = (\<lambda>(line_num, spans). do {
     spans \<leftarrow> (if line_num + fst span > end then
         let offset = end - line_num
         in do { n \<leftarrow> usize_sub (fst span) offset; Some (spans @ [(n, snd span)]) }
       else Some spans);
     Some (line_num + fst span, spans) })"

definition request_lines :: "render_plan \<Rightarrow> nat \<Rightarrow> nat \<Rightarrow> render_plan option" where
  "request_lines plan start end = do {
     let (spans, line_num, rest) = request_before plan start 0 [];
     n \<leftarrow> usize_sub end start;
     (_, spans) \<leftarrow> foldM (request_after end) rest (line_num, spans @ [(n, Render)]);
     Some spans }"



section \<open>The lines of a shadow\<close>

text \<open>
  What the front end holds for a line: nothing when the validity has no bits, otherwise the line's number
  there and the validity.
\<close>

type_synonym cached = "(nat \<times> validity) option"

definition line_state :: "validity \<Rightarrow> nat \<Rightarrow> cached" where
  "line_state v num = (if v = INVALID then None else Some (num, v))"

definition mk_lines :: "nat \<Rightarrow> nat \<Rightarrow> validity \<Rightarrow> cached list" where
  "mk_lines n start v = map (\<lambda>k. line_state v (start + k)) [0..<n]"

abbreviation span_lines :: "lc_span \<Rightarrow> cached list" where
  "span_lines sp \<equiv> mk_lines (sp_n sp) (sp_start sp) (sp_validity sp)"

definition spans_lines :: "lc_span list \<Rightarrow> cached list" where
  "spans_lines spans = concat (map span_lines spans)"

abbreviation lc_lines :: "line_cache_shadow \<Rightarrow> cached list" where
  "lc_lines lc \<equiv> spans_lines (lc_spans lc)"

lemma spans_lines_simps [simp]:
  "spans_lines [] = []" "spans_lines (sp # sps) = span_lines sp @ spans_lines sps"
  "spans_lines (sps @ sps') = spans_lines sps @ spans_lines sps'"
  by (simp_all add: spans_lines_def)

lemma length_mk_lines [simp]: "length (mk_lines n s v) = n"
  by (simp add: mk_lines_def)

lemma nth_mk_lines [simp]: "k < n \<Longrightarrow> mk_lines n s v ! k = line_state v (s + k)"
  by (simp add: mk_lines_def)

lemma mk_lines_0 [simp]: "mk_lines 0 s v = []"
  by (simp add: mk_lines_def)

lemma mk_lines_add: "mk_lines (a + b) s v = mk_lines a s v @ mk_lines b (s + a) v"
  by (rule nth_equalityI) (auto simp: nth_append)

lemma mk_lines_invalid [simp]: "mk_lines n s INVALID = replicate n None"
  by (rule nth_equalityI) (auto simp: line_state_def)

lemma take_drop_mk_lines [simp]:
  "take k (mk_lines n s v) = mk_lines (min k n) s v" "drop k (mk_lines n s v) = mk_lines (n - k) (s + k) v"
  by (auto intro!: nth_equalityI simp: add.assoc)

lemma lb_add_span_lines [simp]:
  "spans_lines (lb_spans (lb_add_span n s v b)) = spans_lines (lb_spans b) @ mk_lines n s v"
proof (cases "lb_spans b" rule: rev_cases)
  case Nil
  then show ?thesis by (simp add: lb_add_span_def)
next
  case (snoc sps sp)
  have "mk_lines (sp_n sp + n) (sp_start sp) v = mk_lines (sp_n sp) (sp_start sp) v @ mk_lines n s v"
    if "v = INVALID \<or> sp_start sp + sp_n sp = s"
    using that by (auto simp: mk_lines_add replicate_add)
  then show ?thesis by (auto simp: lb_add_span_def snoc Let_def)
qed

text \<open>No span is empty.\<close>

definition spans_wf :: "lc_span list \<Rightarrow> bool" where
  "spans_wf spans \<longleftrightarrow> (\<forall>sp \<in> set spans. sp_n sp > 0)"

lemma lb_add_span_wf [simp]: "spans_wf (lb_spans b) \<Longrightarrow> spans_wf (lb_spans (lb_add_span n s v b))"
  by (cases "lb_spans b" rule: rev_cases) (auto simp: lb_add_span_def spans_wf_def Let_def)

lemma add_behind_spec:
  obtains b' where "add_behind end sp line_num b = Some b'" "spans_wf (lb_spans b) \<Longrightarrow> spans_wf (lb_spans b')"
    "spans_lines (lb_spans b') = spans_lines (lb_spans b) @ drop (end - line_num) (span_lines sp)"
proof (cases "line_num + sp_n sp > end")
  case True
  then have "end - line_num \<le> sp_n sp" by simp
  with True that show thesis by (simp add: add_behind_def Let_def)
next
  case False
  with that show thesis by (simp add: add_behind_def)
qed

lemma edit_before_spec:
  "line_num \<le> start \<Longrightarrow> spans_wf (lb_spans b) \<Longrightarrow>
    \<exists>b' pre rest. edit_before spans start line_num b = Some (b', line_num + length (spans_lines pre), rest)
      \<and> spans = pre @ rest \<and> line_num + length (spans_lines pre) \<le> start \<and> spans_wf (lb_spans b')
      \<and> spans_lines (lb_spans b') = spans_lines (lb_spans b) @ take (start - line_num) (spans_lines spans)"
proof (induction spans start line_num b rule: edit_before.induct)
  case (2 sp spans start line_num b)
  show ?case
  proof (cases "line_num + sp_n sp \<le> start")
    case True
    with 2 obtain b' pre rest where IH:
      "edit_before spans start (line_num + sp_n sp) (lb_add_span (sp_n sp) (sp_start sp) (sp_validity sp) b)
        = Some (b', line_num + sp_n sp + length (spans_lines pre), rest)"
      "spans = pre @ rest" "line_num + sp_n sp + length (spans_lines pre) \<le> start" "spans_wf (lb_spans b')"
      "spans_lines (lb_spans b') = spans_lines (lb_spans b) @ span_lines sp
         @ take (start - (line_num + sp_n sp)) (spans_lines spans)"
      by auto
    with True show ?thesis
      by (intro exI [of _ b'] exI [of _ "sp # pre"] exI [of _ rest]) (auto simp: min_absorb2 add.assoc)
  next
    case False
    with "2.prems" show ?thesis
      by (intro exI [of _ "lb_add_span (start - line_num) (sp_start sp) (sp_validity sp) b"]
          exI [of _ "[]"] exI [of _ "sp # spans"]) (simp add: min_absorb1)
  qed
qed simp

lemma edit_after_spec:
  "spans_wf (lb_spans b) \<Longrightarrow>
    \<exists>ln b'. foldM (edit_after end) spans (line_num, b) = Some (ln, b') \<and> spans_wf (lb_spans b')
      \<and> spans_lines (lb_spans b') = spans_lines (lb_spans b) @ drop (end - line_num) (spans_lines spans)"
proof (induction spans arbitrary: line_num b)
  case (Cons sp spans)
  obtain b1 where b1: "add_behind end sp line_num b = Some b1" "spans_wf (lb_spans b1)"
    "spans_lines (lb_spans b1) = spans_lines (lb_spans b) @ drop (end - line_num) (span_lines sp)"
    using Cons.prems by - (rule add_behind_spec [of "end" sp line_num b], blast)
  from Cons.IH [OF b1(2), of "line_num + sp_n sp"] b1 show ?case by (auto simp: edit_after_def)
qed simp

lemma lc_edit_spec:
  assumes "start \<le> end"
  shows "\<exists>lc'. lc_edit lc start end replace = Some lc' \<and> spans_wf (lc_spans lc') \<and> lc_dirty lc'
    \<and> lc_lines lc' = take start (lc_lines lc) @ replicate replace None @ drop end (lc_lines lc)"
proof -
  have "spans_wf (lb_spans lb_new)" by (simp add: lb_new_def spans_wf_def)
  then obtain b1 pre rest where b1: "edit_before (lc_spans lc) start 0 lb_new = Some (b1, length (spans_lines pre), rest)"
    "lc_spans lc = pre @ rest" "length (spans_lines pre) \<le> start" "spans_wf (lb_spans b1)"
    "spans_lines (lb_spans b1) = take start (lc_lines lc)"
    using edit_before_spec [of 0 start lb_new "lc_spans lc"] by (auto simp: lb_new_def)
  obtain ln b2 where b2: "foldM (edit_after end) rest (length (spans_lines pre), lb_add_span replace 0 INVALID b1) = Some (ln, b2)"
    "spans_wf (lb_spans b2)"
    "spans_lines (lb_spans b2) = take start (lc_lines lc) @ replicate replace None
      @ drop (end - length (spans_lines pre)) (spans_lines rest)"
    using edit_after_spec [of "lb_add_span replace 0 INVALID b1"] b1(4,5) by fastforce
  have "drop end (lc_lines lc) = drop (end - length (spans_lines pre)) (spans_lines rest)"
    using b1(2,3) assms by simp
  with b1(1) b2 show ?thesis by (simp add: lc_edit_def lb_build_def lb_set_dirty_def)
qed



section \<open>Invalidation\<close>

definition clear_bits :: "validity \<Rightarrow> cached \<Rightarrow> cached" where
  "clear_bits invalid l = (case l of None \<Rightarrow> None | Some (num, v) \<Rightarrow> line_state (v AND NOT invalid) num)"

fun clear_range :: "nat \<Rightarrow> nat \<Rightarrow> validity \<Rightarrow> cached list \<Rightarrow> cached list" where
  "clear_range s e invalid [] = []"
| "clear_range s e invalid (l # ls) =
     (if s = 0 \<and> e > 0 then clear_bits invalid l else l) # clear_range (s - 1) (e - 1) invalid ls"

lemma length_clear_range [simp]: "length (clear_range s e invalid ls) = length ls"
  by (induction s e invalid ls rule: clear_range.induct) auto

lemma nth_clear_range:
  "i < length ls \<Longrightarrow> clear_range s e invalid ls ! i = (if s \<le> i \<and> i < e then clear_bits invalid (ls ! i) else ls ! i)"
  by (induction s e invalid ls arbitrary: i rule: clear_range.induct) (auto simp: nth_Cons split: nat.split)

lemma clear_range_append:
  "clear_range s e invalid (ls @ ls')
    = clear_range s e invalid ls @ clear_range (s - length ls) (e - length ls) invalid ls'"
  by (induction s e invalid ls rule: clear_range.induct) auto

lemma clear_bits_state [simp]: "clear_bits invalid (line_state v num) = line_state (v AND NOT invalid) num"
  by (simp add: clear_bits_def line_state_def INVALID_def)

lemma clear_range_mk_lines:
  assumes "s \<le> e"
  shows "clear_range s e invalid (mk_lines n st v)
    = mk_lines (min n s) st v @ mk_lines (min e n - s) (st + s) (v AND NOT invalid) @ mk_lines (n - e) (st + e) v"
    (is "?l = ?r")
proof (rule nth_equalityI)
  show "length ?l = length ?r" using assms by auto
  show "?l ! i = ?r ! i" if "i < length ?l" for i
    using that assms by (auto simp: nth_clear_range nth_append min_def)
qed

lemma lc_clean_spec:
  "lc_clean spans line_num start end invalid \<Longrightarrow>
    clear_range (start - line_num) (end - line_num) invalid (spans_lines spans) = spans_lines spans"
proof (induction spans line_num start "end" invalid rule: lc_clean.induct)
  case (2 sp spans line_num start "end" invalid)
  have "clear_range (start - line_num) (end - line_num) invalid (span_lines sp) = span_lines sp"
  proof (cases "start < line_num + sp_n sp \<and> end > line_num")
    case True
    with "2.prems" have "sp_validity sp AND invalid = 0" by (auto split: if_splits)
    then have "sp_validity sp AND NOT invalid = sp_validity sp"
      by (metis and.right_neutral bit.conj_disj_distrib bit.disj_cancel_right or.left_neutral)
    then show ?thesis by (auto intro!: nth_equalityI simp: nth_clear_range)
  next
    case False
    then show ?thesis by (auto intro!: nth_equalityI simp: nth_clear_range)
  qed
  with 2 show ?case by (auto simp: clear_range_append split: if_splits)
qed simp

lemma invalidate_span_spec:
  assumes le: "start \<le> end" and wf: "spans_wf (lb_spans b)"
  obtains b' where "invalidate_span start end invalid sp (line_num, b) = Some (line_num + sp_n sp, b')"
    "spans_wf (lb_spans b')"
    "spans_lines (lb_spans b') = spans_lines (lb_spans b)
      @ clear_range (start - line_num) (end - line_num) invalid (span_lines sp)"
proof -
  define b1 where "b1 = (if start > line_num
      then lb_add_span (min (sp_n sp) (start - line_num)) (sp_start sp) (sp_validity sp) b else b)"
  define i j where "i = max start line_num" and "j = min end (line_num + sp_n sp)"
  define b2 where "b2 = (if j > i
      then lb_add_span (j - i) (sp_start sp + (i - line_num)) (sp_validity sp AND NOT invalid) b1 else b1)"
  obtain b3 where b3: "add_behind end sp line_num b2 = Some b3" "spans_wf (lb_spans b2) \<Longrightarrow> spans_wf (lb_spans b3)"
    "spans_lines (lb_spans b3) = spans_lines (lb_spans b2) @ drop (end - line_num) (span_lines sp)"
    using add_behind_spec [of "end" sp line_num b2] by blast
  have l1: "spans_lines (lb_spans b1)
      = spans_lines (lb_spans b) @ mk_lines (min (sp_n sp) (start - line_num)) (sp_start sp) (sp_validity sp)"
    by (simp add: b1_def)
  have "j - i = min (end - line_num) (sp_n sp) - (start - line_num)" "i - line_num = start - line_num"
    using le by (auto simp: i_def j_def)
  then have l2: "spans_lines (lb_spans b2) = spans_lines (lb_spans b1)
      @ mk_lines (min (end - line_num) (sp_n sp) - (start - line_num)) (sp_start sp + (start - line_num))
          (sp_validity sp AND NOT invalid)"
    by (auto simp: b2_def)
  have "spans_wf (lb_spans b2)" using wf by (simp add: b1_def b2_def)
  moreover have "invalidate_span start end invalid sp (line_num, b) = Some (line_num + sp_n sp, b3)"
    unfolding invalidate_span_def prod.case Let_def b1_def [symmetric] i_def [symmetric] j_def [symmetric]
      b2_def [symmetric] using b3(1) by simp
  moreover have "start - line_num \<le> end - line_num" using le by simp
  ultimately show thesis
    using that b3(2,3) l1 l2 by (simp add: clear_range_mk_lines)
qed

lemma partial_invalidate_spec:
  assumes le: "start \<le> end" and wf: "spans_wf (lc_spans lc)"
  shows "\<exists>lc'. partial_invalidate lc start end invalid = Some lc' \<and> spans_wf (lc_spans lc')
    \<and> lc_lines lc' = clear_range start end invalid (lc_lines lc)
    \<and> (lc_dirty lc' \<longleftrightarrow> lc_dirty lc \<or> \<not> lc_clean (lc_spans lc) 0 start end invalid)"
proof (cases "lc_clean (lc_spans lc) 0 start end invalid")
  case True
  then show ?thesis using lc_clean_spec [OF True] wf by (simp add: partial_invalidate_def)
next
  case False
  have "\<exists>ln b'. foldM (invalidate_span start end invalid) spans (line_num, b) = Some (ln, b') \<and> spans_wf (lb_spans b')
      \<and> spans_lines (lb_spans b') = spans_lines (lb_spans b)
          @ clear_range (start - line_num) (end - line_num) invalid (spans_lines spans)"
    if "spans_wf (lb_spans b)" for spans line_num b
    using that
  proof (induction spans arbitrary: line_num b)
    case (Cons sp spans)
    obtain b1 where b1: "invalidate_span start end invalid sp (line_num, b) = Some (line_num + sp_n sp, b1)"
      "spans_wf (lb_spans b1)" "spans_lines (lb_spans b1) = spans_lines (lb_spans b)
        @ clear_range (start - line_num) (end - line_num) invalid (span_lines sp)"
      using le Cons.prems by (rule invalidate_span_spec)
    from Cons.IH [OF b1(2), of "line_num + sp_n sp"] b1 show ?case by (auto simp: clear_range_append)
  qed simp
  from this [of lb_new "lc_spans lc" 0] False show ?thesis
    by (auto simp: partial_invalidate_def lb_new_def lb_build_def lb_set_dirty_def spans_wf_def)
qed



section \<open>The lines of a plan\<close>

definition plan_lines :: "render_plan \<Rightarrow> render_tactic list" where
  "plan_lines plan = concat (map (\<lambda>(n, tactic). replicate n tactic) plan)"

lemma plan_lines_simps [simp]:
  "plan_lines [] = []" "plan_lines ((n, tac) # plan) = replicate n tac @ plan_lines plan"
  "plan_lines (plan @ plan') = plan_lines plan @ plan_lines plan'"
  by (simp_all add: plan_lines_def)

lemma plan_lines_Cons: "plan_lines (sp # plan) = replicate (fst sp) (snd sp) @ plan_lines plan"
  by (cases sp) simp

lemma upt_split: "i \<le> j \<Longrightarrow> j \<le> k \<Longrightarrow> [i..<k] = [i..<j] @ [j..<k]"
  by (metis le_add_diff_inverse upt_add_eq_append)

text \<open>
  A plan covers the whole document: the lines in view and two more on each side are rendered, the
  thousand around them are kept and the others are dropped.
\<close>

definition tactic_at :: "nat \<Rightarrow> nat \<Rightarrow> nat \<Rightarrow> render_tactic" where
  "tactic_at first_line height i =
     (if first_line \<le> i + SCROLL_SLOP \<and> i < first_line + height + SCROLL_SLOP then Render
      else if first_line \<le> i + PRESERVE_EXTENT \<and> i < first_line + height + PRESERVE_EXTENT then Preserve
      else Discard)"

lemma plan_create_spec:
  assumes "total_height + height + PRESERVE_EXTENT \<le> usize_max"
  shows "\<exists>plan. plan_create total_height first_line height = Some plan
    \<and> plan_lines plan = map (tactic_at (min first_line total_height) height) [0..<total_height]"
proof -
  define f where "f = min first_line total_height"
  define a where "a = f - PRESERVE_EXTENT"
  define b where "b = f - SCROLL_SLOP"
  define c where "c = min (f + height + SCROLL_SLOP) total_height"
  define d where "d = min (f + height + PRESERVE_EXTENT) total_height"
  note ext = SCROLL_SLOP_def PRESERVE_EXTENT_def
  have le: "a \<le> b" "b \<le> c" "c \<le> d" "d \<le> total_height"
    by (auto simp: a_def b_def c_def d_def f_def ext)
  have ov: "usize_add f height = Some (f + height)" "usize_add (f + height) SCROLL_SLOP = Some (f + height + SCROLL_SLOP)"
    "usize_add (f + height) PRESERVE_EXTENT = Some (f + height + PRESERVE_EXTENT)"
    using assms by (auto simp: usize_add_def f_def ext)
  define p1 p2 where "p1 = (if f > PRESERVE_EXTENT then [(a, Discard)] else [])"
    and "p2 = (if f > SCROLL_SLOP then [(b - a, Preserve)] else [])"
  have s1: "(if f > PRESERVE_EXTENT then do { last \<leftarrow> usize_sub f PRESERVE_EXTENT; Some ([(last, Discard)], last) }
      else Some ([], 0)) = Some (p1, a)"
    by (simp add: p1_def a_def)
  have s2: "(if f > SCROLL_SLOP then do { k \<leftarrow> usize_sub f SCROLL_SLOP; n \<leftarrow> usize_sub k a;
      Some (p1 @ [(n, Preserve)], a + n) } else Some (p1, a)) = Some (p1 @ p2, b)"
    using le(1) by (auto simp: p2_def b_def a_def ext)
  define plan where "plan = p1 @ p2 @ [(c - b, Render)]
      @ (if d > c then [(d - c, Preserve)] else []) @ (if total_height > d then [(total_height - d, Discard)] else [])"
  have "plan_create total_height first_line height = Some plan"
    using le unfolding plan_create_def plan_def
    by (simp add: f_def [symmetric] s1 s2 ov c_def [symmetric] d_def [symmetric] Let_def del: min_less_iff_conj)
  moreover have "plan_lines plan = replicate a Discard @ replicate (b - a) Preserve @ replicate (c - b) Render
      @ replicate (d - c) Preserve @ replicate (total_height - d) Discard"
    using le by (auto simp: plan_def p1_def p2_def a_def b_def not_less)
  moreover have "\<dots> = map (tactic_at f height) [0..<total_height]"
  proof -
    have part: "map (tactic_at f height) [x..<y] = replicate (y - x) t" if "\<And>i. x \<le> i \<Longrightarrow> i < y \<Longrightarrow> tactic_at f height i = t" for x y t
    proof -
      have "map (tactic_at f height) [x..<y] = map (\<lambda>_. t) [x..<y]" using that by simp
      then show ?thesis by (simp add: map_replicate_const)
    qed
    have up: "[0..<total_height] = [0..<a] @ [a..<b] @ [b..<c] @ [c..<d] @ [d..<total_height]"
      using le upt_split by (metis le0 le_trans)
    have "map (tactic_at f height) [0..<a] = replicate (a - 0) Discard"
      by (rule part) (auto simp: tactic_at_def a_def ext)
    moreover have "map (tactic_at f height) [a..<b] = replicate (b - a) Preserve"
      by (rule part) (auto simp: tactic_at_def a_def b_def ext)
    moreover have "map (tactic_at f height) [b..<c] = replicate (c - b) Render"
      by (rule part) (auto simp: tactic_at_def b_def c_def ext)
    moreover have "map (tactic_at f height) [c..<d] = replicate (d - c) Preserve"
      by (rule part) (auto simp: tactic_at_def c_def d_def ext)
    moreover have "map (tactic_at f height) [d..<total_height] = replicate (total_height - d) Discard"
      by (rule part) (auto simp: tactic_at_def d_def ext)
    ultimately show ?thesis unfolding up by simp
  qed
  ultimately show ?thesis by (simp add: f_def)
qed

lemma request_before_spec:
  "line_num \<le> start \<Longrightarrow>
    \<exists>acc' pre rest. request_before plan start line_num acc = (acc', line_num + length (plan_lines pre), rest)
      \<and> plan = pre @ rest \<and> line_num + length (plan_lines pre) \<le> start
      \<and> plan_lines acc' = plan_lines acc @ take (start - line_num) (plan_lines plan)"
proof (induction plan start line_num acc rule: request_before.induct)
  case (2 sp plan start line_num acc)
  show ?case
  proof (cases "line_num + fst sp \<le> start")
    case True
    with 2 obtain acc' pre rest where IH:
      "request_before plan start (line_num + fst sp) (acc @ [sp]) = (acc', line_num + fst sp + length (plan_lines pre), rest)"
      "plan = pre @ rest" "line_num + fst sp + length (plan_lines pre) \<le> start"
      "plan_lines acc' = plan_lines (acc @ [sp]) @ take (start - (line_num + fst sp)) (plan_lines plan)"
      by blast
    with True show ?thesis
      by (intro exI [of _ acc'] exI [of _ "sp # pre"] exI [of _ rest]) (auto simp: plan_lines_Cons min_absorb2 add.assoc)
  next
    case False
    then show ?thesis
      by (intro exI [of _ "if line_num < start then acc @ [(start - line_num, snd sp)] else acc"]
          exI [of _ "[]"] exI [of _ "sp # plan"]) (use "2.prems" in \<open>simp add: plan_lines_Cons min_absorb1\<close>)
  qed
qed simp

lemma request_after_spec:
  "\<exists>ln plan'. foldM (request_after end) plan (line_num, acc) = Some (ln, plan')
      \<and> plan_lines plan' = plan_lines acc @ drop (end - line_num) (plan_lines plan)"
proof (induction plan arbitrary: line_num acc)
  case (Cons sp plan)
  show ?case
  proof (cases "line_num + fst sp > end")
    case True
    then have "end - line_num \<le> fst sp" by simp
    with True Cons.IH [of "line_num + fst sp" "acc @ [(fst sp - (end - line_num), snd sp)]"] show ?thesis
      by (auto simp: request_after_def Let_def plan_lines_Cons)
  next
    case False
    with Cons.IH [of "line_num + fst sp" acc] show ?thesis by (auto simp: request_after_def plan_lines_Cons)
  qed
qed simp

lemma request_lines_spec:
  assumes "start \<le> end"
  shows "\<exists>plan'. request_lines plan start end = Some plan'
    \<and> plan_lines plan' = take start (plan_lines plan) @ replicate (end - start) Render @ drop end (plan_lines plan)"
proof -
  obtain acc pre rest where b: "request_before plan start 0 [] = (acc, length (plan_lines pre), rest)"
    "plan = pre @ rest" "length (plan_lines pre) \<le> start" "plan_lines acc = take start (plan_lines plan)"
    using request_before_spec [of 0 start plan "[]"] by auto
  obtain ln plan' where "foldM (request_after end) rest (length (plan_lines pre), acc @ [(end - start, Render)]) = Some (ln, plan')"
    "plan_lines plan' = plan_lines (acc @ [(end - start, Render)]) @ drop (end - length (plan_lines pre)) (plan_lines rest)"
    using request_after_spec by blast
  with b assms show ?thesis by (auto simp: request_lines_def)
qed



section \<open>A shadow under a plan\<close>

definition seg_lines :: "plan_segment \<Rightarrow> (nat \<times> cached \<times> render_tactic) list" where
  "seg_lines seg = map (\<lambda>k. (our_line_num seg + k, line_state (seg_validity seg) (their_line_num seg + k), seg_tactic seg))
     [0..<seg_n seg]"

definition planned :: "line_cache_shadow \<Rightarrow> render_plan \<Rightarrow> (nat \<times> cached \<times> render_tactic) list" where
  "planned lc plan = enumerate 0 (zip (lc_lines lc) (plan_lines plan))"

definition iter_inv :: "plan_iterator \<Rightarrow> bool" where
  "iter_inv it \<longleftrightarrow> shadow_ix it \<le> length (lc_spans (pi_shadow it)) \<and> plan_ix it \<le> length (pi_plan it)
     \<and> shadow_line_num it = length (spans_lines (take (shadow_ix it) (lc_spans (pi_shadow it))))
     \<and> plan_line_num it = length (plan_lines (take (plan_ix it) (pi_plan it)))
     \<and> (shadow_ix it < length (lc_spans (pi_shadow it)) \<longrightarrow> plan_line_num it \<le>
          shadow_line_num it + sp_n (lc_spans (pi_shadow it) ! shadow_ix it))
     \<and> (plan_ix it < length (pi_plan it) \<longrightarrow> shadow_line_num it \<le>
          plan_line_num it + fst (pi_plan it ! plan_ix it))"

lemma nth_spans_lines:
  assumes "i < length spans"
  shows "length (spans_lines (take i spans)) + sp_n (spans ! i) \<le> length (spans_lines spans)"
    "k < sp_n (spans ! i) \<Longrightarrow> spans_lines spans ! (length (spans_lines (take i spans)) + k)
      = line_state (sp_validity (spans ! i)) (sp_start (spans ! i) + k)"
proof -
  have "spans_lines spans = spans_lines (take i spans) @ span_lines (spans ! i) @ spans_lines (drop (Suc i) spans)"
    using id_take_nth_drop [OF assms] by (metis spans_lines_simps(2,3))
  then show "length (spans_lines (take i spans)) + sp_n (spans ! i) \<le> length (spans_lines spans)"
    "k < sp_n (spans ! i) \<Longrightarrow> spans_lines spans ! (length (spans_lines (take i spans)) + k)
      = line_state (sp_validity (spans ! i)) (sp_start (spans ! i) + k)"
    by (simp_all add: nth_append)
qed

lemma nth_plan_lines:
  assumes "i < length plan"
  shows "length (plan_lines (take i plan)) + fst (plan ! i) \<le> length (plan_lines plan)"
    "k < fst (plan ! i) \<Longrightarrow> plan_lines plan ! (length (plan_lines (take i plan)) + k) = snd (plan ! i)"
proof -
  have "plan_lines plan = plan_lines (take i plan) @ replicate (fst (plan ! i)) (snd (plan ! i)) @ plan_lines (drop (Suc i) plan)"
    using id_take_nth_drop [OF assms] by (metis plan_lines_Cons plan_lines_simps(3))
  then show "length (plan_lines (take i plan)) + fst (plan ! i) \<le> length (plan_lines plan)"
    "k < fst (plan ! i) \<Longrightarrow> plan_lines plan ! (length (plan_lines (take i plan)) + k) = snd (plan ! i)"
    by (simp_all add: nth_append)
qed

abbreviation iter_pos :: "plan_iterator \<Rightarrow> nat" where
  "iter_pos it \<equiv> max (shadow_line_num it) (plan_line_num it)"

lemma plan_next_spec:
  assumes inv: "iter_inv it"
    and ix: "shadow_ix it < length (lc_spans (pi_shadow it))" "plan_ix it < length (pi_plan it)"
  obtains seg it' where "plan_next it = Some (Some seg, it')" "iter_inv it'" "pi_shadow it' = pi_shadow it"
    "pi_plan it' = pi_plan it" "iter_pos it' = iter_pos it + seg_n seg"
    "iter_pos it + seg_n seg \<le> length (planned (pi_shadow it) (pi_plan it))"
    "seg_lines seg = slice (planned (pi_shadow it) (pi_plan it)) (iter_pos it) (iter_pos it + seg_n seg)"
proof -
  define sp where "sp = lc_spans (pi_shadow it) ! shadow_ix it"
  define pl where "pl = pi_plan it ! plan_ix it"
  define start where "start = iter_pos it"
  define e where "e = min (shadow_line_num it + sp_n sp) (plan_line_num it + fst pl)"
  have le: "start \<le> e" using inv ix by (auto simp: iter_inv_def start_def e_def sp_def pl_def)
  define seg where "seg = \<lparr>our_line_num = start, their_line_num = sp_start sp + (start - shadow_line_num it),
    seg_n = e - start, seg_validity = sp_validity sp, seg_tactic = snd pl\<rparr>"
  define it1 where "it1 = (if e = shadow_line_num it + sp_n sp
              then it\<lparr>shadow_line_num := e, shadow_ix := shadow_ix it + 1\<rparr> else it)"
  define it' where "it' = (if e = plan_line_num it + fst pl
          then it1\<lparr>plan_line_num := e, plan_ix := plan_ix it + 1\<rparr> else it1)"
  have sub: "shadow_line_num it \<le> start" by (simp add: start_def)
  have nx: "plan_next it = Some (Some seg, it')"
    using ix le unfolding plan_next_def
    by (simp add: list_get_def sp_def [symmetric] pl_def [symmetric] start_def [symmetric] e_def [symmetric]
        it1_def it'_def seg_def Let_def sub)
  have it': "shadow_ix it' = (if e = shadow_line_num it + sp_n sp then shadow_ix it + 1 else shadow_ix it)"
    "shadow_line_num it' = (if e = shadow_line_num it + sp_n sp then e else shadow_line_num it)"
    "plan_ix it' = (if e = plan_line_num it + fst pl then plan_ix it + 1 else plan_ix it)"
    "plan_line_num it' = (if e = plan_line_num it + fst pl then e else plan_line_num it)"
    "pi_shadow it' = pi_shadow it" "pi_plan it' = pi_plan it"
    by (simp_all add: it'_def it1_def)
  have nums: "shadow_line_num it = length (spans_lines (take (shadow_ix it) (lc_spans (pi_shadow it))))"
    "plan_line_num it = length (plan_lines (take (plan_ix it) (pi_plan it)))"
    using inv by (simp_all add: iter_inv_def)
  have pos: "iter_pos it' = e"
    using le by (auto simp: it' start_def e_def)
  have inv': "iter_inv it'"
    using inv ix le unfolding iter_inv_def it'
    by (auto simp: take_Suc_conv_app_nth plan_lines_Cons sp_def [symmetric] pl_def [symmetric] start_def e_def)
  have len: "e \<le> length (planned (pi_shadow it) (pi_plan it))"
    using nth_spans_lines(1) [OF ix(1)] nth_plan_lines(1) [OF ix(2)]
    by (auto simp: e_def planned_def nums sp_def pl_def min_le_iff_disj)
  have elt: "start + k < length (planned (pi_shadow it) (pi_plan it))
      \<and> planned (pi_shadow it) (pi_plan it) ! (start + k)
        = (start + k, line_state (sp_validity sp) (sp_start sp + (start - shadow_line_num it) + k), snd pl)"
    if k: "k < e - start" for k
  proof -
    have "start + k - shadow_line_num it < sp_n sp" "start + k - plan_line_num it < fst pl"
      "shadow_line_num it + (start + k - shadow_line_num it) = start + k"
      "plan_line_num it + (start + k - plan_line_num it) = start + k"
      using k by (auto simp: start_def e_def)
    moreover have "start + k < length (lc_lines (pi_shadow it))" "start + k < length (plan_lines (pi_plan it))"
      using len k by (auto simp: planned_def)
    ultimately show ?thesis
      using nth_spans_lines(2) [OF ix(1), of "start + k - shadow_line_num it"]
        nth_plan_lines(2) [OF ix(2), of "start + k - plan_line_num it"] sub
      by (simp add: sp_def [symmetric] pl_def [symmetric] nums [symmetric] planned_def nth_enumerate_eq add.assoc)
  qed
  have "seg_lines seg = slice (planned (pi_shadow it) (pi_plan it)) start e"
    by (rule nth_equalityI) (use elt len le in \<open>auto simp: seg_lines_def seg_def slice_def\<close>)
  then show thesis
    using that [OF nx inv'] it'(5,6) pos le len by (simp add: seg_def start_def [symmetric])
qed


lemma plan_collect_spec:
  "iter_inv it \<Longrightarrow> \<exists>segs. plan_collect it = Some segs
    \<and> concat (map seg_lines segs) = drop (iter_pos it) (planned (pi_shadow it) (pi_plan it))"
proof (induction it rule: plan_collect.induct)
  case (1 it)
  let ?lc = "pi_shadow it" and ?plan = "pi_plan it"
  show ?case
  proof (cases "shadow_ix it < length (lc_spans ?lc) \<and> plan_ix it < length ?plan")
    case True
    then obtain seg it' where s: "plan_next it = Some (Some seg, it')" "iter_inv it'" "pi_shadow it' = ?lc"
      "pi_plan it' = ?plan" "iter_pos it' = iter_pos it + seg_n seg"
      "iter_pos it + seg_n seg \<le> length (planned ?lc ?plan)"
      "seg_lines seg = slice (planned ?lc ?plan) (iter_pos it) (iter_pos it + seg_n seg)"
      using plan_next_spec [OF "1.prems"] by blast
    obtain segs where "plan_collect it' = Some segs" "concat (map seg_lines segs) = drop (iter_pos it') (planned ?lc ?plan)"
      using "1.IH" [OF s(1) refl refl s(2)] s(3,4) by auto
    moreover have "slice (planned ?lc ?plan) (iter_pos it) (iter_pos it + seg_n seg) @ drop (iter_pos it + seg_n seg) (planned ?lc ?plan)
        = drop (iter_pos it) (planned ?lc ?plan)"
      using append_take_drop_id [of "seg_n seg" "drop (iter_pos it) (planned ?lc ?plan)"]
      by (simp add: slice_def add.commute)
    ultimately show ?thesis using s(1,5,7) by (simp add: plan_collect.simps [of it])
  next
    case False
    then have stop: "shadow_ix it = length (lc_spans ?lc) \<or> plan_ix it = length ?plan"
      using "1.prems" by (auto simp: iter_inv_def)
    then have "length (planned ?lc ?plan) \<le> iter_pos it"
      using "1.prems" by (auto simp: iter_inv_def planned_def)
    with stop show ?thesis by (simp add: plan_collect.simps [of it] plan_next_def)
  qed
qed

lemma iter_inv_new: "iter_inv (iter_with_plan lc plan)"
  by (simp add: iter_inv_def iter_with_plan_def)

lemma plan_segments:
  "\<exists>segs. plan_collect (iter_with_plan lc plan) = Some segs \<and> concat (map seg_lines segs) = planned lc plan"
  using plan_collect_spec [OF iter_inv_new [of lc plan]] by (simp add: iter_with_plan_def)


lemma needs_render_False:
  assumes "needs_render lc plan = Some False" and i: "i < length (lc_lines lc)" "i < length (plan_lines plan)"
    and r: "plan_lines plan ! i = Render"
  shows "\<exists>num. lc_lines lc ! i = Some (num, ALL_VALID)"
proof -
  obtain segs where segs: "plan_collect (iter_with_plan lc plan) = Some segs" "concat (map seg_lines segs) = planned lc plan"
    using plan_segments by blast
  have all: "\<forall>seg \<in> set segs. seg_tactic seg = Render \<longrightarrow> seg_validity seg = ALL_VALID"
    using assms(1) segs(1) by (auto simp: needs_render_def split: if_splits)
  have "planned lc plan ! i = (i, lc_lines lc ! i, Render)" "i < length (planned lc plan)"
    using i r by (simp_all add: planned_def nth_enumerate_eq)
  then have "(i, lc_lines lc ! i, Render) \<in> set (concat (map seg_lines segs))"
    using segs(2) by (metis nth_mem)
  then obtain seg k where "seg \<in> set segs" "seg_tactic seg = Render"
    "lc_lines lc ! i = line_state (seg_validity seg) (their_line_num seg + k)"
    by (auto simp: seg_lines_def)
  with all show ?thesis by (auto simp: line_state_def ALL_VALID_def INVALID_def)
qed

lemma needs_render_total: "\<exists>b. needs_render lc plan = Some b"
  using plan_segments [of lc plan] by (auto simp: needs_render_def)

end
