(* ===== verification/Rope_Metric.thy ===== *)
theory Rope_Metric
  imports Rope_Text_Laws
begin

text \<open>
  Metrics: the trait \<^verbatim>\<open>Metric\<close> of \<^verbatim>\<open>xi-rope/src/tree/mod.rs\<close> as a record of operations, its four
  instances for text (\<^verbatim>\<open>rope/metrics.rs\<close>), the conversion between metrics on a tree (\<^verbatim>\<open>tree/node.rs\<close>) and
  the line and offset functions of \<^verbatim>\<open>rope/core.rs\<close>.  The locale \<open>metric_laws\<close> is the contract of the
  trait: a metric counts something in a text, and its positions are the least boundaries with a count.
\<close>

section \<open>The trait\<close>

record ('l, 'i) metric =
  m_measure :: "'i \<Rightarrow> nat \<Rightarrow> nat"
  m_to_base_units :: "'l \<Rightarrow> nat \<Rightarrow> nat option"
  m_from_base_units :: "'l \<Rightarrow> nat \<Rightarrow> nat option"
  m_is_boundary :: "'l \<Rightarrow> nat \<Rightarrow> bool option"
  m_prev :: "'l \<Rightarrow> nat \<Rightarrow> nat option option"
  m_next :: "'l \<Rightarrow> nat \<Rightarrow> nat option option"
  m_can_fragment :: bool

definition node_measure :: "('l, 'i) metric \<Rightarrow> ('l, 'i) node \<Rightarrow> nat" where
  "node_measure M n = m_measure M (n_info n) (n_len n)"

text \<open>The loop over the children: the child to descend into, or none, and the remaining measures.\<close>

fun scan_children ::
  "('l, 'i) metric \<Rightarrow> ('l, 'i) metric \<Rightarrow> nat \<Rightarrow> ('l, 'i) node list \<Rightarrow> nat \<Rightarrow> nat
    \<Rightarrow> ('l, 'i) node option \<times> nat \<times> nat" where
  "scan_children M1 M2 fudge [] m1 m2 = (None, m1, m2)"
| "scan_children M1 M2 fudge (child # cs) m1 m2 =
     (let child_m1 = node_measure M1 child
      in if m1 < child_m1 + fudge then (Some child, m1, m2)
         else scan_children M1 M2 fudge cs (m1 - child_m1) (m2 + node_measure M2 child))"

text \<open>When no child is found the source scans the same node again, which may never end.\<close>

partial_function (option) convert_loop ::
  "('l, 'i) metric \<Rightarrow> ('l, 'i) metric \<Rightarrow> nat \<Rightarrow> ('l, 'i) node \<Rightarrow> nat \<Rightarrow> nat
    \<Rightarrow> (('l, 'i) node \<times> nat \<times> nat) option" where
  "convert_loop M1 M2 fudge n m1 m2 =
     (if n_height n > 0 then do {
        children \<leftarrow> get_children n;
        let (child, m1, m2) = scan_children M1 M2 fudge children m1 m2;
        convert_loop M1 M2 fudge (case child of Some c \<Rightarrow> c | None \<Rightarrow> n) m1 m2 }
      else Some (n, m1, m2))"

declare convert_loop.simps [code]

definition convert_metrics ::
  "('l, 'i) metric \<Rightarrow> ('l, 'i) metric \<Rightarrow> ('l, 'i) node \<Rightarrow> nat \<Rightarrow> nat option" where
  "convert_metrics M1 M2 n m1 =
     (if m1 = 0 then Some 0
      else do {
        let m1_fudge = (if m_can_fragment M1 then 1 else 0);
        (n, m1, m2) \<leftarrow> convert_loop M1 M2 m1_fudge n m1 0;
        l \<leftarrow> get_leaf n;
        base \<leftarrow> m_to_base_units M1 l m1;
        k \<leftarrow> m_from_base_units M2 l base;
        Some (m2 + k) })"

text \<open>The default metric of the tree is the first argument.\<close>

definition node_count :: "('l, 'i) metric \<Rightarrow> ('l, 'i) metric \<Rightarrow> ('l, 'i) node \<Rightarrow> nat \<Rightarrow> nat option" where
  "node_count D M n offset = convert_metrics D M n offset"

definition count_base_units :: "('l, 'i) metric \<Rightarrow> ('l, 'i) metric \<Rightarrow> ('l, 'i) node \<Rightarrow> nat \<Rightarrow> nat option" where
  "count_base_units D M n offset = convert_metrics M D n offset"


section \<open>The metrics of text\<close>

text \<open>The loop of \<^verbatim>\<open>prev\<close>: step back until a character boundary; \<open>len\<close> counts up, \<open>0\<close> is one.\<close>

definition char_prev :: "str \<Rightarrow> nat \<Rightarrow> nat option option" where
  "char_prev s offset = (if offset = 0 then Some None else Some (Some (clamp_loop s (offset - 1))))"

definition char_next :: "str \<Rightarrow> nat \<Rightarrow> nat option option" where
  "char_next s offset =
     (if offset = length s then Some None
      else do { b \<leftarrow> list_get s offset; Some (Some (offset + len_utf8_from_first_byte b)) })"

definition base_metric :: "(str, rope_info) metric" where
  "base_metric = \<lparr>
     m_measure = (\<lambda>info len. len),
     m_to_base_units = (\<lambda>s n. do { rassert (is_char_boundary s n); Some n }),
     m_from_base_units = (\<lambda>s n. do { rassert (is_char_boundary s n); Some n }),
     m_is_boundary = (\<lambda>s offset. Some (is_char_boundary s offset)),
     m_prev = char_prev, m_next = char_next, m_can_fragment = False\<rparr>"

primrec lines_to_base :: "byte_search \<Rightarrow> str \<Rightarrow> nat \<Rightarrow> nat \<Rightarrow> nat option" where
  "lines_to_base lib s offset 0 = Some offset"
| "lines_to_base lib s offset (Suc n) =
     (case bs_memchr lib NL (drop offset s) of
        Some pos \<Rightarrow> lines_to_base lib s (offset + (pos + 1)) n
      | None \<Rightarrow> None)"

definition lines_metric :: "byte_search \<Rightarrow> (str, rope_info) metric" where
  "lines_metric lib = \<lparr>
     m_measure = (\<lambda>info len. ri_lines info),
     m_to_base_units = (\<lambda>s n. lines_to_base lib s 0 n),
     m_from_base_units = (\<lambda>s n. do { pre \<leftarrow> str_slice s 0 n; Some (count_newlines lib pre) }),
     m_is_boundary = (\<lambda>s offset. if offset = 0 then Some False
        else do { b \<leftarrow> list_get s (offset - 1); Some (b = NL) }),
     m_prev = (\<lambda>s offset. do {
        rassert (offset > 0);
        pre \<leftarrow> bytes_slice s 0 (offset - 1);
        Some (map_option (\<lambda>pos. pos + 1) (bs_memrchr lib NL pre)) }),
     m_next = (\<lambda>s offset. do {
        rest \<leftarrow> bytes_slice s offset (length s);
        Some (map_option (\<lambda>pos. offset + pos + 1) (bs_memchr lib NL rest)) }),
     m_can_fragment = True\<rparr>"

text \<open>\<^verbatim>\<open>char_indices().nth(n)\<close>: the offset of the character with index \<open>n\<close>, if there is one.\<close>

definition char_index :: "str \<Rightarrow> nat \<Rightarrow> nat option" where
  "char_index s n = (let cs = str_chars s in if n < length cs then Some (length (concat (take n cs))) else None)"

definition chars_metric :: "(str, rope_info) metric" where
  "chars_metric = \<lparr>
     m_measure = (\<lambda>info len. ri_chars info),
     m_to_base_units = (\<lambda>s n. Some (case char_index s n of Some byte_idx \<Rightarrow> byte_idx | None \<Rightarrow> length s)),
     m_from_base_units = (\<lambda>s n. do {
        pre \<leftarrow> str_slice s 0 (clamp_loop s (min n (length s)));
        Some (length (str_chars pre)) }),
     m_is_boundary = (\<lambda>s offset. Some (is_char_boundary s offset)),
     m_prev = char_prev, m_next = char_next, m_can_fragment = False\<rparr>"

fun utf16_to_base :: "str list \<Rightarrow> nat \<Rightarrow> nat \<Rightarrow> nat \<Rightarrow> nat" where
  "utf16_to_base [] n cur_len_utf16 cur_len_utf8 = cur_len_utf8"
| "utf16_to_base (u # us) n cur_len_utf16 cur_len_utf8 =
     (if cur_len_utf16 \<ge> n then cur_len_utf8
      else utf16_to_base us n (cur_len_utf16 + char_len_utf16 u) (cur_len_utf8 + length u))"

definition utf16_metric :: "(str, rope_info) metric" where
  "utf16_metric = \<lparr>
     m_measure = (\<lambda>info len. ri_utf16_size info),
     m_to_base_units = (\<lambda>s n. Some (utf16_to_base (str_chars s) n 0 0)),
     m_from_base_units = (\<lambda>s n. do { pre \<leftarrow> str_slice s 0 n; Some (count_utf16_code_units pre) }),
     m_is_boundary = (\<lambda>s offset. Some (is_char_boundary s offset)),
     m_prev = char_prev, m_next = char_next, m_can_fragment = False\<rparr>"


section \<open>Lines and offsets of a rope\<close>

datatype rope_error =
    OffsetOutOfBounds (oob_offset: nat) (oob_len: nat)
  | LineOutOfBounds (lob_line: nat) (lob_max_line: nat)
  | ReversedInterval nat nat
  | IntervalOutOfBounds nat nat nat
  | CharOffsetOutOfBounds nat nat
  | CharReversedInterval nat nat
  | CharIntervalOutOfBounds nat nat nat
  | IntervalNotCharBoundary nat nat

definition validate_offset :: "rope \<Rightarrow> nat \<Rightarrow> rope_error + unit" where
  "validate_offset t offset =
     (if offset > n_len t then Inl (OffsetOutOfBounds offset (n_len t)) else Inr ())"

definition max_line_index :: "byte_search \<Rightarrow> rope \<Rightarrow> nat" where
  "max_line_index lib t = node_measure (lines_metric lib) t + 1"

definition validate_line :: "byte_search \<Rightarrow> rope \<Rightarrow> nat \<Rightarrow> rope_error + unit" where
  "validate_line lib t line =
     (let max_line = max_line_index lib t
      in if line > max_line then Inl (LineOutOfBounds line max_line) else Inr ())"

text \<open>Converting the bounds may panic before the interval is validated.\<close>

definition validate_interval :: "rope \<Rightarrow> interval_bounds \<Rightarrow> (rope_error + interval) option" where
  "validate_interval t bounds = do {
     iv \<leftarrow> into_interval bounds (n_len t);
     Some (if iv_start iv > iv_end iv then Inl (ReversedInterval (iv_start iv) (iv_end iv))
         else if iv_end iv > n_len t then Inl (IntervalOutOfBounds (iv_start iv) (iv_end iv) (n_len t))
         else Inr iv) }"

definition rope_try_edit ::
  "byte_search \<Rightarrow> rope \<Rightarrow> interval_bounds \<Rightarrow> rope \<Rightarrow> (rope_error + rope) option" where
  "rope_try_edit lib t bounds new = do {
     r \<leftarrow> validate_interval t bounds;
     case r of Inl err \<Rightarrow> Some (Inl err)
     | Inr iv \<Rightarrow> do { t' \<leftarrow> node_edit (rope_ni lib) t (BInterval iv) new; Some (Inr t') } }"

definition rope_try_slice :: "byte_search \<Rightarrow> rope \<Rightarrow> interval_bounds \<Rightarrow> (rope_error + rope) option" where
  "rope_try_slice lib t bounds = do {
     r \<leftarrow> validate_interval t bounds;
     case r of Inl err \<Rightarrow> Some (Inl err)
     | Inr iv \<Rightarrow> do { t' \<leftarrow> node_subseq (rope_ni lib) t (BInterval iv); Some (Inr t') } }"

definition rope_slice :: "byte_search \<Rightarrow> rope \<Rightarrow> interval_bounds \<Rightarrow> rope option" where
  "rope_slice lib t bounds = (case rope_try_slice lib t bounds of Some (Inr t') \<Rightarrow> Some t' | _ \<Rightarrow> None)"

definition try_line_of_offset :: "byte_search \<Rightarrow> rope \<Rightarrow> nat \<Rightarrow> (rope_error + nat) option" where
  "try_line_of_offset lib t offset =
     (case validate_offset t offset of
        Inl err \<Rightarrow> Some (Inl err)
      | Inr _ \<Rightarrow> do { k \<leftarrow> node_count base_metric (lines_metric lib) t offset; Some (Inr k) })"

definition line_of_offset :: "byte_search \<Rightarrow> rope \<Rightarrow> nat \<Rightarrow> nat option" where
  "line_of_offset lib t offset = (case try_line_of_offset lib t offset of Some (Inr k) \<Rightarrow> Some k | _ \<Rightarrow> None)"

definition try_offset_of_line :: "byte_search \<Rightarrow> rope \<Rightarrow> nat \<Rightarrow> (rope_error + nat) option" where
  "try_offset_of_line lib t line =
     (case validate_line lib t line of
        Inl err \<Rightarrow> Some (Inl err)
      | Inr _ \<Rightarrow>
          if line = max_line_index lib t then Some (Inr (n_len t))
          else if line < max_line_index lib t
          then do { k \<leftarrow> count_base_units base_metric (lines_metric lib) t line; Some (Inr k) }
          else None)"

definition offset_of_line :: "byte_search \<Rightarrow> rope \<Rightarrow> nat \<Rightarrow> nat option" where
  "offset_of_line lib t line = (case try_offset_of_line lib t line of Some (Inr k) \<Rightarrow> Some k | _ \<Rightarrow> None)"


section \<open>The contract of a metric\<close>

lemma convert_loop_leaf: "n_height n = 0 \<Longrightarrow> convert_loop M1 M2 fudge n m1 m2 = Some (n, m1, m2)"
  by (simp add: convert_loop.simps)

text \<open>
  \<open>mpos_at start mc xs k i\<close>: the boundary \<open>i\<close> of the text \<open>xs\<close> is the first one before which the metric
  \<open>mc\<close> counts \<open>k\<close>.
\<close>

definition mpos_at :: "('a \<Rightarrow> bool) \<Rightarrow> ('a list \<Rightarrow> nat) \<Rightarrow> 'a list \<Rightarrow> nat \<Rightarrow> nat \<Rightarrow> bool" where
  "mpos_at start mc xs k i \<longleftrightarrow> cut_ok start xs i \<and> mc (take i xs) = k
     \<and> (\<forall>j < i. cut_ok start xs j \<longrightarrow> mc (take j xs) < k)"

locale metric_laws = leaf_laws +
  fixes M :: "('a, 'b) metric"
    and mc :: "'c list \<Rightarrow> nat"
  assumes measure: "m_measure M (cinfo xs) (length xs) = mc xs"
    and mc_append: "mc (xs @ ys) = mc xs + mc ys"
    and to_base: "linv l \<Longrightarrow> mpos_at start mc (lc l) k i \<Longrightarrow> m_to_base_units M l k = Some i"
    and from_base: "linv l \<Longrightarrow> cut_ok start (lc l) i \<Longrightarrow> m_from_base_units M l i = Some (mc (take i (lc l)))"
    and atomic: "\<not> m_can_fragment M \<Longrightarrow> starts_ok start xs \<Longrightarrow> xs \<noteq> [] \<Longrightarrow> 0 < mc xs"
begin

lemma mc_Nil [simp]: "mc [] = 0"
  using mc_append [of "[]" "[]"] by simp

lemma mc_concat: "mc (concat xss) = sum_list (map mc xss)"
  by (induction xss) (simp_all add: mc_append)

lemma mc_mono: "i \<le> j \<Longrightarrow> mc (take i xs) \<le> mc (take j xs)"
  by (metis mc_append le_add1 le_add_diff_inverse take_add)

lemma node_measure: "wf n \<Longrightarrow> node_measure M n = mc (content n)"
  by (simp add: node_measure_def wf_len wf_info measure)

lemma mpos_at_0: "starts_ok start xs \<Longrightarrow> mpos_at start mc xs 0 0"
  by (simp add: mpos_at_def cut_ok_0)

definition fudge :: nat where
  "fudge = (if m_can_fragment M then 1 else 0)"

lemma mc_take_less:
  assumes "\<not> m_can_fragment M" "cut_ok start xs i" "i < length xs"
  shows "mc (take i xs) < mc xs"
proof -
  have "starts_ok start (drop i xs)" using assms(2,3) by (simp add: cut_ok_def starts_ok_def hd_drop_conv_nth)
  then have "0 < mc (drop i xs)" using assms(1,3) by (intro atomic) auto
  then show ?thesis using mc_append [of "take i xs" "drop i xs"] by simp
qed

text \<open>The position with a count lies in the part of the text in which the count is reached.\<close>

lemma mpos_at_atomic:
  assumes "\<not> m_can_fragment M" "cut_ok start xs i"
  shows "mpos_at start mc xs (mc (take i xs)) i"
  unfolding mpos_at_def
proof (intro conjI allI impI)
  fix j assume j: "j < i" "cut_ok start xs j"
  have "cut_ok start (take i xs) j"
    using j cut_ok_append_left [of start "take i xs" "drop i xs" j] cut_ok_le [OF assms(2)] by simp
  with mc_take_less [OF assms(1) this] j(1) cut_ok_le [OF assms(2)] show "mc (take j xs) < mc (take i xs)"
    by (simp add: min_absorb1)
qed (use assms(2) in auto)

lemma mpos_at_middle:
  assumes pos: "mpos_at start mc (xs @ ys @ zs) k i" and starts: "starts_ok start ys" "starts_ok start zs"
    and k: "mc xs + fudge \<le> k" "k < mc xs + mc ys + fudge"
  shows "length xs \<le> i" "mpos_at start mc ys (k - mc xs) (i - length xs)" "i - length xs \<le> length ys"
    "take i (xs @ ys @ zs) = xs @ take (i - length xs) ys"
proof -
  have cut: "cut_ok start (xs @ ys @ zs) i" and mci: "mc (take i (xs @ ys @ zs)) = k"
    and min: "\<And>j. j < i \<Longrightarrow> cut_ok start (xs @ ys @ zs) j \<Longrightarrow> mc (take j (xs @ ys @ zs)) < k"
    using pos by (auto simp: mpos_at_def)
  show lo: "length xs \<le> i"
  proof (rule ccontr)
    assume "\<not> length xs \<le> i"
    then have i: "i < length xs" by simp
    then have eq: "take i (xs @ ys @ zs) = take i xs" and "cut_ok start xs i"
      using cut by (simp_all add: cut_ok_append_left)
    show False
    proof (cases "m_can_fragment M")
      case True
      then show False using mc_mono [of i "length xs" xs] i mci k(1) unfolding eq by (simp add: fudge_def)
    next
      case False
      then show False using mc_take_less [OF False \<open>cut_ok start xs i\<close> i] mci k(1) unfolding eq by (simp add: fudge_def)
    qed
  qed
  show hi: "i - length xs \<le> length ys"
  proof (rule ccontr)
    assume "\<not> i - length xs \<le> length ys"
    then have i: "length (xs @ ys) < i" by simp
    have zs: "zs \<noteq> []" using i cut_ok_le [OF cut] by auto
    show False
    proof (cases "m_can_fragment M")
      case True
      have "cut_ok start (xs @ ys @ zs) (length (xs @ ys))"
        using starts(2) zs by (simp add: cut_ok_def starts_ok_def nth_append hd_conv_nth)
      from min [OF i this] True k(2) show False by (simp add: fudge_def mc_append)
    next
      case False
      have "mc (xs @ ys) \<le> mc (take i (xs @ ys @ zs))"
        using mc_mono [of "length (xs @ ys)" i "xs @ ys @ zs"] i by simp
      then show False using mci k(2) False by (simp add: fudge_def mc_append)
    qed
  qed
  show eq: "take i (xs @ ys @ zs) = xs @ take (i - length xs) ys" using lo hi by simp
  have "cut_ok start ys (i - length xs)"
    using cut_ok_append_left [OF cut_ok_append_right [OF cut lo] hi] .
  moreover have "mc (take (i - length xs) ys) = k - mc xs" using mci unfolding eq by (simp add: mc_append)
  moreover have "mc (take j ys) < k - mc xs" if j: "j < i - length xs" "cut_ok start ys j" for j
  proof -
    have c: "cut_ok start (xs @ ys @ zs) (length xs + j)" and t: "take (length xs + j) (xs @ ys @ zs) = xs @ take j ys"
      using j hi by (auto simp: cut_ok_def nth_append)
    have "mc (xs @ take j ys) < k" using min [OF _ c] j(1) unfolding t by simp
    then show ?thesis unfolding mc_append by simp
  qed
  ultimately show "mpos_at start mc ys (k - mc xs) (i - length xs)" by (simp add: mpos_at_def)
qed

lemma mpos_at_le: "mpos_at start mc xs k i \<Longrightarrow> k \<le> mc xs"
  using mc_mono [of i "length xs" xs] by (auto simp: mpos_at_def dest: cut_ok_le)

lemma mpos_at_end:
  assumes "\<not> m_can_fragment M" "mpos_at start mc xs (mc xs) i"
  shows "i = length xs"
  using assms mc_take_less [of xs i] by (fastforce simp: mpos_at_def cut_ok_def)

lemma mpos_at_zero: "mpos_at start mc xs 0 i \<Longrightarrow> starts_ok start xs \<Longrightarrow> i = 0"
  by (auto simp: mpos_at_def dest: cut_ok_0)

end

locale metric_pair =
  m1: metric_laws ni linv lc start cinfo M1 mc1 + m2: metric_laws ni linv lc start cinfo M2 mc2
  for ni :: "('l, 'i) node_info" and linv lc start cinfo M1 mc1 M2 mc2
begin

lemma scan_children_found:
  assumes "\<And>c. c \<in> set v \<Longrightarrow> m1.wf c" "m1.fudge \<le> k" "k < mc1 (concat (map m1.content v)) + m1.fudge"
  shows "\<exists>pre c post. v = pre @ c # post
    \<and> scan_children M1 M2 m1.fudge v k m = (Some c, k - mc1 (concat (map m1.content pre)), m + mc2 (concat (map m1.content pre)))
    \<and> mc1 (concat (map m1.content pre)) + m1.fudge \<le> k
    \<and> k < mc1 (concat (map m1.content pre)) + mc1 (m1.content c) + m1.fudge"
  using assms
proof (induction v arbitrary: k m)
  case (Cons c v)
  have c: "node_measure M1 c = mc1 (m1.content c)" "node_measure M2 c = mc2 (m1.content c)"
    using Cons.prems(1) by (simp_all add: m1.node_measure m2.node_measure)
  show ?case
  proof (cases "k < mc1 (m1.content c) + m1.fudge")
    case True
    with c Cons.prems(2) show ?thesis by (intro exI [of _ "[]"]) auto
  next
    case False
    have IH: "\<exists>pre c' post. v = pre @ c' # post
      \<and> scan_children M1 M2 m1.fudge v (k - mc1 (m1.content c)) (m + mc2 (m1.content c))
        = (Some c', k - mc1 (m1.content c) - mc1 (concat (map m1.content pre)), m + mc2 (m1.content c) + mc2 (concat (map m1.content pre)))
      \<and> mc1 (concat (map m1.content pre)) + m1.fudge \<le> k - mc1 (m1.content c)
      \<and> k - mc1 (m1.content c) < mc1 (concat (map m1.content pre)) + mc1 (m1.content c') + m1.fudge"
      by (rule Cons.IH) (use Cons.prems False in \<open>auto simp: m1.mc_append\<close>)
    then obtain pre c' post where IH: "v = pre @ c' # post"
      "scan_children M1 M2 m1.fudge v (k - mc1 (m1.content c)) (m + mc2 (m1.content c))
        = (Some c', k - mc1 (m1.content c) - mc1 (concat (map m1.content pre)), m + mc2 (m1.content c) + mc2 (concat (map m1.content pre)))"
      "mc1 (concat (map m1.content pre)) + m1.fudge \<le> k - mc1 (m1.content c)"
      "k - mc1 (m1.content c) < mc1 (concat (map m1.content pre)) + mc1 (m1.content c') + m1.fudge" by blast
    with False c show ?thesis
      by (intro exI [of _ "c # pre"] exI [of _ c'] exI [of _ post]) (auto simp: m1.mc_append m2.mc_append)
  qed
qed simp

lemma scan_children_end:
  assumes "\<And>c. c \<in> set v \<Longrightarrow> m1.wf c" "\<not> m_can_fragment M1"
  shows "scan_children M1 M2 0 v (mc1 (concat (map m1.content v))) m = (None, 0, m + mc2 (concat (map m1.content v)))"
  using assms
  by (induction v arbitrary: m) (auto simp: m1.node_measure m2.node_measure m1.mc_append m2.mc_append)

text \<open>The descent reaches the leaf that holds the position, and has counted everything before it.\<close>

lemma convert_loop_spec:
  "m1.wf n \<Longrightarrow> m1.fudge \<le> k \<Longrightarrow> k < mc1 (m1.content n) + m1.fudge \<Longrightarrow> mpos_at start mc1 (m1.content n) k i \<Longrightarrow>
    \<exists>n' l k' m' j. convert_loop M1 M2 m1.fudge n k m = Some (n', k', m') \<and> get_leaf n' = Some l \<and> linv l
      \<and> mpos_at start mc1 (lc l) k' j \<and> m' + mc2 (take j (lc l)) = m + mc2 (take i (m1.content n))"
proof (induction "n_height n" arbitrary: n k m i)
  case 0
  then obtain l where "n = from_leaf ni l" "linv l" "get_leaf n = Some l" by (metis m1.wf_leaf)
  with 0 show ?case by (auto simp: convert_loop_leaf m1.wf_from_leaf)
next
  case (Suc h)
  obtain v where v: "get_children n = Some v" "\<And>c. c \<in> set v \<Longrightarrow> m1.wf c \<and> m1.ok c \<and> n_height c = h"
    "m1.content n = concat (map m1.content v)"
    using m1.wf_children [OF Suc.prems(1) Suc.hyps(2) [symmetric]] by metis
  obtain pre c post where s: "v = pre @ c # post"
    "scan_children M1 M2 m1.fudge v k m = (Some c, k - mc1 (concat (map m1.content pre)), m + mc2 (concat (map m1.content pre)))"
    "mc1 (concat (map m1.content pre)) + m1.fudge \<le> k"
    "k < mc1 (concat (map m1.content pre)) + mc1 (m1.content c) + m1.fudge"
    using scan_children_found [of v k m] v Suc.prems by metis
  let ?x = "concat (map m1.content pre)" and ?z = "concat (map m1.content post)"
  have eq: "m1.content n = ?x @ m1.content c @ ?z" using v(3) s(1) by simp
  have c: "m1.wf c" "n_height c = h" using v(2) s(1) by auto
  have st: "starts_ok start (m1.content c)" "starts_ok start ?z"
    using v(2) s(1) m1.wf_starts by (auto intro!: starts_ok_concat)
  note mid = m1.mpos_at_middle [OF Suc.prems(4) [unfolded eq] st s(3,4)]
  have k: "m1.fudge \<le> k - mc1 ?x" "k - mc1 ?x < mc1 (m1.content c) + m1.fudge" using s(3,4) by auto
  obtain n' l k' m' j where r: "convert_loop M1 M2 m1.fudge c (k - mc1 ?x) (m + mc2 ?x) = Some (n', k', m')"
    "get_leaf n' = Some l" "linv l" "mpos_at start mc1 (lc l) k' j"
    "m' + mc2 (take j (lc l)) = m + mc2 ?x + mc2 (take (i - length ?x) (m1.content c))"
    using Suc.hyps(1) [OF c(2) [symmetric] c(1) k mid(2), of "m + mc2 ?x"] by blast
  have "convert_loop M1 M2 m1.fudge n k m = convert_loop M1 M2 m1.fudge c (k - mc1 ?x) (m + mc2 ?x)"
    using Suc.hyps(2) v(1) s(2) by (simp add: convert_loop.simps [of _ _ _ n])
  moreover have "mc2 (take i (m1.content n)) = mc2 ?x + mc2 (take (i - length ?x) (m1.content c))"
    unfolding eq mid(4) by (rule m2.mc_append)
  ultimately show ?case using r by (metis add.assoc)
qed

lemma convert_metrics_spec:
  assumes wf: "m1.wf n" and pos: "mpos_at start mc1 (m1.content n) k i"
  shows "convert_metrics M1 M2 n k = Some (mc2 (take i (m1.content n)))"
proof (cases "k = 0")
  case True
  with pos m1.mpos_at_zero m1.wf_starts [OF wf] have "i = 0" by blast
  with True show ?thesis by (simp add: convert_metrics_def)
next
  case False
  let ?c = "m1.content n"
  have fudge: "(if m_can_fragment M1 then 1 else 0) = m1.fudge" by (simp add: m1.fudge_def)
  have conv: "convert_metrics M1 M2 n k = do {
        (n, m1, m2) \<leftarrow> convert_loop M1 M2 m1.fudge n k 0;
        l \<leftarrow> get_leaf n;
        base \<leftarrow> m_to_base_units M1 l m1;
        k \<leftarrow> m_from_base_units M2 l base;
        Some (m2 + k) }"
    using False by (simp add: convert_metrics_def fudge [symmetric])
  have "\<exists>n' l k' m' j. convert_loop M1 M2 m1.fudge n k 0 = Some (n', k', m') \<and> get_leaf n' = Some l \<and> linv l
      \<and> mpos_at start mc1 (lc l) k' j \<and> m' + mc2 (take j (lc l)) = mc2 (take i ?c)"
  proof (cases "m_can_fragment M1 \<or> k < mc1 ?c")
    case True
    have "m1.fudge \<le> k" "k < mc1 ?c + m1.fudge"
      using True False m1.mpos_at_le [OF pos] by (auto simp: m1.fudge_def)
    with convert_loop_spec [OF wf _ _ pos, of 0] show ?thesis by simp
  next
    case atomic: False
    then have k: "k = mc1 ?c" and nf: "\<not> m_can_fragment M1" and f0: "m1.fudge = 0"
      using m1.mpos_at_le [OF pos] by (auto simp: m1.fudge_def)
    have i: "i = length ?c" using m1.mpos_at_end [OF nf] pos k by simp
    show ?thesis
    proof (cases "n_height n")
      case 0
      then obtain l where "n = from_leaf ni l" "linv l" "get_leaf n = Some l" using wf by (metis m1.wf_leaf)
      with 0 pos show ?thesis by (auto simp: convert_loop_leaf m1.wf_from_leaf)
    next
      case (Suc h)
      obtain v where v: "get_children n = Some v" "\<And>c. c \<in> set v \<Longrightarrow> m1.wf c" "?c = concat (map m1.content v)"
        using m1.wf_children [OF wf Suc] by metis
      have "scan_children M1 M2 0 v (mc1 (concat (map m1.content v))) 0 = (None, 0, mc2 (concat (map m1.content v)))"
        using scan_children_end [of v 0] v(2) nf by simp
      with Suc v(1) have "convert_loop M1 M2 m1.fudge n k 0 = convert_loop M1 M2 m1.fudge n 0 (mc2 ?c)"
        unfolding k v(3) f0 by (subst convert_loop.simps) simp
      moreover have "mpos_at start mc1 ?c 0 0" using m1.wf_starts [OF wf] by (rule m1.mpos_at_0)
      moreover have "0 < mc1 ?c" using False k by simp
      ultimately show ?thesis
        using convert_loop_spec [OF wf, of 0 0 "mc2 ?c"] by (simp add: f0 i)
    qed
  qed
  then obtain n' l k' m' j where "convert_loop M1 M2 m1.fudge n k 0 = Some (n', k', m')" "get_leaf n' = Some l" "linv l"
    "mpos_at start mc1 (lc l) k' j" "m' + mc2 (take j (lc l)) = mc2 (take i ?c)" by blast
  moreover from this have "m_to_base_units M1 l k' = Some j" "m_from_base_units M2 l j = Some (mc2 (take j (lc l)))"
    by (simp_all add: m1.to_base m2.from_base mpos_at_def)
  ultimately show ?thesis by (simp add: conv)
qed

end



section \<open>The four metrics of text keep the contract\<close>

lemma newline_boundary:
  assumes "utf8_valid s" "i < length s" "s ! i = NL"
  shows "cut_ok is_lead s (i + 1)"
proof -
  have "is_char_boundary s (Suc i)"
    using assms by (intro boundary_ascii) (auto simp: byte_order)
  with assms(1) show ?thesis by (simp add: cut_lead)
qed

lemma length_str_chars: "utf8_valid s \<Longrightarrow> length (str_chars s) = cnt is_lead s"
  by (induction s rule: utf8_induct) (simp_all add: str_chars_append utf8_char_units)

lemma cut_halves:
  assumes "utf8_valid s" "cut_ok is_lead s i"
  shows "str_slice s 0 i = Some (take i s)" "utf8_valid (take i s)" "utf8_valid (drop i s)"
    "str_chars s = str_chars (take i s) @ str_chars (drop i s)" "i \<le> length s" "clamp_loop s i = i"
proof -
  have b: "is_char_boundary s i" using assms by (simp add: cut_lead)
  note h = str_slice_halves [OF assms(1) b]
  show "str_slice s 0 i = Some (take i s)" "utf8_valid (take i s)" "utf8_valid (drop i s)" by (rule h)+
  show "str_chars s = str_chars (take i s) @ str_chars (drop i s)"
    using str_chars_valid_append [OF h(3), of "drop i s"] by simp
  show i: "i \<le> length s" using b by (rule is_char_boundary_le)
  show "clamp_loop s i = i" using clamp_loop_spec [of s i] b by (simp add: order_antisym)
qed

lemma utf16_to_base_exact:
  "utf16_to_base (cs @ ds) (n16 + sum_list (map char_len_utf16 cs)) n16 n8 = n8 + length (concat cs)"
proof (induction cs arbitrary: n16 n8)
  case Nil
  then show ?case by (cases ds) simp_all
next
  case (Cons c cs)
  have "0 < char_len_utf16 c" by (simp add: char_len_utf16_def)
  then show ?case using Cons.IH [of "n16 + char_len_utf16 c" "n8 + length c"] by (simp add: add.assoc)
qed

context byte_search_laws
begin

lemma lines_to_base_spec:
  "off \<le> length s \<Longrightarrow> cnt (\<lambda>b. b = NL) (take off s) + k \<le> cnt (\<lambda>b. b = NL) s \<Longrightarrow>
    \<exists>i. lines_to_base lib s off k = Some i \<and> i \<le> length s \<and> (if k = 0 then i = off else 0 < i \<and> s ! (i - 1) = NL)
      \<and> cnt (\<lambda>b. b = NL) (take i s) = cnt (\<lambda>b. b = NL) (take off s) + k"
proof (induction k arbitrary: off)
  case (Suc k)
  let ?N = "\<lambda>b. b = NL"
  have all: "cnt ?N s = cnt ?N (take off s) + cnt ?N (drop off s)"
    by (metis append_take_drop_id filter_append length_append)
  with Suc.prems(2) have "0 < cnt ?N (drop off s)" by linarith
  then have "NL \<in> set (drop off s)" by (auto simp: filter_empty_conv)
  then obtain p where p: "bs_memchr lib NL (drop off s) = Some p" using memchr_None [of NL "drop off s"] by auto
  note at = memchr_Some [OF p]
  have "filter ?N (take p (drop off s)) = []" using at by (auto simp: filter_empty_conv in_set_conv_nth)
  then have "cnt ?N (take (Suc p) (drop off s)) = 1" using at by (simp add: take_Suc_conv_app_nth)
  then have c: "cnt ?N (take (off + (p + 1)) s) = cnt ?N (take off s) + 1"
    using take_add [of off "p + 1" s] by simp
  obtain i where "lines_to_base lib s (off + (p + 1)) k = Some i" "i \<le> length s"
    "if k = 0 then i = off + (p + 1) else 0 < i \<and> s ! (i - 1) = NL"
    "cnt ?N (take i s) = cnt ?N (take (off + (p + 1)) s) + k"
  proof -
    have "off + (p + 1) \<le> length s" using at Suc.prems(1) by auto
    moreover have "cnt ?N (take (off + (p + 1)) s) + k \<le> cnt ?N s" using c Suc.prems(2) by linarith
    ultimately show thesis using Suc.IH [of "off + (p + 1)"] that by blast
  qed
  moreover have "s ! (off + p) = NL" using at Suc.prems(1) by auto
  ultimately show ?case using p c by (auto split: if_splits)
qed simp

lemma lines_to_base_mpos:
  assumes s: "utf8_valid s" and pos: "mpos_at is_lead (cnt (\<lambda>b. b = NL)) s k i"
  shows "lines_to_base lib s 0 k = Some i"
proof -
  let ?N = "\<lambda>b. b = NL"
  have i: "cut_ok is_lead s i" "cnt ?N (take i s) = k" "\<And>j. j < i \<Longrightarrow> cut_ok is_lead s j \<Longrightarrow> cnt ?N (take j s) < k"
    using pos by (auto simp: mpos_at_def)
  have "k \<le> cnt ?N s" using i(2) cnt_take_le by metis
  then obtain p where p: "lines_to_base lib s 0 k = Some p" "p \<le> length s"
    "if k = 0 then p = 0 else 0 < p \<and> s ! (p - 1) = NL" "cnt ?N (take p s) = k"
    using lines_to_base_spec [of 0 s k] by auto
  have cut: "cut_ok is_lead s p"
  proof (cases "k = 0")
    case True
    then show ?thesis using p(3) starts_lead [OF s] by (simp add: cut_ok_0)
  next
    case False
    then have "0 < p" "s ! (p - 1) = NL" "p - 1 < length s" using p(2,3) by auto
    then show ?thesis using newline_boundary [OF s, of "p - 1"] by simp
  qed
  have "\<not> p < i" using i(3) [OF _ cut] p(4) by auto
  moreover have "\<not> i < p"
  proof
    assume "i < p"
    then have k: "k \<noteq> 0" using p(3) by (auto split: if_splits)
    have "take p s = take (p - 1) s @ [NL]"
      using p(2,3) k \<open>i < p\<close> take_Suc_conv_app_nth [of "p - 1" s] by simp
    then have "cnt ?N (take (p - 1) s) < k" using p(4) by auto
    moreover have "cnt ?N (take i s) \<le> cnt ?N (take (p - 1) s)" using \<open>i < p\<close> by (intro cnt_take_mono) simp
    ultimately show False using i(2) by simp
  qed
  ultimately show ?thesis using p(1) by simp
qed

lemma char_index_mpos:
  assumes s: "utf8_valid s" and pos: "mpos_at is_lead (cnt is_lead) s k i"
  shows "(case char_index s k of Some byte_idx \<Rightarrow> byte_idx | None \<Rightarrow> length s) = i"
proof -
  have i: "cut_ok is_lead s i" "cnt is_lead (take i s) = k" using pos by (auto simp: mpos_at_def)
  note h = cut_halves [OF s i(1)]
  have k: "length (str_chars (take i s)) = k" using length_str_chars [OF h(2)] i(2) by simp
  then have "take k (str_chars s) = str_chars (take i s)" unfolding h(4) by simp
  then have idx: "length (concat (take k (str_chars s))) = i" using h(5) by (simp add: concat_str_chars)
  show ?thesis
  proof (cases "k < length (str_chars s)")
    case False
    then have "take k (str_chars s) = str_chars s" by simp
    with idx False show ?thesis by (simp add: char_index_def Let_def concat_str_chars)
  qed (use idx in \<open>simp add: char_index_def Let_def\<close>)
qed

end

sublocale byte_search_laws \<subseteq> base: metric_laws "rope_ni lib" str_leaf_wf id is_lead text_info base_metric length
proof unfold_locales
  show "m_to_base_units base_metric l k = Some i" if l: "str_leaf_wf l" "mpos_at is_lead length (id l) k i" for l k i
  proof -
    have b: "is_char_boundary l i" "k = length (take i l)" using l by (auto simp: mpos_at_def str_leaf_wf_def cut_lead)
    then have "k = i" using is_char_boundary_le [OF b(1)] by simp
    with b(1) show ?thesis by (simp add: base_metric_def)
  qed
  show "m_from_base_units base_metric l i = Some (length (take i (id l)))"
    if "str_leaf_wf l" "cut_ok is_lead (id l) i" for l i
    using that by (auto simp: base_metric_def str_leaf_wf_def cut_lead min_absorb2 dest: is_char_boundary_le)
qed (auto simp: base_metric_def)

sublocale byte_search_laws \<subseteq> lines: metric_laws "rope_ni lib" str_leaf_wf id is_lead text_info "lines_metric lib" "cnt (\<lambda>b. b = NL)"
  by unfold_locales
    (auto simp: lines_metric_def text_info_def str_leaf_wf_def lines_to_base_mpos cut_halves(1) count_newlines_def count)

sublocale byte_search_laws \<subseteq> chars: metric_laws "rope_ni lib" str_leaf_wf id is_lead text_info chars_metric "cnt is_lead"
  by unfold_locales
    (auto simp: chars_metric_def text_info_def str_leaf_wf_def char_index_mpos cut_halves(1,2,5,6) min_absorb1
      length_str_chars starts_ok_def filter_empty_conv)

sublocale byte_search_laws \<subseteq> utf16: metric_laws "rope_ni lib" str_leaf_wf id is_lead text_info utf16_metric count_utf16_code_units
proof unfold_locales
  fix l :: str and k i
  assume l: "str_leaf_wf l" and "mpos_at is_lead count_utf16_code_units (id l) k i"
  then have i: "cut_ok is_lead l i" "count_utf16_code_units (take i l) = k" by (auto simp: mpos_at_def)
  note h = cut_halves [OF _ i(1)]
  have v: "utf8_valid l" using l by (simp add: str_leaf_wf_def)
  show "m_to_base_units utf16_metric l k = Some i"
    using utf16_to_base_exact [of "str_chars (take i l)" "str_chars (drop i l)" 0 0] h [OF v] i(2)
    by (simp add: utf16_metric_def count_utf16_chars concat_str_chars)
qed (auto simp: utf16_metric_def text_info_def str_leaf_wf_def cut_halves(1) count_utf16_eq starts_ok_def filter_empty_conv)

sublocale byte_search_laws \<subseteq> base_lines: metric_pair "rope_ni lib" str_leaf_wf id is_lead text_info
  base_metric length "lines_metric lib" "cnt (\<lambda>b. b = NL)"
  by unfold_locales

sublocale byte_search_laws \<subseteq> lines_base: metric_pair "rope_ni lib" str_leaf_wf id is_lead text_info
  "lines_metric lib" "cnt (\<lambda>b. b = NL)" base_metric length
  by unfold_locales

sublocale byte_search_laws \<subseteq> base_utf16: metric_pair "rope_ni lib" str_leaf_wf id is_lead text_info
  base_metric length utf16_metric count_utf16_code_units
  by unfold_locales

sublocale byte_search_laws \<subseteq> utf16_base: metric_pair "rope_ni lib" str_leaf_wf id is_lead text_info
  utf16_metric count_utf16_code_units base_metric length
  by unfold_locales

sublocale byte_search_laws \<subseteq> base_chars: metric_pair "rope_ni lib" str_leaf_wf id is_lead text_info
  base_metric length chars_metric "cnt is_lead"
  by unfold_locales

sublocale byte_search_laws \<subseteq> chars_base: metric_pair "rope_ni lib" str_leaf_wf id is_lead text_info
  chars_metric "cnt is_lead" base_metric length
  by unfold_locales


section \<open>Lines and offsets\<close>

abbreviation rope_ok :: "byte_search \<Rightarrow> rope \<Rightarrow> bool" where
  "rope_ok lib t \<equiv> node_wf (rope_ni lib) str_leaf_wf t"

abbreviation newlines :: "str \<Rightarrow> nat" where
  "newlines s \<equiv> cnt (\<lambda>b. b = NL) s"

lemma mpos_at_length: "cut_ok start xs i \<Longrightarrow> mpos_at start length xs i i"
  by (auto simp: mpos_at_def dest: cut_ok_le)

context byte_search_laws
begin

lemma rope_valid: "rope_ok lib t \<Longrightarrow> utf8_valid (node_content id t)"
proof (induction t)
  case (Node h len info x)
  from Node.prems show ?case
  proof (cases rule: str.wf_cases)
    case (1 l)
    then show ?thesis by (simp add: str_leaf_wf_def)
  next
    case (2 h v)
    then show ?thesis using Node.IH by (auto intro!: utf8_valid_concat)
  qed
qed

text \<open>The position behind a newline is the first one with its count.\<close>

lemma mpos_at_newlines:
  assumes s: "utf8_valid s" and i: "i \<le> length s" "if k = 0 then i = 0 else 0 < i \<and> s ! (i - 1) = NL" "newlines (take i s) = k"
  shows "mpos_at is_lead (cnt (\<lambda>b. b = NL)) s k i"
proof (cases "k = 0")
  case True
  with i starts_lead [OF s] show ?thesis by (simp add: mpos_at_def cut_ok_0)
next
  case False
  then have at: "0 < i" "s ! (i - 1) = NL" "i - 1 < length s" using i by auto
  have "take i s = take (i - 1) s @ [NL]" using at take_Suc_conv_app_nth [of "i - 1" s] by simp
  then have "newlines (take (i - 1) s) < k" using i(3) by auto
  then have "newlines (take j s) < k" if "j < i" for j
  proof -
    have "j \<le> i - 1" using that by simp
    from cnt_take_mono [OF this, of "\<lambda>b. b = NL" s] show ?thesis using \<open>newlines (take (i - 1) s) < k\<close> by linarith
  qed
  moreover have "cut_ok is_lead s i" using newline_boundary [OF s at(3,2)] at(1) by simp
  ultimately show ?thesis using i(3) by (simp add: mpos_at_def)
qed

lemma line_start_exists:
  assumes "utf8_valid s" "k \<le> newlines s"
  obtains i where "mpos_at is_lead (cnt (\<lambda>b. b = NL)) s k i" "i \<le> length s"
    "if k = 0 then i = 0 else 0 < i \<and> s ! (i - 1) = NL" "newlines (take i s) = k"
proof -
  obtain i where i: "i \<le> length s" "if k = 0 then i = 0 else 0 < i \<and> s ! (i - 1) = NL" "newlines (take i s) = k"
    using lines_to_base_spec [of 0 s k] assms(2) by auto
  from that [OF mpos_at_newlines [OF assms(1) i] i] show thesis .
qed

lemma rope_lines_measure: "rope_ok lib t \<Longrightarrow> node_measure (lines_metric lib) t = newlines (node_content id t)"
  by (rule lines.node_measure)

lemma try_line_of_offset_spec:
  assumes wf: "rope_ok lib t"
  shows "cut_ok is_lead (node_content id t) i \<Longrightarrow>
      try_line_of_offset lib t i = Some (Inr (newlines (take i (node_content id t))))"
    "n_len t < i \<Longrightarrow> try_line_of_offset lib t i = Some (Inl (OffsetOutOfBounds i (n_len t)))"
proof -
  show "try_line_of_offset lib t i = Some (Inr (newlines (take i (node_content id t))))"
    if "cut_ok is_lead (node_content id t) i"
    using base_lines.convert_metrics_spec [OF wf mpos_at_length [OF that]] cut_ok_le [OF that] str.wf_len [OF wf]
    by (simp add: try_line_of_offset_def validate_offset_def node_count_def)
qed (simp add: try_line_of_offset_def validate_offset_def)

lemma try_offset_of_line_spec:
  assumes wf: "rope_ok lib t"
  defines "s \<equiv> node_content id t"
  shows "mpos_at is_lead (cnt (\<lambda>b. b = NL)) s k i \<Longrightarrow> try_offset_of_line lib t k = Some (Inr i)"
    "k = newlines s + 1 \<Longrightarrow> try_offset_of_line lib t k = Some (Inr (length s))"
    "newlines s + 1 < k \<Longrightarrow> try_offset_of_line lib t k = Some (Inl (LineOutOfBounds k (newlines s + 1)))"
proof -
  have max: "max_line_index lib t = newlines s + 1"
    using rope_lines_measure [OF wf] by (simp add: max_line_index_def s_def)
  show "try_offset_of_line lib t k = Some (Inr i)" if "mpos_at is_lead (cnt (\<lambda>b. b = NL)) s k i"
    using lines_base.convert_metrics_spec [OF wf that [unfolded s_def]] lines.mpos_at_le [OF that] that
    by (auto simp: try_offset_of_line_def validate_line_def max count_base_units_def Let_def mpos_at_def s_def
        min_absorb2 dest!: cut_ok_le)
  show "k = newlines s + 1 \<Longrightarrow> try_offset_of_line lib t k = Some (Inr (length s))"
    "newlines s + 1 < k \<Longrightarrow> try_offset_of_line lib t k = Some (Inl (LineOutOfBounds k (newlines s + 1)))"
    using str.wf_len [OF wf] by (simp_all add: try_offset_of_line_def validate_line_def max Let_def s_def)
qed

lemma utf16_count_roundtrip:
  assumes wf: "rope_ok lib t" and cut: "cut_ok is_lead (node_content id t) i"
  shows "node_count base_metric utf16_metric t i = Some (count_utf16_code_units (take i (node_content id t)))"
    "count_base_units base_metric utf16_metric t (count_utf16_code_units (take i (node_content id t))) = Some i"
proof -
  let ?s = "node_content id t"
  show "node_count base_metric utf16_metric t i = Some (count_utf16_code_units (take i ?s))"
    using base_utf16.convert_metrics_spec [OF wf mpos_at_length [OF cut]] by (simp add: node_count_def)
  have "mpos_at is_lead count_utf16_code_units ?s (count_utf16_code_units (take i ?s)) i"
    using utf16.mpos_at_atomic [OF _ cut] by (simp add: utf16_metric_def)
  from utf16_base.convert_metrics_spec [OF wf this]
  show "count_base_units base_metric utf16_metric t (count_utf16_code_units (take i ?s)) = Some i"
    using cut_ok_le [OF cut] by (simp add: count_base_units_def)
qed

end

end
