(* ===== verification/Rope_Cursor.thy ===== *)
theory Rope_Cursor
  imports Rope_Metric
begin

text \<open>
  The cursor of \<^verbatim>\<open>xi-rope/src/tree/cursor.rs\<close>: a position in a tree with the leaf around it and a cache of
  the lower end of the path to that leaf.  A method that moves the cursor returns the new cursor and its
  result; \<open>None\<close> is a panic.
\<close>

definition CURSOR_CACHE_SIZE :: nat where "CURSOR_CACHE_SIZE = 4"

record ('l, 'i) cursor =
  cu_root :: "('l, 'i) node"
  cu_position :: nat
  cu_cache :: "(('l, 'i) node \<times> nat) option list"
  cu_leaf :: "'l option"
  cu_offset_of_leaf :: nat


section \<open>Descending\<close>

text \<open>
  The inner loop of \<^verbatim>\<open>descend\<close> and \<^verbatim>\<open>leaf_at\<close>: the index of the child that holds the position, the offset at
  which it begins, and the child.  The last child takes all that is left.
\<close>

fun find_child :: "('l, 'i) node list \<Rightarrow> nat \<Rightarrow> nat \<Rightarrow> nat \<Rightarrow> (nat \<times> nat \<times> ('l, 'i) node) option" where
  "find_child [] position i offset = None"
| "find_child [c] position i offset = Some (i, offset, c)"
| "find_child (c # cs) position i offset =
     (let nextoff = offset + n_len c
      in if nextoff > position then Some (i, offset, c) else find_child cs position (i + 1) nextoff)"

definition cache_set ::
  "(('l, 'i) node \<times> nat) option list \<Rightarrow> nat \<Rightarrow> ('l, 'i) node \<times> nat \<Rightarrow> (('l, 'i) node \<times> nat) option list" where
  "cache_set cache cache_ix e = (if cache_ix < CURSOR_CACHE_SIZE then cache[cache_ix := Some e] else cache)"

lemma find_child_mem: "find_child cs position i offset = Some (j, off, c) \<Longrightarrow> c \<in> set cs"
  by (induction cs position i offset rule: find_child.induct) (auto simp: Let_def split: if_splits)

function descend_loop ::
  "('l, 'i) node \<Rightarrow> nat \<Rightarrow> nat \<Rightarrow> (('l, 'i) node \<times> nat) option list
    \<Rightarrow> ('l \<times> nat \<times> (('l, 'i) node \<times> nat) option list) option" where
  "descend_loop n position offset cache =
     (if n_height n > 0 then do {
        children \<leftarrow> get_children n;
        (i, offset, c) \<leftarrow> find_child children position 0 offset;
        descend_loop c position offset (cache_set cache (n_height n - 1) (n, i)) }
      else do { l \<leftarrow> get_leaf n; Some (l, offset, cache) })"
  by pat_completeness auto
termination
  by (relation "measure (\<lambda>(n, position, offset, cache). size n)")
    (auto intro: get_children_size find_child_mem)

declare descend_loop.simps [simp del]

definition descend :: "('l, 'i) cursor \<Rightarrow> ('l, 'i) cursor option" where
  "descend cu = do {
     (l, offset, cache) \<leftarrow> descend_loop (cu_root cu) (cu_position cu) 0 (cu_cache cu);
     Some (cu\<lparr>cu_leaf := Some l, cu_offset_of_leaf := offset, cu_cache := cache\<rparr>) }"

function leaf_at_loop :: "('l, 'i) node \<Rightarrow> nat \<Rightarrow> nat \<Rightarrow> ('l \<times> nat) option" where
  "leaf_at_loop n position offset =
     (if n_height n > 0 then do {
        children \<leftarrow> get_children n;
        (_, offset, c) \<leftarrow> find_child children position 0 offset;
        leaf_at_loop c position offset }
      else do { l \<leftarrow> get_leaf n; Some (l, offset) })"
  by pat_completeness auto
termination
  by (relation "measure (\<lambda>(n, position, offset). size n)")
    (auto intro: get_children_size find_child_mem)

declare leaf_at_loop.simps [simp del]

definition leaf_at :: "('l, 'i) cursor \<Rightarrow> nat \<Rightarrow> ('l \<times> nat) option" where
  "leaf_at cu position = leaf_at_loop (cu_root cu) position 0"

definition cursor_new :: "('l, 'i) node \<Rightarrow> nat \<Rightarrow> ('l, 'i) cursor option" where
  "cursor_new n position = descend \<lparr>cu_root = n, cu_position = position,
     cu_cache = replicate CURSOR_CACHE_SIZE None, cu_leaf = None, cu_offset_of_leaf = 0\<rparr>"

definition total_len :: "('l, 'i) cursor \<Rightarrow> nat" where
  "total_len cu = n_len (cu_root cu)"

definition cursor_pos :: "('l, 'i) cursor \<Rightarrow> nat" where
  "cursor_pos cu = cu_position cu"

definition cu_get_leaf :: "('l, 'i) cursor \<Rightarrow> ('l \<times> nat) option option" where
  "cu_get_leaf cu = (case cu_leaf cu of
     None \<Rightarrow> Some None
   | Some l \<Rightarrow> do { k \<leftarrow> usize_sub (cu_position cu) (cu_offset_of_leaf cu); Some (Some (l, k)) })"

definition leaf_start_offset :: "('l, 'i) cursor \<Rightarrow> nat option" where
  "leaf_start_offset cu = map_option (\<lambda>_. cu_offset_of_leaf cu) (cu_leaf cu)"

text \<open>The sum over the cached part of the path; an index behind the children is a panic.\<close>

fun cache_measure :: "('l, 'i) metric \<Rightarrow> (('l, 'i) node \<times> nat) option list \<Rightarrow> nat \<Rightarrow> nat option" where
  "cache_measure M [] m = Some m"
| "cache_measure M (None # es) m = cache_measure M es m"
| "cache_measure M (Some (n, child_idx) # es) m = do {
     children \<leftarrow> get_children n;
     rassert (child_idx \<le> length children);
     cache_measure M es (m + sum_list (map (node_measure M) (take child_idx children))) }"

definition leaf_start_measure :: "('l, 'i) metric \<Rightarrow> ('l, 'i) cursor \<Rightarrow> nat option option" where
  "leaf_start_measure M cu = (case cu_leaf cu of
     None \<Rightarrow> Some None
   | Some _ \<Rightarrow> do { m \<leftarrow> cache_measure M (cu_cache cu) 0; Some (Some m) })"


section \<open>Neighbouring leaves\<close>

text \<open>Down along the first, or the last, children of \<open>k\<close> levels, recording the path.\<close>

primrec down_first ::
  "nat \<Rightarrow> ('l, 'i) node \<Rightarrow> (('l, 'i) node \<times> nat) option list
    \<Rightarrow> (('l, 'i) node \<times> (('l, 'i) node \<times> nat) option list) option" where
  "down_first 0 n cache = Some (n, cache)"
| "down_first (Suc k) n cache = do {
     node_children \<leftarrow> get_children n;
     rassert (node_children \<noteq> []);
     down_first k (node_children ! 0) (cache[k := Some (n, 0)]) }"

primrec down_last ::
  "nat \<Rightarrow> ('l, 'i) node \<Rightarrow> (('l, 'i) node \<times> nat) option list
    \<Rightarrow> (('l, 'i) node \<times> (('l, 'i) node \<times> nat) option list) option" where
  "down_last 0 n cache = Some (n, cache)"
| "down_last (Suc k) n cache = do {
     node_children \<leftarrow> get_children n;
     rassert (node_children \<noteq> []);
     let last_ix = length node_children - 1;
     down_last k (node_children ! last_ix) (cache[k := Some (n, last_ix)]) }"

text \<open>
  The loop of \<^verbatim>\<open>next_leaf\<close> over the cache from level \<open>i\<close> on: \<open>Some (Inl c)\<close> is a return with the cursor
  \<open>c\<close>, \<open>Some (Inr ())\<close> the end of the loop.
\<close>

function next_leaf_loop :: "nat \<Rightarrow> ('l, 'i) cursor \<Rightarrow> (('l, 'i) cursor + unit) option" where
  "next_leaf_loop i cu =
     (if i < CURSOR_CACHE_SIZE then
        (case cu_cache cu ! i of
           None \<Rightarrow> Some (Inl (cu\<lparr>cu_leaf := None\<rparr>))
         | Some (n, j) \<Rightarrow> do {
             children \<leftarrow> get_children n;
             if j + 1 < length children then do {
               (node_down, cache) \<leftarrow> down_first i (children ! (j + 1)) ((cu_cache cu)[i := Some (n, j + 1)]);
               l \<leftarrow> get_leaf node_down;
               Some (Inl (cu\<lparr>cu_cache := cache, cu_leaf := Some l, cu_offset_of_leaf := cu_position cu\<rparr>)) }
             else next_leaf_loop (i + 1) cu })
      else Some (Inr ()))"
  by pat_completeness auto
termination
  by (relation "measure (\<lambda>(i, cu). CURSOR_CACHE_SIZE - i)") auto

declare next_leaf_loop.simps [simp del]

definition next_leaf ::
  "('l, 'i) node_info \<Rightarrow> ('l, 'i) cursor \<Rightarrow> (('l, 'i) cursor \<times> ('l \<times> nat) option) option" where
  "next_leaf ni cu = (case cu_leaf cu of
     None \<Rightarrow> Some (cu, None)
   | Some leaf \<Rightarrow> do {
       let cu = cu\<lparr>cu_position := cu_offset_of_leaf cu + leaf_len ni leaf\<rparr>;
       r \<leftarrow> next_leaf_loop 0 cu;
       case r of
         Inl cu \<Rightarrow> do { res \<leftarrow> cu_get_leaf cu; Some (cu, res) }
       | Inr _ \<Rightarrow>
           if cu_offset_of_leaf cu + leaf_len ni leaf = n_len (cu_root cu)
           then Some (cu\<lparr>cu_leaf := None\<rparr>, None)
           else do { cu \<leftarrow> descend cu; res \<leftarrow> cu_get_leaf cu; Some (cu, res) } })"

function prev_leaf_loop ::
  "('l, 'i) node_info \<Rightarrow> nat \<Rightarrow> ('l, 'i) cursor \<Rightarrow> (('l, 'i) cursor + unit) option" where
  "prev_leaf_loop ni i cu =
     (if i < CURSOR_CACHE_SIZE then
        (case cu_cache cu ! i of
           None \<Rightarrow> Some (Inl (cu\<lparr>cu_leaf := None\<rparr>))
         | Some (n, j) \<Rightarrow>
             if j > 0 then do {
               children \<leftarrow> get_children n;
               rassert (children \<noteq> []);
               child \<leftarrow> list_get children (j - 1);
               (node_down, cache) \<leftarrow> down_last i child ((cu_cache cu)[i := Some (n, j - 1)]);
               l \<leftarrow> get_leaf node_down;
               off \<leftarrow> usize_sub (cu_offset_of_leaf cu) (leaf_len ni l);
               Some (Inl (cu\<lparr>cu_cache := cache, cu_leaf := Some l, cu_offset_of_leaf := off, cu_position := off\<rparr>)) }
             else prev_leaf_loop ni (i + 1) cu)
      else Some (Inr ()))"
  by pat_completeness auto
termination
  by (relation "measure (\<lambda>(ni, i, cu). CURSOR_CACHE_SIZE - i)") auto

declare prev_leaf_loop.simps [simp del]

definition prev_leaf ::
  "('l, 'i) node_info \<Rightarrow> ('l, 'i) cursor \<Rightarrow> (('l, 'i) cursor \<times> ('l \<times> nat) option) option" where
  "prev_leaf ni cu =
     (if cu_offset_of_leaf cu = 0 then Some (cu\<lparr>cu_leaf := None, cu_position := 0\<rparr>, None)
      else do {
        r \<leftarrow> prev_leaf_loop ni 0 cu;
        case r of
          Inl cu \<Rightarrow> do { res \<leftarrow> cu_get_leaf cu; Some (cu, res) }
        | Inr _ \<Rightarrow> do {
            cu \<leftarrow> descend (cu\<lparr>cu_position := cu_offset_of_leaf cu - 1\<rparr>);
            let cu = cu\<lparr>cu_position := cu_offset_of_leaf cu\<rparr>;
            res \<leftarrow> cu_get_leaf cu;
            Some (cu, res) } })"

function peek_prev_loop :: "nat \<Rightarrow> ('l, 'i) cursor \<Rightarrow> 'l option option" where
  "peek_prev_loop i cu =
     (if i < CURSOR_CACHE_SIZE then
        (case cu_cache cu ! i of
           None \<Rightarrow> Some None
         | Some (n, j) \<Rightarrow>
             if j > 0 then do {
               children \<leftarrow> get_children n;
               rassert (children \<noteq> []);
               child \<leftarrow> list_get children (j - 1);
               (node_down, _) \<leftarrow> down_last i child (cu_cache cu);
               l \<leftarrow> get_leaf node_down;
               Some (Some l) }
             else peek_prev_loop (i + 1) cu)
      else Some None)"
  by pat_completeness auto
termination
  by (relation "measure (\<lambda>(i, cu). CURSOR_CACHE_SIZE - i)") auto

declare peek_prev_loop.simps [simp del]

definition peek_prev_leaf ::
  "('l, 'i) node_info \<Rightarrow> ('l, 'i) cursor \<Rightarrow> ('l \<times> nat) option option" where
  "peek_prev_leaf ni cu =
     (if cu_offset_of_leaf cu = 0 then Some None
      else do {
        r \<leftarrow> peek_prev_loop 0 cu;
        case r of
          Some l \<Rightarrow> do { off \<leftarrow> usize_sub (cu_offset_of_leaf cu) (leaf_len ni l); Some (Some (l, off)) }
        | None \<Rightarrow> map_option Some (leaf_at cu (cu_offset_of_leaf cu - 1)) })"

definition cursor_set :: "('l, 'i) node_info \<Rightarrow> ('l, 'i) cursor \<Rightarrow> nat \<Rightarrow> ('l, 'i) cursor option" where
  "cursor_set ni cu position = do {
     let cu = cu\<lparr>cu_position := position\<rparr>;
     case cu_leaf cu of
       None \<Rightarrow> descend cu
     | Some l \<Rightarrow>
         if position \<ge> cu_offset_of_leaf cu \<and> position < cu_offset_of_leaf cu + leaf_len ni l then Some cu
         else do {
           (cu, done1) \<leftarrow> (if position = cu_offset_of_leaf cu + leaf_len ni l \<and> position < n_len (cu_root cu)
             then do { (cu, r) \<leftarrow> next_leaf ni cu; Some (cu, r \<noteq> None) } else Some (cu, False));
           if done1 then Some cu
           else do {
             (cu, done2) \<leftarrow> (if cu_position cu + 1 = cu_offset_of_leaf cu
               then do { (cu, r) \<leftarrow> prev_leaf ni cu; Some (cu, r \<noteq> None) } else Some (cu, False));
             if done2 then Some cu else descend cu } } }"



section \<open>Boundaries\<close>

text \<open>The loop over the children in \<^verbatim>\<open>measure_leaf\<close>: the child to descend into, if any.\<close>

fun scan_len :: "('l, 'i) metric \<Rightarrow> ('l, 'i) node list \<Rightarrow> nat \<Rightarrow> nat \<Rightarrow> ('l, 'i) node option \<times> nat \<times> nat" where
  "scan_len M [] pos m = (None, pos, m)"
| "scan_len M (child # cs) pos m =
     (if pos < n_len child then (Some child, pos, m)
      else scan_len M cs (pos - n_len child) (m + node_measure M child))"

partial_function (option) measure_leaf_loop ::
  "('l, 'i) metric \<Rightarrow> ('l, 'i) node \<Rightarrow> nat \<Rightarrow> nat \<Rightarrow> nat option" where
  "measure_leaf_loop M n pos m =
     (if n_height n > 0 then do {
        children \<leftarrow> get_children n;
        rassert (children \<noteq> []);
        let (child, pos, m) = scan_len M children pos m;
        measure_leaf_loop M (case child of Some c \<Rightarrow> c | None \<Rightarrow> n) pos m }
      else Some m)"

declare measure_leaf_loop.simps [code]

definition measure_leaf :: "('l, 'i) metric \<Rightarrow> ('l, 'i) cursor \<Rightarrow> nat \<Rightarrow> nat option" where
  "measure_leaf M cu pos = measure_leaf_loop M (cu_root cu) pos 0"

fun find_child_metric ::
  "('l, 'i) metric \<Rightarrow> ('l, 'i) node list \<Rightarrow> nat \<Rightarrow> nat \<Rightarrow> nat \<Rightarrow> (nat \<times> nat \<times> nat \<times> ('l, 'i) node) option" where
  "find_child_metric M [] m i offset = None"
| "find_child_metric M [c] m i offset = Some (i, offset, m, c)"
| "find_child_metric M (c # cs) m i offset =
     (let child_m = node_measure M c
      in if child_m \<ge> m then Some (i, offset, m, c)
         else find_child_metric M cs (m - child_m) (i + 1) (offset + n_len c))"

lemma find_child_metric_mem: "find_child_metric M cs m i offset = Some (j, off, m', c) \<Longrightarrow> c \<in> set cs"
  by (induction M cs m i offset rule: find_child_metric.induct) (auto simp: Let_def split: if_splits)

function descend_metric_loop ::
  "('l, 'i) metric \<Rightarrow> ('l, 'i) node \<Rightarrow> nat \<Rightarrow> nat \<Rightarrow> (('l, 'i) node \<times> nat) option list
    \<Rightarrow> ('l \<times> nat \<times> (('l, 'i) node \<times> nat) option list) option" where
  "descend_metric_loop M n m offset cache =
     (if n_height n > 0 then do {
        children \<leftarrow> get_children n;
        (i, offset, m, c) \<leftarrow> find_child_metric M children m 0 offset;
        descend_metric_loop M c m offset (cache_set cache (n_height n - 1) (n, i)) }
      else do { l \<leftarrow> get_leaf n; Some (l, offset, cache) })"
  by pat_completeness auto
termination
  by (relation "measure (\<lambda>(M, n, m, offset, cache). size n)")
    (auto intro: get_children_size find_child_metric_mem)

declare descend_metric_loop.simps [simp del]

definition descend_metric :: "('l, 'i) metric \<Rightarrow> nat \<Rightarrow> ('l, 'i) cursor \<Rightarrow> ('l, 'i) cursor option" where
  "descend_metric M m cu = do {
     (l, offset, cache) \<leftarrow> descend_metric_loop M (cu_root cu) m 0 (cu_cache cu);
     Some (cu\<lparr>cu_leaf := Some l, cu_position := offset, cu_offset_of_leaf := offset, cu_cache := cache\<rparr>) }"

definition set_measure :: "('l, 'i) metric \<Rightarrow> ('l, 'i) cursor \<Rightarrow> nat \<Rightarrow> ('l, 'i) cursor option" where
  "set_measure M cu m = descend_metric M m cu"

definition cursor_is_boundary ::
  "('l, 'i) node_info \<Rightarrow> ('l, 'i) metric \<Rightarrow> ('l, 'i) cursor \<Rightarrow> bool option" where
  "cursor_is_boundary ni M cu = (case cu_leaf cu of
     None \<Rightarrow> Some False
   | Some leaf \<Rightarrow>
       if cu_position cu = cu_offset_of_leaf cu \<and> \<not> m_can_fragment M then Some True
       else if cu_position cu = 0 \<or> cu_position cu > cu_offset_of_leaf cu then do {
         k \<leftarrow> usize_sub (cu_position cu) (cu_offset_of_leaf cu);
         m_is_boundary M leaf k }
       else do {
         r \<leftarrow> peek_prev_leaf ni cu;
         case r of None \<Rightarrow> Some False | Some (pl, _) \<Rightarrow> m_is_boundary M pl (leaf_len ni pl) })"

definition last_inside_leaf ::
  "('l, 'i) node_info \<Rightarrow> ('l, 'i) metric \<Rightarrow> ('l, 'i) cursor \<Rightarrow> nat \<Rightarrow> (('l, 'i) cursor \<times> nat option) option" where
  "last_inside_leaf ni M cu orig_pos = do {
     l \<leftarrow> cu_leaf cu;
     let len = leaf_len ni l;
     at_end \<leftarrow> (if cu_offset_of_leaf cu + len < orig_pos then m_is_boundary M l len else Some False);
     if at_end then do {
       (cu, _) \<leftarrow> next_leaf ni cu;
       Some (cu, Some (cu_position cu)) }
     else do {
       r \<leftarrow> m_prev M l len;
       case r of
         None \<Rightarrow> Some (cu, None)
       | Some offset_in_leaf \<Rightarrow>
           let cu = cu\<lparr>cu_position := cu_offset_of_leaf cu + offset_in_leaf\<rparr>
           in Some (cu, Some (cu_position cu)) } }"

definition next_inside_leaf ::
  "('l, 'i) node_info \<Rightarrow> ('l, 'i) metric \<Rightarrow> ('l, 'i) cursor \<Rightarrow> (('l, 'i) cursor \<times> nat option) option" where
  "next_inside_leaf ni M cu = do {
     l \<leftarrow> cu_leaf cu;
     k \<leftarrow> usize_sub (cu_position cu) (cu_offset_of_leaf cu);
     r \<leftarrow> m_next M l k;
     case r of
       None \<Rightarrow> Some (cu, None)
     | Some offset_in_leaf \<Rightarrow>
         if offset_in_leaf = leaf_len ni l \<and> cu_offset_of_leaf cu + offset_in_leaf \<noteq> n_len (cu_root cu)
         then do {
           (cu, _) \<leftarrow> next_leaf ni cu;
           Some (cu, Some (cu_position cu)) }
         else
           let cu = cu\<lparr>cu_position := cu_offset_of_leaf cu + offset_in_leaf\<rparr>
           in Some (cu, Some (cu_position cu)) }"

definition cursor_prev ::
  "('l, 'i) node_info \<Rightarrow> ('l, 'i) metric \<Rightarrow> ('l, 'i) cursor \<Rightarrow> (('l, 'i) cursor \<times> nat option) option" where
  "cursor_prev ni M cu =
     (if cu_position cu = 0 \<or> cu_leaf cu = None then Some (cu\<lparr>cu_leaf := None\<rparr>, None)
      else do {
        let orig_pos = cu_position cu;
        offset_in_leaf \<leftarrow> usize_sub orig_pos (cu_offset_of_leaf cu);
        inside \<leftarrow> (if offset_in_leaf > 0 then do { l \<leftarrow> cu_leaf cu; m_prev M l offset_in_leaf } else Some None);
        case inside of
          Some k \<Rightarrow>
            let cu = cu\<lparr>cu_position := cu_offset_of_leaf cu + k\<rparr>
            in Some (cu, Some (cu_position cu))
        | None \<Rightarrow> do {
            (cu, r) \<leftarrow> prev_leaf ni cu;
            case r of
              None \<Rightarrow> Some (cu, None)
            | Some _ \<Rightarrow> do {
                (cu, found) \<leftarrow> last_inside_leaf ni M cu orig_pos;
                case found of
                  Some offset \<Rightarrow> Some (cu, Some offset)
                | None \<Rightarrow> do {
                    m \<leftarrow> measure_leaf M cu (cu_position cu);
                    if m = 0 then Some (cu\<lparr>cu_leaf := None, cu_position := 0\<rparr>, None)
                    else do {
                      cu \<leftarrow> descend_metric M m cu;
                      last_inside_leaf ni M cu orig_pos } } } } })"

definition cursor_next ::
  "('l, 'i) node_info \<Rightarrow> ('l, 'i) metric \<Rightarrow> ('l, 'i) cursor \<Rightarrow> (('l, 'i) cursor \<times> nat option) option" where
  "cursor_next ni M cu =
     (if cu_position cu \<ge> n_len (cu_root cu) \<or> cu_leaf cu = None then Some (cu\<lparr>cu_leaf := None\<rparr>, None)
      else do {
        (cu, found) \<leftarrow> next_inside_leaf ni M cu;
        case found of
          Some offset \<Rightarrow> Some (cu, Some offset)
        | None \<Rightarrow> do {
            (cu, r) \<leftarrow> next_leaf ni cu;
            case r of
              None \<Rightarrow> Some (cu, None)
            | Some _ \<Rightarrow> do {
                (cu, found) \<leftarrow> next_inside_leaf ni M cu;
                case found of
                  Some offset \<Rightarrow> Some (cu, Some offset)
                | None \<Rightarrow> do {
                    m \<leftarrow> measure_leaf M cu (cu_position cu);
                    cu \<leftarrow> descend_metric M (m + 1) cu;
                    (cu, found) \<leftarrow> next_inside_leaf ni M cu;
                    case found of
                      Some offset \<Rightarrow> Some (cu, Some offset)
                    | None \<Rightarrow> Some (cu\<lparr>cu_position := n_len (cu_root cu), cu_leaf := None\<rparr>, None) } } } })"

definition at_or_next ::
  "('l, 'i) node_info \<Rightarrow> ('l, 'i) metric \<Rightarrow> ('l, 'i) cursor \<Rightarrow> (('l, 'i) cursor \<times> nat option) option" where
  "at_or_next ni M cu = do {
     b \<leftarrow> cursor_is_boundary ni M cu;
     if b then Some (cu, Some (cursor_pos cu)) else cursor_next ni M cu }"

definition at_or_prev ::
  "('l, 'i) node_info \<Rightarrow> ('l, 'i) metric \<Rightarrow> ('l, 'i) cursor \<Rightarrow> (('l, 'i) cursor \<times> nat option) option" where
  "at_or_prev ni M cu = do {
     b \<leftarrow> cursor_is_boundary ni M cu;
     if b then Some (cu, Some (cursor_pos cu)) else cursor_prev ni M cu }"


section \<open>Positions of a rope\<close>

definition is_codepoint_boundary :: "byte_search \<Rightarrow> rope \<Rightarrow> nat \<Rightarrow> bool option" where
  "is_codepoint_boundary lib t offset = do {
     cu \<leftarrow> cursor_new t offset;
     cursor_is_boundary (rope_ni lib) base_metric cu }"

definition prev_codepoint_offset :: "byte_search \<Rightarrow> rope \<Rightarrow> nat \<Rightarrow> nat option option" where
  "prev_codepoint_offset lib t offset = do {
     cu \<leftarrow> cursor_new t offset;
     (_, r) \<leftarrow> cursor_prev (rope_ni lib) base_metric cu;
     Some r }"

definition next_codepoint_offset :: "byte_search \<Rightarrow> rope \<Rightarrow> nat \<Rightarrow> nat option option" where
  "next_codepoint_offset lib t offset = do {
     cu \<leftarrow> cursor_new t offset;
     (_, r) \<leftarrow> cursor_next (rope_ni lib) base_metric cu;
     Some r }"

definition at_or_next_codepoint_boundary :: "byte_search \<Rightarrow> rope \<Rightarrow> nat \<Rightarrow> nat option option" where
  "at_or_next_codepoint_boundary lib t offset = do {
     b \<leftarrow> is_codepoint_boundary lib t offset;
     if b then Some (Some offset) else next_codepoint_offset lib t offset }"

definition at_or_prev_codepoint_boundary :: "byte_search \<Rightarrow> rope \<Rightarrow> nat \<Rightarrow> nat option option" where
  "at_or_prev_codepoint_boundary lib t offset = do {
     b \<leftarrow> is_codepoint_boundary lib t offset;
     if b then Some (Some offset) else prev_codepoint_offset lib t offset }"

definition chunk_at_offset :: "byte_search \<Rightarrow> rope \<Rightarrow> nat \<Rightarrow> (str \<times> nat \<times> nat \<times> nat) option option" where
  "chunk_at_offset lib t byte_offset =
     (if byte_offset > n_len t then Some None
      else do {
        cu \<leftarrow> cursor_new t byte_offset;
        r \<leftarrow> cu_get_leaf cu;
        lines \<leftarrow> leaf_start_measure (lines_metric lib) cu;
        units \<leftarrow> leaf_start_measure utf16_metric cu;
        Some (do {
          (leaf, _) \<leftarrow> r;
          start \<leftarrow> leaf_start_offset cu;
          l \<leftarrow> lines;
          u \<leftarrow> units;
          Some (leaf, start, l, u) }) })"

definition chunk_at_line :: "byte_search \<Rightarrow> rope \<Rightarrow> nat \<Rightarrow> (str \<times> nat \<times> nat \<times> nat) option option" where
  "chunk_at_line lib t line =
     (let max_line = node_measure (lines_metric lib) t + 1
      in if line > max_line then Some None
         else do {
           offset \<leftarrow> count_base_units base_metric (lines_metric lib) t line;
           chunk_at_offset lib t offset })"

definition chunk_at_utf16 :: "byte_search \<Rightarrow> rope \<Rightarrow> nat \<Rightarrow> (str \<times> nat \<times> nat \<times> nat) option option" where
  "chunk_at_utf16 lib t utf16_offset =
     (let max_utf16 = node_measure utf16_metric t
      in if utf16_offset > max_utf16 then Some None
         else do {
           offset \<leftarrow> count_base_units base_metric utf16_metric t utf16_offset;
           chunk_at_offset lib t offset })"

definition rope_byte_at :: "byte_search \<Rightarrow> rope \<Rightarrow> nat \<Rightarrow> byte option" where
  "rope_byte_at lib t offset = do {
     cu \<leftarrow> cursor_new t offset;
     r \<leftarrow> cu_get_leaf cu;
     (leaf, pos) \<leftarrow> r;
     list_get leaf pos }"

end
