(* ===== verification/Rope_Cursor_Laws.thy ===== *)
theory Rope_Cursor_Laws
  imports Rope_Cursor
begin

text \<open>
  The cursor walks the leaves of its tree.  A leaf is named by the indices of the children on the path to
  it; a cursor is valid (\<open>cu_at\<close>) when its leaf, the offset of the leaf and the cached entries are those of
  one path.  The lemmas hold for every kind of leaf (\<open>leaf_laws\<close>) and trees of every height, also those
  higher than the cache.
\<close>

section \<open>Paths\<close>

fun node_at :: "('l, 'i) node \<Rightarrow> nat list \<Rightarrow> ('l, 'i) node option" where
  "node_at n [] = Some n"
| "node_at n (i # is) = do { cs \<leftarrow> get_children n; c \<leftarrow> list_get cs i; node_at c is }"

fun offset_at :: "('l, 'i) node \<Rightarrow> nat list \<Rightarrow> nat" where
  "offset_at n [] = 0"
| "offset_at n (i # is) = (case get_children n of
     None \<Rightarrow> 0
   | Some cs \<Rightarrow> sum_list (map n_len (take i cs)) + offset_at (cs ! i) is)"

definition cache_for :: "('l, 'i) node \<Rightarrow> nat list \<Rightarrow> nat \<Rightarrow> (('l, 'i) node \<times> nat) option" where
  "cache_for n is lvl =
     (if lvl < length is
      then map_option (\<lambda>m. (m, is ! (length is - 1 - lvl))) (node_at n (take (length is - 1 - lvl) is))
      else None)"

lemma node_at_append: "node_at n (us @ ds) = node_at n us \<bind> (\<lambda>m. node_at m ds)"
proof (induction us arbitrary: n)
  case (Cons i us)
  then show ?case by (cases "get_children n"; cases "list_get (the (get_children n)) i") auto
qed simp

lemma offset_at_append: "node_at n us = Some m \<Longrightarrow> offset_at n (us @ ds) = offset_at n us + offset_at m ds"
proof (induction us arbitrary: n)
  case (Cons i us)
  then show ?case by (auto simp: bind_eq_Some_conv list_get_def split: if_splits)
qed simp

lemma cache_for_at: "cache_for n (us @ j # ds) (length ds) = map_option (\<lambda>m. (m, j)) (node_at n us)"
  by (simp add: cache_for_def nth_append)

lemma cache_for_below:
  assumes "node_at n us = Some m" "lvl < length ds"
  shows "cache_for n (us @ ds) lvl = cache_for m ds lvl"
proof -
  define q where "q = length ds - 1 - lvl"
  have k: "length (us @ ds) - 1 - lvl = length us + q" using assms(2) by (simp add: q_def)
  show ?thesis unfolding cache_for_def k q_def [symmetric] using assms by (simp add: node_at_append nth_append)
qed

lemma cache_for_above:
  assumes "length ds = length ds'" "length ds \<le> lvl"
  shows "cache_for n (us @ ds) lvl = cache_for n (us @ ds') lvl"
proof (cases "lvl < length us + length ds")
  case True
  then have "length us + length ds - 1 - lvl < length us" using assms(2) by linarith
  then show ?thesis using assms True by (simp add: cache_for_def nth_append)
qed (use assms in \<open>simp add: cache_for_def\<close>)

lemma length_cache_set [simp]: "length (cache_set cache i e) = length cache"
  by (simp add: cache_set_def)

context leaf_laws
begin

lemma children_lens: "(\<And>c. c \<in> set cs \<Longrightarrow> wf c) \<Longrightarrow> sum_list (map n_len cs) = length (concat (map content cs))"
  by (induction cs) (auto simp: wf_len)

text \<open>A node on a path covers the part of the content that begins at the offset of the path.\<close>

lemma node_at_content:
  "wf n \<Longrightarrow> node_at n is = Some m \<Longrightarrow>
    wf m \<and> n_height m + length is = n_height n
    \<and> (\<exists>pre post. content n = pre @ content m @ post \<and> length pre = offset_at n is
        \<and> starts_ok start pre \<and> starts_ok start post \<and> (is \<noteq> [] \<longrightarrow> content m \<noteq> []))"
proof (induction "is" arbitrary: n)
  case Nil
  then show ?case by (auto intro!: exI [of _ "[]"] simp: starts_ok_def)
next
  case (Cons i "is")
  obtain cs where cs: "get_children n = Some cs" "i < length cs" "node_at (cs ! i) is = Some m"
    using Cons.prems(2) by (auto simp: bind_eq_Some_conv list_get_def split: if_splits)
  obtain h where h: "n_height n = Suc h"
  proof (cases "n_height n")
    case 0
    with Cons.prems(1) obtain l where "n = from_leaf ni l" by (metis wf_leaf)
    with cs(1) show thesis by (simp add: from_leaf_def get_children_def)
  qed (use that in blast)
  obtain v where "get_children n = Some v" and v: "\<And>c. c \<in> set v \<Longrightarrow> wf c \<and> ok c \<and> n_height c = h"
    "content n = concat (map content v)"
    using wf_children [OF Cons.prems(1) h] by metis
  then have vcs: "v = cs" using cs(1) by simp
  have ci: "wf (cs ! i)" "ok (cs ! i)" "n_height (cs ! i) = h" using v(1) cs(2) by (auto simp: vcs)
  let ?pre = "concat (map content (take i cs))" and ?post = "concat (map content (drop (Suc i) cs))"
  have "cs = take i cs @ cs ! i # drop (Suc i) cs" using cs(2) by (rule id_take_nth_drop)
  then have split: "content n = ?pre @ content (cs ! i) @ ?post"
    using v(2) vcs by (metis concat.simps(2) concat_append list.map(2) map_append)
  have all: "\<forall>c \<in> set (take i cs) \<union> set (drop (Suc i) cs). wf c"
    using v(1) vcs set_take_subset [of i cs] set_drop_subset [of "Suc i" cs] by fastforce
  have len: "length ?pre = sum_list (map n_len (take i cs))"
    by (rule children_lens [symmetric]) (use all in simp)
  have st: "starts_ok start ?pre" "starts_ok start ?post"
    using all by (auto intro!: starts_ok_concat wf_starts)
  obtain pre post where IH: "wf m" "n_height m + length is = h" "content (cs ! i) = pre @ content m @ post"
    "length pre = offset_at (cs ! i) is" "starts_ok start pre" "starts_ok start post" "is \<noteq> [] \<longrightarrow> content m \<noteq> []"
    using Cons.IH [OF ci(1) cs(3)] ci(3) by auto
  have "content m \<noteq> []" using IH(7) cs(3) wf_ok_nonempty [OF ci(1,2)] by (cases "is") auto
  moreover have "content n = (?pre @ pre) @ content m @ (post @ ?post)" using split IH(3) by simp
  moreover have "length (?pre @ pre) = offset_at n (i # is)" using len IH(4) cs(1) by simp
  ultimately show ?case using IH(1,2,5,6) st h by (intro conjI exI [of _ "?pre @ pre"] exI [of _ "post @ ?post"])
    (auto simp: starts_ok_append)
qed

lemma height_children:
  assumes "wf n" "n_height n = Suc h"
  obtains cs where "get_children n = Some cs" "cs \<noteq> []" "\<And>c. c \<in> set cs \<Longrightarrow> wf c \<and> ok c \<and> n_height c = h"
    "content n = concat (map content cs)"
  using wf_children [OF assms] by (metis not_numeral_le_zero list.size(3))

lemma node_at_leaf:
  assumes "wf n" "node_at n is = Some m" "length is = n_height n"
  obtains l where "m = from_leaf ni l" "linv l" "get_leaf m = Some l" "content m = lc l"
  using node_at_content [OF assms(1,2)] assms(3) wf_leaf [of m] wf_from_leaf(2) by (metis add_eq_self_zero add.commute)


section \<open>Descending\<close>

lemma find_child_spec:
  assumes "cs \<noteq> []" "offset \<le> position"
  shows "\<exists>j < length cs. find_child cs position i offset = Some (i + j, offset + sum_list (map n_len (take j cs)), cs ! j)
    \<and> offset + sum_list (map n_len (take j cs)) \<le> position
    \<and> (position < offset + sum_list (map n_len (take j cs)) + n_len (cs ! j) \<or> j + 1 = length cs)"
  using assms
proof (induction cs position i offset rule: find_child.induct)
  case (3 c c' cs position i offset)
  show ?case
  proof (cases "offset + n_len c > position")
    case True
    with "3.prems" show ?thesis by (intro exI [of _ 0]) auto
  next
    case False
    with "3.IH" obtain j where "j < length (c' # cs)"
      "find_child (c' # cs) position (i + 1) (offset + n_len c)
        = Some (i + 1 + j, offset + n_len c + sum_list (map n_len (take j (c' # cs))), (c' # cs) ! j)"
      "offset + n_len c + sum_list (map n_len (take j (c' # cs))) \<le> position"
      "position < offset + n_len c + sum_list (map n_len (take j (c' # cs))) + n_len ((c' # cs) ! j) \<or> j + 1 = length (c' # cs)"
      by auto
    with False show ?thesis by (intro exI [of _ "Suc j"]) (auto simp: add.assoc)
  qed
qed auto

text \<open>
  The entries that a descent writes: those of the path, up to the size of the cache; the others stay.
\<close>

definition cached :: "(('l, 'i) node \<times> nat) option list \<Rightarrow> ('l, 'i) node \<Rightarrow> nat list
    \<Rightarrow> (('l, 'i) node \<times> nat) option list \<Rightarrow> bool" where
  "cached cache' n is cache \<longleftrightarrow> length cache = CURSOR_CACHE_SIZE \<and> length cache' = CURSOR_CACHE_SIZE
     \<and> (\<forall>lvl < CURSOR_CACHE_SIZE. cache' ! lvl = (if lvl < length is then cache_for n is lvl else cache ! lvl))"

lemma cached_Cons:
  assumes "get_children n = Some cs" "j < length cs" "length cache = CURSOR_CACHE_SIZE"
    and "cached cache' (cs ! j) is (cache_set cache (length is) (n, j))"
  shows "cached cache' n (j # is) cache"
  unfolding cached_def
proof (intro conjI allI impI)
  fix lvl assume lvl: "lvl < CURSOR_CACHE_SIZE"
  have at: "node_at n [j] = Some (cs ! j)" using assms(1,2) by (simp add: list_get_def)
  have step: "cache' ! lvl = (if lvl < length is then cache_for (cs ! j) is lvl else cache_set cache (length is) (n, j) ! lvl)"
    using assms(4) lvl by (simp add: cached_def)
  consider "lvl < length is" | "lvl = length is" | "lvl > length is" by linarith
  then show "cache' ! lvl = (if lvl < length (j # is) then cache_for n (j # is) lvl else cache ! lvl)"
  proof cases
    case 1
    then show ?thesis using step cache_for_below [OF at, of lvl "is"] by simp
  next
    case 2
    then show ?thesis
      using step lvl assms(3) cache_for_at [of n "[]" j "is"] by (simp add: cache_set_def)
  next
    case 3
    then show ?thesis using step assms(3) by (simp add: cache_set_def)
  qed
qed (use assms(3,4) in \<open>auto simp: cached_def\<close>)

lemma descend_loop_spec:
  "wf n \<Longrightarrow> offset \<le> position \<Longrightarrow> position \<le> offset + length (content n) \<Longrightarrow> length cache = CURSOR_CACHE_SIZE \<Longrightarrow>
    \<exists>is l cache'. descend_loop n position offset cache = Some (l, offset + offset_at n is, cache')
      \<and> node_at n is = Some (from_leaf ni l) \<and> length is = n_height n \<and> linv l \<and> cached cache' n is cache
      \<and> offset + offset_at n is \<le> position
      \<and> (position < offset + offset_at n is + length (lc l)
         \<or> position = offset + length (content n) \<and> position = offset + offset_at n is + length (lc l))"
proof (induction "n_height n" arbitrary: n offset cache)
  case 0
  then obtain l where l: "n = from_leaf ni l" "linv l" "get_leaf n = Some l" by (metis wf_leaf)
  with 0 show ?case
    by (intro exI [of _ "[] :: nat list"] exI [of _ l] exI [of _ cache])
      (auto simp: descend_loop.simps [of "from_leaf ni l"] wf_from_leaf cached_def)
next
  case (Suc h)
  obtain cs where cs: "get_children n = Some cs" "cs \<noteq> []" "\<And>c. c \<in> set cs \<Longrightarrow> wf c \<and> ok c \<and> n_height c = h"
    "content n = concat (map content cs)"
    using height_children [OF Suc.prems(1) Suc.hyps(2) [symmetric]] by metis
  let ?off = "\<lambda>j. offset + sum_list (map n_len (take j cs))"
  obtain j where j: "j < length cs" "find_child cs position 0 offset = Some (j, ?off j, cs ! j)" "?off j \<le> position"
    "position < ?off j + n_len (cs ! j) \<or> j + 1 = length cs"
    using find_child_spec [OF cs(2) Suc.prems(2), of 0] by auto
  have c: "wf (cs ! j)" "n_height (cs ! j) = h" using cs(3) j(1) by auto
  have total: "sum_list (map n_len cs) = length (content n)" using cs(3,4) by (simp add: children_lens)
  have last: "?off j + length (content (cs ! j)) = offset + length (content n)" if "j + 1 = length cs"
  proof -
    have "cs = take j cs @ [cs ! j]" using that j(1) id_take_nth_drop [OF j(1)] by simp
    then have "sum_list (map n_len cs) = sum_list (map n_len (take j cs)) + n_len (cs ! j)"
      by (metis (no_types, lifting) list.map(1,2) map_append sum_list.Cons sum_list.Nil sum_list_append add.right_neutral)
    then show ?thesis using total wf_len [OF c(1)] by simp
  qed
  have le: "position \<le> ?off j + length (content (cs ! j))"
    using j(4) last Suc.prems(3) wf_len [OF c(1)] by auto
  obtain "is" l cache' where IH: "descend_loop (cs ! j) position (?off j) (cache_set cache h (n, j))
        = Some (l, ?off j + offset_at (cs ! j) is, cache')"
      "node_at (cs ! j) is = Some (from_leaf ni l)" "length is = h" "linv l"
      "cached cache' (cs ! j) is (cache_set cache h (n, j))" "?off j + offset_at (cs ! j) is \<le> position"
      "position < ?off j + offset_at (cs ! j) is + length (lc l)
         \<or> position = ?off j + length (content (cs ! j)) \<and> position = ?off j + offset_at (cs ! j) is + length (lc l)"
  proof -
    have "length (cache_set cache h (n, j)) = CURSOR_CACHE_SIZE" using Suc.prems(4) by simp
    from Suc.hyps(1) [OF c(2) [symmetric] c(1) j(3) le this] show thesis
      unfolding c(2) by (elim exE conjE) (rule that)
  qed
  have "position = ?off j + length (content (cs ! j)) \<Longrightarrow> position = offset + length (content n)"
    using j(4) last wf_len [OF c(1)] by auto
  moreover have "descend_loop n position offset cache = descend_loop (cs ! j) position (?off j) (cache_set cache h (n, j))"
    using cs(1) j(2) by (simp add: descend_loop.simps [of n] Suc.hyps(2) [symmetric])
  ultimately show ?case
    using IH j(1) cs(1) Suc.hyps(2) cached_Cons [OF cs(1) j(1) Suc.prems(4), of cache' "is"]
    by (intro exI [of _ "j # is"] exI [of _ l] exI [of _ cache']) (auto simp: list_get_def add.assoc)
qed

text \<open>The cursor stands in the leaf \<open>l\<close> at the path \<open>is\<close>.\<close>

definition cu_at :: "('l, 'i) cursor \<Rightarrow> nat list \<Rightarrow> 'l \<Rightarrow> bool" where
  "cu_at cu is l \<longleftrightarrow> wf (cu_root cu) \<and> length is = n_height (cu_root cu)
     \<and> node_at (cu_root cu) is = Some (from_leaf ni l) \<and> linv l
     \<and> cu_leaf cu = Some l \<and> cu_offset_of_leaf cu = offset_at (cu_root cu) is
     \<and> length (cu_cache cu) = CURSOR_CACHE_SIZE
     \<and> (\<forall>lvl < CURSOR_CACHE_SIZE. cu_cache cu ! lvl = cache_for (cu_root cu) is lvl)"

definition cache_clean :: "('l, 'i) cursor \<Rightarrow> bool" where
  "cache_clean cu \<longleftrightarrow> length (cu_cache cu) = CURSOR_CACHE_SIZE
     \<and> (\<forall>lvl < CURSOR_CACHE_SIZE. n_height (cu_root cu) \<le> lvl \<longrightarrow> cu_cache cu ! lvl = None)"

text \<open>The position lies in the leaf; at its end only at the end of the tree.\<close>

definition cu_inside :: "('l, 'i) cursor \<Rightarrow> 'l \<Rightarrow> bool" where
  "cu_inside cu l \<longleftrightarrow> cu_offset_of_leaf cu \<le> cu_position cu
     \<and> (cu_position cu < cu_offset_of_leaf cu + length (lc l)
        \<or> cu_position cu = length (content (cu_root cu)) \<and> cu_position cu = cu_offset_of_leaf cu + length (lc l))"

lemma cu_at_clean: "cu_at cu is l \<Longrightarrow> cache_clean cu"
  by (auto simp: cu_at_def cache_clean_def cache_for_def)

lemma descend_spec:
  assumes "wf (cu_root cu)" "cache_clean cu" "cu_position cu \<le> length (content (cu_root cu))"
  obtains cu' "is" l where "descend cu = Some cu'" "cu_root cu' = cu_root cu" "cu_position cu' = cu_position cu"
    "cu_at cu' is l" "cu_inside cu' l"
proof -
  obtain "is" l cache' where d: "descend_loop (cu_root cu) (cu_position cu) 0 (cu_cache cu) = Some (l, offset_at (cu_root cu) is, cache')"
    "node_at (cu_root cu) is = Some (from_leaf ni l)" "length is = n_height (cu_root cu)" "linv l"
    "cached cache' (cu_root cu) is (cu_cache cu)" "offset_at (cu_root cu) is \<le> cu_position cu"
    "cu_position cu < offset_at (cu_root cu) is + length (lc l)
       \<or> cu_position cu = length (content (cu_root cu)) \<and> cu_position cu = offset_at (cu_root cu) is + length (lc l)"
    using descend_loop_spec [OF assms(1), of 0 "cu_position cu" "cu_cache cu"] assms(2,3)
    by (auto simp: cache_clean_def)
  have "cache' ! lvl = cache_for (cu_root cu) is lvl" if "lvl < CURSOR_CACHE_SIZE" for lvl
    using d(3,5) assms(2) that by (auto simp: cached_def cache_clean_def cache_for_def)
  with d assms(1) show thesis
    by (intro that [of "cu\<lparr>cu_leaf := Some l, cu_offset_of_leaf := offset_at (cu_root cu) is, cu_cache := cache'\<rparr>" "is" l])
      (auto simp: descend_def cu_at_def cu_inside_def cached_def)
qed

lemma cursor_new_spec:
  assumes "wf n" "position \<le> length (content n)"
  obtains cu "is" l where "cursor_new n position = Some cu" "cu_root cu = n" "cu_position cu = position"
    "cu_at cu is l" "cu_inside cu l"
  using assms descend_spec [of "\<lparr>cu_root = n, cu_position = position,
     cu_cache = replicate CURSOR_CACHE_SIZE None, cu_leaf = None, cu_offset_of_leaf = 0\<rparr>"]
  by (auto simp: cursor_new_def cache_clean_def)

lemma cu_at_content:
  assumes "cu_at cu is l"
  obtains pre post where "content (cu_root cu) = pre @ lc l @ post" "length pre = cu_offset_of_leaf cu"
    "starts_ok start pre" "starts_ok start post" "pre \<noteq> [] \<or> post \<noteq> [] \<Longrightarrow> lc l \<noteq> []"
proof -
  note a = assms [unfolded cu_at_def]
  obtain pre post where "content (cu_root cu) = pre @ content (from_leaf ni l) @ post" "length pre = offset_at (cu_root cu) is"
    "starts_ok start pre" "starts_ok start post" "is \<noteq> [] \<longrightarrow> content (from_leaf ni l) \<noteq> []"
    using node_at_content [of "cu_root cu" "is"] a by blast
  moreover have "is = [] \<Longrightarrow> content (cu_root cu) = lc l" using a by (auto simp: wf_from_leaf)
  ultimately show thesis using that a by (auto simp: wf_from_leaf)
qed

lemma leaf_at_spec:
  assumes "wf n" "position \<le> length (content n)"
  shows "\<exists>is l. leaf_at_loop n position 0 = Some (l, offset_at n is) \<and> node_at n is = Some (from_leaf ni l)
    \<and> length is = n_height n \<and> linv l"
proof -
  have eq: "leaf_at_loop n p off = map_option (\<lambda>(l, off, _). (l, off)) (descend_loop n p off cache)" for n p off cache
  proof (induction n p off cache rule: descend_loop.induct)
    case (1 n p off cache)
    then show ?case
      by (auto simp: leaf_at_loop.simps [of n] descend_loop.simps [of n] split: bind_splits)
  qed
  obtain "is" l cache' where "descend_loop n position 0 (replicate CURSOR_CACHE_SIZE None) = Some (l, 0 + offset_at n is, cache')"
    "node_at n is = Some (from_leaf ni l)" "length is = n_height n" "linv l"
    using descend_loop_spec [OF assms(1), of 0 position "replicate CURSOR_CACHE_SIZE None"] assms(2) by auto
  then show ?thesis by (auto simp: eq [of n position 0 "replicate CURSOR_CACHE_SIZE None"])
qed


section \<open>Order of the leaves\<close>

lemma leaf_path_le:
  assumes "wf n" "node_at n is = Some (from_leaf ni l)"
  shows "offset_at n is + length (lc l) \<le> length (content n)"
proof -
  obtain pre post where "content n = pre @ content (from_leaf ni l) @ post" "length pre = offset_at n is"
    using node_at_content [OF assms] by blast
  then show ?thesis by (simp add: wf_from_leaf)
qed

lemma sum_take_mono:
  fixes f :: "'x \<Rightarrow> nat"
  assumes "i < i'" "i < length cs"
  shows "sum_list (map f (take i cs)) + f (cs ! i) \<le> sum_list (map f (take i' cs))"
proof -
  have "take i' cs = take (Suc i) cs @ take (i' - Suc i) (drop (Suc i) cs)"
    using assms(1) by (metis Suc_leI le_add_diff_inverse take_add)
  then show ?thesis using assms(2) by (simp add: take_Suc_conv_app_nth)
qed

lemma path_unique:
  "wf n \<Longrightarrow> node_at n is = Some (from_leaf ni l) \<Longrightarrow> length is = n_height n \<Longrightarrow>
    node_at n is' = Some (from_leaf ni l') \<Longrightarrow> length is' = n_height n \<Longrightarrow>
    offset_at n is \<le> p \<Longrightarrow> p < offset_at n is + length (lc l) \<Longrightarrow>
    offset_at n is' \<le> p \<Longrightarrow> p < offset_at n is' + length (lc l') \<Longrightarrow> is = is'"
proof (induction "is" arbitrary: n is' p)
  case (Cons i "is")
  obtain i' is'' where is': "is' = i' # is''" using Cons.prems(3,5) by (cases is') auto
  define h where "h = length is"
  have h: "n_height n = Suc h" using Cons.prems(3) by (simp add: h_def)
  obtain cs where cs: "get_children n = Some cs" "\<And>c. c \<in> set cs \<Longrightarrow> wf c \<and> ok c \<and> n_height c = h"
    using height_children [OF Cons.prems(1) h] by metis
  have i: "i < length cs" "node_at (cs ! i) is = Some (from_leaf ni l)"
    "i' < length cs" "node_at (cs ! i') is'' = Some (from_leaf ni l')"
    using Cons.prems(2,4) cs(1) by (auto simp: is' bind_eq_Some_conv list_get_def split: if_splits)
  have c: "wf (cs ! i)" "wf (cs ! i')" "n_height (cs ! i) = h" using cs(2) i by auto
  let ?s = "\<lambda>i. sum_list (map n_len (take i cs))"
  have off: "offset_at n (i # is) = ?s i + offset_at (cs ! i) is" "offset_at n is' = ?s i' + offset_at (cs ! i') is''"
    using cs(1) by (simp_all add: is')
  have bound: "offset_at (cs ! i) is + length (lc l) \<le> n_len (cs ! i)"
    "offset_at (cs ! i') is'' + length (lc l') \<le> n_len (cs ! i')"
    using leaf_path_le c i wf_len by metis+
  have "i = i'"
  proof (rule ccontr)
    assume "i \<noteq> i'"
    then consider "i < i'" | "i' < i" by linarith
    then show False
    proof cases
      case 1
      from sum_take_mono [OF 1 i(1), of n_len] bound(1) off Cons.prems(7,8) show False by linarith
    next
      case 2
      from sum_take_mono [OF 2 i(3), of n_len] bound(2) off Cons.prems(6,9) show False by linarith
    qed
  qed
  moreover have "is = is''"
  proof (rule Cons.IH [of "cs ! i" is'' "p - ?s i"])
    show "offset_at (cs ! i) is \<le> p - ?s i" "p - ?s i < offset_at (cs ! i) is + length (lc l)"
      using off(1) Cons.prems(6,7) by linarith+
    show "offset_at (cs ! i) is'' \<le> p - ?s i" "p - ?s i < offset_at (cs ! i) is'' + length (lc l')"
      using off(2) Cons.prems(8,9) \<open>i = i'\<close> by auto
  qed (use c i Cons.prems(3,5) h \<open>i = i'\<close> is' in auto)
  ultimately show ?case by (simp add: is')
qed simp

fun is_last :: "('l, 'i) node \<Rightarrow> nat list \<Rightarrow> bool" where
  "is_last n [] = True"
| "is_last n (i # is) = (case get_children n of
     None \<Rightarrow> False | Some cs \<Rightarrow> i + 1 = length cs \<and> is_last (cs ! i) is)"

lemma is_last_offset:
  "wf n \<Longrightarrow> node_at n is = Some (from_leaf ni l) \<Longrightarrow> length is = n_height n \<Longrightarrow> is_last n is \<Longrightarrow>
    offset_at n is + length (lc l) = length (content n)"
proof (induction "is" arbitrary: n)
  case Nil
  then show ?case by (simp add: wf_from_leaf)
next
  case (Cons i "is")
  define h where "h = length is"
  have h: "n_height n = Suc h" using Cons.prems(3) by (simp add: h_def)
  obtain cs where cs: "get_children n = Some cs" "\<And>c. c \<in> set cs \<Longrightarrow> wf c \<and> ok c \<and> n_height c = h"
    "content n = concat (map content cs)"
    using height_children [OF Cons.prems(1) h] by metis
  have i: "i + 1 = length cs" "is_last (cs ! i) is" "node_at (cs ! i) is = Some (from_leaf ni l)"
    using Cons.prems(2,4) cs(1) by (auto simp: bind_eq_Some_conv list_get_def split: if_splits)
  have c: "wf (cs ! i)" "n_height (cs ! i) = h" using cs(2) i(1) by auto
  have "cs = take i cs @ [cs ! i]" using i(1) id_take_nth_drop [of i cs] by simp
  then have "sum_list (map n_len cs) = sum_list (map n_len (take i cs)) + n_len (cs ! i)"
    by (metis (no_types, lifting) list.map(1,2) map_append sum_list.Cons sum_list.Nil sum_list_append add.right_neutral)
  moreover have "sum_list (map n_len cs) = length (content n)" using cs(2,3) by (simp add: children_lens)
  moreover have "offset_at (cs ! i) is + length (lc l) = n_len (cs ! i)"
    using Cons.IH [OF c(1) i(3) _ i(2)] c Cons.prems(3) h wf_len [OF c(1)] by simp
  ultimately show ?case using cs(1) by simp
qed

lemma down_first_spec:
  "wf m \<Longrightarrow> n_height m = k \<Longrightarrow> k \<le> CURSOR_CACHE_SIZE \<Longrightarrow> length cache = CURSOR_CACHE_SIZE \<Longrightarrow>
    \<exists>l cache'. down_first k m cache = Some (from_leaf ni l, cache') \<and> linv l
      \<and> node_at m (replicate k 0) = Some (from_leaf ni l) \<and> offset_at m (replicate k 0) = 0
      \<and> cached cache' m (replicate k 0) cache"
proof (induction k arbitrary: m cache)
  case 0
  then obtain l where "m = from_leaf ni l" "linv l" by (metis wf_leaf)
  with 0 show ?case by (auto simp: cached_def)
next
  case (Suc k)
  obtain cs where cs: "get_children m = Some cs" "cs \<noteq> []" "\<And>c. c \<in> set cs \<Longrightarrow> wf c \<and> ok c \<and> n_height c = k"
    using height_children [OF Suc.prems(1,2)] by metis
  have c: "wf (cs ! 0)" "n_height (cs ! 0) = k" using cs(2,3) by (auto simp: nth_mem)
  have set: "cache[k := Some (m, 0)] = cache_set cache (length (replicate k (0 :: nat))) (m, 0)"
    using Suc.prems(3) by (simp add: cache_set_def)
  obtain l cache' where IH: "down_first k (cs ! 0) (cache[k := Some (m, 0)]) = Some (from_leaf ni l, cache')" "linv l"
    "node_at (cs ! 0) (replicate k 0) = Some (from_leaf ni l)" "offset_at (cs ! 0) (replicate k 0) = 0"
    "cached cache' (cs ! 0) (replicate k 0) (cache[k := Some (m, 0)])"
    using Suc.IH [OF c, of "cache[k := Some (m, 0)]"] Suc.prems(3,4) by auto
  have "cached cache' m (0 # replicate k 0) cache"
    by (rule cached_Cons [OF cs(1) _ Suc.prems(4)]) (use cs(2) IH(5) set in auto)
  with IH cs show ?case by (auto simp: list_get_def)
qed

lemma down_last_spec:
  "wf m \<Longrightarrow> n_height m = k \<Longrightarrow> k \<le> CURSOR_CACHE_SIZE \<Longrightarrow> length cache = CURSOR_CACHE_SIZE \<Longrightarrow>
    \<exists>l cache' ls. down_last k m cache = Some (from_leaf ni l, cache') \<and> linv l \<and> length ls = k
      \<and> node_at m ls = Some (from_leaf ni l) \<and> is_last m ls \<and> cached cache' m ls cache"
proof (induction k arbitrary: m cache)
  case 0
  then obtain l where "m = from_leaf ni l" "linv l" by (metis wf_leaf)
  with 0 show ?case by (auto simp: cached_def)
next
  case (Suc k)
  obtain cs where cs: "get_children m = Some cs" "cs \<noteq> []" "\<And>c. c \<in> set cs \<Longrightarrow> wf c \<and> ok c \<and> n_height c = k"
    using height_children [OF Suc.prems(1,2)] by metis
  let ?i = "length cs - 1"
  have i: "?i < length cs" "?i + 1 = length cs" using cs(2) by (cases cs; simp)+
  have c: "wf (cs ! ?i)" "n_height (cs ! ?i) = k" using i cs(3) by (auto simp: nth_mem)
  obtain l cache' ls where IH: "down_last k (cs ! ?i) (cache[k := Some (m, ?i)]) = Some (from_leaf ni l, cache')" "linv l"
    "length ls = k" "node_at (cs ! ?i) ls = Some (from_leaf ni l)" "is_last (cs ! ?i) ls"
    "cached cache' (cs ! ?i) ls (cache[k := Some (m, ?i)])"
    using Suc.IH [OF c, of "cache[k := Some (m, ?i)]"] Suc.prems(3,4) by auto
  have "cached cache' m (?i # ls) cache"
    by (rule cached_Cons [OF cs(1) i(1) Suc.prems(4)]) (use IH(3,6) Suc.prems(3) in \<open>simp add: cache_set_def\<close>)
  with IH cs i show ?case by (intro exI [of _ l] exI [of _ cache'] exI [of _ "?i # ls"]) (auto simp: list_get_def Let_def)
qed


section \<open>Moving to the neighbouring leaf\<close>

text \<open>A new entry at level \<open>length ds\<close> and below makes the cache of the changed path.\<close>

lemma cache_for_moved:
  assumes cache: "length cache = CURSOR_CACHE_SIZE" "\<forall>lvl < CURSOR_CACHE_SIZE. cache ! lvl = cache_for n (us @ j # ds) lvl"
    and n: "node_at n us = Some m" "get_children m = Some cs" "j' < length cs"
    and c: "length ds < CURSOR_CACHE_SIZE" "length ds' = length ds"
      "cached cache' (cs ! j') ds' (cache[length ds := Some (m, j')])"
  shows "length cache' = CURSOR_CACHE_SIZE" "\<forall>lvl < CURSOR_CACHE_SIZE. cache' ! lvl = cache_for n (us @ j' # ds') lvl"
proof -
  show "length cache' = CURSOR_CACHE_SIZE" using c(3) by (simp add: cached_def)
  have at: "node_at n (us @ [j']) = Some (cs ! j')" using n by (simp add: node_at_append list_get_def)
  show "\<forall>lvl < CURSOR_CACHE_SIZE. cache' ! lvl = cache_for n (us @ j' # ds') lvl"
  proof (intro allI impI)
    fix lvl assume lvl: "lvl < CURSOR_CACHE_SIZE"
    have step: "cache' ! lvl = (if lvl < length ds' then cache_for (cs ! j') ds' lvl else cache[length ds := Some (m, j')] ! lvl)"
      using c(3) lvl by (simp add: cached_def)
    consider "lvl < length ds'" | "lvl = length ds'" | "lvl > length ds'" by linarith
    then show "cache' ! lvl = cache_for n (us @ j' # ds') lvl"
    proof cases
      case 1
      then show ?thesis using step cache_for_below [OF at, of lvl ds'] by simp
    next
      case 2
      then show ?thesis using step cache(1) lvl c(2) n(1) cache_for_at [of n us j' ds'] by simp
    next
      case 3
      then have "cache_for n (us @ j # ds) lvl = cache_for n (us @ j' # ds') lvl"
        using c(2) by (intro cache_for_above) auto
      with 3 step cache lvl c(2) show ?thesis by simp
    qed
  qed
qed

lemma next_leaf_loop_spec:
  assumes "cu_at cu is l" "cu_position cu = cu_offset_of_leaf cu + length (lc l)"
    "is = us @ ds" "length ds = i" "node_at (cu_root cu) us = Some m" "is_last m ds"
  shows "next_leaf_loop i cu = Some (Inl (cu\<lparr>cu_leaf := None\<rparr>)) \<and> cu_position cu = length (content (cu_root cu))
    \<or> (\<exists>cu' is' l'. next_leaf_loop i cu = Some (Inl cu') \<and> cu_root cu' = cu_root cu \<and> cu_position cu' = cu_position cu
         \<and> cu_at cu' is' l' \<and> cu_offset_of_leaf cu' = cu_position cu \<and> is' \<noteq> [])
    \<or> next_leaf_loop i cu = Some (Inr ())"
  using assms
proof (induction i cu arbitrary: us ds m rule: next_leaf_loop.induct)
  case (1 i cu)
  note at = "1.prems"(1) [unfolded cu_at_def]
  let ?r = "cu_root cu"
  show ?case
  proof (cases "i < CURSOR_CACHE_SIZE")
    case False
    then show ?thesis by (simp add: next_leaf_loop.simps [of i])
  next
    case lt: True
    show ?thesis
    proof (cases us rule: rev_cases)
      case Nil
      then have "cu_cache cu ! i = None" using at lt "1.prems"(3,4) by (simp add: cache_for_def)
      moreover have "cu_position cu = length (content ?r)"
        using is_last_offset [of ?r "is" l] at "1.prems" Nil by auto
      ultimately show ?thesis using lt by (simp add: next_leaf_loop.simps [of i])
    next
      case (snoc us' j)
      obtain n where n: "node_at ?r us' = Some n" "node_at n [j] = Some m"
        using "1.prems"(5) by (auto simp: snoc node_at_append bind_eq_Some_conv)
      then obtain cs where cs: "get_children n = Some cs" "j < length cs" "cs ! j = m"
        by (auto simp: bind_eq_Some_conv list_get_def split: if_splits)
      have path: "is = us' @ j # ds" using "1.prems"(3) snoc by simp
      have entry: "cu_cache cu ! i = Some (n, j)"
        using at lt n(1) cache_for_at [of ?r us' j ds] by (simp add: path "1.prems"(4))
      have wfn: "wf n" "n_height n + length us' = n_height ?r"
        using node_at_content [of ?r us' n] at n(1) by auto
      have hn: "n_height n = Suc i" using wfn(2) at path "1.prems"(4) by simp
      have kids: "c \<in> set cs \<Longrightarrow> wf c \<and> ok c \<and> n_height c = i" for c
        using height_children [OF wfn(1) hn] cs(1) by (metis option.inject)
      show ?thesis
      proof (cases "j + 1 < length cs")
        case False
        then have "is_last n (j # ds)" using cs "1.prems"(6) by simp
        moreover have "next_leaf_loop i cu = next_leaf_loop (i + 1) cu"
          using lt entry cs(1) False by (simp add: next_leaf_loop.simps [of i])
        ultimately show ?thesis
          using "1.IH" [OF lt entry refl cs(1) False "1.prems"(1,2), of us' "j # ds" n] n(1) path "1.prems"(4) by simp
      next
        case True
        have c: "wf (cs ! (j + 1))" "n_height (cs ! (j + 1)) = i" using kids True by (auto simp: nth_mem)
        have len: "length ((cu_cache cu)[i := Some (n, j + 1)]) = CURSOR_CACHE_SIZE" using at by simp
        obtain l' cache' where d: "down_first i (cs ! (j + 1)) ((cu_cache cu)[i := Some (n, j + 1)]) = Some (from_leaf ni l', cache')"
          "linv l'" "node_at (cs ! (j + 1)) (replicate i 0) = Some (from_leaf ni l')" "offset_at (cs ! (j + 1)) (replicate i 0) = 0"
          "cached cache' (cs ! (j + 1)) (replicate i 0) ((cu_cache cu)[i := Some (n, j + 1)])"
          using down_first_spec [OF c _ len] lt by auto
        define is' where "is' = us' @ (j + 1) # replicate i 0"
        define cu' where "cu' = cu\<lparr>cu_cache := cache', cu_leaf := Some l', cu_offset_of_leaf := cu_position cu\<rparr>"
        have run: "next_leaf_loop i cu = Some (Inl cu')"
          using lt entry cs(1) True d(1) by (simp add: next_leaf_loop.simps [of i] cu'_def from_leaf_def get_leaf_def)
        have node: "node_at ?r is' = Some (from_leaf ni l')"
          using n(1) cs(1) True d(3) by (simp add: is'_def node_at_append list_get_def)
        have "offset_at m ds + length (lc l) = length (content m)"
          using is_last_offset [of m ds l] kids [of m] cs at "1.prems"(4,5,6) by (auto simp: "1.prems"(3) node_at_append)
        then have "offset_at m ds + length (lc l) = n_len m" using kids [of m] cs wf_len by auto
        moreover have "offset_at ?r is = offset_at ?r us' + (sum_list (map n_len (take j cs)) + offset_at m ds)"
          unfolding path using offset_at_append [OF n(1)] cs by simp
        moreover have "offset_at ?r is' = offset_at ?r us' + (sum_list (map n_len (take j cs)) + n_len m)"
          unfolding is'_def using offset_at_append [OF n(1)] cs d(4) by (simp add: take_Suc_conv_app_nth)
        ultimately have off: "offset_at ?r is' = cu_position cu" using "1.prems"(2) at by simp
        note moved = cache_for_moved [of "cu_cache cu" ?r us' j ds n cs "j + 1" "replicate i 0" cache']
        have "cu_at cu' is' l'"
          unfolding cu_at_def
          using at node d(2) off moved path n(1) cs(1) True lt "1.prems"(4) d(5)
          by (auto simp: cu'_def is'_def)
        then show ?thesis using run off by (intro disjI2 disjI1) (auto simp: cu'_def is'_def)
      qed
    qed
  qed
qed

text \<open>
  Two leaves whose ranges share a place are the same leaf, so a leaf that holds the place behind another
  one begins there.
\<close>

lemma cu_at_nonempty:
  assumes "cu_at cu is l" "is \<noteq> [] \<or> length (lc l) < length (content (cu_root cu))"
  shows "lc l \<noteq> []"
proof -
  obtain pre post where c: "content (cu_root cu) = pre @ content (from_leaf ni l) @ post"
    "is \<noteq> [] \<longrightarrow> content (from_leaf ni l) \<noteq> []"
    using node_at_content [of "cu_root cu" "is" "from_leaf ni l"] assms(1) unfolding cu_at_def by blast
  have "is = [] \<Longrightarrow> content (cu_root cu) = lc l" using assms(1) by (auto simp: cu_at_def wf_from_leaf)
  with c assms show ?thesis by (auto simp: cu_at_def wf_from_leaf)
qed

lemma cu_at_le:
  assumes "cu_at cu is l"
  shows "cu_offset_of_leaf cu + length (lc l) \<le> length (content (cu_root cu))"
  using assms leaf_path_le [of "cu_root cu" "is" l] by (simp add: cu_at_def)

lemma cu_at_unique:
  assumes "cu_at cu is l" "cu_at cu' is' l'" "cu_root cu' = cu_root cu"
    "cu_offset_of_leaf cu \<le> p" "p < cu_offset_of_leaf cu + length (lc l)"
    "cu_offset_of_leaf cu' \<le> p" "p < cu_offset_of_leaf cu' + length (lc l')"
  shows "cu_offset_of_leaf cu' = cu_offset_of_leaf cu" "length (lc l') = length (lc l)"
proof -
  have "is = is'" using assms path_unique [of "cu_root cu" "is" l is' l' p] unfolding cu_at_def by metis
  then show "cu_offset_of_leaf cu' = cu_offset_of_leaf cu" "length (lc l') = length (lc l)"
    using assms(1-3) wf_from_leaf(2) unfolding cu_at_def by (metis, metis option.inject)
qed

lemma cu_at_position: "cu_at (cu\<lparr>cu_position := p\<rparr>) is l \<longleftrightarrow> cu_at cu is l"
  by (simp add: cu_at_def)

lemma next_leaf_spec:
  assumes "cu_at cu is l"
  defines "p \<equiv> cu_offset_of_leaf cu + length (lc l)"
  obtains (last) cu' where "next_leaf ni cu = Some (cu', None)" "p = length (content (cu_root cu))"
      "cu_root cu' = cu_root cu" "cu_position cu' = p" "cu_leaf cu' = None" "cache_clean cu'"
  | (step) cu' is' l' where "next_leaf ni cu = Some (cu', Some (l', 0))" "p < length (content (cu_root cu))"
      "cu_root cu' = cu_root cu" "cu_position cu' = p" "cu_at cu' is' l'" "cu_offset_of_leaf cu' = p" "lc l' \<noteq> []"
proof -
  note at = assms(1) [unfolded cu_at_def]
  define c where "c = cu\<lparr>cu_position := p\<rparr>"
  have c: "cu_root c = cu_root cu" "cu_position c = p" "cu_offset_of_leaf c = cu_offset_of_leaf cu" "cu_leaf c = Some l"
    "cu_at c is l"
    using assms(1) by (simp_all add: c_def cu_at_position) (simp add: cu_at_def)
  have len: "leaf_len ni l = length (lc l)" using at leaf_len by simp
  have run: "next_leaf ni cu = next_leaf_loop 0 c \<bind> (\<lambda>r. case r of
      Inl cu \<Rightarrow> do { res \<leftarrow> cu_get_leaf cu; Some (cu, res) }
    | Inr _ \<Rightarrow> if p = n_len (cu_root c) then Some (c\<lparr>cu_leaf := None\<rparr>, None)
           else do { cu \<leftarrow> descend c; res \<leftarrow> cu_get_leaf cu; Some (cu, res) })"
    unfolding c_def p_def next_leaf_def Let_def using at len by (simp cong: sum.case_cong)
  have loop: "next_leaf_loop 0 c = Some (Inl (c\<lparr>cu_leaf := None\<rparr>)) \<and> p = length (content (cu_root cu))
    \<or> (\<exists>cu' is' l'. next_leaf_loop 0 c = Some (Inl cu') \<and> cu_root cu' = cu_root cu \<and> cu_position cu' = p
         \<and> cu_at cu' is' l' \<and> cu_offset_of_leaf cu' = p \<and> is' \<noteq> [])
    \<or> next_leaf_loop 0 c = Some (Inr ())"
    using next_leaf_loop_spec [of c "is" l "is" "[]" 0 "from_leaf ni l"] c at by (simp add: p_def)
  have none: "cache_clean (c\<lparr>cu_leaf := None\<rparr>)" using cu_at_clean [OF c(5)] by (simp add: cache_clean_def)
  from loop consider (A) "next_leaf_loop 0 c = Some (Inl (c\<lparr>cu_leaf := None\<rparr>))" "p = length (content (cu_root cu))"
    | (B) cu' is' l' where "next_leaf_loop 0 c = Some (Inl cu')" "cu_root cu' = cu_root cu" "cu_position cu' = p"
       "cu_at cu' is' l'" "cu_offset_of_leaf cu' = p" "is' \<noteq> []"
    | (C) "next_leaf_loop 0 c = Some (Inr ())" by blast
  then show thesis
  proof cases
    case A
    with run c none show thesis by (intro last [of "c\<lparr>cu_leaf := None\<rparr>"]) (simp_all add: cu_get_leaf_def)
  next
    case B
    then have "lc l' \<noteq> []" "p < length (content (cu_root cu))"
      using cu_at_nonempty [OF B(4)] cu_at_le [OF B(4)] by (auto simp flip: length_greater_0_conv)
    with B run show thesis by (intro step [of cu' l' is']) (auto simp: cu_get_leaf_def cu_at_def)
  next
    case C
    have n: "n_len (cu_root c) = length (content (cu_root cu))" using at c(1) wf_len by simp
    have le: "p \<le> length (content (cu_root cu))" using cu_at_le [OF assms(1)] p_def by simp
    show thesis
    proof (cases "p = length (content (cu_root cu))")
      case True
      with run C n c none show thesis by (intro last [of "c\<lparr>cu_leaf := None\<rparr>"]) simp_all
    next
      case False
      obtain cu' is' l' where d: "descend c = Some cu'" "cu_root cu' = cu_root c" "cu_position cu' = cu_position c"
        "cu_at cu' is' l'" "cu_inside cu' l'"
        using descend_spec [of c] at c le cu_at_clean [OF c(5)] by (metis (no_types, lifting))
      have ins: "cu_offset_of_leaf cu' \<le> p" "p < cu_offset_of_leaf cu' + length (lc l')"
        using d c False by (auto simp: cu_inside_def)
      have ne: "lc l \<noteq> []" by (rule cu_at_nonempty [OF assms(1)]) (use False le p_def in linarith)
      have "cu_offset_of_leaf cu' = p"
      proof (rule ccontr)
        assume "cu_offset_of_leaf cu' \<noteq> p"
        then have "cu_offset_of_leaf cu' \<le> p - 1" "p - 1 < cu_offset_of_leaf cu' + length (lc l')" using ins by auto
        moreover have "cu_offset_of_leaf cu \<le> p - 1" "p - 1 < p" using ne by (cases "lc l"; simp add: p_def)+
        ultimately show False
          using cu_at_unique [OF assms(1) d(4), of "p - 1"] d(2) c(1) ins(2) by (simp add: p_def)
      qed
      with False C run n c d ins le show thesis
        by (intro step [of cu' l' is']) (auto simp: cu_get_leaf_def cu_at_def)
    qed
  qed
qed

lemma offset_at_zeros: "\<forall>i \<in> set ds. i = 0 \<Longrightarrow> offset_at m ds = 0"
  by (induction ds arbitrary: m) (auto split: option.splits)

lemma prev_leaf_loop_spec:
  assumes "cu_at cu is l" "is = us @ ds" "length ds = i" "\<forall>i \<in> set ds. i = 0" "cu_offset_of_leaf cu \<noteq> 0"
  shows "(\<exists>cu' is' l'. prev_leaf_loop ni i cu = Some (Inl cu') \<and> cu_root cu' = cu_root cu \<and> cu_at cu' is' l'
      \<and> cu_position cu' = cu_offset_of_leaf cu' \<and> cu_offset_of_leaf cu' + length (lc l') = cu_offset_of_leaf cu)
    \<or> prev_leaf_loop ni i cu = Some (Inr ())"
  using assms
proof (induction "CURSOR_CACHE_SIZE - i" arbitrary: i us ds rule: less_induct)
  case less
  note at = less.prems(1) [unfolded cu_at_def]
  let ?r = "cu_root cu"
  show ?case
  proof (cases "i < CURSOR_CACHE_SIZE")
    case False
    then show ?thesis by (simp add: prev_leaf_loop.simps [of _ i])
  next
    case lt: True
    show ?thesis
    proof (cases us rule: rev_cases)
      case Nil
      then show ?thesis using offset_at_zeros [OF less.prems(4), of ?r] at less.prems(2,5) by simp
    next
      case (snoc us' j)
      have path: "is = us' @ j # ds" using less.prems(2) snoc by simp
      obtain n m where n: "node_at ?r us' = Some n" "node_at n [j] = Some m" "node_at m ds = Some (from_leaf ni l)"
        using at by (auto simp: path node_at_append bind_eq_Some_conv)
      then obtain cs where cs: "get_children n = Some cs" "j < length cs" "cs ! j = m"
        by (auto simp: bind_eq_Some_conv list_get_def split: if_splits)
      have entry: "cu_cache cu ! i = Some (n, j)"
        using at lt n(1) cache_for_at [of ?r us' j ds] by (simp add: path less.prems(3))
      have wfn: "wf n" "n_height n + length us' = n_height ?r"
        using node_at_content [of ?r us' n] at n(1) by auto
      have hn: "n_height n = Suc i" using wfn(2) at path less.prems(3) by simp
      have kids: "c \<in> set cs \<Longrightarrow> wf c \<and> ok c \<and> n_height c = i" for c
        using height_children [OF wfn(1) hn] cs(1) by (metis option.inject)
      show ?thesis
      proof (cases "j > 0")
        case False
        then have "prev_leaf_loop ni i cu = prev_leaf_loop ni (i + 1) cu"
          using lt entry by (simp add: prev_leaf_loop.simps [of _ i])
        then show ?thesis
          using less.hyps [OF _ less.prems(1), of "i + 1" us' "j # ds"] lt path less.prems(3,4,5) False by simp
      next
        case True
        have c: "wf (cs ! (j - 1))" "n_height (cs ! (j - 1)) = i" "j - 1 < length cs"
          using kids cs(2) by (auto simp: nth_mem)
        have len: "length ((cu_cache cu)[i := Some (n, j - 1)]) = CURSOR_CACHE_SIZE" using at by simp
        obtain l' cache' ls where d: "down_last i (cs ! (j - 1)) ((cu_cache cu)[i := Some (n, j - 1)]) = Some (from_leaf ni l', cache')"
          "linv l'" "length ls = i" "node_at (cs ! (j - 1)) ls = Some (from_leaf ni l')" "is_last (cs ! (j - 1)) ls"
          "cached cache' (cs ! (j - 1)) ls ((cu_cache cu)[i := Some (n, j - 1)])"
          using down_last_spec [OF c(1,2) _ len] lt by auto
        define is' where "is' = us' @ (j - 1) # ls"
        have node: "node_at ?r is' = Some (from_leaf ni l')"
          using n(1) cs(1) c(3) d(4) by (simp add: is'_def node_at_append list_get_def)
        have "offset_at (cs ! (j - 1)) ls + length (lc l') = n_len (cs ! (j - 1))"
          using is_last_offset [OF c(1) d(4) _ d(5)] c wf_len d(3) by simp
        moreover have "offset_at ?r is = offset_at ?r us' + sum_list (map n_len (take j cs))"
          unfolding path using offset_at_append [OF n(1)] cs offset_at_zeros [OF less.prems(4)] by simp
        moreover have "offset_at ?r is' = offset_at ?r us' + (sum_list (map n_len (take (j - 1) cs)) + offset_at (cs ! (j - 1)) ls)"
          unfolding is'_def using offset_at_append [OF n(1)] cs by simp
        moreover have "take j cs = take (j - 1) cs @ [cs ! (j - 1)]"
          using take_Suc_conv_app_nth [OF c(3)] True by simp
        ultimately have off: "offset_at ?r is' + length (lc l') = cu_offset_of_leaf cu" using at by simp
        define cu' where "cu' = cu\<lparr>cu_cache := cache', cu_leaf := Some l', cu_offset_of_leaf := offset_at ?r is',
          cu_position := offset_at ?r is'\<rparr>"
        have sub: "usize_sub (cu_offset_of_leaf cu) (leaf_len ni l') = Some (offset_at ?r is')"
          using off leaf_len [OF d(2)] by (simp add: usize_sub_def)
        have run: "prev_leaf_loop ni i cu = Some (Inl cu')"
          using lt entry cs(1,2) True d(1) sub
          by (auto simp: prev_leaf_loop.simps [of _ i] cu'_def from_leaf_def get_leaf_def list_get_def rassert_def)
        note moved = cache_for_moved [of "cu_cache cu" ?r us' j ds n cs "j - 1" ls cache']
        have "cu_at cu' is' l'"
          unfolding cu_at_def
          using at node d(2,3) moved path n(1) cs(1) c(3) lt less.prems(3) d(6)
          by (auto simp: cu'_def is'_def)
        then show ?thesis using run off by (intro disjI1) (auto simp: cu'_def)
      qed
    qed
  qed
qed

lemma prev_leaf_spec:
  assumes "cu_at cu is l"
  obtains (first) "prev_leaf ni cu = Some (cu\<lparr>cu_leaf := None, cu_position := 0\<rparr>, None)" "cu_offset_of_leaf cu = 0"
  | (step) cu' is' l' where "prev_leaf ni cu = Some (cu', Some (l', 0))" "cu_offset_of_leaf cu \<noteq> 0"
      "cu_root cu' = cu_root cu" "cu_at cu' is' l'" "cu_position cu' = cu_offset_of_leaf cu'"
      "cu_offset_of_leaf cu' + length (lc l') = cu_offset_of_leaf cu"
proof (cases "cu_offset_of_leaf cu = 0")
  case True
  then show thesis by (intro first) (simp_all add: prev_leaf_def)
next
  case False
  note at = assms(1) [unfolded cu_at_def]
  from prev_leaf_loop_spec [OF assms(1), of "is" "[]" 0] False
  consider (A) cu' is' l' where "prev_leaf_loop ni 0 cu = Some (Inl cu')" "cu_root cu' = cu_root cu" "cu_at cu' is' l'"
      "cu_position cu' = cu_offset_of_leaf cu'" "cu_offset_of_leaf cu' + length (lc l') = cu_offset_of_leaf cu"
    | (B) "prev_leaf_loop ni 0 cu = Some (Inr ())" by auto
  then show thesis
  proof cases
    case A
    with False show thesis by (intro step [of cu' l' is']) (auto simp: prev_leaf_def cu_get_leaf_def cu_at_def)
  next
    case B
    define c where "c = cu\<lparr>cu_position := cu_offset_of_leaf cu - 1\<rparr>"
    have c: "cu_at c is l" "cu_root c = cu_root cu" "cu_position c = cu_offset_of_leaf cu - 1"
      using assms by (simp_all add: c_def cu_at_position)
    have le: "cu_position c < cu_offset_of_leaf cu" "cu_position c \<le> length (content (cu_root c))"
      using cu_at_le [OF assms] c False by simp_all
    obtain cu' is' l' where d: "descend c = Some cu'" "cu_root cu' = cu_root c" "cu_position cu' = cu_position c"
      "cu_at cu' is' l'" "cu_inside cu' l'"
      using descend_spec [of c] at c le cu_at_clean [OF c(1)] by (metis (no_types, lifting))
    have ins: "cu_offset_of_leaf cu' \<le> cu_position c" "cu_position c < cu_offset_of_leaf cu' + length (lc l')"
      using d c False cu_at_le [OF assms] le(1) by (auto simp: cu_inside_def)
    have "cu_offset_of_leaf cu' + length (lc l') = cu_offset_of_leaf cu"
    proof (rule ccontr)
      let ?p = "cu_offset_of_leaf cu"
      assume "cu_offset_of_leaf cu' + length (lc l') \<noteq> ?p"
      then have p': "cu_offset_of_leaf cu' \<le> ?p" "?p < cu_offset_of_leaf cu' + length (lc l')" using ins c(3) False by auto
      have "lc l \<noteq> []"
      proof (rule cu_at_nonempty [OF assms(1)], rule disjI2)
        show "length (lc l) < length (content (cu_root cu))" using cu_at_le [OF assms] False by linarith
      qed
      then have "?p < ?p + length (lc l)" by simp
      then show False
        using cu_at_unique [OF assms(1) d(4) _ _ _ p'] d(2) c(2) ins(1) le(1) by simp
    qed
    moreover have "prev_leaf ni cu = Some (cu'\<lparr>cu_position := cu_offset_of_leaf cu'\<rparr>, Some (l', 0))"
      using False B d(1,4) by (simp add: prev_leaf_def c_def cu_get_leaf_def cu_at_def)
    ultimately show thesis using False d c(2)
      by (intro step [of "cu'\<lparr>cu_position := cu_offset_of_leaf cu'\<rparr>" l' is']) (simp_all add: cu_at_position)
  qed
qed

end


section \<open>Boundaries of a rope\<close>

text \<open>\<open>p\<close> and \<open>q\<close> are neighbouring boundaries of the text.\<close>

definition next_boundary :: "str \<Rightarrow> nat \<Rightarrow> nat \<Rightarrow> bool" where
  "next_boundary s p q \<longleftrightarrow> p < q \<and> is_char_boundary s q \<and> (\<forall>i. p < i \<longrightarrow> i < q \<longrightarrow> \<not> is_char_boundary s i)"

definition prev_boundary :: "str \<Rightarrow> nat \<Rightarrow> nat \<Rightarrow> bool" where
  "prev_boundary s p q \<longleftrightarrow> q < p \<and> is_char_boundary s q \<and> (\<forall>i. q < i \<longrightarrow> i < p \<longrightarrow> \<not> is_char_boundary s i)"

lemma prev_boundary_unique: "prev_boundary s p q \<Longrightarrow> prev_boundary s p q' \<Longrightarrow> q = q'"
  unfolding prev_boundary_def by (metis linorder_neqE_nat)

lemma next_prev_boundary: "is_char_boundary s p \<Longrightarrow> next_boundary s p q \<longleftrightarrow> prev_boundary s q p \<and> is_char_boundary s q"
  by (auto simp: next_boundary_def prev_boundary_def)

lemma cut_ok_middle:
  assumes "starts_ok st zs" "k \<le> length ys"
  shows "cut_ok st (xs @ ys @ zs) (length xs + k) \<longleftrightarrow> cut_ok st ys k"
proof (cases "k < length ys")
  case False
  with assms have "k = length ys" by simp
  with assms(1) show ?thesis by (cases zs) (auto simp: cut_ok_def starts_ok_def nth_append)
qed (auto simp: cut_ok_def nth_append)

text \<open>The first character of a valid text has the length that its first byte tells.\<close>

lemma utf8_first: "utf8_valid s \<Longrightarrow> s \<noteq> [] \<Longrightarrow> \<exists>c r. utf8_char c \<and> s = c @ r \<and> utf8_valid r"
  by (induction rule: utf8_induct) auto

lemma char_next_spec:
  assumes "utf8_valid s" "is_char_boundary s k" "k < length s"
  obtains q where "char_next s k = Some (Some q)" "next_boundary s k q"
proof -
  have v: "utf8_valid (drop k s)" "drop k s \<noteq> []" using utf8_valid_cut [OF assms(1,2)] assms(3) by auto
  obtain c r where c: "utf8_char c" "drop k s = c @ r" "utf8_valid r" using utf8_first [OF v] by metis
  obtain a t where a: "c = a # t" "len_utf8_from_first_byte a = length c" "\<forall>b \<in> set t. is_cont b"
    using c(1) by (rule utf8_char_lead)
  have s: "s = take k s @ c @ r" using c(2) by (metis append_take_drop_id)
  have nth: "s ! (k + i) = (c @ r) ! i" for i
    using c(2) assms(3) by (metis less_imp_le_nat nth_drop)
  have len: "length s = k + length c + length r" using s assms(3)
    by (metis add.assoc length_append length_take min.absorb2 less_imp_le_nat)
  have "list_get s k = Some a" using nth [of 0] a(1) assms(3) by (simp add: list_get_def)
  then have run: "char_next s k = Some (Some (k + length c))" using a(2) assms(3) by (simp add: char_next_def)
  have "\<not> is_char_boundary s i" if "k < i" "i < k + length c" for i
  proof -
    obtain j where j: "i = k + Suc j" using \<open>k < i\<close> less_imp_Suc_add [of k i] by auto
    then have "s ! i = t ! j" "j < length t" using nth [of "Suc j"] that(2) a(1) by (auto simp: nth_append)
    then have "is_cont (s ! i)" using a(3) by simp
    then show ?thesis using that len by (auto simp: is_char_boundary_def)
  qed
  moreover have "is_char_boundary s (k + length c)"
    using utf8_valid_lead [OF c(3)] nth [of "length c"] len
    by (cases r) (auto simp: is_char_boundary_def starts_ok_def nth_append)
  ultimately show thesis using that [OF run] a(1) by (simp add: next_boundary_def)
qed

lemma char_prev_spec:
  assumes "0 < k"
  obtains q where "char_prev s k = Some (Some q)" "prev_boundary s k q"
proof (rule that)
  show "char_prev s k = Some (Some (clamp_loop s (k - 1)))" using assms by (simp add: char_prev_def)
  show "prev_boundary s k (clamp_loop s (k - 1))"
    unfolding prev_boundary_def
  proof (intro conjI allI impI notI)
    fix i assume "clamp_loop s (k - 1) < i" "i < k" "is_char_boundary s i"
    then show False using clamp_loop_spec [of s "k - 1"] by fastforce
  qed (use clamp_loop_spec [of s "k - 1"] assms in auto)
qed

context byte_search_laws
begin

lemma leaf_boundary:
  assumes "rope_ok lib (cu_root cu)" "str.cu_at cu is l" "k \<le> length l"
  shows "is_char_boundary (node_content id (cu_root cu)) (cu_offset_of_leaf cu + k) \<longleftrightarrow> is_char_boundary l k"
proof -
  obtain pre post where c: "node_content id (cu_root cu) = pre @ id l @ post" "length pre = cu_offset_of_leaf cu"
    "starts_ok is_lead post"
    using str.cu_at_content [OF assms(2)] by blast
  have "utf8_valid l" using assms(2) by (simp add: str.cu_at_def str_leaf_wf_def)
  then show ?thesis
    using cut_ok_middle [OF c(3) assms(3), of pre] rope_valid [OF assms(1)] c by (simp flip: cut_lead)
qed

lemma leaf_next_boundary:
  assumes "rope_ok lib (cu_root cu)" "str.cu_at cu is l" "q \<le> length l" "next_boundary l k q"
  shows "next_boundary (node_content id (cu_root cu)) (cu_offset_of_leaf cu + k) (cu_offset_of_leaf cu + q)"
  unfolding next_boundary_def
proof (intro conjI allI impI)
  fix i assume i: "cu_offset_of_leaf cu + k < i" "i < cu_offset_of_leaf cu + q"
  then obtain j where "i = cu_offset_of_leaf cu + j" "k < j" "j < q"
    by (metis add_less_cancel_left le_add1 less_imp_le_nat nat_le_iff_add order_trans)
  then show "\<not> is_char_boundary (node_content id (cu_root cu)) i"
    using leaf_boundary [OF assms(1,2), of j] assms(3,4) by (simp add: next_boundary_def)
qed (use assms leaf_boundary [OF assms(1-3)] in \<open>auto simp: next_boundary_def\<close>)

lemma leaf_prev_boundary:
  assumes "rope_ok lib (cu_root cu)" "str.cu_at cu is l" "k \<le> length l" "prev_boundary l k q"
  shows "prev_boundary (node_content id (cu_root cu)) (cu_offset_of_leaf cu + k) (cu_offset_of_leaf cu + q)"
  unfolding prev_boundary_def
proof (intro conjI allI impI)
  fix i assume i: "cu_offset_of_leaf cu + q < i" "i < cu_offset_of_leaf cu + k"
  then obtain j where "i = cu_offset_of_leaf cu + j" "q < j" "j < k"
    by (metis add_less_cancel_left le_add1 less_imp_le_nat nat_le_iff_add order_trans)
  then show "\<not> is_char_boundary (node_content id (cu_root cu)) i"
    using leaf_boundary [OF assms(1,2), of j] assms(3,4) by (simp add: prev_boundary_def)
qed (use assms leaf_boundary [OF assms(1,2), of q] in \<open>auto simp: prev_boundary_def\<close>)

lemma is_codepoint_boundary_spec:
  assumes "rope_ok lib t" "p \<le> n_len t"
  shows "is_codepoint_boundary lib t p = Some (is_char_boundary (node_content id t) p)"
proof -
  have le: "p \<le> length (node_content id t)" using assms str.wf_len by simp
  obtain cu "is" l where cu: "cursor_new t p = Some cu" "cu_root cu = t" "cu_position cu = p"
    "str.cu_at cu is l" "str.cu_inside cu l"
    using str.cursor_new_spec [OF assms(1) le] by metis
  have ins: "cu_offset_of_leaf cu \<le> p" "p - cu_offset_of_leaf cu \<le> length l"
    using cu(3,5) by (auto simp: str.cu_inside_def)
  note b = leaf_boundary [of cu, unfolded cu(2), OF assms(1) cu(4) ins(2)]
  have "cursor_is_boundary (rope_ni lib) base_metric cu = Some (is_char_boundary l (p - cu_offset_of_leaf cu))"
    using cu(3,4) ins by (auto simp: cursor_is_boundary_def base_metric_def str.cu_at_def)
  then show ?thesis using b ins(1) cu(1) by (simp add: is_codepoint_boundary_def)
qed

lemma next_codepoint_offset_spec:
  assumes "rope_ok lib t" "p < n_len t" "is_char_boundary (node_content id t) p"
  obtains q where "next_codepoint_offset lib t p = Some (Some q)" "next_boundary (node_content id t) p q"
proof -
  have len: "n_len t = length (node_content id t)" using assms str.wf_len by simp
  obtain cu "is" l where cu: "cursor_new t p = Some cu" "cu_root cu = t" "cu_position cu = p"
    "str.cu_at cu is l" "str.cu_inside cu l"
    using str.cursor_new_spec [OF assms(1), of p] assms(2) len by (metis less_imp_le_nat)
  let ?k = "p - cu_offset_of_leaf cu"
  have ins: "cu_offset_of_leaf cu \<le> p" "?k < length l" using cu(2,3,5) assms(2) len by (auto simp: str.cu_inside_def)
  have l: "utf8_valid l" "cu_leaf cu = Some l" using cu(4) by (auto simp: str.cu_at_def str_leaf_wf_def)
  have "is_char_boundary l ?k"
    using leaf_boundary [of cu "is" l ?k] assms(1,3) cu(2,4) ins by simp
  from char_next_spec [OF l(1) this ins(2)]
  obtain q where q: "char_next l ?k = Some (Some q)" "next_boundary l ?k q" by metis
  have le: "q \<le> length l" using q(2) by (auto simp: next_boundary_def dest: is_char_boundary_le)
  have "\<exists>cu'. next_inside_leaf (rope_ni lib) base_metric cu = Some (cu', Some (cu_offset_of_leaf cu + q))"
  proof (cases "q = length l \<and> cu_offset_of_leaf cu + q \<noteq> n_len t")
    case True
    from str.next_leaf_spec [OF cu(4)]
    obtain cu' r where "next_leaf (rope_ni lib) cu = Some (cu', r)" "cu_position cu' = cu_offset_of_leaf cu + length l"
      by (metis id_apply)
    with True q(1) l(2) ins(1) cu(2,3) show ?thesis
      by (simp add: next_inside_leaf_def base_metric_def rope_ni_def)
  next
    case False
    with q(1) l(2) ins(1) cu(2,3) show ?thesis
      by (auto simp: next_inside_leaf_def base_metric_def rope_ni_def)
  qed
  then have "next_codepoint_offset lib t p = Some (Some (cu_offset_of_leaf cu + q))"
    using cu(1-3) l(2) assms(2) by (auto simp: next_codepoint_offset_def cursor_next_def)
  moreover have "next_boundary (node_content id t) p (cu_offset_of_leaf cu + q)"
    using leaf_next_boundary [of cu "is" l q ?k] assms(1) cu(2,4) le q(2) ins(1) by simp
  ultimately show thesis by (rule that)
qed

lemma prev_codepoint_offset_spec:
  assumes "rope_ok lib t" "0 < p" "p \<le> n_len t"
  obtains q where "prev_codepoint_offset lib t p = Some (Some q)" "prev_boundary (node_content id t) p q"
proof -
  have len: "n_len t = length (node_content id t)" using assms str.wf_len by simp
  obtain cu "is" l where cu: "cursor_new t p = Some cu" "cu_root cu = t" "cu_position cu = p"
    "str.cu_at cu is l" "str.cu_inside cu l"
    using str.cursor_new_spec [OF assms(1), of p] assms(3) len by metis
  let ?k = "p - cu_offset_of_leaf cu"
  have ins: "cu_offset_of_leaf cu \<le> p" "?k \<le> length l" using cu(3,5) by (auto simp: str.cu_inside_def)
  have leaf: "cu_leaf cu = Some l" using cu(4) by (simp add: str.cu_at_def)
  show thesis
  proof (cases "?k = 0")
    case False
    then obtain q where q: "char_prev l ?k = Some (Some q)" "prev_boundary l ?k q"
      using char_prev_spec [of ?k l] by auto
    have "prev_codepoint_offset lib t p = Some (Some (cu_offset_of_leaf cu + q))"
      using cu(1-3) q(1) False ins(1) leaf assms(2)
      by (auto simp: prev_codepoint_offset_def cursor_prev_def base_metric_def)
    moreover have "prev_boundary (node_content id t) p (cu_offset_of_leaf cu + q)"
      using leaf_prev_boundary [of cu "is" l ?k q] assms(1) cu(2,4) ins q(2) by simp
    ultimately show thesis by (rule that)
  next
    case True
    then have p: "cu_offset_of_leaf cu = p" using ins(1) by simp
    then obtain cu' is' l' where s: "prev_leaf (rope_ni lib) cu = Some (cu', Some (l', 0))" "cu_root cu' = t"
      "str.cu_at cu' is' l'" "cu_offset_of_leaf cu' + length l' = p"
      using str.prev_leaf_spec [OF cu(4)] assms(2) cu(2) by (metis id_apply less_not_refl)
    have "l' \<noteq> []"
    proof
      assume e: "l' = []"
      have "id l' \<noteq> []"
        by (rule str.cu_at_nonempty [OF s(3)], rule disjI2) (use e s(2) assms(2,3) len in \<open>cases "node_content id t"; simp\<close>)
      with e show False by simp
    qed
    then obtain q where q: "char_prev l' (length l') = Some (Some q)" "prev_boundary l' (length l') q"
      using char_prev_spec [of "length l'" l'] by auto
    have "cu_leaf cu' = Some l'" using s(3) by (simp add: str.cu_at_def)
    then have "prev_codepoint_offset lib t p = Some (Some (cu_offset_of_leaf cu' + q))"
      using cu(1-3) q(1) p s(1,4) leaf assms(2)
      by (auto simp: prev_codepoint_offset_def cursor_prev_def last_inside_leaf_def base_metric_def rope_ni_def)
    moreover have "prev_boundary (node_content id t) p (cu_offset_of_leaf cu' + q)"
      using leaf_prev_boundary [of cu' is' l' "length l'" q] assms(1) s q(2) by simp
    ultimately show thesis by (rule that)
  qed
qed

lemma rope_byte_at_spec:
  assumes "rope_ok lib t" "p < n_len t"
  shows "rope_byte_at lib t p = Some (node_content id t ! p)"
proof -
  have len: "n_len t = length (node_content id t)" using assms str.wf_len by simp
  obtain cu "is" l where cu: "cursor_new t p = Some cu" "cu_root cu = t" "cu_position cu = p"
    "str.cu_at cu is l" "str.cu_inside cu l"
    using str.cursor_new_spec [OF assms(1), of p] assms(2) len by (metis less_imp_le_nat)
  have ins: "cu_offset_of_leaf cu \<le> p" "p < cu_offset_of_leaf cu + length l"
    using cu(2,3,5) assms(2) len by (auto simp: str.cu_inside_def)
  obtain pre post where c: "node_content id t = pre @ id l @ post" "length pre = cu_offset_of_leaf cu"
    using str.cu_at_content [OF cu(4)] cu(2) by metis
  have "node_content id t ! p = l ! (p - cu_offset_of_leaf cu)" using c ins by (auto simp: nth_append)
  then show ?thesis using cu(1,3,4) ins by (auto simp: rope_byte_at_def cu_get_leaf_def str.cu_at_def list_get_def)
qed

end

end
