(* ===== verification/Rope_Chunk_Laws.thy ===== *)
theory Rope_Chunk_Laws
  imports Rope_Cursor_Laws
begin

text \<open>
  Setting a cursor, the metrics that \<^verbatim>\<open>chunk_at_offset\<close> reports for the start of a leaf, and the ropes on
  which both go wrong.
\<close>

section \<open>Setting the position\<close>

context leaf_laws
begin

text \<open>
  \<^verbatim>\<open>set\<close> moves the cursor to the given position, unless that is the last one of the leaf before the
  current one: then the cursor stands at the start of that leaf.
\<close>

lemma cursor_set_spec:
  assumes "cu_at cu is l" "q \<le> length (content (cu_root cu))"
  obtains cu' is' l' where "cursor_set ni cu q = Some cu'" "cu_root cu' = cu_root cu" "cu_at cu' is' l'"
    "cu_offset_of_leaf cu' \<le> q"
    "q < cu_offset_of_leaf cu' + length (lc l') \<or> q = length (content (cu_root cu)) \<and> q = cu_offset_of_leaf cu' + length (lc l')"
    "cu_position cu' = (if q + 1 = cu_offset_of_leaf cu then cu_offset_of_leaf cu' else q)"
proof -
  define c where "c = cu\<lparr>cu_position := q\<rparr>"
  have c: "cu_at c is l" "cu_root c = cu_root cu" "cu_position c = q" "cu_offset_of_leaf c = cu_offset_of_leaf cu"
    "cu_leaf c = Some l"
    using assms(1) by (simp_all add: c_def cu_at_position) (simp add: cu_at_def)
  have len: "leaf_len ni l = length (lc l)" "n_len (cu_root c) = length (content (cu_root cu))"
    using assms(1) leaf_len wf_len c(2) by (auto simp: cu_at_def)
  have run: "cursor_set ni cu q = (if q \<ge> cu_offset_of_leaf cu \<and> q < cu_offset_of_leaf cu + length (lc l) then Some c
    else do {
      (cu, done1) \<leftarrow> (if q = cu_offset_of_leaf cu + length (lc l) \<and> q < length (content (cu_root cu))
             then do { (cu, r) \<leftarrow> next_leaf ni c; Some (cu, r \<noteq> None) } else Some (c, False));
      if done1 then Some cu
      else do {
        (cu, done2) \<leftarrow> (if cu_position cu + 1 = cu_offset_of_leaf cu
               then do { (cu, r) \<leftarrow> prev_leaf ni cu; Some (cu, r \<noteq> None) } else Some (cu, False));
        if done2 then Some cu else descend cu } })"
    using len c(2,4,5) by (simp add: cursor_set_def Let_def flip: c_def)
  consider (here) "q \<ge> cu_offset_of_leaf cu" "q < cu_offset_of_leaf cu + length (lc l)"
    | (behind) "q = cu_offset_of_leaf cu + length (lc l)" "q < length (content (cu_root cu))"
    | (before) "q + 1 = cu_offset_of_leaf cu"
    | (far) "\<not> (q \<ge> cu_offset_of_leaf cu \<and> q < cu_offset_of_leaf cu + length (lc l))"
       "\<not> (q = cu_offset_of_leaf cu + length (lc l) \<and> q < length (content (cu_root cu)))" "q + 1 \<noteq> cu_offset_of_leaf cu"
    by linarith
  then show thesis
  proof cases
    case here
    with run c show thesis by (intro that [of c "is" l]) auto
  next
    case behind
    then obtain cu' is' l' where n: "next_leaf ni c = Some (cu', Some (l', 0))" "cu_root cu' = cu_root c"
      "cu_position cu' = q" "cu_at cu' is' l'" "cu_offset_of_leaf cu' = q" "lc l' \<noteq> []"
      using next_leaf_spec [OF c(1)] c(2,4) by (metis less_irrefl)
    with behind run c show thesis by (intro that [of cu' is' l']) auto
  next
    case before
    then obtain cu' is' l' where n: "prev_leaf ni c = Some (cu', Some (l', 0))" "cu_root cu' = cu_root c"
      "cu_at cu' is' l'" "cu_position cu' = cu_offset_of_leaf cu'" "cu_offset_of_leaf cu' + length (lc l') = cu_offset_of_leaf cu"
      using prev_leaf_spec [OF c(1)] c(4) by (metis Suc_eq_plus1 nat.simps(3))
    have "lc l' \<noteq> []"
    proof (rule cu_at_nonempty [OF n(3)], rule ccontr)
      assume no: "\<not> (is' \<noteq> [] \<or> length (lc l') < length (content (cu_root cu')))"
      then have "content (cu_root cu') = lc l'" using n(3) by (auto simp: cu_at_def wf_from_leaf)
      moreover have "lc l \<noteq> []"
        by (rule cu_at_nonempty [OF assms(1)], rule disjI2) (use cu_at_le [OF assms(1)] before in linarith)
      moreover have "length (lc l') \<le> cu_offset_of_leaf cu" using n(5) by linarith
      ultimately show False using cu_at_le [OF assms(1)] n(2) c(2) by (cases "lc l") simp_all
    qed
    then have lt: "cu_offset_of_leaf cu' \<le> q" "q < cu_offset_of_leaf cu' + length (lc l')"
      using before n(5) by (simp_all flip: length_greater_0_conv)
    have "cursor_set ni cu q = Some cu'" using before run n(1) c by simp
    with lt n before c(2) show thesis by (intro that [of cu' is' l']) auto
  next
    case far
    obtain cu' is' l' where d: "descend c = Some cu'" "cu_root cu' = cu_root c" "cu_position cu' = cu_position c"
      "cu_at cu' is' l'" "cu_inside cu' l'"
      using descend_spec [of c] assms cu_at_clean [OF c(1)] c(2,3) unfolding cu_at_def by (metis (no_types, lifting))
    have "cursor_set ni cu q = Some cu'" using run far d(1) c by auto
    with d far(3) c show thesis by (intro that [of cu' is' l']) (auto simp: cu_inside_def)
  qed
qed

end


section \<open>The measure of a leaf's start\<close>

lemma cache_measure_append:
  "cache_measure M (es @ fs) m = cache_measure M es m \<bind> cache_measure M fs"
  by (induction M es m rule: cache_measure.induct) (auto split: bind_splits)

lemma cache_measure_None: "\<forall>e \<in> set es. e = None \<Longrightarrow> cache_measure M es m = Some m"
  by (induction es) auto

context metric_laws
begin

lemma cache_measure_spec:
  "wf n \<Longrightarrow> node_at n us = Some a \<Longrightarrow> node_at a ds = Some b \<Longrightarrow>
    cache_measure M (map (cache_for n (us @ ds)) [0..<length ds]) 0 = Some (mc (take (offset_at a ds) (content a)))"
proof (induction ds arbitrary: us a)
  case (Cons j ds)
  obtain cs where cs: "get_children a = Some cs" "j < length cs" "node_at (cs ! j) ds = Some b"
    using Cons.prems(3) by (auto simp: bind_eq_Some_conv list_get_def split: if_splits)
  have at: "node_at n (us @ [j]) = Some (cs ! j)" using Cons.prems(2) cs(1,2) by (simp add: node_at_append list_get_def)
  have IH: "cache_measure M (map (cache_for n (us @ j # ds)) [0..<length ds]) 0
      = Some (mc (take (offset_at (cs ! j) ds) (content (cs ! j))))"
    using Cons.IH [OF Cons.prems(1) at cs(3)] by simp
  have wfa: "wf a" using node_at_content [OF Cons.prems(1,2)] by blast
  obtain h where h: "n_height a = Suc h"
    using node_at_content [OF wfa Cons.prems(3)] by (metis add_Suc_right length_Cons)
  obtain kids: "\<And>c. c \<in> set cs \<Longrightarrow> wf c" "content a = concat (map content cs)"
    using height_children [OF wfa h] cs(1) by (metis option.inject)
  let ?pre = "concat (map content (take j cs))"
  have "cs = take j cs @ cs ! j # drop (Suc j) cs" using cs(2) by (rule id_take_nth_drop)
  then have split: "content a = ?pre @ content (cs ! j) @ concat (map content (drop (Suc j) cs))"
    using kids(2) by (metis concat.simps(2) concat_append list.map(2) map_append)
  have pre: "sum_list (map n_len (take j cs)) = length ?pre"
    by (rule children_lens) (use kids(1) set_take_subset [of j cs] in auto)
  have "sum_list (map (node_measure M) (take j cs)) = mc ?pre"
    unfolding mc_concat using kids(1) set_take_subset [of j cs]
    by (auto simp: node_measure comp_def intro!: arg_cong [of _ _ sum_list] map_cong)
  moreover have "offset_at (cs ! j) ds \<le> length (content (cs ! j))"
    using node_at_content [OF _ cs(3)] kids(1) cs(2) by fastforce
  moreover have "cache_for n (us @ j # ds) (length ds) = Some (a, j)" using cache_for_at [of n us j ds] Cons.prems(2) by simp
  ultimately show ?case
    using IH cs(1,2) by (simp add: cache_measure_append split pre mc_append)
qed simp

text \<open>
  The cached part of the path gives the measure from the start of the highest cached ancestor on.
\<close>

lemma leaf_start_measure_spec:
  assumes "cu_at cu is l"
  defines "r \<equiv> cu_root cu"
  obtains us ds a where "is = us @ ds" "length ds = min CURSOR_CACHE_SIZE (n_height r)" "node_at r us = Some a"
    "offset_at r is = offset_at r us + offset_at a ds"
    "leaf_start_measure M cu = Some (Some (mc (take (offset_at a ds) (content a))))"
proof -
  note at = assms(1) [unfolded cu_at_def, folded r_def]
  define k where "k = n_height r - min CURSOR_CACHE_SIZE (n_height r)"
  define us ds where "us = take k is" and "ds = drop k is"
  have path: "is = us @ ds" "length ds = min CURSOR_CACHE_SIZE (n_height r)"
    using at by (simp_all add: us_def ds_def k_def)
  obtain a where a: "node_at r us = Some a" "node_at a ds = Some (from_leaf ni l)"
    using at by (auto simp: path(1) node_at_append bind_eq_Some_conv)
  have len: "length ds \<le> CURSOR_CACHE_SIZE" using path(2) by simp
  have "cu_cache cu = map (cache_for r is) [0..<CURSOR_CACHE_SIZE]"
    using at by (intro nth_equalityI) simp_all
  also have "[0..<CURSOR_CACHE_SIZE] = [0..<length ds] @ [length ds..<CURSOR_CACHE_SIZE]"
    using len by (metis le_add_diff_inverse upt_add_eq_append zero_le)
  finally have cache: "cu_cache cu = map (cache_for r (us @ ds)) [0..<length ds] @ map (cache_for r is) [length ds..<CURSOR_CACHE_SIZE]"
    using path(1) by simp
  have "\<forall>e \<in> set (map (cache_for r is) [length ds..<CURSOR_CACHE_SIZE]). e = None"
    using path(2) at by (auto simp: cache_for_def)
  from cache_measure_None [OF this]
  have "cache_measure M (cu_cache cu) 0 = Some (mc (take (offset_at a ds) (content a)))"
    unfolding cache cache_measure_append using cache_measure_spec [OF _ a] at by simp
  then show thesis
    using that [OF path a(1)] offset_at_append [OF a(1)] at path(1) by (simp add: leaf_start_measure_def)
qed

end

context byte_search_laws
begin

lemma chunk_at_offset_spec:
  assumes "rope_ok lib t" "p \<le> n_len t"
  obtains leaf post us ds a where "length ds = min CURSOR_CACHE_SIZE (n_height t)" "node_at t us = Some a"
    "length us + length ds = n_height t"
    "node_content id t = take (offset_at t us + offset_at a ds) (node_content id t) @ leaf @ post" "length leaf \<le> MAX_LEAF"
    "offset_at t us + offset_at a ds \<le> p" "p \<le> offset_at t us + offset_at a ds + length leaf"
    "chunk_at_offset lib t p = Some (Some (leaf, offset_at t us + offset_at a ds,
        newlines (take (offset_at a ds) (node_content id a)),
        count_utf16_code_units (take (offset_at a ds) (node_content id a))))"
proof -
  have le: "p \<le> length (node_content id t)" using assms str.wf_len by simp
  obtain cu "is" l where cu: "cursor_new t p = Some cu" "cu_root cu = t" "cu_position cu = p"
    "str.cu_at cu is l" "str.cu_inside cu l"
    using str.cursor_new_spec [OF assms(1) le] by metis
  note at = cu(4) [unfolded str.cu_at_def cu(2)]
  obtain us ds a where u: "is = us @ ds" "length ds = min CURSOR_CACHE_SIZE (n_height t)" "node_at t us = Some a"
    "offset_at t is = offset_at t us + offset_at a ds"
    "leaf_start_measure (lines_metric lib) cu = Some (Some (newlines (take (offset_at a ds) (node_content id a))))"
    using lines.leaf_start_measure_spec [OF cu(4)] cu(2) by metis
  obtain us' ds' a' where v: "is = us' @ ds'" "length ds' = min CURSOR_CACHE_SIZE (n_height t)" "node_at t us' = Some a'"
    "leaf_start_measure utf16_metric cu = Some (Some (count_utf16_code_units (take (offset_at a' ds') (node_content id a'))))"
    using utf16.leaf_start_measure_spec [OF cu(4)] cu(2) by metis
  have same: "us' = us" "ds' = ds" "a' = a" using u(1-3) v(1-3) by auto
  obtain pre post where c: "node_content id t = pre @ id l @ post" "length pre = cu_offset_of_leaf cu"
    using str.cu_at_content [OF cu(4)] cu(2) by metis
  have off: "cu_offset_of_leaf cu = offset_at t us + offset_at a ds" using at u(4) by simp
  show thesis
  proof (rule that [OF u(2,3)])
    show "length us + length ds = n_height t" using at u(1) by simp
    show "node_content id t = take (offset_at t us + offset_at a ds) (node_content id t) @ l @ post"
      using c off by simp
    show "length l \<le> MAX_LEAF" using at by (simp add: str_leaf_wf_def)
    show "offset_at t us + offset_at a ds \<le> p" "p \<le> offset_at t us + offset_at a ds + length l"
      using cu(2,3,5) off by (auto simp: str.cu_inside_def)
    show "chunk_at_offset lib t p = Some (Some (l, offset_at t us + offset_at a ds,
        newlines (take (offset_at a ds) (node_content id a)),
        count_utf16_code_units (take (offset_at a ds) (node_content id a))))"
      using assms(2) cu(1,3,5) at u(5) v(4) off
      by (simp add: chunk_at_offset_def cu_get_leaf_def leaf_start_offset_def same str.cu_inside_def)
  qed
qed

end


section \<open>Lines, characters and chunks\<close>

context byte_search_laws
begin

lemma rope_lines_spec:
  assumes t: "rope_ok lib t"
  shows "(\<forall>i. is_char_boundary (node_content id t) i \<longrightarrow>
        try_line_of_offset lib t i = Some (Inr (newlines (take i (node_content id t)))))
    \<and> (\<forall>i. length (node_content id t) < i \<longrightarrow>
        try_line_of_offset lib t i = Some (Inl (OffsetOutOfBounds i (length (node_content id t)))))
    \<and> (\<forall>k \<le> newlines (node_content id t). \<exists>i. try_offset_of_line lib t k = Some (Inr i)
         \<and> newlines (take i (node_content id t)) = k
         \<and> (\<forall>j < i. newlines (take j (node_content id t)) < k) \<and> try_line_of_offset lib t i = Some (Inr k))
    \<and> try_offset_of_line lib t (newlines (node_content id t) + 1) = Some (Inr (length (node_content id t)))
    \<and> (\<forall>k > newlines (node_content id t) + 1. try_offset_of_line lib t k
         = Some (Inl (LineOutOfBounds k (newlines (node_content id t) + 1))))"
proof -
  let ?s = "node_content id t"
  note valid = rope_valid [OF t]
  note line = try_line_of_offset_spec [OF t, unfolded cut_lead [OF valid] str.wf_len [OF t]]
  note offset = try_offset_of_line_spec [OF t]
  have "\<exists>i. try_offset_of_line lib t k = Some (Inr i) \<and> newlines (take i ?s) = k
      \<and> (\<forall>j < i. newlines (take j ?s) < k) \<and> try_line_of_offset lib t i = Some (Inr k)" if k: "k \<le> newlines ?s" for k
  proof -
    obtain i where i: "mpos_at is_lead (cnt (\<lambda>b. b = NL)) ?s k i" "i \<le> length ?s"
      "if k = 0 then i = 0 else 0 < i \<and> ?s ! (i - 1) = NL" "newlines (take i ?s) = k"
      using line_start_exists [OF valid k] by metis
    have "newlines (take j ?s) < k" if "j < i" for j
    proof -
      have at: "k \<noteq> 0" "?s ! (i - 1) = NL" "i - 1 < length ?s" "i = Suc (i - 1)" using i(2,3) that by (auto split: if_splits)
      have "take i ?s = take (i - 1) ?s @ [NL]" using take_Suc_conv_app_nth [OF at(3)] at(2,4) by simp
      moreover have "newlines (take j ?s) \<le> newlines (take (i - 1) ?s)" using that by (intro cnt_take_mono) simp
      ultimately show ?thesis using i(4) by simp
    qed
    moreover have "is_char_boundary ?s i" using i(1) by (simp add: mpos_at_def cut_lead [OF valid])
    ultimately show ?thesis using offset(1) [OF i(1)] line(1) i(4) by blast
  qed
  then show ?thesis using line offset(2,3) by blast
qed

lemma rope_characters_spec:
  assumes t: "rope_ok lib t" and p: "p < n_len t"
  shows "is_codepoint_boundary lib t p = Some (is_char_boundary (node_content id t) p)
    \<and> rope_byte_at lib t p = Some (node_content id t ! p)
    \<and> (is_char_boundary (node_content id t) p \<longrightarrow>
        (\<exists>q > p. next_codepoint_offset lib t p = Some (Some q) \<and> is_char_boundary (node_content id t) q
           \<and> (\<forall>i. p < i \<longrightarrow> i < q \<longrightarrow> \<not> is_char_boundary (node_content id t) i)
           \<and> prev_codepoint_offset lib t q = Some (Some p))
        \<and> (\<exists>u. node_count base_metric utf16_metric t p = Some u \<and> u = count_utf16_code_units (take p (node_content id t))
           \<and> count_base_units base_metric utf16_metric t u = Some p))"
proof (intro conjI impI)
  let ?s = "node_content id t"
  show "is_codepoint_boundary lib t p = Some (is_char_boundary ?s p)"
    by (rule is_codepoint_boundary_spec [OF t]) (use p in simp)
  show "rope_byte_at lib t p = Some (?s ! p)" by (rule rope_byte_at_spec [OF t p])
  assume b: "is_char_boundary ?s p"
  obtain q where q: "next_codepoint_offset lib t p = Some (Some q)" "next_boundary ?s p q"
    using next_codepoint_offset_spec [OF t p b] by metis
  have le: "0 < q" "q \<le> n_len t"
    using q(2) str.wf_len [OF t] by (auto simp: next_boundary_def dest: is_char_boundary_le)
  obtain r where r: "prev_codepoint_offset lib t q = Some (Some r)" "prev_boundary ?s q r"
    using prev_codepoint_offset_spec [OF t le] by metis
  have "r = p" using prev_boundary_unique [OF r(2)] next_prev_boundary [OF b] q(2) by blast
  then show "\<exists>q > p. next_codepoint_offset lib t p = Some (Some q) \<and> is_char_boundary ?s q
      \<and> (\<forall>i. p < i \<longrightarrow> i < q \<longrightarrow> \<not> is_char_boundary ?s i) \<and> prev_codepoint_offset lib t q = Some (Some p)"
    using q r(1) by (auto simp: next_boundary_def)
  show "\<exists>u. node_count base_metric utf16_metric t p = Some u \<and> u = count_utf16_code_units (take p ?s)
      \<and> count_base_units base_metric utf16_metric t u = Some p"
    using utf16_count_roundtrip [OF t] b cut_lead [OF rope_valid [OF t]] by simp
qed

lemma chunk_at_offset_low:
  assumes "rope_ok lib t" "n_height t \<le> 4" "p \<le> n_len t"
  shows "\<exists>pre leaf post. node_content id t = pre @ leaf @ post \<and> length pre \<le> p \<and> p \<le> length (pre @ leaf)
    \<and> chunk_at_offset lib t p = Some (Some (leaf, length pre, newlines pre, count_utf16_code_units pre))"
proof -
  let ?s = "node_content id t"
  obtain leaf post us ds a where c: "length ds = min CURSOR_CACHE_SIZE (n_height t)" "node_at t us = Some a"
    "length us + length ds = n_height t"
    "?s = take (offset_at t us + offset_at a ds) ?s @ leaf @ post"
    "offset_at t us + offset_at a ds \<le> p" "p \<le> offset_at t us + offset_at a ds + length leaf"
    "chunk_at_offset lib t p = Some (Some (leaf, offset_at t us + offset_at a ds,
        newlines (take (offset_at a ds) (node_content id a)),
        count_utf16_code_units (take (offset_at a ds) (node_content id a))))"
    using chunk_at_offset_spec [OF assms(1,3)] by metis
  have "us = []" using c(1,3) assms(2) by (simp add: CURSOR_CACHE_SIZE_def)
  then have "a = t" "offset_at t us = 0" using c(2) by simp_all
  moreover have "offset_at t ds \<le> length ?s" using calculation c(5) assms(3) str.wf_len [OF assms(1)] by simp
  ultimately show ?thesis using c(4-7) by (intro exI [of _ "take (offset_at t ds) ?s"] exI [of _ leaf] exI [of _ post]) simp
qed

end


section \<open>Ropes for the defects\<close>

text \<open>A full rope of height \<open>h\<close> with four children in every node and 512 newlines in every leaf.\<close>

primrec full_rope :: "nat \<Rightarrow> rope" where
  "full_rope 0 = from_leaf (rope_ni naive_search) (replicate 512 NL)"
| "full_rope (Suc h) = (let c = full_rope h
     in Node (Suc h) (4 * n_len c) (foldl (ni_accumulate (rope_ni naive_search)) (n_info c) [n_info c, n_info c, n_info c])
          (Internal [c, c, c, c]))"

lemma utf8_valid_newlines: "utf8_valid (replicate n NL)"
proof (induction n)
  case (Suc n)
  then show ?case using utf8_valid_append_char [of "[NL]" "replicate n NL"] by simp
qed simp

lemma full_rope_wf:
  "rope_ok naive_search (full_rope h) \<and> node_is_ok_child (rope_ni naive_search) (full_rope h)
    \<and> n_height (full_rope h) = h \<and> node_content id (full_rope h) = replicate (512 * 4 ^ h) NL"
proof (induction h)
  case 0
  have "str_leaf_wf (replicate 512 NL)" by (simp add: str_leaf_wf_def utf8_valid_newlines MAX_LEAF_def)
  moreover have "leaf_is_ok_child (rope_ni naive_search) (replicate 512 NL)"
    by (simp add: rope_ni_def string_is_ok_child_def MIN_LEAF_def)
  ultimately show ?case using naive.str.wf_from_leaf [of "replicate 512 NL"] by (simp add: id_def)
next
  case (Suc h)
  then show ?case
    by (simp add: Let_def node_is_ok_child_def MIN_CHILDREN_def MAX_CHILDREN_def replicate_add [symmetric] del: replicate_add)
qed

lemma full_rope_child: "node_at (full_rope (Suc h)) [i] = Some a \<Longrightarrow> a = full_rope h"
  by (auto simp: Let_def get_children_def list_get_def bind_eq_Some_conv nth_Cons' split: if_splits)


declare full_rope.simps [simp del]

lemma newlines_replicate [simp]: "newlines (replicate n NL) = n"
  by (induction n) simp_all

lemma full_rope_chunk:
  obtains leaf start lines units where
    "chunk_at_offset naive_search (full_rope 5) (n_len (full_rope 5)) = Some (Some (leaf, start, lines, units))"
    "lines < newlines (take start (node_content id (full_rope 5)))"
proof -
  let ?t = "full_rope 5"
  note wf = full_rope_wf [of 5]
  have len: "n_len ?t = 524288" using wf naive.str.wf_len [of ?t] by simp
  obtain leaf post us ds a where c: "length ds = min CURSOR_CACHE_SIZE (n_height ?t)" "node_at ?t us = Some a"
    "length us + length ds = n_height ?t"
    "length leaf \<le> MAX_LEAF" "n_len ?t \<le> offset_at ?t us + offset_at a ds + length leaf"
    "offset_at ?t us + offset_at a ds \<le> n_len ?t"
    "chunk_at_offset naive_search ?t (n_len ?t) = Some (Some (leaf, offset_at ?t us + offset_at a ds,
        newlines (take (offset_at a ds) (node_content id a)),
        count_utf16_code_units (take (offset_at a ds) (node_content id a))))"
    using naive.chunk_at_offset_spec [of ?t "n_len ?t"] wf by (metis order_refl)
  have "length us = 1" using c(1,3) wf by (simp add: CURSOR_CACHE_SIZE_def)
  then obtain i where us: "us = [i]" by (metis length_0_conv length_Suc_conv One_nat_def)
  have "5 = Suc 4" by simp
  with c(2) have "node_at (full_rope (Suc 4)) [i] = Some a" unfolding us by metis
  then have "a = full_rope 4" by (rule full_rope_child)
  then have "newlines (take (offset_at a ds) (node_content id a)) \<le> 131072" using full_rope_wf [of 4] by simp
  moreover have "newlines (take (offset_at ?t us + offset_at a ds) (node_content id ?t)) = offset_at ?t us + offset_at a ds"
    using wf c(6) len by simp
  moreover have "524288 \<le> offset_at ?t us + offset_at a ds + 1024" using c(4,5) len by (simp add: MAX_LEAF_def)
  ultimately have "newlines (take (offset_at a ds) (node_content id a))
      < newlines (take (offset_at ?t us + offset_at a ds) (node_content id ?t))" by linarith
  with c(7) show thesis by (rule that)
qed

lemma cursor_set_misplaces:
  "\<exists>t cu cu'. rope_ok naive_search t \<and> cursor_new t 512 = Some cu \<and> cursor_set (rope_ni naive_search) cu 511 = Some cu'
     \<and> cursor_pos cu' = 0"
proof -
  have replicate_cache: "replicate CURSOR_CACHE_SIZE x = [x, x, x, x]" for x by (simp add: CURSOR_CACHE_SIZE_def eval_nat_numeral)
  define l where "l = replicate 512 NL"
  have len: "leaf_len (rope_ni naive_search) l = 512" by (simp add: l_def rope_ni_def)
  have c: "full_rope 0 = Node 0 512 (ni_compute_info (rope_ni naive_search) l) (Leaf l)"
    by (simp add: full_rope.simps from_leaf_def flip: l_def) (simp add: len)
  have t: "full_rope 1 = Node 1 2048 (n_info (full_rope 1)) (Internal [full_rope 0, full_rope 0, full_rope 0, full_rope 0])"
    by (simp add: full_rope.simps(2) Let_def c)
  have "map_option cursor_pos (cursor_new (full_rope 1) 512 \<bind> (\<lambda>cu. cursor_set (rope_ni naive_search) cu 511)) = Some 0"
    by (subst t) (simp add: c len cursor_new_def descend_def descend_loop.simps get_children_def get_leaf_def cache_set_def
      cursor_set_def prev_leaf_def prev_leaf_loop.simps cu_get_leaf_def cursor_pos_def list_get_def usize_sub_def rassert_def replicate_cache CURSOR_CACHE_SIZE_def [THEN arg_cong, of "\<lambda>k. i < k" for i])
  then show ?thesis using full_rope_wf [of 1] by (auto simp: bind_eq_Some_conv)
qed

lemma tall_rope_chunk:
  "\<exists>t leaf start lines units. rope_ok naive_search t \<and> n_height t = 5
     \<and> chunk_at_offset naive_search t (n_len t) = Some (Some (leaf, start, lines, units))
     \<and> lines < newlines (take start (node_content id t))"
  using full_rope_chunk full_rope_wf [of 5] by metis

lemma chunk_at_line_panics:
  "\<exists>t. rope_ok naive_search t \<and> newlines (node_content id t) = 0 \<and> chunk_at_line naive_search t 1 = None"
proof (intro exI conjI)
  let ?t = "from_leaf (rope_ni naive_search) [0x61]"
  have leaf: "str_leaf_wf [0x61]"
    by (simp add: str_leaf_wf_def utf8_valid_def len_utf8_from_first_byte_def MAX_LEAF_def)
  show "rope_ok naive_search ?t" "newlines (node_content id ?t) = 0"
    using naive.str.wf_from_leaf(1) [OF leaf] naive.str.wf_from_leaf(2) [of "[0x61]"] by simp_all
  show "chunk_at_line naive_search ?t 1 = None"
    by (simp add: chunk_at_line_def count_base_units_def convert_metrics_def convert_loop_leaf from_leaf_def get_leaf_def
        node_measure_def lines_metric_def base_metric_def rope_ni_def rope_info_compute_def count_newlines_def naive_search_def)
qed

end
