(* ===== verification/Rope_Iter.thy ===== *)
theory Rope_Iter
  imports Rope_Chunk_Laws
begin

text \<open>
  The rest of the rope's interface: conversions and the chunk iterator of \<^verbatim>\<open>xi-rope/src/rope/impls.rs\<close>, the
  line iterators and views of \<^verbatim>\<open>rope/slice.rs\<close>, the iterators of \<^verbatim>\<open>rope/iter.rs\<close> and the operations by character
  index of \<^verbatim>\<open>rope/chars.rs\<close>.  A \<^verbatim>\<open>next\<close> returns the new iterator and the item; \<open>None\<close> is a panic.  The loops
  of the iterators are partial functions; the laws show that they return.
\<close>

type_synonym rope_cursor = "(str, rope_info) cursor"


section \<open>Conversions\<close>

definition rope_from_str :: "byte_search \<Rightarrow> str \<Rightarrow> rope option" where
  "rope_from_str lib s = do { b \<leftarrow> rb_push_str lib rope_builder_new s; rb_finish lib b }"

definition from_owned :: "byte_search \<Rightarrow> str \<Rightarrow> rope option" where
  "from_owned lib s = do { b \<leftarrow> rb_push_owned lib rope_builder_new s; rb_finish lib b }"

definition edit_str :: "byte_search \<Rightarrow> rope \<Rightarrow> interval_bounds \<Rightarrow> str \<Rightarrow> rope option" where
  "edit_str lib t bounds new = do { n \<leftarrow> rope_from_str lib new; node_edit (rope_ni lib) t bounds n }"

definition rope_add :: "byte_search \<Rightarrow> rope \<Rightarrow> rope \<Rightarrow> rope option" where
  "rope_add lib a b = do {
     st \<leftarrow> tb_push (rope_ni lib) [] a;
     st \<leftarrow> tb_push (rope_ni lib) st b;
     tb_build (rope_ni lib) st }"

text \<open>
  \<^verbatim>\<open>Utf8Error::valid_up_to\<close>: the length of the longest prefix that is valid.  The reader is a function from
  the space in the buffer to an error, or to the bytes it puts there and the rest of the reader.
\<close>

function valid_up_to :: "byte list \<Rightarrow> nat" where
  "valid_up_to bs =
     (case bs of
        [] \<Rightarrow> 0
      | b # _ \<Rightarrow>
          (let k = len_utf8_from_first_byte b
           in if utf8_char (take k bs) then k + valid_up_to (drop k bs) else 0))"
  by pat_completeness auto
termination
  by (relation "measure length") (auto simp: len_utf8_from_first_byte_def)

declare valid_up_to.simps [simp del]

datatype 'e read_error = ReadError 'e | InvalidData

definition BUFFER_SIZE :: nat where "BUFFER_SIZE = MAX_LEAF * 2"

partial_function (option) from_reader_loop ::
  "byte_search \<Rightarrow> ('r \<Rightarrow> nat \<Rightarrow> 'e + byte list \<times> 'r) \<Rightarrow> 'r \<Rightarrow> rope_builder \<Rightarrow> byte list
    \<Rightarrow> ('e read_error + rope) option" where
  "from_reader_loop lib read reader builder buffer =
     (case read reader (BUFFER_SIZE - length buffer) of
        Inl e \<Rightarrow> Some (Inl (ReadError e))
      | Inr (bytes, reader) \<Rightarrow> do {
          let buffer = buffer @ bytes;
          let valid_count = valid_up_to buffer;
          builder \<leftarrow> (if valid_count > 0 then rb_push_str lib builder (take valid_count buffer) else Some builder);
          let buffer = drop valid_count buffer;
          if length buffer = BUFFER_SIZE then Some (Inl InvalidData)
          else if bytes = [] then
            (if buffer \<noteq> [] then Some (Inl InvalidData)
             else do { t \<leftarrow> rb_finish lib builder; Some (Inr t) })
          else from_reader_loop lib read reader builder buffer })"

declare from_reader_loop.simps [code]

definition from_reader ::
  "byte_search \<Rightarrow> ('r \<Rightarrow> nat \<Rightarrow> 'e + byte list \<times> 'r) \<Rightarrow> 'r \<Rightarrow> ('e read_error + rope) option" where
  "from_reader lib read reader = from_reader_loop lib read reader rope_builder_new []"


section \<open>Chunks\<close>

record chunk_iter =
  ci_cursor :: rope_cursor
  ci_end :: nat

definition iter_chunks :: "rope \<Rightarrow> interval_bounds \<Rightarrow> chunk_iter option" where
  "iter_chunks t bounds = do {
     iv \<leftarrow> into_interval bounds (n_len t);
     cu \<leftarrow> cursor_new t (iv_start iv);
     Some \<lparr>ci_cursor = cu, ci_end = iv_end iv\<rparr> }"

definition chunk_next :: "byte_search \<Rightarrow> chunk_iter \<Rightarrow> (chunk_iter \<times> str option) option" where
  "chunk_next lib it =
     (let cu = ci_cursor it
      in if cursor_pos cu \<ge> ci_end it then Some (it, None)
         else do {
           r \<leftarrow> cu_get_leaf cu;
           (leaf, start_pos) \<leftarrow> r;
           avail \<leftarrow> usize_sub (length leaf) start_pos;
           let len = min (ci_end it - cursor_pos cu) avail;
           (cu, _) \<leftarrow> next_leaf (rope_ni lib) cu;
           chunk \<leftarrow> str_slice leaf start_pos (start_pos + len);
           Some (it\<lparr>ci_cursor := cu\<rparr>, Some chunk) })"

partial_function (option) chunk_collect :: "byte_search \<Rightarrow> chunk_iter \<Rightarrow> str list option" where
  "chunk_collect lib it = do {
     (it, r) \<leftarrow> chunk_next lib it;
     case r of
       None \<Rightarrow> Some []
     | Some c \<Rightarrow> do { cs \<leftarrow> chunk_collect lib it; Some (c # cs) } }"

declare chunk_collect.simps [code]

definition slice_to_cow :: "byte_search \<Rightarrow> rope \<Rightarrow> interval_bounds \<Rightarrow> str option" where
  "slice_to_cow lib t bounds = do {
     it \<leftarrow> iter_chunks t bounds;
     (it, first) \<leftarrow> chunk_next lib it;
     (it, second) \<leftarrow> chunk_next lib it;
     case (first, second) of
       (None, None) \<Rightarrow> Some []
     | (Some s, None) \<Rightarrow> Some s
     | (Some one, Some two) \<Rightarrow> do { rest \<leftarrow> chunk_collect lib it; Some (one @ two @ concat rest) }
     | (None, Some _) \<Rightarrow> None }"

definition string_from_rope :: "byte_search \<Rightarrow> rope \<Rightarrow> str option" where
  "string_from_rope lib t = slice_to_cow lib t BRangeFull"

text \<open>The writer is a parameter; an error of the writer ends the loop.\<close>

fun write_chunks :: "('w \<Rightarrow> str \<Rightarrow> 'e + 'w) \<Rightarrow> str list \<Rightarrow> 'w \<Rightarrow> 'e + 'w" where
  "write_chunks write_all [] w = Inr w"
| "write_chunks write_all (c # cs) w =
     (case write_all w c of Inl e \<Rightarrow> Inl e | Inr w' \<Rightarrow> write_chunks write_all cs w')"

definition write_to :: "byte_search \<Rightarrow> rope \<Rightarrow> ('w \<Rightarrow> str \<Rightarrow> 'e + 'w) \<Rightarrow> 'w \<Rightarrow> ('e + 'w) option" where
  "write_to lib t write_all w = do {
     it \<leftarrow> iter_chunks t BRangeFull;
     cs \<leftarrow> chunk_collect lib it;
     Some (write_chunks write_all cs w) }"

text \<open>The leaves in order, each shrunk (which does not change its text), pushed into a new tree.\<close>

partial_function (option) leaves_loop :: "byte_search \<Rightarrow> rope_cursor \<Rightarrow> str list option" where
  "leaves_loop lib cu = do {
     r \<leftarrow> cu_get_leaf cu;
     case r of
       None \<Rightarrow> Some []
     | Some (leaf, _) \<Rightarrow> do {
         (cu, n) \<leftarrow> next_leaf (rope_ni lib) cu;
         if n = None then Some [leaf]
         else do { ls \<leftarrow> leaves_loop lib cu; Some (leaf # ls) } } }"

declare leaves_loop.simps [code]

definition shrink_to_fit :: "byte_search \<Rightarrow> rope \<Rightarrow> rope option" where
  "shrink_to_fit lib t = do {
     cu \<leftarrow> cursor_new t 0;
     leaves \<leftarrow> leaves_loop lib cu;
     builder \<leftarrow> foldM (\<lambda>l st. tb_push_leaf (rope_ni lib) st l) leaves [];
     tb_build (rope_ni lib) builder }"


section \<open>Lines\<close>

record lines_raw_iter =
  lr_inner :: chunk_iter
  lr_fragment :: str

definition cow_append :: "str \<Rightarrow> str \<Rightarrow> str" where
  "cow_append a b = (if a = [] then b else a @ b)"

partial_function (option) lines_raw_loop ::
  "byte_search \<Rightarrow> lines_raw_iter \<Rightarrow> str \<Rightarrow> (lines_raw_iter \<times> str option) option" where
  "lines_raw_loop lib it result = do {
     (it, stop) \<leftarrow> (if lr_fragment it = [] then do {
         (inner, r) \<leftarrow> chunk_next lib (lr_inner it);
         case r of
           Some chunk \<Rightarrow> Some (it\<lparr>lr_inner := inner, lr_fragment := chunk\<rparr>,
               if chunk = [] then Some None else None)
         | None \<Rightarrow> Some (it\<lparr>lr_inner := inner\<rparr>, Some (if result = [] then None else Some result)) }
       else Some (it, None));
     case stop of
       Some r \<Rightarrow> Some (it, r)
     | None \<Rightarrow>
         (case bs_memchr lib NL (lr_fragment it) of
            Some i \<Rightarrow> do {
              line \<leftarrow> str_slice (lr_fragment it) 0 (i + 1);
              rest \<leftarrow> str_slice (lr_fragment it) (i + 1) (length (lr_fragment it));
              Some (it\<lparr>lr_fragment := rest\<rparr>, Some (cow_append result line)) }
          | None \<Rightarrow> lines_raw_loop lib (it\<lparr>lr_fragment := []\<rparr>) (cow_append result (lr_fragment it))) }"

declare lines_raw_loop.simps [code]

definition lines_raw_next :: "byte_search \<Rightarrow> lines_raw_iter \<Rightarrow> (lines_raw_iter \<times> str option) option" where
  "lines_raw_next lib it = lines_raw_loop lib it []"

definition lines_raw :: "rope \<Rightarrow> interval_bounds \<Rightarrow> lines_raw_iter option" where
  "lines_raw t bounds = do { it \<leftarrow> iter_chunks t bounds; Some \<lparr>lr_inner = it, lr_fragment = []\<rparr> }"

abbreviation CR :: byte where "CR \<equiv> 0x0D"

definition strip_newline :: "str \<Rightarrow> str" where
  "strip_newline s =
     (if s \<noteq> [] \<and> last s = NL
      then let s = butlast s in if s \<noteq> [] \<and> last s = CR then butlast s else s
      else s)"

definition lines_next :: "byte_search \<Rightarrow> lines_raw_iter \<Rightarrow> (lines_raw_iter \<times> str option) option" where
  "lines_next lib it = do {
     (it, r) \<leftarrow> lines_raw_next lib it;
     Some (it, map_option strip_newline r) }"

partial_function (option) lines_collect :: "byte_search \<Rightarrow> lines_raw_iter \<Rightarrow> str list option" where
  "lines_collect lib it = do {
     (it, r) \<leftarrow> lines_next lib it;
     case r of
       None \<Rightarrow> Some []
     | Some l \<Rightarrow> do { ls \<leftarrow> lines_collect lib it; Some (l # ls) } }"

declare lines_collect.simps [code]

definition try_lines_at :: "byte_search \<Rightarrow> rope \<Rightarrow> nat \<Rightarrow> (rope_error + lines_raw_iter) option" where
  "try_lines_at lib t line_idx =
     (case validate_line lib t line_idx of
        Inl err \<Rightarrow> Some (Inl err)
      | Inr _ \<Rightarrow> do {
          start \<leftarrow> (if line_idx = max_line_index lib t then Some (n_len t)
             else count_base_units base_metric (lines_metric lib) t line_idx);
          it \<leftarrow> lines_raw t (BRangeFrom start);
          Some (Inr it) })"


section \<open>Bytes and characters\<close>

text \<open>\<^verbatim>\<open>Bytes\<close> and \<^verbatim>\<open>Chars\<close> have the same fields as the chunk iterator.\<close>

definition bytes_new :: "rope \<Rightarrow> nat \<Rightarrow> nat \<Rightarrow> chunk_iter option" where
  "bytes_new t start end = do { cu \<leftarrow> cursor_new t start; Some \<lparr>ci_cursor = cu, ci_end = end\<rparr> }"

partial_function (option) bytes_next :: "byte_search \<Rightarrow> chunk_iter \<Rightarrow> (chunk_iter \<times> byte option) option" where
  "bytes_next lib it =
     (let cu = ci_cursor it
      in if cursor_pos cu \<ge> ci_end it then Some (it, None)
         else do {
           r \<leftarrow> cu_get_leaf cu;
           case r of
             None \<Rightarrow> Some (it, None)
           | Some (leaf, start_pos) \<Rightarrow> do {
               avail \<leftarrow> usize_sub (length leaf) start_pos;
               let leaf_end = cursor_pos cu + avail;
               let visible_end = min leaf_end (ci_end it);
               if start_pos \<ge> length leaf then do {
                 (cu, _) \<leftarrow> next_leaf (rope_ni lib) cu;
                 bytes_next lib (it\<lparr>ci_cursor := cu\<rparr>) }
               else do {
                 b \<leftarrow> list_get leaf start_pos;
                 cu \<leftarrow> (if cursor_pos cu + 1 \<ge> visible_end
                   then if visible_end < leaf_end then cursor_set (rope_ni lib) cu visible_end
                     else do { (cu, _) \<leftarrow> next_leaf (rope_ni lib) cu; Some cu }
                   else cursor_set (rope_ni lib) cu (cursor_pos cu + 1));
                 Some (it\<lparr>ci_cursor := cu\<rparr>, Some b) } } })"

declare bytes_next.simps [code]

text \<open>\<^verbatim>\<open>leaf[pos..].chars().next()\<close>\<close>

definition char_from :: "str \<Rightarrow> nat \<Rightarrow> str option option" where
  "char_from leaf pos = do {
     rest \<leftarrow> str_slice leaf pos (length leaf);
     Some (case str_chars rest of [] \<Rightarrow> None | c # _ \<Rightarrow> Some c) }"

partial_function (option) chars_next :: "byte_search \<Rightarrow> chunk_iter \<Rightarrow> (chunk_iter \<times> str option) option" where
  "chars_next lib it =
     (let cu = ci_cursor it
      in if cursor_pos cu \<ge> ci_end it then Some (it, None)
         else do {
           r \<leftarrow> cu_get_leaf cu;
           case r of
             None \<Rightarrow> Some (it, None)
           | Some (leaf, start_pos) \<Rightarrow>
               if start_pos \<ge> length leaf then do {
                 (cu, _) \<leftarrow> next_leaf (rope_ni lib) cu;
                 chars_next lib (it\<lparr>ci_cursor := cu\<rparr>) }
               else do {
                 ch \<leftarrow> char_from leaf start_pos;
                 case ch of
                   None \<Rightarrow> Some (it, None)
                 | Some c \<Rightarrow> do {
                     cu \<leftarrow> (if start_pos + length c \<ge> length leaf
                       then do { (cu, _) \<leftarrow> next_leaf (rope_ni lib) cu; Some cu }
                       else cursor_set (rope_ni lib) cu (cursor_pos cu + length c));
                     cu \<leftarrow> (if cursor_pos cu > ci_end it then cursor_set (rope_ni lib) cu (ci_end it) else Some cu);
                     Some (it\<lparr>ci_cursor := cu\<rparr>, Some c) } } })"

declare chars_next.simps [code]

partial_function (option) chars_collect :: "byte_search \<Rightarrow> chunk_iter \<Rightarrow> str list option" where
  "chars_collect lib it = do {
     (it, r) \<leftarrow> chars_next lib it;
     case r of
       None \<Rightarrow> Some []
     | Some c \<Rightarrow> do { cs \<leftarrow> chars_collect lib it; Some (c # cs) } }"

declare chars_collect.simps [code]

text \<open>\<^verbatim>\<open>ByteIndices\<close> and \<^verbatim>\<open>CharIndices\<close> count what their inner iterator delivers.\<close>

definition byte_indices_next ::
  "byte_search \<Rightarrow> chunk_iter \<times> nat \<Rightarrow> ((chunk_iter \<times> nat) \<times> (nat \<times> byte) option) option" where
  "byte_indices_next lib = (\<lambda>(inner, index). do {
     (inner, r) \<leftarrow> bytes_next lib inner;
     Some (case r of None \<Rightarrow> ((inner, index), None) | Some b \<Rightarrow> ((inner, index + 1), Some (index, b))) })"

definition char_indices_next ::
  "byte_search \<Rightarrow> chunk_iter \<times> nat \<Rightarrow> ((chunk_iter \<times> nat) \<times> (nat \<times> str) option) option" where
  "char_indices_next lib = (\<lambda>(inner, index). do {
     (inner, r) \<leftarrow> chars_next lib inner;
     Some (case r of None \<Rightarrow> ((inner, index), None) | Some c \<Rightarrow> ((inner, index + 1), Some (index, c))) })"

definition char_indices_new :: "rope \<Rightarrow> nat \<Rightarrow> nat \<Rightarrow> (chunk_iter \<times> nat) option" where
  "char_indices_new t start end = do {
     index \<leftarrow> node_count base_metric chars_metric t start;
     inner \<leftarrow> bytes_new t start end;
     Some (inner, index) }"

definition prev_codepoint :: "byte_search \<Rightarrow> rope_cursor \<Rightarrow> (rope_cursor \<times> str option) option" where
  "prev_codepoint lib cu = do {
     (cu, _) \<leftarrow> cursor_prev (rope_ni lib) base_metric cu;
     r \<leftarrow> cu_get_leaf cu;
     case r of
       None \<Rightarrow> Some (cu, None)
     | Some (l, offset) \<Rightarrow> do { c \<leftarrow> char_from l offset; Some (cu, c) } }"

definition next_codepoint :: "byte_search \<Rightarrow> rope_cursor \<Rightarrow> (rope_cursor \<times> str option) option" where
  "next_codepoint lib cu = do {
     r \<leftarrow> cu_get_leaf cu;
     case r of
       None \<Rightarrow> Some (cu, None)
     | Some (l, offset) \<Rightarrow> do {
         (cu, _) \<leftarrow> cursor_next (rope_ni lib) base_metric cu;
         c \<leftarrow> char_from l offset;
         Some (cu, c) } }"

definition peek_next_codepoint :: "rope_cursor \<Rightarrow> str option option" where
  "peek_next_codepoint cu = do {
     r \<leftarrow> cu_get_leaf cu;
     case r of None \<Rightarrow> Some None | Some (l, off) \<Rightarrow> char_from l off }"


section \<open>Operations by character index\<close>

definition len_chars :: "rope \<Rightarrow> nat" where
  "len_chars t = node_measure chars_metric t"

definition len_utf16_cu :: "rope \<Rightarrow> nat" where
  "len_utf16_cu t = node_measure utf16_metric t"

definition get_char :: "rope \<Rightarrow> nat \<Rightarrow> str option option" where
  "get_char t char_idx =
     (if char_idx \<ge> len_chars t then Some None
      else do {
        byte_idx \<leftarrow> count_base_units base_metric chars_metric t char_idx;
        cu \<leftarrow> cursor_new t byte_idx;
        peek_next_codepoint cu })"

definition char_at :: "rope \<Rightarrow> nat \<Rightarrow> str option" where
  "char_at t char_idx = do { r \<leftarrow> get_char t char_idx; r }"

definition try_char_to_byte :: "rope \<Rightarrow> nat \<Rightarrow> (rope_error + nat) option" where
  "try_char_to_byte t char_idx =
     (if char_idx > len_chars t then Some (Inl (CharOffsetOutOfBounds char_idx (len_chars t)))
      else do { k \<leftarrow> count_base_units base_metric chars_metric t char_idx; Some (Inr k) })"

definition try_byte_to_char :: "byte_search \<Rightarrow> rope \<Rightarrow> nat \<Rightarrow> (rope_error + nat) option" where
  "try_byte_to_char lib t byte_idx =
     (case validate_offset t byte_idx of
        Inl err \<Rightarrow> Some (Inl err)
      | Inr _ \<Rightarrow> do {
          r \<leftarrow> at_or_prev_codepoint_boundary lib t byte_idx;
          let boundary = (case r of None \<Rightarrow> 0 | Some b \<Rightarrow> b);
          k \<leftarrow> node_count base_metric chars_metric t boundary;
          Some (Inr k) })"

definition try_insert :: "byte_search \<Rightarrow> rope \<Rightarrow> nat \<Rightarrow> str \<Rightarrow> (rope_error + rope) option" where
  "try_insert lib t char_idx txt =
     (if char_idx > len_chars t then Some (Inl (CharOffsetOutOfBounds char_idx (len_chars t)))
      else do {
        byte_idx \<leftarrow> count_base_units base_metric chars_metric t char_idx;
        t' \<leftarrow> edit_str lib t (BRange byte_idx byte_idx) txt;
        Some (Inr t') })"

text \<open>\<^verbatim>\<open>std::ops::Bound\<close>; the sums overflow for the greatest index.\<close>

datatype bound = Included nat | Excluded nat | Unbounded

definition usize_succ :: "nat \<Rightarrow> nat option" where
  "usize_succ n = (if n < usize_max then Some (n + 1) else None)"

definition char_range_to_indices :: "bound \<Rightarrow> bound \<Rightarrow> nat \<Rightarrow> (rope_error + nat \<times> nat) option" where
  "char_range_to_indices start_bound end_bound len = do {
     start \<leftarrow> (case start_bound of Included n \<Rightarrow> Some n | Excluded n \<Rightarrow> usize_succ n | Unbounded \<Rightarrow> Some 0);
     end \<leftarrow> (case end_bound of Included n \<Rightarrow> usize_succ n | Excluded n \<Rightarrow> Some n | Unbounded \<Rightarrow> Some len);
     Some (if start > end then Inl (CharReversedInterval start end)
         else if end > len then Inl (CharIntervalOutOfBounds start end len)
         else Inr (start, end)) }"

definition try_replace :: "byte_search \<Rightarrow> rope \<Rightarrow> bound \<Rightarrow> bound \<Rightarrow> str \<Rightarrow> (rope_error + rope) option" where
  "try_replace lib t s e txt = do {
     r \<leftarrow> char_range_to_indices s e (len_chars t);
     case r of
       Inl err \<Rightarrow> Some (Inl err)
     | Inr (start, end) \<Rightarrow> do {
         start_byte \<leftarrow> count_base_units base_metric chars_metric t start;
         end_byte \<leftarrow> count_base_units base_metric chars_metric t end;
         t' \<leftarrow> edit_str lib t (BRange start_byte end_byte) txt;
         Some (Inr t') } }"

definition try_remove :: "byte_search \<Rightarrow> rope \<Rightarrow> bound \<Rightarrow> bound \<Rightarrow> (rope_error + rope) option" where
  "try_remove lib t s e = do {
     r \<leftarrow> char_range_to_indices s e (len_chars t);
     case r of
       Inl err \<Rightarrow> Some (Inl err)
     | Inr (start, end) \<Rightarrow> do {
         start_byte \<leftarrow> count_base_units base_metric chars_metric t start;
         end_byte \<leftarrow> count_base_units base_metric chars_metric t end;
         t' \<leftarrow> edit_str lib t (BRange start_byte end_byte) [];
         Some (Inr t') } }"

text \<open>The left part, which \<^verbatim>\<open>self\<close> becomes, and the right part that is returned.\<close>

definition try_split_off :: "byte_search \<Rightarrow> rope \<Rightarrow> nat \<Rightarrow> (rope_error + rope \<times> rope) option" where
  "try_split_off lib t char_idx = do {
     r \<leftarrow> try_char_to_byte t char_idx;
     case r of
       Inl err \<Rightarrow> Some (Inl err)
     | Inr byte_idx \<Rightarrow> do {
         right \<leftarrow> node_subseq (rope_ni lib) t (BRangeFrom byte_idx);
         left \<leftarrow> edit_str lib t (BRangeFrom byte_idx) [];
         Some (Inr (left, right)) } }"

definition rope_append :: "byte_search \<Rightarrow> rope \<Rightarrow> rope \<Rightarrow> rope option" where
  "rope_append lib t other =
     (if node_is_empty other then Some t
      else if node_is_empty t then Some other
      else concat_node (rope_ni lib) t other)"


section \<open>Views\<close>

record rope_view =
  rv_rope :: rope
  rv_interval :: interval

definition view_new :: "byte_search \<Rightarrow> rope \<Rightarrow> interval_bounds \<Rightarrow> rope_view option" where
  "view_new lib t bounds = do {
     iv \<leftarrow> into_interval bounds (n_len t);
     b \<leftarrow> is_codepoint_boundary lib t (iv_start iv);
     rassert b;
     b \<leftarrow> is_codepoint_boundary lib t (iv_end iv);
     rassert b;
     Some \<lparr>rv_rope = t, rv_interval = iv\<rparr> }"

definition try_byte_slice :: "byte_search \<Rightarrow> rope \<Rightarrow> interval_bounds \<Rightarrow> (rope_error + rope_view) option" where
  "try_byte_slice lib t bounds = do {
     r \<leftarrow> validate_interval t bounds;
     case r of
       Inl err \<Rightarrow> Some (Inl err)
     | Inr iv \<Rightarrow> do {
         b \<leftarrow> is_codepoint_boundary lib t (iv_start iv);
         ok \<leftarrow> (if \<not> b then Some False else is_codepoint_boundary lib t (iv_end iv));
         if \<not> ok then Some (Inl (IntervalNotCharBoundary (iv_start iv) (iv_end iv)))
         else do { v \<leftarrow> view_new lib t (BInterval iv); Some (Inr v) } } }"

definition view_len :: "rope_view \<Rightarrow> nat option" where
  "view_len v = iv_size (rv_interval v)"

definition view_slice :: "rope_view \<Rightarrow> interval_bounds \<Rightarrow> rope_view option" where
  "view_slice v bounds = do {
     len \<leftarrow> view_len v;
     rel \<leftarrow> into_interval bounds len;
     Some (v\<lparr>rv_interval := iv_translate rel (iv_start (rv_interval v))\<rparr>) }"

definition view_to_rope :: "byte_search \<Rightarrow> rope_view \<Rightarrow> rope option" where
  "view_to_rope lib v = node_subseq (rope_ni lib) (rv_rope v) (BInterval (rv_interval v))"

definition view_len_chars :: "rope_view \<Rightarrow> nat option" where
  "view_len_chars v = do {
     e \<leftarrow> node_count base_metric chars_metric (rv_rope v) (iv_end (rv_interval v));
     s \<leftarrow> node_count base_metric chars_metric (rv_rope v) (iv_start (rv_interval v));
     usize_sub e s }"

text \<open>The conversions with \<^verbatim>\<open>expect\<close>: an error of the rope is a panic.\<close>

definition char_to_byte :: "rope \<Rightarrow> nat \<Rightarrow> nat option" where
  "char_to_byte t char_idx = (case try_char_to_byte t char_idx of Some (Inr k) \<Rightarrow> Some k | _ \<Rightarrow> None)"

definition byte_to_char :: "byte_search \<Rightarrow> rope \<Rightarrow> nat \<Rightarrow> nat option" where
  "byte_to_char lib t byte_idx = (case try_byte_to_char lib t byte_idx of Some (Inr k) \<Rightarrow> Some k | _ \<Rightarrow> None)"

definition view_char_to_byte :: "byte_search \<Rightarrow> rope_view \<Rightarrow> nat \<Rightarrow> nat option" where
  "view_char_to_byte lib v char_pos = do {
     start_char \<leftarrow> byte_to_char lib (rv_rope v) (iv_start (rv_interval v));
     k \<leftarrow> char_to_byte (rv_rope v) (start_char + char_pos);
     usize_sub k (iv_start (rv_interval v)) }"

definition view_byte_to_char :: "byte_search \<Rightarrow> rope_view \<Rightarrow> nat \<Rightarrow> nat option" where
  "view_byte_to_char lib v byte_pos = do {
     a \<leftarrow> byte_to_char lib (rv_rope v) (iv_start (rv_interval v) + byte_pos);
     b \<leftarrow> byte_to_char lib (rv_rope v) (iv_start (rv_interval v));
     usize_sub a b }"

definition view_get_char :: "byte_search \<Rightarrow> rope_view \<Rightarrow> nat \<Rightarrow> str option option" where
  "view_get_char lib v char_pos = do {
     len \<leftarrow> view_len_chars v;
     if char_pos \<ge> len then Some None
     else do {
       start_char \<leftarrow> byte_to_char lib (rv_rope v) (iv_start (rv_interval v));
       get_char (rv_rope v) (start_char + char_pos) } }"

definition view_chars :: "rope_view \<Rightarrow> chunk_iter option" where
  "view_chars v = bytes_new (rv_rope v) (iv_start (rv_interval v)) (iv_end (rv_interval v))"

record view_cursor =
  vc_cursor :: rope_cursor
  vc_interval :: interval

definition vc_new :: "rope_view \<Rightarrow> nat \<Rightarrow> view_cursor option" where
  "vc_new v position = do {
     cu \<leftarrow> cursor_new (rv_rope v) (iv_start (rv_interval v) + position);
     Some \<lparr>vc_cursor = cu, vc_interval = rv_interval v\<rparr> }"

definition vc_pos :: "view_cursor \<Rightarrow> nat" where
  "vc_pos c = cursor_pos (vc_cursor c) - iv_start (vc_interval c)"

definition vc_set :: "byte_search \<Rightarrow> view_cursor \<Rightarrow> nat \<Rightarrow> view_cursor option" where
  "vc_set lib c position = do {
     cu \<leftarrow> cursor_set (rope_ni lib) (vc_cursor c) (iv_start (vc_interval c) + position);
     Some (c\<lparr>vc_cursor := cu\<rparr>) }"

definition current_leaf_window :: "view_cursor \<Rightarrow> (str \<times> nat \<times> nat \<times> nat) option option" where
  "current_leaf_window c =
     (let cu = vc_cursor c; iv = vc_interval c
      in if cursor_pos cu \<ge> iv_end iv then Some None
         else do {
           r \<leftarrow> cu_get_leaf cu;
           case (r, leaf_start_offset cu) of
             (Some (leaf, _), Some leaf_start) \<Rightarrow>
               let visible_start = max leaf_start (iv_start iv);
                   visible_end = min (leaf_start + length leaf) (iv_end iv)
               in if visible_start \<ge> visible_end then Some None
                  else do {
                    pos_in_leaf \<leftarrow> usize_sub (cursor_pos cu) visible_start;
                    s \<leftarrow> str_slice leaf (visible_start - leaf_start) (visible_end - leaf_start);
                    Some (Some (s, pos_in_leaf, visible_start, visible_end)) }
           | _ \<Rightarrow> Some None })"

definition vc_get_leaf :: "view_cursor \<Rightarrow> (str \<times> nat) option option" where
  "vc_get_leaf c = do {
     w \<leftarrow> current_leaf_window c;
     Some (map_option (\<lambda>(leaf, pos_in_leaf, _, _). (leaf, pos_in_leaf)) w) }"

definition vc_next_leaf :: "byte_search \<Rightarrow> view_cursor \<Rightarrow> (view_cursor \<times> (str \<times> nat) option) option" where
  "vc_next_leaf lib c = do {
     w \<leftarrow> current_leaf_window c;
     case w of
       None \<Rightarrow> Some (c, None)
     | Some (_, _, _, visible_end) \<Rightarrow>
         if visible_end \<ge> iv_end (vc_interval c) then do {
           cu \<leftarrow> cursor_set (rope_ni lib) (vc_cursor c) (iv_end (vc_interval c));
           Some (c\<lparr>vc_cursor := cu\<rparr>, None) }
         else do {
           cu \<leftarrow> cursor_set (rope_ni lib) (vc_cursor c) visible_end;
           let c = c\<lparr>vc_cursor := cu\<rparr>;
           r \<leftarrow> vc_get_leaf c;
           Some (c, r) } }"

definition vc_next_base :: "byte_search \<Rightarrow> view_cursor \<Rightarrow> (view_cursor \<times> nat option) option" where
  "vc_next_base lib c = do {
     (cu, r) \<leftarrow> cursor_next (rope_ni lib) base_metric (vc_cursor c);
     case r of
       None \<Rightarrow> Some (c\<lparr>vc_cursor := cu\<rparr>, None)
     | Some n \<Rightarrow>
         if n > iv_end (vc_interval c) then do {
           cu \<leftarrow> cursor_set (rope_ni lib) cu (iv_end (vc_interval c));
           Some (c\<lparr>vc_cursor := cu\<rparr>, None) }
         else let c = c\<lparr>vc_cursor := cu\<rparr> in Some (c, Some (vc_pos c)) }"

definition vc_next_codepoint :: "byte_search \<Rightarrow> view_cursor \<Rightarrow> (view_cursor \<times> str option) option" where
  "vc_next_codepoint lib c = do {
     (cu, r) \<leftarrow> next_codepoint lib (vc_cursor c);
     case r of
       None \<Rightarrow> Some (c\<lparr>vc_cursor := cu\<rparr>, None)
     | Some ch \<Rightarrow>
         if cursor_pos cu > iv_end (vc_interval c) then do {
           cu \<leftarrow> cursor_set (rope_ni lib) cu (iv_end (vc_interval c));
           Some (c\<lparr>vc_cursor := cu\<rparr>, None) }
         else Some (c\<lparr>vc_cursor := cu\<rparr>, Some ch) }"

end
