(* ===== verification/Rope_Iter_Laws.thy ===== *)
theory Rope_Iter_Laws
  imports Rope_Iter
begin

text \<open>
  The iterators deliver the text: chunks, lines and characters of an interval do not depend on how the text
  is divided into leaves, and the operations by character index are those on the list of characters.
\<close>

section \<open>Lines and characters of a text\<close>

definition head_line :: "str \<Rightarrow> str" where
  "head_line s = (if NL \<in> set s then takeWhile (\<lambda>b. b \<noteq> NL) s @ [NL] else s)"

function raw_lines :: "str \<Rightarrow> str list" where
  "raw_lines s = (if s = [] then [] else head_line s # raw_lines (drop (length (head_line s)) s))"
  by pat_completeness auto
termination
  by (relation "measure length") (auto simp: head_line_def)

declare raw_lines.simps [simp del]

text \<open>The lines of a text, as \<^verbatim>\<open>str::lines\<close> defines them.\<close>

definition text_lines :: "str \<Rightarrow> str list" where
  "text_lines s = map strip_newline (raw_lines s)"

lemma head_line_memchr:
  assumes "i < length s" "s ! i = NL" "\<forall>j < i. s ! j \<noteq> NL"
  shows "head_line s = take (i + 1) s"
proof -
  have tw: "takeWhile (\<lambda>b. b \<noteq> NL) s = take i s"
    using assms by (intro takeWhile_eq_take_P_nth) auto
  have "NL \<in> set s" using assms(1,2) nth_mem by fastforce
  then show ?thesis using tw assms(1,2) by (simp add: head_line_def take_Suc_conv_app_nth)
qed

lemma head_line_append_notin: "NL \<notin> set r \<Longrightarrow> head_line (r @ s) = r @ head_line s"
proof -
  assume nl: "NL \<notin> set r"
  then have "takeWhile (\<lambda>b. b \<noteq> NL) (r @ s) = r @ takeWhile (\<lambda>b. b \<noteq> NL) s"
    by (intro takeWhile_append2) auto
  with nl show ?thesis by (simp add: head_line_def)
qed

lemma head_line_append_in: "NL \<in> set r \<Longrightarrow> head_line (r @ s) = head_line r"
  by (simp add: head_line_def takeWhile_append1)

lemma head_line_nonempty: "s \<noteq> [] \<Longrightarrow> head_line s \<noteq> []"
  by (simp add: head_line_def)

lemma slice_first: "b < e \<Longrightarrow> e \<le> length s \<Longrightarrow> slice s b e \<noteq> []"
  by (simp add: slice_def)

context byte_search_laws
begin

lemma rope_from_str_spec:
  assumes "utf8_valid s"
  obtains t where "rope_from_str lib s = Some t" "rope_ok lib t" "node_content id t = s"
proof -
  obtain rb where rb: "rb_push_str lib rope_builder_new s = Some rb" "rb_wf lib rb" "rb_text rb = s"
    using rb_push_str_spec [OF assms rope_builder_new_wf(1)] by (auto simp: rope_builder_new_wf(2))
  from rb_finish_spec [OF rb(2)] rb(1,3) that show thesis by (auto simp: rope_from_str_def)
qed

lemma from_owned_spec:
  assumes "utf8_valid s"
  obtains t where "from_owned lib s = Some t" "rope_ok lib t" "node_content id t = s"
proof -
  obtain rb where rb: "rb_push_owned lib rope_builder_new s = Some rb" "rb_wf lib rb" "rb_pending rb = []"
    "stack_content id (rb_tree rb) = s"
    using rb_push_owned_spec [OF assms rope_builder_new_wf(1)]
    by (auto simp: rope_builder_new_def stack_content_def)
  then have "rb_text rb = s" by (simp add: rb_text_def)
  from rb_finish_spec [OF rb(2)] rb(1) this that show thesis by (auto simp: from_owned_def)
qed


section \<open>Chunks\<close>

text \<open>The iterator stands at \<open>p\<close>, in the leaf that holds \<open>p\<close> unless it has reached its end \<open>e\<close>.\<close>

definition chunk_state :: "rope \<Rightarrow> chunk_iter \<Rightarrow> nat \<Rightarrow> nat \<Rightarrow> bool" where
  "chunk_state t it p e \<longleftrightarrow> rope_ok lib t \<and> cu_root (ci_cursor it) = t \<and> cu_position (ci_cursor it) = p \<and> ci_end it = e
     \<and> e \<le> length (node_content id t) \<and> is_char_boundary (node_content id t) p \<and> is_char_boundary (node_content id t) e
     \<and> (p < e \<longrightarrow> (\<exists>is l. str.cu_at (ci_cursor it) is l \<and> cu_offset_of_leaf (ci_cursor it) \<le> p
          \<and> p < cu_offset_of_leaf (ci_cursor it) + length l))"

lemma bytes_new_state:
  assumes t: "rope_ok lib t" and p: "p \<le> e" "e \<le> n_len t"
    and b: "is_char_boundary (node_content id t) p" "is_char_boundary (node_content id t) e"
  obtains it where "bytes_new t p e = Some it" "chunk_state t it p e"
proof -
  have le: "p \<le> length (node_content id t)" "e \<le> length (node_content id t)" using p str.wf_len [OF t] by auto
  obtain cu "is" l where cu: "cursor_new t p = Some cu" "cu_root cu = t" "cu_position cu = p"
    "str.cu_at cu is l" "str.cu_inside cu l"
    using str.cursor_new_spec [OF t le(1)] by metis
  have "chunk_state t \<lparr>ci_cursor = cu, ci_end = e\<rparr> p e"
    unfolding chunk_state_def using t cu le b by (auto simp: str.cu_inside_def)
  with cu(1) that show thesis by (simp add: bytes_new_def)
qed

lemma iter_chunks_state:
  assumes t: "rope_ok lib t" and iv: "into_interval bounds (n_len t) = Some (mk_iv p e)" "p \<le> e" "e \<le> n_len t"
    and b: "is_char_boundary (node_content id t) p" "is_char_boundary (node_content id t) e"
  obtains it where "iter_chunks t bounds = Some it" "chunk_state t it p e"
proof -
  have "iter_chunks t bounds = bytes_new t p e" using iv(1) by (simp add: iter_chunks_def bytes_new_def mk_iv_def)
  with bytes_new_state [OF t iv(2,3) b] that show thesis by metis
qed

text \<open>The leaf at a position, seen from the text.\<close>

lemma chunk_state_leaf:
  assumes "chunk_state t it p e" "p < e"
  obtains l k "is" where "cu_get_leaf (ci_cursor it) = Some (Some (l, k))" "k < length l" "utf8_valid l"
    "is_char_boundary l k" "p = cu_offset_of_leaf (ci_cursor it) + k" "str.cu_at (ci_cursor it) is l"
    "\<And>i. i \<le> length l \<Longrightarrow> is_char_boundary (node_content id t) (p - k + i) \<longleftrightarrow> is_char_boundary l i"
    "\<And>i. k \<le> i \<Longrightarrow> i \<le> length l \<Longrightarrow> slice (node_content id t) p (p - k + i) = slice l k i"
    "p - k + length l \<le> length (node_content id t)"
proof -
  let ?cu = "ci_cursor it" and ?s = "node_content id t"
  note st = assms(1) [unfolded chunk_state_def]
  obtain "is" l where at: "str.cu_at ?cu is l" and p: "cu_offset_of_leaf ?cu \<le> p" "p < cu_offset_of_leaf ?cu + length l"
    using st assms(2) by auto
  define k where "k = p - cu_offset_of_leaf ?cu"
  have k: "p = cu_offset_of_leaf ?cu + k" "k < length l" using p by (auto simp: k_def)
  obtain pre post where c: "?s = pre @ l @ post" "length pre = cu_offset_of_leaf ?cu"
    using str.cu_at_content [OF at] st by (metis id_apply)
  have b: "is_char_boundary ?s (p - k + i) \<longleftrightarrow> is_char_boundary l i" if "i \<le> length l" for i
    using leaf_boundary [OF _ at that] st k(1) by simp
  show thesis
  proof (rule that [of l k "is"])
    show "cu_get_leaf ?cu = Some (Some (l, k))" using at p st by (simp add: cu_get_leaf_def str.cu_at_def k_def)
    show "utf8_valid l" using at by (simp add: str.cu_at_def str_leaf_wf_def)
    show "is_char_boundary l k" using b [of k] k st by simp
    show "slice ?s p (p - k + i) = slice l k i" if "k \<le> i" "i \<le> length l" for i
      unfolding c(1) using c(2) k that by (simp add: slice_def)
    show "p - k + length l \<le> length ?s" unfolding c(1) using c(2) k by simp
  qed (use k b at in auto)
qed

text \<open>Moving on to the next leaf keeps the state.\<close>

lemma chunk_state_next_leaf:
  assumes "chunk_state t it p e" "str.cu_at (ci_cursor it) is l"
  obtains cu' r where "next_leaf (rope_ni lib) (ci_cursor it) = Some (cu', r)"
    "chunk_state t (it\<lparr>ci_cursor := cu'\<rparr>) (cu_offset_of_leaf (ci_cursor it) + length l) e"
proof -
  let ?cu = "ci_cursor it" and ?s = "node_content id t" and ?q = "cu_offset_of_leaf (ci_cursor it) + length l"
  note st = assms(1) [unfolded chunk_state_def]
  have b: "is_char_boundary ?s ?q" using leaf_boundary [OF _ assms(2), of "length l"] st by simp
  from assms(2) show thesis
  proof (cases rule: str.next_leaf_spec)
    case (last cu')
    with st b show thesis by (intro that [of cu' None]) (auto simp: chunk_state_def)
  next
    case (step cu' is' l')
    have "chunk_state t (it\<lparr>ci_cursor := cu'\<rparr>) ?q e"
      unfolding chunk_state_def using st b step by (auto intro!: exI [of _ is'] exI [of _ l'])
    with step(1) show thesis by (rule that)
  qed
qed

lemma chunk_next_step:
  assumes "chunk_state t it p e" "p < e"
  obtains it' q where "chunk_next lib it = Some (it', Some (slice (node_content id t) p (min q e)))" "p < q"
    "chunk_state t it' q e"
proof -
  let ?cu = "ci_cursor it" and ?s = "node_content id t"
  obtain l k "is" where l: "cu_get_leaf ?cu = Some (Some (l, k))" "k < length l" "utf8_valid l"
    "is_char_boundary l k" "p = cu_offset_of_leaf ?cu + k" "str.cu_at ?cu is l"
    "\<And>i. i \<le> length l \<Longrightarrow> is_char_boundary ?s (p - k + i) \<longleftrightarrow> is_char_boundary l i"
    "\<And>i. k \<le> i \<Longrightarrow> i \<le> length l \<Longrightarrow> slice ?s p (p - k + i) = slice l k i"
    using chunk_state_leaf [OF assms] by metis
  note st = assms(1) [unfolded chunk_state_def]
  let ?q = "p - k + length l"
  obtain cu' r where n: "next_leaf (rope_ni lib) ?cu = Some (cu', r)" "chunk_state t (it\<lparr>ci_cursor := cu'\<rparr>) ?q e"
    using chunk_state_next_leaf [OF assms(1) l(6)] l(5) by (metis add_diff_cancel_right')
  define j where "j = k + min (e - p) (length l - k)"
  have j: "k \<le> j" "j \<le> length l" "p - k + j = min ?q e" using l(2,5) assms(2) by (auto simp: j_def min_def)
  have "is_char_boundary ?s (min ?q e)" using l(7) [of "length l"] st by (simp add: min_def)
  then have "is_char_boundary l j" using l(7) [OF j(2)] j(3) by simp
  then have "str_slice l k j = Some (slice ?s p (min ?q e))"
    using str_slice_spec(1) [OF l(3) j(1) l(4)] l(8) [OF j(1,2)] j(3) by simp
  then have "chunk_next lib it = Some (it\<lparr>ci_cursor := cu'\<rparr>, Some (slice ?s p (min ?q e)))"
    using st assms(2) l(1,2) n(1) by (simp add: chunk_next_def cursor_pos_def j_def)
  from that [OF this _ n(2)] l(2,5) show thesis by simp
qed

lemma chunk_next_end: "chunk_state t it p e \<Longrightarrow> e \<le> p \<Longrightarrow> chunk_next lib it = Some (it, None)"
  by (simp add: chunk_next_def chunk_state_def cursor_pos_def)

lemma chunk_collect_spec:
  "chunk_state t it p e \<Longrightarrow> \<exists>cs. chunk_collect lib it = Some cs \<and> concat cs = slice (node_content id t) p e"
proof (induction "e - p" arbitrary: it p rule: less_induct)
  case less
  show ?case
  proof (cases "p < e")
    case False
    then show ?thesis using chunk_next_end [OF less.prems] by (subst chunk_collect.simps) simp
  next
    case True
    obtain it' q where n: "chunk_next lib it = Some (it', Some (slice (node_content id t) p (min q e)))" "p < q"
      "chunk_state t it' q e"
      using chunk_next_step [OF less.prems True] by metis
    then obtain cs where "chunk_collect lib it' = Some cs" "concat cs = slice (node_content id t) q e"
      using less.hyps [of q it'] True by (auto simp: diff_less_mono2)
    then show ?thesis using n(1,2) True slice_split [of p q e "node_content id t"]
      by (cases "q \<le> e") (simp_all add: chunk_collect.simps [of lib it])
  qed
qed

lemma slice_to_cow_spec:
  assumes t: "rope_ok lib t" and iv: "into_interval bounds (n_len t) = Some (mk_iv p e)" "p \<le> e" "e \<le> n_len t"
    and b: "is_char_boundary (node_content id t) p" "is_char_boundary (node_content id t) e"
  shows "slice_to_cow lib t bounds = Some (slice (node_content id t) p e)"
proof -
  let ?s = "node_content id t"
  obtain it where it: "iter_chunks t bounds = Some it" "chunk_state t it p e" using iter_chunks_state [OF assms] by metis
  show ?thesis
  proof (cases "p < e")
    case False
    then show ?thesis using it chunk_next_end [OF it(2)] by (simp add: slice_to_cow_def)
  next
    case True
    obtain it1 q where n: "chunk_next lib it = Some (it1, Some (slice ?s p (min q e)))" "p < q" "chunk_state t it1 q e"
      using chunk_next_step [OF it(2) True] by metis
    show ?thesis
    proof (cases "q < e")
      case False
      then show ?thesis using it(1) n chunk_next_end [OF n(3)] by (simp add: slice_to_cow_def min_absorb2)
    next
      case lt: True
      obtain it2 r where m: "chunk_next lib it1 = Some (it2, Some (slice ?s q (min r e)))" "q < r" "chunk_state t it2 r e"
        using chunk_next_step [OF n(3) lt] by metis
      obtain cs where cs: "chunk_collect lib it2 = Some cs" "concat cs = slice ?s r e" using chunk_collect_spec [OF m(3)] by blast
      have "slice ?s q (min r e) @ slice ?s r e = slice ?s q e"
        using m(2) lt slice_split [of q r e ?s] by (cases "r \<le> e") simp_all
      then show ?thesis using it(1) n(1,2) m(1) cs lt slice_split [of p q e ?s]
        by (simp add: slice_to_cow_def min_absorb1)
    qed
  qed
qed


section \<open>Lines\<close>

text \<open>What a line iterator has still to deliver.\<close>

definition lines_state :: "rope \<Rightarrow> lines_raw_iter \<Rightarrow> str \<Rightarrow> bool" where
  "lines_state t it rem \<longleftrightarrow> utf8_valid (lr_fragment it)
     \<and> (\<exists>p e. chunk_state t (lr_inner it) p e \<and> rem = lr_fragment it @ slice (node_content id t) p e)"

lemma lines_raw_loop_fragment:
  assumes "lines_state t it rem" "lr_fragment it \<noteq> []"
    and step: "NL \<notin> set (lr_fragment it) \<Longrightarrow>
      \<exists>it' r. lines_raw_loop lib (it\<lparr>lr_fragment := []\<rparr>) (cow_append result (lr_fragment it)) = Some (it', r)
        \<and> r = Some (result @ lr_fragment it @ head_line (drop (length (lr_fragment it)) rem))
        \<and> lines_state t it' (drop (length (head_line rem)) rem)"
  shows "\<exists>it'. lines_raw_loop lib it result = Some (it', Some (result @ head_line rem))
    \<and> lines_state t it' (drop (length (head_line rem)) rem)"
proof -
  let ?f = "lr_fragment it"
  obtain p e where st: "chunk_state t (lr_inner it) p e" "rem = ?f @ slice (node_content id t) p e" and v: "utf8_valid ?f"
    using assms(1) by (auto simp: lines_state_def)
  show ?thesis
  proof (cases "bs_memchr lib NL ?f")
    case None
    then have nl: "NL \<notin> set ?f" by (simp add: memchr_None)
    have "lines_raw_loop lib it result = lines_raw_loop lib (it\<lparr>lr_fragment := []\<rparr>) (cow_append result ?f)"
      using None assms(2) by (subst lines_raw_loop.simps) simp
    then show ?thesis using step [OF nl] st(2) head_line_append_notin [OF nl] by auto
  next
    case (Some i)
    then have i: "i < length ?f" "?f ! i = NL" "\<forall>j < i. ?f ! j \<noteq> NL" using memchr_Some by blast+
    have b: "is_char_boundary ?f (i + 1)" using newline_boundary [OF v i(1,2)] by (simp add: cut_lead [OF v])
    note h = str_slice_halves [OF v b]
    have fl: "head_line rem = take (i + 1) ?f"
      using head_line_memchr [OF i] head_line_append_in [of ?f] nth_mem [OF i(1)] i(2) by (simp add: st(2))
    have "lines_raw_loop lib it result = Some (it\<lparr>lr_fragment := drop (i + 1) ?f\<rparr>, Some (result @ take (i + 1) ?f))"
      using Some assms(2) h by (subst lines_raw_loop.simps) (simp add: cow_append_def)
    moreover have "lines_state t (it\<lparr>lr_fragment := drop (i + 1) ?f\<rparr>) (drop (length (head_line rem)) rem)"
      unfolding lines_state_def using h(4) st i(1) fl by auto
    ultimately show ?thesis using fl by simp
  qed
qed

lemma lines_raw_loop_spec:
  "lines_state t it rem \<Longrightarrow> NL \<notin> set result \<Longrightarrow>
    \<exists>it' r. lines_raw_loop lib it result = Some (it', r)
      \<and> r = (if result @ rem = [] then None else Some (result @ head_line rem))
      \<and> lines_state t it' (drop (length (head_line rem)) rem)"
proof (induction "length rem" arbitrary: it rem result rule: less_induct)
  case less
  let ?s = "node_content id t"
  have frag: "\<exists>it'. lines_raw_loop lib it result = Some (it', Some (result @ head_line rem))
      \<and> lines_state t it' (drop (length (head_line rem)) rem)"
    if st: "lines_state t it rem" and f: "lr_fragment it \<noteq> []" for it
  proof (rule lines_raw_loop_fragment [OF st f])
    let ?f = "lr_fragment it"
    assume nl: "NL \<notin> set ?f"
    obtain p e where r: "rem = ?f @ slice ?s p e" "chunk_state t (lr_inner it) p e" using st by (auto simp: lines_state_def)
    have st': "lines_state t (it\<lparr>lr_fragment := []\<rparr>) (slice ?s p e)" using r(2) by (auto simp: lines_state_def)
    have "cow_append result ?f = result @ ?f" by (simp add: cow_append_def)
    moreover have "length (slice ?s p e) < length rem" using f by (simp only: r(1) length_append) simp
    ultimately obtain it' x where x: "lines_raw_loop lib (it\<lparr>lr_fragment := []\<rparr>) (cow_append result ?f) = Some (it', x)"
      "x = (if (result @ ?f) @ slice ?s p e = [] then None else Some ((result @ ?f) @ head_line (slice ?s p e)))"
      "lines_state t it' (drop (length (head_line (slice ?s p e))) (slice ?s p e))"
      using less.hyps [OF _ st', of "result @ ?f"] nl less.prems(2) by auto
    then show "\<exists>it' r. lines_raw_loop lib (it\<lparr>lr_fragment := []\<rparr>) (cow_append result ?f) = Some (it', r)
        \<and> r = Some (result @ ?f @ head_line (drop (length ?f) rem)) \<and> lines_state t it' (drop (length (head_line rem)) rem)"
      using f head_line_append_notin [OF nl] by (simp add: r(1))
  qed
  show ?case
  proof (cases "lr_fragment it = []")
    case False
    with frag [OF less.prems(1)] show ?thesis
      using less.prems(1) by (auto simp: lines_state_def)
  next
    case True
    obtain p e where st: "chunk_state t (lr_inner it) p e" "rem = slice ?s p e" using less.prems(1) True by (auto simp: lines_state_def)
    show ?thesis
    proof (cases "p < e")
      case False
      then have "lines_raw_loop lib it result = Some (it, if result = [] then None else Some result)"
        using chunk_next_end [OF st(1)] True by (subst lines_raw_loop.simps) simp
      moreover have "rem = []" using False st(2) by simp
      ultimately show ?thesis using less.prems(1) by (simp add: head_line_def)
    next
      case lt: True
      obtain inner q where n: "chunk_next lib (lr_inner it) = Some (inner, Some (slice ?s p (min q e)))" "p < q"
        "chunk_state t inner q e"
        using chunk_next_step [OF st(1) lt] by metis
      let ?c = "slice ?s p (min q e)" and ?it = "it\<lparr>lr_inner := inner, lr_fragment := slice ?s p (min q e)\<rparr>"
      have ne: "?c \<noteq> []" using n(2) lt st(1) by (intro slice_first) (auto simp: chunk_state_def)
      have v: "utf8_valid ?c"
        using st(1) n(2,3) lt rope_valid by (intro utf8_valid_slice) (auto simp: chunk_state_def min_def)
      have "rem = ?c @ slice ?s q e" using st(2) n(2) lt slice_split [of p q e ?s] by (cases "q \<le> e") simp_all
      then have st': "lines_state t ?it rem" using v n(3) by (auto simp: lines_state_def)
      have "lines_raw_loop lib it result = lines_raw_loop lib ?it result"
        using True n(1) ne by (subst (1 2) lines_raw_loop.simps) simp
      then show ?thesis using frag [OF st'] ne \<open>rem = ?c @ slice ?s q e\<close> by auto
    qed
  qed
qed

lemma lines_collect_spec: "lines_state t it rem \<Longrightarrow> lines_collect lib it = Some (text_lines rem)"
proof (induction "length rem" arbitrary: it rem rule: less_induct)
  case less
  obtain it' r where n: "lines_raw_loop lib it [] = Some (it', r)" "r = (if rem = [] then None else Some (head_line rem))"
    "lines_state t it' (drop (length (head_line rem)) rem)"
    using lines_raw_loop_spec [OF less.prems, of "[]"] by auto
  show ?case
  proof (cases "rem = []")
    case True
    then show ?thesis
      using n by (subst lines_collect.simps) (simp add: lines_next_def lines_raw_next_def text_lines_def raw_lines.simps)
  next
    case False
    then have "length (drop (length (head_line rem)) rem) < length rem" using head_line_nonempty [OF False] by simp
    from less.hyps [OF this n(3)] n(1,2) False show ?thesis
      by (subst lines_collect.simps) (simp add: lines_next_def lines_raw_next_def text_lines_def raw_lines.simps [of rem])
  qed
qed

lemma rope_lines_iter:
  assumes t: "rope_ok lib t" and iv: "into_interval bounds (n_len t) = Some (mk_iv p e)" "p \<le> e" "e \<le> n_len t"
    and b: "is_char_boundary (node_content id t) p" "is_char_boundary (node_content id t) e"
  shows "lines_raw t bounds \<bind> lines_collect lib = Some (text_lines (slice (node_content id t) p e))"
proof -
  obtain it where it: "iter_chunks t bounds = Some it" "chunk_state t it p e" using iter_chunks_state [OF assms] by metis
  then have "lines_state t \<lparr>lr_inner = it, lr_fragment = []\<rparr> (slice (node_content id t) p e)"
    by (auto simp: lines_state_def)
  from lines_collect_spec [OF this] it(1) show ?thesis by (simp add: lines_raw_def)
qed

end

end
