(* ===== verification/Rope_Char_Laws.thy ===== *)
theory Rope_Char_Laws
  imports Rope_Iter_Laws
begin

text \<open>
  The character iterator and the operations by character index, on the list of characters of the text
  (\<open>str_chars\<close>).
\<close>

section \<open>Characters\<close>

lemma boundary_drop: "k + i \<le> length s \<Longrightarrow> is_char_boundary s (k + i) \<Longrightarrow> is_char_boundary (drop k s) i"
  by (auto simp: is_char_boundary_def)

lemma boundary_in_char:
  assumes "utf8_char c" "is_char_boundary (c @ r) i" "utf8_valid r" "0 < i"
  shows "length c \<le> i"
  using is_char_boundary_append_char [OF assms(1,3,2)] assms(4) by auto

text \<open>The byte offset of a character index.\<close>

definition char_offset :: "str \<Rightarrow> nat \<Rightarrow> nat" where
  "char_offset s k = length (concat (take k (str_chars s)))"

context byte_search_laws
begin

lemma char_from_spec:
  assumes "utf8_valid l" "is_char_boundary l k" "k < length l"
  obtains c r where "char_from l k = Some (Some c)" "utf8_char c" "drop k l = c @ r" "utf8_valid r"
proof -
  note h = str_slice_halves [OF assms(1,2)]
  obtain c r where c: "utf8_char c" "drop k l = c @ r" "utf8_valid r" using utf8_first [OF h(4)] assms(3) by auto
  then have "char_from l k = Some (Some c)" by (simp add: char_from_def h(2) str_chars_append)
  with c that show thesis by blast
qed

text \<open>A cursor set to a place in its own leaf stays in that leaf.\<close>

lemma cursor_set_here:
  assumes "str.cu_at cu is l" "cu_offset_of_leaf cu \<le> q" "q < cu_offset_of_leaf cu + length l"
  shows "cursor_set (rope_ni lib) cu q = Some (cu\<lparr>cu_position := q\<rparr>)"
proof -
  have "cu_leaf cu = Some l" using assms(1) by (simp add: str.cu_at_def)
  moreover have "leaf_len (rope_ni lib) l = length l" by (simp add: rope_ni_def)
  ultimately show ?thesis using assms(2,3) by (simp add: cursor_set_def Let_def)
qed

lemma chars_next_step:
  assumes "chunk_state t it p e" "p < e"
  obtains it' c where "chars_next lib it = Some (it', Some c)" "utf8_char c" "p + length c \<le> e"
    "slice (node_content id t) p (p + length c) = c" "chunk_state t it' (p + length c) e"
proof -
  let ?cu = "ci_cursor it" and ?s = "node_content id t"
  obtain l k "is" where l: "cu_get_leaf ?cu = Some (Some (l, k))" "k < length l" "utf8_valid l"
    "is_char_boundary l k" "p = cu_offset_of_leaf ?cu + k" "str.cu_at ?cu is l"
    "\<And>i. i \<le> length l \<Longrightarrow> is_char_boundary ?s (p - k + i) \<longleftrightarrow> is_char_boundary l i"
    "\<And>i. k \<le> i \<Longrightarrow> i \<le> length l \<Longrightarrow> slice ?s p (p - k + i) = slice l k i"
    using chunk_state_leaf [OF assms] by metis
  note st = assms(1) [unfolded chunk_state_def]
  obtain c r where c: "char_from l k = Some (Some c)" "utf8_char c" "drop k l = c @ r" "utf8_valid r"
    using char_from_spec [OF l(3,4,2)] by metis
  have len: "k + length c \<le> length l" "0 < length c"
    using arg_cong [OF c(3), of length] l(2) c(2) by (auto elim: utf8_char_lead)
  have sl: "slice l k (k + length c) = c" using c(3) by (simp add: slice_def)
  have e: "p + length c \<le> e"
  proof (cases "e \<le> p - k + length l")
    case True
    have "is_char_boundary l (k + (e - p))" using l(7) [of "k + (e - p)"] l(5) True assms(2) st by simp
    then have "is_char_boundary (c @ r) (e - p)" using boundary_drop [of k "e - p" l] True l(5) assms(2) c(3) by simp
    then show ?thesis using boundary_in_char [OF c(2) _ c(4)] assms(2) by fastforce
  qed (use len l(5) in simp)
  have b: "is_char_boundary l (k + length c)"
    using utf8_valid_lead [OF c(4)] arg_cong [OF c(3), of "\<lambda>xs. xs ! length c"] len(1) arg_cong [OF c(3), of length]
    by (cases r) (auto simp: is_char_boundary_def starts_ok_def nth_append)
  have bs: "is_char_boundary ?s (p + length c)" using l(7) [OF len(1)] b l(5) by (simp add: add.assoc)
  have pos: "\<not> e \<le> p" "cursor_pos ?cu = p" "ci_end it = e" "\<not> length l \<le> k" using st assms(2) l(2) by (auto simp: cursor_pos_def)
  obtain cu' where cu': "(if k + length c \<ge> length l then do { (cu, _) \<leftarrow> next_leaf (rope_ni lib) ?cu; Some cu }
      else cursor_set (rope_ni lib) ?cu (p + length c)) = Some cu'" "chunk_state t (it\<lparr>ci_cursor := cu'\<rparr>) (p + length c) e"
  proof (cases "k + length c \<ge> length l")
    case True
    obtain cu' x where "next_leaf (rope_ni lib) ?cu = Some (cu', x)"
      "chunk_state t (it\<lparr>ci_cursor := cu'\<rparr>) (cu_offset_of_leaf ?cu + length l) e"
      using chunk_state_next_leaf [OF assms(1) l(6)] by metis
    moreover have "cu_offset_of_leaf ?cu + length l = p + length c" using True len(1) l(5) by simp
    ultimately show thesis using that True by simp
  next
    case False
    let ?cu' = "?cu\<lparr>cu_position := p + length c\<rparr>"
    have "cursor_set (rope_ni lib) ?cu (p + length c) = Some ?cu'"
      using cursor_set_here [OF l(6)] False l(5) by simp
    moreover have "str.cu_at ?cu' is l" using l(6) by (simp add: str.cu_at_position)
    then have "chunk_state t (it\<lparr>ci_cursor := ?cu'\<rparr>) (p + length c) e"
      unfolding chunk_state_def using st bs False l(5)
      by (intro conjI impI exI [of _ "is"] exI [of _ l]) auto
    ultimately show thesis using that False by simp
  qed
  have "cursor_pos cu' = p + length c" using cu'(2) by (simp add: chunk_state_def cursor_pos_def)
  then have "chars_next lib it = Some (it\<lparr>ci_cursor := cu'\<rparr>, Some c)"
    using pos c(1) l(1) cu'(1) e
    by (subst chars_next.simps) (auto simp: Let_def bind_eq_Some_conv split: if_splits)
  moreover have "slice ?s p (p + length c) = c" using l(8) [of "k + length c"] len(1) sl l(5) by (simp add: add.assoc)
  ultimately show thesis using that c(2) e cu'(2) by blast
qed

lemma chars_collect_spec:
  "chunk_state t it p e \<Longrightarrow> chars_collect lib it = Some (str_chars (slice (node_content id t) p e))"
proof (induction "e - p" arbitrary: it p rule: less_induct)
  case less
  show ?case
  proof (cases "p < e")
    case False
    then have "chars_next lib it = Some (it, None)"
      using less.prems by (subst chars_next.simps) (simp add: chunk_state_def cursor_pos_def)
    with False show ?thesis by (subst chars_collect.simps) simp
  next
    case True
    obtain it' c where n: "chars_next lib it = Some (it', Some c)" "utf8_char c" "p + length c \<le> e"
      "slice (node_content id t) p (p + length c) = c" "chunk_state t it' (p + length c) e"
      using chars_next_step [OF less.prems True] by metis
    have "0 < length c" using n(2) by (auto elim: utf8_char_lead)
    then have IH: "chars_collect lib it' = Some (str_chars (slice (node_content id t) (p + length c) e))"
      using less.hyps [of "p + length c" it'] n(5) True by (simp add: diff_less_mono2)
    have "slice (node_content id t) p e = c @ slice (node_content id t) (p + length c) e"
      using slice_split [of p "p + length c" e "node_content id t"] n(3,4) by simp
    then show ?thesis using n(1,2) IH by (subst chars_collect.simps) (simp add: str_chars_append)
  qed
qed


section \<open>Character indices\<close>

lemma char_offset_spec:
  assumes "utf8_valid s" "k \<le> length (str_chars s)"
  shows "is_char_boundary s (char_offset s k)" "take (char_offset s k) s = concat (take k (str_chars s))"
    "drop (char_offset s k) s = concat (drop k (str_chars s))"
    "str_chars (take (char_offset s k) s) = take k (str_chars s)" "str_chars (drop (char_offset s k) s) = drop k (str_chars s)"
    "mpos_at is_lead (cnt is_lead) s k (char_offset s k)"
proof -
  let ?cs = "str_chars s" and ?i = "char_offset s k"
  have s: "s = concat (take k ?cs) @ concat (drop k ?cs)" by (metis append_take_drop_id concat_append concat_str_chars)
  show t: "take ?i s = concat (take k ?cs)" and d: "drop ?i s = concat (drop k ?cs)"
    by (subst s, simp add: char_offset_def)+
  have all: "list_all utf8_char ?cs" using assms(1) by (simp add: utf8_valid_def)
  have chars: "str_chars (concat cs) = cs" "utf8_valid (concat cs)" if "list_all utf8_char cs" for cs
    using that by (induction cs) (simp_all add: str_chars_append utf8_valid_append_char)
  have tk: "list_all utf8_char (take k ?cs)" "list_all utf8_char (drop k ?cs)"
    using all set_take_subset [of k ?cs] set_drop_subset [of k ?cs] by (auto simp: list_all_iff)
  show "str_chars (take ?i s) = take k ?cs" "str_chars (drop ?i s) = drop k ?cs" using t d chars(1) tk by simp_all
  have le: "?i \<le> length s" by (subst (2) s) (simp add: char_offset_def)
  show b: "is_char_boundary s ?i"
  proof (cases "?i < length s")
    case True
    have "utf8_valid (drop ?i s)" using d chars(2) [OF tk(2)] by simp
    with True have "\<not> is_cont (hd (drop ?i s))" using utf8_valid_lead [of "drop ?i s"] by (simp add: starts_ok_def)
    then show ?thesis using True by (simp add: is_char_boundary_def hd_drop_conv_nth)
  qed (use le in \<open>simp add: is_char_boundary_def\<close>)
  have "cnt is_lead (take ?i s) = k"
    using length_str_chars [OF chars(2) [OF tk(1)]] chars(1) [OF tk(1)] t assms(2) by simp
  then show "mpos_at is_lead (cnt is_lead) s k ?i"
    using chars.mpos_at_atomic [of s ?i] b cut_lead [OF assms(1)] by (simp add: chars_metric_def)
qed

lemma len_chars_spec: "rope_ok lib t \<Longrightarrow> len_chars t = length (str_chars (node_content id t))"
  using chars.node_measure rope_valid length_str_chars by (simp add: len_chars_def)

lemma count_chars_spec:
  assumes "rope_ok lib t" "k \<le> length (str_chars (node_content id t))"
  shows "count_base_units base_metric chars_metric t k = Some (char_offset (node_content id t) k)"
proof -
  note v = rope_valid [OF assms(1)]
  note c = char_offset_spec [OF v assms(2)]
  show ?thesis
    using chars_base.convert_metrics_spec [OF assms(1) c(6)] is_char_boundary_le [OF c(1)] by (simp add: count_base_units_def)
qed

lemma edit_str_spec:
  assumes t: "rope_ok lib t" and v: "utf8_valid new"
    and iv: "into_interval bounds (n_len t) = Some (mk_iv b e)" "b \<le> e"
    and cut: "is_char_boundary (node_content id t) b" "is_char_boundary (node_content id t) e"
  obtains t' where "edit_str lib t bounds new = Some t'" "rope_ok lib t'"
    "node_content id t' = take b (node_content id t) @ new @ drop e (node_content id t)"
proof -
  obtain n where n: "rope_from_str lib new = Some n" "rope_ok lib n" "node_content id n = new"
    using rope_from_str_spec [OF v] by metis
  obtain t' where "node_edit (rope_ni lib) t bounds n = Some t'" "rope_ok lib t'"
    "node_content id t' = take b (node_content id t) @ new @ drop e (node_content id t)"
    using str.node_edit_spec [OF t n(2) iv] cut n(3) by (metis cut_lead rope_valid t)
  with n(1) that show thesis by (simp add: edit_str_def)
qed

lemma char_offset_mono: "i \<le> j \<Longrightarrow> char_offset s i \<le> char_offset s j"
  by (metis char_offset_def append_take_drop_id concat_append le_add1 length_append min.absorb1 take_take)

text \<open>Replacing characters: the list of characters of the result.\<close>

lemma replace_chars:
  assumes t: "rope_ok lib t" and v: "utf8_valid txt" and k: "i \<le> j" "j \<le> length (str_chars (node_content id t))"
    and bounds: "into_interval bounds (n_len t) = Some (mk_iv (char_offset (node_content id t) i) (char_offset (node_content id t) j))"
  obtains t' where "edit_str lib t bounds txt = Some t'" "rope_ok lib t'"
    "str_chars (node_content id t') = take i (str_chars (node_content id t)) @ str_chars txt @ drop j (str_chars (node_content id t))"
proof -
  let ?s = "node_content id t"
  note val = rope_valid [OF t]
  have "i \<le> length (str_chars ?s)" using k by simp
  note a = char_offset_spec [OF val this] and b = char_offset_spec [OF val k(2)]
  obtain t' where t': "edit_str lib t bounds txt = Some t'" "rope_ok lib t'"
    "node_content id t' = take (char_offset ?s i) ?s @ txt @ drop (char_offset ?s j) ?s"
    using edit_str_spec [OF t v bounds char_offset_mono [OF k(1)] a(1) b(1)] by metis
  have "utf8_valid (take (char_offset ?s i) ?s)" using utf8_valid_cut [OF val a(1)] by simp
  then have "str_chars (node_content id t') = take i (str_chars ?s) @ str_chars txt @ drop j (str_chars ?s)"
    using t'(3) a(4) b(5) by (simp add: str_chars_valid_append [OF v] str_chars_valid_append)
  with t'(1,2) that show thesis by blast
qed


lemma get_char_spec:
  assumes t: "rope_ok lib t"
  shows "get_char t k = Some (let cs = str_chars (node_content id t) in if k < length cs then Some (cs ! k) else None)"
proof (cases "k < length (str_chars (node_content id t))")
  case True
  let ?s = "node_content id t" and ?cs = "str_chars (node_content id t)"
  note val = rope_valid [OF t]
  note o = char_offset_spec [OF val less_imp_le [OF True]]
  let ?p = "char_offset ?s k"
  have lt: "?p < length ?s"
  proof (rule ccontr)
    assume "\<not> ?thesis"
    then have "drop ?p ?s = []" by simp
    with o(5) True show False by simp
  qed
  obtain cu "is" l where cu: "cursor_new t ?p = Some cu" "cu_root cu = t" "cu_position cu = ?p"
    "str.cu_at cu is l" "str.cu_inside cu l"
    using str.cursor_new_spec [OF t less_imp_le [OF lt]] by metis
  define q where "q = ?p - cu_offset_of_leaf cu"
  have q: "?p = cu_offset_of_leaf cu + q" "q < length l" using cu(2,3,5) lt by (auto simp: str.cu_inside_def q_def)
  have l: "utf8_valid l" "cu_leaf cu = Some l" using cu(4) by (simp_all add: str.cu_at_def str_leaf_wf_def)
  have b: "is_char_boundary l q" using leaf_boundary [of cu "is" l q] t cu(2,4) q o(1) by simp
  obtain c r where c: "char_from l q = Some (Some c)" "utf8_char c" "drop q l = c @ r"
    using char_from_spec [OF l(1) b q(2)] by metis
  obtain pre post where s: "?s = pre @ l @ post" "length pre = cu_offset_of_leaf cu"
    using str.cu_at_content [OF cu(4)] cu(2) by (metis id_apply)
  have "drop ?p ?s = drop (length pre + q) (pre @ l @ post)" using s q(1) by simp
  also have "\<dots> = c @ r @ post" using q(2) c(3) by simp
  finally have "drop ?p ?s = c @ r @ post" .
  then have "drop k ?cs = c # str_chars (r @ post)" using o(5) str_chars_append [OF c(2)] by simp
  then have "?cs ! k = c" by (metis True hd_drop_conv_nth list.sel(1))
  then show ?thesis
    using True c(1) cu(1,3) l(2) q count_chars_spec [OF t less_imp_le [OF True]] len_chars_spec [OF t]
    by (simp add: get_char_def peek_next_codepoint_def cu_get_leaf_def)
qed (simp add: get_char_def len_chars_spec [OF t])

lemma try_char_to_byte_spec:
  assumes t: "rope_ok lib t"
  defines "cs \<equiv> str_chars (node_content id t)"
  shows "try_char_to_byte t k = Some (if length cs < k then Inl (CharOffsetOutOfBounds k (length cs))
    else Inr (char_offset (node_content id t) k))"
  using count_chars_spec [OF t, of k] len_chars_spec [OF t] by (simp add: try_char_to_byte_def cs_def)

lemma try_byte_to_char_spec:
  assumes t: "rope_ok lib t" and k: "k \<le> length (str_chars (node_content id t))"
  shows "try_byte_to_char lib t (char_offset (node_content id t) k) = Some (Inr k)"
proof -
  let ?s = "node_content id t"
  note val = rope_valid [OF t]
  note o = char_offset_spec [OF val k]
  have le: "char_offset ?s k \<le> n_len t" using is_char_boundary_le [OF o(1)] str.wf_len [OF t] by simp
  have cut: "cut_ok is_lead ?s (char_offset ?s k)" using o(1) cut_lead [OF val] by simp
  have "node_count base_metric chars_metric t (char_offset ?s k) = Some (cnt is_lead (take (char_offset ?s k) ?s))"
    using base_chars.convert_metrics_spec [OF t mpos_at_length [OF cut]] by (simp add: node_count_def)
  moreover have "cnt is_lead (take (char_offset ?s k) ?s) = k" using o(6) by (simp add: mpos_at_def)
  ultimately show ?thesis
    using is_codepoint_boundary_spec [OF t le] o(1) le
    by (simp add: try_byte_to_char_def validate_offset_def at_or_prev_codepoint_boundary_def)
qed

lemma try_replace_spec:
  assumes t: "rope_ok lib t" and v: "utf8_valid txt"
  defines "cs \<equiv> str_chars (node_content id t)"
  shows "i \<le> j \<Longrightarrow> j \<le> length cs \<Longrightarrow> \<exists>t'. try_replace lib t (Included i) (Excluded j) txt = Some (Inr t') \<and> rope_ok lib t'
      \<and> str_chars (node_content id t') = take i cs @ str_chars txt @ drop j cs"
    "j < i \<Longrightarrow> try_replace lib t (Included i) (Excluded j) txt = Some (Inl (CharReversedInterval i j))"
    "i \<le> j \<Longrightarrow> length cs < j \<Longrightarrow> try_replace lib t (Included i) (Excluded j) txt = Some (Inl (CharIntervalOutOfBounds i j (length cs)))"
proof -
  let ?s = "node_content id t"
  show "\<exists>t'. try_replace lib t (Included i) (Excluded j) txt = Some (Inr t') \<and> rope_ok lib t'
      \<and> str_chars (node_content id t') = take i cs @ str_chars txt @ drop j cs" if ij: "i \<le> j" "j \<le> length cs"
  proof -
    have "into_interval (BRange (char_offset ?s i) (char_offset ?s j)) (n_len t) = Some (mk_iv (char_offset ?s i) (char_offset ?s j))"
      by (simp add: mk_iv_def)
    then obtain t' where "edit_str lib t (BRange (char_offset ?s i) (char_offset ?s j)) txt = Some t'" "rope_ok lib t'"
      "str_chars (node_content id t') = take i cs @ str_chars txt @ drop j cs"
      using replace_chars [OF t v ij(1) ij(2) [unfolded cs_def]] cs_def by metis
    then show ?thesis using ij count_chars_spec [OF t, of i] count_chars_spec [OF t, of j] len_chars_spec [OF t]
      by (simp add: try_replace_def char_range_to_indices_def cs_def)
  qed
qed (use len_chars_spec [OF t] in \<open>simp_all add: try_replace_def char_range_to_indices_def cs_def\<close>)

lemma try_split_off_spec:
  assumes t: "rope_ok lib t"
  defines "cs \<equiv> str_chars (node_content id t)"
  assumes k: "k \<le> length cs"
  shows "\<exists>left right. try_split_off lib t k = Some (Inr (left, right)) \<and> rope_ok lib left \<and> rope_ok lib right
    \<and> str_chars (node_content id left) = take k cs \<and> str_chars (node_content id right) = drop k cs"
proof -
  let ?s = "node_content id t" and ?p = "char_offset (node_content id t) k"
  note val = rope_valid [OF t]
  note o = char_offset_spec [OF val k [unfolded cs_def]]
  have len: "n_len t = length ?s" using str.wf_len [OF t] .
  have le: "?p \<le> length ?s" using is_char_boundary_le [OF o(1)] .
  have iv: "into_interval (BRangeFrom ?p) (n_len t) = Some (mk_iv ?p (length ?s))"
    using le len by (simp add: interval_new_def mk_iv_def)
  have cut: "cut_ok is_lead ?s ?p" using o(1) cut_lead [OF val] by simp
  obtain right where r: "node_subseq (rope_ni lib) t (BRangeFrom ?p) = Some right" "rope_ok lib right"
    "node_content id right = slice ?s ?p (length ?s)"
    using str.node_subseq_spec [OF t iv le cut cut_ok_length] by metis
  obtain left where l: "edit_str lib t (BRangeFrom ?p) [] = Some left" "rope_ok lib left"
    "node_content id left = take ?p ?s @ [] @ drop (length ?s) ?s"
    using edit_str_spec [OF t _ iv le o(1)] by (metis is_char_boundary_0(2) utf8_valid_Nil)
  have "node_content id right = drop ?p ?s" using r(3) by (simp add: slice_def)
  then show ?thesis
    using l r o(4,5) try_char_to_byte_spec [OF t, of k] k by (simp add: try_split_off_def cs_def)
qed

end

end
