(* ===== verification/Core_Words.thy ===== *)
theory Core_Words
  imports Rope_Char_Laws
begin

text \<open>
  Word boundaries, from \<^verbatim>\<open>xi-core-lib/src/word_boundaries.rs\<close>: the classes of characters, the kind of boundary
  between two of them, and the cursor that walks from boundary to boundary and selects the word around a
  position.  A word cursor is the rope cursor that it wraps.
\<close>

section \<open>Classes and boundaries\<close>

datatype word_boundary = Interior | Start | End | Both

datatype word_property = Lf | Space | Punctuation | Other

definition wb_is_start :: "word_boundary \<Rightarrow> bool" where
  "wb_is_start b \<longleftrightarrow> b = Start \<or> b = Both"

definition wb_is_end :: "word_boundary \<Rightarrow> bool" where
  "wb_is_end b \<longleftrightarrow> b = End \<or> b = Both"

definition wb_is_boundary :: "word_boundary \<Rightarrow> bool" where
  "wb_is_boundary b \<longleftrightarrow> b \<noteq> Interior"

fun classify_boundary :: "word_property \<Rightarrow> word_property \<Rightarrow> word_boundary" where
  "classify_boundary Lf _ = Both"
| "classify_boundary _ Lf = Both"
| "classify_boundary Space Other = Start"
| "classify_boundary Space Punctuation = Start"
| "classify_boundary Punctuation Other = Start"
| "classify_boundary Other Space = End"
| "classify_boundary Punctuation Space = End"
| "classify_boundary Other Punctuation = End"
| "classify_boundary _ _ = Interior"

fun classify_boundary_initial :: "word_property \<Rightarrow> word_property \<Rightarrow> word_boundary" where
  "classify_boundary_initial Lf Other = Start"
| "classify_boundary_initial Other Lf = End"
| "classify_boundary_initial Lf Space = Interior"
| "classify_boundary_initial Lf Punctuation = Interior"
| "classify_boundary_initial Space Lf = Interior"
| "classify_boundary_initial Punctuation Lf = Interior"
| "classify_boundary_initial Space Punctuation = Interior"
| "classify_boundary_initial Punctuation Space = Interior"
| "classify_boundary_initial prev nxt = classify_boundary prev nxt"

text \<open>The scalar value that a character encodes.\<close>

fun char_value :: "str \<Rightarrow> nat" where
  "char_value [a] = unat a"
| "char_value [a, b] = unat (a AND 0x1F) * 64 + unat (b AND 0x3F)"
| "char_value [a, b, c] = (unat (a AND 0x0F) * 64 + unat (b AND 0x3F)) * 64 + unat (c AND 0x3F)"
| "char_value (a # b # c # d # _) =
     ((unat (a AND 0x07) * 64 + unat (b AND 0x3F)) * 64 + unat (c AND 0x3F)) * 64 + unat (d AND 0x3F)"
| "char_value [] = 0"

text \<open>The two masks of the source, one bit for each of 64 characters.\<close>

definition get_word_property :: "str \<Rightarrow> word_property" where
  "get_word_property c =
     (let codepoint = char_value c
      in if codepoint \<le> 0x20 then (if codepoint = 0x0A \<or> codepoint = 0x0D then Lf else Space)
         else if codepoint \<le> 0x3F then
           (if drop_bit codepoint (0xfc00fffe00000000 :: 64 word) AND 1 \<noteq> 0 then Punctuation else Other)
         else if codepoint \<le> 0x7F then
           (if drop_bit (codepoint mod 64) (0x7800000178000001 :: 64 word) AND 1 \<noteq> 0 then Punctuation else Other)
         else Other)"


section \<open>The word cursor\<close>

definition wc_new :: "rope \<Rightarrow> nat \<Rightarrow> rope_cursor option" where
  "wc_new t pos = cursor_new t pos"

partial_function (option) prev_boundary_loop ::
  "byte_search \<Rightarrow> rope_cursor \<Rightarrow> word_property \<Rightarrow> nat \<Rightarrow> (rope_cursor \<times> nat) option" where
  "prev_boundary_loop lib cu prop candidate = do {
     (cu, r) \<leftarrow> prev_codepoint lib cu;
     case r of
       None \<Rightarrow> Some (cu, candidate)
     | Some prev \<Rightarrow>
         let prop_prev = get_word_property prev
         in if wb_is_start (classify_boundary prop_prev prop) then Some (cu, candidate)
            else prev_boundary_loop lib cu prop_prev (cursor_pos cu) }"

declare prev_boundary_loop.simps [code]

definition wc_prev_boundary :: "byte_search \<Rightarrow> rope_cursor \<Rightarrow> (rope_cursor \<times> nat option) option" where
  "wc_prev_boundary lib cu = do {
     (cu, r) \<leftarrow> prev_codepoint lib cu;
     case r of
       None \<Rightarrow> Some (cu, None)
     | Some ch \<Rightarrow> do {
         (cu, candidate) \<leftarrow> prev_boundary_loop lib cu (get_word_property ch) (cursor_pos cu);
         cu \<leftarrow> cursor_set (rope_ni lib) cu candidate;
         Some (cu, Some candidate) } }"

partial_function (option) next_boundary_loop ::
  "byte_search \<Rightarrow> rope_cursor \<Rightarrow> word_property \<Rightarrow> nat \<Rightarrow> (rope_cursor \<times> nat) option" where
  "next_boundary_loop lib cu prop candidate = do {
     (cu, r) \<leftarrow> next_codepoint lib cu;
     case r of
       None \<Rightarrow> Some (cu, candidate)
     | Some nxt \<Rightarrow>
         let prop_next = get_word_property nxt
         in if wb_is_end (classify_boundary prop prop_next) then Some (cu, candidate)
            else next_boundary_loop lib cu prop_next (cursor_pos cu) }"

declare next_boundary_loop.simps [code]

definition wc_next_boundary :: "byte_search \<Rightarrow> rope_cursor \<Rightarrow> (rope_cursor \<times> nat option) option" where
  "wc_next_boundary lib cu = do {
     (cu, r) \<leftarrow> next_codepoint lib cu;
     case r of
       None \<Rightarrow> Some (cu, None)
     | Some ch \<Rightarrow> do {
         (cu, candidate) \<leftarrow> next_boundary_loop lib cu (get_word_property ch) (cursor_pos cu);
         cu \<leftarrow> cursor_set (rope_ni lib) cu candidate;
         Some (cu, Some candidate) } }"

text \<open>
  The two loops of \<^verbatim>\<open>select_word\<close>, backwards to the start and forwards to the end of the selection; \<open>stop\<close> is
  the test on the side of the boundary.
\<close>

definition select_stop ::
  "(word_boundary \<Rightarrow> bool) \<Rightarrow> word_boundary \<Rightarrow> bool \<Rightarrow> word_property \<Rightarrow> word_property \<Rightarrow> bool" where
  "select_stop stop init_boundary at_initial pb pa =
     (if at_initial then stop init_boundary
      else if \<not> wb_is_boundary init_boundary then wb_is_boundary (classify_boundary pb pa)
      else stop (classify_boundary pb pa))"

partial_function (option) select_start_loop ::
  "byte_search \<Rightarrow> nat \<Rightarrow> word_boundary \<Rightarrow> rope_cursor \<Rightarrow> nat \<Rightarrow> word_property option \<Rightarrow> word_property option
    \<Rightarrow> (rope_cursor \<times> nat) option" where
  "select_start_loop lib initial init_boundary cu start prop_before prop_after =
     (case (prop_before, prop_after) of
        (Some pb, Some pa) \<Rightarrow>
          if select_stop wb_is_start init_boundary (start = initial) pb pa then Some (cu, start)
          else do {
            let start = cursor_pos cu;
            (cu, c) \<leftarrow> prev_codepoint lib cu;
            select_start_loop lib initial init_boundary cu start (map_option get_word_property c) prop_before }
      | _ \<Rightarrow> Some (cu, start))"

declare select_start_loop.simps [code]

partial_function (option) select_end_loop ::
  "byte_search \<Rightarrow> nat \<Rightarrow> word_boundary \<Rightarrow> rope_cursor \<Rightarrow> nat \<Rightarrow> word_property option \<Rightarrow> word_property option
    \<Rightarrow> (rope_cursor \<times> nat) option" where
  "select_end_loop lib initial init_boundary cu end prop_before prop_after =
     (case (prop_before, prop_after) of
        (Some pb, Some pa) \<Rightarrow>
          if select_stop wb_is_end init_boundary (end = initial) pb pa then Some (cu, end)
          else do {
            let end = cursor_pos cu;
            (cu, c) \<leftarrow> next_codepoint lib cu;
            select_end_loop lib initial init_boundary cu end prop_after (map_option get_word_property c) }
      | _ \<Rightarrow> Some (cu, end))"

declare select_end_loop.simps [code]

definition select_word :: "byte_search \<Rightarrow> rope_cursor \<Rightarrow> (rope_cursor \<times> nat \<times> nat) option" where
  "select_word lib cu = do {
     let initial = cursor_pos cu;
     (cu, c) \<leftarrow> next_codepoint lib cu;
     let init_prop_after = map_option get_word_property c;
     cu \<leftarrow> cursor_set (rope_ni lib) cu initial;
     (cu, c) \<leftarrow> prev_codepoint lib cu;
     let init_prop_before = map_option get_word_property c;
     let init_boundary = (case (init_prop_before, init_prop_after) of
         (Some pb, Some pa) \<Rightarrow> classify_boundary_initial pb pa
       | _ \<Rightarrow> Both);
     (cu, start, prop_before, prop_after) \<leftarrow>
       (if init_prop_after = None then do {
          let start = cursor_pos cu;
          (cu, c) \<leftarrow> prev_codepoint lib cu;
          Some (cu, start, map_option get_word_property c, init_prop_before) }
        else Some (cu, initial, init_prop_before, init_prop_after));
     (cu, start) \<leftarrow> select_start_loop lib initial init_boundary cu start prop_before prop_after;
     cu \<leftarrow> cursor_set (rope_ni lib) cu initial;
     (cu, end, prop_before, prop_after) \<leftarrow>
       (if init_prop_before = None then do {
          (cu, c) \<leftarrow> next_codepoint lib cu;
          let end = cursor_pos cu;
          (cu, d) \<leftarrow> next_codepoint lib cu;
          Some (cu, end, map_option get_word_property c, map_option get_word_property d) }
        else Some (cu, initial, init_prop_before, init_prop_after));
     (cu, end) \<leftarrow> select_end_loop lib initial init_boundary cu end prop_before prop_after;
     cu \<leftarrow> cursor_set (rope_ni lib) cu end;
     Some (cu, start, end) }"


section \<open>Stepping over characters\<close>

lemma str_chars_drop:
  assumes "utf8_char c" "slice s p (p + length c) = c" "p + length c \<le> length s"
  shows "str_chars (drop p s) = c # str_chars (drop (p + length c) s)"
proof -
  have "drop p s = c @ drop (p + length c) s"
    using assms(2) append_take_drop_id [of "length c" "drop p s"] by (simp add: slice_def add.commute)
  then show ?thesis using str_chars_append [OF assms(1)] by simp
qed

lemma utf8_char_nonempty: "utf8_char c \<Longrightarrow> 0 < length c"
  by (auto elim: utf8_char_lead)

context byte_search_laws
begin

text \<open>A cursor in the leaf around the boundary \<open>p\<close>, and a cursor that any position can be set on.\<close>

definition cu_state :: "rope \<Rightarrow> rope_cursor \<Rightarrow> nat \<Rightarrow> bool" where
  "cu_state t cu p \<longleftrightarrow> rope_ok lib t \<and> cu_root cu = t \<and> cu_position cu = p \<and> is_char_boundary (node_content id t) p
     \<and> (\<exists>is l. str.cu_at cu is l \<and> str.cu_inside cu l)"

definition cu_valid :: "rope \<Rightarrow> rope_cursor \<Rightarrow> bool" where
  "cu_valid t cu \<longleftrightarrow> rope_ok lib t \<and> cu_root cu = t
     \<and> (cu_leaf cu = None \<and> str.cache_clean cu \<or> (\<exists>is l. str.cu_at cu is l))"

lemma cu_state_valid: "cu_state t cu p \<Longrightarrow> cu_valid t cu"
  by (auto simp: cu_state_def cu_valid_def)

lemma cu_state_None: "cu_state t cu p \<Longrightarrow> cu_valid t (cu\<lparr>cu_leaf := None\<rparr>)"
  using str.cu_at_clean by (auto simp: cu_state_def cu_valid_def str.cache_clean_def)

lemma cursor_new_state:
  assumes "rope_ok lib t" "is_char_boundary (node_content id t) p"
  obtains cu where "cursor_new t p = Some cu" "cu_state t cu p"
  using str.cursor_new_spec [OF assms(1) is_char_boundary_le [OF assms(2)]] assms unfolding cu_state_def by metis

lemma cursor_set_total:
  assumes "cu_valid t cu" "q \<le> length (node_content id t)"
  obtains cu' where "cursor_set (rope_ni lib) cu q = Some cu'" "cu_valid t cu'"
    "cu_leaf cu = None \<Longrightarrow> is_char_boundary (node_content id t) q \<Longrightarrow> cu_state t cu' q"
proof (cases "cu_leaf cu")
  case None
  let ?c = "cu\<lparr>cu_position := q\<rparr>"
  have "cursor_set (rope_ni lib) cu q = descend ?c" using None by (simp add: cursor_set_def)
  moreover have "str.cache_clean ?c" "cu_root ?c = t" "rope_ok lib t"
    using assms(1) None by (auto simp: cu_valid_def str.cache_clean_def str.cu_at_def)
  ultimately show thesis
    using str.descend_spec [of ?c] assms(2) that unfolding cu_state_def cu_valid_def by (metis (no_types, lifting) cursor.select_convs(2) cursor.surjective cursor.update_convs(2))
next
  case (Some l0)
  then obtain "is" l where "str.cu_at cu is l" "cu_root cu = t" "rope_ok lib t" using assms(1) by (auto simp: cu_valid_def)
  with str.cursor_set_spec [of cu "is" l q] assms(2) Some that show thesis
    unfolding cu_valid_def by (metis option.distinct(1))
qed

lemma cu_state_chunk: "cu_state t cu p \<Longrightarrow> p < length (node_content id t) \<Longrightarrow>
    chunk_state t \<lparr>ci_cursor = cu, ci_end = length (node_content id t)\<rparr> p (length (node_content id t))"
  by (auto simp: cu_state_def chunk_state_def str.cu_inside_def)

lemma next_codepoint_step:
  assumes "cu_state t cu p" "p < length (node_content id t)"
  obtains cu' c where "next_codepoint lib cu = Some (cu', Some c)" "utf8_char c" "p + length c \<le> length (node_content id t)"
    "slice (node_content id t) p (p + length c) = c" "cu_state t cu' (p + length c)"
proof -
  let ?s = "node_content id t" and ?n = "length (node_content id t)"
  note st = assms(1) [unfolded cu_state_def]
  obtain l k "is" where l: "cu_get_leaf cu = Some (Some (l, k))" "k < length l" "utf8_valid l"
    "is_char_boundary l k" "p = cu_offset_of_leaf cu + k" "str.cu_at cu is l"
    "\<And>i. i \<le> length l \<Longrightarrow> is_char_boundary ?s (p - k + i) \<longleftrightarrow> is_char_boundary l i"
    "\<And>i. k \<le> i \<Longrightarrow> i \<le> length l \<Longrightarrow> slice ?s p (p - k + i) = slice l k i" "p - k + length l \<le> ?n"
    using chunk_state_leaf [OF cu_state_chunk [OF assms] assms(2)] by (metis chunk_iter.select_convs(1))
  obtain c r where c: "char_from l k = Some (Some c)" "utf8_char c" "drop k l = c @ r" "utf8_valid r"
    using char_from_spec [OF l(3,4,2)] by metis
  obtain q where q: "char_next l k = Some (Some q)" "next_boundary l k q" using char_next_spec [OF l(3,4,2)] by metis
  obtain a tl where a: "c = a # tl" "len_utf8_from_first_byte a = length c" using c(2) by (rule utf8_char_lead)
  have "l ! k = a" using arg_cong [OF c(3), of hd] a(1) l(2) by (simp add: hd_drop_conv_nth)
  then have qc: "q = k + length c" using q(1) l(2) a(2) by (simp add: char_next_def list_get_def)
  have b: "is_char_boundary l q" "q \<le> length l" using q(2) by (auto simp: next_boundary_def dest: is_char_boundary_le)
  have bs: "is_char_boundary ?s (p + length c)" using l(7) [OF b(2)] b(1) l(5) qc by (simp add: add.assoc)
  have sl: "slice ?s p (p + length c) = c" using l(8) [of q] b(2) qc l(5) c(3) by (simp add: slice_def add.assoc)
  have len: "n_len t = ?n" "cu_leaf cu = Some l" using st str.wf_len l(6) by (auto simp: str.cu_at_def)
  have "\<exists>cu' x. cursor_next (rope_ni lib) base_metric cu = Some (cu', x) \<and> cu_state t cu' (p + length c)"
  proof (cases "q = length l \<and> cu_offset_of_leaf cu + q \<noteq> ?n")
    case True
    from l(6) show ?thesis
    proof (cases rule: str.next_leaf_spec)
      case (last cu')
      with True st show ?thesis by simp
    next
      case (step cu' is' l')
      then have "cu_state t cu' (p + length c)"
        using st bs True qc l(5) unfolding cu_state_def str.cu_inside_def
        by (intro conjI exI [of _ is'] exI [of _ l']) auto
      moreover have "cursor_next (rope_ni lib) base_metric cu = Some (cu', Some (cu_position cu'))"
        using st len assms(2) q(1) l(5) True step(1)
        by (simp add: cursor_next_def next_inside_leaf_def base_metric_def rope_ni_def)
      ultimately show ?thesis by blast
    qed
  next
    case False
    let ?c = "cu\<lparr>cu_position := cu_offset_of_leaf cu + q\<rparr>"
    have "cursor_next (rope_ni lib) base_metric cu = Some (?c, Some (cu_offset_of_leaf cu + q))"
      using st len assms(2) q(1) l(5) False
      by (auto simp: cursor_next_def next_inside_leaf_def base_metric_def rope_ni_def)
    moreover have "cu_state t ?c (p + length c)"
      unfolding cu_state_def using st bs qc l(5,6) b(2) False l(9)
      by (intro conjI exI [of _ "is"] exI [of _ l]) (auto simp: str.cu_at_position str.cu_inside_def)
    ultimately show ?thesis by blast
  qed
  then obtain cu' x where "cursor_next (rope_ni lib) base_metric cu = Some (cu', x)" "cu_state t cu' (p + length c)" by blast
  moreover have "p + length c \<le> ?n" using is_char_boundary_le [OF bs] .
  ultimately show thesis using that [of cu' c] l(1) c(1,2) sl by (simp add: next_codepoint_def)
qed

lemma next_codepoint_end:
  assumes "cu_state t cu (length (node_content id t))"
  shows "next_codepoint lib cu = Some (cu\<lparr>cu_leaf := None\<rparr>, None)"
proof -
  let ?n = "length (node_content id t)"
  obtain "is" l where l: "str.cu_at cu is l" "str.cu_inside cu l" and st: "cu_root cu = t" "cu_position cu = ?n" "rope_ok lib t"
    using assms by (auto simp: cu_state_def)
  have "cu_offset_of_leaf cu + length l \<le> ?n" using str.cu_at_le [OF l(1)] st(1) by simp
  then have k: "?n = cu_offset_of_leaf cu + length l" using l(2) st(1,2) by (auto simp: str.cu_inside_def)
  have "char_from l (length l) = Some None" by (simp add: char_from_def str_slice_def)
  moreover have "cu_get_leaf cu = Some (Some (l, length l))" using l(1) k st(2) by (simp add: cu_get_leaf_def str.cu_at_def)
  ultimately show ?thesis using st str.wf_len [OF st(3)] by (simp add: next_codepoint_def cursor_next_def)
qed

lemma char_here:
  assumes "cu_state t cu p" "p < length (node_content id t)"
  obtains l k c where "cu_get_leaf cu = Some (Some (l, k))" "char_from l k = Some (Some c)" "utf8_char c"
    "slice (node_content id t) p (p + length c) = c" "next_boundary (node_content id t) p (p + length c)"
proof -
  let ?s = "node_content id t"
  note st = assms(1) [unfolded cu_state_def]
  obtain l k "is" where l: "cu_get_leaf cu = Some (Some (l, k))" "k < length l" "utf8_valid l"
    "is_char_boundary l k" "p = cu_offset_of_leaf cu + k" "str.cu_at cu is l"
    using chunk_state_leaf [OF cu_state_chunk [OF assms] assms(2)] by (metis chunk_iter.select_convs(1))
  obtain c r where c: "char_from l k = Some (Some c)" "utf8_char c" "drop k l = c @ r" "utf8_valid r"
    using char_from_spec [OF l(3,4,2)] by metis
  obtain cu' c' where n: "next_codepoint lib cu = Some (cu', Some c')" "slice ?s p (p + length c') = c'"
    using next_codepoint_step [OF assms] by metis
  have "c' = c" using n(1) l(1) c(1) by (auto simp: next_codepoint_def bind_eq_Some_conv)
  obtain q where q: "char_next l k = Some (Some q)" "next_boundary l k q" using char_next_spec [OF l(3,4,2)] by metis
  obtain a tl where a: "c = a # tl" "len_utf8_from_first_byte a = length c" using c(2) by (rule utf8_char_lead)
  have "l ! k = a" using arg_cong [OF c(3), of hd] a(1) l(2) by (simp add: hd_drop_conv_nth)
  then have qc: "q = k + length c" using q(1) l(2) a(2) by (simp add: char_next_def list_get_def)
  have "q \<le> length l" using q(2) by (auto simp: next_boundary_def dest: is_char_boundary_le)
  from leaf_next_boundary [OF _ l(6) this q(2)] have "next_boundary ?s p (p + length c)"
    using st l(5) qc by (simp add: add.assoc)
  then show thesis using that [OF l(1) c(1,2)] n(2) \<open>c' = c\<close> by blast
qed

lemma cursor_prev_step:
  assumes "cu_state t cu p" "0 < p"
  obtains cu' q where "cursor_prev (rope_ni lib) base_metric cu = Some (cu', Some q)" "cu_state t cu' q"
    "prev_boundary (node_content id t) p q"
proof -
  let ?s = "node_content id t"
  obtain "is" l where l: "str.cu_at cu is l" "str.cu_inside cu l" and st: "cu_root cu = t" "cu_position cu = p" "rope_ok lib t"
    using assms by (auto simp: cu_state_def)
  let ?k = "p - cu_offset_of_leaf cu"
  have ins: "cu_offset_of_leaf cu \<le> p" "?k \<le> length l" using l(2) st(2) by (auto simp: str.cu_inside_def)
  have leaf: "cu_leaf cu = Some l" using l(1) by (simp add: str.cu_at_def)
  show thesis
  proof (cases "?k = 0")
    case False
    then obtain q where q: "char_prev l ?k = Some (Some q)" "prev_boundary l ?k q" using char_prev_spec [of ?k l] by auto
    let ?c = "cu\<lparr>cu_position := cu_offset_of_leaf cu + q\<rparr>"
    have pb: "prev_boundary ?s p (cu_offset_of_leaf cu + q)"
      using leaf_prev_boundary [OF _ l(1) ins(2) q(2)] st ins(1) by simp
    have "cursor_prev (rope_ni lib) base_metric cu = Some (?c, Some (cu_offset_of_leaf cu + q))"
      using st(2) q(1) False ins(1) leaf assms(2) by (auto simp: cursor_prev_def base_metric_def)
    moreover have "cu_state t ?c (cu_offset_of_leaf cu + q)"
      unfolding cu_state_def using st l(1) pb q(2) ins(2)
      by (intro conjI exI [of _ "is"] exI [of _ l]) (auto simp: str.cu_at_position str.cu_inside_def prev_boundary_def)
    ultimately show thesis using pb by (rule that)
  next
    case True
    then have p: "cu_offset_of_leaf cu = p" using ins(1) by simp
    then obtain cu' is' l' where n: "prev_leaf (rope_ni lib) cu = Some (cu', Some (l', 0))" "cu_root cu' = t"
      "str.cu_at cu' is' l'" "cu_offset_of_leaf cu' + length l' = p"
      using str.prev_leaf_spec [OF l(1)] assms(2) st(1) by (metis id_apply less_not_refl)
    have "l' \<noteq> []"
    proof
      assume e: "l' = []"
      have "id l' \<noteq> []"
        by (rule str.cu_at_nonempty [OF n(3)], rule disjI2)
          (use e n(2) assms(1) assms(2) in \<open>auto simp: cu_state_def dest: is_char_boundary_le\<close>)
      with e show False by simp
    qed
    then obtain q where q: "char_prev l' (length l') = Some (Some q)" "prev_boundary l' (length l') q"
      using char_prev_spec [of "length l'" l'] by auto
    let ?c = "cu'\<lparr>cu_position := cu_offset_of_leaf cu' + q\<rparr>"
    have pb: "prev_boundary ?s p (cu_offset_of_leaf cu' + q)"
      using leaf_prev_boundary [OF _ n(3) order_refl q(2)] st(3) n(2,4) by simp
    have "cu_leaf cu' = Some l'" using n(3) by (simp add: str.cu_at_def)
    then have "cursor_prev (rope_ni lib) base_metric cu = Some (?c, Some (cu_offset_of_leaf cu' + q))"
      using st(2) q(1) p n(1,4) leaf assms(2) by (auto simp: cursor_prev_def last_inside_leaf_def base_metric_def rope_ni_def)
    moreover have "cu_state t ?c (cu_offset_of_leaf cu' + q)"
      unfolding cu_state_def using st(3) n(2,3) pb q(2)
      by (intro conjI exI [of _ is'] exI [of _ l']) (auto simp: str.cu_at_position str.cu_inside_def prev_boundary_def)
    ultimately show thesis using pb by (rule that)
  qed
qed

lemma prev_codepoint_step:
  assumes "cu_state t cu p" "0 < p"
  obtains cu' c where "prev_codepoint lib cu = Some (cu', Some c)" "utf8_char c" "length c \<le> p"
    "slice (node_content id t) (p - length c) p = c" "cu_state t cu' (p - length c)"
proof -
  let ?s = "node_content id t"
  obtain cu' q where q: "cursor_prev (rope_ni lib) base_metric cu = Some (cu', Some q)" "cu_state t cu' q" "prev_boundary ?s p q"
    using cursor_prev_step [OF assms] by metis
  have bp: "is_char_boundary ?s p" using assms(1) by (simp add: cu_state_def)
  have "q < length ?s" using q(3) is_char_boundary_le [OF bp] by (auto simp: prev_boundary_def)
  then obtain l k c where c: "cu_get_leaf cu' = Some (Some (l, k))" "char_from l k = Some (Some c)" "utf8_char c"
    "slice ?s q (q + length c) = c" "next_boundary ?s q (q + length c)"
    using char_here [OF q(2)] by metis
  have "p = q + length c"
    using c(5) q(3) bp unfolding next_boundary_def prev_boundary_def by (metis linorder_neqE_nat)
  then show thesis using that [of cu' c] q c by (simp add: prev_codepoint_def)
qed

lemma prev_codepoint_start:
  assumes "cu_state t cu 0"
  shows "prev_codepoint lib cu = Some (cu\<lparr>cu_leaf := None\<rparr>, None)"
  using assms by (simp add: prev_codepoint_def cursor_prev_def cu_state_def cu_get_leaf_def)


section \<open>Boundaries in the list of characters\<close>

end

text \<open>How many more characters, of classes \<open>ps\<close>, belong to the word that a character of class \<open>p\<close> begins.\<close>

fun word_rest :: "(word_property \<Rightarrow> word_property \<Rightarrow> bool) \<Rightarrow> word_property \<Rightarrow> word_property list \<Rightarrow> nat" where
  "word_rest stop p [] = 0"
| "word_rest stop p (q # qs) = (if stop p q then 0 else Suc (word_rest stop q qs))"

definition word_length :: "(word_property \<Rightarrow> word_property \<Rightarrow> bool) \<Rightarrow> str list \<Rightarrow> nat" where
  "word_length stop cs = (case map get_word_property cs of [] \<Rightarrow> 0 | p # ps \<Rightarrow> Suc (word_rest stop p ps))"

text \<open>The byte lengths of the words behind, and before, a place between characters.\<close>

definition next_word_bytes :: "str list \<Rightarrow> nat" where
  "next_word_bytes cs = length (concat (take (word_length (\<lambda>p q. wb_is_end (classify_boundary p q)) cs) cs))"

definition prev_word_bytes :: "str list \<Rightarrow> nat" where
  "prev_word_bytes cs =
     length (concat (take (word_length (\<lambda>p q. wb_is_start (classify_boundary q p)) (rev cs)) (rev cs)))"

lemma str_chars_take:
  assumes "utf8_valid (take (p - length c) s)" "utf8_char c" "slice s (p - length c) p = c" "length c \<le> p" "p \<le> length s"
  shows "str_chars (take p s) = str_chars (take (p - length c) s) @ [c]"
proof -
  have "take p s = take (p - length c) s @ c" using take_slice [of "p - length c" p s] assms(3,4) by simp
  then show ?thesis using str_chars_valid_append [OF assms(1), of c] str_chars_append [OF assms(2), of "[]"] by simp
qed

context byte_search_laws
begin

lemma next_boundary_loop_spec:
  "cu_state t cu p \<Longrightarrow> \<exists>cu'. next_boundary_loop lib cu prop0 p = Some (cu',
      p + length (concat (take (word_rest (\<lambda>p q. wb_is_end (classify_boundary p q)) prop0
            (map get_word_property (str_chars (drop p (node_content id t))))) (str_chars (drop p (node_content id t))))))
    \<and> cu_valid t cu'"
proof (induction "length (node_content id t) - p" arbitrary: cu p prop0 rule: less_induct)
  case less
  let ?s = "node_content id t"
  have le: "p \<le> length ?s" using less.prems is_char_boundary_le by (auto simp: cu_state_def)
  show ?case
  proof (cases "p < length ?s")
    case False
    then have "p = length ?s" using le by simp
    then show ?thesis
      using next_codepoint_end [of t cu] less.prems cu_state_None [OF less.prems] by (subst next_boundary_loop.simps) simp
  next
    case True
    obtain cu' c where n: "next_codepoint lib cu = Some (cu', Some c)" "utf8_char c" "p + length c \<le> length ?s"
      "slice ?s p (p + length c) = c" "cu_state t cu' (p + length c)"
      using next_codepoint_step [OF less.prems True] by metis
    note cs = str_chars_drop [OF n(2,4,3)]
    have pos: "cursor_pos cu' = p + length c" using n(5) by (simp add: cu_state_def cursor_pos_def)
    have lt: "length ?s - (p + length c) < length ?s - p" using utf8_char_nonempty [OF n(2)] n(3) by linarith
    from less.hyps [OF lt n(5), of "get_word_property c"] show ?thesis
      using n(1) pos cs cu_state_valid [OF n(5)] by (subst next_boundary_loop.simps) (auto simp: Let_def)
  qed
qed

lemma prev_boundary_loop_spec:
  "cu_state t cu p \<Longrightarrow> \<exists>cu'. prev_boundary_loop lib cu prop0 p = Some (cu',
      p - length (concat (take (word_rest (\<lambda>p q. wb_is_start (classify_boundary q p)) prop0
            (map get_word_property (rev (str_chars (take p (node_content id t))))))
          (rev (str_chars (take p (node_content id t)))))))
    \<and> cu_valid t cu'"
proof (induction p arbitrary: cu prop0 rule: less_induct)
  case (less p)
  let ?s = "node_content id t"
  have st: "p \<le> length ?s" "rope_ok lib t" using less.prems is_char_boundary_le by (auto simp: cu_state_def)
  show ?case
  proof (cases "0 < p")
    case False
    then show ?thesis
      using prev_codepoint_start [of t cu] less.prems cu_state_None [OF less.prems] by (subst prev_boundary_loop.simps) simp
  next
    case True
    obtain cu' c where n: "prev_codepoint lib cu = Some (cu', Some c)" "utf8_char c" "length c \<le> p"
      "slice ?s (p - length c) p = c" "cu_state t cu' (p - length c)"
      using prev_codepoint_step [OF less.prems True] by metis
    have "utf8_valid (take (p - length c) ?s)"
      using n(5) utf8_valid_cut [OF rope_valid [OF st(2)]] by (auto simp: cu_state_def)
    note cs = str_chars_take [OF this n(2,4,3) st(1)]
    have pos: "cursor_pos cu' = p - length c" using n(5) by (simp add: cu_state_def cursor_pos_def)
    have lt: "p - length c < p" using utf8_char_nonempty [OF n(2)] True by linarith
    from less.IH [OF lt n(5), of "get_word_property c"] show ?thesis
      using n(1) pos cs cu_state_valid [OF n(5)] by (subst prev_boundary_loop.simps) (auto simp: Let_def id_def)
  qed
qed

lemma wc_next_boundary_spec:
  assumes t: "rope_ok lib t" and p: "is_char_boundary (node_content id t) p"
  shows "\<exists>cu cu'. wc_new t p = Some cu \<and> wc_next_boundary lib cu = Some (cu',
    if p = length (node_content id t) then None else Some (p + next_word_bytes (str_chars (drop p (node_content id t)))))"
proof -
  let ?s = "node_content id t"
  obtain cu where cu: "cursor_new t p = Some cu" "cu_state t cu p" using cursor_new_state [OF assms] by metis
  show ?thesis
  proof (cases "p = length ?s")
    case True
    then show ?thesis using cu next_codepoint_end [of t cu] by (simp add: wc_new_def wc_next_boundary_def)
  next
    case False
    then have "p < length ?s" using is_char_boundary_le [OF p] by simp
    then obtain cu1 c where n: "next_codepoint lib cu = Some (cu1, Some c)" "utf8_char c" "p + length c \<le> length ?s"
      "slice ?s p (p + length c) = c" "cu_state t cu1 (p + length c)"
      using next_codepoint_step [OF cu(2)] by metis
    let ?cs = "str_chars (drop (p + length c) ?s)"
    let ?w = "length (concat (take (word_rest (\<lambda>p q. wb_is_end (classify_boundary p q)) (get_word_property c)
      (map get_word_property ?cs)) ?cs))"
    obtain cu2 where l: "next_boundary_loop lib cu1 (get_word_property c) (p + length c) = Some (cu2, p + length c + ?w)"
      "cu_valid t cu2"
      using next_boundary_loop_spec [OF n(5), of "get_word_property c"] by blast
    have "?w \<le> length (concat ?cs)" by (metis append_take_drop_id concat_append le_add1 length_append)
    then have "p + length c + ?w \<le> length ?s" using n(3) by (simp add: concat_str_chars)
    then obtain cu3 where "cursor_set (rope_ni lib) cu2 (p + length c + ?w) = Some cu3" using cursor_set_total [OF l(2)] by metis
    moreover have "cursor_pos cu1 = p + length c" using n(5) by (simp add: cu_state_def cursor_pos_def)
    moreover have "next_word_bytes (str_chars (drop p ?s)) = length c + ?w"
      by (simp add: next_word_bytes_def word_length_def str_chars_drop [OF n(2,4,3)])
    ultimately show ?thesis using cu(1) n(1) l(1) False by (simp add: wc_new_def wc_next_boundary_def add.assoc)
  qed
qed

lemma wc_prev_boundary_spec:
  assumes t: "rope_ok lib t" and p: "is_char_boundary (node_content id t) p"
  shows "\<exists>cu cu'. wc_new t p = Some cu \<and> wc_prev_boundary lib cu = Some (cu',
    if p = 0 then None else Some (p - prev_word_bytes (str_chars (take p (node_content id t)))))"
proof -
  let ?s = "node_content id t"
  obtain cu where cu: "cursor_new t p = Some cu" "cu_state t cu p" using cursor_new_state [OF assms] by metis
  show ?thesis
  proof (cases "p = 0")
    case True
    then show ?thesis using cu prev_codepoint_start [of t cu] by (simp add: wc_new_def wc_prev_boundary_def)
  next
    case False
    then obtain cu1 c where n: "prev_codepoint lib cu = Some (cu1, Some c)" "utf8_char c" "length c \<le> p"
      "slice ?s (p - length c) p = c" "cu_state t cu1 (p - length c)"
      using prev_codepoint_step [OF cu(2)] by auto
    let ?cs = "rev (str_chars (take (p - length c) ?s))"
    let ?w = "length (concat (take (word_rest (\<lambda>p q. wb_is_start (classify_boundary q p)) (get_word_property c)
      (map get_word_property ?cs)) ?cs))"
    obtain cu2 where l: "prev_boundary_loop lib cu1 (get_word_property c) (p - length c) = Some (cu2, p - length c - ?w)"
      "cu_valid t cu2"
      using prev_boundary_loop_spec [OF n(5), of "get_word_property c"] by blast
    have "p - length c - ?w \<le> length ?s" using is_char_boundary_le [OF p] by simp
    then obtain cu3 where "cursor_set (rope_ni lib) cu2 (p - length c - ?w) = Some cu3" using cursor_set_total [OF l(2)] by metis
    moreover have "cursor_pos cu1 = p - length c" using n(5) by (simp add: cu_state_def cursor_pos_def)
    moreover have "utf8_valid (take (p - length c) ?s)"
      using n(5) utf8_valid_cut [OF rope_valid [OF t]] by (auto simp: cu_state_def)
    then have "prev_word_bytes (str_chars (take p ?s)) = length c + ?w"
      using str_chars_take [OF _ n(2,4,3) is_char_boundary_le [OF p]] by (simp add: prev_word_bytes_def word_length_def)
    ultimately show ?thesis using cu(1) n(1) l(1) False by (simp add: wc_new_def wc_prev_boundary_def)
  qed
qed

end


section \<open>A word across two leaves\<close>

text \<open>
  \<^verbatim>\<open>select_word\<close> reads the character behind the position and sets the cursor back.  At the last character of a
  leaf the cursor has then moved to the next leaf, and setting it back misplaces it.
\<close>

definition two_leaves :: "str \<Rightarrow> str \<Rightarrow> rope" where
  "two_leaves a b = (let ni = rope_ni naive_search; l = from_leaf ni a; r = from_leaf ni b
     in Node 1 (length a + length b) (ni_accumulate ni (n_info l) (n_info r)) (Internal [l, r]))"

lemma two_leaves_ok:
  assumes "str_leaf_wf a" "str_leaf_wf b" "MIN_LEAF \<le> length a" "MIN_LEAF \<le> length b"
  shows "rope_ok naive_search (two_leaves a b)" "node_content id (two_leaves a b) = a @ b"
proof -
  have "leaf_is_ok_child (rope_ni naive_search) a" "leaf_is_ok_child (rope_ni naive_search) b"
    using assms(3,4) by (simp_all add: rope_ni_def string_is_ok_child_def)
  then show "rope_ok naive_search (two_leaves a b)" "node_content id (two_leaves a b) = a @ b"
    using assms(1,2) by (simp_all add: two_leaves_def Let_def from_leaf_def node_is_ok_child_def MAX_CHILDREN_def rope_ni_def)
qed

lemma ascii_leaf_chars:
  assumes "b < 0x80" "k < n"
  shows "char_from (replicate n b) k = Some (Some [b])" "list_get (replicate n b) k = Some b"
    "len_utf8_from_first_byte b = 1" "utf8_valid (replicate n b)"
proof -
  show v: "utf8_valid (replicate n b)" for n
  proof (induction n)
    case (Suc n)
    then show ?case using utf8_valid_append_char [of "[b]" "replicate n b"] assms(1) by simp
  qed simp
  show "list_get (replicate n b) k = Some b" using assms(2) by (simp add: list_get_def)
  show "len_utf8_from_first_byte b = 1" using assms(1) by (simp add: len_utf8_from_first_byte_def)
  have "\<not> is_cont b" using assms(1) by (simp add: is_cont_range not_le)
  then have bd: "is_char_boundary (replicate n b) k" using assms(2) by (simp add: is_char_boundary_def)
  obtain m where "n - k = Suc m" using assms(2) by (metis Suc_diff_Suc)
  then have d: "drop k (replicate n b) = [b] @ replicate m b" by simp
  have "str_chars ([b] @ replicate m b) = [b] # str_chars (replicate m b)" using assms(1) by (intro str_chars_append) simp
  then show "char_from (replicate n b) k = Some (Some [b])"
    using str_slice_halves(2) [OF v bd] d by (simp add: char_from_def)
qed

lemma get_word_property_letter: "get_word_property [0x61] = Other" "get_word_property [0x20] = Space"
  by (simp_all add: get_word_property_def Let_def drop_bit_eq_div)

lemma select_word_splits:
  assumes A: "A = replicate 511 0x61" and B: "B = replicate 511 0x20"
  shows "\<exists>cu cu'. wc_new (two_leaves A B) 510 = Some cu \<and> select_word naive_search cu = Some (cu', 510, 511)"
proof -
  have replicate_cache: "replicate CURSOR_CACHE_SIZE x = [x, x, x, x]" for x by (simp add: CURSOR_CACHE_SIZE_def eval_nat_numeral)
  have len: "leaf_len (rope_ni naive_search) = length" by (simp add: rope_ni_def)
  have lens: "length A = 511" "length B = 511" "B \<noteq> []" using A B by auto
  have chars: "char_from A 510 = Some (Some [0x61])" "list_get A 510 = Some 0x61"
    "char_from B 0 = Some (Some [0x20])" "list_get B 0 = Some 0x20"
    unfolding A B by (rule ascii_leaf_chars; simp)+
  have ascii: "len_utf8_from_first_byte 0x61 = 1" "len_utf8_from_first_byte 0x20 = 1"
    by (simp_all add: len_utf8_from_first_byte_def)
  define t where "t = two_leaves A B"
  define c0 where "c0 = \<lparr>cu_root = t, cu_position = 510, cu_cache = [Some (t, 0), None, None, None], cu_leaf = Some A, cu_offset_of_leaf = 0\<rparr>"
  define c1 where "c1 = \<lparr>cu_root = t, cu_position = 511, cu_cache = [Some (t, 1), None, None, None], cu_leaf = Some B, cu_offset_of_leaf = 511\<rparr>"
  have root: "t = Node 1 1022 (n_info t)
      (Internal [Node 0 511 (ni_compute_info (rope_ni naive_search) A) (Leaf A), Node 0 511 (ni_compute_info (rope_ni naive_search) B) (Leaf B)])"
    using lens by (simp add: t_def two_leaves_def from_leaf_def Let_def len)
  have ch: "get_children t = Some [Node 0 511 (ni_compute_info (rope_ni naive_search) A) (Leaf A), Node 0 511 (ni_compute_info (rope_ni naive_search) B) (Leaf B)]"
    "n_height t = 1" "n_len t = 1022"
    by (subst root, simp add: get_children_def)+
  have d: "descend \<lparr>cu_root = t, cu_position = 510, cu_cache = [x, None, None, None], cu_leaf = None, cu_offset_of_leaf = 0\<rparr>
      = Some c0" for x
    using ch by (simp add: descend_def descend_loop.simps c0_def get_leaf_def cache_set_def CURSOR_CACHE_SIZE_def)
  have new: "wc_new t 510 = Some c0"
    using d [of None] by (simp add: wc_new_def cursor_new_def c0_def replicate_cache)
  have n1: "next_codepoint naive_search c0 = Some (c1, Some [0x61])"
    using ch chars ascii lens by (simp add: next_codepoint_def cu_get_leaf_def c0_def c1_def cursor_next_def next_inside_leaf_def base_metric_def char_next_def
      next_leaf_def next_leaf_loop.simps CURSOR_CACHE_SIZE_def len get_leaf_def)
  have s1: "cursor_set (rope_ni naive_search) c1 510 = Some (c0\<lparr>cu_position := 0\<rparr>)"
    using ch lens by (simp add: cursor_set_def c0_def c1_def len prev_leaf_def prev_leaf_loop.simps CURSOR_CACHE_SIZE_def list_get_def rassert_def get_leaf_def usize_sub_def cu_get_leaf_def)
  have p1: "prev_codepoint naive_search (c0\<lparr>cu_position := 0\<rparr>) = Some (c0\<lparr>cu_position := 0, cu_leaf := None\<rparr>, None)"
    by (simp add: prev_codepoint_def cursor_prev_def cu_get_leaf_def)
  have s2: "cursor_set (rope_ni naive_search) (c0\<lparr>cu_position := 0, cu_leaf := None\<rparr>) 510 = Some c0"
    using d [of "Some (t, 0)"] by (simp add: cursor_set_def c0_def)
  have n2: "next_codepoint naive_search c1 = Some (c1\<lparr>cu_position := 512\<rparr>, Some [0x20])"
    using ch chars ascii lens by (simp add: next_codepoint_def cu_get_leaf_def c1_def cursor_next_def next_inside_leaf_def base_metric_def char_next_def len)
  have s3: "cursor_set (rope_ni naive_search) (c1\<lparr>cu_position := 512\<rparr>) 511 = Some c1"
    using lens by (simp add: cursor_set_def c1_def len)
  have pos: "cursor_pos c0 = 510" "cursor_pos c1 = 511" "cursor_pos (c0\<lparr>cu_position := 0\<rparr>) = 0"
    by (simp_all add: cursor_pos_def c0_def c1_def)
  have "select_word naive_search c0 = Some (c1, 510, 511)"
    unfolding select_word_def
    by (simp add: n1 s1 p1 s2 n2 s3 pos get_word_property_letter select_start_loop.simps select_end_loop.simps
        select_stop_def wb_is_boundary_def wb_is_end_def)
  then show ?thesis using new by (simp add: t_def)
qed

lemma select_word_defect:
  "\<exists>t cu cu'. rope_ok naive_search t \<and> node_content id t = replicate 511 0x61 @ replicate 511 0x20
     \<and> wc_new t 510 = Some cu \<and> select_word naive_search cu = Some (cu', 510, 511)"
proof -
  let ?A = "replicate 511 0x61 :: str" and ?B = "replicate 511 0x20 :: str"
  have "utf8_valid ?A" "utf8_valid ?B" by (rule ascii_leaf_chars(4) [of _ 0]; simp)+
  then have "str_leaf_wf ?A" "str_leaf_wf ?B" "MIN_LEAF \<le> length ?A" "MIN_LEAF \<le> length ?B"
    by (simp_all add: str_leaf_wf_def MAX_LEAF_def MIN_LEAF_def)
  from two_leaves_ok [OF this] select_word_splits [OF refl refl] show ?thesis by blast
qed

end
