(* ===== verification/Rope_Breaks.thy ===== *)
theory Rope_Breaks
  imports Rope_Chunk_Laws
begin

text \<open>
  Sets of breaks, from \<^verbatim>\<open>xi-rope/src/breaks.rs\<close>: another leaf for the tree, which holds offsets instead of
  text.  A leaf stands for a list of bits, one for each base unit, that are set where a break follows; the
  contracts \<open>leaf_laws\<close> and \<open>metric_laws\<close> are interpreted on it, so that the results on trees, conversions and
  cursors hold for breaks too.  Then the builder, and where the breaks of a tree are.
\<close>

section \<open>The leaf\<close>

definition breaks_MIN_LEAF :: nat where "breaks_MIN_LEAF = 32"

definition breaks_MAX_LEAF :: nat where "breaks_MAX_LEAF = 64"

record breaks_leaf =
  bl_len :: nat
  bl_data :: "nat list"

type_synonym breaks_info = nat
type_synonym breaks = "(breaks_leaf, breaks_info) node"

definition breaks_is_ok_child :: "breaks_leaf \<Rightarrow> bool" where
  "breaks_is_ok_child l \<longleftrightarrow> length (bl_data l) \<ge> breaks_MIN_LEAF"

definition breaks_push_maybe_split ::
  "breaks_leaf \<Rightarrow> breaks_leaf \<Rightarrow> interval \<Rightarrow> (breaks_leaf \<times> breaks_leaf option) option" where
  "breaks_push_maybe_split l other iv = do {
     let (start, end) = start_end iv;
     let data = bl_data l @ map (\<lambda>v. v - start + bl_len l) (filter (\<lambda>v. start < v \<and> v \<le> end) (bl_data other));
     added \<leftarrow> usize_sub (min end (bl_len other)) start;
     let len = bl_len l + added;
     if length data \<le> breaks_MAX_LEAF then Some (\<lparr>bl_len = len, bl_data = data\<rparr>, None)
     else do {
       let splitpoint = length data div 2;
       splitpoint_units \<leftarrow> list_get data (splitpoint - 1);
       new \<leftarrow> those (map (\<lambda>x. usize_sub x splitpoint_units) (drop splitpoint data));
       new_len \<leftarrow> usize_sub len splitpoint_units;
       Some (\<lparr>bl_len = splitpoint_units, bl_data = take splitpoint data\<rparr>, Some \<lparr>bl_len = new_len, bl_data = new\<rparr>) } }"

definition breaks_ni :: "(breaks_leaf, breaks_info) node_info" where
  "breaks_ni = \<lparr>
     leaf_len = bl_len, leaf_is_ok_child = breaks_is_ok_child, leaf_push_maybe_split = breaks_push_maybe_split,
     leaf_default = \<lparr>bl_len = 0, bl_data = []\<rparr>, ni_accumulate = (+), ni_compute_info = (\<lambda>l. length (bl_data l))\<rparr>"

text \<open>\<^verbatim>\<open>slice::binary_search\<close> on an increasing vector: the index of the value, or of the place to insert it.\<close>

definition binary_search :: "nat list \<Rightarrow> nat \<Rightarrow> nat + nat" where
  "binary_search xs v =
     (let n = length (takeWhile (\<lambda>x. x < v) xs)
      in if n < length xs \<and> xs ! n = v then Inr n else Inl n)"

definition breaks_from_base :: "breaks_leaf \<Rightarrow> nat \<Rightarrow> nat" where
  "breaks_from_base l in_base_units =
     (case binary_search (bl_data l) in_base_units of Inr n \<Rightarrow> n + 1 | Inl n \<Rightarrow> n)"

fun breaks_prev :: "nat option \<Rightarrow> nat list \<Rightarrow> nat \<Rightarrow> nat option" where
  "breaks_prev before [] offset = before"
| "breaks_prev before (d # ds) offset = (if offset \<le> d then before else breaks_prev (Some d) ds offset)"

definition breaks_next :: "breaks_leaf \<Rightarrow> nat \<Rightarrow> nat option" where
  "breaks_next l offset = list_get (bl_data l) (breaks_from_base l offset)"

definition breaks_metric :: "(breaks_leaf, breaks_info) metric" where
  "breaks_metric = \<lparr>
     m_measure = (\<lambda>info len. info),
     m_to_base_units = (\<lambda>l n. if n > length (bl_data l) then Some (bl_len l + 1)
        else if n = 0 then Some 0 else list_get (bl_data l) (n - 1)),
     m_from_base_units = (\<lambda>l n. Some (breaks_from_base l n)),
     m_is_boundary = (\<lambda>l offset. Some (\<not> isl (binary_search (bl_data l) offset))),
     m_prev = (\<lambda>l offset. Some (breaks_prev None (bl_data l) offset)),
     m_next = (\<lambda>l offset. Some (breaks_next l offset)),
     m_can_fragment = True\<rparr>"

definition breaks_base_metric :: "(breaks_leaf, breaks_info) metric" where
  "breaks_base_metric = breaks_metric\<lparr>
     m_measure := (\<lambda>info len. len),
     m_to_base_units := (\<lambda>l n. Some n),
     m_from_base_units := (\<lambda>l n. Some n)\<rparr>"


section \<open>Building\<close>

definition new_no_break :: "nat \<Rightarrow> breaks" where
  "new_no_break len = from_leaf breaks_ni \<lparr>bl_len = len, bl_data = []\<rparr>"

record break_builder =
  bb_b :: "(breaks_leaf, breaks_info) tree_builder"
  bb_leaf :: breaks_leaf

definition bb_new :: break_builder where
  "bb_new = \<lparr>bb_b = [], bb_leaf = leaf_default breaks_ni\<rparr>"

definition add_break :: "break_builder \<Rightarrow> nat \<Rightarrow> break_builder option" where
  "add_break bb len = do {
     bb \<leftarrow> (if length (bl_data (bb_leaf bb)) = breaks_MAX_LEAF then do {
         b \<leftarrow> tb_push breaks_ni (bb_b bb) (from_leaf breaks_ni (bb_leaf bb));
         Some \<lparr>bb_b = b, bb_leaf = leaf_default breaks_ni\<rparr> }
       else Some bb);
     let l = bb_leaf bb;
     Some (bb\<lparr>bb_leaf := \<lparr>bl_len = bl_len l + len, bl_data = bl_data l @ [bl_len l + len]\<rparr>\<rparr>) }"

definition add_no_break :: "break_builder \<Rightarrow> nat \<Rightarrow> break_builder" where
  "add_no_break bb len = bb\<lparr>bb_leaf := (bb_leaf bb)\<lparr>bl_len := bl_len (bb_leaf bb) + len\<rparr>\<rparr>"

definition bb_build :: "break_builder \<Rightarrow> breaks option" where
  "bb_build bb = do {
     b \<leftarrow> tb_push breaks_ni (bb_b bb) (from_leaf breaks_ni (bb_leaf bb));
     tb_build breaks_ni b }"


section \<open>The contract of the tree, for breaks\<close>

definition breaks_wf :: "breaks_leaf \<Rightarrow> bool" where
  "breaks_wf l \<longleftrightarrow> sorted_wrt (<) (bl_data l) \<and> (\<forall>v \<in> set (bl_data l). 0 < v \<and> v \<le> bl_len l)
     \<and> length (bl_data l) \<le> breaks_MAX_LEAF"

definition break_bits :: "breaks_leaf \<Rightarrow> bool list" where
  "break_bits l = map (\<lambda>i. Suc i \<in> set (bl_data l)) [0..<bl_len l]"

lemma length_break_bits [simp]: "length (break_bits l) = bl_len l"
  by (simp add: break_bits_def)

lemma nth_break_bits: "i < bl_len l \<Longrightarrow> break_bits l ! i \<longleftrightarrow> Suc i \<in> set (bl_data l)"
  by (simp add: break_bits_def)

lemma break_bits_push:
  assumes "\<forall>v \<in> set (bl_data l). v \<le> bl_len l" "b \<le> e" "e \<le> bl_len other"
  shows "break_bits \<lparr>bl_len = bl_len l + (e - b),
      bl_data = bl_data l @ map (\<lambda>v. v - b + bl_len l) (filter (\<lambda>v. b < v \<and> v \<le> e) (bl_data other))\<rparr>
    = break_bits l @ slice (break_bits other) b e"
proof (rule nth_equalityI)
  fix i assume "i < length (break_bits \<lparr>bl_len = bl_len l + (e - b),
      bl_data = bl_data l @ map (\<lambda>v. v - b + bl_len l) (filter (\<lambda>v. b < v \<and> v \<le> e) (bl_data other))\<rparr>)"
  then have i: "i < bl_len l + (e - b)" by simp
  show "break_bits \<lparr>bl_len = bl_len l + (e - b),
      bl_data = bl_data l @ map (\<lambda>v. v - b + bl_len l) (filter (\<lambda>v. b < v \<and> v \<le> e) (bl_data other))\<rparr> ! i
    = (break_bits l @ slice (break_bits other) b e) ! i"
  proof (cases "i < bl_len l")
    case True
    then show ?thesis using i by (auto simp: nth_break_bits nth_append)
  next
    case False
    have nl: "Suc i \<notin> set (bl_data l)" using False assms(1) by fastforce
    define j where "j = b + (i - bl_len l)"
    have j: "Suc i = Suc j - b + bl_len l" "b \<le> j" "j < e" "i - bl_len l = j - b" using False i by (auto simp: j_def)
    have "(break_bits l @ slice (break_bits other) b e) ! i = break_bits other ! j"
      using False j assms(3) by (simp add: nth_append slice_def)
    also have "\<dots> \<longleftrightarrow> Suc j \<in> set (bl_data other)" using j assms(3) by (simp add: nth_break_bits)
    also have "\<dots> \<longleftrightarrow> Suc i \<in> (\<lambda>v. v - b + bl_len l) ` {v \<in> set (bl_data other). b < v \<and> v \<le> e}"
    proof
      assume "Suc j \<in> set (bl_data other)"
      with j show "Suc i \<in> (\<lambda>v. v - b + bl_len l) ` {v \<in> set (bl_data other). b < v \<and> v \<le> e}"
        by (intro image_eqI [of _ _ "Suc j"]) auto
    next
      assume "Suc i \<in> (\<lambda>v. v - b + bl_len l) ` {v \<in> set (bl_data other). b < v \<and> v \<le> e}"
      then obtain v where v: "v \<in> set (bl_data other)" "b < v" "Suc i = v - b + bl_len l" by auto
      then have "v = Suc j" using j(1,2) by linarith
      with v(1) show "Suc j \<in> set (bl_data other)" by simp
    qed
    finally show ?thesis using i nl by (auto simp: nth_break_bits)
  qed
qed (use assms in simp)

lemma break_bits_split:
  assumes "sorted_wrt (<) data" "\<forall>v \<in> set data. 0 < v \<and> v \<le> len" "0 < k" "k < length data"
  defines "u \<equiv> data ! (k - 1)"
  shows "break_bits \<lparr>bl_len = u, bl_data = take k data\<rparr> @ break_bits \<lparr>bl_len = len - u, bl_data = map (\<lambda>x. x - u) (drop k data)\<rparr>
    = break_bits \<lparr>bl_len = len, bl_data = data\<rparr>"
    "u \<le> len" "\<forall>v \<in> set (take k data). v \<le> u" "\<forall>v \<in> set (drop k data). u < v"
proof -
  have s: "sorted_wrt (<) data" by (rule assms(1))
  show low: "\<forall>v \<in> set (take k data). v \<le> u"
  proof
    fix v assume "v \<in> set (take k data)"
    then obtain i where "i < k" "v = data ! i" by (auto simp: in_set_conv_nth)
    then show "v \<le> u" using s assms(4) strict_sorted_imp_sorted [OF s] sorted_nth_mono [of data i "k - 1"] by (simp add: u_def)
  qed
  show high: "\<forall>v \<in> set (drop k data). u < v"
  proof
    fix v assume "v \<in> set (drop k data)"
    then obtain i where i: "i < length data - k" "v = data ! (k + i)" by (auto simp: in_set_conv_nth)
    then show "u < v" using sorted_wrt_nth_less [of "(<)" data "k - 1" "k + i"] s assms(3) by (simp add: u_def)
  qed
  show le: "u \<le> len" using assms(2,3,4) nth_mem [of "k - 1" data] by (auto simp: u_def)
  have set: "set data = set (take k data) \<union> set (drop k data)" by (metis append_take_drop_id set_append)
  show "break_bits \<lparr>bl_len = u, bl_data = take k data\<rparr> @ break_bits \<lparr>bl_len = len - u, bl_data = map (\<lambda>x. x - u) (drop k data)\<rparr>
    = break_bits \<lparr>bl_len = len, bl_data = data\<rparr>"
  proof (rule nth_equalityI)
    fix i assume "i < length (break_bits \<lparr>bl_len = u, bl_data = take k data\<rparr> @ break_bits \<lparr>bl_len = len - u, bl_data = map (\<lambda>x. x - u) (drop k data)\<rparr>)"
    then have i: "i < len" using le by simp
    show "(break_bits \<lparr>bl_len = u, bl_data = take k data\<rparr> @ break_bits \<lparr>bl_len = len - u, bl_data = map (\<lambda>x. x - u) (drop k data)\<rparr>) ! i
        = break_bits \<lparr>bl_len = len, bl_data = data\<rparr> ! i"
    proof (cases "i < u")
      case True
      then have "Suc i \<notin> set (drop k data)" using high by fastforce
      then show ?thesis using True i by (simp add: nth_append nth_break_bits set)
    next
      case False
      then have "Suc i \<notin> set (take k data)" using low by fastforce
      moreover have "Suc (i - u) \<in> (\<lambda>x. x - u) ` set (drop k data) \<longleftrightarrow> Suc i \<in> set (drop k data)"
      proof
        assume "Suc (i - u) \<in> (\<lambda>x. x - u) ` set (drop k data)"
        then obtain x where "x \<in> set (drop k data)" "Suc (i - u) = x - u" by blast
        moreover have "x = Suc i" using calculation high False by fastforce
        ultimately show "Suc i \<in> set (drop k data)" by simp
      next
        assume "Suc i \<in> set (drop k data)"
        then show "Suc (i - u) \<in> (\<lambda>x. x - u) ` set (drop k data)" using False by (intro image_eqI [of _ _ "Suc i"]) auto
      qed
      ultimately show ?thesis using False i by (simp add: nth_append nth_break_bits set)
    qed
  qed (use le in simp)
qed


lemma take_upt_min: "take i [0..<n] = [0..<min i n]"
  by (simp add: min_def take_all)

lemma break_bits_count:
  assumes "sorted_wrt (<) (bl_data l)" "\<forall>v \<in> set (bl_data l). 0 < v \<and> v \<le> bl_len l"
  shows "cnt id (take i (break_bits l)) = length (filter (\<lambda>v. v \<le> i) (bl_data l))"
proof -
  have "cnt id (take i (break_bits l)) = length (filter (\<lambda>j. Suc j \<in> set (bl_data l)) [0..<min i (bl_len l)])"
    by (simp add: break_bits_def take_map take_upt_min filter_map comp_def)
  also have "\<dots> = card {j. j < min i (bl_len l) \<and> Suc j \<in> set (bl_data l)}"
    by (subst distinct_card [symmetric]) (auto intro!: arg_cong [of _ _ card])
  also have "\<dots> = card (Suc ` {j. j < min i (bl_len l) \<and> Suc j \<in> set (bl_data l)})" by (simp add: card_image)
  also have "Suc ` {j. j < min i (bl_len l) \<and> Suc j \<in> set (bl_data l)} = {v \<in> set (bl_data l). v \<le> i}"
  proof (intro equalityI subsetI)
    fix v assume v: "v \<in> {v \<in> set (bl_data l). v \<le> i}"
    with assms(2) obtain j where "v = Suc j" by (auto simp: gr0_conv_Suc)
    with v assms(2) show "v \<in> Suc ` {j. j < min i (bl_len l) \<and> Suc j \<in> set (bl_data l)}" by fastforce
  qed auto
  also have "card \<dots> = length (filter (\<lambda>v. v \<le> i) (bl_data l))"
    using assms(1) by (subst distinct_card [symmetric]) (auto simp: strict_sorted_iff intro!: arg_cong [of _ _ card])
  finally show ?thesis .
qed

lemma those_usize_sub: "\<forall>x \<in> set xs. u \<le> x \<Longrightarrow> those (map (\<lambda>x. usize_sub x u) xs) = Some (map (\<lambda>x. x - u) xs)"
  by (induction xs) auto

lemma breaks_push_spec:
  assumes l: "breaks_wf l" and other: "breaks_wf other" and be: "b \<le> e" "e \<le> bl_len other"
  shows "\<exists>l' r. breaks_push_maybe_split l other (mk_iv b e) = Some (l', r) \<and> breaks_wf l'
    \<and> break_bits l' @ (case r of None \<Rightarrow> [] | Some r' \<Rightarrow> break_bits r') = break_bits l @ slice (break_bits other) b e
    \<and> (\<forall>r'. r = Some r' \<longrightarrow> breaks_wf r' \<and> breaks_is_ok_child l' \<and> breaks_is_ok_child r')
    \<and> (break_bits l = [] \<longrightarrow> r = None)
    \<and> (breaks_is_ok_child l \<or> breaks_is_ok_child other \<and> b = 0 \<and> e = bl_len other \<longrightarrow> breaks_is_ok_child l')"
proof -
  define new where "new = map (\<lambda>v. v - b + bl_len l) (filter (\<lambda>v. b < v \<and> v \<le> e) (bl_data other))"
  define data where "data = bl_data l @ new"
  define len where "len = bl_len l + (e - b)"
  have sl: "sorted_wrt (<) (bl_data l)" "\<forall>v \<in> set (bl_data l). 0 < v \<and> v \<le> bl_len l" "length (bl_data l) \<le> breaks_MAX_LEAF"
    and so: "sorted_wrt (<) (bl_data other)" "\<forall>v \<in> set (bl_data other). 0 < v \<and> v \<le> bl_len other" "length (bl_data other) \<le> breaks_MAX_LEAF"
    using l other by (auto simp: breaks_wf_def)
  have "sorted_wrt (<) new"
    unfolding new_def sorted_wrt_map
    by (rule sorted_wrt_mono_rel [OF _ sorted_wrt_filter [OF so(1)]]) auto
  then have sd: "sorted_wrt (<) data" unfolding data_def sorted_wrt_append using sl by (fastforce simp: new_def)
  have dd: "\<forall>v \<in> set data. 0 < v \<and> v \<le> len" using sl by (fastforce simp: data_def new_def len_def)
  have bits: "break_bits \<lparr>bl_len = len, bl_data = data\<rparr> = break_bits l @ slice (break_bits other) b e"
    unfolding len_def data_def new_def using sl be by (intro break_bits_push) auto
  have empty: "length data \<le> breaks_MAX_LEAF" if "break_bits l = []"
  proof -
    have "bl_len l = 0" using that length_break_bits [of l] by simp
    then have "bl_data l = []" using sl(2) by (cases "bl_data l") auto
    moreover have "length new \<le> length (bl_data other)" by (simp add: new_def)
    ultimately show ?thesis using so(3) by (simp add: data_def)
  qed
  have whole: "length (bl_data other) \<le> length data" if "b = 0" "e = bl_len other"
  proof -
    have "filter (\<lambda>v. b < v \<and> v \<le> e) (bl_data other) = bl_data other" using so(2) that by (intro filter_True) auto
    then show ?thesis by (simp add: data_def new_def)
  qed
  have run: "breaks_push_maybe_split l other (mk_iv b e) = (if length data \<le> breaks_MAX_LEAF then Some (\<lparr>bl_len = len, bl_data = data\<rparr>, None)
     else do {
       let splitpoint = length data div 2;
       splitpoint_units \<leftarrow> list_get data (splitpoint - 1);
       new \<leftarrow> those (map (\<lambda>x. usize_sub x splitpoint_units) (drop splitpoint data));
       new_len \<leftarrow> usize_sub len splitpoint_units;
       Some (\<lparr>bl_len = splitpoint_units, bl_data = take splitpoint data\<rparr>, Some \<lparr>bl_len = new_len, bl_data = new\<rparr>) })"
    using be by (simp add: breaks_push_maybe_split_def mk_iv_def start_end_def min_absorb1 data_def new_def len_def Let_def)
  show ?thesis
  proof (cases "length data \<le> breaks_MAX_LEAF")
    case True
    have "breaks_wf \<lparr>bl_len = len, bl_data = data\<rparr>" using True sd dd by (simp add: breaks_wf_def)
    then show ?thesis using True run bits whole by (auto simp: breaks_is_ok_child_def data_def)
  next
    case False
    define k where "k = length data div 2"
    define u where "u = data ! (k - 1)"
    have long: "breaks_MAX_LEAF < length data" using False by simp
    have short: "length data \<le> 2 * breaks_MAX_LEAF" 
    proof -
      have "length data = length (bl_data l) + length (filter (\<lambda>v. b < v \<and> v \<le> e) (bl_data other))"
        by (simp add: data_def new_def)
      also have "\<dots> \<le> length (bl_data l) + length (bl_data other)" by (intro add_left_mono length_filter_le)
      finally show ?thesis using sl(3) so(3) by linarith
    qed
    have k: "0 < k" "k < length data" "breaks_MIN_LEAF \<le> k" "breaks_MIN_LEAF \<le> length data - k" "k \<le> breaks_MAX_LEAF" "length data - k \<le> breaks_MAX_LEAF"
      using long short by (auto simp: k_def breaks_MAX_LEAF_def breaks_MIN_LEAF_def)
    note sp = break_bits_split [OF sd dd k(1,2), folded u_def]
    let ?l = "\<lparr>bl_len = u, bl_data = take k data\<rparr>" and ?r = "\<lparr>bl_len = len - u, bl_data = map (\<lambda>x. x - u) (drop k data)\<rparr>"
    have "those (map (\<lambda>x. usize_sub x u) (drop k data)) = Some (map (\<lambda>x. x - u) (drop k data))"
      using sp(4) by (intro those_usize_sub) auto
    moreover have get: "list_get data (k - 1) = Some u" using k(2) by (simp add: list_get_def u_def less_imp_diff_less)
    ultimately have "breaks_push_maybe_split l other (mk_iv b e) = Some (?l, Some ?r)"
      using run False sp(2) get by (simp add: k_def [symmetric])
    moreover have "breaks_wf ?l"
      using sd dd sp(3) k(5) by (auto simp: breaks_wf_def sorted_wrt_take dest: in_set_takeD)
    moreover have "breaks_wf ?r"
    proof -
      have "sorted_wrt (<) (map (\<lambda>x. x - u) (drop k data))"
        unfolding sorted_wrt_map using sp(4)
        by (intro sorted_wrt_mono_rel [OF _ sorted_wrt_drop [OF sd]]) fastforce
      then show ?thesis using sp(4) dd k(6) by (fastforce simp: breaks_wf_def dest: in_set_dropD)
    qed
    moreover have "breaks_is_ok_child ?l" "breaks_is_ok_child ?r" using k by (simp_all add: breaks_is_ok_child_def min_absorb2)
    moreover have "break_bits l \<noteq> []" using empty False by blast
    ultimately show ?thesis using sp(1) bits by simp
  qed
qed

interpretation breaks: leaf_laws breaks_ni breaks_wf break_bits "\<lambda>_. True" "cnt id"
proof unfold_locales
  fix l other :: breaks_leaf and b e
  assume "breaks_wf l" "breaks_wf other" "b \<le> e" "cut_ok (\<lambda>_. True) (break_bits other) b" "cut_ok (\<lambda>_. True) (break_bits other) e"
  then show "\<exists>l' r. leaf_push_maybe_split breaks_ni l other (mk_iv b e) = Some (l', r) \<and> breaks_wf l'
      \<and> break_bits l' @ (case r of None \<Rightarrow> [] | Some r' \<Rightarrow> break_bits r') = break_bits l @ slice (break_bits other) b e
      \<and> (\<forall>r'. r = Some r' \<longrightarrow> breaks_wf r' \<and> leaf_is_ok_child breaks_ni l' \<and> leaf_is_ok_child breaks_ni r')
      \<and> (break_bits l = [] \<longrightarrow> r = None)
      \<and> (leaf_is_ok_child breaks_ni l \<or> leaf_is_ok_child breaks_ni other \<and> b = 0 \<and> e = length (break_bits other)
         \<longrightarrow> leaf_is_ok_child breaks_ni l')"
    using breaks_push_spec [of l other b e] by (simp add: breaks_ni_def cut_ok_def)
next
  fix l assume l: "breaks_wf l"
  have "filter (\<lambda>v. v \<le> bl_len l) (bl_data l) = bl_data l" using l by (intro filter_True) (auto simp: breaks_wf_def)
  then show "ni_compute_info breaks_ni l = cnt id (break_bits l)"
    using break_bits_count [of l "bl_len l"] l by (simp add: breaks_wf_def breaks_ni_def)
next
  fix l assume "breaks_wf l" "leaf_is_ok_child breaks_ni l"
  then show "break_bits l \<noteq> []"
    by (cases "bl_data l") (auto simp: breaks_wf_def breaks_ni_def breaks_is_ok_child_def breaks_MIN_LEAF_def break_bits_def)
qed (auto simp: breaks_ni_def breaks_wf_def break_bits_def starts_ok_def)


section \<open>The metrics of breaks\<close>

lemma filter_le_sorted:
  fixes xs :: "nat list"
  assumes "sorted_wrt (<) xs" "n \<le> length xs" "\<And>i. i < n \<Longrightarrow> xs ! i \<le> v" "n < length xs \<Longrightarrow> v < xs ! n"
  shows "length (filter (\<lambda>x. x \<le> v) xs) = n"
proof -
  have "filter (\<lambda>x. x \<le> v) (take n xs) = take n xs" using assms(2,3) by (intro filter_True) (auto simp: in_set_conv_nth)
  moreover have "filter (\<lambda>x. x \<le> v) (drop n xs) = []"
  proof (rule filter_False, rule ballI)
    fix x assume "x \<in> set (drop n xs)"
    then obtain i where i: "i < length xs - n" "x = xs ! (n + i)" by (auto simp: in_set_conv_nth)
    then have "xs ! n \<le> x" using assms(1) sorted_nth_mono [of xs n "n + i"] by (simp add: strict_sorted_iff)
    moreover have "v < xs ! n" using assms(4) i(1) by linarith
    ultimately show "\<not> x \<le> v" by linarith
  qed
  ultimately show ?thesis
    using filter_append [of "\<lambda>x. x \<le> v" "take n xs" "drop n xs"] assms(2) by (simp add: min_absorb2)
qed

lemma length_filter_mono: "(\<And>x. P x \<Longrightarrow> Q x) \<Longrightarrow> length (filter P xs) \<le> length (filter Q xs)"
  by (induction xs) (auto simp: le_SucI)

lemma strict_sorted_nth:
  "sorted_wrt (<) xs \<Longrightarrow> i \<le> j \<Longrightarrow> j < length xs \<Longrightarrow> xs ! i \<le> (xs ! j :: nat)"
  by (simp add: strict_sorted_iff sorted_nth_mono)

lemma breaks_from_base_eq:
  assumes "breaks_wf l"
  shows "breaks_from_base l v = length (filter (\<lambda>x. x \<le> v) (bl_data l))"
proof -
  let ?xs = "bl_data l" and ?n = "length (takeWhile (\<lambda>x. x < v) (bl_data l))"
  have s: "sorted_wrt (<) ?xs" using assms by (simp add: breaks_wf_def)
  have n: "?n \<le> length ?xs" by (rule length_takeWhile_le)
  have lo: "?xs ! i < v" if "i < ?n" for i using that nth_mem [of i "takeWhile (\<lambda>x. x < v) ?xs"] by (auto simp: takeWhile_nth dest: set_takeWhileD)
  have hi: "v \<le> ?xs ! ?n" if "?n < length ?xs" using nth_length_takeWhile [OF that] by simp
  show ?thesis
  proof (cases "?n < length ?xs \<and> ?xs ! ?n = v")
    case True
    have up: "v < ?xs ! Suc ?n" if "Suc ?n < length ?xs" using True sorted_wrt_nth_less [OF s, of ?n "Suc ?n"] that by simp
    have "length (filter (\<lambda>x. x \<le> v) ?xs) = Suc ?n"
    proof (rule filter_le_sorted [OF s])
      fix i assume "i < Suc ?n"
      then show "?xs ! i \<le> v" using lo [of i] True by (cases "i = ?n") auto
    qed (use True up in auto)
    with True show ?thesis by (simp add: breaks_from_base_def binary_search_def Let_def)
  next
    case False
    have "length (filter (\<lambda>x. x \<le> v) ?xs) = ?n"
      by (rule filter_le_sorted [OF s n]) (use lo hi False in \<open>auto simp: less_imp_le le_less\<close>)
    with False show ?thesis by (auto simp: breaks_from_base_def binary_search_def Let_def)
  qed
qed

lemma breaks_to_base:
  assumes l: "breaks_wf l" and pos: "mpos_at (\<lambda>_. True) (cnt id) (break_bits l) k i"
  shows "m_to_base_units breaks_metric l k = Some i"
proof (cases "k = 0")
  case True
  then have "i = 0" using pos by (cases i) (auto simp: mpos_at_def cut_ok_def)
  with True show ?thesis by (simp add: breaks_metric_def)
next
  case False
  let ?xs = "bl_data l"
  have s: "sorted_wrt (<) ?xs" "\<And>x. x \<in> set ?xs \<Longrightarrow> x \<le> bl_len l" using l by (auto simp: breaks_wf_def)
  have c: "cnt id (take j (break_bits l)) = length (filter (\<lambda>v. v \<le> j) ?xs)" for j
    using l by (intro break_bits_count) (auto simp: breaks_wf_def)
  have ki: "length (filter (\<lambda>v. v \<le> i) ?xs) = k" and min: "\<And>j. j < i \<Longrightarrow> length (filter (\<lambda>v. v \<le> j) ?xs) < k"
    using pos unfolding mpos_at_def c by (auto simp: cut_ok_def)
  have k: "k - 1 < length ?xs" using ki False length_filter_le [of "\<lambda>v. v \<le> i" ?xs] by linarith
  let ?d = "?xs ! (k - 1)"
  have "length (filter (\<lambda>v. v \<le> ?d) ?xs) = k"
  proof (rule filter_le_sorted [OF s(1)])
    fix j assume "j < k"
    then show "?xs ! j \<le> ?d" using k by (intro strict_sorted_nth [OF s(1)]) auto
  next
    assume "k < length ?xs"
    then show "?d < ?xs ! k" using False by (intro sorted_wrt_nth_less [OF s(1)]) auto
  qed (use k False in auto)
  then have "\<not> ?d < i" using min by fastforce
  moreover have "\<not> i < ?d"
  proof
    assume "i < ?d"
    have "length (filter (\<lambda>v. v \<le> i) ?xs) \<le> length (filter (\<lambda>v. v < ?d) ?xs)"
      using \<open>i < ?d\<close> by (intro length_filter_mono) auto
    moreover have "filter (\<lambda>v. v < ?d) ?xs = filter (\<lambda>v. v \<le> ?d - 1) ?xs"
      using \<open>i < ?d\<close> by (intro filter_cong) auto
    moreover have "length (filter (\<lambda>v. v \<le> ?d - 1) ?xs) = k - 1"
    proof (rule filter_le_sorted [OF s(1)])
      fix j assume "j < k - 1"
      then show "?xs ! j \<le> ?d - 1" using sorted_wrt_nth_less [OF s(1), of j "k - 1"] k by simp
    qed (use k \<open>i < ?d\<close> in auto)
    ultimately show False using ki False by simp
  qed
  ultimately have "i = ?d" by simp
  moreover have "\<not> length ?xs < k" using k by linarith
  ultimately show ?thesis using k False by (simp add: breaks_metric_def list_get_def)
qed

interpretation break_count: metric_laws breaks_ni breaks_wf break_bits "\<lambda>_. True" "cnt id" breaks_metric "cnt id"
proof unfold_locales
  show "m_from_base_units breaks_metric l i = Some (cnt id (take i (break_bits l)))" if "breaks_wf l" for l i
    using that break_bits_count [of l i] breaks_from_base_eq [of l i] by (simp add: breaks_metric_def breaks_wf_def)
  show "m_to_base_units breaks_metric l k = Some i" if "breaks_wf l" "mpos_at (\<lambda>_. True) (cnt id) (break_bits l) k i" for l k i
    using that by (rule breaks_to_base)
qed (auto simp: breaks_metric_def)

interpretation break_units: metric_laws breaks_ni breaks_wf break_bits "\<lambda>_. True" "cnt id" breaks_base_metric length
  by unfold_locales (auto simp: breaks_base_metric_def breaks_metric_def mpos_at_def cut_ok_def)

interpretation units_to_breaks: metric_pair breaks_ni breaks_wf break_bits "\<lambda>_. True" "cnt id"
  breaks_base_metric length breaks_metric "cnt id"
  by unfold_locales

interpretation breaks_to_units: metric_pair breaks_ni breaks_wf break_bits "\<lambda>_. True" "cnt id"
  breaks_metric "cnt id" breaks_base_metric length
  by unfold_locales


section \<open>Trees of breaks\<close>

abbreviation breaks_ok :: "breaks \<Rightarrow> bool" where
  "breaks_ok t \<equiv> node_wf breaks_ni breaks_wf t"

abbreviation tree_bits :: "breaks \<Rightarrow> bool list" where
  "tree_bits t \<equiv> node_content break_bits t"

definition builder_bits :: "break_builder \<Rightarrow> bool list" where
  "builder_bits bb = stack_content break_bits (bb_b bb) @ break_bits (bb_leaf bb)"

definition builder_ok :: "break_builder \<Rightarrow> bool" where
  "builder_ok bb \<longleftrightarrow> stack_wf breaks_ni breaks_wf (bb_b bb) \<and> breaks_wf (bb_leaf bb)"

lemma break_bits_no_break:
  assumes "breaks_wf l"
  shows "break_bits (l\<lparr>bl_len := bl_len l + n\<rparr>) = break_bits l @ replicate n False"
proof (rule nth_equalityI)
  fix i assume i: "i < length (break_bits (l\<lparr>bl_len := bl_len l + n\<rparr>))"
  show "break_bits (l\<lparr>bl_len := bl_len l + n\<rparr>) ! i = (break_bits l @ replicate n False) ! i"
    using i assms by (cases "i < bl_len l") (fastforce simp: nth_break_bits nth_append breaks_wf_def)+
qed simp

lemma break_bits_break:
  assumes "breaks_wf l" "0 < n"
  shows "break_bits \<lparr>bl_len = bl_len l + n, bl_data = bl_data l @ [bl_len l + n]\<rparr>
    = break_bits l @ replicate (n - 1) False @ [True]"
proof (rule nth_equalityI)
  fix i assume "i < length (break_bits \<lparr>bl_len = bl_len l + n, bl_data = bl_data l @ [bl_len l + n]\<rparr>)"
  then have i: "i < bl_len l + n" by simp
  have le: "\<And>v. v \<in> set (bl_data l) \<Longrightarrow> v \<le> bl_len l" using assms(1) by (simp add: breaks_wf_def)
  consider "i < bl_len l" | "bl_len l \<le> i" "Suc i < bl_len l + n" | "Suc i = bl_len l + n" using i by linarith
  then show "break_bits \<lparr>bl_len = bl_len l + n, bl_data = bl_data l @ [bl_len l + n]\<rparr> ! i
      = (break_bits l @ replicate (n - 1) False @ [True]) ! i"
  proof cases
    case 1
    then show ?thesis using assms(2) by (simp add: nth_break_bits nth_append)
  next
    case 2
    then have "Suc i \<notin> set (bl_data l)" using le [of "Suc i"] by auto
    with 2 show ?thesis by (auto simp: nth_break_bits nth_append)
  next
    case 3
    have "(break_bits l @ replicate (n - 1) False @ [True]) ! (bl_len l + (n - 1))" by (simp add: nth_append)
    moreover have "i = bl_len l + (n - 1)" using 3 assms(2) by simp
    ultimately show ?thesis using 3 i by (simp add: nth_break_bits)
  qed
qed (use assms(2) in simp)

lemma add_no_break_spec:
  assumes "builder_ok bb"
  shows "builder_ok (add_no_break bb n)" "builder_bits (add_no_break bb n) = builder_bits bb @ replicate n False"
  using assms break_bits_no_break [of "bb_leaf bb" n]
  by (fastforce simp: builder_ok_def builder_bits_def add_no_break_def breaks_wf_def)+

lemma add_break_specE:
  assumes bb: "builder_ok bb" and n: "0 < n"
  obtains bb' where "add_break bb n = Some bb'" "builder_ok bb'"
    "builder_bits bb' = builder_bits bb @ replicate (n - 1) False @ [True]"
proof -
  have leaf: "breaks_wf (bb_leaf bb)" and st: "stack_wf breaks_ni breaks_wf (bb_b bb)" using bb by (auto simp: builder_ok_def)
  have room: "breaks_wf \<lparr>bl_len = bl_len l + n, bl_data = bl_data l @ [bl_len l + n]\<rparr>"
    if "breaks_wf l" "length (bl_data l) \<noteq> breaks_MAX_LEAF" for l
    using that n by (fastforce simp: breaks_wf_def sorted_wrt_append)
  show thesis
  proof (cases "length (bl_data (bb_leaf bb)) = breaks_MAX_LEAF")
    case True
    obtain st' where st': "tb_push breaks_ni (bb_b bb) (from_leaf breaks_ni (bb_leaf bb)) = Some st'"
      "stack_wf breaks_ni breaks_wf st'" "stack_content break_bits st' = builder_bits bb"
      using breaks.tb_pushE [OF st breaks.wf_from_leaf(1) [OF leaf]] breaks.wf_from_leaf(2) [of "bb_leaf bb"]
      by (metis builder_bits_def)
    have d: "breaks_wf (leaf_default breaks_ni)" "length (bl_data (leaf_default breaks_ni)) \<noteq> breaks_MAX_LEAF"
      by (simp_all add: breaks_wf_def breaks_ni_def breaks_MAX_LEAF_def)
    show thesis
      using that st' True break_bits_break [OF d(1) n] room [OF d] breaks.leaf_default(2)
      by (simp add: add_break_def Let_def builder_ok_def builder_bits_def)
  next
    case False
    show thesis
      using that False st break_bits_break [OF leaf n] room [OF leaf]
      by (simp add: add_break_def Let_def builder_ok_def builder_bits_def)
  qed
qed

lemma bb_buildE:
  assumes "builder_ok bb"
  obtains t where "bb_build bb = Some t" "breaks_ok t" "tree_bits t = builder_bits bb"
proof -
  have leaf: "breaks_wf (bb_leaf bb)" and st: "stack_wf breaks_ni breaks_wf (bb_b bb)" using assms by (auto simp: builder_ok_def)
  obtain st' where st': "tb_push breaks_ni (bb_b bb) (from_leaf breaks_ni (bb_leaf bb)) = Some st'"
    "stack_wf breaks_ni breaks_wf st'" "stack_content break_bits st' = builder_bits bb"
    using breaks.tb_pushE [OF st breaks.wf_from_leaf(1) [OF leaf]] breaks.wf_from_leaf(2) [of "bb_leaf bb"]
    by (metis builder_bits_def)
  from breaks.tb_buildE [OF st'(2)] obtain t where "tb_build breaks_ni st' = Some t" "breaks_ok t" "tree_bits t = builder_bits bb"
    using st'(3) by metis
  with st'(1) that show thesis by (simp add: bb_build_def)
qed

lemma bb_new_ok: "builder_ok bb_new" "builder_bits bb_new = []"
  by (simp_all add: builder_ok_def builder_bits_def bb_new_def breaks.leaf_default)

text \<open>The breaks of a paragraph of lines: one behind each line of a list, then text without one.\<close>

primrec add_breaks :: "break_builder \<Rightarrow> nat list \<Rightarrow> break_builder option" where
  "add_breaks bb [] = Some bb"
| "add_breaks bb (n # ns) = do { bb \<leftarrow> add_break bb n; add_breaks bb ns }"

definition line_bits :: "nat list \<Rightarrow> bool list" where
  "line_bits ns = concat (map (\<lambda>n. replicate (n - 1) False @ [True]) ns)"

lemma add_breaks_specE:
  assumes "builder_ok bb" "\<forall>n \<in> set ns. 0 < n"
  obtains bb' where "add_breaks bb ns = Some bb'" "builder_ok bb'" "builder_bits bb' = builder_bits bb @ line_bits ns"
  using assms
proof (induction ns arbitrary: bb thesis)
  case Nil
  then show ?case by (simp add: line_bits_def)
next
  case (Cons n ns)
  obtain bb1 where bb1: "add_break bb n = Some bb1" "builder_ok bb1"
    "builder_bits bb1 = builder_bits bb @ replicate (n - 1) False @ [True]"
    using add_break_specE [OF Cons.prems(2), of n] Cons.prems(3) by auto
  obtain bb' where "add_breaks bb1 ns = Some bb'" "builder_ok bb'" "builder_bits bb' = builder_bits bb1 @ line_bits ns"
    using Cons.IH [OF _ bb1(2)] Cons.prems(3) by auto
  with bb1 show ?case using Cons.prems(1) by (simp add: line_bits_def)
qed

text \<open>Where the breaks of given lines are, and how many there are before an offset.\<close>

lemma length_line_bits: "\<forall>n \<in> set ns. 0 < n \<Longrightarrow> length (line_bits ns) = sum_list ns"
  by (induction ns) (auto simp: line_bits_def)

lemma cnt_line_bits: "cnt id (line_bits ns) = length ns"
  by (induction ns) (auto simp: line_bits_def)

lemma line_bits_append: "line_bits (ms @ ns) = line_bits ms @ line_bits ns"
  by (simp add: line_bits_def)

lemma mpos_at_line_bits:
  assumes "\<forall>n \<in> set ns. 0 < n" "k \<le> length ns"
  shows "mpos_at (\<lambda>_. True) (cnt id) (line_bits ns @ zs) k (sum_list (take k ns))"
proof -
  let ?i = "sum_list (take k ns)"
  have pos: "\<forall>n \<in> set (take k ns). 0 < n" using assms(1) by (auto dest: in_set_takeD)
  have split: "line_bits ns = line_bits (take k ns) @ line_bits (drop k ns)"
    by (simp add: line_bits_append [symmetric])
  have len: "length (line_bits (take k ns)) = ?i" using pos by (rule length_line_bits)
  have tk: "take ?i (line_bits ns @ zs) = line_bits (take k ns)" using len by (simp add: split)
  have "cnt id (take ?i (line_bits ns @ zs)) = k" unfolding tk cnt_line_bits using assms(2) by simp
  moreover have "cnt id (take j (line_bits ns @ zs)) < k" if "j < ?i" for j
  proof -
    have k: "k \<noteq> 0" using that by (cases k) auto
    then have last: "take k ns = take (k - 1) ns @ [ns ! (k - 1)]"
      using assms(2) take_Suc_conv_app_nth [of "k - 1" ns] by simp
    have n: "0 < ns ! (k - 1)" using assms k by simp
    define xs where "xs = line_bits (take (k - 1) ns) @ replicate (ns ! (k - 1) - 1) False"
    have tkx: "line_bits (take k ns) = xs @ [True]" unfolding last line_bits_append xs_def by (simp add: line_bits_def)
    have "cnt id xs = k - 1" unfolding xs_def filter_append length_append cnt_line_bits using assms(2) k by simp
    moreover have "take j (line_bits ns @ zs) = take j xs" using that len tkx by (simp add: split)
    moreover have "cnt id (take j xs) \<le> cnt id xs" by (rule cnt_take_le)
    ultimately show ?thesis using k by simp
  qed
  ultimately show ?thesis using cut_ok_le len by (auto simp: mpos_at_def cut_ok_def split)
qed

lemma breaks_measures:
  assumes "breaks_ok t"
  shows "node_measure breaks_metric t = cnt id (tree_bits t)" "n_len t = length (tree_bits t)"
    "i \<le> n_len t \<Longrightarrow> node_count breaks_base_metric breaks_metric t i = Some (cnt id (take i (tree_bits t)))"
    "mpos_at (\<lambda>_. True) (cnt id) (tree_bits t) k i \<Longrightarrow> count_base_units breaks_base_metric breaks_metric t k = Some i"
proof -
  show len: "n_len t = length (tree_bits t)" using assms by (rule breaks.wf_len)
  show "node_measure breaks_metric t = cnt id (tree_bits t)" using assms by (rule break_count.node_measure)
  show "node_count breaks_base_metric breaks_metric t i = Some (cnt id (take i (tree_bits t)))" if "i \<le> n_len t"
    using units_to_breaks.convert_metrics_spec [OF assms mpos_at_length [of _ _ i]] that len
    by (simp add: node_count_def cut_ok_def)
  show "count_base_units breaks_base_metric breaks_metric t k = Some i"
    if p: "mpos_at (\<lambda>_. True) (cnt id) (tree_bits t) k i"
  proof -
    have "i \<le> length (tree_bits t)" using p by (auto simp: mpos_at_def dest: cut_ok_le)
    then show ?thesis using breaks_to_units.convert_metrics_spec [OF assms p] by (simp add: count_base_units_def min_absorb2)
  qed
qed

text \<open>Every count up to the whole is reached at a position.\<close>

lemma bit_position_exists:
  assumes "k \<le> cnt id bits"
  obtains i where "mpos_at (\<lambda>_. True) (cnt id) bits k i"
proof -
  define i where "i = (LEAST i. k \<le> cnt id (take i bits))"
  have ex: "k \<le> cnt id (take (length bits) bits)" using assms by simp
  have ge: "k \<le> cnt id (take i bits)" unfolding i_def by (rule LeastI [of "\<lambda>i. k \<le> cnt id (take i bits)", OF ex])
  have il: "i \<le> length bits" unfolding i_def by (rule Least_le [of "\<lambda>i. k \<le> cnt id (take i bits)", OF ex])
  have less: "cnt id (take j bits) < k" if "j < i" for j
    using that not_less_Least [of j "\<lambda>i. k \<le> cnt id (take i bits)"] by (simp add: i_def not_le)
  have "cnt id (take i bits) = k"
  proof (cases i)
    case (Suc j)
    then have "take i bits = take j bits @ [bits ! j]" using il by (simp add: take_Suc_conv_app_nth)
    then have "cnt id (take i bits) \<le> cnt id (take j bits) + 1" by simp
    with less [of j] ge Suc show ?thesis by simp
  qed (use ge in simp)
  with less il have "mpos_at (\<lambda>_. True) (cnt id) bits k i" by (simp add: mpos_at_def cut_ok_def)
  then show thesis by (rule that)
qed

text \<open>An inner node has breaks, since its leaves are not too small.\<close>

lemma breaks_inner_positive:
  "breaks_ok t \<Longrightarrow> n_height t = Suc h \<Longrightarrow> 0 < cnt id (tree_bits t)"
proof (induction h arbitrary: t)
  case 0
  obtain v where v: "get_children t = Some v" "\<And>c. c \<in> set v \<Longrightarrow> breaks_ok c \<and> node_is_ok_child breaks_ni c \<and> n_height c = 0"
    "tree_bits t = concat (map tree_bits v)" "v \<noteq> []"
    using breaks.wf_children [OF 0(1,2)] by (metis list.size(3) not_numeral_le_zero)
  then have c: "breaks_ok (hd v)" "node_is_ok_child breaks_ni (hd v)" "n_height (hd v) = 0" by simp_all
  from breaks.wf_leaf [OF c(1,3)] obtain l where l: "hd v = from_leaf breaks_ni l" "breaks_wf l" by metis
  have "breaks_is_ok_child l" using c(2) by (simp add: l(1) from_leaf_def breaks_ni_def node_is_ok_child_def)
  then have "0 < length (bl_data l)" unfolding breaks_is_ok_child_def breaks_MIN_LEAF_def by linarith
  moreover have "length (bl_data l) = cnt id (break_bits l)" using breaks.compute_info [OF l(2)] by (simp add: breaks_ni_def)
  ultimately have "0 < cnt id (tree_bits (hd v))" by (simp add: l(1) breaks.wf_from_leaf)
  then show ?case unfolding v(3) using v(4) by (cases v) (auto simp: id_def)
next
  case (Suc h)
  obtain v where v: "\<And>c. c \<in> set v \<Longrightarrow> breaks_ok c \<and> n_height c = Suc h"
    "tree_bits t = concat (map tree_bits v)" "v \<noteq> []"
    using breaks.wf_children [OF Suc.prems(1,2)] by (metis list.size(3) not_numeral_le_zero)
  then have "0 < cnt id (tree_bits (hd v))" using Suc.IH [of "hd v"] by (simp add: id_def)
  then show ?case unfolding v(2) using v(3) by (cases v) (auto simp: id_def)
qed

lemma scan_breaks_past:
  assumes "\<And>c. c \<in> set v \<Longrightarrow> breaks_ok c"
  shows "scan_children breaks_metric breaks_base_metric 1 v (cnt id (concat (map tree_bits v)) + 1) m
    = (None, 1, m + length (concat (map tree_bits v)))"
  using assms by (induction v arbitrary: m) (auto simp: break_count.node_measure break_units.node_measure)

text \<open>The number behind the last break is answered with an offset behind the end.\<close>

lemma breaks_past:
  assumes t: "breaks_ok t"
  shows "\<exists>e > n_len t. count_base_units breaks_base_metric breaks_metric t (node_measure breaks_metric t + 1) = Some e"
proof -
  have fr: "m_can_fragment breaks_metric" by (simp add: breaks_metric_def)
  have fudge: "break_count.fudge = 1" by (simp add: break_count.fudge_def fr)
  note ms = breaks_measures(1,2) [OF t]
  show ?thesis
  proof (cases "n_height t")
    case 0
    from breaks.wf_leaf [OF t 0] obtain l where l: "t = from_leaf breaks_ni l" "breaks_wf l" by metis
    have "length (bl_data l) = cnt id (break_bits l)" using breaks.compute_info [OF l(2)] by (simp add: breaks_ni_def)
    then show ?thesis unfolding ms using l breaks.leaf_len [OF l(2)]
      by (simp add: count_base_units_def convert_metrics_def convert_loop_leaf from_leaf_def get_leaf_def fr breaks_metric_def breaks_base_metric_def)
  next
    case (Suc h)
    obtain v where v: "get_children t = Some v" "\<And>c. c \<in> set v \<Longrightarrow> breaks_ok c" "tree_bits t = concat (map tree_bits v)"
      using breaks.wf_children [OF t Suc] by metis
    have "convert_loop breaks_metric breaks_base_metric 1 t (cnt id (tree_bits t) + 1) 0
        = convert_loop breaks_metric breaks_base_metric 1 t 1 (length (tree_bits t))"
      using Suc v(1) scan_breaks_past [OF v(2), of v 0] unfolding v(3) by (subst convert_loop.simps) simp
    moreover have pos: "1 \<le> cnt id (tree_bits t)" using breaks_inner_positive [OF t Suc] by linarith
    moreover obtain i where i: "mpos_at (\<lambda>_. True) (cnt id) (tree_bits t) 1 i" using bit_position_exists [OF pos] .
    ultimately obtain n' l k' m' j where r: "convert_loop breaks_metric breaks_base_metric 1 t (cnt id (tree_bits t) + 1) 0 = Some (n', k', m')"
      "get_leaf n' = Some l" "breaks_wf l" "mpos_at (\<lambda>_. True) (cnt id) (break_bits l) k' j"
      "m' + length (take j (break_bits l)) = length (tree_bits t) + length (take i (tree_bits t))"
      using breaks_to_units.convert_loop_spec [OF t, of 1 i "length (tree_bits t)", unfolded fudge]
      by (metis le_imp_less_Suc Suc_eq_plus1 order_refl)
    have "0 < i" "i \<le> length (tree_bits t)" using i by (auto simp: mpos_at_def cut_ok_def intro!: gr0I)
    moreover have "m_to_base_units breaks_metric l k' = Some j" using r(3,4) by (rule breaks_to_base)
    moreover have "m_from_base_units breaks_base_metric l j = Some (length (take j (break_bits l)))"
      using r(3,4) by (intro break_units.from_base) (auto simp: mpos_at_def)
    ultimately show ?thesis unfolding ms using r
      by (simp add: count_base_units_def convert_metrics_def fr)
  qed
qed

text \<open>What a builder makes of given lines, and what an edit makes of a tree.\<close>

lemma count_starts:
  assumes "\<forall>n \<in> set ns. 0 < n"
  shows "cnt id (take i (line_bits ns @ replicate m False))
    = length (filter (\<lambda>k. sum_list (take k ns) \<le> i) [1..<Suc (length ns)])"
proof -
  let ?bits = "line_bits ns @ replicate m False"
  let ?c = "cnt id (take i ?bits)"
  have all: "cnt id ?bits = length ns" unfolding filter_append length_append cnt_line_bits by simp
  have c: "?c \<le> length ns" using cnt_take_le [of id i ?bits] all by simp
  have iff: "sum_list (take k ns) \<le> i \<longleftrightarrow> k \<le> ?c" if k: "k \<le> length ns" for k
  proof -
    note p = mpos_at_line_bits [OF assms k, of "replicate m False"]
    have p': "cnt id (take (sum_list (take k ns)) ?bits) = k" "sum_list (take k ns) \<le> length ?bits"
      "\<And>j. j < sum_list (take k ns) \<Longrightarrow> cnt id (take j ?bits) < k"
      using p by (auto simp: mpos_at_def cut_ok_def)
    show ?thesis
    proof
      assume "sum_list (take k ns) \<le> i"
      from cnt_take_mono [OF this, of id ?bits] p'(1) show "k \<le> ?c" by simp
    next
      assume "k \<le> ?c"
      with p'(3) [of i] show "sum_list (take k ns) \<le> i" by linarith
    qed
  qed
  have "filter (\<lambda>k. sum_list (take k ns) \<le> i) [1..<Suc (length ns)] = filter (\<lambda>k. k \<le> ?c) [1..<Suc (length ns)]"
    using iff by (intro filter_cong) auto
  also have "\<dots> = [1..<Suc ?c]"
  proof -
    have "[1..<Suc (length ns)] = [1..<Suc ?c] @ [Suc ?c..<Suc (length ns)]"
      using c upt_add_eq_append [of 1 "Suc ?c" "length ns - ?c"] by simp
    moreover have "filter (\<lambda>k. k \<le> ?c) ([1..<Suc ?c] @ [Suc ?c..<Suc (length ns)]) = [1..<Suc ?c]"
      by (simp only: filter_append) (simp add: filter_id_conv filter_empty_conv del: upt_Suc)
    ultimately show ?thesis by argo
  qed
  finally show ?thesis by (simp only: length_upt)
qed

lemma breaks_built:
  assumes ns: "\<forall>n \<in> set ns. 0 < n"
  obtains bb t where "add_breaks bb_new ns = Some bb" "bb_build (add_no_break bb m) = Some t" "breaks_ok t"
    "n_len t = sum_list ns + m" "node_measure breaks_metric t = length ns"
    "\<forall>k \<le> length ns. count_base_units breaks_base_metric breaks_metric t k = Some (sum_list (take k ns))"
    "\<forall>i \<le> n_len t. node_count breaks_base_metric breaks_metric t i
         = Some (length (filter (\<lambda>k. sum_list (take k ns) \<le> i) [1..<Suc (length ns)]))"
proof -
  obtain bb where bb: "add_breaks bb_new ns = Some bb" "builder_ok bb" "builder_bits bb = line_bits ns"
    using add_breaks_specE [OF bb_new_ok(1) ns] by (auto simp: bb_new_ok)
  obtain t where t: "bb_build (add_no_break bb m) = Some t" "breaks_ok t" "tree_bits t = line_bits ns @ replicate m False"
    using bb_buildE [OF add_no_break_spec(1) [OF bb(2), of m]] add_no_break_spec(2) [OF bb(2), of m] bb(3) by metis
  note ms = breaks_measures [OF t(2), unfolded t(3)]
  show thesis
  proof (rule that [OF bb(1) t(1,2)])
    show "n_len t = sum_list ns + m" using ms(2) length_line_bits [OF ns] by simp
    show "node_measure breaks_metric t = length ns" unfolding ms(1) filter_append length_append cnt_line_bits by simp
    show "\<forall>k \<le> length ns. count_base_units breaks_base_metric breaks_metric t k = Some (sum_list (take k ns))"
      using ms(4) mpos_at_line_bits [OF ns] by blast
    show "\<forall>i \<le> n_len t. node_count breaks_base_metric breaks_metric t i
         = Some (length (filter (\<lambda>k. sum_list (take k ns) \<le> i) [1..<Suc (length ns)]))"
      using ms(3) count_starts [OF ns, of _ m] by simp
  qed
qed

lemma new_no_break_ok: "breaks_ok (new_no_break n)" "tree_bits (new_no_break n) = replicate n False"
proof -
  have l: "breaks_wf \<lparr>bl_len = n, bl_data = []\<rparr>" by (simp add: breaks_wf_def breaks_MAX_LEAF_def)
  show "breaks_ok (new_no_break n)" unfolding new_no_break_def using breaks.wf_from_leaf(1) [OF l] .
  have "break_bits \<lparr>bl_len = n, bl_data = []\<rparr> = replicate n False"
    by (simp add: break_bits_def list_eq_iff_nth_eq)
  then show "tree_bits (new_no_break n) = replicate n False" by (simp add: new_no_break_def breaks.wf_from_leaf)
qed

lemma breaks_edited:
  assumes t: "breaks_ok t" and be: "b \<le> e" "e \<le> n_len t"
  obtains t' where "node_edit breaks_ni t (BInterval (mk_iv b e)) (new_no_break n) = Some t'" "breaks_ok t'"
    "n_len t' = n_len t - (e - b) + n"
    "\<forall>i \<le> b. node_count breaks_base_metric breaks_metric t' i = node_count breaks_base_metric breaks_metric t i"
    "\<forall>i. e \<le> i \<longrightarrow> i \<le> n_len t \<longrightarrow> (\<exists>nb ne nx. node_count breaks_base_metric breaks_metric t b = Some nb
        \<and> node_count breaks_base_metric breaks_metric t e = Some ne \<and> node_count breaks_base_metric breaks_metric t i = Some nx
        \<and> node_count breaks_base_metric breaks_metric t' (b + n + (i - e)) = Some (nb + (nx - ne)))"
proof -
  let ?bits = "tree_bits t"
  note ms = breaks_measures [OF t]
  have len: "n_len t = length ?bits" by (rule ms(2))
  obtain t' where t': "node_edit breaks_ni t (BInterval (mk_iv b e)) (new_no_break n) = Some t'" "breaks_ok t'"
    "tree_bits t' = take b ?bits @ replicate n False @ drop e ?bits"
    using breaks.node_edit_spec [OF t new_no_break_ok(1), of "BInterval (mk_iv b e)" b e] be len new_no_break_ok(2)
    by (auto simp: cut_ok_def)
  note ms' = breaks_measures [OF t'(2), unfolded t'(3)]
  have len': "n_len t' = length ?bits - (e - b) + n" using ms'(2) be len by simp
  show thesis
  proof (rule that [OF t'(1,2)])
    show "n_len t' = n_len t - (e - b) + n" using len' len by simp
    show "\<forall>i \<le> b. node_count breaks_base_metric breaks_metric t' i = node_count breaks_base_metric breaks_metric t i"
      using ms(3) ms'(3) be len len' by (simp add: min_absorb1)
    show "\<forall>i. e \<le> i \<longrightarrow> i \<le> n_len t \<longrightarrow> (\<exists>nb ne nx. node_count breaks_base_metric breaks_metric t b = Some nb
        \<and> node_count breaks_base_metric breaks_metric t e = Some ne \<and> node_count breaks_base_metric breaks_metric t i = Some nx
        \<and> node_count breaks_base_metric breaks_metric t' (b + n + (i - e)) = Some (nb + (nx - ne)))"
    proof (intro allI impI)
      fix i assume i: "e \<le> i" "i \<le> n_len t"
      have "take i ?bits = take e ?bits @ take (i - e) (drop e ?bits)" using i(1) take_add [of e "i - e" ?bits] by simp
      then have "cnt id (take i ?bits) - cnt id (take e ?bits) = cnt id (take (i - e) (drop e ?bits))" by simp
      moreover have "node_count breaks_base_metric breaks_metric t' (b + n + (i - e))
          = Some (cnt id (take b ?bits) + cnt id (take (i - e) (drop e ?bits)))"
        using ms'(3) [of "b + n + (i - e)"] i be len len' by (simp add: min_absorb2 add.assoc)
      ultimately show "\<exists>nb ne nx. node_count breaks_base_metric breaks_metric t b = Some nb
        \<and> node_count breaks_base_metric breaks_metric t e = Some ne \<and> node_count breaks_base_metric breaks_metric t i = Some nx
        \<and> node_count breaks_base_metric breaks_metric t' (b + n + (i - e)) = Some (nb + (nx - ne))"
        using ms(3) [of b] ms(3) [of e] ms(3) [of i] be i len by simp
    qed
  qed
qed

end
