(* ===== verification/Core_LineOffset.thy ===== *)
theory Core_LineOffset
  imports Core_Selection Rope_Breaks
begin

text \<open>
  Lines and columns, from \<^verbatim>\<open>xi-core-lib/src/line_offset.rs\<close>: the trait \<^verbatim>\<open>LineOffset\<close> as a record of the operations
  that its implementations replace, its default methods, and its implementations for the lines of the text and for a
  set of breaks.  First the grapheme steps of \<^verbatim>\<open>rope/impls.rs\<close> that snap an offset to a cluster; the clusters
  themselves are found by the crate \<^verbatim>\<open>unicode-segmentation\<close>, whose cursor is a parameter.
\<close>

section \<open>Grapheme clusters\<close>

datatype grapheme_incomplete = PreContext nat | PrevChunk | NextChunk | InvalidOffset

text \<open>The operations of \<^verbatim>\<open>GraphemeCursor\<close>; those that change the cursor return it.\<close>

record 'g grapheme_lib =
  gc_new :: "nat \<Rightarrow> nat \<Rightarrow> bool \<Rightarrow> 'g"
  gc_next_boundary :: "'g \<Rightarrow> str \<Rightarrow> nat \<Rightarrow> ((grapheme_incomplete + nat option) \<times> 'g) option"
  gc_prev_boundary :: "'g \<Rightarrow> str \<Rightarrow> nat \<Rightarrow> ((grapheme_incomplete + nat option) \<times> 'g) option"
  gc_provide_context :: "'g \<Rightarrow> str \<Rightarrow> nat \<Rightarrow> 'g option"

type_synonym rope_cursor = "(str, rope_info) cursor"

partial_function (option) next_grapheme_loop ::
  "byte_search \<Rightarrow> 'g grapheme_lib \<Rightarrow> rope_cursor \<Rightarrow> 'g \<Rightarrow> str \<Rightarrow> nat \<Rightarrow> nat \<Rightarrow> (rope_cursor \<times> nat option) option" where
  "next_grapheme_loop lib gl cu c l leaf_offset pos = do {
     (r, c) \<leftarrow> gc_next_boundary gl c l leaf_offset;
     case r of
       Inr b \<Rightarrow> Some (cu, b)
     | Inl incomp \<Rightarrow> (case incomp of
         PreContext _ \<Rightarrow> do {
           (cu, r) \<leftarrow> prev_leaf (rope_ni lib) cu;
           case r of None \<Rightarrow> Some (cu, None)
           | Some (pl, poffset) \<Rightarrow> do {
               d \<leftarrow> usize_sub (cursor_pos cu) poffset;
               c \<leftarrow> gc_provide_context gl c pl d;
               next_grapheme_loop lib gl cu c l leaf_offset pos } }
       | NextChunk \<Rightarrow> do {
           cu \<leftarrow> cursor_set (rope_ni lib) cu pos;
           (cu, r) \<leftarrow> next_leaf (rope_ni lib) cu;
           case r of None \<Rightarrow> Some (cu, None)
           | Some (nl, noffset) \<Rightarrow> do {
               leaf_offset \<leftarrow> usize_sub (cursor_pos cu) noffset;
               next_grapheme_loop lib gl cu c nl leaf_offset (leaf_offset + length nl) } }
       | _ \<Rightarrow> Some (cu, None)) }"

declare next_grapheme_loop.simps [code]

definition next_grapheme ::
  "byte_search \<Rightarrow> 'g grapheme_lib \<Rightarrow> rope_cursor \<Rightarrow> (rope_cursor \<times> nat option) option" where
  "next_grapheme lib gl cu = do {
     r \<leftarrow> cu_get_leaf cu;
     case r of None \<Rightarrow> Some (cu, None)
     | Some (l, offset) \<Rightarrow> do {
         let offset' = clamp_loop l offset;
         pos \<leftarrow> usize_sub (cursor_pos cu) (offset - offset');
         leaf_offset \<leftarrow> usize_sub pos offset';
         next_grapheme_loop lib gl cu (gc_new gl pos (total_len cu) True) l leaf_offset pos } }"

partial_function (option) prev_grapheme_loop ::
  "byte_search \<Rightarrow> 'g grapheme_lib \<Rightarrow> rope_cursor \<Rightarrow> 'g \<Rightarrow> str \<Rightarrow> nat \<Rightarrow> nat \<Rightarrow> (rope_cursor \<times> nat option) option" where
  "prev_grapheme_loop lib gl cu c l leaf_offset pos = do {
     (r, c) \<leftarrow> gc_prev_boundary gl c l leaf_offset;
     case r of
       Inr b \<Rightarrow> Some (cu, b)
     | Inl incomp \<Rightarrow> (case incomp of
         PreContext _ \<Rightarrow> do {
           (cu, r) \<leftarrow> prev_leaf (rope_ni lib) cu;
           case r of None \<Rightarrow> Some (cu, None)
           | Some (pl, poffset) \<Rightarrow> do {
               d \<leftarrow> usize_sub (cursor_pos cu) poffset;
               c \<leftarrow> gc_provide_context gl c pl d;
               prev_grapheme_loop lib gl cu c l leaf_offset pos } }
       | PrevChunk \<Rightarrow> do {
           cu \<leftarrow> cursor_set (rope_ni lib) cu pos;
           (cu, r) \<leftarrow> prev_leaf (rope_ni lib) cu;
           case r of None \<Rightarrow> Some (cu, None)
           | Some (pl, poffset) \<Rightarrow> do {
               leaf_offset \<leftarrow> usize_sub (cursor_pos cu) poffset;
               prev_grapheme_loop lib gl cu c pl leaf_offset (leaf_offset + length pl) } }
       | _ \<Rightarrow> Some (cu, None)) }"

declare prev_grapheme_loop.simps [code]

text \<open>The loop that moves up to the next character boundary.\<close>

function ceil_loop :: "str \<Rightarrow> nat \<Rightarrow> nat" where
  "ceil_loop l offset = (if offset < length l \<and> \<not> is_char_boundary l offset then ceil_loop l (offset + 1) else offset)"
  by pat_completeness auto
termination
  by (relation "measure (\<lambda>(l, offset). length l - offset)") auto

declare ceil_loop.simps [simp del]

definition prev_grapheme ::
  "byte_search \<Rightarrow> 'g grapheme_lib \<Rightarrow> rope_cursor \<Rightarrow> (rope_cursor \<times> nat option) option" where
  "prev_grapheme lib gl cu = do {
     r \<leftarrow> cu_get_leaf cu;
     case r of None \<Rightarrow> Some (cu, None)
     | Some (l, offset) \<Rightarrow> do {
         let offset' = ceil_loop l offset;
         let pos = cursor_pos cu + (offset' - offset);
         leaf_offset \<leftarrow> usize_sub pos offset';
         prev_grapheme_loop lib gl cu (gc_new gl pos (length l + leaf_offset) True) l leaf_offset pos } }"

definition prev_grapheme_offset :: "byte_search \<Rightarrow> 'g grapheme_lib \<Rightarrow> rope \<Rightarrow> nat \<Rightarrow> nat option option" where
  "prev_grapheme_offset lib gl t offset = do {
     cu \<leftarrow> cursor_new t offset;
     (_, r) \<leftarrow> prev_grapheme lib gl cu;
     Some r }"

definition next_grapheme_offset :: "byte_search \<Rightarrow> 'g grapheme_lib \<Rightarrow> rope \<Rightarrow> nat \<Rightarrow> nat option option" where
  "next_grapheme_offset lib gl t offset = do {
     cu \<leftarrow> cursor_new t offset;
     (_, r) \<leftarrow> next_grapheme lib gl cu;
     Some r }"


text \<open>A stand-in for the grapheme cursor: every character is a cluster of its own.\<close>

definition char_clusters :: "nat grapheme_lib" where
  "char_clusters = \<lparr>
     gc_new = (\<lambda>pos len extended. pos),
     gc_next_boundary = (\<lambda>p s off. Some (Inr (if p < off + length s then Some (off + ceil_loop s (p - off + 1)) else None), p)),
     gc_prev_boundary = (\<lambda>p s off. Some (if p = 0 then Inr None else if p \<le> off then Inl PrevChunk
        else Inr (Some (off + clamp_loop s (p - off - 1))), p)),
     gc_provide_context = (\<lambda>p s off. Some p)\<rparr>"


section \<open>The trait and its implementations\<close>

text \<open>Results of the fallible forms: the outer option is a panic, the sum the source's \<^verbatim>\<open>Result\<close>.\<close>

type_synonym 'a rope_result = "(rope_error + 'a) option"

definition result_bind :: "'a rope_result \<Rightarrow> ('a \<Rightarrow> 'b rope_result) \<Rightarrow> 'b rope_result" where
  "result_bind r f = do { x \<leftarrow> r; case x of Inl err \<Rightarrow> Some (Inl err) | Inr v \<Rightarrow> f v }"

definition result_expect :: "'a rope_result \<Rightarrow> 'a option" where
  "result_expect r = do { x \<leftarrow> r; case x of Inl _ \<Rightarrow> None | Inr v \<Rightarrow> Some v }"

record line_offset =
  lo_try_offset_of_line :: "rope \<Rightarrow> nat \<Rightarrow> nat rope_result"
  lo_offset_of_line :: "rope \<Rightarrow> nat \<Rightarrow> nat option"
  lo_try_line_of_offset :: "rope \<Rightarrow> nat \<Rightarrow> nat rope_result"
  lo_line_of_offset :: "rope \<Rightarrow> nat \<Rightarrow> nat option"

definition logical_lines :: "byte_search \<Rightarrow> line_offset" where
  "logical_lines lib = \<lparr>
     lo_try_offset_of_line = try_offset_of_line lib,
     lo_offset_of_line = (\<lambda>t line. result_expect (try_offset_of_line lib t line)),
     lo_try_line_of_offset = try_line_of_offset lib,
     lo_line_of_offset = (\<lambda>t offset. result_expect (try_line_of_offset lib t offset))\<rparr>"

definition breaks_lines :: "byte_search \<Rightarrow> breaks \<Rightarrow> line_offset" where
  "breaks_lines lib b = \<lparr>
     lo_try_offset_of_line = (\<lambda>t line.
       let max_line = node_measure breaks_metric b + 1
       in if line > max_line then Some (Inl (LineOutOfBounds line max_line))
          else do { k \<leftarrow> count_base_units breaks_base_metric breaks_metric b line; Some (Inr k) }),
     lo_offset_of_line = (\<lambda>t line. count_base_units breaks_base_metric breaks_metric b line),
     lo_try_line_of_offset = (\<lambda>t offset. result_bind (try_line_of_offset lib t offset)
       (\<lambda>_. do { k \<leftarrow> node_count breaks_base_metric breaks_metric b offset; Some (Inr k) })),
     lo_line_of_offset = (\<lambda>t offset. node_count breaks_base_metric breaks_metric b (min offset (n_len t)))\<rparr>"

definition try_offset_to_line_col :: "line_offset \<Rightarrow> rope \<Rightarrow> nat \<Rightarrow> (nat \<times> nat) rope_result" where
  "try_offset_to_line_col lo t offset =
     result_bind (lo_try_line_of_offset lo t offset) (\<lambda>line.
     result_bind (lo_try_offset_of_line lo t line) (\<lambda>start.
     do { col \<leftarrow> usize_sub offset start; Some (Inr (line, col)) }))"

definition offset_to_line_col :: "line_offset \<Rightarrow> rope \<Rightarrow> nat \<Rightarrow> (nat \<times> nat) option" where
  "offset_to_line_col lo t offset = result_expect (try_offset_to_line_col lo t offset)"

text \<open>
  The sum with the column saturates in the source, which changes nothing: it is only compared with the length
  of the text.  The end of \<^verbatim>\<open>try_line_col_to_offset\<close>: clamp to the end of the line.\<close>

definition clamp_to_line ::
  "byte_search \<Rightarrow> 'g grapheme_lib \<Rightarrow> line_offset \<Rightarrow> rope \<Rightarrow> nat \<Rightarrow> nat \<Rightarrow> nat rope_result" where
  "clamp_to_line lib gl lo t line offset =
     result_bind (lo_try_offset_of_line lo t (line + 1)) (\<lambda>next_line_offset.
       if offset \<ge> next_line_offset then do {
         prev \<leftarrow> prev_grapheme_offset lib gl t next_line_offset;
         Some (Inr (case prev of Some q \<Rightarrow> q | None \<Rightarrow> offset)) }
       else Some (Inr offset))"

definition try_line_col_to_offset ::
  "byte_search \<Rightarrow> 'g grapheme_lib \<Rightarrow> line_offset \<Rightarrow> rope \<Rightarrow> nat \<Rightarrow> nat \<Rightarrow> nat rope_result" where
  "try_line_col_to_offset lib gl lo t line col =
     result_bind (lo_try_offset_of_line lo t line) (\<lambda>start.
       if start + col \<ge> n_len t then
         result_bind (lo_try_line_of_offset lo t (n_len t)) (\<lambda>last_line.
           if last_line \<le> line then Some (Inr (n_len t)) else clamp_to_line lib gl lo t line (n_len t))
       else do {
         prev \<leftarrow> prev_grapheme_offset lib gl t (start + col + 1);
         offset \<leftarrow> prev;
         clamp_to_line lib gl lo t line offset })"

definition line_col_to_offset ::
  "byte_search \<Rightarrow> 'g grapheme_lib \<Rightarrow> line_offset \<Rightarrow> rope \<Rightarrow> nat \<Rightarrow> nat \<Rightarrow> nat option" where
  "line_col_to_offset lib gl lo t line col = result_expect (try_line_col_to_offset lib gl lo t line col)"

definition get_line_range :: "line_offset \<Rightarrow> rope \<Rightarrow> sel_region \<Rightarrow> (nat \<times> nat) option" where
  "get_line_range lo t region = do {
     (first_row, _) \<leftarrow> offset_to_line_col lo t (sr_min region);
     (last_row, last_col) \<leftarrow> offset_to_line_col lo t (sr_max region);
     let last_row = (if last_col = 0 \<and> last_row > first_row then last_row - 1 else last_row);
     Some (first_row, last_row + 1) }"


section \<open>The contract of the lines of a text\<close>

text \<open>
  A division of a text into lines is given by one bit for each byte, set when a line ends behind it.  \<open>cut\<close> are the
  offsets at which the text may be divided.
\<close>

locale line_offset_laws =
  fixes lo :: line_offset
    and t :: rope
    and bits :: "bool list"
    and cut :: "nat \<Rightarrow> bool"
  assumes bits_len: "length bits = n_len t"
    and cut_le: "cut i \<Longrightarrow> i \<le> n_len t"
    and cut_len: "cut (n_len t)"
    and line_of: "cut i \<Longrightarrow> lo_try_line_of_offset lo t i = Some (Inr (cnt id (take i bits)))"
    and start_of: "mpos_at (\<lambda>_. True) (cnt id) bits k i \<Longrightarrow> lo_try_offset_of_line lo t k = Some (Inr i)"
    and past: "\<exists>e \<ge> n_len t. lo_try_offset_of_line lo t (cnt id bits + 1) = Some (Inr e)"
    and offset_error: "n_len t < i \<Longrightarrow> lo_try_line_of_offset lo t i = Some (Inl (OffsetOutOfBounds i (n_len t)))"
    and line_error: "cnt id bits + 1 < k \<Longrightarrow>
      lo_try_offset_of_line lo t k = Some (Inl (LineOutOfBounds k (cnt id bits + 1)))"
begin

lemma start_le:
  assumes "mpos_at (\<lambda>_. True) (cnt id) bits (cnt id (take i bits)) j"
  shows "j \<le> i"
proof (rule ccontr)
  assume "\<not> j \<le> i"
  then have "i < j" by simp
  moreover have "j \<le> length bits" using assms by (auto simp: mpos_at_def dest: cut_ok_le)
  ultimately show False using assms by (auto simp: mpos_at_def cut_ok_def)
qed

lemma line_colE:
  assumes "cut i"
  obtains s where "mpos_at (\<lambda>_. True) (cnt id) bits (cnt id (take i bits)) s" "s \<le> i"
    "try_offset_to_line_col lo t i = Some (Inr (cnt id (take i bits), i - s))"
proof -
  obtain s where s: "mpos_at (\<lambda>_. True) (cnt id) bits (cnt id (take i bits)) s"
    using bit_position_exists [OF cnt_take_le] .
  have "s \<le> i" using s by (rule start_le)
  with that [OF s] line_of [OF assms] start_of [OF s] show thesis
    by (simp add: try_offset_to_line_col_def result_bind_def)
qed

text \<open>The column counts the bytes behind the last end of a line.\<close>

lemma column:
  assumes i: "i \<le> length bits" and s: "mpos_at (\<lambda>_. True) (cnt id) bits (cnt id (take i bits)) s"
  shows "i - s = length (takeWhile Not (rev (take i bits)))"
proof -
  have le: "s \<le> i" using s by (rule start_le)
  have split: "take i bits = take s bits @ slice bits s i" by (rule take_slice [OF le, symmetric])
  have "cnt id (take s bits) = cnt id (take i bits)" using s by (simp add: mpos_at_def)
  then have "cnt id (slice bits s i) = 0" unfolding split by (simp del: length_0_conv)
  then have none: "\<And>x. x \<in> set (slice bits s i) \<Longrightarrow> \<not> x" by (auto simp: filter_empty_conv)
  have "takeWhile Not (rev (take s bits)) = []"
  proof (cases s)
    case (Suc j)
    then have last: "take s bits = take j bits @ [bits ! j]" using le i by (simp add: take_Suc_conv_app_nth)
    have "cnt id (take j bits) < cnt id (take s bits)" using s Suc le i by (simp add: mpos_at_def cut_ok_def)
    then have "bits ! j" unfolding last by (auto split: if_splits)
    with last show ?thesis by simp
  qed simp
  then have "takeWhile Not (rev (take i bits)) = rev (slice bits s i)"
    unfolding split rev_append using none by (subst takeWhile_append2) auto
  then show ?thesis using le i by (simp add: slice_def)
qed

lemma line_col:
  assumes "cut i"
  shows "try_offset_to_line_col lo t i = Some (Inr (cnt id (take i bits), length (takeWhile Not (rev (take i bits)))))"
proof -
  obtain s where "mpos_at (\<lambda>_. True) (cnt id) bits (cnt id (take i bits)) s"
    "try_offset_to_line_col lo t i = Some (Inr (cnt id (take i bits), i - s))"
    using assms by (rule line_colE)
  with column [of i s] cut_le [OF assms] bits_len show ?thesis by simp
qed

text \<open>The start of the next line lies behind every offset of a line.\<close>

lemma next_start:
  assumes "i < n_len t"
  obtains e where "lo_try_offset_of_line lo t (cnt id (take i bits) + 1) = Some (Inr e)" "i < e"
proof (cases "cnt id (take i bits) = cnt id bits")
  case True
  with past assms that show thesis by (metis order_less_le_trans)
next
  case False
  then have "cnt id (take i bits) + 1 \<le> cnt id bits" using cnt_take_le [of id i bits] by simp
  then obtain e where e: "mpos_at (\<lambda>_. True) (cnt id) bits (cnt id (take i bits) + 1) e" by (rule bit_position_exists)
  have "i < e"
  proof (rule ccontr)
    assume "\<not> i < e"
    then have "cnt id (take e bits) \<le> cnt id (take i bits)" by (intro cnt_take_mono) simp
    with e show False by (simp add: mpos_at_def)
  qed
  with start_of [OF e] that show thesis by blast
qed

text \<open>Line and column of an offset lead back to it, when a cluster starts there.\<close>

lemma line_col_roundtrip:
  assumes i: "cut i" and cluster: "i < n_len t \<Longrightarrow> prev_grapheme_offset lib gl t (i + 1) = Some (Some i)"
  shows "try_line_col_to_offset lib gl lo t (cnt id (take i bits)) (length (takeWhile Not (rev (take i bits)))) = Some (Inr i)"
proof -
  obtain s where s: "mpos_at (\<lambda>_. True) (cnt id) bits (cnt id (take i bits)) s" "s \<le> i"
    "try_offset_to_line_col lo t i = Some (Inr (cnt id (take i bits), i - s))"
    using i by (rule line_colE)
  have st: "lo_try_offset_of_line lo t (cnt id (take i bits)) = Some (Inr s)" using s(1) by (rule start_of)
  have "try_line_col_to_offset lib gl lo t (cnt id (take i bits)) (i - s) = Some (Inr i)"
  proof (cases "i < n_len t")
    case True
    obtain e where "lo_try_offset_of_line lo t (cnt id (take i bits) + 1) = Some (Inr e)" "i < e"
      using next_start [OF True] .
    with True s(2) st cluster show ?thesis
      by (simp add: try_line_col_to_offset_def clamp_to_line_def result_bind_def)
  next
    case False
    then have "i = n_len t" using cut_le [OF i] by simp
    with s(2) st line_of [OF i] show ?thesis by (simp add: try_line_col_to_offset_def result_bind_def)
  qed
  then show ?thesis using column [OF _ s(1)] cut_le [OF i] bits_len by simp
qed

text \<open>A column past the end of a text that has further lines is clamped to the end of the line.\<close>

lemma line_col_clamped:
  assumes k: "k < cnt id bits" and e: "mpos_at (\<lambda>_. True) (cnt id) bits (k + 1) e"
    and s: "mpos_at (\<lambda>_. True) (cnt id) bits k s" and col: "n_len t \<le> s + col"
    and g: "prev_grapheme_offset lib gl t e = Some (Some q)"
  shows "try_line_col_to_offset lib gl lo t k col = Some (Inr q)"
proof -
  have "e \<le> n_len t" using e bits_len by (auto simp: mpos_at_def dest: cut_ok_le)
  then show ?thesis
    using start_of [OF s] start_of [OF e] line_of [OF cut_len] col k g bits_len
    by (simp add: try_line_col_to_offset_def clamp_to_line_def result_bind_def)
qed

text \<open>The last accepted line number stands for the end of the text, whatever the column.\<close>

lemma line_col_past: "try_line_col_to_offset lib gl lo t (cnt id bits + 1) col = Some (Inr (n_len t))"
  using past line_of [OF cut_len] bits_len by (auto simp: try_line_col_to_offset_def result_bind_def)

text \<open>The two directions together, with the errors.\<close>

lemma line_columns_spec:
  "(\<forall>i. cut i \<longrightarrow>
       try_offset_to_line_col lo t i = Some (Inr (cnt id (take i bits), length (takeWhile Not (rev (take i bits)))))
       \<and> ((i < n_len t \<longrightarrow> prev_grapheme_offset lib gl t (i + 1) = Some (Some i)) \<longrightarrow>
          try_line_col_to_offset lib gl lo t (cnt id (take i bits)) (length (takeWhile Not (rev (take i bits)))) = Some (Inr i)))
    \<and> (\<forall>i > n_len t. try_offset_to_line_col lo t i = Some (Inl (OffsetOutOfBounds i (n_len t))))
    \<and> (\<forall>col. try_line_col_to_offset lib gl lo t (cnt id bits + 1) col = Some (Inr (n_len t)))
    \<and> (\<forall>k col. cnt id bits + 1 < k \<longrightarrow>
        try_line_col_to_offset lib gl lo t k col = Some (Inl (LineOutOfBounds k (cnt id bits + 1))))"
proof (intro conjI allI impI)
  show "try_offset_to_line_col lo t i = Some (Inl (OffsetOutOfBounds i (n_len t)))" if "n_len t < i" for i
    using offset_error [OF that] by (simp add: try_offset_to_line_col_def result_bind_def)
  show "try_line_col_to_offset lib gl lo t k col = Some (Inl (LineOutOfBounds k (cnt id bits + 1)))"
    if "cnt id bits + 1 < k" for k col
    using line_error [OF that] by (simp add: try_line_col_to_offset_def result_bind_def)
qed (simp_all add: line_col line_col_roundtrip line_col_past [simplified])

text \<open>The lines of a region: those that it touches, without a last one of which it holds nothing.\<close>

lemma line_range:
  assumes "cut (sr_min r)" "cut (sr_max r)"
  shows "\<exists>s. mpos_at (\<lambda>_. True) (cnt id) bits (cnt id (take (sr_max r) bits)) s
    \<and> get_line_range lo t r = Some (cnt id (take (sr_min r) bits),
        if s = sr_max r \<and> cnt id (take (sr_min r) bits) < cnt id (take (sr_max r) bits)
        then cnt id (take (sr_max r) bits) else cnt id (take (sr_max r) bits) + 1)"
proof -
  obtain s where s: "mpos_at (\<lambda>_. True) (cnt id) bits (cnt id (take (sr_max r) bits)) s" "s \<le> sr_max r"
    "try_offset_to_line_col lo t (sr_max r) = Some (Inr (cnt id (take (sr_max r) bits), sr_max r - s))"
    using assms(2) by (rule line_colE)
  obtain s' where s': "try_offset_to_line_col lo t (sr_min r) = Some (Inr (cnt id (take (sr_min r) bits), sr_min r - s'))"
    using assms(1) by (rule line_colE)
  show ?thesis using s s' by (intro exI [of _ s]) (auto simp: get_line_range_def offset_to_line_col_def result_expect_def)
qed

end


section \<open>The lines of the text keep the contract\<close>

abbreviation newline_bits :: "str \<Rightarrow> bool list" where
  "newline_bits s \<equiv> map (\<lambda>b. b = NL) s"

lemma cnt_newline_bits: "cnt id (take i (newline_bits s)) = newlines (take i s)"
  by (simp add: take_map filter_map comp_def)

context byte_search_laws
begin

lemma mpos_at_newline_bits:
  assumes "utf8_valid s" "mpos_at (\<lambda>_. True) (cnt id) (newline_bits s) k i"
  shows "mpos_at is_lead (cnt (\<lambda>b. b = NL)) s k i"
proof (rule mpos_at_newlines [OF assms(1)])
  have i: "i \<le> length s" "newlines (take i s) = k" "\<And>j. j < i \<Longrightarrow> newlines (take j s) < k"
    using assms(2) unfolding mpos_at_def cnt_newline_bits by (auto simp: cut_ok_def)
  show "i \<le> length s" "newlines (take i s) = k" by (rule i)+
  show "if k = 0 then i = 0 else 0 < i \<and> s ! (i - 1) = NL"
  proof (cases i)
    case (Suc j)
    then have "take i s = take j s @ [s ! j]" using i(1) by (simp add: take_Suc_conv_app_nth)
    with i(2) i(3) [of j] Suc show ?thesis by (auto split: if_splits)
  qed (use i in auto)
qed

end

text \<open>A well-formed rope, alone and with a set of breaks over the same length.\<close>

locale plain_document = byte_search_laws +
  fixes t :: rope
  assumes rope: "rope_ok lib t"

sublocale plain_document \<subseteq> logical: line_offset_laws "logical_lines lib" t "newline_bits (node_content id t)"
  "cut_ok is_lead (node_content id t)"
proof unfold_locales
  have len: "n_len t = length (node_content id t)" using rope by (rule str.wf_len)
  show "length (newline_bits (node_content id t)) = n_len t" by (simp add: len)
  show "i \<le> n_len t" if "cut_ok is_lead (node_content id t) i" for i using that by (simp add: len cut_ok_le)
  show "cut_ok is_lead (node_content id t) (n_len t)" by (simp add: len cut_ok_def)
  show "lo_try_line_of_offset (logical_lines lib) t i = Some (Inr (cnt id (take i (newline_bits (node_content id t)))))"
    if "cut_ok is_lead (node_content id t) i" for i
    unfolding cnt_newline_bits using try_line_of_offset_spec(1) [OF rope that] by (simp add: logical_lines_def)
  show "lo_try_offset_of_line (logical_lines lib) t k = Some (Inr i)"
    if "mpos_at (\<lambda>_. True) (cnt id) (newline_bits (node_content id t)) k i" for k i
    using try_offset_of_line_spec(1) [OF rope mpos_at_newline_bits [OF rope_valid [OF rope] that]]
    by (simp add: logical_lines_def)
  have "cnt id (newline_bits (node_content id t)) = newlines (node_content id t)"
    by (simp add: filter_map comp_def)
  then show "\<exists>e \<ge> n_len t. lo_try_offset_of_line (logical_lines lib) t (cnt id (newline_bits (node_content id t)) + 1) = Some (Inr e)"
    using try_offset_of_line_spec(2) [OF rope] by (auto simp: logical_lines_def len)
  show "lo_try_line_of_offset (logical_lines lib) t i = Some (Inl (OffsetOutOfBounds i (n_len t)))" if "n_len t < i" for i
    using try_line_of_offset_spec(2) [OF rope that] by (simp add: logical_lines_def)
  show "lo_try_offset_of_line (logical_lines lib) t k
      = Some (Inl (LineOutOfBounds k (cnt id (newline_bits (node_content id t)) + 1)))"
    if "cnt id (newline_bits (node_content id t)) + 1 < k" for k
    using that try_offset_of_line_spec(3) [OF rope, of k] \<open>cnt id (newline_bits (node_content id t)) = newlines (node_content id t)\<close>
    by (simp add: logical_lines_def)
qed


section \<open>The lines of a set of breaks keep it\<close>

locale wrapped_document = plain_document +
  fixes b :: breaks
  assumes breaks: "breaks_ok b"
    and same_length: "n_len b = n_len t"

sublocale wrapped_document \<subseteq> soft: line_offset_laws "breaks_lines lib b" t "tree_bits b" "cut_ok is_lead (node_content id t)"
proof unfold_locales
  note ms = breaks_measures [OF breaks]
  show "length (tree_bits b) = n_len t" using ms(2) same_length by simp
  show "lo_try_line_of_offset (breaks_lines lib b) t i = Some (Inr (cnt id (take i (tree_bits b))))"
    if "cut_ok is_lead (node_content id t) i" for i
    using try_line_of_offset_spec(1) [OF rope that] ms(3) [of i] logical.cut_le [OF that] same_length
    by (simp add: breaks_lines_def result_bind_def)
  show "lo_try_offset_of_line (breaks_lines lib b) t k = Some (Inr i)"
    if "mpos_at (\<lambda>_. True) (cnt id) (tree_bits b) k i" for k i
  proof -
    have "k \<le> node_measure breaks_metric b" using break_count.mpos_at_le [OF that] ms(1) by simp
    then show ?thesis using ms(4) [OF that] by (simp add: breaks_lines_def Let_def)
  qed
  show "\<exists>e \<ge> n_len t. lo_try_offset_of_line (breaks_lines lib b) t (cnt id (tree_bits b) + 1) = Some (Inr e)"
    using breaks_past [OF breaks] ms(1) same_length by (fastforce simp: breaks_lines_def Let_def)
qed (use try_line_of_offset_spec(2) [OF rope] breaks_measures(1) [OF breaks]
    in \<open>auto simp: logical.cut_le logical.cut_len breaks_lines_def result_bind_def Let_def\<close>)

context wrapped_document
begin

lemmas line_columns = logical.line_columns_spec soft.line_columns_spec

end

text \<open>The empty document meets both contracts.\<close>

interpretation empty_document: wrapped_document naive_search "from_leaf (rope_ni naive_search) []" "new_no_break 0"
  by unfold_locales
    (auto simp: from_leaf_def rope_ni_def str_leaf_wf_def new_no_break_def breaks_ni_def breaks_wf_def breaks_MAX_LEAF_def MAX_LEAF_def)

end
