(* ===== verification/Core_Detect.thy ===== *)
theory Core_Detect
  imports Rope_Iter_Laws
begin

text \<open>
  What an opened file is probed for: its indentation (\<^verbatim>\<open>xi-core-lib/src/whitespace.rs\<close>) and its line endings
  (\<^verbatim>\<open>line_ending.rs\<close>), each on a bounded part of the text.  The search function \<^verbatim>\<open>memchr2\<close> is a parameter.
\<close>

section \<open>Indentation\<close>

datatype indentation = Tabs | Spaces nat

datatype mixed_indent_error = MixedIndentError

abbreviation SPACE :: byte where "SPACE \<equiv> 0x20"
abbreviation TAB :: byte where "TAB \<equiv> 0x09"

fun parse_line_loop :: "str \<Rightarrow> nat \<Rightarrow> mixed_indent_error + indentation option" where
  "parse_line_loop [] spaces = Inr (if spaces > 0 then Some (Spaces spaces) else None)"
| "parse_line_loop (b # bs) spaces =
     (if b = SPACE then parse_line_loop bs (spaces + 1)
      else if b = TAB \<and> spaces > 0 then Inl MixedIndentError
      else if b = TAB then Inr (Some Tabs)
      else Inr (if spaces > 0 then Some (Spaces spaces) else None))"

definition parse_line :: "str \<Rightarrow> mixed_indent_error + indentation option" where
  "parse_line line = parse_line_loop line 0"

function gcd_loop :: "nat \<Rightarrow> nat \<Rightarrow> nat" where
  "gcd_loop a b = (if b > 0 then gcd_loop b (a mod b) else a)"
  by pat_completeness auto
termination
  by (relation "measure (\<lambda>(a, b). b)") auto

declare gcd_loop.simps [simp del]

definition gcd_usize :: "nat \<Rightarrow> nat \<Rightarrow> nat" where
  "gcd_usize a b = (if a = 0 then b else if b = 0 \<or> a = b then a else gcd_loop a b)"

text \<open>The \<^verbatim>\<open>BTreeMap\<close> from widths to counts, in the order of its keys.\<close>

fun count_width :: "(nat \<times> nat) list \<Rightarrow> nat \<Rightarrow> (nat \<times> nat) list" where
  "count_width [] width = [(width, 1)]"
| "count_width ((k, c) # m) width =
     (if width < k then (width, 1) # (k, c) # m
      else if width = k then (k, c + 1) # m
      else (k, c) # count_width m width)"

definition extract_count :: "(nat \<times> nat) list \<Rightarrow> nat" where
  "extract_count spaces =
     (let take_size = (if length spaces < 4 then length spaces else 4)
      in foldl (\<lambda>a (b, _). let d = gcd_usize a b in if d = 1 then a else d) 0 (take take_size spaces))"

definition indent_result :: "bool \<Rightarrow> (nat \<times> nat) list \<Rightarrow> mixed_indent_error + indentation option" where
  "indent_result tabs spaces =
     (case (tabs, spaces \<noteq> []) of
        (True, True) \<Rightarrow> Inl MixedIndentError
      | (True, False) \<Rightarrow> Inr (Some Tabs)
      | (False, True) \<Rightarrow> (let tab_size = extract_count spaces
          in Inr (if tab_size > 0 then Some (Spaces tab_size) else None))
      | (False, False) \<Rightarrow> Inr None)"

text \<open>The loop over the first \<open>n\<close> lines.\<close>

fun indent_loop ::
  "byte_search \<Rightarrow> nat \<Rightarrow> lines_raw_iter \<Rightarrow> bool \<Rightarrow> (nat \<times> nat) list \<Rightarrow> (mixed_indent_error + indentation option) option" where
  "indent_loop lib 0 it tabs spaces = Some (indent_result tabs spaces)"
| "indent_loop lib (Suc n) it tabs spaces = do {
     (it, r) \<leftarrow> lines_raw_next lib it;
     case r of
       None \<Rightarrow> Some (indent_result tabs spaces)
     | Some line \<Rightarrow> (case parse_line line of
         Inr (Some (Spaces width)) \<Rightarrow> indent_loop lib n it tabs (count_width spaces width)
       | Inr (Some Tabs) \<Rightarrow> indent_loop lib n it True spaces
       | Inr None \<Rightarrow> indent_loop lib n it tabs spaces
       | Inl e \<Rightarrow> Some (Inl e)) }"

definition MAX_INDENT_PROBE_LINES :: nat where "MAX_INDENT_PROBE_LINES = 1000"

definition indent_parse_bounded :: "byte_search \<Rightarrow> rope \<Rightarrow> nat \<Rightarrow> (mixed_indent_error + indentation option) option" where
  "indent_parse_bounded lib t max_lines = do {
     it \<leftarrow> lines_raw t BRangeFull;
     indent_loop lib max_lines it False [] }"

definition indent_parse :: "byte_search \<Rightarrow> rope \<Rightarrow> (mixed_indent_error + indentation option) option" where
  "indent_parse lib t = indent_parse_bounded lib t MAX_INDENT_PROBE_LINES"


section \<open>Line endings\<close>

datatype line_ending = CrLf | Lf

datatype line_ending_error = Mixed | LegacyCr

type_synonym memchr2 = "byte \<Rightarrow> byte \<Rightarrow> str \<Rightarrow> nat option"

definition parse_chunk :: "memchr2 \<Rightarrow> str \<Rightarrow> (line_ending_error + line_ending option) option" where
  "parse_chunk find2 bytes =
     (case find2 NL CR bytes of
        Some x \<Rightarrow> do {
          b \<leftarrow> list_get bytes x;
          Some (if b = CR \<and> length bytes > x + 1 \<and> bytes ! (x + 1) = NL then Inr (Some CrLf)
            else if b = NL then Inr (Some Lf)
            else if b = CR then Inl LegacyCr
            else Inl Mixed) }
      | None \<Rightarrow> Some (Inr None))"

definition ending_result :: "bool \<Rightarrow> bool \<Rightarrow> line_ending_error + line_ending option" where
  "ending_result crlf lf =
     (case (crlf, lf) of
        (True, False) \<Rightarrow> Inr (Some CrLf)
      | (False, True) \<Rightarrow> Inr (Some Lf)
      | (False, False) \<Rightarrow> Inr None
      | _ \<Rightarrow> Inl Mixed)"

partial_function (option) ending_loop ::
  "byte_search \<Rightarrow> memchr2 \<Rightarrow> nat \<Rightarrow> chunk_iter \<Rightarrow> bool \<Rightarrow> bool \<Rightarrow> nat \<Rightarrow> (line_ending_error + line_ending option) option" where
  "ending_loop lib find2 max_bytes it crlf lf seen = do {
     (it, r) \<leftarrow> chunk_next lib it;
     case r of
       None \<Rightarrow> Some (ending_result crlf lf)
     | Some chunk \<Rightarrow>
         if seen \<ge> max_bytes then Some (ending_result crlf lf)
         else do {
           let budget = max_bytes - seen;
           let stop = (if budget \<ge> length chunk then length chunk else clamp_loop chunk budget);
           prefix \<leftarrow> str_slice chunk 0 stop;
           p \<leftarrow> parse_chunk find2 prefix;
           case p of
             Inr (Some CrLf) \<Rightarrow> ending_loop lib find2 max_bytes it True lf (seen + stop)
           | Inr (Some Lf) \<Rightarrow> ending_loop lib find2 max_bytes it crlf True (seen + stop)
           | Inr None \<Rightarrow> ending_loop lib find2 max_bytes it crlf lf (seen + stop)
           | Inl e \<Rightarrow> Some (Inl e) } }"

declare ending_loop.simps [code]

definition MAX_LINE_ENDING_PROBE_BYTES :: nat where "MAX_LINE_ENDING_PROBE_BYTES = 65536"

definition ending_parse_bounded ::
  "byte_search \<Rightarrow> memchr2 \<Rightarrow> rope \<Rightarrow> nat \<Rightarrow> (line_ending_error + line_ending option) option" where
  "ending_parse_bounded lib find2 t max_bytes = do {
     it \<leftarrow> iter_chunks t BRangeFull;
     ending_loop lib find2 max_bytes it False False 0 }"

definition ending_parse :: "byte_search \<Rightarrow> memchr2 \<Rightarrow> rope \<Rightarrow> (line_ending_error + line_ending option) option" where
  "ending_parse lib find2 t = ending_parse_bounded lib find2 t MAX_LINE_ENDING_PROBE_BYTES"


section \<open>Laws of the indentation probe\<close>

lemma gcd_loop_eq: "gcd_loop a b = gcd a b"
proof (induction a b rule: gcd_loop.induct)
  case (1 a b)
  then show ?case by (subst gcd_loop.simps) (auto simp: gcd_red_nat [of a b])
qed

lemma gcd_usize_eq: "gcd_usize a b = gcd a b"
  by (simp add: gcd_usize_def gcd_loop_eq)

text \<open>The indentation of a line, read off its leading blanks.\<close>

definition indent_width :: "str \<Rightarrow> nat" where
  "indent_width line = length (takeWhile (\<lambda>b. b = SPACE) line)"

definition tab_follows :: "str \<Rightarrow> bool" where
  "tab_follows line \<longleftrightarrow> (case dropWhile (\<lambda>b. b = SPACE) line of [] \<Rightarrow> False | b # _ \<Rightarrow> b = TAB)"

lemma parse_line_loop_eq:
  "parse_line_loop line n =
     (if tab_follows line then if n + indent_width line > 0 then Inl MixedIndentError else Inr (Some Tabs)
      else Inr (if n + indent_width line > 0 then Some (Spaces (n + indent_width line)) else None))"
  by (induction line arbitrary: n) (auto simp: indent_width_def tab_follows_def)

lemma parse_line_eq:
  "parse_line line =
     (if tab_follows line then if indent_width line > 0 then Inl MixedIndentError else Inr (Some Tabs)
      else Inr (if indent_width line > 0 then Some (Spaces (indent_width line)) else None))"
  by (simp add: parse_line_def parse_line_loop_eq)

lemma keys_count_width: "fst ` set (count_width m w) = insert w (fst ` set m)"
  by (induction m w rule: count_width.induct) auto

lemma sorted_count_width: "sorted_wrt (<) (map fst m) \<Longrightarrow> sorted_wrt (<) (map fst (count_width m w))"
proof (induction m w rule: count_width.induct)
  case (2 k c m w)
  have "\<And>x. x \<in> set (map fst (count_width m w)) \<Longrightarrow> x = w \<or> x \<in> set (map fst m)"
    using keys_count_width [of m w] by auto
  with 2 show ?case by fastforce
qed simp

text \<open>What the loop makes of a list of lines.\<close>

fun probe_lines :: "str list \<Rightarrow> bool \<Rightarrow> (nat \<times> nat) list \<Rightarrow> mixed_indent_error + indentation option" where
  "probe_lines [] tabs spaces = indent_result tabs spaces"
| "probe_lines (line # ls) tabs spaces = (case parse_line line of
       Inr (Some (Spaces width)) \<Rightarrow> probe_lines ls tabs (count_width spaces width)
     | Inr (Some Tabs) \<Rightarrow> probe_lines ls True spaces
     | Inr None \<Rightarrow> probe_lines ls tabs spaces
     | Inl e \<Rightarrow> Inl e)"


definition space_widths :: "str list \<Rightarrow> nat list" where
  "space_widths ls = filter (\<lambda>w. w > 0) (map indent_width ls)"

lemma probe_lines_eq:
  "probe_lines ls tabs spaces =
     (if \<exists>line \<in> set ls. tab_follows line \<and> indent_width line > 0 then Inl MixedIndentError
      else indent_result (tabs \<or> (\<exists>line \<in> set ls. tab_follows line)) (foldl count_width spaces (space_widths ls)))"
  by (induction ls arbitrary: tabs spaces) (auto simp: parse_line_eq space_widths_def)

lemma foldl_count_width:
  assumes "sorted_wrt (<) (map fst m)"
  shows "fst ` set (foldl count_width m ws) = fst ` set m \<union> set ws" "sorted_wrt (<) (map fst (foldl count_width m ws))"
  using assms by (induction ws arbitrary: m) (auto simp: keys_count_width sorted_count_width)

definition extract_step :: "nat \<Rightarrow> nat \<times> nat \<Rightarrow> nat" where
  "extract_step a p = (let d = gcd a (fst p) in if d = 1 then a else d)"

lemma extract_count_eq: "extract_count m = foldl extract_step 0 (take 4 m)"
proof -
  have "(\<lambda>a (b, _). let d = gcd_usize a b in if d = 1 then a else d) = extract_step"
    by (auto simp: fun_eq_iff extract_step_def gcd_usize_eq)
  then show ?thesis by (simp add: extract_count_def)
qed

lemma extract_multiples:
  "\<forall>p \<in> set m. d dvd fst p \<Longrightarrow> 1 < d \<Longrightarrow> foldl extract_step d m = d"
  by (induction m) (auto simp: extract_step_def gcd_nat.absorb1)

lemma extract_divides:
  assumes "foldl extract_step a m = r" "a = 0 \<or> 1 < a \<and> (\<exists>w \<in> W. a dvd w)" "fst ` set m \<subseteq> W" "0 \<notin> W" "0 < r"
  shows "1 < r \<and> (\<exists>w \<in> W. r dvd w)"
  using assms
proof (induction m arbitrary: a)
  case (Cons p m)
  have w: "fst p \<in> W" "0 < fst p" using Cons.prems(3,4) by (auto intro: gr0I)
  have "extract_step a p = 0 \<or> 1 < extract_step a p \<and> (\<exists>w \<in> W. extract_step a p dvd w)"
  proof (cases "gcd a (fst p) = 1")
    case True
    then show ?thesis using Cons.prems(2) by (simp add: extract_step_def Let_def)
  next
    case False
    moreover have "0 < gcd a (fst p)" using w(2) by simp
    ultimately have "1 < gcd a (fst p)" by linarith
    with False w(1) show ?thesis by (auto simp: extract_step_def Let_def intro!: bexI [of _ "fst p"])
  qed
  then show ?case using Cons.IH [of "extract_step a p"] Cons.prems by simp
qed auto

text \<open>The verdict on a list of lines.\<close>

lemma probe_lines_verdict:
  fixes ls :: "str list"
  defines "r \<equiv> probe_lines ls False []"
  defines "tabbed \<equiv> \<exists>line \<in> set ls. tab_follows line" and "W \<equiv> set (space_widths ls)"
  shows "r = Inl MixedIndentError \<longleftrightarrow> tabbed \<and> W \<noteq> {}"
    "r = Inr (Some Tabs) \<longleftrightarrow> tabbed \<and> W = {}"
    "r = Inr (Some (Spaces d)) \<Longrightarrow> \<not> tabbed \<and> 1 < d \<and> (\<exists>w \<in> W. d dvd w)"
    "\<not> tabbed \<Longrightarrow> 1 < d \<Longrightarrow> d \<in> W \<Longrightarrow> \<forall>w \<in> W. d dvd w \<Longrightarrow> r = Inr (Some (Spaces d))"
proof -
  define m where "m = foldl count_width [] (space_widths ls)"
  have keys: "fst ` set m = W" and sorted: "sorted_wrt (<) (map fst m)"
    using foldl_count_width [of "[]" "space_widths ls"] by (simp_all add: m_def W_def)
  have pos: "0 \<notin> W" by (auto simp: W_def space_widths_def)
  have empty: "m = [] \<longleftrightarrow> W = {}" using keys by auto
  have mixed: "W \<noteq> {}" if "line \<in> set ls" "0 < indent_width line" for line
    using that by (auto simp: W_def space_widths_def filter_empty_conv)
  have r: "r = (if tabbed \<and> W \<noteq> {} then Inl MixedIndentError else indent_result tabbed m)"
  proof -
    have "indent_result tabbed m = Inl MixedIndentError" if "tabbed" "W \<noteq> {}" using that by (simp add: indent_result_def empty)
    then show ?thesis using mixed unfolding r_def probe_lines_eq m_def [symmetric] tabbed_def by auto
  qed
  show "r = Inl MixedIndentError \<longleftrightarrow> tabbed \<and> W \<noteq> {}" "r = Inr (Some Tabs) \<longleftrightarrow> tabbed \<and> W = {}"
    unfolding r by (auto simp: indent_result_def empty Let_def split: bool.splits)
  show "\<not> tabbed \<and> 1 < d \<and> (\<exists>w \<in> W. d dvd w)" if "r = Inr (Some (Spaces d))"
  proof -
    have "\<not> tabbed" "extract_count m = d" "0 < d"
      using that unfolding r by (auto simp: indent_result_def empty Let_def split: bool.splits if_splits)
    moreover from this have "1 < d \<and> (\<exists>w \<in> W. d dvd w)"
      using extract_divides [of 0 "take 4 m" d W] keys pos by (auto simp: extract_count_eq dest: in_set_takeD)
    ultimately show ?thesis by blast
  qed
  show "r = Inr (Some (Spaces d))" if d: "\<not> tabbed" "1 < d" "d \<in> W" "\<forall>w \<in> W. d dvd w"
  proof -
    obtain k c m' where m: "m = (k, c) # m'" using d(3) keys by (cases m) auto
    have "k dvd d \<or> k = d" and kd: "d dvd k" "k \<le> d" "0 < k"
    proof -
      have kW: "k \<in> W" using keys m by auto
      show "d dvd k" using d(4) kW by blast
      show "0 < k" using kW pos by (auto intro: gr0I)
      have "d \<in> fst ` set m" using d(3) keys by simp
      then show "k \<le> d" using sorted unfolding m by fastforce
      then show "k dvd d \<or> k = d" using \<open>d dvd k\<close> \<open>0 < k\<close> by (auto dest: dvd_imp_le)
    qed
    then have k: "k = d" using dvd_imp_le by (metis le_antisym)
    have "foldl extract_step 0 (take 4 m) = foldl extract_step d (take 3 m')"
      using d(2) by (simp add: m k extract_step_def numeral_eq_Suc)
    also have "\<dots> = d" using d(2,4) keys m by (intro extract_multiples) (auto dest: in_set_takeD)
    finally show ?thesis using d(1,2,3) unfolding r by (auto simp: indent_result_def extract_count_eq m Let_def split: bool.splits)
  qed
qed

context byte_search_laws
begin

lemma indent_loop_spec:
  "lines_state t it rem \<Longrightarrow> indent_loop lib n it tabs spaces = Some (probe_lines (take n (raw_lines rem)) tabs spaces)"
proof (induction n arbitrary: it rem tabs spaces)
  case (Suc n)
  obtain it' r where n: "lines_raw_loop lib it [] = Some (it', r)" "r = (if rem = [] then None else Some (head_line rem))"
    "lines_state t it' (drop (length (head_line rem)) rem)"
    using lines_raw_loop_spec [OF Suc.prems, of "[]"] by auto
  show ?case
  proof (cases "rem = []")
    case True
    with n show ?thesis by (simp add: lines_raw_next_def raw_lines.simps)
  next
    case False
    then have "raw_lines rem = head_line rem # raw_lines (drop (length (head_line rem)) rem)" by (subst raw_lines.simps) simp
    with False n(1,2) Suc.IH [OF n(3)] show ?thesis
      by (auto simp: lines_raw_next_def split: sum.splits option.splits indentation.splits)
  qed
qed simp

lemma whole_chunks:
  assumes t: "rope_ok lib t"
  obtains it where "iter_chunks t BRangeFull = Some it" "chunk_state t it 0 (length (node_content id t))"
proof -
  let ?s = "node_content id t"
  have b: "is_char_boundary ?s 0" "is_char_boundary ?s (length ?s)" by (simp_all add: is_char_boundary_def)
  have len: "n_len t = length ?s" using t by (rule str.wf_len)
  have iv: "into_interval BRangeFull (n_len t) = Some (mk_iv 0 (length ?s))"
    by (simp add: len interval_new_def mk_iv_def)
  show thesis using iter_chunks_state [OF t iv] b len that by auto
qed

lemma indent_parse_bounded_spec:
  assumes t: "rope_ok lib t"
  shows "indent_parse_bounded lib t n = Some (probe_lines (take n (raw_lines (node_content id t))) False [])"
proof -
  let ?s = "node_content id t"
  obtain it where it: "iter_chunks t BRangeFull = Some it" "chunk_state t it 0 (length ?s)"
    using t by (rule whole_chunks)
  then have "lines_state t \<lparr>lr_inner = it, lr_fragment = []\<rparr> ?s"
    unfolding lines_state_def using it(2) by (intro conjI exI [of _ 0] exI [of _ "length ?s"]) auto
  from indent_loop_spec [OF this] it(1) show ?thesis by (simp add: indent_parse_bounded_def lines_raw_def)
qed

end


section \<open>Laws of the line ending probe\<close>

locale memchr2_laws = byte_search_laws +
  fixes find2 :: memchr2
  assumes find2_None: "find2 a b xs = None \<longleftrightarrow> a \<notin> set xs \<and> b \<notin> set xs"
    and find2_Some: "find2 a b xs = Some i \<Longrightarrow>
      i < length xs \<and> (xs ! i = a \<or> xs ! i = b) \<and> (\<forall>j < i. xs ! j \<noteq> a \<and> xs ! j \<noteq> b)"

text \<open>The kind of the first line end of a chunk.\<close>

fun chunk_ending :: "str \<Rightarrow> line_ending_error + line_ending option" where
  "chunk_ending [] = Inr None"
| "chunk_ending (b # bs) =
     (if b = NL then Inr (Some Lf)
      else if b = CR then if bs \<noteq> [] \<and> hd bs = NL then Inr (Some CrLf) else Inl LegacyCr
      else chunk_ending bs)"

lemma chunk_ending_skip: "\<forall>b \<in> set pre. b \<noteq> NL \<and> b \<noteq> CR \<Longrightarrow> chunk_ending (pre @ s) = chunk_ending s"
  by (induction pre) auto

lemma chunk_ending_none: "NL \<notin> set c \<Longrightarrow> CR \<notin> set c \<Longrightarrow> chunk_ending c = Inr None"
  using chunk_ending_skip [of c "[]"] by auto

fun probe_chunks :: "str list \<Rightarrow> bool \<Rightarrow> bool \<Rightarrow> line_ending_error + line_ending option" where
  "probe_chunks [] crlf lf = ending_result crlf lf"
| "probe_chunks (c # cs) crlf lf = (case chunk_ending c of
       Inr (Some CrLf) \<Rightarrow> probe_chunks cs True lf
     | Inr (Some Lf) \<Rightarrow> probe_chunks cs crlf True
     | Inr None \<Rightarrow> probe_chunks cs crlf lf
     | Inl e \<Rightarrow> Inl e)"

lemma str_slice_full: "str_slice s 0 (length s) = Some s"
  by (simp add: str_slice_def is_char_boundary_def)

context memchr2_laws
begin

lemma parse_chunk_eq: "parse_chunk find2 c = Some (chunk_ending c)"
proof (cases "find2 NL CR c")
  case None
  then have "chunk_ending c = Inr None" by (simp add: find2_None chunk_ending_none)
  with None show ?thesis by (simp add: parse_chunk_def)
next
  case (Some x)
  note at = find2_Some [OF Some]
  have split: "c = take x c @ c ! x # drop (Suc x) c" using at id_take_nth_drop by metis
  have "chunk_ending c = chunk_ending (c ! x # drop (Suc x) c)"
    by (subst split, rule chunk_ending_skip) (use at in \<open>auto simp: in_set_conv_nth\<close>)
  moreover have "length c > x + 1 \<and> c ! (x + 1) = NL \<longleftrightarrow> drop (Suc x) c \<noteq> [] \<and> hd (drop (Suc x) c) = NL"
    by (auto simp: hd_drop_conv_nth)
  ultimately show ?thesis using Some at by (auto simp: parse_chunk_def list_get_def)
qed

lemma ending_loop_uncapped:
  "chunk_state t it p e \<Longrightarrow> seen + (e - p) \<le> cap \<Longrightarrow>
    \<exists>cs. chunk_collect lib it = Some cs \<and> concat cs = slice (node_content id t) p e
      \<and> ending_loop lib find2 cap it crlf lf seen = Some (probe_chunks cs crlf lf)"
proof (induction "e - p" arbitrary: it p seen crlf lf rule: less_induct)
  case less
  let ?s = "node_content id t"
  show ?case
  proof (cases "p < e")
    case False
    then show ?thesis using chunk_next_end [OF less.prems(1)]
      by (subst chunk_collect.simps, subst ending_loop.simps) simp
  next
    case True
    obtain it' q where n: "chunk_next lib it = Some (it', Some (slice ?s p (min q e)))" "p < q" "chunk_state t it' q e"
      using chunk_next_step [OF less.prems(1) True] .
    define c where "c = slice ?s p (min q e)"
    have e: "e \<le> length ?s" using less.prems(1) by (simp add: chunk_state_def)
    have len: "length c = min q e - p" using e by (simp add: c_def)
    have seen: "seen < cap" "length c \<le> cap - seen" using True n(2) less.prems(2) len by auto
    have IH: "\<exists>cs. chunk_collect lib it' = Some cs \<and> concat cs = slice ?s q e
        \<and> ending_loop lib find2 cap it' crlf lf (seen + length c) = Some (probe_chunks cs crlf lf)" for crlf lf
      by (rule less.hyps [OF _ n(3)]) (use True n(2) less.prems(2) len in auto)
    then obtain cs where cs: "chunk_collect lib it' = Some cs" "concat cs = slice ?s q e"
      "\<And>crlf lf. ending_loop lib find2 cap it' crlf lf (seen + length c) = Some (probe_chunks cs crlf lf)"
      by (metis option.inject)
    have "ending_loop lib find2 cap it crlf lf seen = Some (probe_chunks (c # cs) crlf lf)"
      using n(1) [folded c_def] seen cs(3)
      by (subst ending_loop.simps) (simp add: str_slice_full parse_chunk_eq Let_def split: sum.splits option.splits line_ending.splits)
    moreover have "chunk_collect lib it = Some (c # cs)" using n(1) [folded c_def] cs(1) by (subst chunk_collect.simps) simp
    moreover have "concat (c # cs) = slice ?s p e"
      using cs(2) n(2) True by (cases "q \<le> e") (simp_all add: c_def slice_split min_absorb1 min_absorb2)
    ultimately show ?thesis by blast
  qed
qed

end


text \<open>Texts in which every line ends with CR and LF.\<close>

fun crlf_only :: "str \<Rightarrow> bool" where
  "crlf_only [] \<longleftrightarrow> True"
| "crlf_only [b] \<longleftrightarrow> b \<noteq> CR \<and> b \<noteq> NL"
| "crlf_only (b # b' # s) \<longleftrightarrow> (if b = CR then b' = NL \<and> crlf_only s else b \<noteq> NL \<and> crlf_only (b' # s))"

lemma crlf_only_split: "crlf_only (c @ s) \<Longrightarrow> c = [] \<or> last c \<noteq> CR \<Longrightarrow> crlf_only c \<and> crlf_only s"
proof (induction c rule: crlf_only.induct)
  case (2 b)
  then show ?case by (cases s) auto
next
  case (3 b b' c)
  show ?case
  proof (cases "b = CR")
    case True
    then have "b' = NL" "crlf_only (c @ s)" using 3(3) by auto
    moreover have "c = [] \<or> last c \<noteq> CR" using 3(4) by (auto split: if_splits)
    ultimately show ?thesis using 3(1) [OF True] True by simp
  next
    case False
    then have "b \<noteq> NL" "crlf_only ((b' # c) @ s)" using 3(3) by auto
    moreover have "last (b' # c) \<noteq> CR" using 3(4) by simp
    ultimately show ?thesis using 3(2) [OF False] False by simp
  qed
qed simp

lemma crlf_only_ending: "crlf_only c \<Longrightarrow> chunk_ending c = Inr (if NL \<in> set c then Some CrLf else None)"
  by (induction c rule: crlf_only.induct) (auto split: if_splits)

lemma probe_chunks_crlf:
  "crlf_only (concat cs) \<Longrightarrow> \<forall>c \<in> set cs. c = [] \<or> last c \<noteq> CR \<Longrightarrow>
    probe_chunks cs crlf lf = ending_result (crlf \<or> NL \<in> set (concat cs)) lf"
proof (induction cs arbitrary: crlf)
  case (Cons c cs)
  then have "crlf_only c" "crlf_only (concat cs)" using crlf_only_split [of c "concat cs"] by auto
  then show ?case using Cons by (auto simp: crlf_only_ending)
qed simp

lemma no_cr_ending: "CR \<notin> set c \<Longrightarrow> chunk_ending c = Inr (if NL \<in> set c then Some Lf else None)"
  by (induction c) auto

lemma probe_chunks_lf:
  "CR \<notin> set (concat cs) \<Longrightarrow> probe_chunks cs crlf lf = ending_result crlf (lf \<or> NL \<in> set (concat cs))"
  by (induction cs arbitrary: lf) (auto simp: no_cr_ending)

context memchr2_laws
begin

lemma ending_parse_uncapped:
  assumes t: "rope_ok lib t" and cap: "n_len t \<le> cap"
  obtains it cs where "iter_chunks t BRangeFull = Some it" "chunk_collect lib it = Some cs" "concat cs = node_content id t"
    "ending_parse_bounded lib find2 t cap = Some (probe_chunks cs False False)"
proof -
  let ?s = "node_content id t"
  obtain it where it: "iter_chunks t BRangeFull = Some it" "chunk_state t it 0 (length ?s)"
    using t by (rule whole_chunks)
  have "0 + (length ?s - 0) \<le> cap" using cap str.wf_len [OF t] by simp
  from ending_loop_uncapped [OF it(2) this, of False False] it(1) that show thesis
    by (auto simp: ending_parse_bounded_def)
qed

lemma ending_parse_spec:
  assumes t: "rope_ok lib t" and cap: "n_len t \<le> cap"
  shows "CR \<notin> set (node_content id t) \<Longrightarrow>
      ending_parse_bounded lib find2 t cap = Some (Inr (if NL \<in> set (node_content id t) then Some Lf else None))"
    "crlf_only (node_content id t) \<Longrightarrow> iter_chunks t BRangeFull \<bind> chunk_collect lib = Some cs \<Longrightarrow>
      \<forall>c \<in> set cs. c = [] \<or> last c \<noteq> CR \<Longrightarrow>
      ending_parse_bounded lib find2 t cap = Some (Inr (if NL \<in> set (node_content id t) then Some CrLf else None))"
proof -
  obtain it cs' where r: "iter_chunks t BRangeFull = Some it" "chunk_collect lib it = Some cs'" "concat cs' = node_content id t"
    "ending_parse_bounded lib find2 t cap = Some (probe_chunks cs' False False)"
    using ending_parse_uncapped [OF assms] .
  show "ending_parse_bounded lib find2 t cap = Some (Inr (if NL \<in> set (node_content id t) then Some Lf else None))"
    if "CR \<notin> set (node_content id t)"
    using probe_chunks_lf [of cs' False False] r that by (simp add: ending_result_def)
  show "ending_parse_bounded lib find2 t cap = Some (Inr (if NL \<in> set (node_content id t) then Some CrLf else None))"
    if "crlf_only (node_content id t)" "iter_chunks t BRangeFull \<bind> chunk_collect lib = Some cs"
      "\<forall>c \<in> set cs. c = [] \<or> last c \<noteq> CR"
    using probe_chunks_crlf [of cs' False False] r that by (simp add: ending_result_def)
qed

end

text \<open>A search by walking through the bytes.\<close>

fun naive_memchr2 :: memchr2 where
  "naive_memchr2 a b [] = None"
| "naive_memchr2 a b (x # xs) = (if x = a \<or> x = b then Some 0 else map_option Suc (naive_memchr2 a b xs))"

interpretation naive2: memchr2_laws naive_search naive_memchr2
proof unfold_locales
  show "naive_memchr2 a b xs = None \<longleftrightarrow> a \<notin> set xs \<and> b \<notin> set xs" for a b xs
    by (induction xs) auto
  show "i < length xs \<and> (xs ! i = a \<or> xs ! i = b) \<and> (\<forall>j < i. xs ! j \<noteq> a \<and> xs ! j \<noteq> b)"
    if "naive_memchr2 a b xs = Some i" for a b xs i
    using that by (induction xs arbitrary: i) (fastforce simp: nth_Cons split: if_splits nat.splits)+
qed

end
