(* ===== verification/Core_Overlay.thy ===== *)
theory Core_Overlay
  imports Rope_Text_Laws "HOL-Library.AList"
begin

text \<open>
  The edit overlay of very large files, from \<^verbatim>\<open>xi-core-lib/src/vlf/overlay.rs\<close>: a document is a list of pieces, each
  a range of the original file or of an append-only buffer of inserted text.  Edits split pieces, are recorded
  by undo group, and old groups are dropped when a limit is reached.  A hash map is an association list with
  distinct keys; byte counts and identifiers stay below their widths and are \<open>nat\<close>.  Operations return the overlay
  also when they fail, as they may have changed it before.
\<close>

section \<open>Pieces and their metrics\<close>

type_synonym byte_range = "nat \<times> nat"

type_synonym insert_range = "nat \<times> nat"

definition range_len :: "nat \<times> nat \<Rightarrow> nat" where
  "range_len r = snd r - fst r"

record text_metrics =
  tm_byte_len :: nat
  tm_utf16_len :: nat
  tm_newline_count :: nat
  tm_ends_with_cr :: bool
  tm_starts_with_lf :: bool

definition tm_from_bytes :: "str \<Rightarrow> text_metrics option" where
  "tm_from_bytes bytes = do {
     rassert (utf8_valid bytes);
     Some \<lparr>tm_byte_len = length bytes,
       tm_utf16_len = sum_list (map char_len_utf16 (str_chars bytes)),
       tm_newline_count = length (filter (\<lambda>c. c = [NL]) (str_chars bytes)),
       tm_ends_with_cr = (bytes \<noteq> [] \<and> last bytes = 0x0D),
       tm_starts_with_lf = (bytes \<noteq> [] \<and> hd bytes = NL)\<rparr> }"

type_synonym buffer_id = nat

datatype piece =
    Original byte_range text_metrics
  | Inserted buffer_id insert_range text_metrics

fun piece_metrics :: "piece \<Rightarrow> text_metrics" where
  "piece_metrics (Original _ m) = m"
| "piece_metrics (Inserted _ _ m) = m"

definition piece_byte_len :: "piece \<Rightarrow> nat" where
  "piece_byte_len p = tm_byte_len (piece_metrics p)"

text \<open>A buffer is its bytes.\<close>

type_synonym insert_buffer = str

definition buffer_append :: "insert_buffer \<Rightarrow> str \<Rightarrow> insert_buffer \<times> insert_range" where
  "buffer_append buf s = (buf @ s, length buf, length buf + length s)"

definition buffer_slice :: "insert_buffer \<Rightarrow> insert_range \<Rightarrow> str option" where
  "buffer_slice buf r = bytes_slice buf (fst r) (snd r)"


section \<open>The overlay\<close>

datatype overlay_op = InsertOp nat buffer_id insert_range | DeleteOp byte_range

record overlay_edit_context =
  oc_revision_id :: nat
  oc_undo_group :: nat

record overlay_delta =
  od_undo_group :: nat
  od_revision_id :: nat
  od_ops :: "overlay_op list"

record overlay_limits =
  max_undo_groups :: nat
  overlay_byte_cap :: nat

record sparse_edit_gate =
  read_byte_range_ready :: bool
  streaming_search_ready :: bool
  streaming_save_ready :: bool

datatype limit_kind = UndoGroupCap nat | MemoryCap nat nat

datatype overlay_error =
    OutOfRange nat nat
  | InvalidUtf8Boundary
  | ArbitrarySparseEditsNotReady
  | LimitReached limit_kind

record piece_overlay =
  ov_pieces :: "piece list"
  ov_cum_offsets :: "nat list"
  ov_total_byte_len :: nat
  ov_total_newlines :: nat
  ov_original_file_byte_len :: nat
  ov_buffers :: "(buffer_id \<times> insert_buffer) list"
  ov_next_buffer_id :: nat
  ov_active_buffer :: "buffer_id option"
  ov_undo_history :: "(nat \<times> overlay_delta) list"
  ov_undo_group_order :: "nat list"
  ov_limits :: overlay_limits
  ov_edit_gate :: sparse_edit_gate

text \<open>
  What the platform decides: the size of a piece in memory, and the UTF-16 length that floating point arithmetic
  assigns to the front part of a split file range (from the whole length, the length of the part and that of the
  piece).  The second is documented as an approximation.
\<close>

record platform =
  pf_piece_size :: nat
  pf_scale :: "nat \<Rightarrow> nat \<Rightarrow> nat \<Rightarrow> nat"

definition overlay_limits_default :: overlay_limits where
  "overlay_limits_default = \<lparr>max_undo_groups = 200, overlay_byte_cap = 64 * 1024 * 1024\<rparr>"

definition gate_closed :: sparse_edit_gate where
  "gate_closed = \<lparr>read_byte_range_ready = False, streaming_search_ready = False, streaming_save_ready = False\<rparr>"

definition overlay_with_limits :: "text_metrics \<Rightarrow> overlay_limits \<Rightarrow> piece_overlay" where
  "overlay_with_limits m lim = \<lparr>
     ov_pieces = (if tm_byte_len m = 0 then [] else [Original (0, tm_byte_len m) m]),
     ov_cum_offsets = (if tm_byte_len m = 0 then [] else [0]),
     ov_total_byte_len = tm_byte_len m, ov_total_newlines = tm_newline_count m,
     ov_original_file_byte_len = tm_byte_len m, ov_buffers = [], ov_next_buffer_id = 0, ov_active_buffer = None,
     ov_undo_history = [], ov_undo_group_order = [], ov_limits = lim, ov_edit_gate = gate_closed\<rparr>"

definition overlay_new :: "text_metrics \<Rightarrow> piece_overlay" where
  "overlay_new m = overlay_with_limits m overlay_limits_default"

definition known_line_count :: "piece_overlay \<Rightarrow> nat" where
  "known_line_count ov = ov_total_newlines ov + 1"


section \<open>Finding pieces\<close>

definition piece_for_byte :: "piece_overlay \<Rightarrow> nat \<Rightarrow> (nat \<times> nat) option option" where
  "piece_for_byte ov logical_byte =
     (if logical_byte \<ge> ov_total_byte_len ov \<or> ov_pieces ov = [] then Some None
      else do {
        let idx = partition_point (\<lambda>start. start \<le> logical_byte) (ov_cum_offsets ov) - 1;
        start \<leftarrow> list_get (ov_cum_offsets ov) idx;
        Some (Some (idx, start)) })"

fun running_offsets :: "nat \<Rightarrow> nat list \<Rightarrow> nat list" where
  "running_offsets pos [] = []"
| "running_offsets pos (n # ns) = pos # running_offsets (pos + n) ns"

definition rebuild_offsets :: "piece_overlay \<Rightarrow> piece_overlay" where
  "rebuild_offsets ov = ov\<lparr>ov_cum_offsets := running_offsets 0 (map piece_byte_len (ov_pieces ov)),
     ov_total_byte_len := sum_list (map piece_byte_len (ov_pieces ov))\<rparr>"

definition compute_total_newlines :: "piece_overlay \<Rightarrow> nat" where
  "compute_total_newlines ov = sum_list (map (tm_newline_count \<circ> piece_metrics) (ov_pieces ov))"

definition inserted_bytes_for_piece :: "piece_overlay \<Rightarrow> piece \<Rightarrow> str option" where
  "inserted_bytes_for_piece ov p = (case p of
       Inserted b r _ \<Rightarrow> do { buf \<leftarrow> map_of (ov_buffers ov) b; buffer_slice buf r }
     | Original _ _ \<Rightarrow> None)"

text \<open>The offset behind the newline with number \<open>n\<close>, or the length.\<close>

fun nth_newline :: "nat \<Rightarrow> nat \<Rightarrow> nat \<Rightarrow> str \<Rightarrow> nat" where
  "nth_newline n i count [] = i"
| "nth_newline n i count (b # bs) =
     (if b = NL then if count + 1 = n then i + 1 else nth_newline n (i + 1) (count + 1) bs
      else nth_newline n (i + 1) count bs)"

definition find_nth_newline_in_piece :: "piece_overlay \<Rightarrow> piece \<Rightarrow> nat \<Rightarrow> nat option" where
  "find_nth_newline_in_piece ov p n = (case p of
       Original _ _ \<Rightarrow> Some 0
     | Inserted b r _ \<Rightarrow> do {
         buf \<leftarrow> map_of (ov_buffers ov) b;
         bytes \<leftarrow> buffer_slice buf r;
         Some (if utf8_valid bytes then nth_newline n 0 0 bytes else 0) })"

datatype line_lookup = Exact nat | Approximate nat | Pending | OutOfRangeLine

fun line_to_byte_loop :: "piece_overlay \<Rightarrow> nat \<Rightarrow> piece list \<Rightarrow> nat \<Rightarrow> nat \<Rightarrow> line_lookup option" where
  "line_to_byte_loop ov target_line [] lines_seen byte_pos = Some OutOfRangeLine"
| "line_to_byte_loop ov target_line (p # ps) lines_seen byte_pos =
     (let m = piece_metrics p
      in if lines_seen + tm_newline_count m \<ge> target_line then do {
           remaining \<leftarrow> usize_sub target_line lines_seen;
           offset \<leftarrow> find_nth_newline_in_piece ov p remaining;
           Some (Exact (byte_pos + offset)) }
         else line_to_byte_loop ov target_line ps (lines_seen + tm_newline_count m) (byte_pos + tm_byte_len m))"

definition ov_line_to_byte :: "piece_overlay \<Rightarrow> nat \<Rightarrow> line_lookup option" where
  "ov_line_to_byte ov line =
     (if line = 0 then Some (Exact 0) else line_to_byte_loop ov line (ov_pieces ov) 0 0)"


section \<open>Editing\<close>

definition active_buffer_mut :: "piece_overlay \<Rightarrow> piece_overlay" where
  "active_buffer_mut ov = (case ov_active_buffer ov of
       None \<Rightarrow> ov\<lparr>ov_next_buffer_id := ov_next_buffer_id ov + 1,
         ov_buffers := AList.update (ov_next_buffer_id ov) [] (ov_buffers ov),
         ov_active_buffer := Some (ov_next_buffer_id ov)\<rparr>
     | Some _ \<Rightarrow> ov)"

definition split_piece :: "platform \<Rightarrow> piece_overlay \<Rightarrow> nat \<Rightarrow> nat \<Rightarrow> (piece \<times> piece) option" where
  "split_piece pf ov idx offset_in_piece = do {
     p \<leftarrow> list_get (ov_pieces ov) idx;
     case p of
       Original (s, e) m \<Rightarrow> do {
         let mid = s + offset_in_piece;
         let lo_m = \<lparr>tm_byte_len = range_len (s, mid),
           tm_utf16_len = pf_scale pf (tm_utf16_len m) (range_len (s, mid)) (tm_byte_len m),
           tm_newline_count = 0, tm_ends_with_cr = False, tm_starts_with_lf = tm_starts_with_lf m\<rparr>;
         let hi_m = \<lparr>tm_byte_len = range_len (mid, e),
           tm_utf16_len = tm_utf16_len m - tm_utf16_len lo_m,
           tm_newline_count = tm_newline_count m, tm_ends_with_cr = tm_ends_with_cr m, tm_starts_with_lf = False\<rparr>;
         Some (Original (s, mid) lo_m, Original (mid, e) hi_m) }
     | Inserted b (s, e) _ \<Rightarrow> do {
         let mid = s + offset_in_piece;
         buf \<leftarrow> map_of (ov_buffers ov) b;
         lo_bytes \<leftarrow> buffer_slice buf (s, mid);
         hi_bytes \<leftarrow> buffer_slice buf (mid, e);
         lo_m \<leftarrow> tm_from_bytes lo_bytes;
         hi_m \<leftarrow> tm_from_bytes hi_bytes;
         Some (Inserted b (s, mid) lo_m, Inserted b (mid, e) hi_m) } }"

text \<open>The byte before an offset decides nothing: its only use is an argument that \<open>tm_from_bytes\<close> ignores.\<close>

definition char_before :: "piece_overlay \<Rightarrow> nat \<Rightarrow> byte option option" where
  "char_before ov logical_offset =
     (if logical_offset = 0 then Some None
      else do {
        r \<leftarrow> piece_for_byte ov (logical_offset - 1);
        case r of None \<Rightarrow> Some None
        | Some (idx, piece_start) \<Rightarrow> do {
            offset \<leftarrow> usize_sub (logical_offset - 1) piece_start;
            p \<leftarrow> list_get (ov_pieces ov) idx;
            Some (case p of
                Original _ _ \<Rightarrow> None
              | Inserted b (s, e) _ \<Rightarrow> do { buf \<leftarrow> map_of (ov_buffers ov) b; list_get buf (s + offset) }) } })"

definition ov_insert :: "platform \<Rightarrow> piece_overlay \<Rightarrow> nat \<Rightarrow> str \<Rightarrow> (overlay_error option \<times> piece_overlay) option" where
  "ov_insert pf ov at s =
     (if at > ov_total_byte_len ov then Some (Some (OutOfRange at (ov_total_byte_len ov)), ov)
      else if s = [] then Some (None, ov)
      else do {
        _ \<leftarrow> char_before ov at;
        m \<leftarrow> tm_from_bytes s;
        let ov = active_buffer_mut ov;
        b \<leftarrow> ov_active_buffer ov;
        buf \<leftarrow> map_of (ov_buffers ov) b;
        let (buf, r) = buffer_append buf s;
        let ov = ov\<lparr>ov_buffers := AList.update b buf (ov_buffers ov)\<rparr>;
        let new_piece = Inserted b r m;
        if at = ov_total_byte_len ov then do {
          let ov = ov\<lparr>ov_cum_offsets := ov_cum_offsets ov @ [ov_total_byte_len ov],
            ov_total_byte_len := ov_total_byte_len ov + tm_byte_len m, ov_pieces := ov_pieces ov @ [new_piece]\<rparr>;
          Some (None, ov\<lparr>ov_total_newlines := compute_total_newlines ov\<rparr>) }
        else do {
          found \<leftarrow> piece_for_byte ov at;
          (idx, piece_start) \<leftarrow> found;
          offset_in_piece \<leftarrow> usize_sub at piece_start;
          pieces \<leftarrow> (if offset_in_piece = 0 then vec_insert (ov_pieces ov) idx new_piece
            else do {
              (lo, hi) \<leftarrow> split_piece pf ov idx offset_in_piece;
              ps \<leftarrow> vec_remove (ov_pieces ov) idx;
              ps \<leftarrow> vec_insert ps idx hi;
              ps \<leftarrow> vec_insert ps idx new_piece;
              vec_insert ps idx lo });
          let ov = rebuild_offsets (ov\<lparr>ov_pieces := pieces\<rparr>);
          Some (None, ov\<lparr>ov_total_newlines := compute_total_newlines ov\<rparr>) } })"

text \<open>The step that \<^verbatim>\<open>delete\<close> takes at both ends: a piece that holds the offset inside is split there.\<close>

definition split_at :: "platform \<Rightarrow> piece_overlay \<Rightarrow> nat \<Rightarrow> piece_overlay option" where
  "split_at pf ov pos = do {
     found \<leftarrow> piece_for_byte ov pos;
     (idx, piece_start) \<leftarrow> found;
     offset \<leftarrow> usize_sub pos piece_start;
     p \<leftarrow> list_get (ov_pieces ov) idx;
     if offset > 0 \<and> offset < piece_byte_len p then do {
       (lo, hi) \<leftarrow> split_piece pf ov idx offset;
       ps \<leftarrow> vec_remove (ov_pieces ov) idx;
       ps \<leftarrow> vec_insert ps idx hi;
       ps \<leftarrow> vec_insert ps idx lo;
       Some (rebuild_offsets (ov\<lparr>ov_pieces := ps\<rparr>)) }
     else Some ov }"

definition ov_delete :: "platform \<Rightarrow> piece_overlay \<Rightarrow> byte_range \<Rightarrow> (overlay_error option \<times> piece_overlay) option" where
  "ov_delete pf ov r =
     (let (start, stop) = r
      in if stop > ov_total_byte_len ov then Some (Some (OutOfRange stop (ov_total_byte_len ov)), ov)
         else if start \<ge> stop then Some (None, ov)
         else do {
           ov \<leftarrow> (if stop < ov_total_byte_len ov then split_at pf ov stop else Some ov);
           ov \<leftarrow> (if start > 0 then split_at pf ov start else Some ov);
           let first_idx = partition_point (\<lambda>s. s < start) (ov_cum_offsets ov);
           let last_idx = partition_point (\<lambda>s. s < stop) (ov_cum_offsets ov);
           rassert (first_idx \<le> last_idx \<and> last_idx \<le> length (ov_pieces ov));
           Some (None, rebuild_offsets (ov\<lparr>ov_pieces := take first_idx (ov_pieces ov) @ drop last_idx (ov_pieces ov)\<rparr>)) })"


section \<open>Limits, history and collection\<close>

definition overlay_bytes :: "platform \<Rightarrow> piece_overlay \<Rightarrow> nat" where
  "overlay_bytes pf ov = length (ov_pieces ov) * pf_piece_size pf + sum_list (map (length \<circ> snd) (ov_buffers ov))"

fun op_buffer :: "overlay_op \<Rightarrow> buffer_id option" where
  "op_buffer (InsertOp _ b _) = Some b"
| "op_buffer (DeleteOp _) = None"

fun piece_buffer :: "piece \<Rightarrow> buffer_id option" where
  "piece_buffer (Inserted b _ _) = Some b"
| "piece_buffer (Original _ _) = None"

fun drop_buffers :: "buffer_id list \<Rightarrow> buffer_id set \<Rightarrow> piece_overlay \<Rightarrow> piece_overlay" where
  "drop_buffers [] kept ov = ov"
| "drop_buffers (b # bs) kept ov =
     drop_buffers bs kept
       (if b \<notin> kept then ov\<lparr>ov_buffers := AList.delete b (ov_buffers ov),
          ov_active_buffer := (if ov_active_buffer ov = Some b then None else ov_active_buffer ov)\<rparr>
        else ov)"

definition gc_undo_group :: "piece_overlay \<Rightarrow> nat \<Rightarrow> piece_overlay" where
  "gc_undo_group ov g = (case map_of (ov_undo_history ov) g of
       None \<Rightarrow> ov
     | Some delta \<Rightarrow>
         let ov = ov\<lparr>ov_undo_history := AList.delete g (ov_undo_history ov),
               ov_undo_group_order := filter (\<lambda>x. x \<noteq> g) (ov_undo_group_order ov)\<rparr>;
             gc_buffer_ids = remdups (sort (List.map_filter op_buffer (od_ops delta)));
             live = set (List.map_filter piece_buffer (ov_pieces ov));
             history = set (List.map_filter op_buffer (concat (map (od_ops \<circ> snd) (ov_undo_history ov))))
         in drop_buffers gc_buffer_ids (live \<union> history) ov)"


text \<open>The two loops of \<^verbatim>\<open>enforce_limits\<close>; each step takes the oldest group off the list.\<close>

lemma drop_buffers_order [simp]: "ov_undo_group_order (drop_buffers bs kept ov) = ov_undo_group_order ov"
  by (induction bs kept ov rule: drop_buffers.induct) simp_all

lemma gc_undo_group_order:
  "ov_undo_group_order (gc_undo_group ov g) =
     (if map_of (ov_undo_history ov) g = None then ov_undo_group_order ov
      else filter (\<lambda>x. x \<noteq> g) (ov_undo_group_order ov))"
  by (simp add: gc_undo_group_def Let_def split: option.split)

lemma gc_undo_group_order_length: "length (ov_undo_group_order (gc_undo_group ov g)) \<le> length (ov_undo_group_order ov)"
  by (simp add: gc_undo_group_order)

definition gc_oldest :: "piece_overlay \<Rightarrow> nat \<Rightarrow> nat list \<Rightarrow> piece_overlay" where
  "gc_oldest ov oldest rest = gc_undo_group (ov\<lparr>ov_undo_group_order := rest\<rparr>) oldest"

lemma gc_oldest_order_length: "length (ov_undo_group_order (gc_oldest ov oldest rest)) < Suc (length rest)"
  using gc_undo_group_order_length [of "ov\<lparr>ov_undo_group_order := rest\<rparr>" oldest] by (simp add: gc_oldest_def less_Suc_eq_le)

function limit_groups :: "piece_overlay \<Rightarrow> piece_overlay" where
  "limit_groups ov =
     (if length (ov_undo_history ov) \<ge> max_undo_groups (ov_limits ov) then
        (case ov_undo_group_order ov of
           [] \<Rightarrow> ov
         | oldest # rest \<Rightarrow> limit_groups (gc_oldest ov oldest rest))
      else ov)"
  by pat_completeness auto
termination
  by (relation "measure (\<lambda>ov. length (ov_undo_group_order ov))") (simp_all add: gc_oldest_order_length)

function limit_bytes :: "platform \<Rightarrow> nat \<Rightarrow> piece_overlay \<Rightarrow> overlay_error option \<times> piece_overlay" where
  "limit_bytes pf incoming_bytes ov =
     (if overlay_bytes pf ov + incoming_bytes > overlay_byte_cap (ov_limits ov) then
        (case ov_undo_group_order ov of
           [] \<Rightarrow> (Some (LimitReached (MemoryCap (overlay_byte_cap (ov_limits ov)) (overlay_bytes pf ov))), ov)
         | oldest # rest \<Rightarrow> limit_bytes pf incoming_bytes (gc_oldest ov oldest rest))
      else (None, ov))"
  by pat_completeness auto
termination
  by (relation "measure (\<lambda>(pf, n, ov). length (ov_undo_group_order ov))") (simp_all add: gc_oldest_order_length)

declare limit_groups.simps [simp del] limit_bytes.simps [simp del]

definition enforce_limits :: "platform \<Rightarrow> piece_overlay \<Rightarrow> nat \<Rightarrow> overlay_error option \<times> piece_overlay" where
  "enforce_limits pf ov incoming_bytes = limit_bytes pf incoming_bytes (limit_groups ov)"

text \<open>The end of both recorded edits: the operation goes to the delta of its group, which is made when it is new.\<close>

definition record_op :: "piece_overlay \<Rightarrow> overlay_edit_context \<Rightarrow> overlay_op \<Rightarrow> piece_overlay" where
  "record_op ov ctx op =
     (let g = oc_undo_group ctx;
          found = map_of (ov_undo_history ov) g;
          delta = (case found of
              None \<Rightarrow> \<lparr>od_undo_group = g, od_revision_id = oc_revision_id ctx, od_ops = []\<rparr>
            | Some d \<Rightarrow> d);
          ov = ov\<lparr>ov_undo_history := AList.update g (delta\<lparr>od_ops := od_ops delta @ [op]\<rparr>) (ov_undo_history ov)\<rparr>
      in if found = None then ov\<lparr>ov_undo_group_order := ov_undo_group_order ov @ [g]\<rparr> else ov)"

definition insert_in_group ::
    "platform \<Rightarrow> piece_overlay \<Rightarrow> nat \<Rightarrow> str \<Rightarrow> overlay_edit_context \<Rightarrow> (overlay_error option \<times> piece_overlay) option" where
  "insert_in_group pf ov at s ctx =
     (case enforce_limits pf ov (length s) of
        (Some e, ov) \<Rightarrow> Some (Some e, ov)
      | (None, ov) \<Rightarrow> do {
          r \<leftarrow> ov_insert pf ov at s;
          case r of
            (Some e, ov) \<Rightarrow> Some (Some e, ov)
          | (None, ov) \<Rightarrow> do {
              active_id \<leftarrow> ov_active_buffer ov;
              buf \<leftarrow> map_of (ov_buffers ov) active_id;
              start \<leftarrow> usize_sub (length buf) (length s);
              Some (None, record_op ov ctx (InsertOp at active_id (start, length buf))) } })"

definition delete_in_group ::
    "platform \<Rightarrow> piece_overlay \<Rightarrow> byte_range \<Rightarrow> overlay_edit_context \<Rightarrow> (overlay_error option \<times> piece_overlay) option" where
  "delete_in_group pf ov r ctx =
     (case enforce_limits pf ov 0 of
        (Some e, ov) \<Rightarrow> Some (Some e, ov)
      | (None, ov) \<Rightarrow> do {
          res \<leftarrow> ov_delete pf ov r;
          case res of
            (Some e, ov) \<Rightarrow> Some (Some e, ov)
          | (None, ov) \<Rightarrow> Some (None, record_op ov ctx (DeleteOp r)) })"

definition delta_for_group :: "piece_overlay \<Rightarrow> nat \<Rightarrow> overlay_delta option" where
  "delta_for_group ov g = map_of (ov_undo_history ov) g"


section \<open>The edit gate, sizes and the snapshot for saving\<close>

definition gate_can_enable_arbitrary_edits :: "sparse_edit_gate \<Rightarrow> bool" where
  "gate_can_enable_arbitrary_edits g \<longleftrightarrow> read_byte_range_ready g \<and> streaming_search_ready g \<and> streaming_save_ready g"

definition can_enable_arbitrary_edits :: "piece_overlay \<Rightarrow> bool" where
  "can_enable_arbitrary_edits ov = gate_can_enable_arbitrary_edits (ov_edit_gate ov)"

definition set_read_byte_range_ready :: "piece_overlay \<Rightarrow> piece_overlay" where
  "set_read_byte_range_ready ov = ov\<lparr>ov_edit_gate := (ov_edit_gate ov)\<lparr>read_byte_range_ready := True\<rparr>\<rparr>"

definition set_streaming_search_ready :: "piece_overlay \<Rightarrow> piece_overlay" where
  "set_streaming_search_ready ov = ov\<lparr>ov_edit_gate := (ov_edit_gate ov)\<lparr>streaming_search_ready := True\<rparr>\<rparr>"

definition set_streaming_save_ready :: "piece_overlay \<Rightarrow> piece_overlay" where
  "set_streaming_save_ready ov = ov\<lparr>ov_edit_gate := (ov_edit_gate ov)\<lparr>streaming_save_ready := True\<rparr>\<rparr>"

definition buffer_len :: "piece_overlay \<Rightarrow> buffer_id \<Rightarrow> nat" where
  "buffer_len ov b = (case map_of (ov_buffers ov) b of None \<Rightarrow> 0 | Some buf \<Rightarrow> length buf)"

definition signed_byte_delta :: "piece_overlay \<Rightarrow> int" where
  "signed_byte_delta ov = int (ov_total_byte_len ov) - int (ov_original_file_byte_len ov)"

fun dirty_loop :: "nat \<Rightarrow> nat \<Rightarrow> piece list \<Rightarrow> nat \<Rightarrow> int \<Rightarrow> int \<Rightarrow> int \<times> int" where
  "dirty_loop range_start range_end [] doc_pos inserted original_present = (inserted, original_present)"
| "dirty_loop range_start range_end (p # ps) doc_pos inserted original_present =
     (let piece_end = doc_pos + piece_byte_len p
      in if piece_end \<le> range_start \<or> doc_pos \<ge> range_end
         then dirty_loop range_start range_end ps piece_end inserted original_present
         else let overlap_len = int (min piece_end range_end - max doc_pos range_start)
              in case p of
                   Inserted _ _ _ \<Rightarrow> dirty_loop range_start range_end ps piece_end (inserted + overlap_len) original_present
                 | Original _ _ \<Rightarrow> dirty_loop range_start range_end ps piece_end inserted (original_present + overlap_len))"

definition dirty_byte_delta_for_range :: "piece_overlay \<Rightarrow> byte_range \<Rightarrow> int" where
  "dirty_byte_delta_for_range ov r =
     (let (inserted, original_present) = dirty_loop (fst r) (snd r) (ov_pieces ov) 0 0 0;
          deleted_original = max (int (snd r - fst r) - original_present) 0
      in inserted - deleted_original)"

record save_snapshot =
  sn_pieces :: "piece list"
  sn_inserted_buffers :: "(buffer_id \<times> str) list"
  sn_total_bytes :: nat
  sn_original_file_byte_len :: nat

definition overlay_save_snapshot :: "piece_overlay \<Rightarrow> save_snapshot" where
  "overlay_save_snapshot ov = \<lparr>sn_pieces = ov_pieces ov, sn_inserted_buffers = ov_buffers ov,
     sn_total_bytes = ov_total_byte_len ov, sn_original_file_byte_len = ov_original_file_byte_len ov\<rparr>"

definition snapshot_bytes_for_piece :: "save_snapshot \<Rightarrow> piece \<Rightarrow> str option" where
  "snapshot_bytes_for_piece sn p = (case p of
       Inserted b (s, e) _ \<Rightarrow> do { bytes \<leftarrow> map_of (sn_inserted_buffers sn) b; bytes_slice bytes s e }
     | Original _ _ \<Rightarrow> None)"

end
