(* ===== verification/Core_Overlay_Laws.thy ===== *)
theory Core_Overlay_Laws
  imports Core_Overlay
begin

text \<open>
  The overlay as an edited byte string: every well-formed overlay over a file denotes a document, insertion and
  deletion act on it, and limits and collection leave it alone.
\<close>

section \<open>The document of an overlay\<close>

fun piece_text :: "str \<Rightarrow> (buffer_id \<times> insert_buffer) list \<Rightarrow> piece \<Rightarrow> str" where
  "piece_text disk bufs (Original (s, e) m) = slice disk s e"
| "piece_text disk bufs (Inserted b (s, e) m) = (case map_of bufs b of None \<Rightarrow> [] | Some buf \<Rightarrow> slice buf s e)"

definition pieces_text :: "str \<Rightarrow> (buffer_id \<times> insert_buffer) list \<Rightarrow> piece list \<Rightarrow> str" where
  "pieces_text disk bufs ps = concat (map (piece_text disk bufs) ps)"

definition ov_text :: "str \<Rightarrow> piece_overlay \<Rightarrow> str" where
  "ov_text disk ov = pieces_text disk (ov_buffers ov) (ov_pieces ov)"

fun piece_ok :: "str \<Rightarrow> (buffer_id \<times> insert_buffer) list \<Rightarrow> piece \<Rightarrow> bool" where
  "piece_ok disk bufs (Original (s, e) m) \<longleftrightarrow> s < e \<and> e \<le> length disk \<and> tm_byte_len m = e - s"
| "piece_ok disk bufs (Inserted b (s, e) m) \<longleftrightarrow> s < e \<and> (case map_of bufs b of None \<Rightarrow> False
     | Some buf \<Rightarrow> e \<le> length buf \<and> tm_from_bytes (slice buf s e) = Some m)"

fun op_ok :: "(buffer_id \<times> insert_buffer) list \<Rightarrow> overlay_op \<Rightarrow> bool" where
  "op_ok bufs (InsertOp _ b (s, e)) \<longleftrightarrow> s \<le> e \<and> (case map_of bufs b of None \<Rightarrow> False | Some buf \<Rightarrow> e \<le> length buf)"
| "op_ok bufs (DeleteOp _) \<longleftrightarrow> True"

text \<open>Pieces of the file keep the order they have there.\<close>

fun orig_range :: "piece \<Rightarrow> (nat \<times> nat) option" where
  "orig_range (Original r _) = Some r"
| "orig_range (Inserted _ _ _) = None"

definition in_order :: "piece list \<Rightarrow> bool" where
  "in_order ps \<longleftrightarrow> sorted_wrt (\<lambda>r q. snd r \<le> fst q) (List.map_filter orig_range ps)"

definition lens :: "piece list \<Rightarrow> nat list" where
  "lens ps = map piece_byte_len ps"

definition pieces_ok :: "str \<Rightarrow> (buffer_id \<times> insert_buffer) list \<Rightarrow> piece list \<Rightarrow> bool" where
  "pieces_ok disk bufs ps \<longleftrightarrow> list_all (piece_ok disk bufs) ps \<and> in_order ps"

definition buffers_ok :: "piece_overlay \<Rightarrow> bool" where
  "buffers_ok ov \<longleftrightarrow> distinct (map fst (ov_buffers ov)) \<and> (\<forall>b \<in> fst ` set (ov_buffers ov). b < ov_next_buffer_id ov)
     \<and> (case ov_active_buffer ov of None \<Rightarrow> True | Some b \<Rightarrow> b \<in> fst ` set (ov_buffers ov))"

definition history_ok :: "piece_overlay \<Rightarrow> bool" where
  "history_ok ov \<longleftrightarrow> distinct (map fst (ov_undo_history ov)) \<and> distinct (ov_undo_group_order ov)
     \<and> set (ov_undo_group_order ov) = fst ` set (ov_undo_history ov)
     \<and> (\<forall>(g, d) \<in> set (ov_undo_history ov). od_undo_group d = g \<and> list_all (op_ok (ov_buffers ov)) (od_ops d))"

definition offsets_ok :: "piece_overlay \<Rightarrow> bool" where
  "offsets_ok ov \<longleftrightarrow> ov_cum_offsets ov = running_offsets 0 (lens (ov_pieces ov))
     \<and> ov_total_byte_len ov = sum_list (lens (ov_pieces ov))"

definition ov_ok :: "str \<Rightarrow> piece_overlay \<Rightarrow> bool" where
  "ov_ok disk ov \<longleftrightarrow> pieces_ok disk (ov_buffers ov) (ov_pieces ov) \<and> offsets_ok ov \<and> buffers_ok ov \<and> history_ok ov
     \<and> ov_original_file_byte_len ov = length disk"

lemma tm_from_bytes_len: "tm_from_bytes s = Some m \<Longrightarrow> utf8_valid s \<and> tm_byte_len m = length s"
  by (cases "utf8_valid s") (auto simp: tm_from_bytes_def)

lemma tm_from_bytes_valid: "utf8_valid s \<Longrightarrow> \<exists>m. tm_from_bytes s = Some m"
  by (simp add: tm_from_bytes_def)

lemma piece_ok_len: "piece_ok disk bufs p \<Longrightarrow> length (piece_text disk bufs p) = piece_byte_len p \<and> 0 < piece_byte_len p"
  by (cases "(disk, bufs, p)" rule: piece_ok.cases)
    (auto simp: piece_byte_len_def slice_def split: option.splits dest!: tm_from_bytes_len)

lemma pieces_text_simps [simp]:
  "pieces_text disk bufs [] = []"
  "pieces_text disk bufs (p # ps) = piece_text disk bufs p @ pieces_text disk bufs ps"
  "pieces_text disk bufs (ps @ qs) = pieces_text disk bufs ps @ pieces_text disk bufs qs"
  by (simp_all add: pieces_text_def)

lemma lens_simps [simp]: "lens [] = []" "lens (p # ps) = piece_byte_len p # lens ps" "lens (ps @ qs) = lens ps @ lens qs"
  "length (lens ps) = length ps" "take n (lens ps) = lens (take n ps)"
  by (simp_all add: lens_def take_map)

lemma pieces_text_len: "list_all (piece_ok disk bufs) ps \<Longrightarrow> length (pieces_text disk bufs ps) = sum_list (lens ps)"
  by (induction ps) (simp_all add: piece_ok_len)

lemma ov_text_len: "ov_ok disk ov \<Longrightarrow> length (ov_text disk ov) = ov_total_byte_len ov"
  by (simp add: ov_ok_def pieces_ok_def offsets_ok_def ov_text_def pieces_text_len)

lemma map_filter_append [simp]: "List.map_filter f (xs @ ys) = List.map_filter f xs @ List.map_filter f ys"
  by (simp add: List.map_filter_def)

lemma map_filter_Cons [simp]: "List.map_filter f (x # xs) = (case f x of None \<Rightarrow> [] | Some y \<Rightarrow> [y]) @ List.map_filter f xs"
  by (simp add: List.map_filter_def split: option.split)

lemma map_filter_Nil [simp]: "List.map_filter f [] = []"
  by (simp add: List.map_filter_def)

lemma set_map_filter: "y \<in> set (List.map_filter f xs) \<longleftrightarrow> (\<exists>x \<in> set xs. f x = Some y)"
  by (force simp: List.map_filter_def)


section \<open>Finding a piece\<close>

lemma running_find:
  assumes "\<forall>n \<in> set ns. 0 < n" "p \<le> x" "x < p + sum_list ns"
  shows "\<exists>pre n post. ns = pre @ n # post \<and> length (takeWhile (\<lambda>s. s \<le> x) (running_offsets p ns)) = Suc (length pre)
    \<and> running_offsets p ns ! length pre = p + sum_list pre \<and> p + sum_list pre \<le> x \<and> x < p + sum_list pre + n"
  using assms
proof (induction ns arbitrary: p)
  case (Cons n ns)
  show ?case
  proof (cases "x < p + n")
    case True
    have "takeWhile (\<lambda>s. s \<le> x) (running_offsets (p + n) ns) = []" using True by (cases ns) simp_all
    then show ?thesis using True Cons.prems(2) by (intro exI [of _ "[]"] exI [of _ n] exI [of _ ns]) simp
  next
    case False
    then have "p + n \<le> x" "x < (p + n) + sum_list ns" using Cons.prems(3) by simp_all
    then obtain pre m post where h: "ns = pre @ m # post"
      "length (takeWhile (\<lambda>s. s \<le> x) (running_offsets (p + n) ns)) = Suc (length pre)"
      "running_offsets (p + n) ns ! length pre = p + n + sum_list pre" "p + n + sum_list pre \<le> x" "x < p + n + sum_list pre + m"
      using Cons.IH [of "p + n"] Cons.prems(1) by auto
    show ?thesis
      by (intro exI [of _ "n # pre"] exI [of _ m] exI [of _ post]) (use h Cons.prems(2) in \<open>simp add: add.assoc\<close>)
  qed
qed simp

lemma length_running [simp]: "length (running_offsets p ns) = length ns"
  by (induction ns arbitrary: p) simp_all

lemma running_append: "running_offsets p (ns @ ms) = running_offsets p ns @ running_offsets (p + sum_list ns) ms"
  by (induction ns arbitrary: p) (simp_all add: add.assoc)

lemma lens_split: "lens ps = pre @ n # post \<Longrightarrow> \<exists>a p b. ps = a @ p # b \<and> lens a = pre \<and> piece_byte_len p = n \<and> lens b = post"
  by (auto simp: lens_def map_eq_append_conv Cons_eq_map_conv)

lemma piece_for_byte_split:
  assumes "list_all (piece_ok disk bufs) (ov_pieces ov)" "offsets_ok ov" "x < ov_total_byte_len ov"
  obtains pre p post where "ov_pieces ov = pre @ p # post"
    "piece_for_byte ov x = Some (Some (length pre, sum_list (lens pre)))"
    "sum_list (lens pre) \<le> x" "x < sum_list (lens pre) + piece_byte_len p"
proof -
  have pos: "\<forall>n \<in> set (lens (ov_pieces ov)). 0 < n"
    using assms(1) piece_ok_len by (fastforce simp: lens_def list_all_iff)
  obtain pr n po where h: "lens (ov_pieces ov) = pr @ n # po"
    "length (takeWhile (\<lambda>s. s \<le> x) (running_offsets 0 (lens (ov_pieces ov)))) = Suc (length pr)"
    "running_offsets 0 (lens (ov_pieces ov)) ! length pr = sum_list pr" "sum_list pr \<le> x" "x < sum_list pr + n"
    using running_find [OF pos, of 0 x] assms(2,3) by (auto simp: offsets_ok_def)
  obtain pre p post where s: "ov_pieces ov = pre @ p # post" "lens pre = pr" "piece_byte_len p = n"
    using lens_split [OF h(1)] by blast
  have "length (ov_pieces ov) = length pr + Suc (length po)" using arg_cong [OF h(1), of length] by simp
  then have "piece_for_byte ov x = Some (Some (length pre, sum_list (lens pre)))"
    using assms(2,3) h(2,3) s by (auto simp: piece_for_byte_def offsets_ok_def partition_point_def list_get_def)
  then show ?thesis using that s h(4,5) by blast
qed


section \<open>Splitting a piece\<close>

text \<open>Where a piece may be split: a range of the file anywhere, inserted text at a character boundary.\<close>

fun piece_cut :: "str \<Rightarrow> (buffer_id \<times> insert_buffer) list \<Rightarrow> piece \<Rightarrow> nat \<Rightarrow> bool" where
  "piece_cut disk bufs (Original r m) k \<longleftrightarrow> True"
| "piece_cut disk bufs (Inserted b r m) k \<longleftrightarrow> is_char_boundary (piece_text disk bufs (Inserted b r m)) k"

fun cut_ok_at :: "str \<Rightarrow> (buffer_id \<times> insert_buffer) list \<Rightarrow> piece list \<Rightarrow> nat \<Rightarrow> bool" where
  "cut_ok_at disk bufs [] x \<longleftrightarrow> x = 0"
| "cut_ok_at disk bufs (p # ps) x \<longleftrightarrow> x = 0 \<or> (if x < piece_byte_len p then piece_cut disk bufs p x
     else cut_ok_at disk bufs ps (x - piece_byte_len p))"

lemma boundary_iff_halves:
  assumes "utf8_valid s" "k \<le> length s"
  shows "is_char_boundary s k \<longleftrightarrow> utf8_valid (take k s) \<and> utf8_valid (drop k s)"
proof
  assume "utf8_valid (take k s) \<and> utf8_valid (drop k s)"
  then have "starts_ok (\<lambda>b. \<not> is_cont b) (drop k s)" using utf8_valid_lead by blast
  then show "is_char_boundary s k" using assms(2)
    by (cases "k = length s") (auto simp: is_char_boundary_def starts_ok_def hd_drop_conv_nth)
qed (use utf8_valid_cut [OF assms(1)] in blast)

lemma slice_take_drop:
  assumes "s + k \<le> e" "e \<le> length xs"
  shows "slice xs s (s + k) = take k (slice xs s e)" "slice xs (s + k) e = drop k (slice xs s e)"
  using assms by (simp_all add: slice_def drop_take add.commute min_def)

definition newlines_of :: "piece \<Rightarrow> nat" where
  "newlines_of p = tm_newline_count (piece_metrics p)"

text \<open>The two halves of a piece.\<close>

definition piece_halves :: "str \<Rightarrow> (buffer_id \<times> insert_buffer) list \<Rightarrow> piece \<Rightarrow> nat \<Rightarrow> piece \<Rightarrow> piece \<Rightarrow> bool" where
  "piece_halves disk bufs p k lo hi \<longleftrightarrow> piece_ok disk bufs lo \<and> piece_ok disk bufs hi
     \<and> piece_text disk bufs lo = take k (piece_text disk bufs p) \<and> piece_text disk bufs hi = drop k (piece_text disk bufs p)
     \<and> newlines_of lo + newlines_of hi = newlines_of p
     \<and> (case orig_range p of None \<Rightarrow> orig_range lo = None \<and> orig_range hi = None \<and> piece_buffer lo = piece_buffer p
          \<and> piece_buffer hi = piece_buffer p \<and> piece_buffer p \<noteq> None
        | Some (s, e) \<Rightarrow> orig_range lo = Some (s, s + k) \<and> orig_range hi = Some (s + k, e)
          \<and> piece_buffer lo = None \<and> piece_buffer hi = None)"

lemma tm_newlines_append:
  assumes "utf8_valid a" "tm_from_bytes a = Some m" "tm_from_bytes b = Some n" "tm_from_bytes (a @ b) = Some l"
  shows "tm_newline_count m + tm_newline_count n = tm_newline_count l"
  using assms(2-4) str_chars_valid_append [OF assms(1), of b] tm_from_bytes_len [OF assms(2)] tm_from_bytes_len [OF assms(3)]
    tm_from_bytes_len [OF assms(4)]
  by (auto simp: tm_from_bytes_def)

lemma split_piece_spec:
  assumes p: "ov_pieces ov = pre @ p # post" "piece_ok disk (ov_buffers ov) p" and k: "0 < k" "k < piece_byte_len p"
  shows "piece_cut disk (ov_buffers ov) p k \<Longrightarrow>
      \<exists>lo hi. split_piece pf ov (length pre) k = Some (lo, hi) \<and> piece_halves disk (ov_buffers ov) p k lo hi"
    "\<not> piece_cut disk (ov_buffers ov) p k \<Longrightarrow> split_piece pf ov (length pre) k = None"
proof -
  have g: "list_get (ov_pieces ov) (length pre) = Some p" by (simp add: p(1) list_get_def)
  show "\<exists>lo hi. split_piece pf ov (length pre) k = Some (lo, hi) \<and> piece_halves disk (ov_buffers ov) p k lo hi"
    if c: "piece_cut disk (ov_buffers ov) p k"
  proof (cases p)
    case (Original r m)
    obtain s e where r: "r = (s, e)" by (cases r)
    have h: "s < e" "e \<le> length disk" "tm_byte_len m = e - s" "k < e - s"
      using p(2) k by (simp_all add: Original r piece_byte_len_def)
    have t: "slice disk s (s + k) = take k (slice disk s e)" "slice disk (s + k) e = drop k (slice disk s e)"
      using h slice_take_drop [of s k e disk] by simp_all
    have b: "s + k \<le> length disk" "s + k < e" using h by simp_all
    show ?thesis using g h k(1) t b
      by (simp add: split_piece_def Original r piece_halves_def newlines_of_def range_len_def Let_def)
  next
    case (Inserted b r m)
    obtain s e where r: "r = (s, e)" by (cases r)
    obtain buf where h: "s < e" "map_of (ov_buffers ov) b = Some buf" "e \<le> length buf" "tm_from_bytes (slice buf s e) = Some m"
      using p(2) by (auto simp: Inserted r split: option.splits)
    let ?t = "slice buf s e"
    have v: "utf8_valid ?t" "k < length ?t" using tm_from_bytes_len [OF h(4)] k by (simp_all add: Inserted piece_byte_len_def)
    then have ke: "k < e - s" using h by (simp add: slice_def)
    have t: "slice buf s (s + k) = take k ?t" "slice buf (s + k) e = drop k ?t"
      using slice_take_drop [of s k e buf] h ke by simp_all
    have hv: "utf8_valid (take k ?t)" "utf8_valid (drop k ?t)"
      using c utf8_valid_cut [OF v(1)] by (simp_all add: Inserted r h)
    obtain lm hm where m: "tm_from_bytes (take k ?t) = Some lm" "tm_from_bytes (drop k ?t) = Some hm"
      using tm_from_bytes_valid hv by metis
    have "tm_newline_count lm + tm_newline_count hm = tm_newline_count m"
      using tm_newlines_append [OF hv(1) m] h(4) by simp
    then show ?thesis using g h k(1) ke t m less_diff_conv [of k e s]
      by (simp add: split_piece_def Inserted r piece_halves_def newlines_of_def Let_def buffer_slice_def bytes_slice_def)
  qed
  show "split_piece pf ov (length pre) k = None" if c: "\<not> piece_cut disk (ov_buffers ov) p k"
  proof (cases p)
    case (Inserted b r m)
    obtain s e where r: "r = (s, e)" by (cases r)
    obtain buf where h: "s < e" "map_of (ov_buffers ov) b = Some buf" "e \<le> length buf" "tm_from_bytes (slice buf s e) = Some m"
      using p(2) by (auto simp: Inserted r split: option.splits)
    let ?t = "slice buf s e"
    have v: "utf8_valid ?t" "k < length ?t" using tm_from_bytes_len [OF h(4)] k by (simp_all add: Inserted piece_byte_len_def)
    then have ke: "k < e - s" using h by (simp add: slice_def)
    have t: "slice buf s (s + k) = take k ?t" "slice buf (s + k) e = drop k ?t"
      using slice_take_drop [of s k e buf] h ke by simp_all
    have "\<not> is_char_boundary ?t k" using c by (simp add: Inserted r h)
    then have "\<not> utf8_valid (take k ?t) \<or> \<not> utf8_valid (drop k ?t)" using boundary_iff_halves [OF v(1)] v(2) by simp
    then show ?thesis using g h ke t
      by (auto simp: split_piece_def Inserted r Let_def buffer_slice_def bytes_slice_def tm_from_bytes_def rassert_def)
  qed (use c in simp)
qed

lemma cut_at_piece:
  assumes "list_all (piece_ok disk bufs) (pre @ p # post)" "sum_list (lens pre) \<le> x" "x < sum_list (lens pre) + piece_byte_len p"
  shows "cut_ok_at disk bufs (pre @ p # post) x \<longleftrightarrow> x = sum_list (lens pre) \<or> piece_cut disk bufs p (x - sum_list (lens pre))"
  using assms
proof (induction pre arbitrary: x)
  case (Cons q pre)
  have "0 < piece_byte_len q" using Cons.prems(1) piece_ok_len by auto
  then show ?case using Cons.IH [of "x - piece_byte_len q"] Cons.prems by (auto simp: diff_diff_left)
qed auto

lemma cut_at_ends:
  "list_all (piece_ok disk bufs) ps \<Longrightarrow> x \<ge> sum_list (lens ps) \<Longrightarrow> cut_ok_at disk bufs ps x \<longleftrightarrow> x = sum_list (lens ps)"
proof (induction ps arbitrary: x)
  case (Cons p ps)
  have "0 < piece_byte_len p" using Cons.prems(1) piece_ok_len by auto
  then show ?case using Cons.IH [of "x - piece_byte_len p"] Cons.prems by auto
qed simp

lemma cut_0 [simp]: "cut_ok_at disk bufs ps 0"
  by (cases ps) simp_all

lemma in_order_halves:
  assumes "in_order (pre @ p # post)" "piece_halves disk bufs p k lo hi" "k \<le> piece_byte_len p" "piece_ok disk bufs p"
    and mid: "List.map_filter orig_range mid = []"
  shows "in_order (pre @ lo # mid @ hi # post)"
proof (cases p)
  case (Original r m)
  obtain s e where r: "r = (s, e)" by (cases r)
  have e: "s + k \<le> e" using assms(3,4) by (auto simp: Original r piece_byte_len_def)
  have o: "orig_range lo = Some (s, s + k)" "orig_range hi = Some (s + k, e)"
    using assms(2) by (simp_all add: piece_halves_def Original r)
  have "snd q \<le> s" if "q \<in> set (List.map_filter orig_range pre)" for q
    using assms(1) that by (force simp: in_order_def Original r sorted_wrt_append)
  moreover have "e \<le> fst q" if "q \<in> set (List.map_filter orig_range post)" for q
    using assms(1) that by (force simp: in_order_def Original r sorted_wrt_append)
  ultimately show ?thesis using assms(1) mid o e
    by (fastforce simp: in_order_def Original r sorted_wrt_append)
next
  case (Inserted b r m)
  have "orig_range lo = None" "orig_range hi = None" using assms(2) by (simp_all add: piece_halves_def Inserted)
  then show ?thesis using assms(1) mid by (simp add: in_order_def Inserted)
qed

lemma in_order_insert: "in_order (pre @ post) \<Longrightarrow> orig_range p = None \<Longrightarrow> in_order (pre @ p # post)"
  by (simp add: in_order_def)

lemma in_order_remove: "in_order (a @ b @ c) \<Longrightarrow> in_order (a @ c)"
  by (auto simp: in_order_def sorted_wrt_append)


section \<open>Buffers only grow\<close>

definition grows :: "(buffer_id \<times> insert_buffer) list \<Rightarrow> (buffer_id \<times> insert_buffer) list \<Rightarrow> bool" where
  "grows bufs bufs' \<longleftrightarrow> (\<forall>b buf. map_of bufs b = Some buf \<longrightarrow> (\<exists>t. map_of bufs' b = Some (buf @ t)))"

lemma slice_append_le: "e \<le> length xs \<Longrightarrow> slice (xs @ ys) s e = slice xs s e"
  by (cases "s \<le> e") (simp_all add: slice_def)

lemma grows_piece:
  assumes "grows bufs bufs'" "piece_ok disk bufs p"
  shows "piece_ok disk bufs' p" "piece_text disk bufs' p = piece_text disk bufs p"
    "piece_cut disk bufs' p k \<longleftrightarrow> piece_cut disk bufs p k"
proof -
  have "piece_ok disk bufs' p \<and> piece_text disk bufs' p = piece_text disk bufs p"
    using assms by (cases "(disk, bufs, p)" rule: piece_ok.cases)
      (fastforce simp: grows_def slice_append_le split: option.splits)+
  then show "piece_ok disk bufs' p" "piece_text disk bufs' p = piece_text disk bufs p"
    "piece_cut disk bufs' p k \<longleftrightarrow> piece_cut disk bufs p k"
    by (cases p; simp)+
qed

lemma grows_pieces:
  assumes "grows bufs bufs'" "list_all (piece_ok disk bufs) ps"
  shows "list_all (piece_ok disk bufs') ps" "pieces_text disk bufs' ps = pieces_text disk bufs ps"
    "cut_ok_at disk bufs' ps x \<longleftrightarrow> cut_ok_at disk bufs ps x"
  using assms(2)
proof (induction ps arbitrary: x)
  case (Cons p ps)
  case 1 then show ?case using Cons.IH(1) grows_piece(1) [OF assms(1)] by simp
  case 2 then show ?case using Cons.IH(2) grows_piece(2) [OF assms(1)] by simp
  case 3 then show ?case using Cons.IH(3) grows_piece(3) [OF assms(1)] by simp
qed simp_all

lemma grows_op: "grows bufs bufs' \<Longrightarrow> op_ok bufs op \<Longrightarrow> op_ok bufs' op"
  by (cases "(bufs, op)" rule: op_ok.cases) (fastforce simp: grows_def split: option.splits)+

lemma grows_history:
  "grows (ov_buffers ov) bufs' \<Longrightarrow> history_ok ov \<Longrightarrow> history_ok (ov\<lparr>ov_buffers := bufs'\<rparr>)"
  using grows_op by (auto simp: history_ok_def list_all_iff)

lemma buffer_appended:
  assumes "buffers_ok ov"
  obtains b buf where "ov_active_buffer (active_buffer_mut ov) = Some b"
    "map_of (ov_buffers (active_buffer_mut ov)) b = Some buf"
    "grows (ov_buffers ov) (AList.update b (buf @ s) (ov_buffers (active_buffer_mut ov)))"
    "buffers_ok ((active_buffer_mut ov)\<lparr>ov_buffers := AList.update b (buf @ s) (ov_buffers (active_buffer_mut ov))\<rparr>)"
proof (cases "ov_active_buffer ov")
  case None
  have fresh: "map_of (ov_buffers ov) (ov_next_buffer_id ov) = None"
    using assms by (auto simp: buffers_ok_def map_of_eq_None_iff)
  show thesis
    by (rule that [of "ov_next_buffer_id ov" "[]"])
      (use None fresh assms in \<open>auto simp: active_buffer_mut_def grows_def update_conv' buffers_ok_def distinct_update dom_update
        map_of_eq_None_iff less_SucI\<close>)
next
  case (Some b)
  then have "b \<in> fst ` set (ov_buffers ov)" using assms by (simp add: buffers_ok_def)
  then obtain buf where m: "map_of (ov_buffers ov) b = Some buf" by (metis map_of_eq_None_iff not_None_eq)
  have "grows (ov_buffers ov) (AList.update b (buf @ s) (ov_buffers ov))" using m by (simp add: grows_def update_conv')
  moreover have "buffers_ok (ov\<lparr>ov_buffers := AList.update b (buf @ s) (ov_buffers ov)\<rparr>)"
    using assms Some \<open>b \<in> _\<close> by (auto simp: buffers_ok_def distinct_update dom_update)
  ultimately show thesis by (intro that [of b buf]) (simp_all add: active_buffer_mut_def Some m)
qed



section \<open>Insertion\<close>

lemma vec_insert_at [simp]: "vec_insert (pre @ post) (length pre) x = Some (pre @ x # post)"
  by (simp add: vec_insert_def)

lemma vec_remove_at [simp]: "vec_remove (pre @ x # post) (length pre) = Some (pre @ post)"
  by (simp add: vec_remove_def)

lemma offsets_rebuild [simp]: "offsets_ok (rebuild_offsets ov)" "offsets_ok (ov\<lparr>ov_total_newlines := n\<rparr>) = offsets_ok ov"
  by (simp_all add: offsets_ok_def rebuild_offsets_def lens_def)

lemma rebuild_simps [simp]: "ov_pieces (rebuild_offsets ov) = ov_pieces ov" "ov_buffers (rebuild_offsets ov) = ov_buffers ov"
  "ov_active_buffer (rebuild_offsets ov) = ov_active_buffer ov" "ov_next_buffer_id (rebuild_offsets ov) = ov_next_buffer_id ov"
  "ov_undo_history (rebuild_offsets ov) = ov_undo_history ov" "ov_limits (rebuild_offsets ov) = ov_limits ov"
  "ov_undo_group_order (rebuild_offsets ov) = ov_undo_group_order ov" "ov_edit_gate (rebuild_offsets ov) = ov_edit_gate ov"
  "ov_original_file_byte_len (rebuild_offsets ov) = ov_original_file_byte_len ov"
  "ov_total_newlines (rebuild_offsets ov) = ov_total_newlines ov"
  by (simp_all add: rebuild_offsets_def)

lemma active_simps [simp]: "ov_pieces (active_buffer_mut ov) = ov_pieces ov" "ov_cum_offsets (active_buffer_mut ov) = ov_cum_offsets ov"
  "ov_total_byte_len (active_buffer_mut ov) = ov_total_byte_len ov" "ov_limits (active_buffer_mut ov) = ov_limits ov"
  "ov_undo_history (active_buffer_mut ov) = ov_undo_history ov" "ov_edit_gate (active_buffer_mut ov) = ov_edit_gate ov"
  "ov_undo_group_order (active_buffer_mut ov) = ov_undo_group_order ov"
  "ov_original_file_byte_len (active_buffer_mut ov) = ov_original_file_byte_len ov"
  by (simp_all add: active_buffer_mut_def split: option.split)

text \<open>What all edits leave alone.\<close>

definition ov_frame :: "piece_overlay \<Rightarrow> piece_overlay \<Rightarrow> bool" where
  "ov_frame ov ov' \<longleftrightarrow> ov_undo_history ov' = ov_undo_history ov \<and> ov_undo_group_order ov' = ov_undo_group_order ov
     \<and> ov_limits ov' = ov_limits ov \<and> ov_edit_gate ov' = ov_edit_gate ov
     \<and> ov_original_file_byte_len ov' = ov_original_file_byte_len ov"

lemma char_before_total:
  assumes "ov_ok disk ov" "at \<le> ov_total_byte_len ov"
  shows "\<exists>r. char_before ov at = Some r"
proof (cases "at = 0")
  case False
  then have lt: "at - 1 < ov_total_byte_len ov" using assms(2) by simp
  obtain pre p post where h: "ov_pieces ov = pre @ p # post" "piece_for_byte ov (at - 1) = Some (Some (length pre, sum_list (lens pre)))"
    "sum_list (lens pre) \<le> at - 1"
    by (rule piece_for_byte_split [where disk = disk and bufs = "ov_buffers ov" and ov = ov and x = "at - 1"])
      (use assms(1) lt in \<open>auto simp: ov_ok_def pieces_ok_def\<close>)
  then show ?thesis using False by (auto simp: char_before_def usize_sub_def list_get_def split: piece.split)
qed (simp add: char_before_def)

lemma take_at: "length a \<le> x \<Longrightarrow> x \<le> length a + length t \<Longrightarrow>
    take x (a @ t @ r) = a @ take (x - length a) t \<and> drop x (a @ t @ r) = drop (x - length a) t @ r"
  by simp

lemma piece_inserted_ok:
  assumes "map_of bufs b = Some (buf @ s)" "tm_from_bytes s = Some m" "s \<noteq> []"
  shows "piece_ok disk bufs (Inserted b (length buf, length buf + length s) m)"
    "piece_text disk bufs (Inserted b (length buf, length buf + length s) m) = s"
  using assms by (simp_all add: slice_def)

lemma insert_pieces:
  assumes ps: "pieces_ok disk bufs (pre @ p # post)" and new: "piece_ok disk bufs q" "orig_range q = None"
    and k: "k < piece_byte_len p" and h: "0 < k \<Longrightarrow> piece_halves disk bufs p k lo hi"
  defines "res \<equiv> (if k = 0 then pre @ q # p # post else pre @ lo # q # hi # post)"
  shows "pieces_ok disk bufs res"
    "pieces_text disk bufs res = take (sum_list (lens pre) + k) (pieces_text disk bufs (pre @ p # post)) @ piece_text disk bufs q
       @ drop (sum_list (lens pre) + k) (pieces_text disk bufs (pre @ p # post))"
    "sum_list (map newlines_of res) = newlines_of q + sum_list (map newlines_of (pre @ p # post))"
proof -
  have ok: "list_all (piece_ok disk bufs) pre" "piece_ok disk bufs p" "list_all (piece_ok disk bufs) post" "in_order (pre @ p # post)"
    using ps by (simp_all add: pieces_ok_def)
  have len: "length (pieces_text disk bufs pre) = sum_list (lens pre)" using pieces_text_len [OF ok(1)] .
  show "pieces_ok disk bufs res"
    using ok new h in_order_insert [of pre "p # post" q] in_order_halves [OF ok(4) h less_imp_le [OF k] ok(2), of "[q]"]
    by (auto simp: res_def pieces_ok_def piece_halves_def)
  show "pieces_text disk bufs res = take (sum_list (lens pre) + k) (pieces_text disk bufs (pre @ p # post)) @ piece_text disk bufs q
       @ drop (sum_list (lens pre) + k) (pieces_text disk bufs (pre @ p # post))"
    using h k piece_ok_len [OF ok(2)] by (simp add: res_def piece_halves_def len)
  show "sum_list (map newlines_of res) = newlines_of q + sum_list (map newlines_of (pre @ p # post))"
    using h by (auto simp: res_def piece_halves_def)
qed

lemma newline_char: "utf8_char c \<Longrightarrow> cnt (\<lambda>b. b = NL) c = (if c = [NL] then 1 else 0)"
proof -
  assume "utf8_char c"
  then obtain a r where c: "c = a # r" "len_utf8_from_first_byte a = length c" "\<forall>b \<in> set r. is_cont b"
    by (rule utf8_char_lead)
  have "\<not> is_cont NL" by (simp add: is_cont_def)
  then have "cnt (\<lambda>b. b = NL) r = 0" using c(3) by (auto simp: filter_empty_conv)
  moreover have "a = NL \<Longrightarrow> r = []" using c by (simp add: len_utf8_from_first_byte_def)
  ultimately show ?thesis using c(1) by auto
qed

lemma tm_newlines: "tm_from_bytes s = Some m \<Longrightarrow> tm_newline_count m = cnt (\<lambda>b. b = NL) s"
proof -
  assume m: "tm_from_bytes s = Some m"
  have "utf8_valid s" using tm_from_bytes_len [OF m] by simp
  then have "cnt (\<lambda>c. c = [NL]) (str_chars s) = cnt (\<lambda>b. b = NL) s"
    by (induction s rule: utf8_induct) (simp_all add: str_chars_append newline_char)
  then show ?thesis using m \<open>utf8_valid s\<close> by (auto simp: tm_from_bytes_def)
qed

lemma compute_newlines: "compute_total_newlines ov = sum_list (map newlines_of (ov_pieces ov))"
  unfolding compute_total_newlines_def comp_def newlines_of_def [abs_def] by simp

text \<open>The state in which the text is in the active buffer, and in which a list of pieces has been put in place.\<close>

definition appended :: "piece_overlay \<Rightarrow> str \<Rightarrow> piece_overlay" where
  "appended ov s = (let ov = active_buffer_mut ov; b = the (ov_active_buffer ov)
     in ov\<lparr>ov_buffers := AList.update b (the (map_of (ov_buffers ov) b) @ s) (ov_buffers ov)\<rparr>)"

lemma appended_simps [simp]: "ov_pieces (appended ov s) = ov_pieces ov" "ov_cum_offsets (appended ov s) = ov_cum_offsets ov"
  "ov_total_byte_len (appended ov s) = ov_total_byte_len ov" "ov_frame ov (appended ov s)"
  by (simp_all add: appended_def Let_def ov_frame_def)

lemma appended_spec:
  assumes "buffers_ok ov"
  obtains b buf where "ov_active_buffer (appended ov s) = Some b" "map_of (ov_buffers (appended ov s)) b = Some (buf @ s)"
    "grows (ov_buffers ov) (ov_buffers (appended ov s))" "buffers_ok (appended ov s)"
    "ov_active_buffer (active_buffer_mut ov) = Some b" "map_of (ov_buffers (active_buffer_mut ov)) b = Some buf"
    "appended ov s = (active_buffer_mut ov)\<lparr>ov_buffers := AList.update b (buf @ s) (ov_buffers (active_buffer_mut ov))\<rparr>"
proof -
  obtain b buf where h: "ov_active_buffer (active_buffer_mut ov) = Some b" "map_of (ov_buffers (active_buffer_mut ov)) b = Some buf"
    "grows (ov_buffers ov) (AList.update b (buf @ s) (ov_buffers (active_buffer_mut ov)))"
    "buffers_ok ((active_buffer_mut ov)\<lparr>ov_buffers := AList.update b (buf @ s) (ov_buffers (active_buffer_mut ov))\<rparr>)"
    by (rule buffer_appended [OF assms, of s])
  then show thesis by (intro that [of b buf]) (simp_all add: appended_def Let_def update_conv')
qed

definition placed :: "piece_overlay \<Rightarrow> piece list \<Rightarrow> piece_overlay" where
  "placed ov ps = rebuild_offsets (ov\<lparr>ov_pieces := ps\<rparr>)"

lemma placed_simps [simp]: "ov_pieces (placed ov ps) = ps" "ov_buffers (placed ov ps) = ov_buffers ov"
  "ov_active_buffer (placed ov ps) = ov_active_buffer ov" "ov_frame ov (placed ov ps)" "offsets_ok (placed ov ps)"
  "ov_total_byte_len (placed ov ps) = sum_list (lens ps)" "ov_total_newlines (placed ov ps) = ov_total_newlines ov"
  by (simp_all add: placed_def ov_frame_def) (simp add: rebuild_offsets_def lens_def)

lemma ov_frame_trans: "ov_frame a b \<Longrightarrow> ov_frame b c \<Longrightarrow> ov_frame a c"
  by (simp add: ov_frame_def)

lemma history_frame:
  "history_ok ov \<Longrightarrow> ov_frame ov ov' \<Longrightarrow> grows (ov_buffers ov) (ov_buffers ov') \<Longrightarrow> history_ok ov'"
  using grows_history [of ov "ov_buffers ov'"] by (simp add: history_ok_def ov_frame_def)

lemma grows_refl [simp]: "grows bufs bufs"
  by (simp add: grows_def)

lemma placed_ok:
  assumes "buffers_ok ov" "history_ok ov" "ov_original_file_byte_len ov = length disk" "pieces_ok disk (ov_buffers ov) ps"
  shows "ov_ok disk (placed ov ps)" "ov_ok disk ((placed ov ps)\<lparr>ov_total_newlines := n\<rparr>)"
  using assms by (simp_all add: ov_ok_def buffers_ok_def history_ok_def placed_def split: option.splits)

lemma appended_ok:
  assumes "ov_ok disk ov"
  shows "history_ok (appended ov s)" "ov_original_file_byte_len (appended ov s) = length disk" "offsets_ok (appended ov s)"
    "pieces_ok disk (ov_buffers (appended ov s)) (ov_pieces ov)"
    "pieces_text disk (ov_buffers (appended ov s)) (ov_pieces ov) = ov_text disk ov"
    "cut_ok_at disk (ov_buffers (appended ov s)) (ov_pieces ov) x \<longleftrightarrow> cut_ok_at disk (ov_buffers ov) (ov_pieces ov) x"
proof -
  have b: "buffers_ok ov" using assms by (simp add: ov_ok_def)
  have g: "grows (ov_buffers ov) (ov_buffers (appended ov s))" by (rule appended_spec [OF b])
  have pa: "list_all (piece_ok disk (ov_buffers ov)) (ov_pieces ov)" using assms by (simp add: ov_ok_def pieces_ok_def)
  show "history_ok (appended ov s)" using history_frame [OF _ _ g] assms by (simp add: ov_ok_def)
  show "ov_original_file_byte_len (appended ov s) = length disk"
    using assms appended_simps(4) [of ov s] unfolding ov_frame_def ov_ok_def by simp
  show "offsets_ok (appended ov s)" using assms by (simp add: ov_ok_def offsets_ok_def)
  show "pieces_ok disk (ov_buffers (appended ov s)) (ov_pieces ov)"
    using assms grows_pieces(1) [OF g pa] by (simp add: ov_ok_def pieces_ok_def)
  show "pieces_text disk (ov_buffers (appended ov s)) (ov_pieces ov) = ov_text disk ov"
    using grows_pieces(2) [OF g pa] by (simp add: ov_text_def)
  show "cut_ok_at disk (ov_buffers (appended ov s)) (ov_pieces ov) x \<longleftrightarrow> cut_ok_at disk (ov_buffers ov) (ov_pieces ov) x"
    using grows_pieces(3) [OF g pa] .
qed

lemma ov_insert_eq:
  assumes ok: "ov_ok disk ov" and at: "at \<le> ov_total_byte_len ov" and s: "s \<noteq> []" "tm_from_bytes s = Some m"
    and b: "ov_active_buffer (active_buffer_mut ov) = Some b" "map_of (ov_buffers (active_buffer_mut ov)) b = Some buf"
  defines "q \<equiv> Inserted b (length buf, length buf + length s) m"
  defines "done \<equiv> \<lambda>ps. let ov' = placed (appended ov s) ps in Some (None, ov'\<lparr>ov_total_newlines := compute_total_newlines ov'\<rparr>)"
  shows "ov_insert pf ov at s = (if at = ov_total_byte_len ov then done (ov_pieces ov @ [q])
     else do {
          found \<leftarrow> piece_for_byte (appended ov s) at;
          (idx, piece_start) \<leftarrow> found;
          offset_in_piece \<leftarrow> usize_sub at piece_start;
          pieces \<leftarrow> (if offset_in_piece = 0 then vec_insert (ov_pieces ov) idx q
            else do {
              (lo, hi) \<leftarrow> split_piece pf (appended ov s) idx offset_in_piece;
              ps \<leftarrow> vec_remove (ov_pieces ov) idx;
              ps \<leftarrow> vec_insert ps idx hi;
              ps \<leftarrow> vec_insert ps idx q;
              vec_insert ps idx lo });
          done pieces })"
proof -
  obtain r where cb: "char_before ov at = Some r" using char_before_total [OF ok at] by blast
  have ap: "appended ov s = (active_buffer_mut ov)\<lparr>ov_buffers := AList.update b (buf @ s) (ov_buffers (active_buffer_mut ov))\<rparr>"
    using b by (simp add: appended_def Let_def)
  have l: "tm_byte_len m = length s" using tm_from_bytes_len [OF s(2)] by simp
  have o: "ov_cum_offsets ov = running_offsets 0 (lens (ov_pieces ov))" "ov_total_byte_len ov = sum_list (lens (ov_pieces ov))"
    using ok by (simp_all add: ov_ok_def offsets_ok_def)
  have fast: "(appended ov s)\<lparr>ov_cum_offsets := ov_cum_offsets ov @ [ov_total_byte_len ov],
      ov_total_byte_len := ov_total_byte_len ov + length s, ov_pieces := ov_pieces ov @ [q]\<rparr> = placed (appended ov s) (ov_pieces ov @ [q])"
    using o l by (simp add: placed_def rebuild_offsets_def running_append lens_def [symmetric] q_def piece_byte_len_def)
  show ?thesis
    using at s cb b l unfolding ov_insert_def done_def fast [symmetric] placed_def [symmetric]
    by (simp add: Let_def buffer_append_def ap [symmetric] q_def [symmetric] cong: if_cong)
qed

text \<open>Insertion is insertion into the document wherever the pieces may be cut, and panics elsewhere.\<close>

definition inserted_at :: "str \<Rightarrow> piece_overlay \<Rightarrow> nat \<Rightarrow> str \<Rightarrow> piece_overlay \<Rightarrow> bool" where
  "inserted_at disk ov at s ov' \<longleftrightarrow> ov_ok disk ov' \<and> ov_frame ov ov'
     \<and> ov_text disk ov' = take at (ov_text disk ov) @ s @ drop at (ov_text disk ov)
     \<and> (\<exists>b buf. ov_active_buffer ov' = Some b \<and> map_of (ov_buffers ov') b = Some (buf @ s))
     \<and> compute_total_newlines ov' = cnt (\<lambda>b. b = NL) s + compute_total_newlines ov
     \<and> ov_total_newlines ov' = compute_total_newlines ov'"

lemma ov_text_placed: "ov_text disk (placed ov ps) = pieces_text disk (ov_buffers ov) ps"
  "ov_text disk ((placed ov ps)\<lparr>ov_total_newlines := n\<rparr>) = pieces_text disk (ov_buffers ov) ps"
  by (simp_all add: ov_text_def)

lemma placed_inserted:
  assumes ok: "ov_ok disk ov" and ps: "pieces_ok disk (ov_buffers (appended ov s)) ps"
    and tx: "pieces_text disk (ov_buffers (appended ov s)) ps = take at (ov_text disk ov) @ s @ drop at (ov_text disk ov)"
    and nl: "sum_list (map newlines_of ps) = cnt (\<lambda>b. b = NL) s + sum_list (map newlines_of (ov_pieces ov))"
  defines "ov' \<equiv> placed (appended ov s) ps"
  shows "inserted_at disk ov at s (ov'\<lparr>ov_total_newlines := compute_total_newlines ov'\<rparr>)"
proof -
  have b: "buffers_ok ov" using ok by (simp add: ov_ok_def)
  obtain b buf where h: "ov_active_buffer (appended ov s) = Some b" "map_of (ov_buffers (appended ov s)) b = Some (buf @ s)"
    "buffers_ok (appended ov s)"
    by (rule appended_spec [OF b])
  have "ov_frame ov ov'" unfolding ov'_def by (rule ov_frame_trans [OF appended_simps(4) placed_simps(4)])
  then show ?thesis
    using placed_ok [OF h(3) appended_ok(1,2) [OF ok] ps] h tx nl
    by (simp add: inserted_at_def ov'_def ov_text_placed compute_newlines ov_frame_def)
qed

lemma ov_insert_spec:
  assumes ok: "ov_ok disk ov" and at: "at \<le> ov_total_byte_len ov" and s: "s \<noteq> []" "utf8_valid s"
  shows "cut_ok_at disk (ov_buffers ov) (ov_pieces ov) at \<Longrightarrow>
      \<exists>ov'. ov_insert pf ov at s = Some (None, ov') \<and> inserted_at disk ov at s ov'"
    "\<not> cut_ok_at disk (ov_buffers ov) (ov_pieces ov) at \<Longrightarrow> ov_insert pf ov at s = None"
proof -
  obtain m where m: "tm_from_bytes s = Some m" using tm_from_bytes_valid [OF s(2)] by blast
  have "buffers_ok ov" using ok by (simp add: ov_ok_def)
  then obtain b buf where b: "ov_active_buffer (active_buffer_mut ov) = Some b" "map_of (ov_buffers (active_buffer_mut ov)) b = Some buf"
    "map_of (ov_buffers (appended ov s)) b = Some (buf @ s)"
    by (rule appended_spec)
  let ?bufs = "ov_buffers (appended ov s)"
  define q where "q = Inserted b (length buf, length buf + length s) m"
  note eq = ov_insert_eq [OF ok at s(1) m b(1,2), of pf, folded q_def]
  note ap = appended_ok [OF ok, of s]
  have q: "piece_ok disk ?bufs q" "piece_text disk ?bufs q = s" "orig_range q = None" "newlines_of q = cnt (\<lambda>b. b = NL) s"
    using piece_inserted_ok [OF b(3) m s(1)] tm_newlines [OF m] by (simp_all add: q_def newlines_of_def)
  have all: "list_all (piece_ok disk ?bufs) (ov_pieces ov)" using ap(4) by (simp add: pieces_ok_def)
  have total: "sum_list (lens (ov_pieces ov)) = ov_total_byte_len ov" "length (ov_text disk ov) = ov_total_byte_len ov"
    using ok ov_text_len [OF ok] by (simp_all add: ov_ok_def offsets_ok_def)
  have goal: "(cut_ok_at disk ?bufs (ov_pieces ov) at \<longrightarrow> (\<exists>ov'. ov_insert pf ov at s = Some (None, ov') \<and> inserted_at disk ov at s ov'))
    \<and> (\<not> cut_ok_at disk ?bufs (ov_pieces ov) at \<longrightarrow> ov_insert pf ov at s = None)"
  proof (cases "at = ov_total_byte_len ov")
    case True
    have "pieces_ok disk ?bufs (ov_pieces ov @ [q])" using ap(4) q(1,3) in_order_insert [of "ov_pieces ov" "[]" q] by (simp add: pieces_ok_def)
    from placed_inserted [OF ok this, of at] show ?thesis
      using True q ap(5) total cut_at_ends [OF all, of at] unfolding eq by (simp add: Let_def)
  next
    case False
    then have lt: "at < ov_total_byte_len (appended ov s)" using at by simp
    obtain pre p post where p: "ov_pieces ov = pre @ p # post"
      "piece_for_byte (appended ov s) at = Some (Some (length pre, sum_list (lens pre)))"
      "sum_list (lens pre) \<le> at" "at < sum_list (lens pre) + piece_byte_len p"
      using piece_for_byte_split [OF _ ap(3) lt] all appended_simps(1) by metis
    define k where "k = at - sum_list (lens pre)"
    have k: "at = sum_list (lens pre) + k" "k < piece_byte_len p" using p(3,4) by (simp_all add: k_def)
    have pp: "piece_ok disk ?bufs p" "pieces_ok disk ?bufs (pre @ p # post)" using all ap(4) by (simp_all add: p(1))
    have cut: "cut_ok_at disk ?bufs (ov_pieces ov) at \<longleftrightarrow> k = 0 \<or> piece_cut disk ?bufs p k"
      using cut_at_piece [OF all [unfolded p(1)] p(3,4)] by (simp add: p(1) k(1))
    note sp = split_piece_spec [of "appended ov s" pre p post, OF _ pp(1) _ k(2), unfolded appended_simps, OF p(1)]
    note ins = insert_pieces [OF pp(2) q(1,3) k(2)]
    have tx: "pieces_text disk ?bufs (pre @ p # post) = ov_text disk ov" using ap(5) by (simp only: p(1))
    define res where "res = (\<lambda>lo hi. if k = 0 then pre @ q # p # post else pre @ lo # q # hi # post)"
    have placed: "inserted_at disk ov at s ((placed (appended ov s) (res lo hi))
        \<lparr>ov_total_newlines := compute_total_newlines (placed (appended ov s) (res lo hi))\<rparr>)"
      if h: "0 < k \<Longrightarrow> piece_halves disk ?bufs p k lo hi" for lo hi
      using placed_inserted [OF ok ins(1) [OF h], of at] ins(2,3) [OF h] unfolding tx q(2,4) k(1) [symmetric] p(1) res_def by simp
    show ?thesis
    proof (cases "k = 0 \<or> piece_cut disk ?bufs p k")
      case True
      have ins_eq: "ov_insert pf ov at s = do {
          (lo, hi) \<leftarrow> (if k = 0 then Some (p, p) else split_piece pf (appended ov s) (length pre) k);
          let ov' = placed (appended ov s) (res lo hi);
          Some (None, ov'\<lparr>ov_total_newlines := compute_total_newlines ov'\<rparr>) }"
        using p(3) unfolding eq by (simp add: p(1,2) False usize_sub_def res_def k_def [symmetric] split_def)
      have "\<exists>lo hi. ov_insert pf ov at s = Some (None, (placed (appended ov s) (res lo hi))
          \<lparr>ov_total_newlines := compute_total_newlines (placed (appended ov s) (res lo hi))\<rparr>) \<and> (0 < k \<longrightarrow> piece_halves disk ?bufs p k lo hi)"
      proof (cases "k = 0")
        case False
        then obtain lo hi where "split_piece pf (appended ov s) (length pre) k = Some (lo, hi)" "piece_halves disk ?bufs p k lo hi"
          using True sp(1) by blast
        then show ?thesis using False unfolding ins_eq Let_def by (intro exI [of _ lo] exI [of _ hi]) simp
      qed (auto simp: ins_eq Let_def)
      then show ?thesis using True placed cut by blast
    next
      case no: False
      then show ?thesis using sp(2) cut p(3) unfolding eq by (simp add: p(1,2) False usize_sub_def k_def [symmetric])
    qed
  qed
  then show "cut_ok_at disk (ov_buffers ov) (ov_pieces ov) at \<Longrightarrow>
      \<exists>ov'. ov_insert pf ov at s = Some (None, ov') \<and> inserted_at disk ov at s ov'"
    "\<not> cut_ok_at disk (ov_buffers ov) (ov_pieces ov) at \<Longrightarrow> ov_insert pf ov at s = None"
    unfolding ap(6) by simp_all
qed



section \<open>Deletion\<close>

lemma cut_at_halves:
  assumes "piece_halves disk bufs p k lo hi" "j < k" "k \<le> length (piece_text disk bufs p)" "piece_ok disk bufs p"
  shows "piece_cut disk bufs lo j \<longleftrightarrow> piece_cut disk bufs p j"
proof (cases p)
  case (Original r m)
  then obtain r' m' where "lo = Original r' m'" using assms(1) by (cases lo; cases r) (auto simp: piece_halves_def)
  then show ?thesis by (simp add: Original)
next
  case (Inserted b r m)
  then obtain b' r' m' where lo: "lo = Inserted b' r' m'" using assms(1) by (cases lo) (auto simp: piece_halves_def)
  have "piece_text disk bufs lo = take k (piece_text disk bufs p)" using assms(1) by (simp add: piece_halves_def)
  then show ?thesis using assms(2,3) unfolding lo Inserted piece_cut.simps by (auto simp: is_char_boundary_def)
qed

lemma cut_prefix: "y < sum_list (lens pre) \<Longrightarrow> cut_ok_at disk bufs (pre @ post) y \<longleftrightarrow> cut_ok_at disk bufs pre y"
  by (induction pre arbitrary: y) auto

text \<open>An offset at which a piece begins, or the end.\<close>

definition piece_edge :: "piece list \<Rightarrow> nat \<Rightarrow> bool" where
  "piece_edge ps y \<longleftrightarrow> (\<exists>a b. ps = a @ b \<and> sum_list (lens a) = y)"

lemma piece_edge_halves:
  assumes "piece_edge (pre @ p # post) y" "piece_byte_len p = piece_byte_len lo + piece_byte_len hi"
  shows "piece_edge (pre @ lo # hi # post) y"
proof -
  obtain a b where ab: "pre @ p # post = a @ b" "sum_list (lens a) = y" using assms(1) by (auto simp: piece_edge_def)
  consider t where "pre = a @ t" | t where "a = pre @ p # t" "post = t @ b"
    using ab(1) by (auto simp: append_eq_append_conv2 append_eq_Cons_conv Cons_eq_append_conv)
  then show ?thesis
  proof cases
    case 1
    then show ?thesis using ab(2) by (auto simp: piece_edge_def)
  next
    case 2
    then show ?thesis using ab(2) assms(2)
      by (intro piece_edge_def [THEN iffD2] exI [of _ "pre @ lo # hi # t"] exI [of _ b]) simp
  qed
qed

definition same_doc :: "str \<Rightarrow> piece_overlay \<Rightarrow> piece_overlay \<Rightarrow> bool" where
  "same_doc disk ov ov' \<longleftrightarrow> ov_ok disk ov' \<and> ov_frame ov ov' \<and> ov_text disk ov' = ov_text disk ov
     \<and> ov_buffers ov' = ov_buffers ov \<and> ov_total_byte_len ov' = ov_total_byte_len ov \<and> ov_total_newlines ov' = ov_total_newlines ov
     \<and> (\<forall>y. piece_edge (ov_pieces ov) y \<longrightarrow> piece_edge (ov_pieces ov') y)"

lemma split_at_spec:
  assumes ok: "ov_ok disk ov" and x: "x < ov_total_byte_len ov"
  shows "cut_ok_at disk (ov_buffers ov) (ov_pieces ov) x \<Longrightarrow>
      \<exists>ov'. split_at pf ov x = Some ov' \<and> same_doc disk ov ov' \<and> piece_edge (ov_pieces ov') x
        \<and> (\<forall>y < x. cut_ok_at disk (ov_buffers ov) (ov_pieces ov') y \<longleftrightarrow> cut_ok_at disk (ov_buffers ov) (ov_pieces ov) y)"
    "\<not> cut_ok_at disk (ov_buffers ov) (ov_pieces ov) x \<Longrightarrow> split_at pf ov x = None"
proof -
  let ?bufs = "ov_buffers ov"
  have h: "pieces_ok disk ?bufs (ov_pieces ov)" "offsets_ok ov" "buffers_ok ov" "history_ok ov" "ov_original_file_byte_len ov = length disk"
    and all: "list_all (piece_ok disk ?bufs) (ov_pieces ov)"
    using ok by (simp_all add: ov_ok_def pieces_ok_def)
  obtain pre p post where p: "ov_pieces ov = pre @ p # post" "piece_for_byte ov x = Some (Some (length pre, sum_list (lens pre)))"
    "sum_list (lens pre) \<le> x" "x < sum_list (lens pre) + piece_byte_len p"
    by (rule piece_for_byte_split [OF all h(2) x])
  define k where "k = x - sum_list (lens pre)"
  have k: "x = sum_list (lens pre) + k" "k < piece_byte_len p" using p(3,4) by (simp_all add: k_def)
  have pp: "piece_ok disk ?bufs p" using all by (simp add: p(1))
  have cut: "cut_ok_at disk ?bufs (ov_pieces ov) x \<longleftrightarrow> k = 0 \<or> piece_cut disk ?bufs p k"
    using cut_at_piece [OF all [unfolded p(1)] p(3,4)] by (simp add: p(1) k(1))
  note sp = split_piece_spec [OF p(1) pp _ k(2)]
  have eq: "split_at pf ov x = (if 0 < k then do {
       (lo, hi) \<leftarrow> split_piece pf ov (length pre) k;
       Some (placed ov (pre @ lo # hi # post)) } else Some ov)"
    using p k by (simp add: split_at_def usize_sub_def list_get_def placed_def cong: if_cong)
  show "split_at pf ov x = None" if "\<not> cut_ok_at disk ?bufs (ov_pieces ov) x"
    using sp(2) that cut by (simp add: eq)
  show "\<exists>ov'. split_at pf ov x = Some ov' \<and> same_doc disk ov ov' \<and> piece_edge (ov_pieces ov') x
        \<and> (\<forall>y < x. cut_ok_at disk ?bufs (ov_pieces ov') y \<longleftrightarrow> cut_ok_at disk ?bufs (ov_pieces ov) y)"
    if c: "cut_ok_at disk ?bufs (ov_pieces ov) x"
  proof (cases "k = 0")
    case True
    then have "piece_edge (ov_pieces ov) x" unfolding piece_edge_def p(1) k(1) by auto
    then show ?thesis using True ok by (simp add: eq same_doc_def ov_frame_def)
  next
    case False
    obtain lo hi where lh: "split_piece pf ov (length pre) k = Some (lo, hi)" "piece_halves disk ?bufs p k lo hi"
      using sp(1) False c cut by blast
    let ?ps = "pre @ lo # hi # post"
    have t: "length (piece_text disk ?bufs p) = piece_byte_len p" using piece_ok_len [OF pp] by simp
    have loh: "piece_ok disk ?bufs lo" "piece_ok disk ?bufs hi" using lh(2) by (simp_all add: piece_halves_def)
    have len: "piece_byte_len lo = k" "piece_byte_len p = piece_byte_len lo + piece_byte_len hi"
      using lh(2) k(2) t piece_ok_len [OF loh(1)] piece_ok_len [OF loh(2)] by (auto simp: piece_halves_def)
    have ord: "in_order ?ps"
      using in_order_halves [OF _ lh(2) less_imp_le [OF k(2)] pp, of pre post "[]"] h(1) by (simp add: p(1) pieces_ok_def)
    have ps: "pieces_ok disk ?bufs ?ps" using ord loh all by (simp add: pieces_ok_def p(1))
    have tx: "pieces_text disk ?bufs ?ps = ov_text disk ov" using lh(2) by (simp add: ov_text_def p(1) piece_halves_def)
    have "cut_ok_at disk ?bufs ?ps y \<longleftrightarrow> cut_ok_at disk ?bufs (ov_pieces ov) y" if "y < x" for y
    proof (cases "y < sum_list (lens pre)")
      case False
      then show ?thesis
        using cut_at_piece [of disk ?bufs pre lo "hi # post" y] cut_at_piece [of disk ?bufs pre p post y] ps all that k len(1)
          cut_at_halves [OF lh(2), of "y - sum_list (lens pre)"] pp t by (simp add: pieces_ok_def p(1))
    qed (simp add: cut_prefix p(1))
    moreover have "piece_edge ?ps x" unfolding piece_edge_def
      by (rule exI [of _ "pre @ [lo]"], rule exI [of _ "hi # post"]) (simp add: k(1) len(1))
    moreover have "same_doc disk ov (placed ov ?ps)"
      using placed_ok(1) [OF h(3-5) ps] tx piece_edge_halves [OF _ len(2), of pre post] h(2)
      by (simp add: same_doc_def ov_text_placed p(1) offsets_ok_def len(2))
    ultimately show ?thesis using lh(1) False by (simp add: eq)
  qed
qed

lemma running_before:
  "\<forall>n \<in> set pre. 0 < n \<Longrightarrow> length (takeWhile (\<lambda>s. s < p + sum_list pre) (running_offsets p (pre @ post))) = length pre"
proof (induction pre arbitrary: p)
  case Nil then show ?case by (cases post) simp_all
next
  case (Cons n pre)
  then show ?case using Cons.IH [of "p + n"] by (simp add: add.assoc)
qed

lemma piece_edges_split:
  assumes "piece_edge ps x" "piece_edge ps y" "x < y"
  obtains a b c where "ps = a @ b @ c" "sum_list (lens a) = x" "sum_list (lens (a @ b)) = y"
proof -
  obtain a r c d where h: "ps = a @ r" "sum_list (lens a) = x" "ps = c @ d" "sum_list (lens c) = y"
    using assms(1,2) unfolding piece_edge_def by blast
  consider t where "c = a @ t" | t where "a = c @ t" using h(1,3) by (auto simp: append_eq_append_conv2)
  then show thesis using h assms(3) that by cases auto
qed

lemma piece_edge_ends: "piece_edge ps 0" "piece_edge ps (sum_list (lens ps))"
  unfolding piece_edge_def by (rule exI [of _ "[]"], simp) (rule exI [of _ ps], simp)

lemma same_doc_trans: "same_doc disk a b \<Longrightarrow> same_doc disk b c \<Longrightarrow> same_doc disk a c"
  by (auto simp: same_doc_def intro: ov_frame_trans)

lemma delete_pieces:
  assumes ok: "ov_ok disk ov" and e: "piece_edge (ov_pieces ov) x" "piece_edge (ov_pieces ov) y" "x < y"
  defines "i \<equiv> partition_point (\<lambda>s. s < x) (ov_cum_offsets ov)" and "j \<equiv> partition_point (\<lambda>s. s < y) (ov_cum_offsets ov)"
  defines "ov' \<equiv> placed ov (take i (ov_pieces ov) @ drop j (ov_pieces ov))"
  shows "i \<le> j" "j \<le> length (ov_pieces ov)" "ov_ok disk ov'" "ov_text disk ov' = take x (ov_text disk ov) @ drop y (ov_text disk ov)"
proof -
  obtain a b c where p: "ov_pieces ov = a @ b @ c" "sum_list (lens a) = x" "sum_list (lens (a @ b)) = y"
    by (rule piece_edges_split [OF e])
  have h: "pieces_ok disk (ov_buffers ov) (ov_pieces ov)" "offsets_ok ov" "buffers_ok ov" "history_ok ov" "ov_original_file_byte_len ov = length disk"
    using ok by (simp_all add: ov_ok_def)
  have all: "list_all (piece_ok disk (ov_buffers ov)) (a @ b @ c)" using h(1) by (simp add: pieces_ok_def p(1))
  have pos: "\<forall>n \<in> set (lens (a @ b @ c)). 0 < n" using all piece_ok_len by (fastforce simp: lens_def list_all_iff)
  have ij: "i = length a" "j = length a + length b"
    using running_before [of "lens a" 0 "lens (b @ c)"] running_before [of "lens (a @ b)" 0 "lens c"] pos h(2) p
    by (auto simp: i_def j_def partition_point_def offsets_ok_def)
  show "i \<le> j" "j \<le> length (ov_pieces ov)" by (simp_all add: ij p(1))
  have t: "take i (ov_pieces ov) @ drop j (ov_pieces ov) = a @ c" by (simp add: ij p(1))
  have ps: "pieces_ok disk (ov_buffers ov) (a @ c)" using h(1) all in_order_remove [of a b c] by (simp add: pieces_ok_def p(1))
  show "ov_ok disk ov'" unfolding ov'_def t by (rule placed_ok(1) [OF h(3-5) ps])
  have len: "length (pieces_text disk (ov_buffers ov) a) = x" "length (pieces_text disk (ov_buffers ov) (a @ b)) = y"
    using pieces_text_len [of disk "ov_buffers ov" a] pieces_text_len [of disk "ov_buffers ov" "a @ b"] all p(2,3) by simp_all
  then show "ov_text disk ov' = take x (ov_text disk ov) @ drop y (ov_text disk ov)"
    unfolding ov'_def t ov_text_placed by (simp add: ov_text_def p(1))
qed

text \<open>Deletion is deletion from the document wherever the pieces may be cut, and panics elsewhere.\<close>

definition deleted_at :: "str \<Rightarrow> piece_overlay \<Rightarrow> nat \<Rightarrow> nat \<Rightarrow> piece_overlay \<Rightarrow> bool" where
  "deleted_at disk ov x y ov' \<longleftrightarrow> ov_ok disk ov' \<and> ov_frame ov ov' \<and> ov_buffers ov' = ov_buffers ov
     \<and> ov_text disk ov' = take x (ov_text disk ov) @ drop y (ov_text disk ov) \<and> ov_total_newlines ov' = ov_total_newlines ov"

lemma split_step:
  assumes ok: "ov_ok disk ov" and x: "x \<le> ov_total_byte_len ov" and c: "\<not> b \<longrightarrow> piece_edge (ov_pieces ov) x" "b \<longrightarrow> x < ov_total_byte_len ov"
  shows "cut_ok_at disk (ov_buffers ov) (ov_pieces ov) x \<Longrightarrow> \<exists>ov'. (if b then split_at pf ov x else Some ov) = Some ov'
      \<and> same_doc disk ov ov' \<and> piece_edge (ov_pieces ov') x
      \<and> (\<forall>y < x. cut_ok_at disk (ov_buffers ov) (ov_pieces ov') y \<longleftrightarrow> cut_ok_at disk (ov_buffers ov) (ov_pieces ov) y)"
    "b \<Longrightarrow> \<not> cut_ok_at disk (ov_buffers ov) (ov_pieces ov) x \<Longrightarrow> (if b then split_at pf ov x else Some ov) = None"
  using split_at_spec [OF ok, of x pf] c ok by (auto simp: same_doc_def ov_frame_def)

lemma ov_delete_spec:
  assumes ok: "ov_ok disk ov" and xy: "x < y" "y \<le> ov_total_byte_len ov"
  defines "cutp \<equiv> cut_ok_at disk (ov_buffers ov) (ov_pieces ov)"
  shows "cutp x \<Longrightarrow> cutp y \<Longrightarrow> \<exists>ov'. ov_delete pf ov (x, y) = Some (None, ov') \<and> deleted_at disk ov x y ov'"
    "\<not> (cutp x \<and> cutp y) \<Longrightarrow> ov_delete pf ov (x, y) = None"
proof -
  have total: "ov_total_byte_len ov = sum_list (lens (ov_pieces ov))" "list_all (piece_ok disk (ov_buffers ov)) (ov_pieces ov)"
    using ok by (simp_all add: ov_ok_def offsets_ok_def pieces_ok_def)
  have ct: "cutp (ov_total_byte_len ov)" using cut_at_ends [OF total(2), of "ov_total_byte_len ov"] by (simp add: cutp_def total(1))
  note s1 = split_step [OF ok xy(2), of "y < ov_total_byte_len ov" pf]
  have d1: "(if y < ov_total_byte_len ov then split_at pf ov y else Some ov) = None" if "\<not> cutp y"
    using s1(2) that ct xy(2) piece_edge_ends(2) [of "ov_pieces ov"] total(1) by (cases "y = ov_total_byte_len ov") (auto simp: cutp_def)
  have d: "ov_delete pf ov (x, y) = do {
      ov \<leftarrow> (if y < ov_total_byte_len ov then split_at pf ov y else Some ov);
      ov \<leftarrow> (if x > 0 then split_at pf ov x else Some ov);
      let i = partition_point (\<lambda>s. s < x) (ov_cum_offsets ov);
      let j = partition_point (\<lambda>s. s < y) (ov_cum_offsets ov);
      rassert (i \<le> j \<and> j \<le> length (ov_pieces ov));
      Some (None, placed ov (take i (ov_pieces ov) @ drop j (ov_pieces ov))) }"
    using xy by (simp add: ov_delete_def placed_def)
  have main: "if cutp x then \<exists>ov'. ov_delete pf ov (x, y) = Some (None, ov') \<and> deleted_at disk ov x y ov' else ov_delete pf ov (x, y) = None"
    if cy: "cutp y"
  proof -
    obtain ov1 where o1: "(if y < ov_total_byte_len ov then split_at pf ov y else Some ov) = Some ov1" "same_doc disk ov ov1"
      "piece_edge (ov_pieces ov1) y" "cut_ok_at disk (ov_buffers ov) (ov_pieces ov1) x \<longleftrightarrow> cutp x"
      using s1(1) cy xy piece_edge_ends(2) [of "ov_pieces ov"] total(1) by (auto simp: cutp_def le_less)
    have b1: "ov_buffers ov1 = ov_buffers ov" "ov_ok disk ov1" "x < ov_total_byte_len ov1" "x \<le> ov_total_byte_len ov1"
      using o1(2) xy by (simp_all add: same_doc_def)
    note s2 = split_step [OF b1(2) b1(4), of "0 < x" pf]
    show ?thesis
    proof (cases "cutp x")
      case True
      then obtain ov2 where o2: "(if 0 < x then split_at pf ov1 x else Some ov1) = Some ov2" "same_doc disk ov1 ov2" "piece_edge (ov_pieces ov2) x"
        using s2(1) o1(4) b1 piece_edge_ends(1) by (auto simp: cutp_def)
      have sd: "same_doc disk ov ov2" by (rule same_doc_trans [OF o1(2) o2(2)])
      have e: "piece_edge (ov_pieces ov2) y" using o2(2) o1(3) by (simp add: same_doc_def)
      have ok2: "ov_ok disk ov2" using sd by (simp add: same_doc_def)
      from delete_pieces [OF ok2 o2(3) e xy(1)] show ?thesis
        using True sd ov_frame_trans [OF _ placed_simps(4)] by (simp add: d o1(1) o2(1) deleted_at_def same_doc_def Let_def)
    next
      case False
      then have "0 < x" by (cases "x = 0") (simp_all add: cutp_def)
      then show ?thesis using False s2(2) o1(4) b1 by (simp add: d o1(1))
    qed
  qed
  show "cutp x \<Longrightarrow> cutp y \<Longrightarrow> \<exists>ov'. ov_delete pf ov (x, y) = Some (None, ov') \<and> deleted_at disk ov x y ov'" using main by simp
  show "\<not> (cutp x \<and> cutp y) \<Longrightarrow> ov_delete pf ov (x, y) = None" using main d1 by (cases "cutp y") (auto simp: d)
qed



section \<open>Collection and limits\<close>

text \<open>What collection keeps: the document and every group that is still recorded.\<close>

definition keeps :: "str \<Rightarrow> piece_overlay \<Rightarrow> piece_overlay \<Rightarrow> bool" where
  "keeps disk ov ov' \<longleftrightarrow> ov_ok disk ov' \<and> ov_text disk ov' = ov_text disk ov \<and> ov_pieces ov' = ov_pieces ov
     \<and> ov_total_byte_len ov' = ov_total_byte_len ov \<and> ov_total_newlines ov' = ov_total_newlines ov
     \<and> ov_limits ov' = ov_limits ov \<and> ov_edit_gate ov' = ov_edit_gate ov
     \<and> map_of (ov_undo_history ov') \<subseteq>\<^sub>m map_of (ov_undo_history ov)
     \<and> cut_ok_at disk (ov_buffers ov') (ov_pieces ov') = cut_ok_at disk (ov_buffers ov) (ov_pieces ov)"

lemma keeps_refl: "ov_ok disk ov \<Longrightarrow> keeps disk ov ov"
  by (simp add: keeps_def)

lemma keeps_trans: "keeps disk a b \<Longrightarrow> keeps disk b c \<Longrightarrow> keeps disk a c"
  by (auto simp: keeps_def intro: map_le_trans)

lemma drop_buffers_simps [simp]: "ov_pieces (drop_buffers bs kept ov) = ov_pieces ov"
  "ov_cum_offsets (drop_buffers bs kept ov) = ov_cum_offsets ov" "ov_total_byte_len (drop_buffers bs kept ov) = ov_total_byte_len ov"
  "ov_total_newlines (drop_buffers bs kept ov) = ov_total_newlines ov" "ov_limits (drop_buffers bs kept ov) = ov_limits ov"
  "ov_edit_gate (drop_buffers bs kept ov) = ov_edit_gate ov" "ov_undo_history (drop_buffers bs kept ov) = ov_undo_history ov"
  "ov_original_file_byte_len (drop_buffers bs kept ov) = ov_original_file_byte_len ov"
  by (induction bs kept ov rule: drop_buffers.induct) simp_all

lemma drop_buffers_map:
  "map_of (ov_buffers (drop_buffers bs kept ov)) b = (if b \<in> set bs \<and> b \<notin> kept then None else map_of (ov_buffers ov) b)"
  by (induction bs kept ov rule: drop_buffers.induct) (auto simp: delete_conv')

lemma keys_delete: "fst ` set (AList.delete k al) = fst ` set al - {k}"
  using delete_keys [of k al] by (metis set_map set_removeAll)

lemma drop_buffers_ok: "buffers_ok ov \<Longrightarrow> buffers_ok (drop_buffers bs kept ov)"
proof (induction bs kept ov rule: drop_buffers.induct)
  case (2 b bs kept ov)
  have "buffers_ok (ov\<lparr>ov_buffers := AList.delete b (ov_buffers ov),
      ov_active_buffer := (if ov_active_buffer ov = Some b then None else ov_active_buffer ov)\<rparr>)"
    using 2(2) by (auto simp: buffers_ok_def distinct_delete keys_delete split: option.splits)
  then show ?case using 2 by simp
qed simp

lemma same_buffers:
  assumes "\<And>p b. p \<in> set ps \<Longrightarrow> piece_buffer p = Some b \<Longrightarrow> map_of bufs' b = map_of bufs b"
  shows "list_all (piece_ok disk bufs') ps \<longleftrightarrow> list_all (piece_ok disk bufs) ps" "pieces_text disk bufs' ps = pieces_text disk bufs ps"
    "cut_ok_at disk bufs' ps = cut_ok_at disk bufs ps"
proof -
  have p: "piece_ok disk bufs' p = piece_ok disk bufs p \<and> piece_text disk bufs' p = piece_text disk bufs p
      \<and> piece_cut disk bufs' p = piece_cut disk bufs p" if "p \<in> set ps" for p
    using assms [OF that] by (cases "(disk, bufs, p)" rule: piece_ok.cases) (auto simp: fun_eq_iff)
  then show "list_all (piece_ok disk bufs') ps \<longleftrightarrow> list_all (piece_ok disk bufs) ps" "pieces_text disk bufs' ps = pieces_text disk bufs ps"
    by (auto simp: list_all_iff pieces_text_def intro!: arg_cong [of _ _ concat])
  have "cut_ok_at disk bufs' ps x = cut_ok_at disk bufs ps x" for x
    using p by (induction ps arbitrary: x) auto
  then show "cut_ok_at disk bufs' ps = cut_ok_at disk bufs ps" by blast
qed

lemma gc_undo_group_keeps:
  assumes ok: "ov_ok disk ov"
  shows "keeps disk ov (gc_undo_group ov g)" "map_of (ov_undo_history (gc_undo_group ov g)) = (map_of (ov_undo_history ov))(g := None)"
proof -
  have "keeps disk ov (gc_undo_group ov g) \<and> map_of (ov_undo_history (gc_undo_group ov g)) = (map_of (ov_undo_history ov))(g := None)"
  proof (cases "map_of (ov_undo_history ov) g")
    case None
    then show ?thesis using keeps_refl [OF ok] by (auto simp: gc_undo_group_def)
  next
    case (Some delta)
    define ov1 where "ov1 = ov\<lparr>ov_undo_history := AList.delete g (ov_undo_history ov),
       ov_undo_group_order := filter (\<lambda>x. x \<noteq> g) (ov_undo_group_order ov)\<rparr>"
    define kept where "kept = set (List.map_filter piece_buffer (ov_pieces ov))
       \<union> set (List.map_filter op_buffer (concat (map (od_ops \<circ> snd) (ov_undo_history ov1))))"
    define bs where "bs = remdups (sort (List.map_filter op_buffer (od_ops delta)))"
    have gc: "gc_undo_group ov g = drop_buffers bs kept ov1"
      by (simp add: gc_undo_group_def Some Let_def ov1_def kept_def bs_def)
    have h: "pieces_ok disk (ov_buffers ov) (ov_pieces ov)" "buffers_ok ov1" "history_ok ov"
      using ok by (simp_all add: ov_ok_def ov1_def buffers_ok_def split: option.splits)
    have live: "map_of (ov_buffers (drop_buffers bs kept ov1)) b = map_of (ov_buffers ov) b"
      if "p \<in> set (ov_pieces ov)" "piece_buffer p = Some b" for p b
      using that by (auto simp: drop_buffers_map kept_def set_map_filter ov1_def)
    have op: "op_ok (ov_buffers (drop_buffers bs kept ov1)) op \<longleftrightarrow> op_ok (ov_buffers ov) op"
      if "(k, d) \<in> set (ov_undo_history ov1)" "op \<in> set (od_ops d)" for k d op
    proof -
      have "b \<in> kept" if "op_buffer op = Some b" for b
        using \<open>(k, d) \<in> _\<close> \<open>op \<in> _\<close> that by (force simp: kept_def set_map_filter)
      then show ?thesis by (cases "(ov_buffers ov, op)" rule: op_ok.cases) (simp_all add: drop_buffers_map ov1_def)
    qed
    have sub: "set (ov_undo_history ov1) \<subseteq> set (ov_undo_history ov)" "fst ` set (ov_undo_history ov1) = fst ` set (ov_undo_history ov) - {g}"
      by (auto simp: ov1_def keys_delete) (simp add: AList.delete_eq)
    have "od_undo_group d = k \<and> list_all (op_ok (ov_buffers (drop_buffers bs kept ov1))) (od_ops d)"
      if "(k, d) \<in> set (ov_undo_history ov1)" for k d
      using h(3) op [OF that] subsetD [OF sub(1) that] unfolding history_ok_def list_all_iff by blast
    moreover have "distinct (map fst (ov_undo_history ov1))" "distinct (ov_undo_group_order ov1)"
      "set (ov_undo_group_order ov1) = fst ` set (ov_undo_history ov1)"
      using h(3) sub(2) by (auto simp: history_ok_def ov1_def distinct_delete)
    ultimately have "history_ok (drop_buffers bs kept ov1)" unfolding history_ok_def by auto
    moreover have "pieces_ok disk (ov_buffers (drop_buffers bs kept ov1)) (ov_pieces ov)"
      using h(1) same_buffers(1) [OF live, of "ov_pieces ov"] by (simp add: pieces_ok_def)
    ultimately have "ov_ok disk (drop_buffers bs kept ov1)"
      using ok drop_buffers_ok [OF h(2)] by (simp add: ov_ok_def ov1_def offsets_ok_def)
    then show ?thesis using same_buffers(2,3) [OF live, of "ov_pieces ov"]
      by (auto simp: keeps_def gc ov_text_def ov1_def delete_conv' map_le_def)
  qed
  then show "keeps disk ov (gc_undo_group ov g)" "map_of (ov_undo_history (gc_undo_group ov g)) = (map_of (ov_undo_history ov))(g := None)"
    by simp_all
qed

lemma gc_oldest_eq: "history_ok ov \<Longrightarrow> ov_undo_group_order ov = oldest # rest \<Longrightarrow> gc_oldest ov oldest rest = gc_undo_group ov oldest"
proof -
  assume h: "history_ok ov" "ov_undo_group_order ov = oldest # rest"
  then have "oldest \<in> fst ` set (ov_undo_history ov)" "oldest \<notin> set rest" by (auto simp: history_ok_def)
  then have "map_of (ov_undo_history ov) oldest \<noteq> None" "filter (\<lambda>x. x \<noteq> oldest) rest = rest"
    by (auto simp: map_of_eq_None_iff filter_id_conv)
  then show ?thesis using h(2) by (auto simp: gc_oldest_def gc_undo_group_def Let_def)
qed

lemma gc_oldest_keeps:
  assumes "ov_ok disk ov" "ov_undo_group_order ov = oldest # rest"
  shows "keeps disk ov (gc_oldest ov oldest rest)"
proof -
  have "history_ok ov" using assms(1) by (simp add: ov_ok_def)
  then show ?thesis using gc_undo_group_keeps(1) [OF assms(1)] gc_oldest_eq [OF _ assms(2)] by simp
qed

lemma history_len: "history_ok ov \<Longrightarrow> length (ov_undo_history ov) = length (ov_undo_group_order ov)"
  unfolding history_ok_def by (metis distinct_card length_map set_map)

text \<open>
  The limits hold afterwards: the number of groups is below its bound (if that is positive), and the bytes in use
  with those to come are within the cap unless the edit is refused, in which case nothing is left to drop.
\<close>

lemma limit_groups_spec:
  "ov_ok disk ov \<Longrightarrow> keeps disk ov (limit_groups ov)
     \<and> (length (ov_undo_history (limit_groups ov)) < max_undo_groups (ov_limits ov) \<or> ov_undo_history (limit_groups ov) = [])"
proof (induction ov rule: limit_groups.induct)
  case (1 ov)
  have h: "history_ok ov" using "1.prems" by (simp add: ov_ok_def)
  note eq = limit_groups.simps [of ov]
  consider "length (ov_undo_history ov) < max_undo_groups (ov_limits ov)" | "ov_undo_group_order ov = []"
    | oldest rest where "max_undo_groups (ov_limits ov) \<le> length (ov_undo_history ov)" "ov_undo_group_order ov = oldest # rest"
    using not_le by (cases "ov_undo_group_order ov") blast+
  then show ?case
  proof cases
    case 3
    have k: "keeps disk ov (gc_oldest ov oldest rest)" by (rule gc_oldest_keeps [OF "1.prems" 3(2)])
    then have "ov_ok disk (gc_oldest ov oldest rest)" "ov_limits (gc_oldest ov oldest rest) = ov_limits ov" by (simp_all add: keeps_def)
    then show ?thesis using "1.IH" [OF 3] keeps_trans [OF k] 3 by (simp add: eq)
  qed (use keeps_refl [OF "1.prems"] history_len [OF h] in \<open>simp_all add: eq\<close>)
qed

lemma limit_bytes_spec:
  "ov_ok disk ov \<Longrightarrow> limit_bytes pf n ov = (e, ov') \<Longrightarrow> keeps disk ov ov'
     \<and> length (ov_undo_history ov') \<le> length (ov_undo_history ov)
     \<and> (if e = None then overlay_bytes pf ov' + n \<le> overlay_byte_cap (ov_limits ov)
        else e = Some (LimitReached (MemoryCap (overlay_byte_cap (ov_limits ov)) (overlay_bytes pf ov')))
          \<and> ov_undo_history ov' = [] \<and> overlay_bytes pf ov' + n > overlay_byte_cap (ov_limits ov))"
proof (induction pf n ov rule: limit_bytes.induct)
  case (1 pf n ov)
  have h: "history_ok ov" using "1.prems"(1) by (simp add: ov_ok_def)
  note eq = limit_bytes.simps [of pf n ov]
  consider "overlay_bytes pf ov + n \<le> overlay_byte_cap (ov_limits ov)"
    | "overlay_bytes pf ov + n > overlay_byte_cap (ov_limits ov)" "ov_undo_group_order ov = []"
    | oldest rest where "overlay_byte_cap (ov_limits ov) < overlay_bytes pf ov + n" "ov_undo_group_order ov = oldest # rest"
    using not_le by (cases "ov_undo_group_order ov") blast+
  then show ?case
  proof cases
    case 3
    let ?o = "gc_oldest ov oldest rest"
    have k: "keeps disk ov ?o" by (rule gc_oldest_keeps [OF "1.prems"(1) 3(2)])
    then have o: "ov_ok disk ?o" "ov_limits ?o = ov_limits ov" "history_ok ?o" by (auto simp: keeps_def ov_ok_def)
    have "length (ov_undo_history ?o) \<le> length (ov_undo_history ov)"
      using history_len [OF h] history_len [OF o(3)] gc_oldest_order_length [of ov oldest rest] 3(2) by simp
    then show ?thesis using "1.IH" [OF 3] keeps_trans [OF k] 3 o "1.prems"(2) by (auto simp: eq split: if_splits)
  qed (use keeps_refl [OF "1.prems"(1)] history_len [OF h] "1.prems"(2) in \<open>auto simp: eq\<close>)
qed

lemma enforce_limits_spec:
  assumes "ov_ok disk ov" "enforce_limits pf ov n = (e, ov')"
  shows "keeps disk ov ov'" "e = None \<Longrightarrow> overlay_bytes pf ov' + n \<le> overlay_byte_cap (ov_limits ov)"
    "length (ov_undo_history ov') < max_undo_groups (ov_limits ov) \<or> ov_undo_history ov' = []"
    "e \<noteq> None \<Longrightarrow> e = Some (LimitReached (MemoryCap (overlay_byte_cap (ov_limits ov)) (overlay_bytes pf ov')))
      \<and> ov_undo_history ov' = [] \<and> overlay_bytes pf ov' + n > overlay_byte_cap (ov_limits ov)"
proof -
  note g = limit_groups_spec [OF assms(1)]
  have o: "ov_ok disk (limit_groups ov)" "ov_limits (limit_groups ov) = ov_limits ov" using g by (simp_all add: keeps_def)
  note b = limit_bytes_spec [OF o(1) assms(2) [unfolded enforce_limits_def]]
  show "keeps disk ov ov'" using g b keeps_trans by blast
  show "e = None \<Longrightarrow> overlay_bytes pf ov' + n \<le> overlay_byte_cap (ov_limits ov)" using b o(2) by simp
  show "length (ov_undo_history ov') < max_undo_groups (ov_limits ov) \<or> ov_undo_history ov' = []" using g b o(2) by auto
  show "e \<noteq> None \<Longrightarrow> e = Some (LimitReached (MemoryCap (overlay_byte_cap (ov_limits ov)) (overlay_bytes pf ov')))
      \<and> ov_undo_history ov' = [] \<and> overlay_bytes pf ov' + n > overlay_byte_cap (ov_limits ov)" using b o(2) by auto
qed


section \<open>Recorded edits\<close>

lemma record_op_simps [simp]: "ov_pieces (record_op ov ctx op) = ov_pieces ov" "ov_buffers (record_op ov ctx op) = ov_buffers ov"
  "ov_cum_offsets (record_op ov ctx op) = ov_cum_offsets ov" "ov_total_byte_len (record_op ov ctx op) = ov_total_byte_len ov"
  "ov_total_newlines (record_op ov ctx op) = ov_total_newlines ov" "ov_limits (record_op ov ctx op) = ov_limits ov"
  "ov_active_buffer (record_op ov ctx op) = ov_active_buffer ov" "ov_next_buffer_id (record_op ov ctx op) = ov_next_buffer_id ov"
  "ov_original_file_byte_len (record_op ov ctx op) = ov_original_file_byte_len ov" "ov_edit_gate (record_op ov ctx op) = ov_edit_gate ov"
  by (simp_all add: record_op_def Let_def)

lemma record_op_history:
  "map_of (ov_undo_history (record_op ov ctx op)) g = (if g = oc_undo_group ctx
     then Some (case map_of (ov_undo_history ov) g of
         None \<Rightarrow> \<lparr>od_undo_group = g, od_revision_id = oc_revision_id ctx, od_ops = [op]\<rparr>
       | Some d \<Rightarrow> d\<lparr>od_ops := od_ops d @ [op]\<rparr>)
     else map_of (ov_undo_history ov) g)"
  by (simp add: record_op_def Let_def update_conv' split: option.split)

lemma record_op_len: "length (ov_undo_history (record_op ov ctx op)) \<le> Suc (length (ov_undo_history ov))"
proof -
  have "length (AList.update k v al) \<le> Suc (length al)" for k :: nat and v :: overlay_delta and al
    by (induction al) auto
  then show ?thesis by (simp add: record_op_def Let_def)
qed

lemma record_op_text [simp]: "ov_text disk (record_op ov ctx op) = ov_text disk ov"
  by (simp add: ov_text_def)

lemma record_op_ok:
  assumes ok: "ov_ok disk ov" and op: "op_ok (ov_buffers ov) op"
  shows "ov_ok disk (record_op ov ctx op)"
proof -
  let ?g = "oc_undo_group ctx"
  let ?d = "case map_of (ov_undo_history ov) ?g of None \<Rightarrow> \<lparr>od_undo_group = ?g, od_revision_id = oc_revision_id ctx, od_ops = []\<rparr>
    | Some d \<Rightarrow> d"
  have h: "history_ok ov" using ok by (simp add: ov_ok_def)
  have d: "od_undo_group ?d = ?g \<and> list_all (op_ok (ov_buffers ov)) (od_ops ?d)"
    using h by (auto simp: history_ok_def split: option.split dest!: map_of_SomeD)
  have keys: "(map_of (ov_undo_history ov) ?g = None) \<longleftrightarrow> ?g \<notin> set (ov_undo_group_order ov)"
    using h by (simp add: history_ok_def map_of_eq_None_iff)
  have "(g, e) \<in> set (AList.update k v al) \<Longrightarrow> (g, e) = (k, v) \<or> (g, e) \<in> set al" for g e k v and al :: "(nat \<times> overlay_delta) list"
    by (induction al) (auto split: if_splits)
  then have all: "od_undo_group e = g \<and> list_all (op_ok (ov_buffers ov)) (od_ops e)"
    if "(g, e) \<in> set (AList.update ?g (?d\<lparr>od_ops := od_ops ?d @ [op]\<rparr>) (ov_undo_history ov))" for g e
    using that d op h unfolding history_ok_def by fastforce
  have "history_ok (record_op ov ctx op)"
    using h all keys by (auto simp: history_ok_def record_op_def Let_def distinct_update dom_update)
  then show ?thesis using ok by (simp add: ov_ok_def offsets_ok_def buffers_ok_def split: option.splits)
qed

lemma inserted_total: "inserted_at disk ov at s ov' \<Longrightarrow> ov_ok disk ov' \<and> ov_limits ov' = ov_limits ov
    \<and> ov_undo_history ov' = ov_undo_history ov"
  by (simp add: inserted_at_def ov_frame_def)

text \<open>
  A recorded insertion of text first drops old groups, then edits the document and appends the operation to its
  group; or it is refused with the document as before.
\<close>

definition recorded :: "nat \<Rightarrow> overlay_op \<Rightarrow> piece_overlay \<Rightarrow> piece_overlay \<Rightarrow> bool" where
  "recorded g op ov ov' \<longleftrightarrow> (\<exists>d. delta_for_group ov' g = Some d \<and> od_undo_group d = g \<and> last (od_ops d) = op \<and> od_ops d \<noteq> []
        \<and> (\<forall>d0. delta_for_group ov g = Some d0 \<longrightarrow> od_ops d = od_ops d0 @ [op] \<or> od_ops d = [op]))
     \<and> (\<forall>h d. h \<noteq> g \<longrightarrow> delta_for_group ov' h = Some d \<longrightarrow> delta_for_group ov h = Some d)"

lemma recorded_record_op:
  assumes "ov_ok disk ov1" "map_of (ov_undo_history ov1) \<subseteq>\<^sub>m map_of (ov_undo_history ov)"
  shows "recorded (oc_undo_group ctx) op ov (record_op ov1 ctx op)"
proof -
  have sub: "map_of (ov_undo_history ov1) g = Some d \<Longrightarrow> map_of (ov_undo_history ov) g = Some d" for g d
    using assms(2) by (metis domI map_le_def)
  have g: "od_undo_group d = g" if "map_of (ov_undo_history ov1) g = Some d" for g d
    using assms(1) map_of_SomeD [OF that] by (auto simp: ov_ok_def history_ok_def)
  show ?thesis unfolding recorded_def delta_for_group_def record_op_history
    by (cases "map_of (ov_undo_history ov1) (oc_undo_group ctx)") (auto dest: sub g)
qed

lemma insert_in_group_spec:
  assumes ok: "ov_ok disk ov" and at: "at \<le> ov_total_byte_len ov" and s: "s \<noteq> []" "utf8_valid s"
  shows "cut_ok_at disk (ov_buffers ov) (ov_pieces ov) at \<Longrightarrow> \<exists>e ov'. insert_in_group pf ov at s ctx = Some (e, ov') \<and> ov_ok disk ov'
      \<and> ov_limits ov' = ov_limits ov \<and> length (ov_undo_history ov') \<le> max 1 (max_undo_groups (ov_limits ov))
      \<and> (case e of
           None \<Rightarrow> ov_text disk ov' = take at (ov_text disk ov) @ s @ drop at (ov_text disk ov)
             \<and> (\<exists>b r buf. recorded (oc_undo_group ctx) (InsertOp at b r) ov ov' \<and> map_of (ov_buffers ov') b = Some buf
                  \<and> buffer_slice buf r = Some s)
             \<and> compute_total_newlines ov' = cnt (\<lambda>b. b = NL) s + compute_total_newlines ov
             \<and> ov_total_newlines ov' = compute_total_newlines ov'
         | Some err \<Rightarrow> keeps disk ov ov' \<and> ov_undo_history ov' = []
             \<and> err = LimitReached (MemoryCap (overlay_byte_cap (ov_limits ov)) (overlay_bytes pf ov'))
             \<and> overlay_bytes pf ov' + length s > overlay_byte_cap (ov_limits ov))"
proof -
  assume cut: "cut_ok_at disk (ov_buffers ov) (ov_pieces ov) at"
  obtain e ov1 where en: "enforce_limits pf ov (length s) = (e, ov1)" by (cases "enforce_limits pf ov (length s)")
  note el = enforce_limits_spec [OF ok en]
  have o1: "ov_ok disk ov1" "ov_text disk ov1 = ov_text disk ov" "at \<le> ov_total_byte_len ov1" "ov_limits ov1 = ov_limits ov"
    "cut_ok_at disk (ov_buffers ov1) (ov_pieces ov1) at" "map_of (ov_undo_history ov1) \<subseteq>\<^sub>m map_of (ov_undo_history ov)"
    "compute_total_newlines ov1 = compute_total_newlines ov"
    using el(1) at cut by (auto simp: keeps_def compute_newlines)
  show ?thesis
  proof (cases e)
    case None
    obtain ov2 where i: "ov_insert pf ov1 at s = Some (None, ov2)" "inserted_at disk ov1 at s ov2"
      using ov_insert_spec(1) [OF o1(1,3) s o1(5)] by blast
    obtain b buf where b: "ov_active_buffer ov2 = Some b" "map_of (ov_buffers ov2) b = Some (buf @ s)"
      using i(2) by (auto simp: inserted_at_def)
    note it = inserted_total [OF i(2)]
    let ?op = "InsertOp at b (length buf, length buf + length s)"
    have r: "insert_in_group pf ov at s ctx = Some (None, record_op ov2 ctx ?op)"
      by (simp add: insert_in_group_def en None i(1) b usize_sub_def)
    have ok': "ov_ok disk (record_op ov2 ctx ?op)" using record_op_ok [of disk ov2 ?op ctx] it b(2) by simp
    have rec: "recorded (oc_undo_group ctx) ?op ov (record_op ov2 ctx ?op)"
      using recorded_record_op [of disk ov2 ov ctx ?op] it o1(6) by simp
    have sl: "buffer_slice (buf @ s) (length buf, length buf + length s) = Some s"
      by (simp add: buffer_slice_def bytes_slice_def slice_def)
    have len: "length (ov_undo_history (record_op ov2 ctx ?op)) \<le> max 1 (max_undo_groups (ov_limits ov))"
      using record_op_len [of ov2 ctx ?op] el(3) it by auto
    show ?thesis
      by (rule exI [of _ None], rule exI [of _ "record_op ov2 ctx ?op"])
        (use r ok' rec sl len b(2) i(2) o1 it in \<open>auto simp: inserted_at_def compute_newlines\<close>)
  next
    case (Some err)
    have "insert_in_group pf ov at s ctx = Some (Some err, ov1)" by (simp add: insert_in_group_def en Some)
    then show ?thesis using el(1,4) o1 Some by (intro exI [of _ e] exI [of _ ov1]) auto
  qed
qed

lemma delete_in_group_spec:
  assumes ok: "ov_ok disk ov" and xy: "x < y" "y \<le> ov_total_byte_len ov"
    and cut: "cut_ok_at disk (ov_buffers ov) (ov_pieces ov) x" "cut_ok_at disk (ov_buffers ov) (ov_pieces ov) y"
  shows "\<exists>e ov'. delete_in_group pf ov (x, y) ctx = Some (e, ov') \<and> ov_ok disk ov'
      \<and> ov_limits ov' = ov_limits ov \<and> length (ov_undo_history ov') \<le> max 1 (max_undo_groups (ov_limits ov))
      \<and> (case e of
           None \<Rightarrow> ov_text disk ov' = take x (ov_text disk ov) @ drop y (ov_text disk ov)
             \<and> recorded (oc_undo_group ctx) (DeleteOp (x, y)) ov ov' \<and> ov_total_newlines ov' = ov_total_newlines ov
         | Some err \<Rightarrow> keeps disk ov ov' \<and> ov_undo_history ov' = []
             \<and> err = LimitReached (MemoryCap (overlay_byte_cap (ov_limits ov)) (overlay_bytes pf ov'))
             \<and> overlay_bytes pf ov' > overlay_byte_cap (ov_limits ov))"
proof -
  obtain e ov1 where en: "enforce_limits pf ov 0 = (e, ov1)" by (cases "enforce_limits pf ov 0")
  note el = enforce_limits_spec [OF ok en]
  have o1: "ov_ok disk ov1" "ov_text disk ov1 = ov_text disk ov" "y \<le> ov_total_byte_len ov1" "ov_limits ov1 = ov_limits ov"
    "cut_ok_at disk (ov_buffers ov1) (ov_pieces ov1) x" "cut_ok_at disk (ov_buffers ov1) (ov_pieces ov1) y"
    "map_of (ov_undo_history ov1) \<subseteq>\<^sub>m map_of (ov_undo_history ov)" "ov_total_newlines ov1 = ov_total_newlines ov"
    using el(1) xy cut by (auto simp: keeps_def)
  show ?thesis
  proof (cases e)
    case None
    obtain ov2 where i: "ov_delete pf ov1 (x, y) = Some (None, ov2)" "deleted_at disk ov1 x y ov2"
      using ov_delete_spec(1) [OF o1(1) xy(1) o1(3,5,6)] by blast
    let ?r = "record_op ov2 ctx (DeleteOp (x, y))"
    have r: "delete_in_group pf ov (x, y) ctx = Some (None, ?r)" by (simp add: delete_in_group_def en None i(1))
    have ok2: "ov_ok disk ov2" "ov_undo_history ov2 = ov_undo_history ov1" "ov_limits ov2 = ov_limits ov1"
      using i(2) by (simp_all add: deleted_at_def ov_frame_def)
    have ok': "ov_ok disk ?r" using record_op_ok [OF ok2(1)] by simp
    have rec: "recorded (oc_undo_group ctx) (DeleteOp (x, y)) ov ?r"
      using recorded_record_op [OF ok2(1), of ov ctx "DeleteOp (x, y)"] ok2(2) o1(7) by simp
    have len: "length (ov_undo_history ?r) \<le> max 1 (max_undo_groups (ov_limits ov))"
      using record_op_len [of ov2 ctx "DeleteOp (x, y)"] el(3) ok2(2) by auto
    show ?thesis by (rule exI [of _ None], rule exI [of _ ?r]) (use r ok' rec len i(2) o1 ok2 in \<open>auto simp: deleted_at_def\<close>)
  next
    case (Some err)
    have "delete_in_group pf ov (x, y) ctx = Some (Some err, ov1)" by (simp add: delete_in_group_def en Some)
    then show ?thesis using el(1,4) o1 Some by (intro exI [of _ e] exI [of _ ov1]) auto
  qed
qed

text \<open>Whatever an edit returns, the overlay stays well-formed and shows the edited document, or the old one on an error.\<close>

lemma insert_in_group_any:
  assumes ok: "ov_ok disk ov" and s: "utf8_valid s" and r: "insert_in_group pf ov at s ctx = Some (e, ov')"
  shows "ov_ok disk ov' \<and> ov_text disk ov' = (if e = None then take at (ov_text disk ov) @ s @ drop at (ov_text disk ov) else ov_text disk ov)
    \<and> ov_limits ov' = ov_limits ov"
proof -
  obtain e1 ov1 where en: "enforce_limits pf ov (length s) = (e1, ov1)" by (cases "enforce_limits pf ov (length s)")
  have o1: "ov_ok disk ov1" "ov_text disk ov1 = ov_text disk ov" "ov_limits ov1 = ov_limits ov"
    using enforce_limits_spec(1) [OF ok en] by (simp_all add: keeps_def)
  consider err where "e1 = Some err" | "e1 = None" "at > ov_total_byte_len ov1" | "e1 = None" "at \<le> ov_total_byte_len ov1" "s = []"
    | "e1 = None" "at \<le> ov_total_byte_len ov1" "s \<noteq> []" by force
  then show ?thesis
  proof cases
    case 3
    then have en0: "enforce_limits pf ov 0 = (None, ov1)" using en by simp
    obtain b buf where "ov' = record_op ov1 ctx (InsertOp at b (length buf, length buf))" "map_of (ov_buffers ov1) b = Some buf" "e = None"
      using r 3 by (auto simp: insert_in_group_def en0 ov_insert_def usize_sub_def bind_eq_Some_conv)
    then show ?thesis using o1 record_op_ok [OF o1(1)] 3 by simp
  next
    case 4
    obtain ov2 where i: "ov_insert pf ov1 at s = Some (None, ov2)" "inserted_at disk ov1 at s ov2"
      using ov_insert_spec [OF o1(1) 4(2,3) s, of pf] r 4(1)
      by (cases "cut_ok_at disk (ov_buffers ov1) (ov_pieces ov1) at") (auto simp: insert_in_group_def en)
    obtain b buf where b: "ov_active_buffer ov2 = Some b" "map_of (ov_buffers ov2) b = Some (buf @ s)"
      using i(2) by (auto simp: inserted_at_def)
    have "e = None" "ov' = record_op ov2 ctx (InsertOp at b (length buf, length buf + length s))"
      using r by (simp_all add: insert_in_group_def en 4(1) i(1) b usize_sub_def)
    then show ?thesis using i(2) o1 b(2) record_op_ok [of disk ov2 "InsertOp at b (length buf, length buf + length s)" ctx]
        inserted_total [OF i(2)] by (simp add: inserted_at_def)
  qed (use r o1 in \<open>auto simp: insert_in_group_def en ov_insert_def\<close>)
qed

lemma delete_in_group_any:
  assumes ok: "ov_ok disk ov" and r: "delete_in_group pf ov (x, y) ctx = Some (e, ov')"
  shows "ov_ok disk ov' \<and> ov_text disk ov' = (if e = None \<and> x < y then take x (ov_text disk ov) @ drop y (ov_text disk ov) else ov_text disk ov)
    \<and> ov_limits ov' = ov_limits ov"
proof -
  obtain e1 ov1 where en: "enforce_limits pf ov 0 = (e1, ov1)" by (cases "enforce_limits pf ov 0")
  have o1: "ov_ok disk ov1" "ov_text disk ov1 = ov_text disk ov" "ov_limits ov1 = ov_limits ov"
    using enforce_limits_spec(1) [OF ok en] by (simp_all add: keeps_def)
  consider err where "e1 = Some err" | "e1 = None" "y > ov_total_byte_len ov1" | "e1 = None" "y \<le> ov_total_byte_len ov1" "y \<le> x"
    | "e1 = None" "y \<le> ov_total_byte_len ov1" "x < y" by force
  then show ?thesis
  proof cases
    case 3
    then show ?thesis using r o1 record_op_ok [OF o1(1), of "DeleteOp (x, y)" ctx] by (auto simp: delete_in_group_def en ov_delete_def)
  next
    case 4
    obtain ov2 where i: "ov_delete pf ov1 (x, y) = Some (None, ov2)" "deleted_at disk ov1 x y ov2"
      using ov_delete_spec [OF o1(1) 4(3,2), of pf] r 4(1)
      by (cases "cut_ok_at disk (ov_buffers ov1) (ov_pieces ov1) x \<and> cut_ok_at disk (ov_buffers ov1) (ov_pieces ov1) y")
        (auto simp: delete_in_group_def en)
    have o2: "ov_ok disk ov2" "ov_limits ov2 = ov_limits ov1" using i(2) by (simp_all add: deleted_at_def ov_frame_def)
    have "e = None" "ov' = record_op ov2 ctx (DeleteOp (x, y))" using r by (simp_all add: delete_in_group_def en 4(1) i(1))
    then show ?thesis using i(2) o1 o2 record_op_ok [OF o2(1), of "DeleteOp (x, y)" ctx] 4(3) by (simp add: deleted_at_def)
  qed (use r o1 in \<open>auto simp: delete_in_group_def en ov_delete_def\<close>)
qed


section \<open>Runs\<close>

inductive overlay_run :: "platform \<Rightarrow> str \<Rightarrow> overlay_limits \<Rightarrow> piece_overlay \<Rightarrow> str \<Rightarrow> bool" for pf disk lim where
  run_start: "tm_byte_len m = length disk \<Longrightarrow> overlay_run pf disk lim (overlay_with_limits m lim) disk"
| run_insert: "overlay_run pf disk lim ov doc \<Longrightarrow> utf8_valid s \<Longrightarrow> insert_in_group pf ov at s ctx = Some (None, ov') \<Longrightarrow>
    overlay_run pf disk lim ov' (take at doc @ s @ drop at doc)"
| run_insert_refused: "overlay_run pf disk lim ov doc \<Longrightarrow> utf8_valid s \<Longrightarrow> insert_in_group pf ov at s ctx = Some (Some e, ov') \<Longrightarrow>
    overlay_run pf disk lim ov' doc"
| run_delete: "overlay_run pf disk lim ov doc \<Longrightarrow> delete_in_group pf ov (x, y) ctx = Some (None, ov') \<Longrightarrow>
    overlay_run pf disk lim ov' (if x < y then take x doc @ drop y doc else doc)"
| run_delete_refused: "overlay_run pf disk lim ov doc \<Longrightarrow> delete_in_group pf ov (x, y) ctx = Some (Some e, ov') \<Longrightarrow>
    overlay_run pf disk lim ov' doc"
| run_gc: "overlay_run pf disk lim ov doc \<Longrightarrow> overlay_run pf disk lim (gc_undo_group ov g) doc"

lemma overlay_with_limits_ok:
  "tm_byte_len m = length disk \<Longrightarrow> ov_ok disk (overlay_with_limits m lim) \<and> ov_text disk (overlay_with_limits m lim) = disk"
  by (simp add: overlay_with_limits_def ov_ok_def pieces_ok_def in_order_def offsets_ok_def buffers_ok_def history_ok_def ov_text_def
      piece_byte_len_def slice_def)

lemma overlay_run_ok:
  "overlay_run pf disk lim ov doc \<Longrightarrow> ov_ok disk ov \<and> ov_text disk ov = doc \<and> ov_limits ov = lim"
proof (induction rule: overlay_run.induct)
  case (run_start m)
  then show ?case using overlay_with_limits_ok by (simp add: overlay_with_limits_def)
next
  case (run_insert ov doc s at ctx ov')
  then show ?case using insert_in_group_any [of disk ov s pf at ctx None ov'] by simp
next
  case (run_insert_refused ov doc s at ctx e ov')
  then show ?case using insert_in_group_any [of disk ov s pf at ctx "Some e" ov'] by simp
next
  case (run_delete ov doc x y ctx ov')
  then show ?case using delete_in_group_any [of disk ov pf x y ctx None ov'] by simp
next
  case (run_delete_refused ov doc x y ctx e ov')
  then show ?case using delete_in_group_any [of disk ov pf x y ctx "Some e" ov'] by simp
next
  case (run_gc ov doc g)
  then show ?case using gc_undo_group_keeps(1) [of disk ov g] by (simp add: keeps_def)
qed

text \<open>Edits of the pieces leave the history alone, so the number of recorded groups is bounded in every run.\<close>

lemma ov_insert_history: "ov_insert pf ov at s = Some (e, ov') \<Longrightarrow> ov_undo_history ov' = ov_undo_history ov"
  by (auto simp: ov_insert_def Let_def bind_eq_Some_conv buffer_append_def split: if_splits prod.splits)

lemma split_at_history: "split_at pf ov pos = Some ov' \<Longrightarrow> ov_undo_history ov' = ov_undo_history ov"
  by (auto simp: split_at_def Let_def bind_eq_Some_conv split: if_splits prod.splits)

lemma ov_delete_history: "ov_delete pf ov r = Some (e, ov') \<Longrightarrow> ov_undo_history ov' = ov_undo_history ov"
  by (auto simp: ov_delete_def Let_def bind_eq_Some_conv dest!: split_at_history split: if_splits prod.splits)

definition few_groups :: "piece_overlay \<Rightarrow> bool" where
  "few_groups ov \<longleftrightarrow> length (ov_undo_history ov) \<le> max 1 (max_undo_groups (ov_limits ov))"

lemma enforce_few_groups:
  assumes "ov_ok disk ov" "enforce_limits pf ov n = (e, ov1)" "ov_undo_history ov2 = ov_undo_history ov1"
  shows "length (ov_undo_history (record_op ov2 ctx op)) \<le> max 1 (max_undo_groups (ov_limits ov))"
    "length (ov_undo_history ov2) \<le> max 1 (max_undo_groups (ov_limits ov))"
  using enforce_limits_spec(3) [OF assms(1,2)] record_op_len [of ov2 ctx op] assms(3) by auto

lemma insert_few_groups:
  assumes ok: "ov_ok disk ov" "utf8_valid s" and r: "insert_in_group pf ov at s ctx = Some (e, ov')"
  shows "few_groups ov'"
proof -
  obtain e1 ov1 where en: "enforce_limits pf ov (length s) = (e1, ov1)" by (cases "enforce_limits pf ov (length s)")
  have "length (ov_undo_history ov') \<le> max 1 (max_undo_groups (ov_limits ov))"
  proof (cases e1)
    case (Some err)
    then show ?thesis using r enforce_few_groups(2) [OF ok(1) en refl] by (simp add: insert_in_group_def en)
  next
    case None
    then obtain e2 ov2 where i: "ov_insert pf ov1 at s = Some (e2, ov2)" "ov_undo_history ov2 = ov_undo_history ov1"
      using r ov_insert_history by (fastforce simp: insert_in_group_def en bind_eq_Some_conv)
    then show ?thesis using r None enforce_few_groups [OF ok(1) en i(2)]
      by (cases e2) (auto simp: insert_in_group_def en bind_eq_Some_conv)
  qed
  then show ?thesis using insert_in_group_any [OF ok r] by (simp add: few_groups_def)
qed

lemma delete_few_groups:
  assumes ok: "ov_ok disk ov" and r: "delete_in_group pf ov x ctx = Some (e, ov')"
  shows "few_groups ov'"
proof -
  obtain e1 ov1 where en: "enforce_limits pf ov 0 = (e1, ov1)" by (cases "enforce_limits pf ov 0")
  have "length (ov_undo_history ov') \<le> max 1 (max_undo_groups (ov_limits ov))"
  proof (cases e1)
    case (Some err)
    then show ?thesis using r enforce_few_groups(2) [OF ok en refl] by (simp add: delete_in_group_def en)
  next
    case None
    then obtain e2 ov2 where i: "ov_delete pf ov1 x = Some (e2, ov2)" "ov_undo_history ov2 = ov_undo_history ov1"
      using r ov_delete_history by (fastforce simp: delete_in_group_def en bind_eq_Some_conv)
    then show ?thesis using r None enforce_few_groups [OF ok en i(2)]
      by (cases e2) (auto simp: delete_in_group_def en bind_eq_Some_conv)
  qed
  then show ?thesis using delete_in_group_any [OF ok, of pf "fst x" "snd x"] r by (simp add: few_groups_def)
qed

lemma gc_few_groups:
  assumes "ov_ok disk ov" "few_groups ov"
  shows "few_groups (gc_undo_group ov g)"
proof -
  have k: "keeps disk ov (gc_undo_group ov g)" by (rule gc_undo_group_keeps(1) [OF assms(1)])
  then have h: "history_ok (gc_undo_group ov g)" "history_ok ov" using assms(1) by (simp_all add: keeps_def ov_ok_def)
  show ?thesis using history_len [OF h(1)] history_len [OF h(2)] gc_undo_group_order_length [of ov g] k assms(2)
    by (simp add: few_groups_def keeps_def)
qed

lemma overlay_run_few: "overlay_run pf disk lim ov doc \<Longrightarrow> few_groups ov"
proof (induction rule: overlay_run.induct)
  case (run_start m)
  then show ?case by (simp add: few_groups_def overlay_with_limits_def)
next
  case (run_insert ov doc s at ctx ov')
  then show ?case using insert_few_groups overlay_run_ok by blast
next
  case (run_insert_refused ov doc s at ctx e ov')
  then show ?case using insert_few_groups overlay_run_ok by blast
next
  case (run_delete ov doc x y ctx ov')
  then show ?case using delete_few_groups overlay_run_ok by blast
next
  case (run_delete_refused ov doc x y ctx e ov')
  then show ?case using delete_few_groups overlay_run_ok by blast
next
  case (run_gc ov doc g)
  then show ?case using gc_few_groups overlay_run_ok by blast
qed

text \<open>Out of range, an edit is refused.\<close>

lemma insert_out_of_range:
  assumes "ov_ok disk ov" "ov_total_byte_len ov < at"
  shows "\<exists>e ov'. insert_in_group pf ov at s ctx = Some (Some e, ov') \<and> keeps disk ov ov'
    \<and> (e = OutOfRange at (ov_total_byte_len ov) \<or> (\<exists>used. e = LimitReached (MemoryCap (overlay_byte_cap (ov_limits ov)) used)))"
proof -
  obtain e1 ov1 where en: "enforce_limits pf ov (length s) = (e1, ov1)" by (cases "enforce_limits pf ov (length s)")
  note l = enforce_limits_spec [OF assms(1) en]
  then show ?thesis using assms(2) by (cases e1) (auto simp: insert_in_group_def en ov_insert_def keeps_def)
qed

lemma delete_out_of_range:
  assumes "ov_ok disk ov" "ov_total_byte_len ov < y"
  shows "\<exists>e ov'. delete_in_group pf ov (x, y) ctx = Some (Some e, ov') \<and> keeps disk ov ov'
    \<and> (e = OutOfRange y (ov_total_byte_len ov) \<or> (\<exists>used. e = LimitReached (MemoryCap (overlay_byte_cap (ov_limits ov)) used)))"
proof -
  obtain e1 ov1 where en: "enforce_limits pf ov 0 = (e1, ov1)" by (cases "enforce_limits pf ov 0")
  note l = enforce_limits_spec [OF assms(1) en]
  then show ?thesis using assms(2) by (cases e1) (auto simp: delete_in_group_def en ov_delete_def keeps_def)
qed

text \<open>The same for the document of a run.\<close>

lemma insert_in_group_doc:
  assumes ok: "ov_ok disk ov" "ov_text disk ov = doc" "ov_limits ov = lim" and len: "ov_total_byte_len ov = length doc"
    and h: "at \<le> length doc \<and> s \<noteq> [] \<and> utf8_valid s \<and> cut_ok_at disk (ov_buffers ov) (ov_pieces ov) at"
  shows "\<exists>e ov'. insert_in_group pf ov at s ctx = Some (e, ov') \<and> ov_ok disk ov' \<and> (case e of
            None \<Rightarrow> ov_text disk ov' = take at doc @ s @ drop at doc
              \<and> (\<exists>b r buf. recorded (oc_undo_group ctx) (InsertOp at b r) ov ov' \<and> map_of (ov_buffers ov') b = Some buf
                   \<and> buffer_slice buf r = Some s)
          | Some err \<Rightarrow> ov_text disk ov' = doc \<and> err = LimitReached (MemoryCap (overlay_byte_cap lim) (overlay_bytes pf ov')))"
proof -
  obtain e ov' where "insert_in_group pf ov at s ctx = Some (e, ov')" "ov_ok disk ov'" "case e of
         None \<Rightarrow> ov_text disk ov' = take at doc @ s @ drop at doc
           \<and> (\<exists>b r buf. recorded (oc_undo_group ctx) (InsertOp at b r) ov ov' \<and> map_of (ov_buffers ov') b = Some buf
                \<and> buffer_slice buf r = Some s)
           \<and> compute_total_newlines ov' = cnt (\<lambda>b. b = NL) s + compute_total_newlines ov
           \<and> ov_total_newlines ov' = compute_total_newlines ov'
       | Some err \<Rightarrow> keeps disk ov ov' \<and> ov_undo_history ov' = []
           \<and> err = LimitReached (MemoryCap (overlay_byte_cap lim) (overlay_bytes pf ov'))
           \<and> overlay_bytes pf ov' + length s > overlay_byte_cap lim"
    using insert_in_group_spec [OF ok(1), of at s pf ctx, unfolded ok(2,3) len] h by blast
  then show ?thesis using ok(2) by (cases e) (simp_all add: keeps_def)
qed

lemma delete_in_group_doc:
  assumes ok: "ov_ok disk ov" "ov_text disk ov = doc" "ov_limits ov = lim" and len: "ov_total_byte_len ov = length doc"
    and h: "x < y \<and> y \<le> length doc \<and> cut_ok_at disk (ov_buffers ov) (ov_pieces ov) x \<and> cut_ok_at disk (ov_buffers ov) (ov_pieces ov) y"
  shows "\<exists>e ov'. delete_in_group pf ov (x, y) ctx = Some (e, ov') \<and> ov_ok disk ov' \<and> (case e of
            None \<Rightarrow> ov_text disk ov' = take x doc @ drop y doc \<and> recorded (oc_undo_group ctx) (DeleteOp (x, y)) ov ov'
          | Some err \<Rightarrow> ov_text disk ov' = doc \<and> err = LimitReached (MemoryCap (overlay_byte_cap lim) (overlay_bytes pf ov')))"
proof -
  obtain e ov' where "delete_in_group pf ov (x, y) ctx = Some (e, ov')" "ov_ok disk ov'" "case e of
         None \<Rightarrow> ov_text disk ov' = take x doc @ drop y doc
           \<and> recorded (oc_undo_group ctx) (DeleteOp (x, y)) ov ov' \<and> ov_total_newlines ov' = ov_total_newlines ov
       | Some err \<Rightarrow> keeps disk ov ov' \<and> ov_undo_history ov' = []
           \<and> err = LimitReached (MemoryCap (overlay_byte_cap lim) (overlay_bytes pf ov'))
           \<and> overlay_bytes pf ov' > overlay_byte_cap lim"
    using delete_in_group_spec [OF ok(1), of x y pf ctx, unfolded ok(2,3) len] h by blast
  then show ?thesis using ok(2) by (cases e) (simp_all add: keeps_def)
qed

text \<open>The snapshot for a save resolves every inserted piece, to the same bytes.\<close>

lemma snapshot_pieces:
  assumes "ov_ok disk ov" "p \<in> set (ov_pieces ov)" "orig_range p = None"
  shows "snapshot_bytes_for_piece (overlay_save_snapshot ov) p = Some (piece_text disk (ov_buffers ov) p)"
    "inserted_bytes_for_piece ov p = Some (piece_text disk (ov_buffers ov) p)"
proof -
  have "piece_ok disk (ov_buffers ov) p" using assms(1,2) by (simp add: ov_ok_def pieces_ok_def list_all_iff)
  then show "snapshot_bytes_for_piece (overlay_save_snapshot ov) p = Some (piece_text disk (ov_buffers ov) p)"
    "inserted_bytes_for_piece ov p = Some (piece_text disk (ov_buffers ov) p)"
    using assms(3) by (cases "(disk, ov_buffers ov, p)" rule: piece_ok.cases;
      auto simp: snapshot_bytes_for_piece_def overlay_save_snapshot_def inserted_bytes_for_piece_def buffer_slice_def bytes_slice_def
        split: option.splits)+
qed

end
