(* ===== verification/Core_Pager.thy ===== *)
theory Core_Pager
  imports Core_Overlay "HOL-Library.Multiset"
begin

text \<open>
  The pager of very large files, from \<^verbatim>\<open>xi-core-lib/src/vlf/pager.rs\<close>: positioned reads of a file through a cache that
  drops the least recently used ranges.  What the operating system answers to a read is a parameter: a function from
  the offset and the number of bytes asked for.  A hash map is an association list with distinct keys, a \<^verbatim>\<open>BTreeMap\<close>
  one in the order of its keys.
\<close>

section \<open>The cache\<close>

fun bt_insert :: "'k::linorder \<Rightarrow> 'v \<Rightarrow> ('k \<times> 'v) list \<Rightarrow> ('k \<times> 'v) list" where
  "bt_insert k v [] = [(k, v)]"
| "bt_insert k v ((k', v') # xs) =
     (if k < k' then (k, v) # (k', v') # xs else if k = k' then (k, v) # xs else (k', v') # bt_insert k v xs)"

record page_cache =
  pc_data :: "(byte_range \<times> str \<times> nat) list"
  pc_order :: "(nat \<times> byte_range) list"
  pc_access_counter :: nat
  pc_used_bytes :: nat
  pc_byte_cap :: nat
  pc_hits :: nat
  pc_misses :: nat
  pc_evictions :: nat

definition cache_new :: "nat \<Rightarrow> page_cache" where
  "cache_new byte_cap = \<lparr>pc_data = [], pc_order = [], pc_access_counter = 0, pc_used_bytes = 0, pc_byte_cap = byte_cap,
     pc_hits = 0, pc_misses = 0, pc_evictions = 0\<rparr>"

definition cache_get :: "page_cache \<Rightarrow> byte_range \<Rightarrow> str option \<times> page_cache" where
  "cache_get c range_key = (case map_of (pc_data c) range_key of
       None \<Rightarrow> (None, c)
     | Some (page, old_time) \<Rightarrow>
         let order = AList.delete old_time (pc_order c);
             new_time = pc_access_counter c + 1
         in (Some page, c\<lparr>pc_access_counter := new_time, pc_data := AList.update range_key (page, new_time) (pc_data c),
              pc_order := bt_insert new_time range_key order, pc_hits := pc_hits c + 1\<rparr>))"

text \<open>One turn of the eviction loop; with nothing in the order it changes nothing, and the loop does not end.\<close>

definition evict_oldest :: "page_cache \<Rightarrow> page_cache" where
  "evict_oldest c = (case pc_order c of
       [] \<Rightarrow> c
     | (oldest_time, oldest_range) # rest \<Rightarrow>
         let c = c\<lparr>pc_order := rest\<rparr>
         in (case map_of (pc_data c) oldest_range of
               None \<Rightarrow> c
             | Some (evicted, _) \<Rightarrow> c\<lparr>pc_data := AList.delete oldest_range (pc_data c),
                 pc_used_bytes := pc_used_bytes c - length evicted, pc_evictions := pc_evictions c + 1\<rparr>))"

partial_function (option) evict_loop :: "nat \<Rightarrow> page_cache \<Rightarrow> page_cache option" where
  "evict_loop needed c =
     (if pc_data c \<noteq> [] \<and> pc_used_bytes c + needed > pc_byte_cap c then evict_loop needed (evict_oldest c) else Some c)"

definition cache_put :: "page_cache \<Rightarrow> byte_range \<Rightarrow> str \<Rightarrow> page_cache option" where
  "cache_put c range_key bytes = do {
     let c = (case map_of (pc_data c) range_key of
         None \<Rightarrow> c
       | Some (old, old_time) \<Rightarrow> c\<lparr>pc_data := AList.delete range_key (pc_data c), pc_used_bytes := pc_used_bytes c - length old,
           pc_order := AList.delete old_time (pc_order c)\<rparr>);
     c \<leftarrow> evict_loop (length bytes) c;
     let time = pc_access_counter c + 1;
     Some (c\<lparr>pc_access_counter := time, pc_used_bytes := pc_used_bytes c + length bytes,
       pc_data := AList.update range_key (bytes, time) (pc_data c), pc_order := bt_insert time range_key (pc_order c),
       pc_misses := pc_misses c + 1\<rparr>) }"

record pager_metrics =
  pm_cache_hits :: nat
  pm_cache_misses :: nat
  pm_cache_evictions :: nat
  pm_cache_used_bytes :: nat
  pm_cache_byte_cap :: nat

definition cache_metrics :: "page_cache \<Rightarrow> pager_metrics" where
  "cache_metrics c = \<lparr>pm_cache_hits = pc_hits c, pm_cache_misses = pc_misses c, pm_cache_evictions = pc_evictions c,
     pm_cache_used_bytes = pc_used_bytes c, pm_cache_byte_cap = pc_byte_cap c\<rparr>"


section \<open>The pager\<close>

datatype io_kind = Interrupted | InvalidInput | WriteZero | Unsupported | OsError nat

type_synonym os_read = "nat \<Rightarrow> nat \<Rightarrow> io_kind + str"

record file_pager =
  fp_file_size :: nat
  fp_max_read_size :: nat
  fp_cancel_gen :: nat
  fp_cache :: page_cache

definition DEFAULT_MAX_READ_SIZE :: nat where
  "DEFAULT_MAX_READ_SIZE = 4 * 1024 * 1024"

definition DEFAULT_CACHE_BYTE_CAP :: nat where
  "DEFAULT_CACHE_BYTE_CAP = 64 * 1024 * 1024"

text \<open>Opening, of a file that has \<open>len\<close> bytes at that moment.\<close>

definition open_with_config :: "nat \<Rightarrow> nat \<Rightarrow> nat \<Rightarrow> file_pager" where
  "open_with_config len cache_byte_cap max_read_size = \<lparr>fp_file_size = len, fp_max_read_size = max_read_size,
     fp_cancel_gen = 0, fp_cache = cache_new cache_byte_cap\<rparr>"

definition pager_open :: "nat \<Rightarrow> file_pager" where
  "pager_open len = open_with_config len DEFAULT_CACHE_BYTE_CAP DEFAULT_MAX_READ_SIZE"

definition current_generation :: "file_pager \<Rightarrow> nat" where
  "current_generation fp = fp_cancel_gen fp"

definition invalidate :: "file_pager \<Rightarrow> nat \<times> file_pager" where
  "invalidate fp = (fp_cancel_gen fp + 1, fp\<lparr>fp_cancel_gen := fp_cancel_gen fp + 1\<rparr>)"

definition check_generation :: "file_pager \<Rightarrow> nat \<Rightarrow> io_kind option" where
  "check_generation fp token = (if token \<noteq> fp_cancel_gen fp then Some Interrupted else None)"

text \<open>A single read call, which may return fewer bytes than asked for.\<close>

definition pread_exact :: "os_read \<Rightarrow> nat \<Rightarrow> nat \<Rightarrow> io_kind + str" where
  "pread_exact rd offset len = rd offset len"

text \<open>\<open>bumps\<close> counts the calls of \<^verbatim>\<open>invalidate\<close> by other threads while the read is under way.\<close>

definition read_at :: "os_read \<Rightarrow> nat \<Rightarrow> file_pager \<Rightarrow> byte_range \<Rightarrow> nat \<Rightarrow> ((io_kind + str) \<times> file_pager) option" where
  "read_at rd bumps fp r token = (case check_generation fp token of
       Some e \<Rightarrow> Some (Inl e, fp)
     | None \<Rightarrow>
         let (start, stop) = r; len = stop - start
         in if len = 0 then Some (Inr [], fp)
            else if len > fp_max_read_size fp then Some (Inl InvalidInput, fp)
            else if stop > fp_file_size fp then Some (Inl InvalidInput, fp)
            else case cache_get (fp_cache fp) (start, stop) of
                (Some cached, c) \<Rightarrow> Some (Inr cached, fp\<lparr>fp_cache := c\<rparr>)
              | (None, c) \<Rightarrow>
                  (case pread_exact rd start len of
                     Inl e \<Rightarrow> Some (Inl e, fp\<lparr>fp_cancel_gen := fp_cancel_gen fp + bumps\<rparr>)
                   | Inr raw \<Rightarrow>
                       let fp = fp\<lparr>fp_cancel_gen := fp_cancel_gen fp + bumps\<rparr>
                       in case check_generation fp token of
                            Some e \<Rightarrow> Some (Inl e, fp)
                          | None \<Rightarrow> do {
                              c \<leftarrow> cache_put (fp_cache fp) (start, stop) raw;
                              Some (Inr raw, fp\<lparr>fp_cache := c\<rparr>) }))"

definition read_for_save :: "os_read \<Rightarrow> file_pager \<Rightarrow> byte_range \<Rightarrow> io_kind + str" where
  "read_for_save rd fp r =
     (let (start, stop) = r; len = stop - start
      in if len = 0 then Inr [] else if stop > fp_file_size fp then Inl InvalidInput else pread_exact rd start len)"

definition pager_metrics_of :: "file_pager \<Rightarrow> pager_metrics" where
  "pager_metrics_of fp = cache_metrics (fp_cache fp)"


section \<open>The cache is transparent and bounded\<close>

text \<open>An operating system that answers reads inside of the file in full.\<close>

locale full_reads =
  fixes disk :: str and rd :: os_read
  assumes read_full: "off + n \<le> length disk \<Longrightarrow> rd off n = Inr (slice disk off (off + n))"

definition disk_read :: "str \<Rightarrow> os_read" where
  "disk_read disk off n = Inr (slice disk off (off + n))"

interpretation disk_reads: full_reads disk "disk_read disk" for disk
  by unfold_locales (simp add: disk_read_def)

definition cache_ok :: "(byte_range \<Rightarrow> str) \<Rightarrow> page_cache \<Rightarrow> bool" where
  "cache_ok content c \<longleftrightarrow> distinct (map fst (pc_data c)) \<and> sorted_wrt (<) (map fst (pc_order c))
     \<and> (\<forall>x \<in> set (pc_order c). fst x \<le> pc_access_counter c)
     \<and> set (pc_order c) = (\<lambda>d. (snd (snd d), fst d)) ` set (pc_data c)
     \<and> (\<forall>d \<in> set (pc_data c). fst (snd d) = content (fst d))
     \<and> pc_used_bytes c = sum_list (map (\<lambda>d. length (fst (snd d))) (pc_data c))"

definition cache_bounded :: "page_cache \<Rightarrow> bool" where
  "cache_bounded c \<longleftrightarrow> pc_used_bytes c \<le> pc_byte_cap c \<or> length (pc_data c) \<le> 1"

lemma cache_new_ok: "cache_ok content (cache_new cap)" "cache_bounded (cache_new cap)"
  by (simp_all add: cache_ok_def cache_bounded_def cache_new_def)

lemma bt_insert_last:
  "(\<forall>x \<in> set xs. fst x < k) \<Longrightarrow> bt_insert k v xs = xs @ [(k, v)]"
  by (induction xs) (auto split: prod.splits)

lemma sum_delete:
  fixes al :: "('k \<times> 'v) list" and f :: "'v \<Rightarrow> nat"
  shows "distinct (map fst al) \<Longrightarrow> map_of al k = Some v \<Longrightarrow>
     sum_list (map (\<lambda>d. f (snd d)) al) = f v + sum_list (map (\<lambda>d. f (snd d)) (AList.delete k al))"
proof (induction al)
  case (Cons x al)
  obtain k' v' where x: "x = (k', v')" by (cases x)
  have "AList.delete k al = al" if "k' = k" using Cons.prems(1) that by (simp add: x delete_id)
  then show ?case using Cons by (auto simp: x)
qed simp

lemma update_fresh: "k \<notin> fst ` set al \<Longrightarrow> AList.update k v al = al @ [(k, v)]"
  by (induction al) auto

text \<open>Dropping an entry, and adding a fresh one that is the most recent.\<close>

lemma set_delete: "set (AList.delete k al) = {x \<in> set al. fst x \<noteq> k}"
  by (auto simp: AList.delete_eq)

lemma cache_drop:
  assumes ok: "cache_ok content c" and k: "map_of (pc_data c) k = Some (page, t)"
  shows "cache_ok content (c\<lparr>pc_data := AList.delete k (pc_data c), pc_used_bytes := pc_used_bytes c - length page,
      pc_order := AList.delete t (pc_order c), pc_evictions := n\<rparr>)" (is "cache_ok _ ?c")
proof -
  have h: "distinct (map fst (pc_data c))" "sorted_wrt (<) (map fst (pc_order c))"
    "set (pc_order c) = (\<lambda>d. (snd (snd d), fst d)) ` set (pc_data c)"
    using ok by (simp_all add: cache_ok_def)
  have dist: "distinct (map fst (pc_order c))" using strict_sorted_iff h(2) by blast
  have tk: "(t, k) \<in> set (pc_order c)" using h(3) map_of_SomeD [OF k] by force
  have "fst d = k \<longleftrightarrow> snd (snd d) = t" if "d \<in> set (pc_data c)" for d
  proof -
    have "(snd (snd d), fst d) \<in> set (pc_order c)" using h(3) that by force
    moreover have "map_of (pc_data c) (fst d) = Some (snd d)" using h(1) that by (simp add: prod.collapse)
    ultimately show ?thesis using dist tk k by (metis eq_key_imp_eq_value option.inject snd_conv)
  qed
  then have ord: "set (pc_order ?c) = (\<lambda>d. (snd (snd d), fst d)) ` set (pc_data ?c)"
    using h(3) by (force simp: set_delete)
  have bd: "\<forall>x \<in> set (pc_order ?c). fst x \<le> pc_access_counter c" using ok by (simp add: cache_ok_def set_delete)
  have "sorted_wrt (<) (map fst (pc_order ?c))" using h(2) by (simp add: AList.delete_eq sorted_wrt_map sorted_wrt_filter)
  moreover have "pc_used_bytes ?c = sum_list (map (\<lambda>d. length (fst (snd d))) (pc_data ?c))"
    using ok sum_delete [OF h(1) k, of "\<lambda>v. length (fst v)"] by (simp add: cache_ok_def)
  moreover have "\<forall>d \<in> set (pc_data ?c). fst (snd d) = content (fst d)" using ok by (simp add: cache_ok_def set_delete)
  ultimately show ?thesis using bd ord h(1) distinct_delete [of "pc_data c" k] unfolding cache_ok_def by simp
qed

lemma cache_add:
  assumes ok: "cache_ok content c" and k: "k \<notin> fst ` set (pc_data c)"
  shows "cache_ok content (c\<lparr>pc_access_counter := pc_access_counter c + 1, pc_used_bytes := pc_used_bytes c + length (content k),
      pc_data := AList.update k (content k, pc_access_counter c + 1) (pc_data c),
      pc_order := bt_insert (pc_access_counter c + 1) k (pc_order c), pc_misses := n\<rparr>)"
proof -
  have "bt_insert (pc_access_counter c + 1) k (pc_order c) = pc_order c @ [(pc_access_counter c + 1, k)]"
    by (rule bt_insert_last) (use ok in \<open>simp add: cache_ok_def less_Suc_eq_le\<close>)
  then show ?thesis using ok k by (simp add: cache_ok_def update_fresh sorted_wrt_append less_Suc_eq_le le_SucI)
qed

lemma evict_oldest_spec:
  assumes ok: "cache_ok content c" and ne: "pc_data c \<noteq> []"
  shows "cache_ok content (evict_oldest c)" "length (pc_data (evict_oldest c)) < length (pc_data c)"
    "pc_byte_cap (evict_oldest c) = pc_byte_cap c" "set (pc_data (evict_oldest c)) \<subseteq> set (pc_data c)"
proof -
  have h: "distinct (map fst (pc_data c))" "sorted_wrt (<) (map fst (pc_order c))"
    "set (pc_order c) = (\<lambda>d. (snd (snd d), fst d)) ` set (pc_data c)"
    using ok by (simp_all add: cache_ok_def)
  obtain t k rest where o: "pc_order c = (t, k) # rest" using h(3) ne by (cases "pc_order c") auto
  then have "(t, k) \<in> set (pc_order c)" by simp
  then have "(t, k) \<in> (\<lambda>d. (snd (snd d), fst d)) ` set (pc_data c)" unfolding h(3) .
  then obtain page where p: "(k, page, t) \<in> set (pc_data c)" by auto
  then have m: "map_of (pc_data c) k = Some (page, t)" using h(1) by simp
  have "t \<notin> fst ` set rest" using h(2) by (auto simp: o)
  then have rest: "rest = AList.delete t (pc_order c)" by (simp add: o delete_id)
  have eq: "evict_oldest c = c\<lparr>pc_data := AList.delete k (pc_data c), pc_used_bytes := pc_used_bytes c - length page,
      pc_order := AList.delete t (pc_order c), pc_evictions := pc_evictions c + 1\<rparr>"
    using m rest by (simp add: evict_oldest_def o)
  show "cache_ok content (evict_oldest c)" unfolding eq by (rule cache_drop [OF ok m])
  show "length (pc_data (evict_oldest c)) < length (pc_data c)"
    using p by (simp add: eq AList.delete_eq length_filter_less)
  show "pc_byte_cap (evict_oldest c) = pc_byte_cap c" "set (pc_data (evict_oldest c)) \<subseteq> set (pc_data c)"
    by (auto simp: eq set_delete)
qed

text \<open>The loop ends, with enough room or with nothing left.\<close>

lemma evict_loop_spec:
  assumes "cache_ok content c"
  shows "\<exists>c'. evict_loop n c = Some c' \<and> cache_ok content c' \<and> pc_byte_cap c' = pc_byte_cap c \<and> set (pc_data c') \<subseteq> set (pc_data c)
    \<and> (pc_used_bytes c' + n \<le> pc_byte_cap c \<or> pc_data c' = [])"
  using assms
proof (induction "length (pc_data c)" arbitrary: c rule: less_induct)
  case less
  show ?case
  proof (cases "pc_data c \<noteq> [] \<and> pc_used_bytes c + n > pc_byte_cap c")
    case True
    have "pc_data c \<noteq> []" using True by simp
    note e = evict_oldest_spec [OF less.prems this]
    show ?thesis using less.hyps [OF e(2,1)] e True by (subst evict_loop.simps) auto
  next
    case False
    then show ?thesis using less.prems by (subst evict_loop.simps) auto
  qed
qed

lemma update_mset:
  "distinct (map fst al) \<Longrightarrow> k \<in> fst ` set al \<Longrightarrow> mset (AList.update k w al) = mset (AList.delete k al @ [(k, w)])"
proof (induction al)
  case (Cons x al)
  show ?case
  proof (cases "fst x = k")
    case True
    then have "AList.delete k al = al" using Cons.prems(1) by (simp add: delete_id)
    then show ?thesis using True by (cases x) simp
  qed (use Cons in \<open>cases x; auto\<close>)
qed simp

lemma cache_ok_mset:
  assumes "mset (pc_data c') = mset (pc_data c)" "pc_order c' = pc_order c" "pc_access_counter c' = pc_access_counter c"
    "pc_used_bytes c' = pc_used_bytes c"
  shows "cache_ok content c' \<longleftrightarrow> cache_ok content c"
proof -
  have "distinct (map fst (pc_data c')) \<longleftrightarrow> distinct (map fst (pc_data c))"
    using assms(1) by (metis mset_eq_imp_distinct_iff mset_map)
  moreover have "set (pc_data c') = set (pc_data c)" using assms(1) by (metis set_mset_mset)
  moreover have "sum_list (map (\<lambda>d. length (fst (snd d))) (pc_data c')) = sum_list (map (\<lambda>d. length (fst (snd d))) (pc_data c))"
    using arg_cong [OF assms(1), of "\<lambda>M. sum_mset (image_mset (\<lambda>d. length (fst (snd d))) M)"]
    by (simp add: sum_mset_sum_list flip: mset_map)
  ultimately show ?thesis using assms(2-4) by (simp add: cache_ok_def)
qed

lemma cache_get_spec:
  assumes ok: "cache_ok content c" and b: "cache_bounded c"
  shows "case cache_get c k of
      (None, c') \<Rightarrow> k \<notin> fst ` set (pc_data c) \<and> c' = c
    | (Some page, c') \<Rightarrow> page = content k \<and> cache_ok content c' \<and> cache_bounded c' \<and> pc_byte_cap c' = pc_byte_cap c"
proof (cases "map_of (pc_data c) k")
  case None
  then have "k \<notin> fst ` set (pc_data c)" by (simp add: map_of_eq_None_iff)
  then show ?thesis by (simp add: cache_get_def None)
next
  case (Some v)
  obtain page t where v: "v = (page, t)" by (cases v)
  have d: "(k, page, t) \<in> set (pc_data c)" using Some v map_of_SomeD by metis
  have pg: "page = content k" using ok bspec [of "set (pc_data c)" _ "(k, page, t)"] d by (auto simp: cache_ok_def)
  have dist: "distinct (map fst (pc_data c))" using ok by (simp add: cache_ok_def)
  define c1 where "c1 = c\<lparr>pc_data := AList.delete k (pc_data c), pc_used_bytes := pc_used_bytes c - length page,
    pc_order := AList.delete t (pc_order c), pc_evictions := pc_evictions c\<rparr>"
  have c1: "cache_ok content c1" unfolding c1_def by (rule cache_drop [OF ok Some [unfolded v]])
  have used: "pc_used_bytes c1 + length page = pc_used_bytes c"
    using ok sum_delete [OF dist Some [unfolded v], of "\<lambda>v. length (fst v)"] by (simp add: cache_ok_def c1_def)
  have k: "k \<notin> fst ` set (pc_data c1)" by (auto simp: c1_def set_delete)
  define c' where "c' = c\<lparr>pc_access_counter := pc_access_counter c + 1, pc_data := AList.update k (page, pc_access_counter c + 1) (pc_data c),
    pc_order := bt_insert (pc_access_counter c + 1) k (AList.delete t (pc_order c)), pc_hits := pc_hits c + 1\<rparr>"
  have m: "mset (AList.update k w (pc_data c)) = mset (AList.update k w (AList.delete k (pc_data c)))" for w
    using update_mset [OF dist, of k w] d k by (force simp: update_fresh c1_def)
  have "cache_ok content c'"
    using cache_add [OF c1 k, of 0] cache_ok_mset [of c' "c1\<lparr>pc_access_counter := pc_access_counter c1 + 1,
      pc_used_bytes := pc_used_bytes c1 + length (content k), pc_data := AList.update k (content k, pc_access_counter c1 + 1) (pc_data c1),
      pc_order := bt_insert (pc_access_counter c1 + 1) k (pc_order c1), pc_misses := 0\<rparr>"] m used
    by (simp add: c1_def c'_def pg [symmetric])
  moreover have "cache_get c k = (Some page, c')" by (simp add: cache_get_def Some v c'_def)
  moreover have "length (pc_data c') = length (pc_data c)"
    using arg_cong [OF update_keys [of k "(page, pc_access_counter c + 1)" "pc_data c"], of length] d by (force simp: c'_def)
  ultimately show ?thesis using b by (simp add: cache_bounded_def c'_def pg)
qed

lemma cache_put_spec:
  assumes ok: "cache_ok content c"
  shows "\<exists>c'. cache_put c k (content k) = Some c' \<and> cache_ok content c' \<and> cache_bounded c' \<and> pc_byte_cap c' = pc_byte_cap c
    \<and> k \<in> fst ` set (pc_data c')"
proof -
  define c1 where "c1 = (case map_of (pc_data c) k of
         None \<Rightarrow> c
       | Some (old, old_time) \<Rightarrow> c\<lparr>pc_data := AList.delete k (pc_data c), pc_used_bytes := pc_used_bytes c - length old,
           pc_order := AList.delete old_time (pc_order c)\<rparr>)"
  have c1: "cache_ok content c1" "k \<notin> fst ` set (pc_data c1)" "pc_byte_cap c1 = pc_byte_cap c"
    using ok cache_drop [OF ok, of k _ _ "pc_evictions c"]
    by (auto simp: c1_def set_delete map_of_eq_None_iff split: option.split)
  obtain c2 where c2: "evict_loop (length (content k)) c1 = Some c2" "cache_ok content c2" "pc_byte_cap c2 = pc_byte_cap c1"
    "set (pc_data c2) \<subseteq> set (pc_data c1)" "pc_used_bytes c2 + length (content k) \<le> pc_byte_cap c1 \<or> pc_data c2 = []"
    using evict_loop_spec [OF c1(1)] by blast
  have k2: "k \<notin> fst ` set (pc_data c2)" using c1(2) c2(4) by blast
  let ?c = "c2\<lparr>pc_access_counter := pc_access_counter c2 + 1, pc_used_bytes := pc_used_bytes c2 + length (content k),
     pc_data := AList.update k (content k, pc_access_counter c2 + 1) (pc_data c2),
     pc_order := bt_insert (pc_access_counter c2 + 1) k (pc_order c2), pc_misses := pc_misses c2 + 1\<rparr>"
  have "cache_put c k (content k) = Some ?c" unfolding cache_put_def c1_def [symmetric] by (simp add: c2(1) Let_def)
  moreover have "cache_ok content ?c" by (rule cache_add [OF c2(2) k2])
  moreover have "cache_bounded ?c" using c2(3,5) by (auto simp: cache_bounded_def)
  moreover have "k \<in> fst ` set (pc_data ?c)" by (simp add: dom_update)
  ultimately show ?thesis using c1(3) c2(3) by auto
qed

definition pager_ok :: "str \<Rightarrow> file_pager \<Rightarrow> bool" where
  "pager_ok disk fp \<longleftrightarrow> cache_ok (\<lambda>(b, e). slice disk b e) (fp_cache fp) \<and> cache_bounded (fp_cache fp) \<and> fp_file_size fp = length disk"

lemma pager_open_ok: "pager_ok disk (open_with_config (length disk) cap mx)"
  by (simp add: pager_ok_def open_with_config_def cache_new_ok)

text \<open>
  A read with a current token returns the bytes of the file, whatever was read and dropped before; only a request
  that is too long or out of range, or an invalidation, is refused.
\<close>

definition read_result :: "str \<Rightarrow> nat \<Rightarrow> file_pager \<Rightarrow> byte_range \<Rightarrow> nat \<Rightarrow> io_kind + str \<Rightarrow> bool" where
  "read_result disk bumps fp r token res \<longleftrightarrow> (if token \<noteq> fp_cancel_gen fp then res = Inl Interrupted
     else if snd r \<le> fst r then res = Inr []
     else if snd r - fst r > fp_max_read_size fp \<or> snd r > length disk then res = Inl InvalidInput
     else res = Inr (slice disk (fst r) (snd r)) \<or> (0 < bumps \<and> res = Inl Interrupted))"

context full_reads
begin

lemma read_at_spec:
  assumes "pager_ok disk fp"
  shows "\<exists>res fp'. read_at rd bumps fp r token = Some (res, fp') \<and> pager_ok disk fp' \<and> read_result disk bumps fp r token res
    \<and> fp_max_read_size fp' = fp_max_read_size fp \<and> fp_cancel_gen fp' \<in> {fp_cancel_gen fp, fp_cancel_gen fp + bumps}
    \<and> pc_byte_cap (fp_cache fp') = pc_byte_cap (fp_cache fp)"
proof -
  obtain b e where r: "r = (b, e)" by (cases r)
  have ok: "cache_ok (\<lambda>(b, e). slice disk b e) (fp_cache fp)" "cache_bounded (fp_cache fp)" "fp_file_size fp = length disk"
    using assms by (simp_all add: pager_ok_def)
  show ?thesis
  proof (cases "token = fp_cancel_gen fp \<and> b < e \<and> e - b \<le> fp_max_read_size fp \<and> e \<le> length disk")
    case False
    then show ?thesis using assms ok(3)
      by (auto simp: r read_at_def check_generation_def read_result_def Let_def pager_ok_def not_le)
  next
    case t: True
    note get = cache_get_spec [OF ok(1,2), of "(b, e)"]
    obtain c where put: "cache_put (fp_cache fp) (b, e) (slice disk b e) = Some c" "cache_ok (\<lambda>(b, e). slice disk b e) c" "cache_bounded c"
      "pc_byte_cap c = pc_byte_cap (fp_cache fp)"
      using cache_put_spec [OF ok(1), of "(b, e)"] by auto
    have "rd b (e - b) = Inr (slice disk b e)" using read_full [of b "e - b"] t by simp
    then show ?thesis using t ok put get
      by (cases "cache_get (fp_cache fp) (b, e)"; cases "fst (cache_get (fp_cache fp) (b, e))"; cases "bumps = 0")
        (auto simp: r read_at_def check_generation_def read_result_def pager_ok_def pread_exact_def Let_def)
  qed
qed

lemma read_for_save_spec:
  assumes "fp_file_size fp = length disk" "b \<le> e" "e \<le> length disk"
  shows "read_for_save rd fp (b, e) = Inr (slice disk b e)"
  using assms read_full [of b "e - b"] by (auto simp: read_for_save_def pread_exact_def)

end

section \<open>Runs of the pager\<close>

text \<open>What a client does with a pager: reads, with any tokens, and invalidations.\<close>

inductive pager_run :: "os_read \<Rightarrow> nat \<Rightarrow> nat \<Rightarrow> nat \<Rightarrow> file_pager \<Rightarrow> bool" for rd len cap mx where
  run_open: "pager_run rd len cap mx (open_with_config len cap mx)"
| run_read: "pager_run rd len cap mx fp \<Longrightarrow> read_at rd bumps fp r token = Some (res, fp') \<Longrightarrow> pager_run rd len cap mx fp'"
| run_invalidate: "pager_run rd len cap mx fp \<Longrightarrow> pager_run rd len cap mx (snd (invalidate fp))"

lemma pager_run_ok:
  assumes "full_reads disk rd"
  shows "pager_run rd (length disk) cap mx fp \<Longrightarrow> pager_ok disk fp \<and> fp_max_read_size fp = mx \<and> pc_byte_cap (fp_cache fp) = cap"
proof (induction rule: pager_run.induct)
  case run_open
  then show ?case using pager_open_ok [of disk cap mx] by (simp add: open_with_config_def cache_new_def)
next
  case (run_read fp bumps r token res fp')
  then show ?case using full_reads.read_at_spec [OF assms, of fp bumps r token] by auto
next
  case (run_invalidate fp)
  then show ?case by (simp add: invalidate_def pager_ok_def)
qed

end
