(* ===== verification/Core_Save.thy ===== *)
theory Core_Save
  imports Core_Overlay_Laws Core_Pager
begin

text \<open>
  Saving a very large file, from \<^verbatim>\<open>xi-core-lib/src/vlf/save.rs\<close>: the pieces are streamed to a temporary file that is
  renamed, or only the changed window of the file is rewritten in place.  Files are byte strings under paths.  What
  the operating system does is a parameter: which operation fails and how much of a write it has done by then, how
  many bytes one read or write call moves, which file a path leads to, and what the caller answers to a report of
  progress.  Operations are numbered in the order in which they are done.
\<close>

section \<open>Files and the operating system\<close>

text \<open>A path is a directory and a file name.\<close>

type_synonym dir = "string list"

type_synonym path = "dir \<times> string"

record sys =
  sys_fault :: "nat \<Rightarrow> nat option"
  sys_read_limit :: "nat \<Rightarrow> nat"
  sys_write_limit :: "nat \<Rightarrow> nat"
  sys_canonical :: "path \<Rightarrow> path option"
  sys_answer :: "nat \<Rightarrow> bool"

record save_env =
  se_files :: "path \<Rightarrow> str option"
  se_ops :: nat
  se_log :: "(nat \<times> nat) list"

definition tick :: "save_env \<Rightarrow> save_env" where
  "tick env = env\<lparr>se_ops := se_ops env + 1\<rparr>"

definition failing :: "sys \<Rightarrow> save_env \<Rightarrow> bool" where
  "failing os env \<longleftrightarrow> sys_fault os (se_ops env) \<noteq> None"

definition fault_kind :: "save_env \<Rightarrow> io_kind" where
  "fault_kind env = OsError (se_ops env)"

definition put_file :: "path \<Rightarrow> str \<Rightarrow> save_env \<Rightarrow> save_env" where
  "put_file p s env = env\<lparr>se_files := (se_files env)(p \<mapsto> s)\<rparr>"

definition fs_create :: "sys \<Rightarrow> path \<Rightarrow> save_env \<Rightarrow> (io_kind + unit) \<times> save_env" where
  "fs_create os p env = (if failing os env then (Inl (fault_kind env), tick env) else (Inr (), tick (put_file p [] env)))"

definition fs_write_all :: "sys \<Rightarrow> path \<Rightarrow> str \<Rightarrow> save_env \<Rightarrow> (io_kind + unit) \<times> save_env" where
  "fs_write_all os p s env = (case se_files env p of
       None \<Rightarrow> (Inl (fault_kind env), tick env)
     | Some old \<Rightarrow> (case sys_fault os (se_ops env) of
           Some k \<Rightarrow> (Inl (fault_kind env), tick (put_file p (old @ take k s) env))
         | None \<Rightarrow> (Inr (), tick (put_file p (old @ s) env))))"

definition fs_sync_all :: "sys \<Rightarrow> save_env \<Rightarrow> (io_kind + unit) \<times> save_env" where
  "fs_sync_all os env = (if failing os env then (Inl (fault_kind env), tick env) else (Inr (), tick env))"

definition fs_rename :: "sys \<Rightarrow> path \<Rightarrow> path \<Rightarrow> save_env \<Rightarrow> (io_kind + unit) \<times> save_env" where
  "fs_rename os p q env = (case se_files env p of
       None \<Rightarrow> (Inl (fault_kind env), tick env)
     | Some s \<Rightarrow> if failing os env then (Inl (fault_kind env), tick env)
         else (Inr (), tick (env\<lparr>se_files := (se_files env)(p := None, q \<mapsto> s)\<rparr>)))"

definition fs_remove :: "sys \<Rightarrow> path \<Rightarrow> save_env \<Rightarrow> save_env" where
  "fs_remove os p env = (if failing os env then tick env else tick (env\<lparr>se_files := (se_files env)(p := None)\<rparr>))"

text \<open>Opening follows links: the handle is the file itself.\<close>

definition fs_open :: "sys \<Rightarrow> path \<Rightarrow> save_env \<Rightarrow> (io_kind + path) \<times> save_env" where
  "fs_open os p env = (let q = (case sys_canonical os p of None \<Rightarrow> p | Some q \<Rightarrow> q)
     in if failing os env \<or> se_files env q = None then (Inl (fault_kind env), tick env) else (Inr q, tick env))"

definition fs_set_len :: "sys \<Rightarrow> path \<Rightarrow> nat \<Rightarrow> save_env \<Rightarrow> (io_kind + unit) \<times> save_env" where
  "fs_set_len os p n env = (case se_files env p of
       None \<Rightarrow> (Inl (fault_kind env), tick env)
     | Some s \<Rightarrow> if failing os env then (Inl (fault_kind env), tick env)
         else (Inr (), tick (put_file p (take n s @ replicate (n - length s) 0) env)))"

text \<open>One positioned read, and one positioned write with the number of bytes it has moved.\<close>

definition fs_read :: "sys \<Rightarrow> path \<Rightarrow> save_env \<Rightarrow> os_read" where
  "fs_read os p env off n = (case se_files env p of
       None \<Rightarrow> Inl (fault_kind env)
     | Some s \<Rightarrow> if failing os env then Inl (fault_kind env)
         else Inr (take (sys_read_limit os (se_ops env)) (slice s off (off + n))))"

definition write_bytes :: "str \<Rightarrow> nat \<Rightarrow> str \<Rightarrow> str" where
  "write_bytes s off bs = take off (s @ replicate (off - length s) 0) @ bs @ drop (off + length bs) s"

definition fs_write_at :: "sys \<Rightarrow> path \<Rightarrow> str \<Rightarrow> nat \<Rightarrow> save_env \<Rightarrow> (io_kind + nat) \<times> save_env" where
  "fs_write_at os p bs off env = (case se_files env p of
       None \<Rightarrow> (Inl (fault_kind env), tick env)
     | Some s \<Rightarrow> if failing os env then (Inl (fault_kind env), tick env)
         else let n = min (sys_write_limit os (se_ops env)) (length bs)
              in (Inr n, tick (put_file p (write_bytes s off (take n bs)) env)))"

definition report :: "sys \<Rightarrow> nat \<times> nat \<Rightarrow> save_env \<Rightarrow> bool \<times> save_env" where
  "report os progress env = (sys_answer os (length (se_log env)), env\<lparr>se_log := se_log env @ [progress]\<rparr>)"


section \<open>Sources, policies and the plan\<close>

datatype save_error = SaveIo io_kind path | Cancelled | EditingNotEnabled | InvalidPolicy

datatype save_policy =
    TempFileRewrite "dir option"
  | SameSizeInPlaceOverwrite
  | TailShift "dir option"
  | SaveAs path

text \<open>The trait \<^verbatim>\<open>SavePieceSource\<close> and its two implementations.\<close>

record save_source =
  src_pieces :: "piece list"
  src_total_bytes :: nat
  src_original_len :: nat
  src_inserted :: "piece \<Rightarrow> str option"

definition overlay_source :: "piece_overlay \<Rightarrow> save_source" where
  "overlay_source ov = \<lparr>src_pieces = ov_pieces ov, src_total_bytes = ov_total_byte_len ov,
     src_original_len = ov_original_file_byte_len ov, src_inserted = inserted_bytes_for_piece ov\<rparr>"

definition snapshot_source :: "save_snapshot \<Rightarrow> save_source" where
  "snapshot_source sn = \<lparr>src_pieces = sn_pieces sn, src_total_bytes = sn_total_bytes sn,
     src_original_len = sn_original_file_byte_len sn, src_inserted = snapshot_bytes_for_piece sn\<rparr>"

definition SAVE_CHUNK_BYTES :: nat where
  "SAVE_CHUNK_BYTES = 1024 * 1024"

definition IN_PLACE_MAX_BYTES :: nat where
  "IN_PLACE_MAX_BYTES = 64 * 1024 * 1024"

definition source_byte_delta :: "save_source \<Rightarrow> int" where
  "source_byte_delta src = int (src_total_bytes src) - int (src_original_len src)"

fun prefix_loop :: "nat \<Rightarrow> piece list \<Rightarrow> nat" where
  "prefix_loop logical (Original (s, e) m # ps) = (if s = logical then prefix_loop (logical + range_len (s, e)) ps else logical)"
| "prefix_loop logical _ = logical"

definition common_original_prefix_len :: "piece list \<Rightarrow> nat" where
  "common_original_prefix_len ps = prefix_loop 0 ps"

fun suffix_loop :: "nat \<Rightarrow> nat \<Rightarrow> nat \<Rightarrow> piece list \<Rightarrow> nat" where
  "suffix_loop original_end logical_end suffix_len (Original (s, e) m # ps) =
     (if e = original_end then
        if range_len (s, e) > logical_end then suffix_len
        else suffix_loop s (logical_end - range_len (s, e)) (suffix_len + range_len (s, e)) ps
      else suffix_len)"
| "suffix_loop original_end logical_end suffix_len _ = suffix_len"

definition common_original_suffix_len :: "piece list \<Rightarrow> nat \<Rightarrow> nat \<Rightarrow> nat" where
  "common_original_suffix_len ps old_len new_len = suffix_loop old_len new_len 0 (rev ps)"

record optimization_plan =
  pl_prefix_len :: nat
  pl_old_suffix_start :: nat
  pl_new_suffix_start :: nat
  pl_old_len :: nat

definition plan_for_source :: "save_source \<Rightarrow> optimization_plan option" where
  "plan_for_source src = do {
     let old_len = src_original_len src;
     let new_len = src_total_bytes src;
     let prefix_len = common_original_prefix_len (src_pieces src);
     let suffix_len = min (min (common_original_suffix_len (src_pieces src) old_len new_len) (old_len - prefix_len)) (new_len - prefix_len);
     old_suffix_start \<leftarrow> usize_sub old_len suffix_len;
     new_suffix_start \<leftarrow> usize_sub new_len suffix_len;
     Some \<lparr>pl_prefix_len = prefix_len, pl_old_suffix_start = old_suffix_start, pl_new_suffix_start = new_suffix_start,
       pl_old_len = old_len\<rparr> }"

definition new_changed_range :: "optimization_plan \<Rightarrow> byte_range" where
  "new_changed_range pl = (pl_prefix_len pl, pl_new_suffix_start pl)"

definition new_changed_len :: "optimization_plan \<Rightarrow> nat" where
  "new_changed_len pl = pl_new_suffix_start pl - pl_prefix_len pl"

definition same_canonical_path :: "sys \<Rightarrow> path \<Rightarrow> path \<Rightarrow> bool" where
  "same_canonical_path os lhs rhs \<longleftrightarrow> sys_canonical os lhs = Some rhs"

definition validated_policy :: "sys \<Rightarrow> save_source \<Rightarrow> path \<Rightarrow> path \<Rightarrow> save_policy \<Rightarrow> save_policy" where
  "validated_policy os src pager_path dest policy = (case policy of
       TempFileRewrite temp_dir \<Rightarrow> TempFileRewrite temp_dir
     | SaveAs path \<Rightarrow> SaveAs path
     | SameSizeInPlaceOverwrite \<Rightarrow>
         if source_byte_delta src = 0 \<and> same_canonical_path os dest pager_path then SameSizeInPlaceOverwrite
         else TempFileRewrite None
     | TailShift fallback \<Rightarrow>
         if source_byte_delta src \<noteq> 0 \<and> same_canonical_path os dest pager_path then TailShift fallback
         else TempFileRewrite fallback)"


definition LARGE_REWRITE_THRESHOLD_BYTES :: nat where
  "LARGE_REWRITE_THRESHOLD_BYTES = 512 * 1024 * 1024"

text \<open>
  The policy that an overlay suggests.  The fraction of changed bytes is compared in floating point; below \<open>2 ^ 50\<close> bytes
  the rounded quotient is greater than the rounded tenth exactly when the quotient is greater than a tenth.
\<close>

definition suggested_save_policy :: "piece_overlay \<Rightarrow> save_policy" where
  "suggested_save_policy ov =
     (let delta = nat (abs (signed_byte_delta ov));
          is_large = (ov_original_file_byte_len ov \<ge> LARGE_REWRITE_THRESHOLD_BYTES)
      in if is_large \<and> 10 * delta > ov_original_file_byte_len ov then SaveAs ([], ''<save-as-required>'')
         else if signed_byte_delta ov = 0 then SameSizeInPlaceOverwrite
         else TailShift None)"


section \<open>The temporary file\<close>

text \<open>\<^verbatim>\<open>Path::extension\<close> and \<^verbatim>\<open>Path::with_extension\<close> on a file name: a dot at the very start does not begin an extension.\<close>

definition ext_of :: "string \<Rightarrow> string option" where
  "ext_of name = (let e = rev (takeWhile (\<lambda>c. c \<noteq> CHR ''.'') (rev name))
     in if length e + 1 < length name then Some e else None)"

definition stem_of :: "string \<Rightarrow> string" where
  "stem_of name = (case ext_of name of None \<Rightarrow> name | Some e \<Rightarrow> take (length name - length e - 1) name)"

definition with_extension :: "string \<Rightarrow> string \<Rightarrow> string" where
  "with_extension name e = stem_of name @ ''.'' @ e"

definition build_temp_path :: "path \<Rightarrow> dir \<Rightarrow> path" where
  "build_temp_path dest temp_dir =
     (let tmp_extension = (case ext_of (snd dest) of None \<Rightarrow> ''swp'' | Some e \<Rightarrow> e @ ''.swp'')
      in (temp_dir, with_extension (snd dest) tmp_extension))"

text \<open>A read of the pager for the save; \<open>src\<close> is the path of its file.\<close>

definition pager_read :: "sys \<Rightarrow> path \<Rightarrow> file_pager \<Rightarrow> byte_range \<Rightarrow> save_env \<Rightarrow> (io_kind + str) \<times> save_env" where
  "pager_read os src fp r env = (read_for_save (fs_read os src env) fp r, tick env)"

function write_original_piece ::
    "sys \<Rightarrow> path \<Rightarrow> file_pager \<Rightarrow> path \<Rightarrow> nat \<Rightarrow> nat \<Rightarrow> nat \<Rightarrow> nat \<Rightarrow> save_env \<Rightarrow> (save_error + nat) \<times> save_env" where
  "write_original_piece os src fp temp_path total_bytes stop pos bytes_written env =
     (if pos < stop then
        let chunk_end = min (pos + SAVE_CHUNK_BYTES) stop
        in case pager_read os src fp (pos, chunk_end) env of
             (Inl e, env) \<Rightarrow> (Inl (SaveIo e temp_path), env)
           | (Inr raw, env) \<Rightarrow>
               (case fs_write_all os temp_path raw env of
                  (Inl e, env) \<Rightarrow> (Inl (SaveIo e temp_path), env)
                | (Inr _, env) \<Rightarrow>
                    (case report os (bytes_written + length raw, total_bytes) env of
                       (False, env) \<Rightarrow> (Inl Cancelled, env)
                     | (True, env) \<Rightarrow> write_original_piece os src fp temp_path total_bytes stop chunk_end (bytes_written + length raw) env))
      else (Inr bytes_written, env))"
  by pat_completeness auto
termination
  by (relation "measure (\<lambda>(os, src, fp, tp, total, stop, pos, w, env). stop - pos)") (auto simp: SAVE_CHUNK_BYTES_def)

declare write_original_piece.simps [simp del]

fun write_pieces ::
    "sys \<Rightarrow> save_source \<Rightarrow> path \<Rightarrow> file_pager \<Rightarrow> path \<Rightarrow> piece list \<Rightarrow> nat \<Rightarrow> save_env \<Rightarrow> ((save_error + nat) \<times> save_env) option" where
  "write_pieces os source src fp temp_path [] bytes_written env = Some (Inr bytes_written, env)"
| "write_pieces os source src fp temp_path (p # ps) bytes_written env = (case p of
       Original r m \<Rightarrow>
         (case write_original_piece os src fp temp_path (src_total_bytes source) (snd r) (fst r) bytes_written env of
            (Inl e, env) \<Rightarrow> Some (Inl e, env)
          | (Inr n, env) \<Rightarrow> write_pieces os source src fp temp_path ps n env)
     | Inserted _ _ _ \<Rightarrow> do {
         bytes \<leftarrow> src_inserted source p;
         case fs_write_all os temp_path bytes env of
           (Inl e, env) \<Rightarrow> Some (Inl (SaveIo e temp_path), env)
         | (Inr _, env) \<Rightarrow>
             (case report os (bytes_written + length bytes, src_total_bytes source) env of
                (False, env) \<Rightarrow> Some (Inl Cancelled, env)
              | (True, env) \<Rightarrow> write_pieces os source src fp temp_path ps (bytes_written + length bytes) env) })"

definition write_temp_file ::
    "sys \<Rightarrow> save_source \<Rightarrow> path \<Rightarrow> file_pager \<Rightarrow> path \<Rightarrow> path \<Rightarrow> save_env \<Rightarrow> ((save_error + unit) \<times> save_env) option" where
  "write_temp_file os source src fp temp_path final_dest env = (case fs_create os temp_path env of
       (Inl e, env) \<Rightarrow> Some (Inl (SaveIo e temp_path), env)
     | (Inr _, env) \<Rightarrow> do {
         r \<leftarrow> write_pieces os source src fp temp_path (src_pieces source) 0 env;
         case r of
           (Inl e, env) \<Rightarrow> Some (Inl e, env)
         | (Inr _, env) \<Rightarrow>
             (case fs_sync_all os env of
                (Inl e, env) \<Rightarrow> Some (Inl (SaveIo e temp_path), env)
              | (Inr _, env) \<Rightarrow>
                  (case fs_rename os temp_path final_dest env of
                     (Inl e, env) \<Rightarrow> Some (Inl (SaveIo e final_dest), env)
                   | (Inr _, env) \<Rightarrow> Some (Inr (), snd (fs_sync_all os env)))) })"

text \<open>An error removes the temporary file, as far as that succeeds.\<close>

definition stream_save_temp_file ::
    "sys \<Rightarrow> save_source \<Rightarrow> path \<Rightarrow> file_pager \<Rightarrow> path \<Rightarrow> dir option \<Rightarrow> save_env \<Rightarrow> ((save_error + unit) \<times> save_env) option" where
  "stream_save_temp_file os source src fp final_dest requested_temp_dir env = do {
     let temp_dir = (case requested_temp_dir of None \<Rightarrow> fst final_dest | Some d \<Rightarrow> d);
     let temp_path = build_temp_path final_dest temp_dir;
     r \<leftarrow> write_temp_file os source src fp temp_path final_dest env;
     case r of
       (Inl e, env) \<Rightarrow> Some (Inl e, fs_remove os temp_path env)
     | (Inr _, env) \<Rightarrow> Some (Inr (), env) }"


section \<open>Rewriting in place\<close>

fun collect_loop ::
    "sys \<Rightarrow> save_source \<Rightarrow> path \<Rightarrow> file_pager \<Rightarrow> byte_range \<Rightarrow> piece list \<Rightarrow> nat \<Rightarrow> str \<Rightarrow> save_env \<Rightarrow> ((save_error + str) \<times> save_env) option" where
  "collect_loop os source src fp r [] logical_start out env = Some (Inr out, env)"
| "collect_loop os source src fp r (p # ps) logical_start out env =
     (let logical_end = logical_start + piece_byte_len p
      in if logical_end \<le> fst r then collect_loop os source src fp r ps logical_end out env
         else if logical_start \<ge> snd r then Some (Inr out, env)
         else
           let overlap_start = max logical_start (fst r); overlap_end = min logical_end (snd r);
               piece_offset = overlap_start - logical_start; overlap_len = overlap_end - overlap_start
           in case p of
                Original q _ \<Rightarrow>
                  (case pager_read os src fp (fst q + piece_offset, fst q + piece_offset + overlap_len) env of
                     (Inl e, env) \<Rightarrow> Some (Inl (SaveIo e src), env)
                   | (Inr bytes, env) \<Rightarrow> collect_loop os source src fp r ps logical_end (out @ bytes) env)
              | Inserted _ insert_range _ \<Rightarrow> do {
                  bytes \<leftarrow> src_inserted source p;
                  rassert (length bytes = range_len insert_range);
                  part \<leftarrow> bytes_slice bytes piece_offset (piece_offset + overlap_len);
                  collect_loop os source src fp r ps logical_end (out @ part) env })"

definition collect_logical_range_bytes ::
    "sys \<Rightarrow> save_source \<Rightarrow> path \<Rightarrow> file_pager \<Rightarrow> byte_range \<Rightarrow> save_env \<Rightarrow> ((save_error + str) \<times> save_env) option" where
  "collect_logical_range_bytes os source src fp r env =
     (if range_len r > IN_PLACE_MAX_BYTES then Some (Inl InvalidPolicy, env)
      else collect_loop os source src fp r (src_pieces source) 0 [] env)"

function pwrite_all :: "sys \<Rightarrow> path \<Rightarrow> nat \<Rightarrow> str \<Rightarrow> save_env \<Rightarrow> (io_kind + unit) \<times> save_env" where
  "pwrite_all os p offset bytes env =
     (if bytes = [] then (Inr (), env)
      else case fs_write_at os p bytes offset env of
             (Inl e, env) \<Rightarrow> (Inl e, env)
           | (Inr written, env) \<Rightarrow>
               if written = 0 then (Inl WriteZero, env)
               else pwrite_all os p (offset + written) (drop written bytes) env)"
  by pat_completeness auto
termination
  by (relation "measure (\<lambda>(os, p, off, bytes, env). length bytes)") auto

function shift_tail_right :: "sys \<Rightarrow> path \<Rightarrow> path \<Rightarrow> nat \<Rightarrow> nat \<Rightarrow> nat \<Rightarrow> save_env \<Rightarrow> (save_error + unit) \<times> save_env" where
  "shift_tail_right os f path tail_start delta stop env =
     (if stop > tail_start then
        let start = max (stop - SAVE_CHUNK_BYTES) tail_start
        in case pread_exact (fs_read os f env) start (stop - start) of
             Inl e \<Rightarrow> (Inl (SaveIo e path), tick env)
           | Inr bytes \<Rightarrow>
               (case pwrite_all os f (start + delta) bytes (tick env) of
                  (Inl e, env) \<Rightarrow> (Inl (SaveIo e path), env)
                | (Inr _, env) \<Rightarrow> shift_tail_right os f path tail_start delta start env)
      else (Inr (), env))"
  by pat_completeness auto
termination
  by (relation "measure (\<lambda>(os, f, path, tail_start, delta, stop, env). stop - tail_start)") (auto simp: SAVE_CHUNK_BYTES_def)

function shift_tail_left :: "sys \<Rightarrow> path \<Rightarrow> path \<Rightarrow> nat \<Rightarrow> nat \<Rightarrow> nat \<Rightarrow> save_env \<Rightarrow> ((save_error + unit) \<times> save_env) option" where
  "shift_tail_left os f path old_len delta start env =
     (if start < old_len then
        let stop = min (start + SAVE_CHUNK_BYTES) old_len
        in case pread_exact (fs_read os f env) start (stop - start) of
             Inl e \<Rightarrow> Some (Inl (SaveIo e path), tick env)
           | Inr bytes \<Rightarrow> do {
               target \<leftarrow> usize_sub start delta;
               case pwrite_all os f target bytes (tick env) of
                 (Inl e, env) \<Rightarrow> Some (Inl (SaveIo e path), env)
               | (Inr _, env) \<Rightarrow> shift_tail_left os f path old_len delta stop env }
      else Some (Inr (), env))"
  by pat_completeness auto
termination
  by (relation "measure (\<lambda>(os, f, path, old_len, delta, start, env). old_len - start)") (auto simp: SAVE_CHUNK_BYTES_def)

declare pwrite_all.simps [simp del] shift_tail_right.simps [simp del] shift_tail_left.simps [simp del]

text \<open>An error of an operation on \<open>dest\<close>, or the rest of the save.\<close>

definition io_then :: "path \<Rightarrow> (io_kind + 'a) \<times> save_env \<Rightarrow> ('a \<Rightarrow> save_env \<Rightarrow> ((save_error + 'b) \<times> save_env) option)
    \<Rightarrow> ((save_error + 'b) \<times> save_env) option" where
  "io_then dest res k = (case res of (Inl e, env) \<Rightarrow> Some (Inl (SaveIo e dest), env) | (Inr x, env) \<Rightarrow> k x env)"

definition save_then :: "((save_error + 'a) \<times> save_env) option \<Rightarrow> ('a \<Rightarrow> save_env \<Rightarrow> ((save_error + 'b) \<times> save_env) option)
    \<Rightarrow> ((save_error + 'b) \<times> save_env) option" where
  "save_then res k = do { r \<leftarrow> res; case r of (Inl e, env) \<Rightarrow> Some (Inl e, env) | (Inr x, env) \<Rightarrow> k x env }"

definition save_same_size_in_place ::
    "sys \<Rightarrow> save_source \<Rightarrow> path \<Rightarrow> file_pager \<Rightarrow> path \<Rightarrow> save_env \<Rightarrow> ((save_error + unit) \<times> save_env) option" where
  "save_same_size_in_place os source src fp dest env = do {
     plan \<leftarrow> plan_for_source source;
     if new_changed_len plan > IN_PLACE_MAX_BYTES then stream_save_temp_file os source src fp dest None env
     else case report os (0, src_total_bytes source) env of
       (False, env) \<Rightarrow> Some (Inl Cancelled, env)
     | (True, env) \<Rightarrow>
         save_then (collect_logical_range_bytes os source src fp (new_changed_range plan) env) (\<lambda>changed env.
         io_then dest (fs_open os dest env) (\<lambda>f env.
         io_then dest (pwrite_all os f (pl_prefix_len plan) changed env) (\<lambda>_ env.
         io_then dest (fs_sync_all os env) (\<lambda>_ env.
         Some (Inr (), snd (report os (src_total_bytes source, src_total_bytes source) env)))))) }"

definition save_with_tail_shift ::
    "sys \<Rightarrow> save_source \<Rightarrow> path \<Rightarrow> file_pager \<Rightarrow> path \<Rightarrow> dir option \<Rightarrow> save_env \<Rightarrow> ((save_error + unit) \<times> save_env) option" where
  "save_with_tail_shift os source src fp dest fallback_temp_dir env = do {
     plan \<leftarrow> plan_for_source source;
     if new_changed_len plan > IN_PLACE_MAX_BYTES then stream_save_temp_file os source src fp dest fallback_temp_dir env
     else case report os (0, src_total_bytes source) env of
       (False, env) \<Rightarrow> Some (Inl Cancelled, env)
     | (True, env) \<Rightarrow>
         save_then (collect_logical_range_bytes os source src fp (new_changed_range plan) env) (\<lambda>changed env.
         io_then dest (fs_open os dest env) (\<lambda>f env.
         let delta = source_byte_delta source
         in save_then
           (if delta > 0 then
              io_then dest (fs_set_len os f (src_total_bytes source) env) (\<lambda>_ env.
              save_then (Some (shift_tail_right os f dest (pl_old_suffix_start plan) (nat delta) (pl_old_len plan) env)) (\<lambda>_ env.
              io_then dest (pwrite_all os f (pl_prefix_len plan) changed env) (\<lambda>_ env. Some (Inr (), env))))
            else
              io_then dest (pwrite_all os f (pl_prefix_len plan) changed env) (\<lambda>_ env.
              save_then (shift_tail_left os f dest (pl_old_len plan) (nat (- delta)) (pl_old_suffix_start plan) env) (\<lambda>_ env.
              io_then dest (fs_set_len os f (src_total_bytes source) env) (\<lambda>_ env. Some (Inr (), env)))))
           (\<lambda>_ env.
         io_then dest (fs_sync_all os env) (\<lambda>_ env.
         Some (Inr (), snd (report os (src_total_bytes source, src_total_bytes source) env)))))) }"

definition stream_save_from_source ::
    "sys \<Rightarrow> save_source \<Rightarrow> path \<Rightarrow> file_pager \<Rightarrow> path \<Rightarrow> save_policy \<Rightarrow> save_env \<Rightarrow> ((save_error + unit) \<times> save_env) option" where
  "stream_save_from_source os source src fp dest policy env = (case validated_policy os source src dest policy of
       TempFileRewrite temp_dir \<Rightarrow> stream_save_temp_file os source src fp dest temp_dir env
     | SaveAs save_as_path \<Rightarrow> stream_save_temp_file os source src fp save_as_path None env
     | SameSizeInPlaceOverwrite \<Rightarrow> save_same_size_in_place os source src fp dest env
     | TailShift fallback \<Rightarrow> save_with_tail_shift os source src fp dest fallback env)"

definition stream_save_pieces ::
    "sys \<Rightarrow> piece list \<Rightarrow> piece_overlay \<Rightarrow> path \<Rightarrow> file_pager \<Rightarrow> path \<Rightarrow> save_policy \<Rightarrow> save_env \<Rightarrow> ((save_error + unit) \<times> save_env) option" where
  "stream_save_pieces os pieces ov src fp dest policy env = do {
     rassert (length pieces = length (ov_pieces ov));
     stream_save_from_source os (overlay_source ov) src fp dest policy env }"

text \<open>A prepared plan opens its source anew, at the file's present length.\<close>

definition stream_save_snapshot ::
    "sys \<Rightarrow> path \<Rightarrow> save_snapshot \<Rightarrow> path \<Rightarrow> save_policy \<Rightarrow> save_env \<Rightarrow> ((save_error + unit) \<times> save_env) option" where
  "stream_save_snapshot os source_path sn dest policy env = (case fs_open os source_path env of
       (Inl e, env) \<Rightarrow> Some (Inl (SaveIo e source_path), env)
     | (Inr q, env) \<Rightarrow> do {
         s \<leftarrow> se_files env q;
         stream_save_from_source os (snapshot_source sn) q (pager_open (length s)) dest policy env })"

end
