(* ===== verification/Core_Save_Laws.thy ===== *)
theory Core_Save_Laws
  imports Core_Save
begin

text \<open>
  A save writes the document.  Through the temporary file, the destination changes only when everything is written,
  whatever fails and whenever the caller cancels; in place, moving the tail and rewriting the window yields the
  document too.
\<close>

section \<open>Assumptions on the system\<close>

text \<open>Reads of up to 64 MiB are answered in full.\<close>

definition reads_full :: "sys \<Rightarrow> bool" where
  "reads_full os \<longleftrightarrow> (\<forall>n. IN_PLACE_MAX_BYTES \<le> sys_read_limit os n)"

text \<open>Nothing fails and the caller does not cancel.\<close>

definition smooth :: "sys \<Rightarrow> bool" where
  "smooth os \<longleftrightarrow> reads_full os \<and> (\<forall>n. sys_fault os n = None \<and> 0 < sys_write_limit os n \<and> sys_answer os n)"

definition source_for :: "str \<Rightarrow> piece_overlay \<Rightarrow> save_source \<Rightarrow> bool" where
  "source_for disk ov source \<longleftrightarrow> ov_ok disk ov \<and> src_pieces source = ov_pieces ov \<and> src_total_bytes source = ov_total_byte_len ov
     \<and> src_original_len source = length disk
     \<and> (\<forall>p \<in> set (ov_pieces ov). orig_range p = None \<longrightarrow> src_inserted source p = Some (piece_text disk (ov_buffers ov) p))"

lemma overlay_sources:
  assumes "ov_ok disk ov"
  shows "source_for disk ov (overlay_source ov)" "source_for disk ov (snapshot_source (overlay_save_snapshot ov))"
  using assms snapshot_pieces [OF assms]
  by (simp_all add: source_for_def overlay_source_def snapshot_source_def overlay_save_snapshot_def ov_ok_def)

text \<open>The suggested policy stands the validation when the file itself is saved.\<close>

lemma suggested_policy_valid:
  assumes "sys_canonical os src = Some src"
  shows "validated_policy os (overlay_source ov) src src (suggested_save_policy ov) = suggested_save_policy ov"
  using assms by (auto simp: validated_policy_def suggested_save_policy_def Let_def same_canonical_path_def source_byte_delta_def
      overlay_source_def signed_byte_delta_def)

definition others_kept :: "path \<Rightarrow> save_env \<Rightarrow> save_env \<Rightarrow> bool" where
  "others_kept p env env' \<longleftrightarrow> (\<forall>q. q \<noteq> p \<longrightarrow> se_files env' q = se_files env q)"

lemma smooth_failing: "smooth os \<Longrightarrow> \<not> failing os env"
  by (simp add: smooth_def failing_def)

lemma others_keptD: "others_kept p env env' \<Longrightarrow> q \<noteq> p \<Longrightarrow> se_files env' q = se_files env q"
  unfolding others_kept_def by blast

lemma others_kept_trans: "others_kept p a b \<Longrightarrow> others_kept p b c \<Longrightarrow> others_kept p a c"
  by (simp add: others_kept_def)

lemma env_simps [simp]: "se_files (tick env) = se_files env" "se_files (put_file p s env) = (se_files env)(p \<mapsto> s)"
  by (simp_all add: tick_def put_file_def)


section \<open>The temporary file\<close>

lemma build_temp_name: "build_temp_path dest d = (d, snd dest @ ''.swp'')"
proof (cases "ext_of (snd dest)")
  case None
  then show ?thesis by (simp add: build_temp_path_def with_extension_def stem_of_def)
next
  case (Some e)
  let ?n = "snd dest"
  have e: "e = rev (takeWhile (\<lambda>c. c \<noteq> CHR ''.'') (rev ?n))" "length e + 1 < length ?n"
    using Some by (auto simp: ext_of_def Let_def split: if_splits)
  define t where "t = takeWhile (\<lambda>c. c \<noteq> CHR ''.'') (rev ?n)"
  obtain d' where d: "rev ?n = t @ CHR ''.'' # d'"
  proof -
    have "length t < length (rev ?n)" using e by (simp add: t_def)
    then have "dropWhile (\<lambda>c. c \<noteq> CHR ''.'') (rev ?n) \<noteq> []"
      unfolding t_def by (metis append_Nil2 nat_neq_iff takeWhile_dropWhile_id)
    then obtain x xs where x: "dropWhile (\<lambda>c. c \<noteq> CHR ''.'') (rev ?n) = x # xs" by (meson neq_Nil_conv)
    then have "x = CHR ''.''" using hd_dropWhile [of "\<lambda>c. c \<noteq> CHR ''.''" "rev ?n"] by simp
    then show thesis using that [of xs] x takeWhile_dropWhile_id [of "\<lambda>c. c \<noteq> CHR ''.''" "rev ?n"] by (simp add: t_def)
  qed
  have "?n = rev d' @ CHR ''.'' # e" using arg_cong [OF d, of rev] e(1) by (simp add: t_def)
  then show ?thesis using Some by (simp add: build_temp_path_def with_extension_def stem_of_def)
qed

lemma temp_differs: "build_temp_path dest d \<noteq> dest"
  by (simp add: build_temp_name) (metis append_self_conv list.distinct(1) snd_conv)

lemma chunk_le: "SAVE_CHUNK_BYTES \<le> IN_PLACE_MAX_BYTES" "0 < SAVE_CHUNK_BYTES"
  by (simp_all add: SAVE_CHUNK_BYTES_def IN_PLACE_MAX_BYTES_def)

lemma pager_read_spec:
  assumes "se_files env src = Some disk" "fp_file_size fp = length disk" "b \<le> e" "e \<le> length disk" "e - b \<le> IN_PLACE_MAX_BYTES"
    "reads_full os"
  shows "\<exists>res. pager_read os src fp (b, e) env = (res, tick env) \<and> (\<forall>s. res = Inr s \<longrightarrow> s = slice disk b e)
    \<and> (sys_fault os (se_ops env) = None \<longrightarrow> res = Inr (slice disk b e))"
proof -
  have "e - b \<le> sys_read_limit os (se_ops env)" using assms(5,6) le_trans [OF assms(5)] by (simp add: reads_full_def)
  then have "take (sys_read_limit os (se_ops env)) (slice disk b e) = slice disk b e" by (simp add: slice_def)
  then show ?thesis using assms
    by (auto simp: pager_read_def read_for_save_def pread_exact_def fs_read_def failing_def Let_def)
qed

lemma write_original_spec:
  assumes "se_files env src = Some disk" "se_files env temp = Some old" "temp \<noteq> src" "fp_file_size fp = length disk"
    "pos \<le> stop" "stop \<le> length disk" "reads_full os"
  shows "\<exists>res env'. write_original_piece os src fp temp tot stop pos w env = (res, env') \<and> others_kept temp env env'
    \<and> (\<exists>new. se_files env' temp = Some new)
    \<and> (\<forall>n. res = Inr n \<longrightarrow> se_files env' temp = Some (old @ slice disk pos stop) \<and> n = w + (stop - pos))
    \<and> (smooth os \<longrightarrow> (\<exists>n. res = Inr n))"
  using assms(1,2,5)
proof (induction "stop - pos" arbitrary: pos w env old rule: less_induct)
  case less
  note eq = write_original_piece.simps [of os src fp temp tot stop pos w env]
  show ?case
  proof (cases "pos < stop")
    case False
    then have "write_original_piece os src fp temp tot stop pos w env = (Inr w, env)" by (simp add: eq)
    then show ?thesis using less.prems False by (simp add: others_kept_def)
  next
    case True
    let ?ce = "min (pos + SAVE_CHUNK_BYTES) stop"
    have ce: "pos < ?ce" "?ce \<le> stop" "?ce - pos \<le> IN_PLACE_MAX_BYTES" using True chunk_le by auto
    obtain r where r: "pager_read os src fp (pos, ?ce) env = (r, tick env)" "\<forall>s. r = Inr s \<longrightarrow> s = slice disk pos ?ce"
      "sys_fault os (se_ops env) = None \<longrightarrow> r = Inr (slice disk pos ?ce)"
      using pager_read_spec [OF less.prems(1) assms(4) _ _ ce(3) assms(7)] ce assms(6) by auto
    have sp: "slice disk pos ?ce @ slice disk ?ce stop = slice disk pos stop" using slice_split [of pos ?ce stop disk] ce by simp
    have len: "length (slice disk pos ?ce) = ?ce - pos" using ce assms(6) by (simp add: slice_def)
    show ?thesis
    proof (cases r)
      case (Inl e)
      then show ?thesis using True r(1,3) less.prems by (auto simp: eq Let_def others_kept_def smooth_def)
    next
      case (Inr raw)
      then have raw: "raw = slice disk pos ?ce" using r(2) by simp
      show ?thesis
      proof (cases "sys_fault os (se_ops (tick env))")
        case (Some k)
        then show ?thesis using True r(1) Inr less.prems
          by (auto simp: eq Let_def fs_write_all_def others_kept_def smooth_def)
      next
        case None
        let ?env = "(tick (put_file temp (old @ raw) (tick env)))\<lparr>se_log := se_log env @ [(w + length raw, tot)]\<rparr>"
        have step: "write_original_piece os src fp temp tot stop pos w env =
            (if sys_answer os (length (se_log env)) then write_original_piece os src fp temp tot stop ?ce (w + length raw) ?env
             else (Inl Cancelled, ?env))"
          using True r(1) Inr None less.prems
          by (simp add: eq Let_def fs_write_all_def report_def tick_def put_file_def split: bool.split)
        have "stop - ?ce < stop - pos" using ce True by simp
        from less.hyps [OF this, of ?env "old @ raw" "w + length raw"] show ?thesis
          using less.prems assms(3) ce sp raw len unfolding step
          by (auto simp: others_kept_def smooth_def split: if_splits)
      qed
    qed
  qed
qed

lemma write_pieces_spec:
  assumes "se_files env src = Some disk" "se_files env temp = Some old" "temp \<noteq> src" "fp_file_size fp = length disk" "reads_full os"
    "list_all (piece_ok disk bufs) ps" "\<forall>p \<in> set ps. orig_range p = None \<longrightarrow> src_inserted source p = Some (piece_text disk bufs p)"
  shows "\<exists>res env'. write_pieces os source src fp temp ps w env = Some (res, env') \<and> others_kept temp env env'
    \<and> (\<exists>new. se_files env' temp = Some new)
    \<and> (\<forall>n. res = Inr n \<longrightarrow> se_files env' temp = Some (old @ pieces_text disk bufs ps) \<and> n = w + length (pieces_text disk bufs ps))
    \<and> (smooth os \<longrightarrow> (\<exists>n. res = Inr n))"
  using assms(1,2,6,7)
proof (induction ps arbitrary: w env old)
  case Nil
  then show ?case by (simp add: others_kept_def)
next
  case (Cons p ps)
  note IH = Cons.IH [where w = w1 and env = env1 and old = old1 for w1 env1 old1]
  show ?case
  proof (cases p)
    case (Original r m)
    obtain b e where r: "r = (b, e)" by (cases r)
    have be: "b \<le> e" "e \<le> length disk" using Cons.prems(3) by (simp_all add: Original r)
    obtain res env1 where o: "write_original_piece os src fp temp (src_total_bytes source) e b w env = (res, env1)" "others_kept temp env env1"
      "\<exists>new. se_files env1 temp = Some new" "smooth os \<longrightarrow> (\<exists>n. res = Inr n)"
      "\<forall>n. res = Inr n \<longrightarrow> se_files env1 temp = Some (old @ slice disk b e) \<and> n = w + (e - b)"
      using write_original_spec [OF Cons.prems(1,2) assms(3,4) be assms(5)] by blast
    show ?thesis
    proof (cases res)
      case (Inl err)
      then show ?thesis using o by (simp add: Original r)
    next
      case (Inr n)
      then have n: "se_files env1 temp = Some (old @ slice disk b e)" "n = w + (e - b)" using o(5) by simp_all
      have "se_files env1 src = Some disk" using others_keptD [OF o(2), of src] Cons.prems(1) assms(3) by simp
      from IH [OF this n(1), of n] obtain res' env' where i: "write_pieces os source src fp temp ps n env1 = Some (res', env')"
        "others_kept temp env1 env'" "\<exists>new. se_files env' temp = Some new" "smooth os \<longrightarrow> (\<exists>n. res' = Inr n)"
        "\<forall>k. res' = Inr k \<longrightarrow> se_files env' temp = Some (old @ slice disk b e @ pieces_text disk bufs ps) \<and> k = n + length (pieces_text disk bufs ps)"
        using Cons.prems(3,4) unfolding list.pred_inject list.set append_assoc by blast
      have len: "length (slice disk b e) = e - b" using be by (simp add: slice_def)
      have step: "write_pieces os source src fp temp (p # ps) w env = Some (res', env')" using o(1) Inr i(1) by (simp add: Original r)
      show ?thesis
        by (rule exI [of _ res'], rule exI [of _ env'], intro conjI)
          (use step others_kept_trans [OF o(2) i(2)] i(3-5) n(2) len in \<open>simp_all add: Original r add.assoc\<close>)
    qed
  next
    case (Inserted b r m)
    have src: "src_inserted source p = Some (piece_text disk bufs p)" using Cons.prems(4) by (simp add: Inserted)
    let ?t = "piece_text disk bufs p"
    show ?thesis
    proof (cases "sys_fault os (se_ops env)")
      case (Some k)
      then show ?thesis using src Cons.prems(2) by (auto simp: Inserted fs_write_all_def others_kept_def smooth_def)
    next
      case None
      let ?env = "(tick (put_file temp (old @ ?t) env))\<lparr>se_log := se_log env @ [(w + length ?t, src_total_bytes source)]\<rparr>"
      have step: "write_pieces os source src fp temp (p # ps) w env =
          (if sys_answer os (length (se_log env)) then write_pieces os source src fp temp ps (w + length ?t) ?env
           else Some (Inl Cancelled, ?env))"
        using src None Cons.prems(2) by (simp add: Inserted fs_write_all_def report_def tick_def put_file_def split: bool.split)
      have "se_files ?env src = Some disk" "se_files ?env temp = Some (old @ ?t)" using Cons.prems(1) assms(3) by simp_all
      from IH [OF this, of "w + length ?t"] show ?thesis
        using Cons.prems(3,4) unfolding step by (auto simp: others_kept_def smooth_def)
    qed
  qed
qed

text \<open>The destination holds either the old bytes or the whole document.\<close>

definition committed :: "str \<Rightarrow> path \<Rightarrow> path \<Rightarrow> save_error + unit \<Rightarrow> save_env \<Rightarrow> save_env \<Rightarrow> bool" where
  "committed doc temp dest res env env' \<longleftrightarrow> (case res of
       Inl e \<Rightarrow> others_kept temp env env'
     | Inr _ \<Rightarrow> se_files env' = (se_files env)(temp := None, dest \<mapsto> doc))"

lemma write_temp_file_spec:
  assumes src: "source_for disk ov source" and f: "se_files env src = Some disk" "temp \<noteq> src" "temp \<noteq> dest" "fp_file_size fp = length disk" "reads_full os"
  shows "\<exists>res env'. write_temp_file os source src fp temp dest env = Some (res, env') \<and> committed (ov_text disk ov) temp dest res env env'
    \<and> (smooth os \<longrightarrow> res = Inr ())"
proof (cases "failing os env")
  case True
  then show ?thesis by (auto simp: write_temp_file_def fs_create_def committed_def others_kept_def smooth_def failing_def)
next
  case False
  let ?env = "tick (put_file temp [] env)"
  have ps: "list_all (piece_ok disk (ov_buffers ov)) (src_pieces source)" "src_pieces source = ov_pieces ov"
    "\<forall>p \<in> set (src_pieces source). orig_range p = None \<longrightarrow> src_inserted source p = Some (piece_text disk (ov_buffers ov) p)"
    using src by (simp_all add: source_for_def ov_ok_def pieces_ok_def)
  obtain res env1 where w: "write_pieces os source src fp temp (src_pieces source) 0 ?env = Some (res, env1)" "others_kept temp ?env env1"
    "\<forall>n. res = Inr n \<longrightarrow> se_files env1 temp = Some (ov_text disk ov)" "smooth os \<longrightarrow> (\<exists>n. res = Inr n)"
    using write_pieces_spec [of ?env src disk temp "[]" fp os "ov_buffers ov" "src_pieces source" source 0] f ps
    by (auto simp: ov_text_def)
  have k: "others_kept temp env env1" using w(2) by (simp add: others_kept_def)
  then have files: "se_files env1 = (se_files env)(temp := se_files env1 temp)" by (auto simp: others_kept_def)
  have c: "write_temp_file os source src fp temp dest env = (case (res, env1) of
         (Inl e, env) \<Rightarrow> Some (Inl e, env)
       | (Inr _, env) \<Rightarrow>
             (case fs_sync_all os env of
                (Inl e, env) \<Rightarrow> Some (Inl (SaveIo e temp), env)
              | (Inr _, env) \<Rightarrow>
                  (case fs_rename os temp dest env of
                     (Inl e, env) \<Rightarrow> Some (Inl (SaveIo e dest), env)
                   | (Inr _, env) \<Rightarrow> Some (Inr (), snd (fs_sync_all os env)))))"
    using False w(1) by (simp add: write_temp_file_def fs_create_def)
  show ?thesis
  proof (cases res)
    case (Inl e)
    then show ?thesis using k w(4) by (simp add: c committed_def)
  next
    case (Inr n)
    then have t: "se_files env1 temp = Some (ov_text disk ov)" using w(3) by simp
    have "se_files env1 = (se_files env)(temp \<mapsto> ov_text disk ov)" using files t by simp
    then show ?thesis using Inr k t f(3)
      by (auto simp: c committed_def fs_sync_all_def fs_rename_def others_kept_def fun_upd_twist dest: smooth_failing)
  qed
qed

definition temp_path_for :: "path \<Rightarrow> dir option \<Rightarrow> path" where
  "temp_path_for dest d = build_temp_path dest (case d of None \<Rightarrow> fst dest | Some d \<Rightarrow> d)"

lemma stream_save_temp_spec:
  assumes src: "source_for disk ov source" and f: "se_files env src = Some disk" "temp_path_for dest d \<noteq> src" "fp_file_size fp = length disk" "reads_full os"
  shows "\<exists>res env'. stream_save_temp_file os source src fp dest d env = Some (res, env')
    \<and> committed (ov_text disk ov) (temp_path_for dest d) dest res env env' \<and> (smooth os \<longrightarrow> res = Inr ())"
proof -
  have "temp_path_for dest d \<noteq> dest" by (simp add: temp_path_for_def temp_differs)
  then obtain res env1 where w: "write_temp_file os source src fp (temp_path_for dest d) dest env = Some (res, env1)"
    "committed (ov_text disk ov) (temp_path_for dest d) dest res env env1" "smooth os \<longrightarrow> res = Inr ()"
    using write_temp_file_spec [OF src f(1,2) _ f(3,4)] by blast
  then show ?thesis
    by (cases res) (auto simp: stream_save_temp_file_def temp_path_for_def [symmetric] Let_def committed_def others_kept_def fs_remove_def)
qed



section \<open>Writing and moving bytes\<close>

lemma write_bytes_in: "off + length bs \<le> length s \<Longrightarrow> write_bytes s off bs = take off s @ bs @ drop (off + length bs) s"
  by (simp add: write_bytes_def)

lemma length_write_bytes: "off + length bs \<le> length s \<Longrightarrow> length (write_bytes s off bs) = length s"
  by (simp add: write_bytes_in)

lemma write_bytes_Nil: "off \<le> length s \<Longrightarrow> write_bytes s off [] = s"
  by (simp add: write_bytes_in)

lemma write_bytes_append:
  assumes "off + length (a @ b) \<le> length s"
  shows "write_bytes (write_bytes s off a) (off + length a) b = write_bytes s off (a @ b)"
    "write_bytes (write_bytes s (off + length a) b) off a = write_bytes s off (a @ b)"
  using assms by (simp_all add: write_bytes_def ac_simps)

lemma slice_write_bytes:
  assumes "off + length bs \<le> length s" "e \<le> off \<or> off + length bs \<le> b"
  shows "slice (write_bytes s off bs) b e = slice s b e"
proof (cases "e \<le> off")
  case True
  then show ?thesis using assms(1) by (cases "b \<le> e") (simp_all add: write_bytes_in slice_def drop_take min_def)
next
  case False
  then have le: "off + length bs \<le> b" using assms(2) by simp
  have "drop b (write_bytes s off bs) = drop b s"
    using assms(1) le by (simp add: write_bytes_in)
  then show ?thesis by (simp add: slice_def)
qed

text \<open>The loop of \<^verbatim>\<open>pwrite_all\<close> writes all bytes, however the calls divide them.\<close>

lemma pwrite_all_spec:
  assumes "smooth os" "se_files env f = Some s" "off + length bs \<le> length s"
  shows "\<exists>env'. pwrite_all os f off bs env = (Inr (), env') \<and> se_files env' = (se_files env)(f \<mapsto> write_bytes s off bs)"
  using assms(2,3)
proof (induction "length bs" arbitrary: bs off env s rule: less_induct)
  case less
  note eq = pwrite_all.simps [of os f off bs env]
  show ?case
  proof (cases "bs = []")
    case True
    then have "pwrite_all os f off bs env = (Inr (), env)" unfolding eq by simp
    then show ?thesis using less.prems True by (simp add: write_bytes_Nil map_upd_triv)
  next
    case False
    define n where "n = min (sys_write_limit os (se_ops env)) (length bs)"
    have n: "0 < n" "n \<le> length bs" using assms(1) False by (auto simp: smooth_def n_def)
    let ?env = "tick (put_file f (write_bytes s off (take n bs)) env)"
    have le: "off + length (take n bs @ drop n bs) \<le> length s" using less.prems(2) by simp
    have e: "se_files ?env f = Some (write_bytes s off (take n bs))" by simp
    have l: "(off + n) + length (drop n bs) \<le> length (write_bytes s off (take n bs))"
      using less.prems(2) n(2) by (simp add: length_write_bytes)
    have "length (drop n bs) < length bs" using n False by simp
    from less.hyps [OF this e l] obtain env' where
      r: "pwrite_all os f (off + n) (drop n bs) ?env = (Inr (), env')"
        "se_files env' = (se_files ?env)(f \<mapsto> write_bytes (write_bytes s off (take n bs)) (off + n) (drop n bs))" by blast
    have c: "write_bytes (write_bytes s off (take n bs)) (off + n) (drop n bs) = write_bytes s off bs"
      using write_bytes_append(1) [OF le] n(2) by (simp add: min_absorb2)
    have "fs_write_at os f bs off env = (Inr n, ?env)"
      using less.prems(1) smooth_failing [OF assms(1)] by (simp add: fs_write_at_def Let_def n_def)
    then have "pwrite_all os f off bs env = pwrite_all os f (off + n) (drop n bs) ?env"
      using False n(1) by (simp add: eq)
    then show ?thesis using r c by simp
  qed
qed

lemma fs_read_full:
  assumes "smooth os" "se_files env f = Some s" "n \<le> SAVE_CHUNK_BYTES"
  shows "pread_exact (fs_read os f env) off n = Inr (slice s off (off + n))"
proof -
  have "n \<le> sys_read_limit os (se_ops env)"
    using assms(1,3) chunk_le(1) le_trans by (auto simp: smooth_def reads_full_def) (meson le_trans)
  then have "take (sys_read_limit os (se_ops env)) (slice s off (off + n)) = slice s off (off + n)" by (simp add: slice_def)
  then show ?thesis using assms(2) smooth_failing [OF assms(1)] by (simp add: pread_exact_def fs_read_def)
qed

text \<open>Chunk by chunk, the tail moves as a whole: right from its end, left from its start.\<close>

lemma shift_tail_right_spec:
  assumes "smooth os" "se_files env f = Some g" "ts \<le> stop" "stop + delta \<le> length g"
  shows "\<exists>env'. shift_tail_right os f path ts delta stop env = (Inr (), env')
    \<and> se_files env' = (se_files env)(f \<mapsto> write_bytes g (ts + delta) (slice g ts stop))"
  using assms(2-4)
proof (induction "stop - ts" arbitrary: stop env g rule: less_induct)
  case less
  note eq = shift_tail_right.simps [of os f path ts delta stop env]
  show ?case
  proof (cases "ts < stop")
    case False
    then have "shift_tail_right os f path ts delta stop env = (Inr (), env)" by (simp add: eq)
    then show ?thesis using less.prems False by (simp add: write_bytes_Nil map_upd_triv)
  next
    case True
    define st where "st = max (stop - SAVE_CHUNK_BYTES) ts"
    have st: "st < stop" "ts \<le> st" "stop - st \<le> SAVE_CHUNK_BYTES" using True chunk_le(2) by (auto simp: st_def)
    let ?b = "slice g st stop"
    have rd: "pread_exact (fs_read os f env) st (stop - st) = Inr ?b" using fs_read_full [OF assms(1) less.prems(1) st(3), of st] st by simp
    have lb: "length ?b = stop - st" "length (slice g ts st) = st - ts" using less.prems st by (auto simp: slice_def)
    have le: "st + delta + length ?b \<le> length g" using less.prems(3) st lb by simp
    obtain env1 where w: "pwrite_all os f (st + delta) ?b (tick env) = (Inr (), env1)"
      "se_files env1 = (se_files env)(f \<mapsto> write_bytes g (st + delta) ?b)"
      using pwrite_all_spec [OF assms(1) _ le, of "tick env" f] less.prems(1) by auto
    let ?g = "write_bytes g (st + delta) ?b"
    have g: "se_files env1 f = Some ?g" "st + delta \<le> length ?g" using w(2) le by (simp_all add: length_write_bytes)
    have "st - ts < stop - ts" using st by simp
    from less.hyps [OF this g(1) st(2) g(2)] obtain env' where r: "shift_tail_right os f path ts delta st env1 = (Inr (), env')"
      "se_files env' = (se_files env1)(f \<mapsto> write_bytes ?g (ts + delta) (slice ?g ts st))" by blast
    have "slice ?g ts st = slice g ts st" using slice_write_bytes [OF le, of st ts] st by simp
    moreover have "write_bytes ?g (ts + delta) (slice g ts st) = write_bytes g (ts + delta) (slice g ts st @ ?b)"
      using write_bytes_append(2) [of "ts + delta" "slice g ts st" ?b g] le st lb by (simp add: add.commute add.left_commute)
    moreover have "slice g ts st @ ?b = slice g ts stop" using slice_split [of ts st stop g] st by simp
    ultimately show ?thesis using r w True rd by (simp add: eq Let_def st_def [symmetric])
  qed
qed

lemma shift_tail_left_spec:
  assumes "smooth os" "se_files env f = Some g" "start \<le> old_len" "old_len \<le> length g" "delta \<le> start"
  shows "\<exists>env'. shift_tail_left os f path old_len delta start env = Some (Inr (), env')
    \<and> se_files env' = (se_files env)(f \<mapsto> write_bytes g (start - delta) (slice g start old_len))"
  using assms(2-5)
proof (induction "old_len - start" arbitrary: start env g rule: less_induct)
  case less
  note eq = shift_tail_left.simps [of os f path old_len delta start env]
  show ?case
  proof (cases "start < old_len")
    case False
    then have "shift_tail_left os f path old_len delta start env = Some (Inr (), env)" by (simp add: eq)
    then show ?thesis using less.prems False by (simp add: write_bytes_Nil map_upd_triv)
  next
    case True
    define sp where "sp = min (start + SAVE_CHUNK_BYTES) old_len"
    have spp: "start < sp" "sp \<le> old_len" "sp - start \<le> SAVE_CHUNK_BYTES" "delta \<le> sp" using True chunk_le(2) less.prems(4) by (auto simp: sp_def)
    let ?b = "slice g start sp"
    have rd: "pread_exact (fs_read os f env) start (sp - start) = Inr ?b" using fs_read_full [OF assms(1) less.prems(1) spp(3), of start] spp by simp
    have lb: "length ?b = sp - start" "length (slice g sp old_len) = old_len - sp" using less.prems spp by (auto simp: slice_def)
    have le: "start - delta + length ?b \<le> length g" using less.prems(3) spp lb by simp
    obtain env1 where w: "pwrite_all os f (start - delta) ?b (tick env) = (Inr (), env1)"
      "se_files env1 = (se_files env)(f \<mapsto> write_bytes g (start - delta) ?b)"
      using pwrite_all_spec [OF assms(1) _ le, of "tick env" f] less.prems(1) by auto
    let ?g = "write_bytes g (start - delta) ?b"
    have g: "se_files env1 f = Some ?g" "old_len \<le> length ?g" using w(2) le less.prems(3) by (simp_all add: length_write_bytes)
    have "old_len - sp < old_len - start" using spp by simp
    from less.hyps [OF this g(1) spp(2) g(2) spp(4)] obtain env' where r: "shift_tail_left os f path old_len delta sp env1 = Some (Inr (), env')"
      "se_files env' = (se_files env1)(f \<mapsto> write_bytes ?g (sp - delta) (slice ?g sp old_len))" by blast
    have m: "start - delta + length ?b = sp - delta" using lb(1) spp less.prems(4) by simp
    have "slice ?g sp old_len = slice g sp old_len" using slice_write_bytes [OF le, of old_len sp] m less.prems(4) by simp
    moreover have "write_bytes ?g (sp - delta) (slice g sp old_len) = write_bytes g (start - delta) (?b @ slice g sp old_len)"
      using write_bytes_append(1) [of "start - delta" ?b "slice g sp old_len" g] m lb less.prems spp by simp
    moreover have "?b @ slice g sp old_len = slice g start old_len" using slice_split [of start sp old_len g] spp by simp
    ultimately show ?thesis using r w True rd less.prems(4) by (simp add: eq Let_def usize_sub_def sp_def [symmetric])
  qed
qed



section \<open>The changed window\<close>

lemma prefix_loop_spec:
  assumes "list_all (piece_ok disk bufs) ps" "l \<le> length disk"
  shows "l \<le> prefix_loop l ps \<and> prefix_loop l ps \<le> length disk \<and> prefix_loop l ps - l \<le> length (pieces_text disk bufs ps)
    \<and> take (prefix_loop l ps - l) (pieces_text disk bufs ps) = slice disk l (prefix_loop l ps)"
  using assms
proof (induction l ps rule: prefix_loop.induct)
  case (1 l s e m ps)
  show ?case
  proof (cases "s = l")
    case True
    have se: "s < e" "e \<le> length disk" using "1.prems"(1) by simp_all
    have le: "l + range_len (s, e) = e" using True se by (simp add: range_len_def)
    have IH: "e \<le> prefix_loop e ps" "prefix_loop e ps \<le> length disk" "prefix_loop e ps - e \<le> length (pieces_text disk bufs ps)"
      "take (prefix_loop e ps - e) (pieces_text disk bufs ps) = slice disk e (prefix_loop e ps)"
      using "1.IH" [OF True] "1.prems" se by (simp_all add: le)
    have len: "length (slice disk s e) = e - s" using se by (simp add: slice_def)
    have "slice disk s e @ slice disk e (prefix_loop e ps) = slice disk s (prefix_loop e ps)"
      using slice_split [of s e "prefix_loop e ps" disk] se IH(1) by simp
    moreover have "prefix_loop e ps - s - (e - s) = prefix_loop e ps - e" using se IH(1) by simp
    moreover have "e - s \<le> prefix_loop e ps - s" using IH(1) by simp
    ultimately show ?thesis using True le IH len se by (simp add: take_all)
  qed (use 1 in simp)
qed simp_all

lemma suffix_loop_spec:
  assumes "list_all (piece_ok disk bufs) rps" "oe \<le> length disk"
  shows "\<exists>k. suffix_loop oe le sl rps = sl + k \<and> k \<le> oe \<and> k \<le> length (pieces_text disk bufs (rev rps))
    \<and> drop (length (pieces_text disk bufs (rev rps)) - k) (pieces_text disk bufs (rev rps)) = slice disk (oe - k) oe"
  using assms
proof (induction oe le sl rps rule: suffix_loop.induct)
  case (1 oe le sl s e m ps)
  show ?case
  proof (cases "e = oe \<and> \<not> range_len (s, e) > le")
    case True
    have se: "s < e" "e \<le> length disk" using "1.prems"(1) by simp_all
    let ?t = "pieces_text disk bufs (rev ps)"
    have eq: "suffix_loop oe le sl (Original (s, e) m # ps) = suffix_loop s (le - range_len (s, e)) (sl + range_len (s, e)) ps"
      using True by auto
    from "1.IH" True "1.prems" se obtain k where
      k: "suffix_loop s (le - range_len (s, e)) (sl + range_len (s, e)) ps = sl + range_len (s, e) + k" "k \<le> s" "k \<le> length ?t"
        "drop (length ?t - k) ?t = slice disk (s - k) s"
      by auto
    have len: "length (slice disk s e) = e - s" "range_len (s, e) = e - s" using se by (simp_all add: slice_def range_len_def)
    have "slice disk (s - k) s @ slice disk s e = slice disk (s - k) e" using slice_split [of "s - k" s e disk] se by simp
    moreover have "e - ((e - s) + k) = s - k" using se k(2) by simp
    ultimately show ?thesis using True k len se unfolding eq by (intro exI [of _ "(e - s) + k"]) (simp, arith)
  next
    case False
    then show ?thesis by (intro exI [of _ 0]) auto
  qed
qed simp_all

text \<open>The window: what is before and behind it is the same in the file and in the document.\<close>

lemma plan_for_source_spec:
  assumes src: "source_for disk ov source"
  obtains pl S where "plan_for_source source = Some pl" "pl_old_len pl = length disk" "S \<le> length disk" "S \<le> length (ov_text disk ov)"
    "pl_old_suffix_start pl = length disk - S" "pl_new_suffix_start pl = length (ov_text disk ov) - S"
    "pl_prefix_len pl \<le> length disk - S" "pl_prefix_len pl \<le> length (ov_text disk ov) - S"
    "take (pl_prefix_len pl) (ov_text disk ov) = take (pl_prefix_len pl) disk"
    "drop (length (ov_text disk ov) - S) (ov_text disk ov) = drop (length disk - S) disk"
proof -
  let ?doc = "ov_text disk ov"
  have ok: "ov_ok disk ov" "list_all (piece_ok disk (ov_buffers ov)) (ov_pieces ov)" "src_pieces source = ov_pieces ov"
    "src_total_bytes source = length ?doc" "src_original_len source = length disk"
    using src ov_text_len [of disk ov] by (simp_all add: source_for_def ov_ok_def pieces_ok_def)
  define P where "P = common_original_prefix_len (ov_pieces ov)"
  have P: "P \<le> length disk" "P \<le> length ?doc" "take P ?doc = take P disk"
    using prefix_loop_spec [OF ok(2), of 0] by (simp_all add: P_def common_original_prefix_len_def ov_text_def slice_def)
  obtain k where k: "common_original_suffix_len (ov_pieces ov) (length disk) (length ?doc) = k" "k \<le> length disk" "k \<le> length ?doc"
    "drop (length ?doc - k) ?doc = slice disk (length disk - k) (length disk)"
    using suffix_loop_spec [of disk "ov_buffers ov" "rev (ov_pieces ov)" "length disk" "length ?doc" 0] ok(2)
    by (auto simp: common_original_suffix_len_def ov_text_def)
  define S where "S = min (min k (length disk - P)) (length ?doc - P)"
  have S: "S \<le> k" "S \<le> length disk - P" "S \<le> length ?doc - P" by (simp_all add: S_def)
  have "drop (k - S) (drop (length ?doc - k) ?doc) = drop (k - S) (drop (length disk - k) disk)" using k(4) by (simp add: slice_def)
  then have d: "drop (length ?doc - S) ?doc = drop (length disk - S) disk" using S(1) k(2,3) by simp
  show thesis
    by (rule that [of "\<lparr>pl_prefix_len = P, pl_old_suffix_start = length disk - S, pl_new_suffix_start = length ?doc - S,
        pl_old_len = length disk\<rparr>" S])
      (use ok k S P d in \<open>auto simp: plan_for_source_def P_def [symmetric] S_def [symmetric] usize_sub_def Let_def\<close>)
qed

lemma slice_of_append: "slice (s @ t) a b = slice s a b @ slice t (a - length s) (b - length s)"
proof -
  have "b - a - (length s - a) = b - length s - (a - length s)" by simp
  then show ?thesis by (simp add: slice_def)
qed

lemma slice_slice_min: "slice (slice xs s e) a b = slice xs (s + a) (min (s + b) e)"
proof -
  have "min (b - a) (e - s - a) = min (s + b) e - (s + a)" by (simp add: min_def)
  then show ?thesis by (simp add: slice_def drop_take min.commute add.commute)
qed

lemma collect_loop_spec:
  assumes "smooth os" "se_files env src = Some disk" "fp_file_size fp = length disk" "a \<le> b" "b - a \<le> IN_PLACE_MAX_BYTES"
    "list_all (piece_ok disk bufs) ps" "\<forall>p \<in> set ps. orig_range p = None \<longrightarrow> src_inserted source p = Some (piece_text disk bufs p)"
  shows "\<exists>env'. collect_loop os source src fp (a, b) ps l out env = Some (Inr (out @ slice (pieces_text disk bufs ps) (a - l) (b - l)), env')
    \<and> se_files env' = se_files env"
  using assms(2,6,7)
proof (induction ps arbitrary: l out env)
  case Nil
  then show ?case by (simp add: slice_def)
next
  case (Cons p ps)
  let ?t = "piece_text disk bufs p" and ?n = "piece_byte_len p"
  have t: "length ?t = ?n" "piece_ok disk bufs p" using Cons.prems(2) piece_ok_len by auto
  have IH: "se_files env' src = Some disk \<Longrightarrow> \<exists>env''. collect_loop os source src fp (a, b) ps (l + ?n) out' env' =
      Some (Inr (out' @ slice (pieces_text disk bufs ps) (a - (l + ?n)) (b - (l + ?n))), env'') \<and> se_files env'' = se_files env'" for out' env'
    using Cons.IH [of env' "l + ?n" out'] Cons.prems(2,3) by simp
  have split: "slice (pieces_text disk bufs (p # ps)) (a - l) (b - l) = slice ?t (a - l) (b - l) @ slice (pieces_text disk bufs ps) (a - (l + ?n)) (b - (l + ?n))"
    by (simp add: slice_of_append t(1))
  show ?case
  proof (cases "l + ?n \<le> a \<or> b \<le> l")
    case True
    then have e: "slice ?t (a - l) (b - l) = []" using t(1) by (auto simp: slice_def)
    show ?thesis
    proof (cases "l + ?n \<le> a")
      case True
      then show ?thesis using IH [OF Cons.prems(1), of out] unfolding split e by simp
    next
      case False
      then have "b \<le> l" using True by simp
      then show ?thesis using False unfolding split e by simp
    qed
  next
    case False
    define po where "po = max l a - l"
    define ol where "ol = min (l + ?n) b - max l a"
    have po: "po = a - l" "po + ol \<le> ?n" "po + ol = min ?n (b - l)" "ol \<le> IN_PLACE_MAX_BYTES"
      using False assms(4,5) by (auto simp: po_def ol_def)
    have part: "slice ?t po (po + ol) = slice ?t (a - l) (b - l)"
      using t(1) by (simp add: po(1) [symmetric] po(3)) (simp add: slice_def min_def)
    show ?thesis
    proof (cases p)
      case (Original q m)
      obtain s e where q: "q = (s, e)" by (cases q)
      have ol: "ol = min (l + piece_byte_len (Original (s, e) m)) b - max l a" by (simp add: ol_def Original q)
      have se: "s < e" "e \<le> length disk" "?n = e - s" using t(2) by (simp_all add: Original q piece_byte_len_def)
      have le: "s + po \<le> s + po + ol" "s + po + ol \<le> length disk" "s + po + ol - (s + po) \<le> IN_PLACE_MAX_BYTES" using se po by auto
      have sl: "slice disk (s + po) (s + po + ol) = slice ?t (a - l) (b - l)"
        unfolding part [symmetric] using se po(2) by (simp add: Original q slice_slice_min min_def add.assoc)
      have full: "reads_full os" "sys_fault os (se_ops env) = None" using assms(1) by (simp_all add: smooth_def)
      have rd: "pager_read os src fp (s + po, s + po + ol) env = (Inr (slice ?t (a - l) (b - l)), tick env)"
        using pager_read_spec [OF Cons.prems(1) assms(3) le full(1)] full(2) sl by auto
      have "collect_loop os source src fp (a, b) (p # ps) l out env =
          collect_loop os source src fp (a, b) ps (l + ?n) (out @ slice ?t (a - l) (b - l)) (tick env)"
        using False rd by (simp add: Original q Let_def po_def [symmetric] ol [symmetric] add.assoc)
      then show ?thesis unfolding split append_assoc [symmetric]
        using IH [of "tick env" "out @ slice ?t (a - l) (b - l)"] Cons.prems(1) by (simp del: append_assoc collect_loop.simps)
    next
      case (Inserted i r m)
      have ol: "ol = min (l + piece_byte_len (Inserted i r m)) b - max l a" by (simp add: ol_def Inserted)
      have src: "src_inserted source p = Some ?t" using Cons.prems(3) by (simp add: Inserted)
      have len: "length ?t = range_len r"
        using t(2) by (cases r) (auto simp: Inserted range_len_def slice_def split: option.splits)
      have bs: "bytes_slice ?t po (po + ol) = Some (slice ?t (a - l) (b - l))"
        using part po(2) t(1) by (simp add: bytes_slice_def)
      have "collect_loop os source src fp (a, b) (p # ps) l out env =
          collect_loop os source src fp (a, b) ps (l + ?n) (out @ slice ?t (a - l) (b - l)) env"
        using False src len bs by (simp add: Inserted Let_def po_def [symmetric] ol [symmetric])
      then show ?thesis unfolding split append_assoc [symmetric]
        using IH [OF Cons.prems(1), of "out @ slice ?t (a - l) (b - l)"] by (simp del: append_assoc collect_loop.simps)
    qed
  qed
qed



section \<open>Saving in place\<close>

lemma report_smooth: "smooth os \<Longrightarrow> \<exists>env'. report os x env = (True, env') \<and> se_files env' = se_files env"
  by (simp add: report_def smooth_def)

lemma fs_smooth:
  assumes "smooth os"
  shows "sys_canonical os dest = Some f \<Longrightarrow> se_files env f \<noteq> None \<Longrightarrow> fs_open os dest env = (Inr f, tick env)"
    "fs_sync_all os env = (Inr (), tick env)"
    "se_files env f = Some s \<Longrightarrow> fs_set_len os f n env = (Inr (), tick (put_file f (take n s @ replicate (n - length s) 0) env))"
  using smooth_failing [OF assms] by (auto simp: fs_open_def fs_sync_all_def fs_set_len_def)

lemma collect_spec:
  assumes "smooth os" "source_for disk ov source" "se_files env src = Some disk" "fp_file_size fp = length disk"
    "a \<le> b" "b - a \<le> IN_PLACE_MAX_BYTES"
  shows "\<exists>env'. collect_logical_range_bytes os source src fp (a, b) env = Some (Inr (slice (ov_text disk ov) a b), env')
    \<and> se_files env' = se_files env"
  using collect_loop_spec [OF assms(1,3,4,5,6), of "ov_buffers ov" "ov_pieces ov" source 0 "[]"] assms(2,6)
  by (simp add: collect_logical_range_bytes_def range_len_def source_for_def ov_ok_def pieces_ok_def ov_text_def)

text \<open>The window rewritten at equal lengths, and the three steps of either shift, give the document.\<close>

lemma window_same:
  assumes "length doc = length disk" "P \<le> length disk - S" "S \<le> length disk" "take P doc = take P disk"
    "drop (length doc - S) doc = drop (length disk - S) disk"
  shows "write_bytes disk P (slice doc P (length doc - S)) = doc"
proof -
  have "take P doc @ slice doc P (length doc - S) @ drop (length doc - S) doc = doc"
    using take_slice [of P "length doc - S" doc] assms(1-3) by (metis append_assoc append_take_drop_id)
  then show ?thesis using assms by (simp add: write_bytes_in slice_def)
qed

lemma doc_parts:
  assumes "P \<le> length doc - S"
  shows "take P doc @ slice doc P (length doc - S) @ drop (length doc - S) doc = doc"
  using take_slice [OF assms, of doc] by (metis append_assoc append_take_drop_id)

lemma write_bytes_window: "length a = P + length c \<Longrightarrow> write_bytes (a @ b) P c = take P a @ c @ b"
  by (simp add: write_bytes_in)

lemma shift_right_doc:
  assumes "length disk < length doc" "P \<le> length disk - S" "S \<le> length disk" "take P doc = take P disk"
    "drop (length doc - S) doc = drop (length disk - S) disk"
  defines "g \<equiv> disk @ replicate (length doc - length disk) 0"
  shows "write_bytes (write_bytes g (length disk - S + (length doc - length disk)) (slice g (length disk - S) (length disk)))
      P (slice doc P (length doc - S)) = doc"
proof -
  have sl: "slice g (length disk - S) (length disk) = drop (length disk - S) disk" by (simp add: slice_def g_def)
  have pos: "length disk - S + (length doc - length disk) = length doc - S" using assms(1,3) by simp
  have lg: "length g = length doc" using assms(1) by (simp add: g_def)
  define h where "h = write_bytes g (length doc - S) (drop (length disk - S) disk)"
  have h: "h = take (length doc - S) g @ drop (length disk - S) disk" using lg assms(1,3) by (simp add: h_def write_bytes_in)
  have lc: "length (slice doc P (length doc - S)) = length doc - S - P" by (simp add: slice_def)
  have le: "P \<le> length doc - S" "length doc - S \<le> length doc" using assms(1,2) by simp_all
  have "write_bytes h P (slice doc P (length doc - S)) = take P doc @ slice doc P (length doc - S) @ drop (length disk - S) disk"
  proof -
    have "length (take (length doc - S) g) = P + length (slice doc P (length doc - S))" using lg le lc by simp
    moreover have "take P g = take P doc" using assms(2,4) by (simp add: g_def)
    then have "take P (take (length doc - S) g) = take P doc" using le(1) by (simp add: min_absorb1)
    ultimately show ?thesis using write_bytes_window [of "take (length doc - S) g" P] unfolding h by simp
  qed
  then show ?thesis using doc_parts [OF le(1)] assms(5) sl pos unfolding h_def by simp
qed

lemma shift_left_doc:
  assumes "length doc < length disk" "P \<le> length doc - S" "S \<le> length doc" "take P doc = take P disk"
    "drop (length doc - S) doc = drop (length disk - S) disk"
  defines "g \<equiv> write_bytes disk P (slice doc P (length doc - S))"
  shows "take (length doc) (write_bytes g (length doc - S) (slice g (length disk - S) (length disk))) = doc" "length g = length disk"
proof -
  have lc: "length (slice doc P (length doc - S)) = length doc - S - P" by (simp add: slice_def)
  have g: "g = take P doc @ slice doc P (length doc - S) @ drop (length doc - S) disk"
    using lc assms(1-4) by (simp add: g_def write_bytes_in)
  show lg: "length g = length disk" unfolding g_def by (rule length_write_bytes) (use lc assms(1,2) in simp)
  have sl: "slice g (length disk - S) (length disk) = drop (length disk - S) disk"
  proof -
    have "P + length (slice doc P (length doc - S)) \<le> length disk - S" "P + length (slice doc P (length doc - S)) \<le> length disk"
      unfolding lc using assms(1,2) by arith+
    from slice_write_bytes [OF this(2), of "length disk" "length disk - S"] this(1) show ?thesis by (simp add: g_def) (simp add: slice_def)
  qed
  have "take (length doc - S) g = take P doc @ slice doc P (length doc - S)" using g lc assms(2) by simp
  then have "take (length doc - S) g @ drop (length disk - S) disk = doc" using assms(5) doc_parts [OF assms(2)] by simp
  moreover have "write_bytes g (length doc - S) (drop (length disk - S) disk)
      = (take (length doc - S) g @ drop (length disk - S) disk) @ drop (length doc) g"
    using lg assms(1,3) by (simp add: write_bytes_in)
  ultimately show "take (length doc) (write_bytes g (length doc - S) (slice g (length disk - S) (length disk))) = doc"
    unfolding sl by simp
qed

lemma save_same_size_spec:
  assumes sm: "smooth os" and src: "source_for disk ov source" and f: "se_files env src = Some disk" "fp_file_size fp = length disk"
    and d: "sys_canonical os src = Some src" "length (ov_text disk ov) = length disk" "temp_path_for src None \<noteq> src"
  shows "\<exists>env'. save_same_size_in_place os source src fp src env = Some (Inr (), env')
    \<and> se_files env' src = Some (ov_text disk ov) \<and> (\<forall>q. q \<noteq> src \<longrightarrow> q \<noteq> temp_path_for src None \<longrightarrow> se_files env' q = se_files env q)"
proof -
  let ?doc = "ov_text disk ov"
  obtain pl S where pl: "plan_for_source source = Some pl" "S \<le> length disk" "pl_new_suffix_start pl = length ?doc - S"
    "pl_prefix_len pl \<le> length disk - S" "pl_prefix_len pl \<le> length ?doc - S"
    "take (pl_prefix_len pl) ?doc = take (pl_prefix_len pl) disk" "drop (length ?doc - S) ?doc = drop (length disk - S) disk"
    by (rule plan_for_source_spec [OF src])
  have full: "reads_full os" using sm by (simp add: smooth_def)
  show ?thesis
  proof (cases "new_changed_len pl > IN_PLACE_MAX_BYTES")
    case True
    obtain res env' where r: "stream_save_temp_file os source src fp src None env = Some (res, env')"
      "committed ?doc (temp_path_for src None) src res env env'" "res = Inr ()"
      using stream_save_temp_spec [OF src f(1) d(3) f(2) full] sm by blast
    then show ?thesis using True pl(1) d(3) by (auto simp: save_same_size_in_place_def committed_def)
  next
    case False
    obtain e1 where e1: "report os (0, src_total_bytes source) env = (True, e1)" "se_files e1 = se_files env"
      using report_smooth [OF sm] by blast
    have w: "pl_new_suffix_start pl - pl_prefix_len pl \<le> IN_PLACE_MAX_BYTES" using False by (simp add: new_changed_len_def)
    obtain e2 where e2: "collect_logical_range_bytes os source src fp (new_changed_range pl) e1 =
        Some (Inr (slice ?doc (pl_prefix_len pl) (length ?doc - S)), e2)" "se_files e2 = se_files env"
      using collect_spec [OF sm src _ f(2), of e1 src "pl_prefix_len pl" "length ?doc - S"] f(1) e1(2) pl(3,5) w by (auto simp: new_changed_range_def)
    let ?c = "slice ?doc (pl_prefix_len pl) (length ?doc - S)"
    have le: "pl_prefix_len pl + length ?c \<le> length disk" using pl(5) d(2) by (simp add: slice_def)
    have f2: "se_files (tick e2) src = Some disk" using e2(2) f(1) by simp
    obtain e3 where e3: "pwrite_all os src (pl_prefix_len pl) ?c (tick e2) = (Inr (), e3)"
      "se_files e3 = (se_files env)(src \<mapsto> write_bytes disk (pl_prefix_len pl) ?c)"
      using pwrite_all_spec [OF sm f2 le] e2(2) by auto
    have "write_bytes disk (pl_prefix_len pl) ?c = ?doc" by (rule window_same [OF d(2) pl(4,2,6,7)])
    then show ?thesis using False pl(1) e1 e2 e3 fs_smooth(1) [OF sm d(1), of e2] fs_smooth(2) [OF sm] f2
      by (simp add: save_same_size_in_place_def save_then_def io_then_def report_def)
  qed
qed

lemma shift_right_block:
  assumes sm: "smooth os" and f: "se_files env src = Some disk" and lt: "length disk < length doc"
    and h: "P \<le> length disk - S" "S \<le> length disk" "take P doc = take P disk" "drop (length doc - S) doc = drop (length disk - S) disk"
  defines "n \<equiv> length doc - length disk" and "c \<equiv> slice doc P (length doc - S)"
  shows "\<exists>env'. io_then dest (fs_set_len os src (length doc) env) (\<lambda>_ env.
      save_then (Some (shift_tail_right os src dest (length disk - S) n (length disk) env)) (\<lambda>_ env.
      io_then dest (pwrite_all os src P c env) (\<lambda>_ env. Some (Inr (), env)))) = Some (Inr (), env')
    \<and> se_files env' = (se_files env)(src \<mapsto> doc)"
proof -
  define g where "g = disk @ replicate n 0"
  let ?e = "tick (put_file src g env)"
  have sl: "fs_set_len os src (length doc) env = (Inr (), ?e)" using fs_smooth(3) [OF sm f, of "length doc"] lt by (simp add: g_def n_def)
  have g: "se_files ?e src = Some g" "length disk + n \<le> length g" "length g = length doc" using lt by (simp_all add: g_def n_def)
  let ?h = "write_bytes g (length disk - S + n) (slice g (length disk - S) (length disk))"
  obtain e4 where e4: "shift_tail_right os src dest (length disk - S) n (length disk) ?e = (Inr (), e4)"
    "se_files e4 = (se_files ?e)(src \<mapsto> ?h)"
    using shift_tail_right_spec [OF sm g(1) _ g(2), of "length disk - S" dest] by auto
  have "length (slice g (length disk - S) (length disk)) = S" using h(2) by (simp add: slice_def g_def)
  then have lh: "length ?h = length doc" using length_write_bytes [of "length disk - S + n" _ g] g(2,3) h(2) by simp
  have "P + length c \<le> length ?h" unfolding lh using h(1) lt by (simp add: c_def slice_def)
  then obtain e5 where e5: "pwrite_all os src P c e4 = (Inr (), e5)" "se_files e5 = (se_files e4)(src \<mapsto> write_bytes ?h P c)"
    using pwrite_all_spec [OF sm, of e4 src ?h P c] e4(2) by auto
  have "write_bytes ?h P c = doc" unfolding g_def n_def c_def by (rule shift_right_doc [OF lt h])
  then show ?thesis using sl e4 e5 by (simp add: io_then_def save_then_def)
qed

lemma shift_left_block:
  assumes sm: "smooth os" and f: "se_files env src = Some disk" and lt: "length doc < length disk"
    and h: "P \<le> length doc - S" "S \<le> length doc" "take P doc = take P disk" "drop (length doc - S) doc = drop (length disk - S) disk"
  defines "n \<equiv> length disk - length doc" and "c \<equiv> slice doc P (length doc - S)"
  shows "\<exists>env'. io_then dest (pwrite_all os src P c env) (\<lambda>_ env.
      save_then (shift_tail_left os src dest (length disk) n (length disk - S) env) (\<lambda>_ env.
      io_then dest (fs_set_len os src (length doc) env) (\<lambda>_ env. Some (Inr (), env)))) = Some (Inr (), env')
    \<and> se_files env' = (se_files env)(src \<mapsto> doc)"
proof -
  let ?g = "write_bytes disk P c"
  have le: "P + length c \<le> length disk" using h(1) lt by (simp add: c_def slice_def)
  obtain e3 where e3: "pwrite_all os src P c env = (Inr (), e3)" "se_files e3 = (se_files env)(src \<mapsto> ?g)"
    using pwrite_all_spec [OF sm f le] by auto
  note doc = shift_left_doc [OF lt h, folded c_def]
  have g: "se_files e3 src = Some ?g" using e3(2) by simp
  have n: "n \<le> length disk - S" "length disk - S - n = length doc - S" using lt h(2) by (simp_all add: n_def)
  let ?h = "write_bytes ?g (length doc - S) (slice ?g (length disk - S) (length disk))"
  obtain e4 where e4: "shift_tail_left os src dest (length disk) n (length disk - S) e3 = Some (Inr (), e4)"
    "se_files e4 = (se_files e3)(src \<mapsto> ?h)"
    using shift_tail_left_spec [OF sm g _ _ n(1), of "length disk" dest] doc(2) n(2) by auto
  have "length doc \<le> length ?h" using arg_cong [OF doc(1), of length] by simp
  then have "fs_set_len os src (length doc) e4 = (Inr (), tick (put_file src doc e4))"
    using fs_smooth(3) [OF sm, of e4 src ?h "length doc"] e4(2) doc(1) by simp
  then show ?thesis using e3 e4 by (simp add: io_then_def save_then_def)
qed

lemma save_tail_shift_spec:
  assumes sm: "smooth os" and src: "source_for disk ov source" and f: "se_files env src = Some disk" "fp_file_size fp = length disk"
    and d: "sys_canonical os src = Some src" "length (ov_text disk ov) \<noteq> length disk" "temp_path_for src dir \<noteq> src"
  shows "\<exists>env'. save_with_tail_shift os source src fp src dir env = Some (Inr (), env')
    \<and> se_files env' src = Some (ov_text disk ov) \<and> (\<forall>q. q \<noteq> src \<longrightarrow> q \<noteq> temp_path_for src dir \<longrightarrow> se_files env' q = se_files env q)"
proof -
  let ?doc = "ov_text disk ov"
  obtain pl S where pl: "plan_for_source source = Some pl" "S \<le> length disk" "pl_new_suffix_start pl = length ?doc - S"
    "pl_prefix_len pl \<le> length disk - S" "pl_prefix_len pl \<le> length ?doc - S"
    "take (pl_prefix_len pl) ?doc = take (pl_prefix_len pl) disk" "drop (length ?doc - S) ?doc = drop (length disk - S) disk"
    "pl_old_suffix_start pl = length disk - S" "pl_old_len pl = length disk" "S \<le> length ?doc"
    by (rule plan_for_source_spec [OF src])
  have full: "reads_full os" using sm by (simp add: smooth_def)
  have len: "src_total_bytes source = length ?doc" "source_byte_delta source = int (length ?doc) - int (length disk)"
    using src ov_text_len [of disk ov] by (simp_all add: source_for_def source_byte_delta_def)
  show ?thesis
  proof (cases "new_changed_len pl > IN_PLACE_MAX_BYTES")
    case True
    obtain res env' where r: "stream_save_temp_file os source src fp src dir env = Some (res, env')"
      "committed ?doc (temp_path_for src dir) src res env env'" "res = Inr ()"
      using stream_save_temp_spec [OF src f(1) d(3) f(2) full] sm by blast
    then show ?thesis using True pl(1) d(3) by (auto simp: save_with_tail_shift_def committed_def)
  next
    case False
    obtain e1 where e1: "report os (0, src_total_bytes source) env = (True, e1)" "se_files e1 = se_files env"
      using report_smooth [OF sm] by blast
    have w: "pl_new_suffix_start pl - pl_prefix_len pl \<le> IN_PLACE_MAX_BYTES" using False by (simp add: new_changed_len_def)
    let ?c = "slice ?doc (pl_prefix_len pl) (length ?doc - S)" and ?P = "pl_prefix_len pl"
    obtain e2 where e2: "collect_logical_range_bytes os source src fp (new_changed_range pl) e1 = Some (Inr ?c, e2)" "se_files e2 = se_files env"
      using collect_spec [OF sm src _ f(2), of e1 src ?P "length ?doc - S"] f(1) e1(2) pl(3,5) w by (auto simp: new_changed_range_def)
    have f2: "se_files (tick e2) src = Some disk" using e2(2) f(1) by simp
    have op: "fs_open os src e2 = (Inr src, tick e2)" using fs_smooth(1) [OF sm d(1), of e2] f2 by simp
    note here = False pl(1,8,9) e1 e2 op len fs_smooth(2) [OF sm]
    show ?thesis
    proof (cases "length disk < length ?doc")
      case True
      have "nat (source_byte_delta source) = length ?doc - length disk" "0 < source_byte_delta source" using True len(2) by simp_all
      with shift_right_block [OF sm f2 True pl(4,2,6,7), of src] here show ?thesis
        by (auto simp: save_with_tail_shift_def save_then_def [of "Some _"] report_def io_then_def [of _ "(_, _)"])
    next
      case no: False
      then have lt: "length ?doc < length disk" using d(2) by simp
      have "nat (- source_byte_delta source) = length disk - length ?doc" "\<not> 0 < source_byte_delta source" using lt len(2) by simp_all
      with shift_left_block [OF sm f2 lt pl(5,10,6,7), of src] here show ?thesis
        by (auto simp: save_with_tail_shift_def save_then_def [of "Some _"] report_def io_then_def [of _ "(_, _)"])
    qed
  qed
qed

end
