(* ===== verification/Core_Lossy.thy ===== *)
theory Core_Lossy
  imports Rope_Text_Laws
begin

text \<open>
  \<^verbatim>\<open>String::from_utf8_lossy\<close>, which decodes the bytes of very large files: every maximal part of an ill-formed sequence
  becomes one replacement character.
\<close>

text \<open>Whether the second byte may follow the first of a sequence of three or four bytes.\<close>

definition second_ok :: "byte \<Rightarrow> byte \<Rightarrow> bool" where
  "second_ok a b \<longleftrightarrow> is_cont b \<and> (a = 0xE0 \<longrightarrow> 0xA0 \<le> b) \<and> (a = 0xED \<longrightarrow> b < 0xA0)
     \<and> (a = 0xF0 \<longrightarrow> 0x90 \<le> b) \<and> (a = 0xF4 \<longrightarrow> b < 0x90)"

text \<open>The next character or ill-formed part: whether it is well formed, and its length.\<close>

definition utf8_chunk :: "byte \<Rightarrow> str \<Rightarrow> bool \<times> nat" where
  "utf8_chunk a r =
     (let n = len_utf8_from_first_byte a
      in if utf8_char (take n (a # r)) then (True, n)
         else if a < 0xC2 \<or> 0xF4 < a \<or> n = 2 then (False, 1)
         else case r of
             [] \<Rightarrow> (False, 1)
           | b # r' \<Rightarrow>
               if \<not> second_ok a b then (False, 1)
               else case r' of
                   [] \<Rightarrow> (False, 2)
                 | c # _ \<Rightarrow> if n = 3 \<or> \<not> is_cont c then (False, 2) else (False, 3))"

lemma utf8_chunk_pos: "0 < snd (utf8_chunk a r)"
  by (simp add: utf8_chunk_def Let_def len_utf8_from_first_byte_def split: list.split)

definition REPLACEMENT :: str where
  "REPLACEMENT = [0xEF, 0xBF, 0xBD]"

function from_utf8_lossy :: "str \<Rightarrow> str" where
  "from_utf8_lossy [] = []"
| "from_utf8_lossy (a # r) =
     (let (ok, n) = utf8_chunk a r
      in (if ok then take n (a # r) else REPLACEMENT) @ from_utf8_lossy (drop n (a # r)))"
  by pat_completeness auto
termination
proof (relation "measure length", goal_cases)
  case (2 a r p ok n)
  then have "0 < n" using utf8_chunk_pos [of a r] by (metis snd_conv)
  then show ?case by simp
qed simp

declare from_utf8_lossy.simps(2) [simp del]

lemma from_utf8_lossy_char:
  assumes "utf8_char c"
  shows "from_utf8_lossy (c @ s) = c @ from_utf8_lossy s"
proof -
  obtain a r where c: "c = a # r" using assms by (cases c) auto
  have l: "len_utf8_from_first_byte a = length c" using utf8_char_lead [OF assms] by (simp add: c)
  then have "utf8_chunk a (r @ s) = (True, length c)" using assms by (simp add: utf8_chunk_def Let_def c)
  then show ?thesis by (simp add: c from_utf8_lossy.simps(2))
qed

text \<open>Decoding valid text is the identity, and the result of decoding is always valid.\<close>

lemma from_utf8_lossy_valid: "utf8_valid s \<Longrightarrow> from_utf8_lossy s = s"
proof (induction "length s" arbitrary: s rule: less_induct)
  case less
  show ?case
  proof (cases s)
    case (Cons a r)
    let ?n = "len_utf8_from_first_byte a"
    have c: "utf8_char (take ?n s)" "utf8_valid (drop ?n s)" using less.prems by (simp_all add: utf8_valid_def Cons)
    have "0 < ?n" by (simp add: len_utf8_from_first_byte_def)
    then have "length (drop ?n s) < length s" by (simp add: Cons)
    from less.hyps [OF this c(2)] from_utf8_lossy_char [OF c(1), of "drop ?n s"] show ?thesis by simp
  qed simp
qed

lemma lossy_valid: "utf8_valid (from_utf8_lossy s)"
proof (induction s rule: from_utf8_lossy.induct)
  case (2 a r)
  obtain ok n where u: "utf8_chunk a r = (ok, n)" by (cases "utf8_chunk a r")
  have IH: "utf8_valid (from_utf8_lossy (drop n (a # r)))" using 2 u by simp
  have "utf8_char (take n (a # r))" if ok
    using u that by (auto simp: utf8_chunk_def Let_def split: if_splits list.splits)
  moreover have "utf8_char REPLACEMENT" by code_simp
  ultimately show ?case using IH by (simp add: from_utf8_lossy.simps(2) u utf8_valid_append_char)
qed simp

text \<open>The UTF-16 length of decoded bytes.\<close>

definition lossy_utf16_len :: "str \<Rightarrow> nat" where
  "lossy_utf16_len s = sum_list (map char_len_utf16 (str_chars (from_utf8_lossy s)))"

end
