(* ===== verification/Core_PageIndex.thy ===== *)
theory Core_PageIndex
  imports Core_Pager Core_Lossy
begin

text \<open>
  The page index of very large files, from \<^verbatim>\<open>xi-core-lib/src/vlf/page_index.rs\<close>, and the analysis of pages that fills it,
  from \<^verbatim>\<open>vlf/store/mod.rs\<close> and \<^verbatim>\<open>vlf/store/scan.rs\<close>.
\<close>

section \<open>Descriptors and the index\<close>

datatype scan_state = NotScanned | Scanned

record page_descriptor =
  pd_file_range :: byte_range
  pd_decoded_range :: byte_range
  pd_byte_len :: nat
  pd_utf16_len :: nat
  pd_newline_count :: nat
  pd_first_line_prefix_len :: nat
  pd_last_line_suffix_len :: nat
  pd_starts_at_utf8_boundary :: bool
  pd_ends_at_utf8_boundary :: bool
  pd_starts_with_lf_of_crlf :: bool
  pd_ends_with_cr_before_lf :: bool
  pd_scan_state :: scan_state

definition placeholder :: "byte_range \<Rightarrow> page_descriptor" where
  "placeholder r = \<lparr>pd_file_range = r, pd_decoded_range = r, pd_byte_len = range_len r, pd_utf16_len = 0, pd_newline_count = 0,
     pd_first_line_prefix_len = range_len r, pd_last_line_suffix_len = 0, pd_starts_at_utf8_boundary = False,
     pd_ends_at_utf8_boundary = False, pd_starts_with_lf_of_crlf = False, pd_ends_with_cr_before_lf = False,
     pd_scan_state = NotScanned\<rparr>"

record scan_progress =
  sp_scanned_bytes :: nat
  sp_total_bytes :: nat

definition scan_is_complete :: "scan_progress \<Rightarrow> bool" where
  "scan_is_complete p \<longleftrightarrow> sp_scanned_bytes p \<ge> sp_total_bytes p"

record page_index =
  pi_descriptors :: "(nat \<times> page_descriptor) list"
  pi_lines_prefix :: "(nat \<times> nat) list"
  pi_scanned_newlines_total :: nat
  pi_progress :: scan_progress
  pi_cancel_gen :: nat

definition page_index_new :: "nat \<Rightarrow> page_index" where
  "page_index_new total_bytes = \<lparr>pi_descriptors = [], pi_lines_prefix = [], pi_scanned_newlines_total = 0,
     pi_progress = \<lparr>sp_scanned_bytes = 0, sp_total_bytes = total_bytes\<rparr>, pi_cancel_gen = 0\<rparr>"

fun prefix_lines :: "nat \<Rightarrow> page_descriptor list \<Rightarrow> (nat \<times> nat) list" where
  "prefix_lines cum [] = []"
| "prefix_lines cum (d # ds) =
     (if pd_scan_state d \<noteq> Scanned then [] else (fst (pd_file_range d), cum) # prefix_lines (cum + pd_newline_count d) ds)"

definition rebuild_lines_prefix :: "page_index \<Rightarrow> page_index" where
  "rebuild_lines_prefix ix = ix\<lparr>pi_lines_prefix := prefix_lines 0 (map snd (pi_descriptors ix))\<rparr>"

definition index_insert :: "page_index \<Rightarrow> page_descriptor \<Rightarrow> page_index" where
  "index_insert ix desc =
     (let key = fst (pd_file_range desc);
          old = map_of (pi_descriptors ix) key;
          old_was_scanned = (case old of None \<Rightarrow> False | Some d \<Rightarrow> pd_scan_state d = Scanned);
          old_newlines = (case old of None \<Rightarrow> 0 | Some d \<Rightarrow> pd_newline_count d);
          now_scanned = (pd_scan_state desc = Scanned);
          ix = (if now_scanned then
              let ix = (if \<not> old_was_scanned then ix\<lparr>pi_progress := (pi_progress ix)
                      \<lparr>sp_scanned_bytes := sp_scanned_bytes (pi_progress ix) + pd_byte_len desc\<rparr>\<rparr> else ix);
                  delta = (if old_was_scanned then pd_newline_count desc - old_newlines else pd_newline_count desc)
              in ix\<lparr>pi_scanned_newlines_total := pi_scanned_newlines_total ix + delta\<rparr>
            else if old_was_scanned then ix\<lparr>pi_scanned_newlines_total := pi_scanned_newlines_total ix - old_newlines\<rparr>
            else ix);
          ix = ix\<lparr>pi_descriptors := bt_insert key desc (pi_descriptors ix)\<rparr>
      in if old_was_scanned \<noteq> now_scanned \<or> now_scanned then rebuild_lines_prefix ix else ix)"

definition cum_lines_before :: "page_index \<Rightarrow> nat \<Rightarrow> nat option" where
  "cum_lines_before ix page_start =
     (let idx = length (takeWhile (\<lambda>(start, _). start < page_start) (pi_lines_prefix ix))
      in case list_get (pi_lines_prefix ix) idx of
           None \<Rightarrow> None
         | Some (start, cum) \<Rightarrow> if start = page_start then Some cum else None)"

definition page_at_byte :: "page_index \<Rightarrow> nat \<Rightarrow> page_descriptor option" where
  "page_at_byte ix offset =
     (case takeWhile (\<lambda>(k, _). k \<le> offset) (pi_descriptors ix) of
        [] \<Rightarrow> None
      | ds \<Rightarrow> let d = snd (last ds) in if offset < snd (pd_file_range d) then Some d else None)"

text \<open>The last line that a page covers, by the next entry or by the total over all scanned pages.\<close>

definition page_last_line :: "page_index \<Rightarrow> nat \<Rightarrow> nat option" where
  "page_last_line ix i =
     (if i + 1 < length (pi_lines_prefix ix) then do { e \<leftarrow> list_get (pi_lines_prefix ix) (i + 1); Some (snd e) }
      else Some (pi_scanned_newlines_total ix))"

function find_page_loop :: "page_index \<Rightarrow> nat \<Rightarrow> nat \<Rightarrow> nat \<Rightarrow> nat option" where
  "find_page_loop ix line lo hi =
     (if lo < hi then
        let mid = (lo + hi) div 2
        in case page_last_line ix mid of
             None \<Rightarrow> None
           | Some e \<Rightarrow> if e < line then find_page_loop ix line (mid + 1) hi else find_page_loop ix line lo mid
      else Some lo)"
  by pat_completeness auto
termination
  by (relation "measure (\<lambda>(ix, line, lo, hi). hi - lo)") auto

declare find_page_loop.simps [simp del]

record page_line_location =
  loc_page :: page_descriptor
  loc_lines_before_page :: nat

definition find_page_for_line :: "page_index \<Rightarrow> nat \<Rightarrow> (line_lookup + page_line_location) option" where
  "find_page_for_line ix line =
     (let n = length (pi_lines_prefix ix);
          missing = (if scan_is_complete (pi_progress ix) then Inl OutOfRangeLine else Inl Pending)
      in if n = 0 then Some missing
         else do {
           lo \<leftarrow> find_page_loop ix line 0 n;
           if lo < n then do {
             (page_start, lines_before_page) \<leftarrow> list_get (pi_lines_prefix ix) lo;
             page \<leftarrow> map_of (pi_descriptors ix) page_start;
             Some (Inr \<lparr>loc_page = page, loc_lines_before_page = lines_before_page\<rparr>) }
           else if n < length (pi_descriptors ix) then Some (Inl Pending)
           else Some missing })"

definition index_line_to_byte :: "page_index \<Rightarrow> nat \<Rightarrow> line_lookup option" where
  "index_line_to_byte ix line = do {
     r \<leftarrow> find_page_for_line ix line;
     Some (case r of Inr loc \<Rightarrow> Exact (fst (pd_file_range (loc_page loc))) | Inl lookup \<Rightarrow> lookup) }"

definition bump_cancel :: "page_index \<Rightarrow> nat \<times> page_index" where
  "bump_cancel ix = (pi_cancel_gen ix + 1, ix\<lparr>pi_cancel_gen := pi_cancel_gen ix + 1\<rparr>)"


section \<open>Analysing pages\<close>

definition is_utf8_leading :: "byte option \<Rightarrow> bool" where
  "is_utf8_leading b = (case b of None \<Rightarrow> True | Some b \<Rightarrow> \<not> is_cont b)"

definition first_byte :: "str \<Rightarrow> byte option" where
  "first_byte s = (case s of [] \<Rightarrow> None | b # _ \<Rightarrow> Some b)"

definition last_byte :: "str \<Rightarrow> byte option" where
  "last_byte s = (if s = [] then None else Some (last s))"

unbundle bit_operations_syntax

definition ends_on_utf8_boundary :: "str \<Rightarrow> bool" where
  "ends_on_utf8_boundary s = (s = [] \<or>
     (let conts = takeWhile is_cont (rev s); cont = length conts
      in case dropWhile is_cont (rev s) of
           [] \<Rightarrow> False
         | leading # _ \<Rightarrow>
             if leading AND 0x80 = 0 then cont = 0
             else if leading AND 0xE0 = 0xC0 then cont = 1
             else if leading AND 0xF0 = 0xE0 then cont = 2
             else if leading AND 0xF8 = 0xF0 then cont = 3
             else False))"

definition leading_continuation_bytes :: "str \<Rightarrow> nat" where
  "leading_continuation_bytes s = length (takeWhile is_cont s)"

definition trailing_incomplete_bytes :: "str \<Rightarrow> nat" where
  "trailing_incomplete_bytes s =
     (if s = [] \<or> ends_on_utf8_boundary s then 0
      else let n = length (takeWhile is_cont (rev s)) in if n < length s then n + 1 else n)"

text \<open>
  The loop over the bytes of a page: \<open>i\<close> is the offset of the rest, \<open>prev\<close> the byte before it.  It returns the number of
  line ends and the offsets of the first and of the last one.
\<close>

fun line_ends_loop :: "bool \<Rightarrow> nat \<Rightarrow> byte option \<Rightarrow> str \<Rightarrow> nat \<times> nat option \<times> nat option \<Rightarrow> nat \<times> nat option \<times> nat option" where
  "line_ends_loop cr_before_lf i prev [] acc = acc"
| "line_ends_loop cr_before_lf i prev (b # bs) (n, first_nl, last_nl) =
     (let found = (\<lambda>last. (n + 1, (case first_nl of None \<Rightarrow> Some i | Some f \<Rightarrow> Some f), Some last))
      in if b = NL then
           line_ends_loop cr_before_lf (i + 1) (Some b) bs (if prev = Some 0x0D then (n, first_nl, last_nl) else found i)
         else if b = 0x0D then
           (case bs of
              [] \<Rightarrow> if cr_before_lf then (n, first_nl, last_nl) else found i
            | c # cs \<Rightarrow>
                if c = NL then line_ends_loop cr_before_lf (i + 2) (Some c) cs (found (i + 1))
                else line_ends_loop cr_before_lf (i + 1) (Some b) bs (found i))
         else line_ends_loop cr_before_lf (i + 1) (Some b) bs (n, first_nl, last_nl))"

definition analyse_bytes :: "str \<Rightarrow> bool \<Rightarrow> bool \<Rightarrow> nat \<times> nat \<times> nat \<times> nat" where
  "analyse_bytes bytes starts_with_lf_of_crlf ends_with_cr_before_lf =
     (let byte_len = length bytes;
          skip = starts_with_lf_of_crlf \<and> first_byte bytes = Some NL;
          (newline_count, first_nl, last_nl) =
            (if skip then line_ends_loop ends_with_cr_before_lf 1 (Some NL) (tl bytes) (0, None, None)
             else line_ends_loop ends_with_cr_before_lf 0 None bytes (0, None, None))
      in (newline_count, lossy_utf16_len bytes,
          (case first_nl of None \<Rightarrow> byte_len | Some i \<Rightarrow> i + 1),
          (case last_nl of None \<Rightarrow> byte_len | Some i \<Rightarrow> byte_len - i - 1)))"

text \<open>
  The descriptor of a page from its bytes, the same in \<^verbatim>\<open>scan_page_at\<close> and in the background scanner; they differ in
  where the flag of the page before comes from.
\<close>

definition describe_page :: "nat \<Rightarrow> nat \<Rightarrow> str \<Rightarrow> bool \<Rightarrow> bool \<Rightarrow> page_descriptor" where
  "describe_page pos page_end bytes starts_with_lf_of_crlf ends_with_cr_before_lf =
     (let starts_ok = (pos = 0 \<or> is_utf8_leading (first_byte bytes)); ends_ok = ends_on_utf8_boundary bytes;
          (newline_count, utf16_len, first_len, last_len) = analyse_bytes bytes starts_with_lf_of_crlf ends_with_cr_before_lf;
          decoded_start = (if starts_ok then pos else pos + leading_continuation_bytes bytes);
          decoded_end = (if ends_ok then page_end else page_end - trailing_incomplete_bytes bytes)
      in \<lparr>pd_file_range = (pos, page_end), pd_decoded_range = (decoded_start, decoded_end), pd_byte_len = page_end - pos,
          pd_utf16_len = utf16_len, pd_newline_count = newline_count, pd_first_line_prefix_len = first_len,
          pd_last_line_suffix_len = last_len, pd_starts_at_utf8_boundary = starts_ok, pd_ends_at_utf8_boundary = ends_ok,
          pd_starts_with_lf_of_crlf = starts_with_lf_of_crlf, pd_ends_with_cr_before_lf = ends_with_cr_before_lf,
          pd_scan_state = Scanned\<rparr>)"

text \<open>
  Scanning one page through the pager, with the statistics left out.  A failing peek counts as no line feed.
\<close>

definition scan_page_at ::
    "os_read \<Rightarrow> nat \<Rightarrow> nat \<Rightarrow> file_pager \<times> page_index \<Rightarrow> ((io_kind + unit) \<times> file_pager \<times> page_index) option" where
  "scan_page_at rd page_size page_start st = (let (fp, ix) = st
     in if page_start \<ge> fp_file_size fp then Some (Inr (), st)
        else do {
          let page_end = min (page_start + page_size) (fp_file_size fp);
          r \<leftarrow> read_at rd 0 fp (page_start, page_end) (current_generation fp);
          case r of
            (Inl e, fp) \<Rightarrow> Some (Inl e, fp, ix)
          | (Inr bytes, fp) \<Rightarrow> do {
              (ends_cr, fp) \<leftarrow> (if last_byte bytes = Some 0x0D \<and> page_end < fp_file_size fp then do {
                  (peek, fp) \<leftarrow> read_at rd 0 fp (page_end, page_end + 1) (current_generation fp);
                  Some (case peek of Inl _ \<Rightarrow> False | Inr p \<Rightarrow> first_byte p = Some NL, fp) }
                else Some (False, fp));
              let starts_lf = (first_byte bytes = Some NL \<and> page_start > 0
                \<and> (case page_at_byte ix (page_start - 1) of None \<Rightarrow> False | Some prev \<Rightarrow> pd_ends_with_cr_before_lf prev));
              Some (Inr (), fp, index_insert ix (describe_page page_start page_end bytes starts_lf ends_cr)) } })"

text \<open>
  The background scanner: a cancelled scan (\<open>stop pos\<close> before that page) or a failing read ends it.  It does not end for
  a page size of zero.
\<close>

partial_function (option) background_scan ::
    "os_read \<Rightarrow> (nat \<Rightarrow> bool) \<Rightarrow> nat \<Rightarrow> nat \<Rightarrow> nat \<Rightarrow> bool \<Rightarrow> page_descriptor list option" where
  "background_scan rd stop page_size file_size pos prev_ends_with_cr =
     (if pos < file_size \<and> \<not> stop pos then
        let page_end = min (pos + page_size) file_size
        in case pread_exact rd pos (page_end - pos) of
             Inl _ \<Rightarrow> Some []
           | Inr bytes \<Rightarrow>
               let ends_cr = (last_byte bytes = Some 0x0D \<and> page_end < file_size
                     \<and> (case pread_exact rd page_end 1 of Inl _ \<Rightarrow> False | Inr peek \<Rightarrow> first_byte peek = Some NL));
                   starts_lf = (first_byte bytes = Some NL \<and> pos > 0 \<and> prev_ends_with_cr)
               in do {
                 ds \<leftarrow> background_scan rd stop page_size file_size (pos + page_size) ends_cr;
                 Some (describe_page pos page_end bytes starts_lf ends_cr # ds) }
      else Some [])"

declare background_scan.simps [code]

text \<open>The store drains what the scanner has sent.\<close>

definition drain_incoming :: "page_index \<Rightarrow> page_descriptor list \<Rightarrow> page_index" where
  "drain_incoming ix ds = foldl index_insert ix ds"


section \<open>The index is a prefix sum\<close>

text \<open>
  \<open>pages\<close> gives the descriptor of each page start.  An index that was filled from it, in any order, holds these
  descriptors by increasing start, and all sums are over them.
\<close>

definition scanned_pages :: "(nat \<Rightarrow> page_descriptor) \<Rightarrow> bool" where
  "scanned_pages pages \<longleftrightarrow> (\<forall>k. fst (pd_file_range (pages k)) = k \<and> pd_scan_state (pages k) = Scanned)"

definition lines_in :: "page_descriptor list \<Rightarrow> nat" where
  "lines_in ds = sum_list (map pd_newline_count ds)"

definition index_ok :: "(nat \<Rightarrow> page_descriptor) \<Rightarrow> nat list \<Rightarrow> page_index \<Rightarrow> bool" where
  "index_ok pages ks ix \<longleftrightarrow> sorted_wrt (<) ks \<and> pi_descriptors ix = map (\<lambda>k. (k, pages k)) ks
     \<and> pi_lines_prefix ix = prefix_lines 0 (map pages ks) \<and> pi_scanned_newlines_total ix = lines_in (map pages ks)
     \<and> sp_scanned_bytes (pi_progress ix) = sum_list (map (pd_byte_len \<circ> pages) ks)"

lemma index_new_ok: "index_ok pages [] (page_index_new n)"
  by (simp add: index_ok_def page_index_new_def lines_in_def)

lemma bt_insert_map:
  "sorted_wrt (<) ks \<Longrightarrow> bt_insert k (f k) (map (\<lambda>k. (k, f k)) ks) = map (\<lambda>k. (k, f k)) (if k \<in> set ks then ks else insort k ks)"
  by (induction ks) (auto simp: insort_key.simps dest: less_imp_not_eq2)

lemma insort_strict: "sorted_wrt (<) ks \<Longrightarrow> k \<notin> set ks \<Longrightarrow> sorted_wrt (<) (insort k ks)"
  by (simp add: strict_sorted_iff sorted_insort distinct_insort)

lemma sum_insort: "sum_list (map f (insort k ks)) = (f k :: nat) + sum_list (map f ks)" for ks :: "nat list"
  by (induction ks) auto

lemma index_insert_ok:
  assumes p: "scanned_pages pages" and ok: "index_ok pages ks ix"
  shows "index_ok pages (if k \<in> set ks then ks else insort k ks) (index_insert ix (pages k))"
proof -
  have k: "fst (pd_file_range (pages k)) = k" "pd_scan_state (pages k) = Scanned" using p by (simp_all add: scanned_pages_def)
  have h: "sorted_wrt (<) ks" "pi_descriptors ix = map (\<lambda>k. (k, pages k)) ks" using ok by (simp_all add: index_ok_def)
  have old: "map_of (pi_descriptors ix) k = (if k \<in> set ks then Some (pages k) else None)"
    unfolding h(2) by (induction ks) auto
  show ?thesis using ok old k bt_insert_map [OF h(1), of k pages] insort_strict [OF h(1), of k]
    by (simp add: index_insert_def Let_def index_ok_def rebuild_lines_prefix_def lines_in_def sum_insort comp_def)
qed

lemma drain_ok:
  assumes "scanned_pages pages"
  shows "index_ok pages ks ix \<Longrightarrow> \<exists>ks'. index_ok pages ks' (drain_incoming ix (map pages js)) \<and> set ks' = set ks \<union> set js"
proof (induction js arbitrary: ks ix)
  case Nil
  then show ?case by (auto simp: drain_incoming_def)
next
  case (Cons j js)
  let ?ks = "if j \<in> set ks then ks else insort j ks"
  have "set ?ks = set ks \<union> {j}" by (auto simp: set_insort_key)
  moreover obtain ks' where "index_ok pages ks' (drain_incoming (index_insert ix (pages j)) (map pages js))" "set ks' = set ?ks \<union> set js"
    using Cons.IH [OF index_insert_ok [OF assms Cons.prems]] by blast
  ultimately show ?case by (intro exI [of _ ks']) (auto simp: drain_incoming_def)
qed

lemma prefix_lines_nth:
  "\<forall>d \<in> set ds. pd_scan_state d = Scanned \<Longrightarrow> length (prefix_lines c ds) = length ds
    \<and> (\<forall>i < length ds. prefix_lines c ds ! i = (fst (pd_file_range (ds ! i)), c + lines_in (take i ds)))"
proof (induction ds arbitrary: c)
  case (Cons d ds)
  then show ?case using Cons.IH [of "c + pd_newline_count d"] by (auto simp: lines_in_def nth_Cons split: nat.split)
qed simp

lemma lines_in_take_mono: "i \<le> j \<Longrightarrow> lines_in (take i ds) \<le> lines_in (take j ds)"
proof -
  assume "i \<le> j"
  then obtain k where "j = i + k" by (auto simp: le_iff_add)
  then show ?thesis by (simp add: lines_in_def take_add)
qed

text \<open>The binary search finds the first page whose last line is not before the line.\<close>

lemma find_page_loop_spec:
  assumes e: "\<And>i. i < n \<Longrightarrow> page_last_line ix i = Some (e i)" and mono: "\<And>i j. i \<le> j \<Longrightarrow> e i \<le> e j"
    and b: "lo \<le> hi" "hi \<le> n" "\<forall>j < lo. e j < line" "\<forall>j. hi \<le> j \<longrightarrow> j < n \<longrightarrow> line \<le> e j"
  shows "\<exists>r \<le> n. find_page_loop ix line lo hi = Some r \<and> (\<forall>j < r. e j < line) \<and> (\<forall>j. r \<le> j \<longrightarrow> j < n \<longrightarrow> line \<le> e j)"
  using b
proof (induction "hi - lo" arbitrary: lo hi rule: less_induct)
  case less
  show ?case
  proof (cases "lo < hi")
    case True
    define mid where "mid = (lo + hi) div 2"
    have mid: "lo \<le> mid" "mid < hi" using True by (auto simp: mid_def)
    then have pm: "page_last_line ix mid = Some (e mid)" using e less.prems(2) by simp
    have eq: "find_page_loop ix line lo hi = (if e mid < line then find_page_loop ix line (mid + 1) hi else find_page_loop ix line lo mid)"
      using True pm by (subst find_page_loop.simps) (simp add: mid_def [symmetric] Let_def)
    show ?thesis
    proof (cases "e mid < line")
      case True
      have "\<forall>j < mid + 1. e j < line" using True mono le_less_trans by (metis less_add_one less_Suc_eq_le Suc_eq_plus1)
      then show ?thesis using less.hyps [of hi "mid + 1"] mid less.prems True by (simp add: eq)
    next
      case False
      have "\<forall>j. mid \<le> j \<longrightarrow> j < n \<longrightarrow> line \<le> e j" using False mono le_trans not_less by metis
      then show ?thesis using less.hyps [of mid lo] mid less.prems False by (simp add: eq)
    qed
  next
    case False
    then have "lo = hi" using less.prems(1) by simp
    then show ?thesis using less.prems by (subst find_page_loop.simps) auto
  qed
qed

lemma find_page_spec:
  assumes p: "scanned_pages pages" and ok: "index_ok pages ks ix"
  shows "line \<le> lines_in (map pages ks) \<Longrightarrow> ks \<noteq> [] \<Longrightarrow> \<exists>pre k post. ks = pre @ k # post
      \<and> find_page_for_line ix line = Some (Inr \<lparr>loc_page = pages k, loc_lines_before_page = lines_in (map pages pre)\<rparr>)
      \<and> line \<le> lines_in (map pages pre) + pd_newline_count (pages k) \<and> (pre = [] \<or> lines_in (map pages pre) < line)"
    "line > lines_in (map pages ks) \<or> ks = [] \<Longrightarrow> find_page_for_line ix line =
      Some (Inl (if scan_is_complete (pi_progress ix) then OutOfRangeLine else Pending))"
proof -
  let ?ds = "map pages ks" and ?n = "length ks"
  define e where "e = (\<lambda>i. lines_in (take (i + 1) ?ds))"
  have pn: "length (pi_lines_prefix ix) = ?n" "\<And>i. i < ?n \<Longrightarrow> pi_lines_prefix ix ! i = (ks ! i, lines_in (take i ?ds))"
    using prefix_lines_nth [of ?ds 0] ok p by (simp_all add: index_ok_def scanned_pages_def)
  have tot: "pi_scanned_newlines_total ix = lines_in ?ds" using ok by (simp add: index_ok_def)
  have pl: "page_last_line ix i = Some (e i)" if "i < ?n" for i
    using that pn tot by (auto simp: page_last_line_def list_get_def e_def not_less_eq)
  have mono: "e i \<le> e j" if "i \<le> j" for i j unfolding e_def using lines_in_take_mono [of "i + 1" "j + 1" ?ds] that by simp
  obtain r where r: "r \<le> ?n" "find_page_loop ix line 0 ?n = Some r" "\<forall>j < r. e j < line" "\<forall>j. r \<le> j \<longrightarrow> j < ?n \<longrightarrow> line \<le> e j"
    using find_page_loop_spec [of ?n ix e 0 ?n line] pl mono by auto
  have last: "e (?n - 1) = lines_in ?ds" if "ks \<noteq> []" using that by (simp add: e_def)
  have "k \<in> set xs \<Longrightarrow> map_of (map (\<lambda>k. (k, pages k)) xs) k = Some (pages k)" for k xs by (induction xs) auto
  then have descs: "map_of (pi_descriptors ix) k = Some (pages k)" if "k \<in> set ks" for k
    using ok that by (simp add: index_ok_def)
  show "\<exists>pre k post. ks = pre @ k # post
      \<and> find_page_for_line ix line = Some (Inr \<lparr>loc_page = pages k, loc_lines_before_page = lines_in (map pages pre)\<rparr>)
      \<and> line \<le> lines_in (map pages pre) + pd_newline_count (pages k) \<and> (pre = [] \<or> lines_in (map pages pre) < line)"
    if le: "line \<le> lines_in ?ds" "ks \<noteq> []"
  proof -
    have rn: "r < ?n" using r(3) last [OF le(2)] le by (metis One_nat_def diff_less le_less_trans length_greater_0_conv less_irrefl not_less r(1) zero_less_one le_neq_implies_less)
    have s: "ks = take r ks @ ks ! r # drop (Suc r) ks" using rn by (simp add: id_take_nth_drop)
    have er: "e r = lines_in (map pages (take r ks)) + pd_newline_count (pages (ks ! r))"
      using rn by (simp add: e_def lines_in_def take_map take_Suc_conv_app_nth)
    have "find_page_for_line ix line = Some (Inr \<lparr>loc_page = pages (ks ! r), loc_lines_before_page = lines_in (map pages (take r ks))\<rparr>)"
      using rn r(2) pn descs [of "ks ! r"] le(2) by (simp add: find_page_for_line_def Let_def list_get_def take_map)
    moreover have "line \<le> e r" using r(4) rn by simp
    moreover have "take r ks = [] \<or> lines_in (map pages (take r ks)) < line"
    proof (cases r)
      case (Suc j)
      then have "e j < line" using r(3) by simp
      then show ?thesis by (simp add: Suc e_def take_map)
    qed simp
    ultimately show ?thesis using s er by metis
  qed
  show "find_page_for_line ix line = Some (Inl (if scan_is_complete (pi_progress ix) then OutOfRangeLine else Pending))"
    if gt: "line > lines_in ?ds \<or> ks = []"
  proof (cases "ks = []")
    case True
    then show ?thesis using pn by (simp add: find_page_for_line_def Let_def)
  next
    case False
    then have "r = ?n" using r(1,4) last [OF False] gt by (metis One_nat_def Suc_pred diff_less leD length_greater_0_conv less_Suc_eq_le linorder_neqE_nat order.strict_iff_order zero_less_one)
    moreover have "length (pi_descriptors ix) = ?n" using ok by (simp add: index_ok_def)
    ultimately show ?thesis using False r(2) pn by (simp add: find_page_for_line_def Let_def)
  qed
qed



section \<open>Files without carriage returns\<close>

lemma line_ends_count:
  "0x0D \<notin> set bs \<Longrightarrow> prev \<noteq> Some 0x0D \<Longrightarrow> fst (line_ends_loop c i prev bs (n, f, l)) = n + cnt (\<lambda>b. b = NL) bs"
proof (induction bs arbitrary: i prev n f l)
  case (Cons b bs)
  have "b \<noteq> 0x0D" using Cons.prems(1) by auto
  then show ?case using Cons by (auto simp: Let_def)
qed simp

function page_starts :: "nat \<Rightarrow> nat \<Rightarrow> nat \<Rightarrow> nat list" where
  "page_starts page_size file_size pos =
     (if 0 < page_size \<and> pos < file_size then pos # page_starts page_size file_size (pos + page_size) else [])"
  by pat_completeness auto
termination
  by (relation "measure (\<lambda>(page_size, file_size, pos). file_size - pos)") auto

declare page_starts.simps [simp del]

definition page_of :: "str \<Rightarrow> nat \<Rightarrow> nat \<Rightarrow> page_descriptor" where
  "page_of disk page_size k = (let page_end = min (k + page_size) (length disk)
     in describe_page k page_end (slice disk k page_end) False False)"

lemma page_of_simps: "pd_file_range (page_of disk ps k) = (k, min (k + ps) (length disk))"
  "pd_scan_state (page_of disk ps k) = Scanned" "pd_byte_len (page_of disk ps k) = min (k + ps) (length disk) - k"
  by (simp_all add: page_of_def describe_page_def Let_def split: prod.split)

lemma page_of_scanned: "scanned_pages (page_of disk ps)"
  by (simp add: scanned_pages_def page_of_simps)

lemma set_slice: "set (slice xs a b) \<subseteq> set xs"
  by (auto simp: slice_def dest: in_set_takeD in_set_dropD)

lemma analyse_count:
  "fst (analyse_bytes bytes False False) = fst (line_ends_loop False 0 None bytes (0, None, None))"
  by (cases "line_ends_loop False 0 None bytes (0, None, None)") (simp add: analyse_bytes_def Let_def)

lemma describe_page_count:
  "pd_newline_count (describe_page k e bytes p n) = fst (analyse_bytes bytes p n)"
  by (cases "analyse_bytes bytes p n") (simp add: describe_page_def Let_def)

lemma page_of_newlines:
  assumes "0x0D \<notin> set disk"
  shows "pd_newline_count (page_of disk ps k) = cnt (\<lambda>b. b = NL) (slice disk k (min (k + ps) (length disk)))"
proof -
  have n: "0x0D \<notin> set (slice disk k (min (k + ps) (length disk)))" using assms set_slice [of disk k "min (k + ps) (length disk)"] by auto
  show ?thesis using line_ends_count [OF n, of None False 0 0 None None]
    by (simp only: page_of_def Let_def describe_page_count analyse_count add_0 option.distinct simp_thms)
qed

lemma page_starts_sorted: "sorted_wrt (<) (page_starts ps n pos) \<and> (\<forall>k \<in> set (page_starts ps n pos). pos \<le> k \<and> k < n)"
proof (induction ps n pos rule: page_starts.induct)
  case (1 ps n pos)
  then show ?case by (subst (1 2) page_starts.simps) fastforce
qed

lemma page_starts_lines:
  assumes "0x0D \<notin> set disk"
  shows "page_starts ps (length disk) pos = pre @ k # post \<Longrightarrow>
    cnt (\<lambda>b. b = NL) (take pos disk) + lines_in (map (page_of disk ps) pre) = cnt (\<lambda>b. b = NL) (take k disk)"
proof (induction pre arbitrary: pos)
  case Nil
  then show ?case by (subst (asm) page_starts.simps) (auto simp: lines_in_def split: if_splits)
next
  case (Cons x pre)
  have h: "x = pos" "page_starts ps (length disk) (pos + ps) = pre @ k # post"
    using Cons.prems by (subst (asm) page_starts.simps, simp split: if_splits)+
  have "pos + ps < length disk" using h(2) by (subst (asm) page_starts.simps) (simp split: if_splits)
  then have "cnt (\<lambda>b. b = NL) (take (pos + ps) disk) = cnt (\<lambda>b. b = NL) (take pos disk) + pd_newline_count (page_of disk ps pos)"
    unfolding page_of_newlines [OF assms] by (simp add: take_add slice_def)
  then show ?case using Cons.IH [OF h(2)] h(1) by (simp add: lines_in_def)
qed

lemma page_starts_all:
  assumes "0x0D \<notin> set disk" "0 < ps" "pos \<le> length disk"
  shows "cnt (\<lambda>b. b = NL) (take pos disk) + lines_in (map (page_of disk ps) (page_starts ps (length disk) pos)) = cnt (\<lambda>b. b = NL) disk"
    "sum_list (map (pd_byte_len \<circ> page_of disk ps) (page_starts ps (length disk) pos)) = length disk - pos"
  using assms(3)
proof (induction "length disk - pos" arbitrary: pos rule: less_induct)
  case less
  note eq = page_starts.simps [of ps "length disk" pos]
  let ?e = "min (pos + ps) (length disk)"
  have end_pages: "page_starts ps (length disk) q = []" if "length disk \<le> q" for q using that page_starts.simps [of ps "length disk" q] by simp
  {
    case 1
    have "cnt (\<lambda>b. b = NL) (take ?e disk) = cnt (\<lambda>b. b = NL) (take pos disk) + pd_newline_count (page_of disk ps pos)"
      unfolding page_of_newlines [OF assms(1)] using take_slice [of pos ?e disk] 1 by (metis (no_types, lifting) filter_append length_append le_add1 min.bounded_iff)
    then show ?case
      using less(1) [of "pos + ps"] 1 assms(2) end_pages by (cases "pos + ps \<le> length disk") (auto simp: eq lines_in_def add.assoc)
  next
    case 2
    then show ?case using less(2) [of "pos + ps"] assms(2) end_pages by (cases "pos + ps \<le> length disk") (auto simp: eq page_of_simps)
  }
qed

text \<open>The background scanner describes these pages.\<close>

lemma background_scan_pages:
  assumes cr: "0x0D \<notin> set disk" and rd: "full_reads disk rd"
  shows "0 < ps \<Longrightarrow> background_scan rd (\<lambda>_. False) ps (length disk) pos False = Some (map (page_of disk ps) (page_starts ps (length disk) pos))"
proof (induction ps "length disk" pos rule: page_starts.induct)
  case (1 ps pos)
  let ?e = "min (pos + ps) (length disk)"
  have "last_byte (slice disk pos ?e) \<noteq> Some 0x0D"
    using cr subsetD [OF set_slice [of disk pos ?e] last_in_set] by (auto simp: last_byte_def)
  moreover have "rd pos (?e - pos) = Inr (slice disk pos ?e)" if "pos < length disk"
    using full_reads.read_full [OF rd, of pos "?e - pos"] that by auto
  ultimately show ?case using 1
    by (subst page_starts.simps, subst background_scan.simps) (simp add: pread_exact_def page_of_def Let_def)
qed

text \<open>An index that got all pages, in any order and any number of times.\<close>

lemma drained_index:
  assumes "set ds = set (map (page_of disk ps) (page_starts ps (length disk) 0))"
  shows "index_ok (page_of disk ps) (page_starts ps (length disk) 0) (drain_incoming (page_index_new n) ds)"
proof -
  let ?js = "map (fst \<circ> pd_file_range) ds" and ?k = "page_starts ps (length disk) 0"
  have "map (page_of disk ps) ?js = ds" using assms by (auto simp: page_of_simps intro!: map_idI)
  moreover obtain ks where ks: "index_ok (page_of disk ps) ks (drain_incoming (page_index_new n) (map (page_of disk ps) ?js))"
      "set ks = set ?js" using drain_ok [OF page_of_scanned index_new_ok, of disk ps n ?js] by auto
  moreover have "set ?js = set ?k" using assms by (force simp: page_of_simps)
  moreover have "sorted_wrt (<) ks" "sorted_wrt (<) ?k" using ks(1) page_starts_sorted [of ps "length disk" 0] by (auto simp: index_ok_def)
  ultimately show ?thesis using sorted_distinct_set_unique [of ks ?k] by (metis strict_sorted_iff)
qed

lemma drained_total: "sp_total_bytes (pi_progress (drain_incoming ix ds)) = sp_total_bytes (pi_progress ix)"
proof (induction ds arbitrary: ix)
  case (Cons d ds)
  have "sp_total_bytes (pi_progress (index_insert ix d)) = sp_total_bytes (pi_progress ix)"
    by (simp add: index_insert_def Let_def rebuild_lines_prefix_def)
  then show ?case using Cons [of "index_insert ix d"] by (simp add: drain_incoming_def)
qed (simp add: drain_incoming_def)

lemma complete_index:
  assumes cr: "0x0D \<notin> set disk" and ps: "0 < ps" and disk: "disk \<noteq> []"
    and ds: "set ds = set (map (page_of disk ps) (page_starts ps (length disk) 0))" and ix: "ix = drain_incoming (page_index_new (length disk)) ds"
  shows "scan_is_complete (pi_progress ix)"
    "line \<le> cnt (\<lambda>b. b = NL) disk \<Longrightarrow> \<exists>k. find_page_for_line ix line
          = Some (Inr \<lparr>loc_page = page_of disk ps k, loc_lines_before_page = cnt (\<lambda>b. b = NL) (take k disk)\<rparr>)
        \<and> k \<in> set (page_starts ps (length disk) 0)
        \<and> (k = 0 \<or> cnt (\<lambda>b. b = NL) (take k disk) < line) \<and> line \<le> cnt (\<lambda>b. b = NL) (take (k + ps) disk)"
    "cnt (\<lambda>b. b = NL) disk < line \<Longrightarrow> find_page_for_line ix line = Some (Inl OutOfRangeLine)"
proof -
  let ?ks = "page_starts ps (length disk) 0" and ?p = "page_of disk ps"
  have ok: "index_ok ?p ?ks ix" unfolding ix using ds by (rule drained_index)
  have all: "lines_in (map ?p ?ks) = cnt (\<lambda>b. b = NL) disk" "sum_list (map (pd_byte_len \<circ> ?p) ?ks) = length disk"
    using page_starts_all [OF cr ps, of 0] by simp_all
  have ne: "?ks \<noteq> []" using ps disk page_starts.simps [of ps "length disk" 0] by simp
  show comp: "scan_is_complete (pi_progress ix)"
    using ok all(2) drained_total [of "page_index_new (length disk)" ds]
    by (simp add: scan_is_complete_def index_ok_def flip: ix) (simp add: page_index_new_def)
  note find = find_page_spec [OF page_of_scanned ok, unfolded all(1)]
  show "cnt (\<lambda>b. b = NL) disk < line \<Longrightarrow> find_page_for_line ix line = Some (Inl OutOfRangeLine)" using find(2) comp by simp
  assume le: "line \<le> cnt (\<lambda>b. b = NL) disk"
  obtain pre k post where k: "?ks = pre @ k # post"
    "find_page_for_line ix line = Some (Inr \<lparr>loc_page = ?p k, loc_lines_before_page = lines_in (map ?p pre)\<rparr>)"
    "line \<le> lines_in (map ?p pre) + pd_newline_count (?p k)" "pre = [] \<or> lines_in (map ?p pre) < line"
    using find(1) [OF le ne] by blast
  have n: "lines_in (map ?p pre) = cnt (\<lambda>b. b = NL) (take k disk)" using page_starts_lines [OF cr k(1)] by simp
  have z: "k = 0" if "pre = []" using k(1) that ps disk page_starts.simps [of ps "length disk" 0] by simp
  have "cnt (\<lambda>b. b = NL) (take k disk) + pd_newline_count (?p k) = cnt (\<lambda>b. b = NL) (take (k + ps) disk)"
    by (simp add: page_of_newlines [OF cr] slice_def take_add min_def)
  then show "\<exists>k. find_page_for_line ix line = Some (Inr \<lparr>loc_page = ?p k, loc_lines_before_page = cnt (\<lambda>b. b = NL) (take k disk)\<rparr>)
        \<and> k \<in> set ?ks \<and> (k = 0 \<or> cnt (\<lambda>b. b = NL) (take k disk) < line) \<and> line \<le> cnt (\<lambda>b. b = NL) (take (k + ps) disk)"
    using k n z by (intro exI [of _ k]) auto
qed

end
