(* ===== verification/Spec2Isabelle.thy ===== *)
theory Spec2Isabelle
  imports Core_Selection Core_LineCache Core_Words Core_LineOffset Core_Detect Core_Save_Laws Core_PageIndex "HOL-Library.Code_Target_Nat"
begin

text \<open>
  A verification library for \<^verbatim>\<open>ee\<close>, an editor whose documents live in the crate \<^verbatim>\<open>xi-rope\<close>.

  \<^bold>\<open>The program.\<close>  A document is a \<^emph>\<open>rope\<close>: a persistent b-tree of string leaves
  (\<^verbatim>\<open>crates/xi-rope/src/tree\<close>, \<^verbatim>\<open>rope\<close>).  Changes are \<^emph>\<open>deltas\<close>, lists of copies of the old document
  and inserts of new ropes (\<^verbatim>\<open>delta\<close>), and sets of positions with multiplicities are \<^emph>\<open>subsets\<close>
  (\<^verbatim>\<open>multiset.rs\<close>), over \<^emph>\<open>intervals\<close> (\<^verbatim>\<open>interval.rs\<close>).  The \<^emph>\<open>engine\<close> (\<^verbatim>\<open>engine\<close>) keeps the current
  text, the tombstones of deleted characters and the list of revisions, accepts edits against any
  revision, undoes groups of edits, collects garbage and merges with another engine.  Files that are too large for a
  rope (\<^verbatim>\<open>crates/xi-core-lib/src/vlf\<close>) stay on disk: a \<^emph>\<open>pager\<close> reads them through a cache, an \<^emph>\<open>index of pages\<close> that is
  filled by scans finds their lines, and edits live in an \<^emph>\<open>overlay\<close> of pieces, from which a save streams the document.

  \<^bold>\<open>The theories.\<close>
  \<^item> \<open>Rope_Prelude\<close>: the option monad, machine arithmetic, slices and selection by labels.
  \<^item> \<open>Rope_Interval\<close>: \<^verbatim>\<open>Interval\<close> and \<^verbatim>\<open>IntervalBounds\<close>.
  \<^item> \<open>Rope_Multiset\<close>: \<^verbatim>\<open>Subset\<close>, its builder, iterators and \<^verbatim>\<open>Mapper\<close>, refined to lists of
    multiplicities (\<open>counts\<close>, \<open>enc\<close>): each operation is a list function on well-formed sets.
  \<^item> \<open>Rope_Tree\<close>: \<^verbatim>\<open>Node\<close>, concatenation, \<^verbatim>\<open>TreeBuilder\<close>, slicing, the integrity check.
    \<open>Rope_Tree_Laws\<close>: the locale \<open>leaf_laws\<close> for the traits \<^verbatim>\<open>Leaf\<close> and \<^verbatim>\<open>NodeInfo\<close>, and the tree as a
    sequence for every such leaf.
  \<^item> \<open>Rope_Text\<close>: bytes, UTF-8, the \<^verbatim>\<open>String\<close> leaf, \<^verbatim>\<open>RopeInfo\<close> and the rope builders.
    \<open>Rope_Text_Laws\<close>: \<open>leaf_laws\<close> for strings (a sublocale), split points, UTF-16 offsets.
  \<^item> \<open>Rope_Metric\<close>: the trait \<^verbatim>\<open>Metric\<close> with its contract (locale \<open>metric_laws\<close>, and \<open>metric_pair\<close> for
    conversions), the metrics of text as sublocales, lines and offsets.  \<open>Rope_Cursor\<close>: \<^verbatim>\<open>tree/cursor.rs\<close> and
    the functions of \<^verbatim>\<open>rope/core.rs\<close> that use it.  \<open>Rope_Cursor_Laws\<close>: a cursor stands at a path of the tree
    and its cache is the lower end of that path; moving to a neighbouring leaf keeps this in trees of every
    height.  \<open>Rope_Chunk_Laws\<close>: setting a cursor, metrics of a leaf's start.
  \<^item> \<open>Rope_Iter\<close>: iterators, conversions, views and the operations by character index (\<^verbatim>\<open>rope/impls.rs\<close>,
    \<^verbatim>\<open>iter.rs\<close>, \<^verbatim>\<open>slice.rs\<close>, \<^verbatim>\<open>chars.rs\<close>).  \<open>Rope_Iter_Laws\<close>: chunks and lines.  \<open>Rope_Char_Laws\<close>: characters.
  \<^item> \<open>Rope_Delta\<close>: \<^verbatim>\<open>Delta\<close>, \<^verbatim>\<open>InsertDelta\<close>, \<^verbatim>\<open>Builder\<close>, \<^verbatim>\<open>Transformer\<close>, the iterators.
    \<open>Rope_Delta_Laws\<close>: application, deletion and synthesis.  \<open>Rope_Insert_Laws\<close>: factoring and the
    two transformations of insert deltas.  \<open>Rope_Transform_Laws\<close>: the coordinate transformer.
  \<^item> \<open>Rope_Engine\<close>: all of \<^verbatim>\<open>engine\<close>.  \<open>Rope_Engine_Laws\<close>: the invariant and undo.
    \<open>Rope_History_Laws\<close>: reading old revisions, edits against any revision.  \<open>Rope_Engine_Run\<close>:
    deltas from the builder, runs of the engine, a concrete environment.
  \<^item> \<open>Core_IndexSet\<close>, \<open>Core_Selection\<close>, \<open>Core_LineCache\<close>: the editor core's sets of positions, selections and
    the shadow of the front end's line cache (\<^verbatim>\<open>crates/xi-core-lib/src/index_set.rs\<close>, \<^verbatim>\<open>selection.rs\<close>,
    \<^verbatim>\<open>line_cache_shadow.rs\<close>).  The first two are moved along by the coordinate transformer of the deltas.
  \<^item> \<open>Rope_Breaks\<close>: sets of breaks (\<^verbatim>\<open>breaks.rs\<close>), another leaf of the tree, as an instance of \<open>leaf_laws\<close> and
    \<open>metric_laws\<close>.  \<open>Core_LineOffset\<close>: grapheme steps, and lines and columns of the text and of breaks
    (\<^verbatim>\<open>line_offset.rs\<close>), with the contract \<open>line_offset_laws\<close> of a division into lines.  \<open>Core_Detect\<close>: the probes for
    indentation and line endings (\<^verbatim>\<open>whitespace.rs\<close>, \<^verbatim>\<open>line_ending.rs\<close>).
  \<^item> \<open>Core_Overlay\<close>, \<open>Core_Pager\<close>, \<open>Core_Save\<close>, \<open>Core_PageIndex\<close>: the parts of \<^verbatim>\<open>vlf\<close> (\<^verbatim>\<open>overlay.rs\<close>, \<^verbatim>\<open>pager.rs\<close>,
    \<^verbatim>\<open>save.rs\<close>, \<^verbatim>\<open>page_index.rs\<close>, \<^verbatim>\<open>store/scan.rs\<close>).  \<open>Core_Overlay_Laws\<close>: the document of an overlay, and its runs as an
    inductive relation.  \<open>Core_Save_Laws\<close>: what a save leaves in the files.  \<open>Core_Lossy\<close>: the decoding
    of bytes that may be no text (\<^verbatim>\<open>String::from_utf8_lossy\<close>).  The contract \<open>full_reads\<close> of the operating
    system's reads is a locale.
  \<^item> \<open>Core_Words\<close>: word boundaries and word selection (\<^verbatim>\<open>word_boundaries.rs\<close>), on the rope cursor.

  \<^bold>\<open>Conventions.\<close>  A panic (an assertion, an index out of range, an underflow of unsigned
  subtraction) is \<open>None\<close>; errors that the source returns are values of a sum.  \<^verbatim>\<open>usize\<close> is \<open>nat\<close>: lengths
  and offsets of a document in memory stay below the width, so only subtraction can fail; the
  saturating additions of \<^verbatim>\<open>IntervalBounds\<close> and the \<^verbatim>\<open>u32\<close> counter of revisions keep their width.
  Persistent sharing is not observable, so \<^verbatim>\<open>Arc\<close> is dropped.  The functions of the crates \<^verbatim>\<open>memchr\<close>,
  \<^verbatim>\<open>bytecount\<close>, \<^verbatim>\<open>im\<close> and \<^verbatim>\<open>unicode-segmentation\<close>, and the hash behind \<^verbatim>\<open>RevId::token\<close>, are parameters with their documented
  behaviour as the locales \<open>byte_search_laws\<close>, \<open>memchr2_laws\<close> and \<open>ord_set_laws\<close>; of grapheme clusters only that one
  starts at an offset is assumed, where it matters.  For large files, the operating system is a parameter too: what a read
  returns (\<open>os_read\<close>), and for saves which operation fails and how many bytes a call moves (\<open>sys\<close>); the size of a piece in memory
  and a count that the code scales in floating point are the record \<open>platform\<close>.  Loops are recursive functions with
  termination proofs, except partial functions: the loops of the
  iterators and of the word cursor, which the laws show to return; that of \<^verbatim>\<open>InsertDelta::transform_expand\<close>, which
  \<open>ins_transform_expand_spec\<close> shows to return, that of \<^verbatim>\<open>convert_metrics\<close>, which \<open>convert_metrics_spec\<close> shows to
  return for measures that occur in the tree, that of \<^verbatim>\<open>measure_leaf\<close>, those of the grapheme steps, the eviction loop of the page cache, which \<open>evict_loop_spec\<close> shows to return, and the
  background scan, which \<open>background_scan_pages\<close> shows to return; no fuel is used.

  \<^bold>\<open>What is shown.\<close>  For every state that edits and undos can reach: each revision reads as the document
  of its time, edits of the head do what the delta says, edits against old revisions keep their
  intention, undo is a replay without the undone groups and only the last set of groups counts, wrong
  edits are refused with the state unchanged.  For deltas: the builder, factoring, synthesis, the
  transformer.  For ropes: editing, concatenation, slicing, builders and integrity.  For text: split
  points and UTF-16.  For positions in ropes: lines, characters, UTF-16 offsets and chunks are those of the
  text; breaks are where the builder put them and move with edits; line and column determine an offset.  For subsets: the algebra of union, subtraction, expansion and shrinking, and the
  mapper.  For very large files: the overlay is the edited file, within its limits; reads through the pager are reads of
  the file; a save through a temporary file is atomic, and a save under any policy writes the document; the index of
  pages finds lines.  The theorems of kind error whose names speak of defects exhibit
  them on concrete inputs.

  \<^bold>\<open>Not modelled.\<close>  Of \<^verbatim>\<open>xi-rope\<close>: \<^verbatim>\<open>spans.rs\<close>, \<^verbatim>\<open>diff.rs\<close>, \<^verbatim>\<open>compare.rs\<close>, \<^verbatim>\<open>find.rs\<close>, formatting and
  serialisation; garbage collection and merging of engines are modelled, but nothing is shown of them.  Of
  \<^verbatim>\<open>line_offset.rs\<close>: the implementation for the wrapped lines of \<^verbatim>\<open>linewrap.rs\<close>.  Of \<^verbatim>\<open>vlf\<close>: streaming search, the cache of
  decoded pages, memory maps and the viewport, and the estimate of a line's offset in floating point.  Of
  \<^verbatim>\<open>xi-core-lib\<close>: views, edit operations, plugins and configuration.  The other crates are left out: RPC, the language server and
  plugin libraries, the terminal client, the agents and the model providers consist of threads, processes, terminal and
  network input and output around external services; the line breaking of \<^verbatim>\<open>xi-unicode\<close> works on generated tables.
\<close>

section \<open>The history of a document\<close>






text \<open>C3.  An edit against any revision, however old, is rebased over what happened since: it is accepted,
  the engine keeps its invariant and all earlier documents, and the new revision, looked at without
  what others inserted or deleted since the base, is exactly the document that the delta describes.\<close>

theorem edit_any_revision:
  assumes laws: "engine_laws env os_set" and inv: "engine_inv env e us" "engine_hist env e us"
    and k: "find_rev_token env e base = Some k"
    and d: "delta_for (ee_lib env) (engine_texts env e us ! k) d"
    and cnt: "en_rev_id_counter e + 1 < 2 ^ 32"
  shows "\<exists>e' us'. try_edit_rev env e prio grp base d = Some (Inr (), e')
    \<and> engine_inv env e' us' \<and> engine_hist env e' us'
    \<and> (if e' = e then els_text id (engine_texts env e us ! k) (els d) = engine_texts env e us ! k
       else (\<exists>r. en_revs e' = en_revs e @ [r]
               \<and> edit_visible env e k r us' (els_text id (engine_texts env e us ! k) (els d)))
         \<and> engine_texts env e' us' = engine_texts env e us @ [rope_text (get_head e')])"
proof (rule engine_laws.try_edit_rev_spec [OF laws inv k d cnt, of prio grp])
  assume "try_edit_rev env e prio grp base d = Some (Inr (), e)"
    "els_text id (engine_texts env e us ! k) (els d) = engine_texts env e us ! k"
  with inv show ?thesis by auto
next
  fix e' us' r
  assume "try_edit_rev env e prio grp base d = Some (Inr (), e')" "engine_inv env e' us'" "engine_hist env e' us'"
    and r: "en_revs e' = en_revs e @ [r]" and "engine_texts env e' us' = engine_texts env e us @ [rope_text (en_text e')]"
      "edit_visible env e k r us' (els_text id (engine_texts env e us ! k) (els d))"
  moreover have "e' \<noteq> e" using r by auto
  ultimately show ?thesis unfolding get_head_def by auto
qed

theorem edit_any_revision_witness:
  "\<exists>e d e' us'. engine_empty list_env = Some e
     \<and> simple_edit (BInterval (mk_iv 0 0)) (rope_of [0x61]) 0 = Some d
     \<and> try_edit_rev list_env e 0 1 0 d = Some (Inr (), e') \<and> engine_hist list_env e' us'"
proof (rule first_engine)
  fix e
  assume e: "engine_empty list_env = Some e" "en_rev_id_counter e = 1" "find_rev_token list_env e 0 = Some 0"
    "engine_inv list_env e []" "engine_hist list_env e []" "engine_texts list_env e [] = [[]]"
  obtain d where d: "simple_edit (BInterval (mk_iv 0 0)) (rope_of [0x61]) 0 = Some d"
    "delta_for naive_search [] d" "els_text id [] (els d) = [0x61]"
    using ascii_leaf(1) by (rule first_insert)
  have "\<exists>e' us'. try_edit_rev list_env e 0 1 0 d = Some (Inr (), e')
    \<and> engine_inv list_env e' us' \<and> engine_hist list_env e' us'
    \<and> (if e' = e then els_text id (engine_texts list_env e [] ! 0) (els d) = engine_texts list_env e [] ! 0
       else (\<exists>r. en_revs e' = en_revs e @ [r]
               \<and> edit_visible list_env e 0 r us' (els_text id (engine_texts list_env e [] ! 0) (els d)))
         \<and> engine_texts list_env e' us' = engine_texts list_env e [] @ [rope_text (get_head e')])"
    by (rule edit_any_revision [OF list_env.engine_laws_axioms e(4,5,3)]) (use e d in simp_all)
  with e(1) d(1) show ?thesis by blast
qed

text \<open>C4.  A bad edit is refused with the matching error and leaves the engine as it was: an unknown base
  revision, or a delta whose base length is not that of the base document.\<close>

theorem edit_errors:
  assumes laws: "engine_laws env os_set" and inv: "engine_inv env e us" "engine_hist env e us"
    and d: "delta_wf d"
  shows "try_edit_rev env e prio grp base d =
    (case find_rev_token env e base of
       None \<Rightarrow> Some (Inl (MissingRevision base), e)
     | Some k \<Rightarrow>
         if base_len d \<noteq> length (engine_texts env e us ! k)
         then Some (Inl (MalformedDelta (length (engine_texts env e us ! k)) (base_len d)), e)
         else try_edit_rev env e prio grp base d)"
proof (cases "find_rev_token env e base")
  case (Some k)
  then have kl: "k < length (en_revs e)"
    using find_rev_range_Some unfolding find_rev_token_def by blast
  obtain ds where ds: "deletes_from_union_for_index env e k = Some (enc ds)"
    "aligned is_lead ds (base_union (later e k) us)"
    "kept ds (base_union (later e k) us) = engine_texts env e us ! k"
    using engine_laws.state_at [OF laws inv kl] by blast
  have "len_after_delete (enc ds) = length (engine_texts env e us ! k)"
    using ds(3) aligned_length [OF ds(2)] by (metis counts_enc len_after_delete_counts length_sel)
  then show ?thesis
    using Some ds(1) delta_factor_eq [OF d] by (simp add: try_edit_rev_def mk_new_rev_def)
qed (simp add: try_edit_rev_def mk_new_rev_def)

theorem edit_errors_witness:
  "\<exists>e. engine_empty list_env = Some e
     \<and> try_edit_rev list_env e 0 1 7 \<lparr>els = [], base_len = 3\<rparr> = Some (Inl (MissingRevision 7), e)
     \<and> try_edit_rev list_env e 0 1 0 \<lparr>els = [], base_len = 3\<rparr> = Some (Inl (MalformedDelta 0 3), e)"
proof (rule first_engine)
  fix e
  assume e: "engine_empty list_env = Some e" "find_rev_token list_env e 0 = Some 0"
    "engine_inv list_env e []" "engine_hist list_env e []" "engine_texts list_env e [] = [[]]"
  have "find_rev_token list_env e 7 = None" using e(1) by (auto simp: engine_empty_def find_rev_token_def)
  moreover have "delta_wf \<lparr>els = [], base_len = 3\<rparr>" by (simp add: delta_wf_def)
  note edit_errors [OF list_env.engine_laws_axioms e(3,4) this, of 0 1]
  from this [of 7] this [of 0] calculation e show ?thesis by auto
qed

section \<open>Undo\<close>

text \<open>C5.  \<^verbatim>\<open>undo\<close> never fails, keeps the invariant, and its incremental recomputation gives the same
  deletions as replaying all revisions from the beginning with the given groups undone.\<close>

theorem undo_is_full_replay:
  assumes laws: "engine_laws env os_set" and inv: "engine_inv env e us"
    and cnt: "en_rev_id_counter e + 1 < 2 ^ 32"
  shows "\<exists>e'. undo env e gs = Some e' \<and> engine_inv env e' us
    \<and> deletes_from_union_for_undone_groups env e (os_collect (ee_os env) gs) = Some (en_deletes e')
    \<and> os_set (en_undone e') = set gs"
  using assms by (rule engine_laws.undo_replays_all)

theorem undo_is_full_replay_witness:
  "\<exists>e e'. engine_empty list_env = Some e \<and> undo list_env e [3] = Some e' \<and> set (en_undone e') = {3}"
proof (rule first_engine)
  fix e
  assume e: "engine_empty list_env = Some e" "en_rev_id_counter e = 1" "engine_inv list_env e []"
  from undo_is_full_replay [OF list_env.engine_laws_axioms e(3), of "[3]"] e show ?thesis by auto
qed

text \<open>C6.  Only the last set of undone groups counts: undoing \<open>gs\<close> and then \<open>hs\<close> shows the same document
  as undoing \<open>hs\<close> at once, and asking for the groups that were undone before restores the document.\<close>

theorem undo_last_set_wins:
  assumes laws: "engine_laws env os_set" and inv: "engine_inv env e us"
    and cnt: "en_rev_id_counter e + 2 < 2 ^ 32"
    and u: "undo env e gs = Some e1" "undo env e1 hs = Some e2"
  shows "\<exists>e3. undo env e hs = Some e3 \<and> rope_text (get_head e2) = rope_text (get_head e3)
    \<and> (set hs = os_set (en_undone e) \<longrightarrow> rope_text (get_head e2) = rope_text (get_head e))"
  using assms unfolding get_head_def by (rule engine_laws.undo_undo)

theorem undo_last_set_wins_witness:
  "\<exists>e e1 e2. engine_empty list_env = Some e \<and> undo list_env e [3] = Some e1 \<and> undo list_env e1 [] = Some e2
     \<and> rope_text (get_head e2) = rope_text (get_head e)"
proof (rule first_engine)
  fix e
  assume e: "engine_empty list_env = Some e" "en_rev_id_counter e = 1" "engine_inv list_env e []" "en_undone e = []"
  obtain e1 where e1: "undo list_env e [3] = Some e1" "engine_inv list_env e1 []" "en_rev_id_counter e1 \<le> 2"
    using list_env.undo_replays_all [OF e(3), of "[3]"] list_env.undo_replay(4) [OF e(3), of "[3]"] e(2) by auto
  obtain e2 where e2: "undo list_env e1 [] = Some e2"
    using list_env.undo_replays_all [OF e1(2), of "[]"] e1(3) by auto
  from undo_last_set_wins [OF list_env.engine_laws_axioms e(3) _ e1(1) e2] e e1(1) e2 show ?thesis by auto
qed



section \<open>Deltas\<close>

text \<open>C8.  A builder fed with replacements in increasing order makes a delta whose application replaces
  exactly those ranges of the document.\<close>

theorem builder_replaces:
  assumes laws: "byte_search_laws lib" and n: "rope_wf lib n" and es: "replacements_ok lib (rope_text n) 0 es"
  shows "\<exists>b n'. db_replace_all es (db_new (n_len n)) = Some b
    \<and> delta_apply (rope_ni lib) (db_build b) n = Some n' \<and> rope_wf lib n'
    \<and> rope_text n' = replaced (rope_text n) 0 es"
  using assms by (rule byte_search_laws.builder_apply)

theorem builder_replaces_witness:
  "\<exists>b n'. db_replace_all [(0, 1, rope_of [0x62, 0x63]), (2, 2, rope_of [0x64])] (db_new 2) = Some b
     \<and> delta_apply (rope_ni naive_search) (db_build b) (rope_of [0x61, 0x62]) = Some n'
     \<and> rope_text n' = [0x62, 0x63, 0x62, 0x64]"
proof -
  have wf: "rope_wf naive_search (rope_of [0x61, 0x62])" "rope_wf naive_search (rope_of [0x62, 0x63])"
    "rope_wf naive_search (rope_of [0x64])"
    by (rule rope_of_wf, simp add: str_leaf_wf_def utf8_valid_def MAX_LEAF_def len_utf8_from_first_byte_def)+
  have "replacements_ok naive_search (rope_text (rope_of [0x61, 0x62])) 0
      [(0, 1, rope_of [0x62, 0x63]), (2, 2, rope_of [0x64])]"
    using wf by (simp add: rope_of_wf(2) cut_ok_def is_lead_def is_cont_def)
  from builder_replaces [OF naive.byte_search_laws_axioms wf(1) this]
  have "\<exists>b n'. db_replace_all [(0, 1, rope_of [0x62, 0x63]), (2, 2, rope_of [0x64])]
      (db_new (n_len (rope_of [0x61, 0x62]))) = Some b
    \<and> delta_apply (rope_ni naive_search) (db_build b) (rope_of [0x61, 0x62]) = Some n' \<and> rope_wf naive_search n'
    \<and> rope_text n' = replaced (rope_text (rope_of [0x61, 0x62])) 0 [(0, 1, rope_of [0x62, 0x63]), (2, 2, rope_of [0x64])]" .
  moreover have "n_len (rope_of [0x61, 0x62]) = 2" by (simp add: rope_of_len)
  moreover have "replaced (rope_text (rope_of [0x61, 0x62])) 0 [(0, 1, rope_of [0x62, 0x63]), (2, 2, rope_of [0x64])]
      = [0x62, 0x63, 0x62, 0x64]"
    by (simp add: rope_of_wf(2) slice_def)
  ultimately show ?thesis by metis
qed

text \<open>C9.  \<^verbatim>\<open>factor\<close> separates a delta into inserts and deletions without changing its meaning: inserting
  first and then deleting gives the document that the delta describes.\<close>

theorem factor_preserves:
  assumes laws: "byte_search_laws lib" and n: "rope_wf lib n" and d: "delta_for lib (rope_text n) d"
  shows "\<exists>ins dels n1 inserted dels' n2 n3. delta_factor d = Some (ins, dels)
    \<and> delta_apply (rope_ni lib) ins n = Some n1 \<and> inserted_subset ins = Some inserted
    \<and> transform_expand dels inserted = Some dels' \<and> delete_from (rope_ni lib) dels' n1 = Some n2
    \<and> delta_apply (rope_ni lib) d n = Some n3 \<and> rope_text n2 = rope_text n3"
  using assms by (rule byte_search_laws.factor_apply)

theorem factor_preserves_witness:
  "\<exists>d ins dels n1 inserted dels' n2 n3. simple_edit (BInterval (mk_iv 0 0)) (rope_of [0x61]) 0 = Some d
     \<and> delta_factor d = Some (ins, dels) \<and> delta_apply (rope_ni naive_search) ins (rope_of []) = Some n1
     \<and> inserted_subset ins = Some inserted \<and> transform_expand dels inserted = Some dels'
     \<and> delete_from (rope_ni naive_search) dels' n1 = Some n2
     \<and> delta_apply (rope_ni naive_search) d (rope_of []) = Some n3 \<and> rope_text n2 = rope_text n3"
proof -
  obtain d where d: "simple_edit (BInterval (mk_iv 0 0)) (rope_of [0x61]) 0 = Some d" "delta_for naive_search [] d"
    using ascii_leaf(1) by (rule first_insert)
  have "rope_wf naive_search (rope_of [])" by (simp add: rope_of_wf str_leaf_wf_def)
  from factor_preserves [OF naive.byte_search_laws_axioms this, of d] d show ?thesis by (auto simp: rope_of_wf(2))
qed

text \<open>\<^verbatim>\<open>synthesize\<close> moves between two sets of deletions: from the text left by the one, with its
  deleted characters at hand, to the text left by the other.\<close>

theorem synthesize_moves:
  assumes laws: "byte_search_laws lib" and h: "halves lib us ds t tb" and al: "aligned is_lead ds' us"
  shows "\<exists>d t'. synthesize (rope_ni lib) tb (enc ds) (enc ds') = Some d \<and> delta_apply (rope_ni lib) d t = Some t'
    \<and> rope_wf lib t' \<and> rope_text t' = kept ds' us"
  using assms by (rule byte_search_laws.synthesize_apply)

theorem synthesize_moves_witness:
  "\<exists>d t'. synthesize (rope_ni naive_search) (rope_of []) (enc [0]) (enc [1]) = Some d
     \<and> delta_apply (rope_ni naive_search) d (rope_of [0x61]) = Some t' \<and> rope_text t' = []"
proof -
  have al: "aligned is_lead [0] [0x61]" "aligned is_lead [1] [0x61]"
    by (simp_all add: aligned_def starts_ok_def is_lead_def is_cont_def)
  have "halves naive_search [0x61] [0] (rope_of [0x61]) (rope_of [])"
    using al ascii_leaf by (simp add: halves_def rope_of_wf str_leaf_wf_def)
  from synthesize_moves [OF naive.byte_search_laws_axioms this al(2)] show ?thesis by auto
qed

text \<open>C10.  The coordinate transformer keeps state between queries, but its answers are those of a fresh
  transformer, whatever was asked before and in whatever order; and a character that the delta keeps is found where the
  transformer says.\<close>

theorem transformer_answers:
  assumes d: "delta_wf d"
  shows "(\<exists>rs. tr_queries (transformer_new d) qs = Some rs
      \<and> list_all2 (\<lambda>(ix, after) r. \<exists>tr. transform (transformer_new d) ix after = Some (r, tr)) qs rs)
    \<and> (\<forall>lib t b e i. byte_search_laws lib \<and> delta_for lib t d \<and> (\<forall>b e. Copy b e \<in> set (els d) \<longrightarrow> b < e)
        \<and> Copy b e \<in> set (els d) \<and> b \<le> i \<and> i < e \<longrightarrow>
        (\<exists>k tr. transform (transformer_new d) i True = Some (k, tr)
          \<and> k < length (els_text id t (els d)) \<and> els_text id t (els d) ! k = t ! i))"
proof (intro conjI allI impI)
  have inv: "tr_inv (transformer_new d)"
    using d tr_inv_new copies_ok_fwd unfolding delta_wf_def by blast
  have answer: "\<exists>tr. transform (transformer_new d) ix after = Some (tr_answer (els d) ix after, tr)" for ix after
    by (rule transform_spec [OF inv, of ix after]) (simp add: transformer_new_def)
  then have "list_all2 (\<lambda>(ix, after) r. \<exists>tr. transform (transformer_new d) ix after = Some (r, tr)) qs
      (map (\<lambda>(ix, after). tr_answer (els d) ix after) qs)"
    by (auto simp: list_all2_conv_all_nth split: prod.splits)
  with tr_queries_spec [OF inv, of qs] show "\<exists>rs. tr_queries (transformer_new d) qs = Some rs
      \<and> list_all2 (\<lambda>(ix, after) r. \<exists>tr. transform (transformer_new d) ix after = Some (r, tr)) qs rs"
    by (simp add: transformer_new_def)
  fix lib t b e i
  assume h: "byte_search_laws lib \<and> delta_for lib t d \<and> (\<forall>b e. Copy b e \<in> set (els d) \<longrightarrow> b < e)
    \<and> Copy b e \<in> set (els d) \<and> b \<le> i \<and> i < e"
  then have c: "copies_ok (els d) 0 (length t)" "els_ok (rope_ni lib) str_leaf_wf is_lead t (els d)"
    by (auto simp: delta_for_def delta_wf_def)
  obtain k where "tr_spec (els d) i True 0 = 0 + k" "k < length (els_text id t (els d))" "els_text id t (els d) ! k = t ! i"
    using byte_search_laws.rope_tracks [OF _ c, of b e i 0] h by blast
  then show "\<exists>k tr. transform (transformer_new d) i True = Some (k, tr)
      \<and> k < length (els_text id t (els d)) \<and> els_text id t (els d) ! k = t ! i"
    using answer [of i True] by (auto simp: tr_answer_def)
qed

theorem transformer_answers_witness:
  "tr_queries (transformer_new \<lparr>els = [Copy 0 2, Insert (rope_of [0x61]), Copy 2 4], base_len = 4\<rparr>)
     [(3, False), (2, False), (2, True), (0, True)] = Some [4, 2, 3, 0]
   \<and> (\<exists>tr. transform (transformer_new \<lparr>els = [Insert (rope_of [0x61]), Copy 1 2], base_len = 2\<rparr>) 1 True = Some (1, tr))"
proof
  have "delta_wf \<lparr>els = [Copy 0 2, Insert (rope_of [0x61]), Copy 2 4], base_len = 4\<rparr>"
    by (simp add: delta_wf_def)
  from transformer_answers [OF this, of "[(3, False), (2, False), (2, True), (0, True)]", THEN conjunct1]
  show "tr_queries (transformer_new \<lparr>els = [Copy 0 2, Insert (rope_of [0x61]), Copy 2 4], base_len = 4\<rparr>)
     [(3, False), (2, False), (2, True), (0, True)] = Some [4, 2, 3, 0]"
    by (auto simp: list_all2_Cons1 transform_def transformer_new_def transform_loop.simps list_get_def Let_def)
  let ?d = "\<lparr>els = [Insert (rope_of [0x61]), Copy 1 2], base_len = 2\<rparr>"
  have d: "delta_for naive_search [0x61, 0x62] ?d"
    using rope_of_wf(1) [OF ascii_leaf(1)]
    by (simp add: delta_for_def delta_wf_def rope_wf_def cut_ok_def is_lead_def is_cont_def)
  then have "delta_wf ?d" by (simp add: delta_for_def)
  from transformer_answers [OF this, THEN conjunct2, rule_format, of naive_search "[0x61, 0x62]" 1 2 1] d naive.byte_search_laws_axioms
  obtain k tr where k: "transform (transformer_new ?d) 1 True = Some (k, tr)"
    "k < length (els_text id [0x61, 0x62] (els ?d))" "els_text id [0x61, 0x62] (els ?d) ! k = [0x61, 0x62] ! 1"
    by auto
  moreover have "k = 1" using k(2,3) by (auto simp: rope_of_wf(2) slice_def less_Suc_eq)
  ultimately show "\<exists>tr. transform (transformer_new ?d) 1 True = Some (1, tr)" by auto
qed

section \<open>Ropes\<close>

text \<open>C11.  Replacing a range of a rope between character boundaries gives a well-formed rope with that
  range of the text replaced; in particular its cached length and metrics are those of the new text.\<close>

theorem rope_edit:
  assumes laws: "byte_search_laws lib" and n: "rope_wf lib n" "rope_wf lib new"
    and iv: "into_interval bounds (n_len n) = Some (mk_iv b e)" "b \<le> e"
    and cuts: "cut_ok is_lead (rope_text n) b" "cut_ok is_lead (rope_text n) e"
  shows "\<exists>n'. node_edit (rope_ni lib) n bounds new = Some n' \<and> rope_wf lib n'
    \<and> rope_text n' = take b (rope_text n) @ rope_text new @ drop e (rope_text n)
    \<and> n_len n' = length (rope_text n') \<and> n_info n' = text_info (rope_text n')"
  using assms by (rule byte_search_laws.rope_edit_spec)

theorem rope_edit_witness:
  "\<exists>n'. node_edit (rope_ni naive_search) (rope_of [0x61, 0x62]) (BRange 1 2) (rope_of [0x61]) = Some n'
     \<and> rope_text n' = [0x61, 0x61] \<and> n_len n' = 2"
proof -
  have "cut_ok is_lead (rope_text (rope_of [0x61, 0x62])) 1" "cut_ok is_lead (rope_text (rope_of [0x61, 0x62])) 2"
    by (simp_all add: rope_of_wf(2) cut_ok_def is_lead_def is_cont_def)
  with rope_edit [OF naive.byte_search_laws_axioms rope_of_wf(1) [OF ascii_leaf(2)] rope_of_wf(1) [OF ascii_leaf(1)],
      of "BRange 1 2" 1 2]
  show ?thesis by (auto simp: rope_of_wf(2) mk_iv_def)
qed

text \<open>C12.  Concatenation and slicing of ropes are those of their texts, and keep the b-tree invariants
  (heights, numbers of children, leaf sizes, cached information); the results pass the program's own integrity check.\<close>

theorem rope_concat_slice:
  assumes laws: "byte_search_laws lib" and n: "rope_wf lib a" "rope_wf lib b"
    and iv: "s \<le> e" "cut_ok is_lead (rope_text a @ rope_text b) s" "cut_ok is_lead (rope_text a @ rope_text b) e"
  shows "\<exists>n n'. concat_node (rope_ni lib) a b = Some n \<and> rope_wf lib n \<and> rope_text n = rope_text a @ rope_text b
    \<and> assert_integrity (rope_ni lib) n = Some ()
    \<and> node_subseq (rope_ni lib) n (BInterval (mk_iv s e)) = Some n' \<and> rope_wf lib n'
    \<and> rope_text n' = slice (rope_text a @ rope_text b) s e \<and> assert_integrity (rope_ni lib) n' = Some ()"
  using byte_search_laws.rope_concat_slice_spec [OF assms] byte_search_laws.rope_integrity [OF laws] by blast

theorem rope_concat_slice_witness:
  "\<exists>n n'. concat_node (rope_ni naive_search) (rope_of [0x61, 0x62]) (rope_of [0x61]) = Some n
     \<and> node_subseq (rope_ni naive_search) n (BInterval (mk_iv 1 3)) = Some n' \<and> rope_text n' = [0x62, 0x61]"
proof -
  have "cut_ok is_lead (rope_text (rope_of [0x61, 0x62]) @ rope_text (rope_of [0x61])) 1"
    "cut_ok is_lead (rope_text (rope_of [0x61, 0x62]) @ rope_text (rope_of [0x61])) 3"
    by (simp_all add: rope_of_wf(2) cut_ok_def is_lead_def is_cont_def)
  with rope_concat_slice [OF naive.byte_search_laws_axioms rope_of_wf(1) [OF ascii_leaf(2)] rope_of_wf(1) [OF ascii_leaf(1)],
      of 1 3]
  show ?thesis by (auto simp: rope_of_wf(2) slice_def)
qed



section \<open>Text\<close>

text \<open>C14.  The split point of an overfull leaf leaves two leaves of legal size, at a character boundary and
  never between a carriage return and its line feed.\<close>

theorem leaf_split_point:
  assumes laws: "byte_search_laws lib" and s: "utf8_valid s" "MAX_LEAF < length s" "length s \<le> MAX_LEAF + MIN_LEAF"
  shows "\<exists>k. find_leaf_split_for_merge lib s = Some k \<and> MIN_LEAF \<le> k \<and> k \<le> MAX_LEAF
    \<and> MIN_LEAF \<le> length s - k \<and> length s - k \<le> MAX_LEAF \<and> is_char_boundary s k \<and> \<not> is_crlf_split_point s k"
  using byte_search_laws.find_leaf_split_for_merge_spec [OF assms] by metis

theorem leaf_split_point_witness:
  "\<exists>k. find_leaf_split_for_merge naive_search (replicate 1100 0x61) = Some k \<and> 511 \<le> k \<and> k \<le> 1024"
proof -
  have "utf8_valid (replicate n 0x61)" for n
  proof (induction n)
    case (Suc n)
    have "utf8_char [0x61]" by simp
    from utf8_valid_append_char [OF this, of "replicate n 0x61"] Suc show ?case by simp
  qed simp
  from leaf_split_point [OF naive.byte_search_laws_axioms this [of 1100]]
  show ?thesis by (auto simp: MAX_LEAF_def MIN_LEAF_def)
qed

text \<open>Byte offsets at character boundaries survive the way through UTF-16 code units and back.\<close>

theorem utf16_offsets_roundtrip:
  assumes "utf8_valid s" "is_char_boundary s i"
  shows "byte_to_utf16_cu_idx s i \<bind> utf16_cu_to_byte_idx s = Some i"
  using assms by (rule utf16_roundtrip)

theorem utf16_offsets_roundtrip_witness:
  "byte_to_utf16_cu_idx [0xF0, 0x9F, 0x98, 0x80, 0x61] 4 \<bind> utf16_cu_to_byte_idx [0xF0, 0x9F, 0x98, 0x80, 0x61] = Some 4"
  by (rule utf16_offsets_roundtrip)
    (simp_all add: utf8_valid_def len_utf8_from_first_byte_def is_char_boundary_def is_cont_def)


section \<open>Multisets of positions\<close>

text \<open>C15.  The algebra of subsets.  Union adds multiplicities position by position and subtraction takes them away
  again; sets over strings of different lengths make both panic.  Expanding a set by inserted positions and shrinking by
  the same positions is the identity; the expanded set marks nothing at the inserted positions, and the union form
  marks all of them.\<close>

theorem subset_algebra:
  assumes "subset_wf a" "subset_wf b"
  shows "(if subset_len a = subset_len b
      then \<exists>s. subset_union a b = Some s \<and> subset_wf s \<and> counts s = map2 (+) (counts a) (counts b)
        \<and> subset_subtract s b = Some a
      else subset_union a b = None \<and> subset_subtract a b = None)
    \<and> (subset_len a = len_after_delete b \<longrightarrow> (\<exists>s u. transform_expand a b = Some s \<and> transform_shrink s b = Some a
        \<and> sel (\<lambda>c. c \<noteq> 0) (counts b) (counts s) = replicate (subset_len b - len_after_delete b) 0
        \<and> transform_union a b = Some u \<and> subset_union s b = Some u \<and> transform_shrink u b = Some a))"
proof
  obtain x y where xy: "a = enc x" "b = enc y" using assms by (auto simp: subset_wf_enc_iff)
  show "if subset_len a = subset_len b
      then \<exists>s. subset_union a b = Some s \<and> subset_wf s \<and> counts s = map2 (+) (counts a) (counts b) \<and> subset_subtract s b = Some a
      else subset_union a b = None \<and> subset_subtract a b = None"
    using subset_subtract_union [of x y] zipped_panics [of x y] by (simp add: xy)
  show "subset_len a = len_after_delete b \<longrightarrow> (\<exists>s u. transform_expand a b = Some s \<and> transform_shrink s b = Some a
        \<and> sel (\<lambda>c. c \<noteq> 0) (counts b) (counts s) = replicate (subset_len b - len_after_delete b) 0
        \<and> transform_union a b = Some u \<and> subset_union s b = Some u \<and> transform_shrink u b = Some a)"
  proof
    assume "subset_len a = len_after_delete b"
    then have len: "length x = cnt (\<lambda>c. c = 0) y" by (simp add: xy)
    have "sel (\<lambda>c. c \<noteq> 0) y (cexpand False x y) = replicate (length y - cnt (\<lambda>c. c = 0) y) 0"
      using len by (rule cexpand_inserted_zero)
    with len show "\<exists>s u. transform_expand a b = Some s \<and> transform_shrink s b = Some a
        \<and> sel (\<lambda>c. c \<noteq> 0) (counts b) (counts s) = replicate (subset_len b - len_after_delete b) 0
        \<and> transform_union a b = Some u \<and> subset_union s b = Some u \<and> transform_shrink u b = Some a"
      by (simp add: xy cexpand_un_plus del: neq0_conv)
  qed
qed

theorem subset_algebra_witness:
  "(\<exists>s. subset_union (enc [1, 0, 2]) (enc [0, 0, 1]) = Some s \<and> counts s = [1, 0, 3]
      \<and> subset_subtract s (enc [0, 0, 1]) = Some (enc [1, 0, 2]))
    \<and> (\<exists>s. transform_expand (enc [1, 0]) (enc [0, 1, 1, 0]) = Some s \<and> transform_shrink s (enc [0, 1, 1, 0]) = Some (enc [1, 0]))"
  using subset_algebra [of "enc [1, 0, 2]" "enc [0, 0, 1]"] subset_algebra [of "enc [1, 0]" "enc [0, 1, 1, 0]"] by auto

text \<open>The position mapper answers every non-decreasing sequence of queries with the number of matching
  positions before each of them, and panics on a query that goes back.\<close>

theorem mapper_counts:
  assumes "subset_wf s"
  shows "mapper_queries (subset_mapper s mt) (i # qs) =
    (if sorted (i # qs) then Some (map (\<lambda>i. length (filter (cmatch mt) (take i (counts s)))) (i # qs)) else None)"
proof -
  obtain cs where cs: "s = enc cs" using assms by (auto simp: subset_wf_enc_iff)
  show ?thesis
    using mapper_queries_sorted [of cs "subset_mapper s mt" "i # qs"] by (simp add: cs)
qed

theorem mapper_counts_witness:
  "mapper_queries (subset_mapper (enc [0, 1, 0, 0, 2]) Zero) [1, 1, 3, 5] = Some [1, 1, 2, 3]
   \<and> mapper_queries (subset_mapper (enc [0, 1]) Zero) [1, 0] = None"
  using mapper_counts [of "enc [0, 1, 0, 0, 2]" Zero 1 "[1, 3, 5]"] mapper_counts [of "enc [0, 1]" Zero 1 "[0]"]
  by (simp add: eval_nat_numeral)

section \<open>Two defects\<close>


section \<open>Properties of index sets, selections and the line cache\<close>

text \<open>C17.  An index set is a set of positions: below the cap on the number of ranges, adding a range is
  union, deleting one is difference, iterating over a range without the set yields exactly the positions
  that are missing, and the ranges stay sorted and apart.\<close>

theorem index_set_refines:
  assumes wf: "ranges_wf rs" and len: "length rs < MAX_RANGES" and lt: "start < end"
  shows "(\<exists>rs'. union_one_range rs start end = Some rs' \<and> ranges_wf rs'
        \<and> ranges_set rs' = ranges_set rs \<union> {start..<end})
    \<and> (\<exists>rs'. is_delete_range rs start end = Some rs' \<and> ranges_wf rs'
        \<and> ranges_set rs' = ranges_set rs - {start..<end})
    \<and> ranges_wf (minus_collect (minus_one_range rs start end))
    \<and> ranges_set (minus_collect (minus_one_range rs start end)) = {start..<end} - ranges_set rs"
proof -
  obtain rs' where "union_one_range rs start end = Some rs'" "ranges_wf rs'"
    "ranges_set rs' = ranges_set rs \<union> {start..<end}"
    using union_one_range_spec [OF wf lt] len by (metis not_less)
  then show ?thesis using is_delete_range_spec [OF wf lt] minus_one_range_spec [OF wf] by blast
qed

theorem index_set_refines_witness:
  "union_one_range [(3, 5), (7, 9)] 4 8 = Some [(3, 9)]
    \<and> is_delete_range [(3, 5), (7, 9)] 4 8 = Some [(3, 4), (8, 9)]
    \<and> ranges_set (minus_collect (minus_one_range [(3, 5), (7, 9)] 4 8)) = {5..<7}"
proof -
  have u: "union_one_range [(3, 5), (7, 9)] 4 8 = Some [(3, 9)]" by code_simp
  have d: "is_delete_range [(3, 5), (7, 9)] 4 8 = Some [(3, 4), (8, 9)]" by code_simp
  have m: "{4..<8} - ranges_set [(3, 5), (7, 9)] = {5..<7::nat}" by (auto simp: ranges_set_def)
  have "ranges_wf [(3, 5), (7, 9)]" "length [(3, 5), (7, 9::nat)] < MAX_RANGES" by (simp_all add: MAX_RANGES_def)
  then have "ranges_set (minus_collect (minus_one_range [(3, 5), (7, 9)] 4 8)) = {4..<8} - ranges_set [(3, 5), (7, 9)]"
    by (intro index_set_refines [THEN conjunct2, THEN conjunct2, THEN conjunct2]) simp_all
  with u d show ?thesis unfolding m by blast
qed

text \<open>An edit moves an index set: the new set is well formed and holds the images of the old ranges
  under the coordinate transformer, collapsed ranges dropped and touching ones joined.\<close>

theorem index_set_follows_edit:
  assumes "delta_wf d" "ranges_wf rs"
  shows "\<exists>rs' f. is_apply_delta rs d = Some rs' \<and> ranges_wf rs'
    \<and> (\<forall>x. \<exists>tr. transform (transformer_new d) x False = Some (f x, tr))
    \<and> ranges_set rs' = (\<Union>(a, b) \<in> set rs. {f a..<f b})"
proof -
  have fwd: "copies_fwd (els d)" using assms(1) copies_ok_fwd by (auto simp: delta_wf_def)
  let ?f = "\<lambda>x. tr_answer (els d) x False"
  have "\<exists>tr. transform (transformer_new d) x False = Some (?f x, tr)" for x
    by (rule transform_spec [OF tr_inv_new [OF fwd], of x False]) (simp add: transformer_new_def)
  moreover obtain rs' where "is_apply_delta rs d = Some rs'" "ranges_wf rs'"
    "ranges_set rs' = (\<Union>r \<in> set rs. {?f (fst r)..<?f (snd r)})"
    using is_apply_delta_spec [OF fwd assms(2)] by blast
  ultimately show ?thesis by (intro exI [of _ rs'] exI [of _ ?f]) (auto simp: split_beta)
qed

theorem index_set_follows_edit_witness:
  "\<exists>rs'. is_apply_delta [(1, 3), (5, 6)] \<lparr>els = [Copy 0 2, Copy 5 8], base_len = 8\<rparr> = Some rs' \<and> ranges_wf rs'"
proof -
  have "delta_wf \<lparr>els = [Copy 0 2, Copy 5 8 :: (str, rope_info) delta_element], base_len = 8\<rparr>" "ranges_wf [(1, 3), (5, 6)]"
    by (simp_all add: delta_wf_def)
  from index_set_follows_edit [OF this] show ?thesis by blast
qed

text \<open>C18.  Adding a region to a selection keeps the regions sorted and apart, with no caret touching
  another region, and the selection then covers the old positions and the new ones.\<close>

theorem selection_add_region:
  assumes "sel_wf regions"
  shows "\<exists>regions'. add_region regions region = Some regions' \<and> sel_wf regions'
    \<and> sel_set regions' = sel_set regions \<union> span region"
  using assms by (rule add_region_spec)

theorem selection_add_region_witness:
  "add_region [sr_new 3 5, sr_new 7 9] (sr_new 8 4) = Some [sr_new 9 3] \<and> sel_wf [sr_new 9 3]
    \<and> sel_set [sr_new 9 3] = {3..9}"
proof -
  have wf: "sel_wf [sr_new 3 5, sr_new 7 9]"
    by (simp add: apart_def is_caret_def sr_new_def sr_min_def sr_max_def)
  have a: "add_region [sr_new 3 5, sr_new 7 9] (sr_new 8 4) = Some [sr_new 9 3]" by code_simp
  have "sel_set [sr_new 3 5, sr_new 7 9] \<union> span (sr_new 8 4) = {3..9}" by (auto simp: sel_set_def span_def)
  with selection_add_region [OF wf, of "sr_new 8 4"] a show ?thesis by simp
qed



text \<open>C20.  An edit maps a selection to a selection: it never panics, the result is sorted and apart, and
  it covers exactly the images of the regions, whose ends are moved by the transformer with the flags that
  the drift prescribes.\<close>

theorem selection_follows_edit:
  assumes "delta_wf d"
  shows "\<exists>regions'. sel_apply_delta regions d after drift = Some regions' \<and> sel_wf regions'
    \<and> sel_set regions' = (\<Union>r \<in> set regions. span (moved_region (els d) after drift r))"
  using assms copies_ok_fwd by (intro sel_apply_delta_spec) (auto simp: delta_wf_def)

theorem selection_follows_edit_witness:
  "\<exists>regions'. sel_apply_delta [sr_caret 2, sr_new 4 6]
      \<lparr>els = [Copy 0 2, Insert (rope_of [0x61]), Copy 2 8], base_len = 8\<rparr> True DriftDefault = Some regions'
    \<and> sel_set regions' = {3} \<union> {5..7}"
proof -
  let ?d = "\<lparr>els = [Copy 0 2, Insert (rope_of [0x61]), Copy 2 8], base_len = 8\<rparr>"
  have "delta_wf ?d" by (simp add: delta_wf_def)
  moreover have "n_len (rope_of [0x61]) = 1" by code_simp
  then have "span (moved_region (els ?d) True DriftDefault (sr_caret 2)) \<union>
      span (moved_region (els ?d) True DriftDefault (sr_new 4 6)) = {3} \<union> {5..7}"
    by (auto simp: span_def moved_region_def drift_flags_def tr_answer_def sr_caret_def sr_new_def sr_min_def
        sr_max_def with_affinity_def)
  ultimately show ?thesis using selection_follows_edit [of ?d "[sr_caret 2, sr_new 4 6]" True DriftDefault] by auto
qed

text \<open>Among regions that are no carets, a new region is added as it is unless its beginning lies in
  an existing region, which then wins and is returned; existing regions that the new one reaches into are
  dropped, and the result is sorted and apart.\<close>

theorem selection_add_distinct:
  assumes wf: "sel_wf regions" and nc: "\<forall>r \<in> set regions. \<not> is_caret r" "\<not> is_caret region"
  shows "\<exists>regions' s e. add_range_distinct regions region = Some (regions', s, e) \<and> sel_wf regions'
    \<and> (\<forall>r \<in> set regions'. \<not> is_caret r)
    \<and> (if \<exists>occ \<in> set regions. sr_min occ \<le> sr_min region \<and> sr_min region < sr_max occ
       then regions' = regions \<and> (\<exists>occ \<in> set regions. s = sr_min occ \<and> e = sr_max occ
              \<and> s \<le> sr_min region \<and> sr_min region < e)
       else s = sr_min region \<and> e = sr_max region
         \<and> regions' = filter (\<lambda>r. sr_max r \<le> sr_min region) regions @ region
             # filter (\<lambda>r. sr_max region \<le> sr_min r) regions)"
proof (cases "\<exists>occ \<in> set regions. sr_min occ \<le> sr_min region \<and> sr_min region < sr_max occ")
  case True
  then obtain occ where "occ \<in> set regions" "sr_min occ \<le> sr_min region" "sr_min region < sr_max occ"
    "add_range_distinct regions region = Some (regions, sr_min occ, sr_max occ)"
    using add_range_distinct_spec [OF assms] by blast
  with True wf nc(1) show ?thesis by auto
next
  case False
  with add_range_distinct_spec [OF assms] add_range_distinct_wf [OF assms] show ?thesis by auto
qed

theorem selection_add_distinct_witness:
  "add_range_distinct [sr_new 0 3, sr_new 5 8] (sr_new 2 4) = Some ([sr_new 0 3, sr_new 5 8], 0, 3)
    \<and> add_range_distinct [sr_new 0 3, sr_new 5 8] (sr_new 4 6) = Some ([sr_new 0 3, sr_new 4 6], 4, 6)"
proof -
  let ?rs = "[sr_new 0 3, sr_new 5 8]"
  have wf: "sel_wf ?rs" and nc: "\<forall>r \<in> set ?rs. \<not> is_caret r" "\<not> is_caret (sr_new 2 4)" "\<not> is_caret (sr_new 4 6)"
    by (simp_all add: apart_def is_caret_def sr_new_def sr_min_def sr_max_def)
  from selection_add_distinct [OF wf nc(1,2)] selection_add_distinct [OF wf nc(1,3)] show ?thesis
    by (auto simp: sr_new_def sr_min_def sr_max_def)
qed

text \<open>C21.  An edit of the shadow replaces lines: the lines before and behind are kept with the numbers they
  have in the front end, the new ones are unknown to it.  Clearing validity bits changes exactly the lines
  of the range and only those bits.\<close>

theorem line_cache_edits:
  assumes "start \<le> end" "spans_wf (lc_spans lc)"
  shows "(\<exists>lc'. lc_edit lc start end replace = Some lc' \<and> spans_wf (lc_spans lc') \<and> lc_dirty lc'
      \<and> lc_lines lc' = take start (lc_lines lc) @ replicate replace None @ drop end (lc_lines lc))
    \<and> (\<exists>lc'. partial_invalidate lc start end invalid = Some lc' \<and> spans_wf (lc_spans lc')
      \<and> length (lc_lines lc') = length (lc_lines lc)
      \<and> (\<forall>i < length (lc_lines lc). lc_lines lc' ! i =
           (if start \<le> i \<and> i < end then clear_bits invalid (lc_lines lc ! i) else lc_lines lc ! i)))"
proof -
  obtain lc' where "partial_invalidate lc start end invalid = Some lc'" "spans_wf (lc_spans lc')"
    "lc_lines lc' = clear_range start end invalid (lc_lines lc)"
    using partial_invalidate_spec [OF assms] by blast
  with lc_edit_spec [OF assms(1)] show ?thesis by (simp add: nth_clear_range)
qed

theorem line_cache_edits_witness:
  "\<exists>lc'. lc_edit \<lparr>lc_spans = [\<lparr>sp_n = 5, sp_start = 0, sp_validity = ALL_VALID\<rparr>], lc_dirty = False\<rparr> 1 2 2 = Some lc'
    \<and> lc_lines lc' = [Some (0, ALL_VALID), None, None, Some (2, ALL_VALID), Some (3, ALL_VALID), Some (4, ALL_VALID)]"
proof -
  let ?lc = "\<lparr>lc_spans = [\<lparr>sp_n = 5, sp_start = 0, sp_validity = ALL_VALID\<rparr>], lc_dirty = False\<rparr>"
  have "spans_wf (lc_spans ?lc)" by (simp add: spans_wf_def)
  moreover have "lc_lines ?lc = map (\<lambda>k. Some (k, ALL_VALID)) [0..<5]"
    by (simp add: mk_lines_def line_state_def ALL_VALID_def INVALID_def)
  ultimately show ?thesis using line_cache_edits [of 1 2 ?lc 2 0] by (auto simp: upt_rec numeral_eq_Suc)
qed

text \<open>C22.  A render plan covers the document line by line: the view and its margin are rendered, a
  thousand lines around it preserved, the rest discarded.  It is made without overflow whenever the sum of
  the heights and the margin is representable.  Requesting lines turns exactly those to rendering.\<close>

theorem render_plan_lines:
  assumes "total_height + height + PRESERVE_EXTENT \<le> usize_max" "start \<le> end" "end \<le> total_height"
  shows "\<exists>plan plan'. plan_create total_height first_line height = Some plan
    \<and> plan_lines plan = map (tactic_at (min first_line total_height) height) [0..<total_height]
    \<and> request_lines plan start end = Some plan'
    \<and> plan_lines plan' = map (\<lambda>i. if start \<le> i \<and> i < end then Render
         else tactic_at (min first_line total_height) height i) [0..<total_height]"
proof -
  let ?t = "tactic_at (min first_line total_height) height"
  obtain plan where p: "plan_create total_height first_line height = Some plan" "plan_lines plan = map ?t [0..<total_height]"
    using plan_create_spec [OF assms(1)] by blast
  obtain plan' where p': "request_lines plan start end = Some plan'"
    "plan_lines plan' = take start (plan_lines plan) @ replicate (end - start) Render @ drop end (plan_lines plan)"
    using request_lines_spec [OF assms(2)] by blast
  have "plan_lines plan' = map (\<lambda>i. if start \<le> i \<and> i < end then Render else ?t i) [0..<total_height]"
    unfolding p' p(2) using assms(2,3) by (intro nth_equalityI) (auto simp: nth_append)
  with p p' show ?thesis by blast
qed

theorem render_plan_lines_witness:
  "\<exists>plan plan'. plan_create 5 3 1 = Some plan \<and> request_lines plan 0 1 = Some plan'
    \<and> plan_lines plan' = [Render, Render, Render, Render, Render]"
proof -
  have "5 + 1 + PRESERVE_EXTENT \<le> usize_max" by (simp add: PRESERVE_EXTENT_def usize_max_def)
  from render_plan_lines [OF this, of 0 1 3] show ?thesis
    by (auto simp: tactic_at_def SCROLL_SLOP_def upt_rec numeral_eq_Suc)
qed




section \<open>Positions in ropes\<close>

lemma rope_of_ok: "str_leaf_wf s \<Longrightarrow> rope_ok naive_search (rope_of s)"
  using rope_of_wf(1) by (simp add: rope_wf_def)

text \<open>C25.  Lines of a rope: the line of an offset is the number of newlines before it, the offset of a line
  is the first place with that many newlines before it, the line behind the last one begins at the end, the
  two functions are inverse on line starts, and places outside of the rope are refused with the matching
  error.\<close>

theorem rope_lines:
  assumes laws: "byte_search_laws lib" and t: "rope_ok lib t"
  defines "s \<equiv> rope_text t"
  shows "(\<forall>i. is_char_boundary s i \<longrightarrow> try_line_of_offset lib t i = Some (Inr (newlines (take i s))))
    \<and> (\<forall>i. length s < i \<longrightarrow> try_line_of_offset lib t i = Some (Inl (OffsetOutOfBounds i (length s))))
    \<and> (\<forall>k \<le> newlines s. \<exists>i. try_offset_of_line lib t k = Some (Inr i) \<and> newlines (take i s) = k
         \<and> (\<forall>j < i. newlines (take j s) < k) \<and> try_line_of_offset lib t i = Some (Inr k))
    \<and> try_offset_of_line lib t (newlines s + 1) = Some (Inr (length s))
    \<and> (\<forall>k > newlines s + 1. try_offset_of_line lib t k = Some (Inl (LineOutOfBounds k (newlines s + 1))))"
  using byte_search_laws.rope_lines_spec [OF laws t] unfolding s_def .

theorem rope_lines_witness:
  "try_line_of_offset naive_search (rope_of [0x61, NL, 0x62]) 2 = Some (Inr 1)
    \<and> try_line_of_offset naive_search (rope_of [0x61, NL, 0x62]) 4 = Some (Inl (OffsetOutOfBounds 4 3))
    \<and> try_offset_of_line naive_search (rope_of [0x61, NL, 0x62]) 2 = Some (Inr 3)"
proof -
  have leaf: "str_leaf_wf [0x61, NL, 0x62]" by code_simp
  have n: "newlines [0x61, NL, 0x62] = 1" "newlines (take 2 [0x61, NL, 0x62]) = 1" by code_simp+
  have two: "is_char_boundary [0x61, NL, 0x62] 2" by code_simp
  note r = rope_lines [OF naive.byte_search_laws_axioms rope_of_ok [OF leaf], unfolded rope_of_wf(2) n]
  from r have "try_line_of_offset naive_search (rope_of [0x61, NL, 0x62]) 2 = Some (Inr 1)" using two n(2) by metis
  moreover from r have "try_line_of_offset naive_search (rope_of [0x61, NL, 0x62]) 4 = Some (Inl (OffsetOutOfBounds 4 3))"
    by simp
  moreover from r have "try_offset_of_line naive_search (rope_of [0x61, NL, 0x62]) (1 + 1) = Some (Inr 3)" by simp
  ultimately show ?thesis by (simp add: numeral_2_eq_2)
qed

text \<open>C26.  Characters of a rope: an offset is reported as a boundary exactly when it is one of the text;
  from a boundary the next one is found, and from there the way back; an offset survives the conversion to
  UTF-16 code units and back; and a byte is that of the text.  The leaves between which the text is divided
  play no role.\<close>

theorem rope_characters:
  assumes laws: "byte_search_laws lib" and t: "rope_ok lib t" and p: "p < n_len t"
  defines "s \<equiv> rope_text t"
  shows "is_codepoint_boundary lib t p = Some (is_char_boundary s p) \<and> rope_byte_at lib t p = Some (s ! p)
    \<and> (is_char_boundary s p \<longrightarrow>
        (\<exists>q > p. next_codepoint_offset lib t p = Some (Some q) \<and> is_char_boundary s q
           \<and> (\<forall>i. p < i \<longrightarrow> i < q \<longrightarrow> \<not> is_char_boundary s i) \<and> prev_codepoint_offset lib t q = Some (Some p))
        \<and> (\<exists>u. node_count base_metric utf16_metric t p = Some u \<and> u = count_utf16_code_units (take p s)
           \<and> count_base_units base_metric utf16_metric t u = Some p))"
  using byte_search_laws.rope_characters_spec [OF laws t p] unfolding s_def .

theorem rope_characters_witness:
  "next_codepoint_offset naive_search (rope_of [0xC3, 0xA9, 0x62]) 0 = Some (Some 2)
    \<and> is_codepoint_boundary naive_search (rope_of [0xC3, 0xA9, 0x62]) 1 = Some False"
proof -
  let ?s = "[0xC3, 0xA9, 0x62] :: str"
  have leaf: "str_leaf_wf ?s" by code_simp
  have "is_char_boundary ?s 2" "is_char_boundary ?s 0" "\<not> is_char_boundary ?s 1" by code_simp+
  moreover have "n_len (rope_of ?s) = 3" by code_simp
  moreover note rope_characters [OF naive.byte_search_laws_axioms rope_of_ok [OF leaf], of 0]
    rope_characters [OF naive.byte_search_laws_axioms rope_of_ok [OF leaf], of 1]
  ultimately show ?thesis
    by (auto simp: rope_of_wf(2)) (metis One_nat_def Suc_lessI less_2_cases_iff linorder_neqE_nat numeral_2_eq_2)
qed

text \<open>In ropes of at most four levels the chunk at an offset is the leaf around it, reported with the
  byte, line and UTF-16 offset at which it begins.\<close>

theorem chunk_at_offset_metrics:
  assumes laws: "byte_search_laws lib" and t: "rope_ok lib t" "n_height t \<le> 4" and p: "p \<le> n_len t"
  shows "\<exists>pre leaf post. rope_text t = pre @ leaf @ post \<and> length pre \<le> p \<and> p \<le> length (pre @ leaf)
    \<and> chunk_at_offset lib t p = Some (Some (leaf, length pre, newlines pre, count_utf16_code_units pre))"
  using assms by (rule byte_search_laws.chunk_at_offset_low)

theorem chunk_at_offset_metrics_witness:
  "chunk_at_offset naive_search (rope_of [0x61, NL]) 2 = Some (Some ([0x61, NL], 0, 0, 0))"
proof -
  have leaf: "str_leaf_wf [0x61, NL]" by code_simp
  have h: "n_height (rope_of [0x61, NL]) \<le> 4" "2 \<le> n_len (rope_of [0x61, NL])" by code_simp+
  have "chunk_at_offset naive_search (rope_of [0x61, NL]) 2 = Some (Some ([0x61, NL], 0, 0, 0))" by code_simp
  with chunk_at_offset_metrics [OF naive.byte_search_laws_axioms rope_of_ok [OF leaf] h] show ?thesis by blast
qed


text \<open>C28.  The text of an interval of a rope, its lines (as \<^verbatim>\<open>str::lines\<close> defines them) and its characters, as
  the chunk, line and character iterators deliver them, are those of the text, however it is divided into
  leaves; in particular the iterators end.\<close>

theorem rope_iterators:
  assumes laws: "byte_search_laws lib" and t: "rope_ok lib t" and p: "p \<le> e" "e \<le> n_len t"
    and cut: "is_char_boundary (rope_text t) p" "is_char_boundary (rope_text t) e"
  shows "slice_to_cow lib t (BRange p e) = Some (slice (rope_text t) p e)
    \<and> lines_raw t (BRange p e) \<bind> lines_collect lib = Some (text_lines (slice (rope_text t) p e))
    \<and> bytes_new t p e \<bind> chars_collect lib = Some (str_chars (slice (rope_text t) p e))"
proof -
  have iv: "into_interval (BRange p e) (n_len t) = Some (mk_iv p e)" by (simp add: mk_iv_def)
  obtain it where it: "bytes_new t p e = Some it" "byte_search_laws.chunk_state lib t it p e"
    using byte_search_laws.bytes_new_state [OF laws t p cut] by metis
  show ?thesis
    using byte_search_laws.slice_to_cow_spec [OF laws t iv p cut] byte_search_laws.rope_lines_iter [OF laws t iv p cut]
      byte_search_laws.chars_collect_spec [OF laws it(2)] it(1) by simp
qed

theorem rope_iterators_witness:
  "lines_raw (rope_of [0x61, CR, NL, 0x62]) (BRange 0 4) \<bind> lines_collect naive_search = Some [[0x61], [0x62]]"
proof -
  let ?s = "[0x61, CR, NL, 0x62] :: str"
  have leaf: "str_leaf_wf ?s" by code_simp
  have "is_char_boundary ?s 0" "is_char_boundary ?s 4" "0 \<le> (4 :: nat)" "4 \<le> n_len (rope_of ?s)" by code_simp+
  moreover have "text_lines (slice ?s 0 4) = [[0x61], [0x62]]" by code_simp
  ultimately show ?thesis
    using rope_iterators [OF naive.byte_search_laws_axioms rope_of_ok [OF leaf], of 0 4] by (simp add: rope_of_wf(2))
qed

text \<open>C29.  A rope as a list of characters: reading a character, converting between character and byte
  indices, replacing a range of characters and splitting the rope act on the list of characters of its text,
  keep the rope well-formed, and refuse ranges outside of it with the matching error.\<close>

theorem rope_char_operations:
  assumes laws: "byte_search_laws lib" and t: "rope_ok lib t" and new: "utf8_valid txt"
  defines "cs \<equiv> str_chars (rope_text t)"
  shows "get_char t k = Some (if k < length cs then Some (cs ! k) else None)
    \<and> try_char_to_byte t k = Some (if length cs < k then Inl (CharOffsetOutOfBounds k (length cs))
        else Inr (length (concat (take k cs))))
    \<and> (k \<le> length cs \<longrightarrow> try_byte_to_char lib t (length (concat (take k cs))) = Some (Inr k)
        \<and> (\<exists>left right. try_split_off lib t k = Some (Inr (left, right)) \<and> rope_ok lib left \<and> rope_ok lib right
             \<and> str_chars (rope_text left) = take k cs \<and> str_chars (rope_text right) = drop k cs))
    \<and> (if j < i then try_replace lib t (Included i) (Excluded j) txt = Some (Inl (CharReversedInterval i j))
       else if length cs < j then try_replace lib t (Included i) (Excluded j) txt
              = Some (Inl (CharIntervalOutOfBounds i j (length cs)))
       else \<exists>t'. try_replace lib t (Included i) (Excluded j) txt = Some (Inr t') \<and> rope_ok lib t'
              \<and> str_chars (rope_text t') = take i cs @ str_chars txt @ drop j cs)"
  using byte_search_laws.get_char_spec [OF laws t, of k] byte_search_laws.try_char_to_byte_spec [OF laws t, of k]
    byte_search_laws.try_byte_to_char_spec [OF laws t, of k] byte_search_laws.try_split_off_spec [OF laws t, of k]
    byte_search_laws.try_replace_spec(1,3) [OF laws t new, of i j] byte_search_laws.try_replace_spec(2) [OF laws t new, of j i]
  by (simp add: cs_def char_offset_def Let_def)

theorem rope_char_operations_witness:
  "\<exists>t'. try_replace naive_search (rope_of [0xC3, 0xA9, 0x62]) (Included 0) (Excluded 1) [0x63] = Some (Inr t')
     \<and> str_chars (rope_text t') = [[0x63], [0x62]]"
proof -
  let ?s = "[0xC3, 0xA9, 0x62] :: str"
  have leaf: "str_leaf_wf ?s" and new: "utf8_valid [0x63]" by code_simp+
  have cs: "str_chars ?s = [[0xC3, 0xA9], [0x62]]" "str_chars [0x63] = [[0x63]]" by code_simp+
  from rope_char_operations [OF naive.byte_search_laws_axioms rope_of_ok [OF leaf] new, of 0 1 0, unfolded rope_of_wf(2) cs]
  show ?thesis by (auto simp del: str_chars.simps)
qed


section \<open>Words\<close>

text \<open>C30.  From a character boundary, a new word cursor finds the boundary behind the word, or run of
  characters of a class, that begins there, and the one before the word that ends there, across leaves of the
  rope; at the ends of the text there is none.\<close>

theorem word_boundaries:
  assumes laws: "byte_search_laws lib" and t: "rope_ok lib t" and p: "is_char_boundary (rope_text t) p"
  defines "s \<equiv> rope_text t"
  shows "\<exists>cu cu1 cu2. wc_new t p = Some cu
    \<and> wc_next_boundary lib cu = Some (cu1, if p = length s then None else Some (p + next_word_bytes (str_chars (drop p s))))
    \<and> wc_prev_boundary lib cu = Some (cu2, if p = 0 then None else Some (p - prev_word_bytes (str_chars (take p s))))"
  using byte_search_laws.wc_next_boundary_spec [OF laws t p] byte_search_laws.wc_prev_boundary_spec [OF laws t p]
  unfolding s_def by (metis option.inject)

theorem word_boundaries_witness:
  "\<exists>cu cu1 cu2. wc_new (rope_of [0x61, 0x62, 0x20, 0x63]) 3 = Some cu
    \<and> wc_next_boundary naive_search cu = Some (cu1, Some 4) \<and> wc_prev_boundary naive_search cu = Some (cu2, Some 0)"
proof -
  let ?s = "[0x61, 0x62, 0x20, 0x63] :: str"
  have leaf: "str_leaf_wf ?s" and b: "is_char_boundary ?s 3" by code_simp+
  have n: "next_word_bytes (str_chars (drop 3 ?s)) = 1" "prev_word_bytes (str_chars (take 3 ?s)) = 3" by code_simp+
  from word_boundaries [OF naive.byte_search_laws_axioms rope_of_ok [OF leaf], of 3, unfolded rope_of_wf(2) n, OF b]
  show ?thesis by simp
qed

section \<open>Breaks, lines and probes\<close>

text \<open>C31.  Breaks: the builder makes a tree with a break behind each of the given lines; the number of a break
  gives its offset, and an offset the number of breaks up to it.  The number after the last break is
  answered with an offset behind the end.  Replacing a range by text without breaks removes the breaks of the
  range, keeps those before it and moves those behind it.\<close>

theorem breaks_positions:
  assumes ns: "\<forall>n \<in> set ns. 0 < n"
  shows "\<exists>bb t. add_breaks bb_new ns = Some bb \<and> bb_build (add_no_break bb m) = Some t \<and> n_len t = sum_list ns + m
    \<and> node_measure breaks_metric t = length ns
    \<and> (\<forall>k \<le> length ns. count_base_units breaks_base_metric breaks_metric t k = Some (sum_list (take k ns)))
    \<and> (\<forall>i \<le> n_len t. node_count breaks_base_metric breaks_metric t i
         = Some (length (filter (\<lambda>k. sum_list (take k ns) \<le> i) [1..<Suc (length ns)])))
    \<and> (\<exists>e > n_len t. count_base_units breaks_base_metric breaks_metric t (length ns + 1) = Some e)
    \<and> (\<forall>b e n. b \<le> e \<and> e \<le> n_len t \<longrightarrow>
         (\<exists>t'. node_edit breaks_ni t (BInterval (mk_iv b e)) (new_no_break n) = Some t' \<and> n_len t' = n_len t - (e - b) + n
           \<and> (\<forall>i \<le> b. node_count breaks_base_metric breaks_metric t' i = node_count breaks_base_metric breaks_metric t i)
           \<and> (\<forall>i. e \<le> i \<longrightarrow> i \<le> n_len t \<longrightarrow> (\<exists>nb ne nx. node_count breaks_base_metric breaks_metric t b = Some nb
                \<and> node_count breaks_base_metric breaks_metric t e = Some ne \<and> node_count breaks_base_metric breaks_metric t i = Some nx
                \<and> node_count breaks_base_metric breaks_metric t' (b + n + (i - e)) = Some (nb + (nx - ne))))))"
proof -
  obtain bb t where t: "add_breaks bb_new ns = Some bb" "bb_build (add_no_break bb m) = Some t" "breaks_ok t"
    "n_len t = sum_list ns + m" "node_measure breaks_metric t = length ns"
    "\<forall>k \<le> length ns. count_base_units breaks_base_metric breaks_metric t k = Some (sum_list (take k ns))"
    "\<forall>i \<le> n_len t. node_count breaks_base_metric breaks_metric t i
         = Some (length (filter (\<lambda>k. sum_list (take k ns) \<le> i) [1..<Suc (length ns)]))"
    using breaks_built [OF ns, of m] .
  note past = breaks_past [OF t(3), unfolded t(5)]
  have "\<exists>t'. node_edit breaks_ni t (BInterval (mk_iv b e)) (new_no_break n) = Some t' \<and> n_len t' = n_len t - (e - b) + n
       \<and> (\<forall>i \<le> b. node_count breaks_base_metric breaks_metric t' i = node_count breaks_base_metric breaks_metric t i)
       \<and> (\<forall>i. e \<le> i \<longrightarrow> i \<le> n_len t \<longrightarrow> (\<exists>nb ne nx. node_count breaks_base_metric breaks_metric t b = Some nb
            \<and> node_count breaks_base_metric breaks_metric t e = Some ne \<and> node_count breaks_base_metric breaks_metric t i = Some nx
            \<and> node_count breaks_base_metric breaks_metric t' (b + n + (i - e)) = Some (nb + (nx - ne))))"
    if be: "b \<le> e \<and> e \<le> n_len t" for b e n
    by (rule breaks_edited [OF t(3) conjunct1 [OF be] conjunct2 [OF be], of n], rule exI) (intro conjI; assumption)
  then show ?thesis using t past by blast
qed

theorem breaks_positions_witness:
  "\<exists>bb t. add_breaks bb_new [3, 2] = Some bb \<and> bb_build (add_no_break bb 4) = Some t \<and> n_len t = 9
    \<and> count_base_units breaks_base_metric breaks_metric t 2 = Some 5
    \<and> node_count breaks_base_metric breaks_metric t 4 = Some 1"
proof -
  have "\<forall>n \<in> set [3, 2::nat]. 0 < n" by simp
  from breaks_positions [OF this, of 4] show ?thesis
    by (elim exE conjE, intro exI conjI) (assumption | simp)+
qed

text \<open>C32.  Line and column.  Both for the lines of the text and for a set of breaks, an offset on a character
  boundary is assigned the number of line ends before it and its distance from the last one, and from these
  two the offset is found again when a grapheme cluster starts there.  An offset outside of the text and a
  line number that is too large are refused with the matching error.\<close>

theorem line_columns:
  assumes laws: "byte_search_laws lib" and t: "rope_ok lib t" and b: "breaks_ok b" "n_len b = n_len t"
    and lo: "(lo, bits) \<in> {(logical_lines lib, map (\<lambda>c. c = NL) (rope_text t)), (breaks_lines lib b, tree_bits b)}"
  shows "(\<forall>i. is_char_boundary (rope_text t) i \<longrightarrow>
       try_offset_to_line_col lo t i = Some (Inr (cnt id (take i bits), length (takeWhile Not (rev (take i bits)))))
       \<and> ((i < n_len t \<longrightarrow> prev_grapheme_offset lib gl t (i + 1) = Some (Some i)) \<longrightarrow>
          try_line_col_to_offset lib gl lo t (cnt id (take i bits)) (length (takeWhile Not (rev (take i bits)))) = Some (Inr i)))
    \<and> (\<forall>i > n_len t. try_offset_to_line_col lo t i = Some (Inl (OffsetOutOfBounds i (n_len t))))
    \<and> (\<forall>col. try_line_col_to_offset lib gl lo t (cnt id bits + 1) col = Some (Inr (n_len t)))
    \<and> (\<forall>k col. cnt id bits + 1 < k \<longrightarrow>
        try_line_col_to_offset lib gl lo t k col = Some (Inl (LineOutOfBounds k (cnt id bits + 1))))"
proof -
  have d: "wrapped_document lib t b"
    using laws t b by (intro wrapped_document.intro plain_document.intro plain_document_axioms.intro wrapped_document_axioms.intro)
  have valid: "utf8_valid (rope_text t)" using laws t by (rule byte_search_laws.rope_valid)
  from lo wrapped_document.line_columns [OF d, of _ gl] show ?thesis by (auto simp: cut_lead [OF valid])
qed


theorem line_columns_witness:
  "try_offset_to_line_col (logical_lines naive_search) (rope_of [0x61, NL, 0x62]) 2 = Some (Inr (1, 0))
    \<and> try_line_col_to_offset naive_search char_clusters (logical_lines naive_search) (rope_of [0x61, NL, 0x62]) 1 0 = Some (Inr 2)
    \<and> try_offset_to_line_col (breaks_lines naive_search (new_no_break 3)) (rope_of [0x61, NL, 0x62]) 2 = Some (Inr (0, 2))
    \<and> try_offset_to_line_col (logical_lines naive_search) (rope_of [0x61, NL, 0x62]) 4 = Some (Inl (OffsetOutOfBounds 4 3))"
proof -
  let ?t = "rope_of [0x61, NL, 0x62]" and ?b = "new_no_break 3"
  have leaf: "str_leaf_wf [0x61, NL, 0x62]" by code_simp
  have len: "n_len ?b = n_len ?t" "n_len ?t = 3" by code_simp+
  have two: "is_char_boundary [0x61, NL, 0x62] 2" by code_simp
  have g: "prev_grapheme_offset naive_search char_clusters ?t (2 + 1) = Some (Some 2)" by code_simp
  note r = line_columns [OF naive.byte_search_laws_axioms rope_of_ok [OF leaf] new_no_break_ok(1) len(1), unfolded rope_of_wf(2) new_no_break_ok(2) len(2)]
  note l = r [OF insertI1, where gl = char_clusters] and s = r [OF insertI2 [OF insertI1], where gl = char_clusters]
  have n: "cnt id (take 2 (map (\<lambda>c. c = NL) [0x61, NL, 0x62])) = 1"
    "length (takeWhile Not (rev (take 2 (map (\<lambda>c. c = NL) [0x61, NL, 0x62])))) = 0" by code_simp+
  have m: "cnt id (take 2 (replicate 3 False)) = 0" "length (takeWhile Not (rev (take 2 (replicate 3 False)))) = 2"
    by code_simp+
  from l [THEN conjunct1, rule_format, OF two, unfolded n] g
    s [THEN conjunct1, rule_format, OF two, unfolded m] l [THEN conjunct2, THEN conjunct1, rule_format, of 4]
  show ?thesis by simp
qed




section \<open>Very large files\<close>


definition small_platform :: platform where
  "small_platform = \<lparr>pf_piece_size = 8, pf_scale = (\<lambda>units part whole. units * part div whole)\<rparr>"

definition flat_metrics :: "nat \<Rightarrow> text_metrics" where
  "flat_metrics n = \<lparr>tm_byte_len = n, tm_utf16_len = n, tm_newline_count = 0, tm_ends_with_cr = False, tm_starts_with_lf = False\<rparr>"


text \<open>C35.  The limits of an overlay.  In every reachable overlay the number of recorded undo groups is bounded and
  every recorded insertion still has its bytes.  Before an edit, enough old groups are dropped to make room for it; it is
  refused only when no group is left.  Dropping groups keeps the document and the other groups.\<close>

theorem overlay_limits:
  assumes run: "overlay_run pf disk lim ov doc"
  shows "length (ov_undo_history ov) \<le> max 1 (max_undo_groups lim)
    \<and> (\<forall>g d. delta_for_group ov g = Some d \<longrightarrow> list_all (op_ok (ov_buffers ov)) (od_ops d))
    \<and> (\<forall>n e ov'. enforce_limits pf ov n = (e, ov') \<longrightarrow> ov_ok disk ov' \<and> ov_text disk ov' = doc
        \<and> (length (ov_undo_history ov') < max_undo_groups lim \<or> ov_undo_history ov' = [])
        \<and> (\<forall>g d. delta_for_group ov' g = Some d \<longrightarrow> delta_for_group ov g = Some d)
        \<and> (case e of
             None \<Rightarrow> overlay_bytes pf ov' + n \<le> overlay_byte_cap lim
           | Some err \<Rightarrow> err = LimitReached (MemoryCap (overlay_byte_cap lim) (overlay_bytes pf ov'))
               \<and> ov_undo_history ov' = [] \<and> overlay_bytes pf ov' + n > overlay_byte_cap lim))
    \<and> (\<forall>g. ov_ok disk (gc_undo_group ov g) \<and> ov_text disk (gc_undo_group ov g) = doc
        \<and> delta_for_group (gc_undo_group ov g) = (delta_for_group ov)(g := None))"
proof -
  have ok: "ov_ok disk ov" "ov_text disk ov = doc" "ov_limits ov = lim" using overlay_run_ok [OF run] by simp_all
  have few: "length (ov_undo_history ov) \<le> max 1 (max_undo_groups lim)"
    using overlay_run_few [OF run] ok(3) by (simp add: few_groups_def)
  have ops: "\<forall>g d. delta_for_group ov g = Some d \<longrightarrow> list_all (op_ok (ov_buffers ov)) (od_ops d)"
    using ok(1) by (auto simp: ov_ok_def history_ok_def delta_for_group_def dest!: map_of_SomeD)
  have enf: "ov_ok disk ov' \<and> ov_text disk ov' = doc
        \<and> (length (ov_undo_history ov') < max_undo_groups lim \<or> ov_undo_history ov' = [])
        \<and> (\<forall>g d. delta_for_group ov' g = Some d \<longrightarrow> delta_for_group ov g = Some d)
        \<and> (case e of
             None \<Rightarrow> overlay_bytes pf ov' + n \<le> overlay_byte_cap lim
           | Some err \<Rightarrow> err = LimitReached (MemoryCap (overlay_byte_cap lim) (overlay_bytes pf ov'))
               \<and> ov_undo_history ov' = [] \<and> overlay_bytes pf ov' + n > overlay_byte_cap lim)"
    if h: "enforce_limits pf ov n = (e, ov')" for n e ov'
  proof -
    note l = enforce_limits_spec [OF ok(1) h, unfolded ok(3)]
    have "ov_ok disk ov'" "ov_text disk ov' = doc" "map_of (ov_undo_history ov') \<subseteq>\<^sub>m map_of (ov_undo_history ov)"
      using l(1) ok(2) by (simp_all add: keeps_def)
    moreover from this(3) have "\<forall>g d. delta_for_group ov' g = Some d \<longrightarrow> delta_for_group ov g = Some d"
      unfolding delta_for_group_def map_le_def by (metis domI)
    ultimately show ?thesis using l(2-4) by (cases e) auto
  qed
  have gc: "ov_ok disk (gc_undo_group ov g) \<and> ov_text disk (gc_undo_group ov g) = doc
        \<and> delta_for_group (gc_undo_group ov g) = (delta_for_group ov)(g := None)" for g
    using gc_undo_group_keeps [OF ok(1), of g] ok(2) by (simp add: keeps_def delta_for_group_def fun_eq_iff)
  show ?thesis using few ops enf gc by blast
qed

theorem overlay_limits_witness:
  "\<exists>ov'. enforce_limits small_platform (overlay_new (flat_metrics 4)) 3 = (None, ov') \<and> ov_text [0x61, 0x62, 0x63, 0x64] ov' = [0x61, 0x62, 0x63, 0x64]"
proof -
  let ?ov = "overlay_new (flat_metrics 4)" and ?d = "[0x61, 0x62, 0x63, 0x64]"
  have run: "overlay_run small_platform ?d overlay_limits_default ?ov ?d"
    unfolding overlay_new_def by (rule run_start) (simp add: flat_metrics_def)
  have e: "fst (enforce_limits small_platform ?ov 3) = None" by code_simp
  obtain ov' where en: "enforce_limits small_platform ?ov 3 = (None, ov')" using e by (metis prod.collapse)
  from overlay_limits [OF run] en show ?thesis by blast
qed






















end
